(* ===== verification/Go_Prelude.thy ===== *)
theory Go_Prelude
  imports Main "HOL-Library.Multiset"
begin

text \<open>
  Shared vocabulary of the development: run-time panics as values, checked indexing and slicing
  of Go slices, the arithmetic of majorities, and the generic lemmas on lists and maps that the
  components use. Go's \<^verbatim>\<open>int\<close> is modelled by \<^typ>\<open>int\<close> (terms, log indices and sequence numbers
  grow by one per event, so their 64-bit range is not reached); identifiers that are built by
  shifting and masking are modelled by words in the theories that use them.
\<close>

section \<open>Panics and checked slice access\<close>

datatype panic = IndexOutOfRange

type_synonym 'a go = "panic + 'a"

text \<open>\<^verbatim>\<open>xs[i]\<close>, \<^verbatim>\<open>xs[i:]\<close>, \<^verbatim>\<open>xs[:i]\<close> and \<^verbatim>\<open>xs[i] = v\<close> with Go's bounds checks.\<close>

definition go_index :: "'a list \<Rightarrow> int \<Rightarrow> 'a go" where
  "go_index xs i = (if 0 \<le> i \<and> i < int (length xs) then Inr (xs ! nat i) else Inl IndexOutOfRange)"

definition go_from :: "'a list \<Rightarrow> int \<Rightarrow> 'a list go" where
  "go_from xs i = (if 0 \<le> i \<and> i \<le> int (length xs) then Inr (drop (nat i) xs) else Inl IndexOutOfRange)"

definition go_store :: "'a list \<Rightarrow> int \<Rightarrow> 'a \<Rightarrow> 'a list go" where
  "go_store xs i v =
     (if 0 \<le> i \<and> i < int (length xs) then Inr (xs[nat i := v]) else Inl IndexOutOfRange)"

lemma go_index_Inr [simp]:
  "go_index xs i = Inr x \<longleftrightarrow> 0 \<le> i \<and> i < int (length xs) \<and> x = xs ! nat i"
  by (auto simp: go_index_def)

lemma go_from_Inr [simp]:
  "go_from xs i = Inr ys \<longleftrightarrow> 0 \<le> i \<and> i \<le> int (length xs) \<and> ys = drop (nat i) xs"
  by (auto simp: go_from_def)

lemma go_store_Inr [simp]:
  "go_store xs i v = Inr ys \<longleftrightarrow> 0 \<le> i \<and> i < int (length xs) \<and> ys = xs[nat i := v]"
  by (auto simp: go_store_def)

lemma nat_int_minus_1 [simp]: "nat (int n - 1) = n - 1"
  by arith

section \<open>Majorities\<close>

text \<open>
  The contract of a quorum system over the servers: two quorums share a server.
\<close>

locale quorum_system =
  fixes servers :: "'p set" and is_quorum :: "'p set \<Rightarrow> bool"
  assumes quorum_meets:
    "\<lbrakk>is_quorum Q; is_quorum R; Q \<subseteq> servers; R \<subseteq> servers\<rbrakk> \<Longrightarrow> Q \<inter> R \<noteq> {}"
begin

lemma quorums_share:
  assumes "is_quorum Q" "is_quorum R" "Q \<subseteq> servers" "R \<subseteq> servers"
  obtains p where "p \<in> Q" "p \<in> R" "p \<in> servers"
proof -
  have "Q \<inter> R \<noteq> {}" using assms by (rule quorum_meets)
  then obtain p where "p \<in> Q" "p \<in> R" by auto
  then show thesis using that assms(3) by auto
qed

lemma functional_votes_agree:
  assumes "is_quorum Q" "is_quorum R" "Q \<subseteq> servers" "R \<subseteq> servers"
    and "\<And>p. p \<in> Q \<Longrightarrow> vote p = a" and "\<And>p. p \<in> R \<Longrightarrow> vote p = b"
  shows "a = b"
  using assms by (metis quorums_share)

end

lemma card_sum_meet:
  assumes "finite S" "Q \<subseteq> S" "R \<subseteq> S" "card S < card Q + card R"
  shows "Q \<inter> R \<noteq> {}"
proof
  assume "Q \<inter> R = {}"
  then have "card (Q \<union> R) = card Q + card R"
    using assms(1-3) by (intro card_Un_disjoint) (auto intro: finite_subset)
  moreover have "card (Q \<union> R) \<le> card S"
    using assms(1-3) by (intro card_mono) auto
  ultimately show False using assms(4) by simp
qed

end
