(* ===== verification/Labgob.thy ===== *)
theory Labgob
  imports Go_Prelude
begin

text \<open>
  \<^verbatim>\<open>labgob/labgob.go\<close>: the encoder and decoder that the servers use for their persistent state and
  their snapshots. The wrapper forwards to Go's \<^verbatim>\<open>encoding/gob\<close>; a gob stream is a sequence of
  self-describing values, and the model keeps exactly that: a buffer is the list of values written
  so far, \<^verbatim>\<open>Encode\<close> appends one value, and \<^verbatim>\<open>Decode\<close> takes the next value and fails when the stream
  is empty or the value has another type than the variable it is read into. The wrapper's
  warnings about field names and non-default variables are in \<^verbatim>\<open>Labgob_Check\<close>.
\<close>

type_synonym 'v buffer = "'v list"

definition Encode :: "'v buffer \<Rightarrow> 'v \<Rightarrow> 'v buffer" where
  "Encode w v = w @ [v]"

definition Decode :: "('v \<Rightarrow> 'a option) \<Rightarrow> 'v buffer \<Rightarrow> ('a \<times> 'v buffer) option" where
  "Decode as_type r =
     (case r of [] \<Rightarrow> None
      | v # r' \<Rightarrow> (case as_type v of None \<Rightarrow> None | Some x \<Rightarrow> Some (x, r')))"

text \<open>
  The contract that the persistent state of Raft and the snapshots of the services rely on: what
  was encoded of a state, its view, is decoded again, and an encoding is never empty (an empty
  buffer means that nothing was ever saved).
\<close>

locale codec =
  fixes enc :: "'y \<Rightarrow> 'v buffer" and dec :: "'v buffer \<Rightarrow> 'x option" and view :: "'y \<Rightarrow> 'x"
  assumes dec_enc: "dec (enc y) = Some (view y)"
    and enc_nonempty: "enc y \<noteq> []"
begin

lemma enc_determines_view: "enc y = enc z \<Longrightarrow> view y = view z"
  by (metis dec_enc option.inject)

lemma recover_enc:
  "(if enc y = [] then fresh else case dec (enc y) of None \<Rightarrow> fresh | Some x \<Rightarrow> x) = view y"
  by (simp add: dec_enc enc_nonempty)

end

end
