(* ===== verification/Raft_Persister.thy ===== *)
theory Raft_Persister
  imports Labgob
begin

text \<open>
  \<^verbatim>\<open>raft/persister.go\<close>: stable storage of one server, the encoded Raft state and the service
  snapshot. \<^verbatim>\<open>clone\<close> copies a byte slice, so a stored buffer is never shared with its writer; the
  byte sizes that \<^verbatim>\<open>RaftStateSize\<close> and \<^verbatim>\<open>SnapshotSize\<close> report depend on gob's wire format, which is a
  parameter of the model.
\<close>

record ('v, 's) persister =
  raftstate :: "'v buffer"
  snapshot :: "'s buffer"

definition MakePersister :: "('v, 's) persister" where
  "MakePersister = \<lparr>raftstate = [], snapshot = []\<rparr>"

fun clone :: "'a list \<Rightarrow> 'a list" where
  "clone [] = []"
| "clone (b # bs) = b # clone bs"

definition Copy :: "('v, 's) persister \<Rightarrow> ('v, 's) persister" where
  "Copy ps = (MakePersister\<lparr>raftstate := raftstate ps, snapshot := snapshot ps\<rparr>)"

definition SaveRaftState :: "'v buffer \<Rightarrow> ('v, 's) persister \<Rightarrow> ('v, 's) persister" where
  "SaveRaftState st ps = ps\<lparr>raftstate := clone st\<rparr>"

definition ReadRaftState :: "('v, 's) persister \<Rightarrow> 'v buffer" where
  "ReadRaftState ps = clone (raftstate ps)"

definition RaftStateSize :: "('v buffer \<Rightarrow> int) \<Rightarrow> ('v, 's) persister \<Rightarrow> int" where
  "RaftStateSize bytes ps = bytes (raftstate ps)"

definition SaveStateAndSnapshot ::
    "'v buffer \<Rightarrow> 's buffer \<Rightarrow> ('v, 's) persister \<Rightarrow> ('v, 's) persister" where
  "SaveStateAndSnapshot st snap ps = ps\<lparr>raftstate := clone st, snapshot := clone snap\<rparr>"

definition ReadSnapshot :: "('v, 's) persister \<Rightarrow> 's buffer" where
  "ReadSnapshot ps = clone (snapshot ps)"

definition SnapshotSize :: "('s buffer \<Rightarrow> int) \<Rightarrow> ('v, 's) persister \<Rightarrow> int" where
  "SnapshotSize bytes ps = bytes (snapshot ps)"

lemma clone_id [simp]: "clone xs = xs"
  by (induction xs) auto

lemma Copy_id [simp]: "Copy ps = ps"
  by (simp add: Copy_def MakePersister_def)

lemmas persister_defs = MakePersister_def SaveRaftState_def ReadRaftState_def
  SaveStateAndSnapshot_def ReadSnapshot_def RaftStateSize_def SnapshotSize_def

end
