(* ===== verification/Raft_Node.thy ===== *)
theory Raft_Node
  imports Raft_Persister
begin

text \<open>
  \<^verbatim>\<open>raft/raft.go\<close>, one server: the state of \<^verbatim>\<open>Raft\<close>, its RPC handlers, the goroutines of elections
  and replication cut at their lock regions, and the apply loop. Every definition is the code of one
  critical section (the code between \<^verbatim>\<open>rf.mu.Lock()\<close> and \<^verbatim>\<open>Unlock()\<close>), as a function from the state
  before to the state after and the reply or message the section produces.

  Conventions. \<^verbatim>\<open>peers\<close> is the number of servers, \<^verbatim>\<open>me\<close> the index of this one. A timer is the
  duration in milliseconds it was last reset to; \<^verbatim>\<open>rnd\<close> is the value of \<^verbatim>\<open>rand.Intn(200)\<close>.
  \<^verbatim>\<open>applyCond\<close> records that the condition variable was signalled. \<^verbatim>\<open>votes\<close> holds the closure
  variable \<^verbatim>\<open>votes\<close> of \<^verbatim>\<open>startElection\<close>: one counter per call, found by the term of the call, since
  every call raises \<^verbatim>\<open>currentTerm\<close>.
\<close>

section \<open>Data\<close>

datatype raftState = StateFollower | StateCandidate | StateLeader

definition HeartbeatInterval :: int where "HeartbeatInterval = 100"
definition ElectionTimeoutMin :: int where "ElectionTimeoutMin = 300"
definition ElectionTimeoutMax :: int where "ElectionTimeoutMax = 500"

record ('c, 's) ApplyMsg =
  am_CommandValid :: bool
  am_Command :: "'c option"
  am_CommandIndex :: int
  am_SnapshotValid :: bool
  am_Snapshot :: "'s buffer"
  am_SnapshotTerm :: int
  am_SnapshotIndex :: int

record 'c LogEntry =
  Term :: int
  Command :: 'c

text \<open>The values that \<^verbatim>\<open>persist\<close> writes to the gob stream: integers and the log.\<close>

datatype 'c gobval = GInt int | GLog "'c LogEntry list"

fun asInt :: "'c gobval \<Rightarrow> int option" where
  "asInt (GInt i) = Some i"
| "asInt (GLog _) = None"

fun asLog :: "'c gobval \<Rightarrow> 'c LogEntry list option" where
  "asLog (GLog l) = Some l"
| "asLog (GInt _) = None"

record ('c, 's) raft =
  peers :: nat
  me :: nat
  Persister :: "('c gobval, 's) persister"
  dead :: bool
  state :: raftState
  currentTerm :: int
  votedFor :: int
  log :: "'c LogEntry list"
  lastIncludedIndex :: int
  lastIncludedTerm :: int
  commitIndex :: int
  lastApplied :: int
  nextIndex :: "int list"
  matchIndex :: "int list"
  electionTimer :: int
  heartbeatTimer :: int
  applyCond :: bool
  votes :: "int \<Rightarrow> nat"

section \<open>Index arithmetic\<close>

definition randomElectionTimeout :: "int \<Rightarrow> int" where
  "randomElectionTimeout rnd = ElectionTimeoutMin + rnd"

definition toSliceIndex :: "('c, 's) raft \<Rightarrow> int \<Rightarrow> int" where
  "toSliceIndex rf globalIndex = globalIndex - lastIncludedIndex rf - 1"

definition lastLogIndex :: "('c, 's) raft \<Rightarrow> int" where
  "lastLogIndex rf = lastIncludedIndex rf + int (length (log rf))"

definition lastLogTerm :: "('c, 's) raft \<Rightarrow> int" where
  "lastLogTerm rf =
     (if length (log rf) = 0 then lastIncludedTerm rf
      else Term (log rf ! (length (log rf) - 1)))"

definition termAt :: "('c, 's) raft \<Rightarrow> int \<Rightarrow> int" where
  "termAt rf globalIndex =
     (if globalIndex = lastIncludedIndex rf then lastIncludedTerm rf
      else if globalIndex < lastIncludedIndex rf then -1
      else let sliceIdx = toSliceIndex rf globalIndex in
        if sliceIdx < 0 \<or> sliceIdx \<ge> int (length (log rf)) then -1
        else Term (log rf ! nat sliceIdx))"

definition GetState :: "('c, 's) raft \<Rightarrow> int \<times> bool" where
  "GetState rf = (currentTerm rf, state rf = StateLeader)"

section \<open>Persistence\<close>

definition encodeState :: "('c, 's) raft \<Rightarrow> 'c gobval buffer" where
  "encodeState rf =
     Encode (Encode (Encode (Encode (Encode []
       (GInt (currentTerm rf)))
       (GInt (votedFor rf)))
       (GLog (log rf)))
       (GInt (lastIncludedIndex rf)))
       (GInt (lastIncludedTerm rf))"

definition persist :: "('c, 's) raft \<Rightarrow> ('c, 's) raft" where
  "persist rf = rf\<lparr>Persister := SaveRaftState (encodeState rf) (Persister rf)\<rparr>"

text \<open>The chain of five \<^verbatim>\<open>Decode\<close> calls of \<^verbatim>\<open>readPersist\<close>: any failure abandons the whole read.\<close>

definition decodeState ::
    "'c gobval buffer \<Rightarrow> (int \<times> int \<times> 'c LogEntry list \<times> int \<times> int) option" where
  "decodeState r0 =
     (case Decode asInt r0 of None \<Rightarrow> None | Some (ct, r1) \<Rightarrow>
      case Decode asInt r1 of None \<Rightarrow> None | Some (vf, r2) \<Rightarrow>
      case Decode asLog r2 of None \<Rightarrow> None | Some (lg, r3) \<Rightarrow>
      case Decode asInt r3 of None \<Rightarrow> None | Some (lii, r4) \<Rightarrow>
      case Decode asInt r4 of None \<Rightarrow> None | Some (lit, r5) \<Rightarrow>
        Some (ct, vf, lg, lii, lit))"

definition readPersist :: "'c gobval buffer \<Rightarrow> ('c, 's) raft \<Rightarrow> ('c, 's) raft" where
  "readPersist data rf =
     (if length data < 1 then rf
      else case decodeState data of
        None \<Rightarrow> rf
      | Some (ct, vf, lg, lii, lit) \<Rightarrow>
          rf\<lparr>currentTerm := ct, votedFor := vf, log := lg,
             lastIncludedIndex := lii, lastIncludedTerm := lit,
             commitIndex := lii, lastApplied := lii\<rparr>)"

definition saveWithSnapshot :: "'s buffer \<Rightarrow> ('c, 's) raft \<Rightarrow> ('c, 's) raft" where
  "saveWithSnapshot snap rf =
     rf\<lparr>Persister := SaveStateAndSnapshot (encodeState rf) snap (Persister rf)\<rparr>"

section \<open>Snapshots\<close>

definition CondInstallSnapshot ::
    "int \<Rightarrow> int \<Rightarrow> 's buffer \<Rightarrow> ('c, 's) raft \<Rightarrow> (('c, 's) raft \<times> bool) go" where
  "CondInstallSnapshot lit lii snap rf =
     (if lii \<le> commitIndex rf then Inr (rf, False)
      else case (if lii \<le> lastLogIndex rf
                 then go_from (log rf) (toSliceIndex rf lii + 1) else Inr []) of
        Inl p \<Rightarrow> Inl p
      | Inr lg \<Rightarrow>
          Inr (saveWithSnapshot snap
                 (rf\<lparr>log := lg, lastIncludedIndex := lii, lastIncludedTerm := lit,
                     commitIndex := lii, lastApplied := lii\<rparr>), True))"

definition Snapshot :: "int \<Rightarrow> 's buffer \<Rightarrow> ('c, 's) raft \<Rightarrow> ('c, 's) raft go" where
  "Snapshot index snap rf =
     (if index \<le> lastIncludedIndex rf then Inr rf
      else let sliceIdx = toSliceIndex rf index in
        case go_index (log rf) sliceIdx of
          Inl p \<Rightarrow> Inl p
        | Inr e \<Rightarrow>
          (case go_from (log rf) (sliceIdx + 1) of
             Inl p \<Rightarrow> Inl p
           | Inr lg \<Rightarrow>
               Inr (saveWithSnapshot snap
                 (rf\<lparr>lastIncludedTerm := Term e, log := lg, lastIncludedIndex := index\<rparr>))))"

section \<open>Elections\<close>

record RequestVoteArgs =
  rva_Term :: int
  rva_CandidateId :: int
  rva_LastLogIndex :: int
  rva_LastLogTerm :: int

record RequestVoteReply =
  rvr_Term :: int
  rvr_VoteGranted :: bool

definition isMoreUpToDate :: "('c, 's) raft \<Rightarrow> int \<Rightarrow> int \<Rightarrow> bool" where
  "isMoreUpToDate rf lli llt =
     (let myLastTerm = lastLogTerm rf; myLastIndex = lastLogIndex rf in
      if llt \<noteq> myLastTerm then llt > myLastTerm else lli \<ge> myLastIndex)"

definition resetElectionTimer :: "int \<Rightarrow> ('c, 's) raft \<Rightarrow> ('c, 's) raft" where
  "resetElectionTimer rnd rf = rf\<lparr>electionTimer := randomElectionTimeout rnd\<rparr>"

text \<open>
  The block that \<^verbatim>\<open>RequestVote\<close>, the vote goroutine and both halves of \<^verbatim>\<open>replicateTo\<close> run when they
  see a larger term.
\<close>

definition stepDown :: "int \<Rightarrow> ('c, 's) raft \<Rightarrow> ('c, 's) raft" where
  "stepDown t rf = persist (rf\<lparr>currentTerm := t, state := StateFollower, votedFor := -1\<rparr>)"

definition RequestVote ::
    "int \<Rightarrow> RequestVoteArgs \<Rightarrow> ('c, 's) raft \<Rightarrow> ('c, 's) raft \<times> RequestVoteReply" where
  "RequestVote rnd args rf =
     (if rva_Term args < currentTerm rf
      then (rf, \<lparr>rvr_Term = currentTerm rf, rvr_VoteGranted = False\<rparr>)
      else
        let rf1 = (if rva_Term args > currentTerm rf then stepDown (rva_Term args) rf else rf);
            canVote = (votedFor rf1 = -1 \<or> votedFor rf1 = rva_CandidateId args)
        in if canVote \<and> isMoreUpToDate rf1 (rva_LastLogIndex args) (rva_LastLogTerm args)
           then (resetElectionTimer rnd (persist (rf1\<lparr>votedFor := rva_CandidateId args\<rparr>)),
                 \<lparr>rvr_Term = currentTerm rf1, rvr_VoteGranted = True\<rparr>)
           else (rf1, \<lparr>rvr_Term = currentTerm rf1, rvr_VoteGranted = False\<rparr>))"

text \<open>
  \<^verbatim>\<open>startElection\<close> returns the arguments that its goroutines send to every other peer.
\<close>

definition startElection :: "int \<Rightarrow> ('c, 's) raft \<Rightarrow> ('c, 's) raft \<times> RequestVoteArgs" where
  "startElection rnd rf =
     (let rf1 = resetElectionTimer rnd (persist
                  (rf\<lparr>state := StateCandidate, currentTerm := currentTerm rf + 1,
                      votedFor := int (me rf)\<rparr>));
          args = \<lparr>rva_Term = currentTerm rf1, rva_CandidateId = int (me rf1),
                  rva_LastLogIndex = lastLogIndex rf1, rva_LastLogTerm = lastLogTerm rf1\<rparr>
      in (rf1\<lparr>votes := (votes rf1)(currentTerm rf1 := 1)\<rparr>, args))"

definition majority :: "('c, 's) raft \<Rightarrow> nat" where
  "majority rf = peers rf div 2 + 1"

definition becomeLeader :: "('c, 's) raft \<Rightarrow> ('c, 's) raft" where
  "becomeLeader rf =
     rf\<lparr>state := StateLeader,
        nextIndex := replicate (peers rf) (lastLogIndex rf + 1),
        matchIndex := (replicate (peers rf) 0)[me rf := lastLogIndex rf],
        heartbeatTimer := 0\<rparr>"

text \<open>The second half of the goroutine of \<^verbatim>\<open>startElection\<close>: a reply has arrived.\<close>

definition handleVoteReply ::
    "RequestVoteArgs \<Rightarrow> RequestVoteReply \<Rightarrow> ('c, 's) raft \<Rightarrow> ('c, 's) raft" where
  "handleVoteReply args reply rf =
     (if rvr_Term reply > currentTerm rf then stepDown (rvr_Term reply) rf
      else if state rf \<noteq> StateCandidate \<or> currentTerm rf \<noteq> rva_Term args then rf
      else if rvr_VoteGranted reply
        then let rf1 = rf\<lparr>votes := (votes rf)(rva_Term args := votes rf (rva_Term args) + 1)\<rparr>
             in if votes rf1 (rva_Term args) \<ge> majority rf1 then becomeLeader rf1 else rf1
        else rf)"

section \<open>AppendEntries\<close>

record 'c AppendEntriesArgs =
  aea_Term :: int
  aea_LeaderId :: int
  aea_PrevLogIndex :: int
  aea_PrevLogTerm :: int
  aea_Entries :: "'c LogEntry list"
  aea_LeaderCommit :: int

record AppendEntriesReply =
  aer_Term :: int
  aer_Success :: bool
  aer_ConflictTerm :: int
  aer_ConflictIndex :: int

text \<open>\<^verbatim>\<open>for idx > rf.lastIncludedIndex && rf.termAt(idx-1) == conflictTerm { idx-- }\<close>\<close>

function firstOfTerm :: "('c, 's) raft \<Rightarrow> int \<Rightarrow> int \<Rightarrow> int" where
  "firstOfTerm rf conflictTerm idx =
     (if idx > lastIncludedIndex rf \<and> termAt rf (idx - 1) = conflictTerm
      then firstOfTerm rf conflictTerm (idx - 1) else idx)"
  by pat_completeness auto
termination
  by (relation "measure (\<lambda>(rf, t, idx). nat (idx - lastIncludedIndex rf))") auto

declare firstOfTerm.simps [simp del]

text \<open>
  The loop over \<^verbatim>\<open>args.Entries\<close>, at position \<^verbatim>\<open>i\<close> with the entries from \<^verbatim>\<open>i\<close> on. It stops at the first
  entry that conflicts with the log or lies past its end.
\<close>

fun appendLoop ::
    "int \<Rightarrow> int \<Rightarrow> int \<Rightarrow> 'c LogEntry list \<Rightarrow> 'c LogEntry list \<Rightarrow> 'c LogEntry list" where
  "appendLoop lii prev i [] lg = lg"
| "appendLoop lii prev i (entry # rest) lg =
     (let globalIdx = prev + 1 + i in
      if globalIdx \<le> lii then appendLoop lii prev (i + 1) rest lg
      else let sliceIdx = globalIdx - lii - 1 in
        if sliceIdx < int (length lg)
        then (if Term (lg ! nat sliceIdx) \<noteq> Term entry
              then take (nat sliceIdx) lg @ (entry # rest)
              else appendLoop lii prev (i + 1) rest lg)
        else lg @ (entry # rest))"

definition AppendEntries ::
    "int \<Rightarrow> 'c AppendEntriesArgs \<Rightarrow> ('c, 's) raft \<Rightarrow> ('c, 's) raft \<times> AppendEntriesReply" where
  "AppendEntries rnd args rf =
     (if aea_Term args < currentTerm rf
      then (rf, \<lparr>aer_Term = currentTerm rf, aer_Success = False,
                 aer_ConflictTerm = 0, aer_ConflictIndex = 0\<rparr>)
      else
       let rf1 = (if aea_Term args > currentTerm rf
                  then persist (rf\<lparr>currentTerm := aea_Term args, votedFor := -1\<rparr>) else rf);
           rf2 = resetElectionTimer rnd (rf1\<lparr>state := StateFollower\<rparr>);
           fail = (\<lambda>ct ci. (rf2, \<lparr>aer_Term = currentTerm rf2, aer_Success = False,
                                  aer_ConflictTerm = ct, aer_ConflictIndex = ci\<rparr>));
           prev = aea_PrevLogIndex args
       in if prev < lastIncludedIndex rf2 then fail (-1) (lastIncludedIndex rf2 + 1)
          else if prev > lastLogIndex rf2 then fail (-1) (lastLogIndex rf2 + 1)
          else if termAt rf2 prev \<noteq> aea_PrevLogTerm args
            then fail (termAt rf2 prev) (firstOfTerm rf2 (termAt rf2 prev) prev)
          else
           let rf3 = persist (rf2\<lparr>log := appendLoop (lastIncludedIndex rf2) prev 0
                                            (aea_Entries args) (log rf2)\<rparr>);
               rf4 = (if aea_LeaderCommit args > commitIndex rf3
                      then rf3\<lparr>commitIndex := (if lastLogIndex rf3 < aea_LeaderCommit args
                                               then lastLogIndex rf3 else aea_LeaderCommit args),
                               applyCond := True\<rparr>
                      else rf3)
           in (rf4, \<lparr>aer_Term = currentTerm rf4, aer_Success = True,
                     aer_ConflictTerm = 0, aer_ConflictIndex = 0\<rparr>))"

section \<open>InstallSnapshot\<close>

record 's InstallSnapshotArgs =
  isa_Term :: int
  isa_LeaderId :: int
  isa_LastIncludedIndex :: int
  isa_LastIncludedTerm :: int
  isa_Data :: "'s buffer"

record InstallSnapshotReply =
  isr_Term :: int

text \<open>
  The handler also starts a goroutine that sends the snapshot to the service; the message is
  returned as the third component.
\<close>

definition snapshotMsg :: "'s InstallSnapshotArgs \<Rightarrow> ('c, 's) ApplyMsg" where
  "snapshotMsg args =
     \<lparr>am_CommandValid = False, am_Command = None, am_CommandIndex = 0,
      am_SnapshotValid = True, am_Snapshot = isa_Data args,
      am_SnapshotTerm = isa_LastIncludedTerm args, am_SnapshotIndex = isa_LastIncludedIndex args\<rparr>"

definition InstallSnapshot ::
    "int \<Rightarrow> 's InstallSnapshotArgs \<Rightarrow> ('c, 's) raft \<Rightarrow>
     ('c, 's) raft \<times> InstallSnapshotReply \<times> ('c, 's) ApplyMsg option" where
  "InstallSnapshot rnd args rf =
     (if isa_Term args < currentTerm rf then (rf, \<lparr>isr_Term = currentTerm rf\<rparr>, None)
      else
       let rf1 = (if isa_Term args > currentTerm rf
                  then persist (rf\<lparr>currentTerm := isa_Term args, votedFor := -1\<rparr>) else rf);
           rf2 = resetElectionTimer rnd (rf1\<lparr>state := StateFollower\<rparr>);
           reply = \<lparr>isr_Term = currentTerm rf2\<rparr>
       in if isa_LastIncludedIndex args \<le> lastIncludedIndex rf2 then (rf2, reply, None)
          else (rf2, reply, Some (snapshotMsg args)))"

section \<open>Replication by the leader\<close>

text \<open>
  \<^verbatim>\<open>replicateTo\<close> up to the RPC: it does nothing on a server that is not the leader, and otherwise
  sends the snapshot or the entries from \<^verbatim>\<open>nextIndex[peer]\<close> on.
\<close>

datatype ('c, 's) replicateCall =
    SendNothing
  | SendSnapshot "'s InstallSnapshotArgs"
  | SendEntries "'c AppendEntriesArgs"

definition replicateTo :: "nat \<Rightarrow> ('c, 's) raft \<Rightarrow> ('c, 's) replicateCall" where
  "replicateTo peer rf =
     (if state rf \<noteq> StateLeader then SendNothing
      else let nextIdx = nextIndex rf ! peer in
       if nextIdx \<le> lastIncludedIndex rf
       then SendSnapshot
              \<lparr>isa_Term = currentTerm rf, isa_LeaderId = int (me rf),
               isa_LastIncludedIndex = lastIncludedIndex rf,
               isa_LastIncludedTerm = lastIncludedTerm rf,
               isa_Data = ReadSnapshot (Persister rf)\<rparr>
       else
        let prevLogIndex = nextIdx - 1;
            prevLogTerm = termAt rf prevLogIndex;
            entries = (if nextIdx \<le> lastLogIndex rf
                       then drop (nat (toSliceIndex rf nextIdx)) (log rf) else [])
        in SendEntries
             \<lparr>aea_Term = currentTerm rf, aea_LeaderId = int (me rf),
              aea_PrevLogIndex = prevLogIndex, aea_PrevLogTerm = prevLogTerm,
              aea_Entries = entries, aea_LeaderCommit = commitIndex rf\<rparr>)"

definition matchCount :: "('c, 's) raft \<Rightarrow> int \<Rightarrow> nat" where
  "matchCount rf n =
     1 + length (filter (\<lambda>peer. peer \<noteq> me rf \<and> matchIndex rf ! peer \<ge> n) [0..<peers rf])"

function tryCommitFrom :: "('c, 's) raft \<Rightarrow> int \<Rightarrow> ('c, 's) raft" where
  "tryCommitFrom rf n =
     (if n \<le> commitIndex rf then rf
      else if termAt rf n \<noteq> currentTerm rf then tryCommitFrom rf (n - 1)
      else if matchCount rf n > peers rf div 2
        then rf\<lparr>commitIndex := n, applyCond := True\<rparr>
        else tryCommitFrom rf (n - 1))"
  by pat_completeness auto
termination
  by (relation "measure (\<lambda>(rf, n). nat (n - commitIndex rf))") auto

declare tryCommitFrom.simps [simp del]

definition tryCommit :: "('c, 's) raft \<Rightarrow> ('c, 's) raft" where
  "tryCommit rf = tryCommitFrom rf (lastLogIndex rf)"

text \<open>
  The search of the fast roll-back: the last entry of the conflicting term in the leader's log,
  scanned from \<^verbatim>\<open>i\<close> down to the snapshot; \<^verbatim>\<open>dflt\<close> is the follower's \<^verbatim>\<open>ConflictIndex\<close>.
\<close>

function backoffFrom :: "('c, 's) raft \<Rightarrow> int \<Rightarrow> int \<Rightarrow> int \<Rightarrow> int" where
  "backoffFrom rf conflictTerm dflt i =
     (if i > lastIncludedIndex rf
      then (if termAt rf i = conflictTerm then i + 1
            else backoffFrom rf conflictTerm dflt (i - 1))
      else dflt)"
  by pat_completeness auto
termination
  by (relation "measure (\<lambda>(rf, t, d, i). nat (i - lastIncludedIndex rf))") auto

declare backoffFrom.simps [simp del]

definition setNextIndex :: "nat \<Rightarrow> int \<Rightarrow> ('c, 's) raft \<Rightarrow> ('c, 's) raft" where
  "setNextIndex peer v rf = rf\<lparr>nextIndex := (nextIndex rf)[peer := v]\<rparr>"

definition setMatchIndex :: "nat \<Rightarrow> int \<Rightarrow> ('c, 's) raft \<Rightarrow> ('c, 's) raft" where
  "setMatchIndex peer v rf = rf\<lparr>matchIndex := (matchIndex rf)[peer := v]\<rparr>"

definition handleSnapshotReply ::
    "nat \<Rightarrow> 's InstallSnapshotArgs \<Rightarrow> InstallSnapshotReply \<Rightarrow> ('c, 's) raft \<Rightarrow> ('c, 's) raft" where
  "handleSnapshotReply peer args reply rf =
     (if isr_Term reply > currentTerm rf then stepDown (isr_Term reply) rf
      else if state rf \<noteq> StateLeader \<or> currentTerm rf \<noteq> isa_Term args then rf
      else
       let rf1 = (if isa_LastIncludedIndex args + 1 > nextIndex rf ! peer
                  then setNextIndex peer (isa_LastIncludedIndex args + 1) rf else rf)
       in (if isa_LastIncludedIndex args > matchIndex rf1 ! peer
           then setMatchIndex peer (isa_LastIncludedIndex args) rf1 else rf1))"

definition handleAppendReply ::
    "nat \<Rightarrow> 'c AppendEntriesArgs \<Rightarrow> AppendEntriesReply \<Rightarrow> ('c, 's) raft \<Rightarrow> ('c, 's) raft" where
  "handleAppendReply peer args reply rf =
     (if aer_Term reply > currentTerm rf then stepDown (aer_Term reply) rf
      else if state rf \<noteq> StateLeader \<or> currentTerm rf \<noteq> aea_Term args then rf
      else if aer_Success reply
      then
       let newMatch = aea_PrevLogIndex args + int (length (aea_Entries args));
           rf1 = (if newMatch > matchIndex rf ! peer then setMatchIndex peer newMatch rf else rf);
           rf2 = setNextIndex peer (matchIndex rf1 ! peer + 1) rf1
       in tryCommit rf2
      else
       let newNext = (if aer_ConflictTerm reply = -1 then aer_ConflictIndex reply
                      else backoffFrom rf (aer_ConflictTerm reply) (aer_ConflictIndex reply)
                             (lastLogIndex rf));
           rf1 = setNextIndex peer newNext rf
       in (if nextIndex rf1 ! peer < 1 then setNextIndex peer 1 rf1 else rf1))"

definition Start :: "'c \<Rightarrow> ('c, 's) raft \<Rightarrow> ('c, 's) raft \<times> int \<times> int \<times> bool" where
  "Start command rf =
     (if state rf \<noteq> StateLeader then (rf, -1, -1, False)
      else
       let rf1 = persist (rf\<lparr>log := log rf @ [\<lparr>Term = currentTerm rf, Command = command\<rparr>]\<rparr>);
           index = lastLogIndex rf1
       in (rf1\<lparr>matchIndex := (matchIndex rf1)[me rf1 := index], heartbeatTimer := 0\<rparr>,
           index, currentTerm rf1, True))"

section \<open>The apply loop\<close>

text \<open>
  One round of \<^verbatim>\<open>applier\<close>: the first lock region copies the indices and collects the committed
  entries, the sends happen without the lock, the second lock region moves \<^verbatim>\<open>lastApplied\<close>.
\<close>

record 'c applyBatch =
  ab_commitIndex :: int
  ab_startIdx :: int
  ab_lastIncludedIndex :: int
  ab_entries :: "'c LogEntry list"

function collectEntries :: "('c, 's) raft \<Rightarrow> int \<Rightarrow> 'c LogEntry list" where
  "collectEntries rf i =
     (if i \<le> commitIndex rf
      then (if i \<le> lastIncludedIndex rf then collectEntries rf (i + 1)
            else let si = toSliceIndex rf i in
              if si < 0 \<or> si \<ge> int (length (log rf)) then []
              else log rf ! nat si # collectEntries rf (i + 1))
      else [])"
  by pat_completeness auto
termination
  by (relation "measure (\<lambda>(rf, i). nat (commitIndex rf + 1 - i))") auto

declare collectEntries.simps [simp del]

definition applierCollect :: "('c, 's) raft \<Rightarrow> (('c, 's) raft \<times> 'c applyBatch) option" where
  "applierCollect rf =
     (if lastApplied rf \<ge> commitIndex rf then None
      else Some (rf\<lparr>applyCond := False\<rparr>,
                 \<lparr>ab_commitIndex = commitIndex rf, ab_startIdx = lastApplied rf + 1,
                  ab_lastIncludedIndex = lastIncludedIndex rf,
                  ab_entries = collectEntries rf (lastApplied rf + 1)\<rparr>))"

definition commandMsg :: "int \<Rightarrow> 'c LogEntry \<Rightarrow> ('c, 's) ApplyMsg" where
  "commandMsg globalIdx entry =
     \<lparr>am_CommandValid = True, am_Command = Some (Command entry), am_CommandIndex = globalIdx,
      am_SnapshotValid = False, am_Snapshot = [], am_SnapshotTerm = 0, am_SnapshotIndex = 0\<rparr>"

fun applierSend :: "int \<Rightarrow> int \<Rightarrow> 'c LogEntry list \<Rightarrow> ('c, 's) ApplyMsg list" where
  "applierSend lii globalIdx [] = []"
| "applierSend lii globalIdx (entry # rest) =
     (if globalIdx \<le> lii then applierSend lii (globalIdx + 1) rest
      else commandMsg globalIdx entry # applierSend lii (globalIdx + 1) rest)"

definition applierFinish :: "'c applyBatch \<Rightarrow> ('c, 's) raft \<Rightarrow> ('c, 's) raft" where
  "applierFinish b rf =
     (if ab_commitIndex b > lastApplied rf then rf\<lparr>lastApplied := ab_commitIndex b\<rparr> else rf)"

section \<open>Timers, shutdown and start-up\<close>

definition Kill :: "('c, 's) raft \<Rightarrow> ('c, 's) raft" where
  "Kill rf = rf\<lparr>dead := True\<rparr>"

definition killed :: "('c, 's) raft \<Rightarrow> bool" where
  "killed rf = dead rf"

text \<open>
  The two cases of \<^verbatim>\<open>ticker\<close>. The election case returns the vote requests to send, if any; the
  heartbeat case returns the peers for which a \<^verbatim>\<open>replicateTo\<close> goroutine is started.
\<close>

definition tickElection ::
    "int \<Rightarrow> ('c, 's) raft \<Rightarrow> ('c, 's) raft \<times> RequestVoteArgs option" where
  "tickElection rnd rf =
     (if state rf \<noteq> StateLeader
      then (case startElection rnd rf of (rf1, args) \<Rightarrow> (rf1, Some args)) else (rf, None))"

definition otherPeers :: "('c, 's) raft \<Rightarrow> nat list" where
  "otherPeers rf = filter (\<lambda>peer. peer \<noteq> me rf) [0..<peers rf]"

definition tickHeartbeat :: "('c, 's) raft \<Rightarrow> ('c, 's) raft \<times> nat list" where
  "tickHeartbeat rf =
     (if state rf = StateLeader then (rf\<lparr>heartbeatTimer := HeartbeatInterval\<rparr>, otherPeers rf)
      else (rf, []))"

definition Make ::
    "nat \<Rightarrow> nat \<Rightarrow> ('c gobval, 's) persister \<Rightarrow> int \<Rightarrow> ('c, 's) raft" where
  "Make n i persister rnd =
     (let rf = \<lparr>peers = n, me = i, Persister = persister, dead = False,
                state = StateFollower, currentTerm = 0, votedFor = -1, log = [],
                lastIncludedIndex = 0, lastIncludedTerm = 0, commitIndex = 0, lastApplied = 0,
                nextIndex = replicate n 0, matchIndex = replicate n 0,
                electionTimer = randomElectionTimeout rnd, heartbeatTimer = HeartbeatInterval,
                applyCond = False, votes = (\<lambda>_. 0)\<rparr>
      in readPersist (ReadRaftState persister) rf)"

end
