(* ===== verification/Labrpc.thy ===== *)
theory Labrpc
  imports Labgob "HOL-Library.Word"
begin

text \<open>
  \<^verbatim>\<open>labrpc/labrpc.go\<close>: the simulated network. Its data, the operations on the network that hold its lock, the
  dispatch of a request to a method of a service, and \<^verbatim>\<open>processReq\<close> cut where it waits. Names (\<^verbatim>\<open>interface{}\<close>) are a type
  of their own; a Go map that is only read through its zero value is a total function; a server pointer is an address.
  The methods of a service are given with what reflection tells of them; a method maps its argument, a fresh reply and the
  state of the servers to the new state and the reply. Random numbers are arguments.
\<close>

section \<open>Messages\<close>

datatype fatal = NoDot | UnknownService | UnknownMethod | EndExists | NilServer | ReplyNotDecoded | ClosedTwice

text \<open>A reflected type: its zero value and which gob values decode into it.\<close>

record 'v goType =
  ty_zero :: 'v
  ty_of :: "'v \<Rightarrow> 'v option"

record ('n, 'v) reqMsg =
  rq_endname :: 'n
  rq_svcMeth :: string
  rq_argsType :: "'v goType"
  rq_args :: "'v buffer"

record 'v replyMsg =
  rp_ok :: bool
  rp_reply :: "'v buffer"

definition failMsg :: "'v replyMsg" where
  "failMsg = \<lparr>rp_ok = False, rp_reply = []\<rparr>"

record 'n ClientEnd =
  ce_endname :: 'n

text \<open>The two ends of \<^verbatim>\<open>ClientEnd.Call\<close>: the request it builds, and what it makes of the reply.\<close>

definition callRequest :: "'n ClientEnd \<Rightarrow> string \<Rightarrow> 'v goType \<Rightarrow> 'v \<Rightarrow> ('n, 'v) reqMsg" where
  "callRequest e svcMeth t args =
     \<lparr>rq_endname = ce_endname e, rq_svcMeth = svcMeth, rq_argsType = t, rq_args = Encode [] args\<rparr>"

definition callReply :: "('v \<Rightarrow> 'r option) \<Rightarrow> 'v replyMsg \<Rightarrow> fatal + 'r option" where
  "callReply as_reply rep =
     (if rp_ok rep
      then (case Decode as_reply (rp_reply rep) of None \<Rightarrow> Inl ReplyNotDecoded | Some (r, _) \<Rightarrow> Inr (Some r))
      else Inr None)"

section \<open>Services and servers\<close>

record ('w, 'v) rmethod =
  rm_PkgPath :: string
  rm_Name :: string
  rm_NumIn :: nat
  rm_In2Ptr :: bool
  rm_NumOut :: nat
  rm_replyZero :: 'v
  rm_Func :: "'v \<Rightarrow> 'v \<Rightarrow> 'w \<Rightarrow> 'w \<times> 'v"

record ('w, 'v) Service =
  svc_name :: string
  svc_methods :: "string \<rightharpoonup> ('w, 'v) rmethod"

definition suitable :: "('w, 'v) rmethod \<Rightarrow> bool" where
  "suitable method \<longleftrightarrow> \<not> (rm_PkgPath method \<noteq> [] \<or> rm_NumIn method \<noteq> 3 \<or> \<not> rm_In2Ptr method \<or> rm_NumOut method \<noteq> 0)"

fun addMethods :: "('w, 'v) rmethod list \<Rightarrow> (string \<rightharpoonup> ('w, 'v) rmethod) \<Rightarrow> (string \<rightharpoonup> ('w, 'v) rmethod)" where
  "addMethods [] ms = ms"
| "addMethods (method # rest) ms =
     (if suitable method then addMethods rest (ms(rm_Name method \<mapsto> method)) else addMethods rest ms)"

definition MakeService :: "string \<Rightarrow> ('w, 'v) rmethod list \<Rightarrow> ('w, 'v) Service" where
  "MakeService name mths = \<lparr>svc_name = name, svc_methods = addMethods mths Map.empty\<rparr>"

text \<open>The error of decoding the argument is ignored; the argument then is the zero value.\<close>

definition callMethod :: "('w, 'v) rmethod \<Rightarrow> ('n, 'v) reqMsg \<Rightarrow> 'w \<Rightarrow> 'w \<times> 'v replyMsg" where
  "callMethod method req w =
     (let args = (case Decode (ty_of (rq_argsType req)) (rq_args req) of
                    None \<Rightarrow> ty_zero (rq_argsType req) | Some (a, _) \<Rightarrow> a);
          (w', replyv) = rm_Func method args (rm_replyZero method) w
      in (w', \<lparr>rp_ok = True, rp_reply = Encode [] replyv\<rparr>))"

definition Service_dispatch :: "('w, 'v) Service \<Rightarrow> string \<Rightarrow> ('n, 'v) reqMsg \<Rightarrow> 'w \<Rightarrow> fatal + ('w \<times> 'v replyMsg)" where
  "Service_dispatch svc methname req w =
     (case svc_methods svc methname of
        Some method \<Rightarrow> Inr (callMethod method req w)
      | None \<Rightarrow> Inl UnknownMethod)"

record ('w, 'v) Server =
  srv_services :: "string \<rightharpoonup> ('w, 'v) Service"
  srv_count :: int

definition MakeServer :: "('w, 'v) Server" where
  "MakeServer = \<lparr>srv_services = Map.empty, srv_count = 0\<rparr>"

definition AddService :: "('w, 'v) Service \<Rightarrow> ('w, 'v) Server \<Rightarrow> ('w, 'v) Server" where
  "AddService svc rs = rs\<lparr>srv_services := (srv_services rs)(svc_name svc \<mapsto> svc)\<rparr>"

text \<open>\<^verbatim>\<open>strings.LastIndex\<close> for a single character.\<close>

fun lastIndex :: "char \<Rightarrow> string \<Rightarrow> int" where
  "lastIndex c [] = -1"
| "lastIndex c (x # xs) = (if 0 \<le> lastIndex c xs then lastIndex c xs + 1 else if x = c then 0 else -1)"

text \<open>
  \<^verbatim>\<open>Server.dispatch\<close> under its lock: it counts the call, splits the name of the method and finds the service. The
  method runs without the lock.
\<close>

definition Server_lookup :: "('n, 'v) reqMsg \<Rightarrow> ('w, 'v) Server \<Rightarrow> ('w, 'v) Server \<times> (fatal + ('w, 'v) Service \<times> string)" where
  "Server_lookup req rs =
     (let rs1 = rs\<lparr>srv_count := srv_count rs + 1\<rparr>;
          dot = lastIndex CHR ''.'' (rq_svcMeth req)
      in (rs1,
          if dot < 0 then Inl NoDot
          else case srv_services rs1 (take (nat dot) (rq_svcMeth req)) of
            Some service \<Rightarrow> Inr (service, drop (nat dot + 1) (rq_svcMeth req))
          | None \<Rightarrow> Inl UnknownService))"

section \<open>The network\<close>

record 'n Network =
  nw_reliable :: bool
  nw_longDelays :: bool
  nw_longReordering :: bool
  nw_ends :: "'n \<rightharpoonup> 'n ClientEnd"
  nw_enabled :: "'n \<Rightarrow> bool"
  nw_servers :: "'n \<Rightarrow> nat option"
  nw_connections :: "'n \<Rightarrow> 'n option"
  nw_done :: bool
  nw_count :: "32 word"
  nw_bytes :: "64 word"

definition MakeNetwork :: "'n Network" where
  "MakeNetwork = \<lparr>nw_reliable = True, nw_longDelays = False, nw_longReordering = False, nw_ends = Map.empty,
     nw_enabled = (\<lambda>_. False), nw_servers = (\<lambda>_. None), nw_connections = (\<lambda>_. None), nw_done = False,
     nw_count = 0, nw_bytes = 0\<rparr>"

text \<open>Closing a closed channel panics.\<close>

definition Cleanup :: "'n Network \<Rightarrow> fatal + 'n Network" where
  "Cleanup rn = (if nw_done rn then Inl ClosedTwice else Inr (rn\<lparr>nw_done := True\<rparr>))"

definition Reliable :: "bool \<Rightarrow> 'n Network \<Rightarrow> 'n Network" where
  "Reliable yes rn = rn\<lparr>nw_reliable := yes\<rparr>"

definition LongReordering :: "bool \<Rightarrow> 'n Network \<Rightarrow> 'n Network" where
  "LongReordering yes rn = rn\<lparr>nw_longReordering := yes\<rparr>"

definition LongDelays :: "bool \<Rightarrow> 'n Network \<Rightarrow> 'n Network" where
  "LongDelays yes rn = rn\<lparr>nw_longDelays := yes\<rparr>"

definition MakeEnd :: "'n \<Rightarrow> 'n Network \<Rightarrow> fatal + ('n Network \<times> 'n ClientEnd)" where
  "MakeEnd endname rn =
     (if nw_ends rn endname \<noteq> None then Inl EndExists
      else let e = \<lparr>ce_endname = endname\<rparr> in
        Inr (rn\<lparr>nw_ends := (nw_ends rn)(endname \<mapsto> e), nw_enabled := (nw_enabled rn)(endname := False),
                nw_connections := (nw_connections rn)(endname := None)\<rparr>, e))"

definition AddServer :: "'n \<Rightarrow> nat \<Rightarrow> 'n Network \<Rightarrow> 'n Network" where
  "AddServer servername rs rn = rn\<lparr>nw_servers := (nw_servers rn)(servername := Some rs)\<rparr>"

definition DeleteServer :: "'n \<Rightarrow> 'n Network \<Rightarrow> 'n Network" where
  "DeleteServer servername rn = rn\<lparr>nw_servers := (nw_servers rn)(servername := None)\<rparr>"

definition Connect :: "'n \<Rightarrow> 'n \<Rightarrow> 'n Network \<Rightarrow> 'n Network" where
  "Connect endname servername rn = rn\<lparr>nw_connections := (nw_connections rn)(endname := Some servername)\<rparr>"

definition Enable :: "'n \<Rightarrow> bool \<Rightarrow> 'n Network \<Rightarrow> 'n Network" where
  "Enable endname enabled rn = rn\<lparr>nw_enabled := (nw_enabled rn)(endname := enabled)\<rparr>"

definition GetCount :: "(nat \<Rightarrow> ('w, 'v) Server) \<Rightarrow> 'n \<Rightarrow> 'n Network \<Rightarrow> fatal + int" where
  "GetCount heap servername rn =
     (case nw_servers rn servername of None \<Rightarrow> Inl NilServer | Some svr \<Rightarrow> Inr (srv_count (heap svr)))"

definition GetTotalCount :: "'n Network \<Rightarrow> int" where
  "GetTotalCount rn = sint (nw_count rn)"

definition GetTotalBytes :: "'n Network \<Rightarrow> int" where
  "GetTotalBytes rn = sint (nw_bytes rn)"

definition readEndnameInfo :: "'n \<Rightarrow> 'n Network \<Rightarrow> bool \<times> 'n option \<times> nat option \<times> bool \<times> bool" where
  "readEndnameInfo endname rn =
     (let servername = nw_connections rn endname in
      (nw_enabled rn endname, servername, (case servername of None \<Rightarrow> None | Some n \<Rightarrow> nw_servers rn n),
       nw_reliable rn, nw_longReordering rn))"

definition isServerDead :: "'n \<Rightarrow> 'n \<Rightarrow> nat \<Rightarrow> 'n Network \<Rightarrow> bool" where
  "isServerDead endname servername server rn \<longleftrightarrow>
     nw_enabled rn endname = False \<or> nw_servers rn servername \<noteq> Some server"

section \<open>\<^verbatim>\<open>processReq\<close>\<close>

text \<open>
  What it does first: answer as if after a timeout of so many milliseconds when nothing listens, drop the request, or have
  a server at an address execute it. \<^verbatim>\<open>r1\<close> is the random number for the timeout, \<^verbatim>\<open>r2\<close> the one that decides about dropping.
\<close>

datatype 'n startOutcome = NoServer int | DropRequest | Execute 'n nat bool bool

definition processStart :: "nat \<Rightarrow> nat \<Rightarrow> ('n, 'v) reqMsg \<Rightarrow> 'n Network \<Rightarrow> 'n startOutcome" where
  "processStart r1 r2 req rn =
     (case readEndnameInfo (rq_endname req) rn of
        (True, Some servername, Some server, reliable, longreordering) \<Rightarrow>
          (if \<not> reliable \<and> r2 mod 1000 < 100 then DropRequest
           else Execute servername server reliable longreordering)
      | _ \<Rightarrow> NoServer (int (if nw_longDelays rn then r1 mod 7000 else r1 mod 100)))"

text \<open>
  What it does once the handler has returned or the wait was given up. \<^verbatim>\<open>r2\<close> is \<^verbatim>\<open>rand.Intn(900)\<close> and \<^verbatim>\<open>r3\<close> the inner
  \<^verbatim>\<open>rand.Intn\<close> of the delay.
\<close>

datatype finishOutcome = ReplyFail | ReplyDelayed int | ReplyNow

definition processFinish ::
    "nat \<Rightarrow> nat \<Rightarrow> nat \<Rightarrow> 'n \<Rightarrow> 'n \<Rightarrow> nat \<Rightarrow> bool \<Rightarrow> bool \<Rightarrow> bool \<Rightarrow> 'n Network \<Rightarrow> finishOutcome" where
  "processFinish r1 r2 r3 endname servername server reliable longreordering replyOK rn =
     (let serverDead = isServerDead endname servername server rn in
      if \<not> replyOK \<or> serverDead then ReplyFail
      else if \<not> reliable \<and> r1 mod 1000 < 100 then ReplyFail
      else if longreordering \<and> r2 < 600 then ReplyDelayed (200 + int r3)
      else ReplyNow)"

section \<open>Methods and names\<close>

lemma MakeService_methods:
  assumes "distinct (map rm_Name (filter suitable mths))"
  shows "svc_methods (MakeService name mths) n = Some m \<longleftrightarrow> m \<in> set mths \<and> suitable m \<and> rm_Name m = n"
proof -
  have "addMethods mths ms n = Some m \<longleftrightarrow> (m \<in> set mths \<and> suitable m \<and> rm_Name m = n) \<or>
      ((\<forall>m'\<in>set mths. suitable m' \<longrightarrow> rm_Name m' \<noteq> n) \<and> ms n = Some m)" for ms
    using assms
  proof (induction mths arbitrary: ms)
    case (Cons a mths)
    then show ?case by (cases "suitable a") (auto 4 3 simp: image_iff)
  qed simp
  then show ?thesis by (simp add: MakeService_def)
qed

lemma lastIndex_range: "-1 \<le> lastIndex c s \<and> lastIndex c s < int (length s)"
  by (induction s) auto

lemma lastIndex_none: "lastIndex c s = -1 \<longleftrightarrow> c \<notin> set s"
  using lastIndex_range by (induction s) (auto, (smt (verit) lastIndex_range)+)

lemma lastIndex_split: "c \<notin> set t \<Longrightarrow> lastIndex c (s @ c # t) = int (length s)"
proof (induction s)
  case Nil
  then show ?case using lastIndex_none [of c t] by simp
qed simp

text \<open>A name \<^verbatim>\<open>Service.Method\<close> reaches the service and the method it names.\<close>

lemma Server_lookup_method:
  assumes "rq_svcMeth req = s @ CHR ''.'' # t" "CHR ''.'' \<notin> set t"
  shows "Server_lookup req rs = (rs\<lparr>srv_count := srv_count rs + 1\<rparr>,
    case srv_services rs s of Some service \<Rightarrow> Inr (service, t) | None \<Rightarrow> Inl UnknownService)"
  using assms lastIndex_split [OF assms(2), of s] by (simp add: Server_lookup_def nat_add_distrib split: option.split)

text \<open>The argument reaches the method as it was given to \<^verbatim>\<open>Call\<close>, and the reply comes back as the method left it.\<close>

lemma callMethod_roundtrip:
  assumes "ty_of t args = Some args" "rm_Func method args (rm_replyZero method) w = (w', r)" "as_reply r = Some x"
  shows "\<exists>rep. callMethod method (callRequest e name t args) w = (w', rep) \<and> callReply as_reply rep = Inr (Some x)"
  using assms by (simp add: callMethod_def callRequest_def callReply_def Encode_def Decode_def)

end
