(* ===== verification/Raft_Harness.thy ===== *)
theory Raft_Harness
  imports Raft_Node Labrpc "HOL-Library.AList"
begin

text \<open>
  \<^verbatim>\<open>raft/config.go\<close>: the harness that the Raft tests run in. It reads the apply channels and compares the committed
  commands, asks the servers who is leader, cuts and restores connections of the simulated network, and restarts servers
  from copies of their persisters. Shown here: connections are enabled exactly between connected servers. What the harness
  finds on a Raft group is in \<^verbatim>\<open>Raft_Harness_Runs\<close>.
\<close>

section \<open>State\<close>

datatype applyError =
    CommitMismatch int nat nat
  | OutOfOrder nat int
  | SnapshotIndexDiffers nat
  | NilSnapshot
  | SnapshotUndecodable
  | RaftPanic

text \<open>\<^verbatim>\<open>cfg.logs\<close> maps indices to commands; a command is an interface value, \<^term>\<open>None\<close> being nil.\<close>

record 'c testConfig =
  tc_n :: nat
  tc_connected :: "bool list"
  tc_endnames :: "string list option list"
  tc_logs :: "(int \<rightharpoonup> 'c option) list"
  tc_lastApplied :: "int list"
  tc_rpcs0 :: int
  tc_cmds0 :: int
  tc_bytes0 :: int
  tc_maxIndex :: int
  tc_maxIndex0 :: int

definition emptyTest :: "nat \<Rightarrow> 'c testConfig" where
  "emptyTest n = \<lparr>tc_n = n, tc_connected = replicate n False, tc_endnames = replicate n None,
     tc_logs = replicate n Map.empty, tc_lastApplied = replicate n 0,
     tc_rpcs0 = 0, tc_cmds0 = 0, tc_bytes0 = 0, tc_maxIndex = 0, tc_maxIndex0 = 0\<rparr>"

section \<open>Reading the apply channel\<close>

text \<open>The loop of \<^verbatim>\<open>checkLogs\<close>: the last server that has another command at the index.\<close>

fun findMismatch :: "nat \<Rightarrow> (int \<rightharpoonup> 'v) list \<Rightarrow> int \<Rightarrow> 'v \<Rightarrow> nat option" where
  "findMismatch j [] index v = None"
| "findMismatch j (l # ls) index v =
     (case findMismatch (Suc j) ls index v of
        Some k \<Rightarrow> Some k
      | None \<Rightarrow> (case l index of None \<Rightarrow> None | Some old \<Rightarrow> if old \<noteq> v then Some j else None))"

definition checkLogs :: "nat \<Rightarrow> ('c, 's) ApplyMsg \<Rightarrow> 'c testConfig \<Rightarrow> 'c testConfig \<times> applyError option \<times> bool" where
  "checkLogs i m cfg =
     (let v = am_Command m; index = am_CommandIndex m;
          err = map_option (CommitMismatch index i) (findMismatch 0 (tc_logs cfg) index v);
          prevok = (tc_logs cfg ! i) (index - 1) \<noteq> None
      in (cfg\<lparr>tc_logs := (tc_logs cfg)[i := (tc_logs cfg ! i)(index \<mapsto> v)],
              tc_maxIndex := (if index > tc_maxIndex cfg then index else tc_maxIndex cfg)\<rparr>, err, prevok))"

text \<open>One round of \<^verbatim>\<open>applier\<close>; an error ends the process.\<close>

definition applierMsg :: "nat \<Rightarrow> ('c, 's) ApplyMsg \<Rightarrow> 'c testConfig \<Rightarrow> applyError + 'c testConfig" where
  "applierMsg i m cfg =
     (if \<not> am_CommandValid m then Inr cfg
      else case checkLogs i m cfg of (cfg', err, prevok) \<Rightarrow>
        (case (if am_CommandIndex m > 1 \<and> \<not> prevok then Some (OutOfOrder i (am_CommandIndex m)) else err) of
           Some e \<Rightarrow> Inl e | None \<Rightarrow> Inr cfg'))"

datatype 'c testGob = TIndex int | TLog "'c option list"

fun asIndex :: "'c testGob \<Rightarrow> int option" where
  "asIndex (TIndex i) = Some i"
| "asIndex _ = None"

fun asLog :: "'c testGob \<Rightarrow> 'c option list option" where
  "asLog (TLog xs) = Some xs"
| "asLog _ = None"

definition logOfList :: "'c option list \<Rightarrow> int \<rightharpoonup> 'c option" where
  "logOfList xlog j = (if 0 \<le> j \<and> j < int (length xlog) then Some (xlog ! nat j) else None)"

definition ingestSnap :: "nat \<Rightarrow> 'c testGob buffer \<Rightarrow> int \<Rightarrow> 'c testConfig \<Rightarrow> applyError + 'c testConfig" where
  "ingestSnap i snap index cfg =
     (if snap = [] then Inl NilSnapshot
      else case Decode asIndex snap of
        None \<Rightarrow> Inl SnapshotUndecodable
      | Some (lii, r) \<Rightarrow>
          (case Decode asLog r of
             None \<Rightarrow> Inl SnapshotUndecodable
           | Some (xlog, _) \<Rightarrow>
               if index \<noteq> -1 \<and> index \<noteq> lii then Inl (SnapshotIndexDiffers i)
               else Inr (cfg\<lparr>tc_logs := (tc_logs cfg)[i := logOfList xlog],
                             tc_lastApplied := (tc_lastApplied cfg)[i := lii]\<rparr>)))"

definition SnapShotInterval :: int where "SnapShotInterval = 10"

definition snapshotOfLog :: "int \<Rightarrow> (int \<rightharpoonup> 'c option) \<Rightarrow> 'c testGob buffer" where
  "snapshotOfLog index l =
     Encode (Encode [] (TIndex index))
       (TLog (map (\<lambda>j. case l j of None \<Rightarrow> None | Some v \<Rightarrow> v) [0..index]))"

text \<open>One round of \<^verbatim>\<open>applierSnap\<close>.\<close>

definition applierSnapMsg ::
    "nat \<Rightarrow> ('c, 'c testGob) ApplyMsg \<Rightarrow> ('c, 'c testGob) raft \<Rightarrow> 'c testConfig \<Rightarrow>
     applyError + (('c, 'c testGob) raft \<times> 'c testConfig)" where
  "applierSnapMsg i m rf cfg =
     (if am_SnapshotValid m
      then (case CondInstallSnapshot (am_SnapshotTerm m) (am_SnapshotIndex m) (am_Snapshot m) rf of
              Inl p \<Rightarrow> Inl RaftPanic
            | Inr (rf', ok) \<Rightarrow>
                if ok then (case ingestSnap i (am_Snapshot m) (am_SnapshotIndex m) cfg of
                              Inl e \<Rightarrow> Inl e | Inr cfg' \<Rightarrow> Inr (rf', cfg'))
                else Inr (rf', cfg))
      else if am_CommandValid m
      then (let index = am_CommandIndex m in
            if index \<noteq> tc_lastApplied cfg ! i + 1 then Inl (OutOfOrder i index)
            else case checkLogs i m cfg of (cfg1, err, prevok) \<Rightarrow>
              let cfg2 = cfg1\<lparr>tc_lastApplied := (tc_lastApplied cfg1)[i := index]\<rparr>;
                  err' = (if index > 1 \<and> \<not> prevok then Some (OutOfOrder i index) else err)
              in if (index + 1) mod SnapShotInterval = 0
                 then (case Snapshot index (snapshotOfLog index (tc_logs cfg2 ! i)) rf of
                         Inl p \<Rightarrow> Inl RaftPanic
                       | Inr rf' \<Rightarrow> (case err' of Some e \<Rightarrow> Inl e | None \<Rightarrow> Inr (rf', cfg2)))
                 else (case err' of Some e \<Rightarrow> Inl e | None \<Rightarrow> Inr (rf, cfg2)))
      else Inr (rf, cfg))"

section \<open>Asking the servers\<close>

text \<open>
  \<^verbatim>\<open>obs i\<close> is what \<^verbatim>\<open>GetState\<close> of server \<^verbatim>\<open>i\<close> answers when its turn comes; the servers go on meanwhile, so different
  servers answer at different moments.
\<close>

datatype testFailure =
    TwoLeaders int
  | NoLeader
  | TermsDisagree
  | ClaimsLeader nat
  | ValuesDiffer int
  | TooFew nat int
  | NoAgreement

definition leadersByTerm :: "nat list \<Rightarrow> 'c testConfig \<Rightarrow> (nat \<Rightarrow> int \<times> bool) \<Rightarrow> (int \<times> nat list) list" where
  "leadersByTerm is cfg obs =
     fold (\<lambda>i m. if tc_connected cfg ! i \<and> snd (obs i)
                 then AList.map_default (fst (obs i)) [i] (\<lambda>l. l @ [i]) m else m) is []"

text \<open>A round of \<^verbatim>\<open>checkOneLeader\<close>: a failure, a leader, or nobody yet. The order in which Go ranges over the map does not matter.\<close>

definition leaderRound :: "'c testConfig \<Rightarrow> (nat \<Rightarrow> int \<times> bool) \<Rightarrow> testFailure + nat option" where
  "leaderRound cfg obs =
     (let leaders = leadersByTerm [0..<tc_n cfg] cfg obs;
          lastTerm = fold (\<lambda>(t, l) a. if t > a then t else a) leaders (-1)
      in case filter (\<lambda>(t, l). length l > 1) leaders of
           (t, l) # _ \<Rightarrow> Inl (TwoLeaders t)
         | [] \<Rightarrow>
           (if leaders = [] then Inr None
            else case map_of leaders lastTerm of
                   Some (i # _) \<Rightarrow> Inr (Some i)
                 | _ \<Rightarrow> Inr None))"

fun checkOneLeader :: "'c testConfig \<Rightarrow> (nat \<Rightarrow> int \<times> bool) list \<Rightarrow> testFailure + nat" where
  "checkOneLeader cfg [] = Inl NoLeader"
| "checkOneLeader cfg (obs # rest) =
     (case leaderRound cfg obs of
        Inl f \<Rightarrow> Inl f
      | Inr (Some i) \<Rightarrow> Inr i
      | Inr None \<Rightarrow> checkOneLeader cfg rest)"

fun checkTermsFrom :: "nat list \<Rightarrow> 'c testConfig \<Rightarrow> (nat \<Rightarrow> int \<times> bool) \<Rightarrow> int \<Rightarrow> testFailure + int" where
  "checkTermsFrom [] cfg obs t = Inr t"
| "checkTermsFrom (i # is) cfg obs t =
     (if tc_connected cfg ! i
      then (if t = -1 then checkTermsFrom is cfg obs (fst (obs i))
            else if t \<noteq> fst (obs i) then Inl TermsDisagree
            else checkTermsFrom is cfg obs t)
      else checkTermsFrom is cfg obs t)"

definition checkTerms :: "'c testConfig \<Rightarrow> (nat \<Rightarrow> int \<times> bool) \<Rightarrow> testFailure + int" where
  "checkTerms cfg obs = checkTermsFrom [0..<tc_n cfg] cfg obs (-1)"

definition checkNoLeader :: "'c testConfig \<Rightarrow> (nat \<Rightarrow> int \<times> bool) \<Rightarrow> testFailure + unit" where
  "checkNoLeader cfg obs =
     (case filter (\<lambda>i. tc_connected cfg ! i \<and> snd (obs i)) [0..<tc_n cfg] of
        i # _ \<Rightarrow> Inl (ClaimsLeader i) | [] \<Rightarrow> Inr ())"

text \<open>The loop of \<^verbatim>\<open>nCommitted\<close>. \<^verbatim>\<open>cfg.applyErr\<close> is never set, since an apply error ends the process first.\<close>

fun countCommitted :: "(int \<rightharpoonup> 'v) list \<Rightarrow> int \<Rightarrow> nat \<Rightarrow> 'v option \<Rightarrow> testFailure + nat \<times> 'v option" where
  "countCommitted [] index cnt cmd = Inr (cnt, cmd)"
| "countCommitted (l # ls) index cnt cmd =
     (case l index of
        None \<Rightarrow> countCommitted ls index cnt cmd
      | Some cmd1 \<Rightarrow> if cnt > 0 \<and> cmd \<noteq> Some cmd1 then Inl (ValuesDiffer index)
                      else countCommitted ls index (cnt + 1) (Some cmd1))"

definition nCommitted :: "int \<Rightarrow> 'c testConfig \<Rightarrow> testFailure + nat \<times> 'c option option" where
  "nCommitted index cfg = countCommitted (tc_logs cfg) index 0 None"

text \<open>
  \<^verbatim>\<open>wait\<close>: the list holds, for each of its rounds, the state at the time of the round and the terms the servers answer with.
  \<^term>\<open>Inr None\<close> is the result \<^verbatim>\<open>-1\<close>.
\<close>

fun waitFor :: "int \<Rightarrow> nat \<Rightarrow> int \<Rightarrow> ('c testConfig \<times> int list) list \<Rightarrow> 'c testConfig \<Rightarrow> testFailure + 'c option option" where
  "waitFor index k startTerm [] final =
     (case nCommitted index final of
        Inl f \<Rightarrow> Inl f
      | Inr (nd, cmd) \<Rightarrow> if nd < k then Inl (TooFew nd index) else Inr cmd)"
| "waitFor index k startTerm ((cfg, terms) # rest) final =
     (case nCommitted index cfg of
        Inl f \<Rightarrow> Inl f
      | Inr (nd, cmd) \<Rightarrow>
          if nd \<ge> k then waitFor index k startTerm [] final
          else if startTerm > -1 \<and> list_ex (\<lambda>t. t > startTerm) terms then Inr None
          else waitFor index k startTerm rest final)"

definition LogSize :: "('v buffer \<Rightarrow> int) \<Rightarrow> ('v, 's) persister list \<Rightarrow> int" where
  "LogSize sz saved = fold (\<lambda>p a. if RaftStateSize sz p > a then RaftStateSize sz p else a) saved 0"

section \<open>Connections, crashes and restarts\<close>

text \<open>Names in the network: ends have random names, servers are named by their number.\<close>

datatype netName = EndName string | ServerName nat

definition enableAll :: "string list \<Rightarrow> bool \<Rightarrow> netName Network \<Rightarrow> netName Network" where
  "enableAll names b rn = fold (\<lambda>n. Enable (EndName n) b) names rn"

definition endOf :: "'c testConfig \<Rightarrow> nat \<Rightarrow> nat \<Rightarrow> string list" where
  "endOf cfg i j = (case tc_endnames cfg ! i of None \<Rightarrow> [] | Some names \<Rightarrow> [names ! j])"

text \<open>\<^verbatim>\<open>connect\<close> indexes the name tables without a test: a server that was never started makes it panic.\<close>

definition connect :: "nat \<Rightarrow> 'c testConfig \<times> netName Network \<Rightarrow> ('c testConfig \<times> netName Network) go" where
  "connect i st =
     (let (cfg, rn) = st; cfg1 = cfg\<lparr>tc_connected := (tc_connected cfg)[i := True]\<rparr>;
          js = filter (\<lambda>j. tc_connected cfg1 ! j) [0..<tc_n cfg1]
      in if js \<noteq> [] \<and> (tc_endnames cfg1 ! i = None \<or> list_ex (\<lambda>j. tc_endnames cfg1 ! j = None) js) then Inl IndexOutOfRange
         else let rn1 = enableAll (concat (map (\<lambda>j. endOf cfg1 i j) js)) True rn
              in Inr (cfg1, enableAll (concat (map (\<lambda>j. endOf cfg1 j i) js)) True rn1))"

definition disconnect :: "nat \<Rightarrow> 'c testConfig \<times> netName Network \<Rightarrow> 'c testConfig \<times> netName Network" where
  "disconnect i st =
     (let (cfg, rn) = st; cfg1 = cfg\<lparr>tc_connected := (tc_connected cfg)[i := False]\<rparr>;
          js = [0..<tc_n cfg1];
          rn1 = enableAll (concat (map (\<lambda>j. endOf cfg1 i j) js)) False rn
      in (cfg1, enableAll (concat (map (\<lambda>j. endOf cfg1 j i) js)) False rn1))"

text \<open>
  \<^verbatim>\<open>crash1\<close>: what it does to the network, and the persister that the next instance gets, if there was one. The old instance is killed.
\<close>

definition crash1 :: "nat \<Rightarrow> 'c testConfig \<times> netName Network \<Rightarrow> 'c testConfig \<times> netName Network" where
  "crash1 i st = (let (cfg, rn) = disconnect i st in (cfg, DeleteServer (ServerName i) rn))"

definition crashSaved :: "('v, 's) persister option \<Rightarrow> ('v, 's) persister option" where
  "crashSaved saved = map_option (\<lambda>ps. let p = Copy ps in SaveStateAndSnapshot (ReadRaftState p) (ReadSnapshot p) MakePersister) saved"

text \<open>\<^verbatim>\<open>start1\<close>: fresh ends with the random names given, each connected to its server; a name that exists already is fatal.\<close>

fun makeEnds :: "nat \<Rightarrow> string list \<Rightarrow> netName Network \<Rightarrow> fatal + netName Network" where
  "makeEnds j [] rn = Inr rn"
| "makeEnds j (name # names) rn =
     (case MakeEnd (EndName name) rn of
        Inl f \<Rightarrow> Inl f
      | Inr (rn1, e) \<Rightarrow> makeEnds (Suc j) names (Connect (EndName name) (ServerName j) rn1))"

datatype startError = NetFatal fatal | SnapFatal applyError | ConnectPanic panic

text \<open>
  \<^verbatim>\<open>saved\<close> is the persister of server \<^verbatim>\<open>i\<close>, \<^verbatim>\<open>addr\<close> the address of the new server object. The result holds the new Raft instance and its
  persister too; the log of the server in \<^verbatim>\<open>cfg.logs\<close> stays unless there is a snapshot.
\<close>

definition start1 ::
    "nat \<Rightarrow> string list \<Rightarrow> nat \<Rightarrow> int \<Rightarrow> ('c gobval, 'c testGob) persister option \<Rightarrow> 'c testConfig \<times> netName Network \<Rightarrow>
     startError + 'c testConfig \<times> netName Network \<times> ('c, 'c testGob) raft" where
  "start1 i names addr rnd saved st =
     (let (cfg, rn) = crash1 i st;
          cfg1 = cfg\<lparr>tc_endnames := (tc_endnames cfg)[i := Some names]\<rparr>
      in case makeEnds 0 names rn of
           Inl f \<Rightarrow> Inl (NetFatal f)
         | Inr rn1 \<Rightarrow>
            (let cfg2 = cfg1\<lparr>tc_lastApplied := (tc_lastApplied cfg1)[i := 0]\<rparr>;
                 ps = (case crashSaved saved of None \<Rightarrow> MakePersister | Some p \<Rightarrow> Copy p);
                 snap = ReadSnapshot ps
             in case (if length snap > 0 then ingestSnap i snap (-1) cfg2 else Inr cfg2) of
                  Inl e \<Rightarrow> Inl (SnapFatal e)
                | Inr cfg3 \<Rightarrow> Inr (cfg3, AddServer (ServerName i) addr rn1, Make (tc_n cfg3) i ps rnd)))"

text \<open>
  \<^verbatim>\<open>make_config\<close>: all servers are started, with the names and random numbers given, and then connected.
\<close>

fun startAll ::
    "(nat \<Rightarrow> string list) \<Rightarrow> (nat \<Rightarrow> nat) \<Rightarrow> (nat \<Rightarrow> int) \<Rightarrow> nat list \<Rightarrow> 'c testConfig \<times> netName Network \<Rightarrow>
     startError + ('c testConfig \<times> netName Network) \<times> ('c, 'c testGob) raft list" where
  "startAll names addr rnd [] st = Inr (st, [])"
| "startAll names addr rnd (i # is) st =
     (case start1 i (names i) (addr i) (rnd i) None st of
        Inl e \<Rightarrow> Inl e
      | Inr (cfg, rn, rf) \<Rightarrow>
          (case startAll names addr rnd is (cfg, rn) of Inl e \<Rightarrow> Inl e | Inr (st', rfs) \<Rightarrow> Inr (st', rf # rfs)))"

fun connectAll :: "nat list \<Rightarrow> 'c testConfig \<times> netName Network \<Rightarrow> ('c testConfig \<times> netName Network) go" where
  "connectAll [] st = Inr st"
| "connectAll (i # is) st = (case connect i st of Inl p \<Rightarrow> Inl p | Inr st' \<Rightarrow> connectAll is st')"

definition make_config ::
    "nat \<Rightarrow> bool \<Rightarrow> (nat \<Rightarrow> string list) \<Rightarrow> (nat \<Rightarrow> nat) \<Rightarrow> (nat \<Rightarrow> int) \<Rightarrow>
     startError + ('c testConfig \<times> netName Network) \<times> ('c, 'c testGob) raft list" where
  "make_config n unreliable names addr rnd =
     (case startAll names addr rnd [0..<n] (emptyTest n, LongDelays True (Reliable (\<not> unreliable) MakeNetwork)) of
        Inl e \<Rightarrow> Inl e
      | Inr (st, rfs) \<Rightarrow> (case connectAll [0..<n] st of Inl p \<Rightarrow> Inl (ConnectPanic p) | Inr st' \<Rightarrow> Inr (st', rfs)))"

text \<open>\<^verbatim>\<open>begin\<close> and \<^verbatim>\<open>end\<close>: the numbers of servers, calls, bytes and agreements that a passed test prints.\<close>

definition beginTest :: "netName Network \<Rightarrow> 'c testConfig \<Rightarrow> 'c testConfig" where
  "beginTest rn cfg = cfg\<lparr>tc_rpcs0 := GetTotalCount rn, tc_bytes0 := GetTotalBytes rn, tc_cmds0 := 0, tc_maxIndex0 := tc_maxIndex cfg\<rparr>"

definition endTest :: "netName Network \<Rightarrow> 'c testConfig \<Rightarrow> nat \<times> int \<times> int \<times> int" where
  "endTest rn cfg = (tc_n cfg, GetTotalCount rn - tc_rpcs0 cfg, GetTotalBytes rn - tc_bytes0 cfg, tc_maxIndex cfg - tc_maxIndex0 cfg)"

section \<open>Agreement on one command\<close>

text \<open>
  The inner loop of \<^verbatim>\<open>one\<close>: every server from the one after \<^verbatim>\<open>starts\<close> on is asked to start the command, until one claims to be leader. \<^verbatim>\<open>ans j\<close> is
  what \<^verbatim>\<open>Start\<close> answers at server \<^verbatim>\<open>j\<close>.
\<close>

fun tryStart :: "nat \<Rightarrow> nat \<Rightarrow> 'c testConfig \<Rightarrow> (nat \<Rightarrow> int \<times> bool) \<Rightarrow> nat \<times> int" where
  "tryStart 0 starts cfg ans = (starts, -1)"
| "tryStart (Suc si) starts cfg ans =
     (let starts1 = (starts + 1) mod tc_n cfg in
      if tc_connected cfg ! starts1 \<and> snd (ans starts1) then (starts1, fst (ans starts1))
      else tryStart si starts1 cfg ans)"

text \<open>The polls for agreement: the states that \<^verbatim>\<open>nCommitted\<close> sees within two seconds.\<close>

fun pollCommitted :: "int \<Rightarrow> 'c option \<Rightarrow> nat \<Rightarrow> 'c testConfig list \<Rightarrow> testFailure + bool" where
  "pollCommitted index cmd expected [] = Inr False"
| "pollCommitted index cmd expected (cfg # rest) =
     (case nCommitted index cfg of
        Inl f \<Rightarrow> Inl f
      | Inr (nd, cmd1) \<Rightarrow> if nd > 0 \<and> nd \<ge> expected \<and> cmd1 = Some cmd then Inr True
                          else pollCommitted index cmd expected rest)"

text \<open>\<^verbatim>\<open>one\<close>: the list holds the rounds that run before ten seconds are over or the test is \<^verbatim>\<open>finished\<close>; \<^term>\<open>NoAgreement\<close> is its \<^verbatim>\<open>Fatalf\<close>.\<close>

fun one :: "bool \<Rightarrow> 'c option \<Rightarrow> nat \<Rightarrow> bool \<Rightarrow> nat \<Rightarrow> ('c testConfig \<times> (nat \<Rightarrow> int \<times> bool) \<times> 'c testConfig list) list \<Rightarrow> testFailure + int" where
  "one finished cmd expected retry starts [] = (if finished then Inr (-1) else Inl NoAgreement)"
| "one finished cmd expected retry starts ((cfg, ans, polls) # rest) =
     (case tryStart (tc_n cfg) starts cfg ans of (starts1, index) \<Rightarrow>
        if index \<noteq> -1
        then (case pollCommitted index cmd expected polls of
                Inl f \<Rightarrow> Inl f
              | Inr True \<Rightarrow> Inr index
              | Inr False \<Rightarrow> if retry then one finished cmd expected retry starts1 rest else Inl NoAgreement)
        else one finished cmd expected retry starts1 rest)"

section \<open>Connections\<close>

abbreviation started :: "'c testConfig \<Rightarrow> nat \<Rightarrow> bool" where
  "started cfg i \<equiv> tc_endnames cfg ! i \<noteq> None"

abbreviation endName :: "'c testConfig \<Rightarrow> nat \<Rightarrow> nat \<Rightarrow> string" where
  "endName cfg i j \<equiv> the (tc_endnames cfg ! i) ! j"

text \<open>
  The ends of the started servers exist, have different names, lead to the servers, and are enabled exactly between connected servers.
\<close>

definition endsOk :: "'c testConfig \<Rightarrow> netName Network \<Rightarrow> bool" where
  "endsOk cfg rn \<longleftrightarrow> length (tc_connected cfg) = tc_n cfg \<and> length (tc_endnames cfg) = tc_n cfg \<and>
     (\<forall>i < tc_n cfg. tc_connected cfg ! i \<longrightarrow> started cfg i) \<and>
     (\<forall>i < tc_n cfg. \<forall>j < tc_n cfg. \<forall>x < tc_n cfg. \<forall>y < tc_n cfg.
        started cfg i \<and> started cfg x \<and> endName cfg i j = endName cfg x y \<longrightarrow> i = x \<and> j = y) \<and>
     (\<forall>i < tc_n cfg. \<forall>j < tc_n cfg. started cfg i \<longrightarrow>
        nw_ends rn (EndName (endName cfg i j)) \<noteq> None \<and>
        nw_connections rn (EndName (endName cfg i j)) = Some (ServerName j) \<and>
        (nw_enabled rn (EndName (endName cfg i j)) \<longleftrightarrow> tc_connected cfg ! i \<and> tc_connected cfg ! j))"

lemma endsOkI:
  assumes "length (tc_connected cfg) = tc_n cfg" "length (tc_endnames cfg) = tc_n cfg"
    and "\<And>i. i < tc_n cfg \<Longrightarrow> tc_connected cfg ! i \<Longrightarrow> started cfg i"
    and "\<And>i j x y. i < tc_n cfg \<Longrightarrow> j < tc_n cfg \<Longrightarrow> x < tc_n cfg \<Longrightarrow> y < tc_n cfg \<Longrightarrow> started cfg i \<Longrightarrow> started cfg x \<Longrightarrow>
      endName cfg i j = endName cfg x y \<Longrightarrow> i = x \<and> j = y"
    and "\<And>i j. i < tc_n cfg \<Longrightarrow> j < tc_n cfg \<Longrightarrow> started cfg i \<Longrightarrow>
      nw_ends rn (EndName (endName cfg i j)) \<noteq> None \<and> nw_connections rn (EndName (endName cfg i j)) = Some (ServerName j) \<and>
      (nw_enabled rn (EndName (endName cfg i j)) \<longleftrightarrow> tc_connected cfg ! i \<and> tc_connected cfg ! j)"
  shows "endsOk cfg rn"
  unfolding endsOk_def using assms by blast

lemma endsOk_name:
  assumes "endsOk cfg rn" "i < tc_n cfg" "j < tc_n cfg" "x < tc_n cfg" "y < tc_n cfg" "started cfg i" "started cfg x"
  shows "endName cfg i j = endName cfg x y \<longleftrightarrow> i = x \<and> j = y"
  using assms unfolding endsOk_def by blast

lemma endsOk_end:
  assumes "endsOk cfg rn" "i < tc_n cfg" "j < tc_n cfg" "started cfg i"
  shows "nw_ends rn (EndName (endName cfg i j)) \<noteq> None" "nw_connections rn (EndName (endName cfg i j)) = Some (ServerName j)"
    "nw_enabled rn (EndName (endName cfg i j)) \<longleftrightarrow> tc_connected cfg ! i \<and> tc_connected cfg ! j"
  using assms unfolding endsOk_def by blast+

lemma enableAll_simps [simp]:
  "nw_enabled (enableAll names b rn) e \<longleftrightarrow> (if e \<in> EndName ` set names then b else nw_enabled rn e)"
  "nw_ends (enableAll names b rn) = nw_ends rn" "nw_connections (enableAll names b rn) = nw_connections rn"
  unfolding enableAll_def by (induction names arbitrary: rn) (auto simp: Enable_def)

lemma endOf_set: "set (endOf cfg i j) = (if started cfg i then {endName cfg i j} else {})"
  by (auto simp: endOf_def)

lemma endOf_connected [simp]: "endOf (cfg\<lparr>tc_connected := c\<rparr>) = endOf cfg"
  by (simp add: endOf_def fun_eq_iff)

text \<open>Setting all ends between server \<^verbatim>\<open>i\<close> and the servers of a list.\<close>

lemma enable_pairs:
  assumes ok: "endsOk cfg rn" and i: "i < tc_n cfg" and js: "\<forall>j\<in>set js. j < tc_n cfg" and x: "x < tc_n cfg" "started cfg x" and y: "y < tc_n cfg"
  shows "nw_enabled (enableAll (concat (map (\<lambda>j. endOf cfg j i) js)) b (enableAll (concat (map (\<lambda>j. endOf cfg i j) js)) b rn))
      (EndName (endName cfg x y)) \<longleftrightarrow>
    (if x = i \<and> y \<in> set js \<or> y = i \<and> x \<in> set js then b else tc_connected cfg ! x \<and> tc_connected cfg ! y)"
proof -
  have "endName cfg x y \<in> set (concat (map (\<lambda>j. endOf cfg i j) js)) \<longleftrightarrow> x = i \<and> y \<in> set js"
    using endsOk_name [OF ok x(1) y i _ x(2)] js x(2) by (auto simp: endOf_set)
  moreover have "endName cfg x y \<in> set (concat (map (\<lambda>j. endOf cfg j i) js)) \<longleftrightarrow> y = i \<and> x \<in> set js"
    using endsOk_name [OF ok x(1) y _ i x(2)] js x(2) by (auto simp: endOf_set)
  ultimately show ?thesis using endsOk_end(3) [OF ok x(1) y x(2)] by (auto simp: image_iff)
qed

lemma endsOk_switch:
  assumes ok: "endsOk cfg rn" and i: "i < tc_n cfg" and v: "v \<longrightarrow> started cfg i" and js: "\<forall>j\<in>set js. j < tc_n cfg"
    and all: "\<And>j. j < tc_n cfg \<Longrightarrow> j \<in> set js \<longleftrightarrow> (v \<longrightarrow> (tc_connected cfg)[i := v] ! j)"
  shows "endsOk (cfg\<lparr>tc_connected := (tc_connected cfg)[i := v]\<rparr>)
    (enableAll (concat (map (\<lambda>j. endOf cfg j i) js)) v (enableAll (concat (map (\<lambda>j. endOf cfg i j) js)) v rn))" (is "endsOk ?cfg ?rn")
proof -
  have len: "length (tc_connected cfg) = tc_n cfg" using ok by (simp add: endsOk_def)
  have "nw_enabled ?rn (EndName (endName cfg x y)) \<longleftrightarrow> (tc_connected cfg)[i := v] ! x \<and> (tc_connected cfg)[i := v] ! y"
    if "x < tc_n cfg" "y < tc_n cfg" "started cfg x" for x y
    unfolding enable_pairs [OF ok i js that(1,3,2), of v] using that len i all by (auto simp: nth_list_update)
  moreover have "started cfg x" if "x < tc_n cfg" "(tc_connected cfg)[i := v] ! x" for x
    using ok that v len by (cases "x = i") (auto simp: endsOk_def)
  ultimately show ?thesis using ok unfolding endsOk_def by simp
qed

lemma connect_endsOk:
  assumes ok: "endsOk cfg rn" and i: "i < tc_n cfg" "started cfg i"
  shows "\<exists>rn'. connect i (cfg, rn) = Inr (cfg\<lparr>tc_connected := (tc_connected cfg)[i := True]\<rparr>, rn') \<and>
    endsOk (cfg\<lparr>tc_connected := (tc_connected cfg)[i := True]\<rparr>) rn'"
proof -
  let ?js = "filter (\<lambda>j. (tc_connected cfg)[i := True] ! j) [0..<tc_n cfg]"
  have "started cfg j" if "j \<in> set ?js" for j using ok that i by (cases "j = i") (auto simp: endsOk_def)
  then have "connect i (cfg, rn) = Inr (cfg\<lparr>tc_connected := (tc_connected cfg)[i := True]\<rparr>,
      enableAll (concat (map (\<lambda>j. endOf cfg j i) ?js)) True (enableAll (concat (map (\<lambda>j. endOf cfg i j) ?js)) True rn))"
    using i(2) by (auto simp: connect_def Let_def list_ex_iff)
  then show ?thesis using endsOk_switch [OF ok i(1), of True ?js] i(2) by auto
qed

lemma disconnect_endsOk:
  assumes "endsOk cfg rn" "i < tc_n cfg"
  shows "\<exists>rn'. disconnect i (cfg, rn) = (cfg\<lparr>tc_connected := (tc_connected cfg)[i := False]\<rparr>, rn') \<and>
    endsOk (cfg\<lparr>tc_connected := (tc_connected cfg)[i := False]\<rparr>) rn'"
  using endsOk_switch [OF assms, of False "[0..<tc_n cfg]"] by (auto simp: disconnect_def Let_def)

lemma makeEnds_cases:
  assumes "makeEnds j names rn = Inr rn'"
  shows "distinct names \<and> (\<forall>e\<in>set names. nw_ends rn (EndName e) = None \<and> nw_ends rn' (EndName e) \<noteq> None \<and> \<not> nw_enabled rn' (EndName e)) \<and>
    (\<forall>e. nw_ends rn e \<noteq> None \<longrightarrow> nw_ends rn' e \<noteq> None \<and> nw_enabled rn' e = nw_enabled rn e \<and> nw_connections rn' e = nw_connections rn e) \<and>
    (\<forall>k < length names. nw_connections rn' (EndName (names ! k)) = Some (ServerName (j + k)))"
  using assms
proof (induction names arbitrary: j rn)
  case (Cons name names)
  have new: "nw_ends rn (EndName name) = None" using Cons.prems by (cases "nw_ends rn (EndName name)") (simp_all add: MakeEnd_def)
  obtain rn1 where r: "makeEnds (Suc j) names rn1 = Inr rn'"
    and n: "nw_ends rn1 (EndName name) \<noteq> None" "\<not> nw_enabled rn1 (EndName name)" "nw_connections rn1 (EndName name) = Some (ServerName j)"
      "\<And>e. e \<noteq> EndName name \<Longrightarrow> nw_ends rn1 e = nw_ends rn e \<and> nw_enabled rn1 e = nw_enabled rn e \<and> nw_connections rn1 e = nw_connections rn e"
    using Cons.prems new by (simp add: MakeEnd_def Connect_def Let_def)
  have IH: "distinct names" "\<forall>e\<in>set names. nw_ends rn1 (EndName e) = None \<and> nw_ends rn' (EndName e) \<noteq> None \<and> \<not> nw_enabled rn' (EndName e)"
    "\<And>e. nw_ends rn1 e \<noteq> None \<Longrightarrow> nw_ends rn' e \<noteq> None \<and> nw_enabled rn' e = nw_enabled rn1 e \<and> nw_connections rn' e = nw_connections rn1 e"
    "\<And>k. k < length names \<Longrightarrow> nw_connections rn' (EndName (names ! k)) = Some (ServerName (Suc j + k))"
    using Cons.IH [OF r] by auto
  have notin: "name \<notin> set names" using bspec [OF IH(2), of name] n(1) by auto
  show ?case
  proof (intro conjI allI impI ballI)
    show "distinct (name # names)" using notin IH(1) by simp
  next
    fix e assume "e \<in> set (name # names)"
    then show "nw_ends rn (EndName e) = None" "nw_ends rn' (EndName e) \<noteq> None" "\<not> nw_enabled rn' (EndName e)"
      using new n(1,2) IH(2) IH(3) [of "EndName name"] n(4) [of "EndName e"] by (cases "e = name"; auto)+
  next
    fix e assume "nw_ends rn e \<noteq> None"
    moreover from this new have "e \<noteq> EndName name" by auto
    ultimately show "nw_ends rn' e \<noteq> None" "nw_enabled rn' e = nw_enabled rn e" "nw_connections rn' e = nw_connections rn e"
      using IH(3) [of e] n(4) [of e] by auto
  next
    fix k assume "k < length (name # names)"
    then show "nw_connections rn' (EndName ((name # names) ! k)) = Some (ServerName (j + k))"
      using IH(3) [of "EndName name"] n(1,3) IH(4) by (cases k) auto
  qed
qed simp

lemma crash1_endsOk:
  assumes "endsOk cfg rn" "i < tc_n cfg"
  shows "\<exists>rn'. crash1 i (cfg, rn) = (cfg\<lparr>tc_connected := (tc_connected cfg)[i := False]\<rparr>, rn') \<and>
    endsOk (cfg\<lparr>tc_connected := (tc_connected cfg)[i := False]\<rparr>) rn'"
  using disconnect_endsOk [OF assms] by (auto simp: crash1_def DeleteServer_def endsOk_def)

lemma endsOk_restart:
  assumes ok: "endsOk cfg rn" and i: "i < tc_n cfg" "\<not> tc_connected cfg ! i" and names: "length names = tc_n cfg"
    and m: "makeEnds 0 names rn = Inr rn'"
  shows "endsOk (cfg\<lparr>tc_endnames := (tc_endnames cfg)[i := Some names]\<rparr>) rn'" (is "endsOk ?cfg _")
proof -
  note e = makeEnds_cases [OF m]
  have len: "length (tc_endnames cfg) = tc_n cfg" using ok by (simp add: endsOk_def)
  have mine: "endName ?cfg i j = names ! j" "started ?cfg i" for j using i(1) len by simp_all
  have other: "tc_endnames ?cfg ! x = tc_endnames cfg ! x" if "x \<noteq> i" for x using that by simp
  have new: "names ! j \<noteq> endName cfg x y" if "j < tc_n cfg" "x < tc_n cfg" "y < tc_n cfg" "started cfg x" for j x y
    using e names that endsOk_end(1) [OF ok that(2-4)] nth_mem [of j names] by metis
  have inj: "x = x' \<and> y = y'"
    if "x < tc_n cfg" "y < tc_n cfg" "x' < tc_n cfg" "y' < tc_n cfg" "started ?cfg x" "started ?cfg x'" "endName ?cfg x y = endName ?cfg x' y'" for x y x' y'
  proof -
    consider "x = i" "x' = i" | "x = i" "x' \<noteq> i" | "x \<noteq> i" "x' = i" | "x \<noteq> i" "x' \<noteq> i" by blast
    then show ?thesis
    proof cases
      case 1
      then show ?thesis using that(2,4,7) mine(1) e names by (simp add: nth_eq_iff_index_eq)
    next
      case 4
      then show ?thesis using endsOk_name [OF ok that(1-4)] that(5-7) other by simp
    qed (use that new [of y x' y'] new [of y' x y] mine(1) other in auto)
  qed
  moreover have "nw_ends rn' (EndName (endName ?cfg x y)) \<noteq> None \<and> nw_connections rn' (EndName (endName ?cfg x y)) = Some (ServerName y) \<and>
      (nw_enabled rn' (EndName (endName ?cfg x y)) \<longleftrightarrow> tc_connected cfg ! x \<and> tc_connected cfg ! y)"
    if "x < tc_n cfg" "y < tc_n cfg" "started ?cfg x" for x y
  proof (cases "x = i")
    case True
    then show ?thesis using e mine(1) names that(2) i(2) nth_mem [of y names] by (auto simp del: nth_mem)
  next
    case False
    then show ?thesis using endsOk_end [OF ok that(1,2)] that(3) other [OF False] e by auto
  qed
  moreover have "started ?cfg x" if "x < tc_n cfg" "tc_connected cfg ! x" for x
    using ok that i by (cases "x = i") (auto simp: endsOk_def)
  ultimately show ?thesis using ok len by (intro endsOkI) (simp_all add: endsOk_def)
qed

lemma start1_endsOk:
  assumes ok: "endsOk cfg rn" and i: "i < tc_n cfg" and names: "length names = tc_n cfg" and s: "start1 i names addr rnd saved (cfg, rn) = Inr (cfg', rn', rf)"
  shows "endsOk cfg' rn' \<and> tc_n cfg' = tc_n cfg \<and> tc_connected cfg' = (tc_connected cfg)[i := False] \<and>
    tc_endnames cfg' = (tc_endnames cfg)[i := Some names]"
proof -
  let ?cfg = "cfg\<lparr>tc_connected := (tc_connected cfg)[i := False]\<rparr>"
  obtain rn0 where c: "crash1 i (cfg, rn) = (?cfg, rn0)" "endsOk ?cfg rn0" using crash1_endsOk [OF ok i] by blast
  obtain rn1 where m: "makeEnds 0 names rn0 = Inr rn1" using s c(1) by (cases "makeEnds 0 names rn0") (simp_all add: start1_def Let_def)
  have "endsOk (?cfg\<lparr>tc_endnames := (tc_endnames ?cfg)[i := Some names]\<rparr>) rn1"
    using ok i names by (intro endsOk_restart [OF c(2) _ _ _ m]) (auto simp: endsOk_def)
  moreover have "rn' = AddServer (ServerName i) addr rn1" "tc_n cfg' = tc_n cfg" "tc_connected cfg' = tc_connected ?cfg"
      "tc_endnames cfg' = (tc_endnames cfg)[i := Some names]"
    using s c(1) m by (auto simp: start1_def ingestSnap_def Let_def split: sum.splits if_splits option.splits)
  ultimately show ?thesis by (simp add: endsOk_def AddServer_def)
qed

text \<open>Runs of the harness: servers are started with names of the right number, connected, disconnected and crashed, from the state that \<^verbatim>\<open>make_config\<close> begins with.\<close>

inductive netRun :: "nat \<Rightarrow> 'c testConfig \<Rightarrow> netName Network \<Rightarrow> bool" for n where
  make: "netRun n (emptyTest n) (LongDelays True (Reliable rel MakeNetwork))"
| start: "\<lbrakk>netRun n cfg rn; i < n; length names = n; start1 i names addr rnd saved (cfg, rn) = Inr (cfg', rn', rf)\<rbrakk> \<Longrightarrow> netRun n cfg' rn'"
| connect: "\<lbrakk>netRun n cfg rn; i < n; connect i (cfg, rn) = Inr (cfg', rn')\<rbrakk> \<Longrightarrow> netRun n cfg' rn'"
| disconnect: "\<lbrakk>netRun n cfg rn; i < n; disconnect i (cfg, rn) = (cfg', rn')\<rbrakk> \<Longrightarrow> netRun n cfg' rn'"
| crash: "\<lbrakk>netRun n cfg rn; i < n; crash1 i (cfg, rn) = (cfg', rn')\<rbrakk> \<Longrightarrow> netRun n cfg' rn'"

lemma connect_started:
  assumes "endsOk cfg rn" "i < tc_n cfg" "connect i (cfg, rn) = Inr (cfg', rn')"
  shows "started cfg i"
proof -
  have "i \<in> set (filter (\<lambda>j. (tc_connected cfg)[i := True] ! j) [0..<tc_n cfg])" using assms(1,2) by (simp add: endsOk_def)
  then have "filter (\<lambda>j. (tc_connected cfg)[i := True] ! j) [0..<tc_n cfg] \<noteq> []" by (metis empty_iff empty_set)
  then show ?thesis using assms(3) by (auto simp: connect_def Let_def split: if_splits)
qed

lemma netRun_endsOk: "netRun n cfg rn \<Longrightarrow> endsOk cfg rn \<and> tc_n cfg = n"
proof (induction rule: netRun.induct)
  case (make rel)
  then show ?case by (auto simp: endsOk_def emptyTest_def)
next
  case (start cfg rn i names addr rnd saved cfg' rn' rf)
  then have "i < tc_n cfg" "length names = tc_n cfg" "endsOk cfg rn" by simp_all
  then show ?case using start1_endsOk [OF _ _ _ start.hyps(4)] start.IH by simp
next
  case (connect cfg rn i cfg' rn')
  then show ?case using connect_started connect_endsOk [of cfg rn i] by fastforce
next
  case (disconnect cfg rn i cfg' rn')
  then show ?case using disconnect_endsOk [of cfg rn i] by fastforce
next
  case (crash cfg rn i cfg' rn')
  then show ?case using crash1_endsOk [of cfg rn i] by fastforce
qed

text \<open>
  C25. However servers are started, connected, disconnected, crashed and restarted, from the initial state of the harness on, the end that a started server uses for another
  one leads to that server and is enabled exactly if both are connected; and connecting a started server never panics.
\<close>

theorem harness_connections:
  assumes "netRun n cfg rn" "i < n" "j < n" "tc_endnames cfg ! i = Some names"
  shows "nw_connections rn (EndName (names ! j)) = Some (ServerName j) \<and>
    (nw_enabled rn (EndName (names ! j)) \<longleftrightarrow> tc_connected cfg ! i \<and> tc_connected cfg ! j) \<and>
    (\<exists>cfg' rn'. connect i (cfg, rn) = Inr (cfg', rn'))"
proof -
  have "endsOk cfg rn" "tc_n cfg = n" using netRun_endsOk [OF assms(1)] by simp_all
  then show ?thesis using endsOk_end [of cfg rn i j] connect_endsOk [of cfg rn i] assms(2-4) by auto
qed

lemma startAll_netRun:
  assumes "startAll names addr rnd is st = Inr (st', rfs)" "netRun n (fst st) (snd st)" "\<forall>i\<in>set is. i < n \<and> length (names i) = n"
  shows "netRun n (fst st') (snd st')"
  using assms
proof (induction names addr rnd "is" st arbitrary: st' rfs rule: startAll.induct)
  case (2 names addr rnd i js st)
  obtain cfg rn rf where s: "start1 i (names i) (addr i) (rnd i) None st = Inr (cfg, rn, rf)" using 2(2)
    by (cases "start1 i (names i) (addr i) (rnd i) None st") auto
  then obtain rfs' where r: "startAll names addr rnd js (cfg, rn) = Inr (st', rfs')" using 2(2) by (auto split: sum.splits)
  have "netRun n cfg rn" using netRun.start [OF 2(3), of i "names i"] s 2(4) by simp
  then show ?case using 2(1) [OF s _ _ r] 2(4) by simp
qed simp

lemma connectAll_netRun:
  "connectAll is st = Inr st' \<Longrightarrow> netRun n (fst st) (snd st) \<Longrightarrow> \<forall>i\<in>set is. i < n \<Longrightarrow> netRun n (fst st') (snd st')"
proof (induction "is" st rule: connectAll.induct)
  case (2 i js st)
  obtain cfg rn where c: "connect i st = Inr (cfg, rn)" using 2(2) by (cases "connect i st") auto
  have "netRun n cfg rn" using netRun.connect [OF 2(3), of i] c 2(4) by simp
  then show ?case using 2(1) [OF c] 2(2,4) c by simp
qed simp

text \<open>\<^verbatim>\<open>make_config\<close> is such a run.\<close>

lemma make_config_netRun:
  assumes "make_config n unreliable names addr rnd = Inr ((cfg, rn), rfs)" "\<forall>i < n. length (names i) = n"
  shows "netRun n cfg rn"
proof -
  let ?st = "(emptyTest n, LongDelays True (Reliable (\<not> unreliable) MakeNetwork))"
  obtain st rfs' where s: "startAll names addr rnd [0..<n] ?st = Inr (st, rfs')" "connectAll [0..<n] st = Inr (cfg, rn)"
    using assms(1) by (auto simp: make_config_def split: sum.splits prod.splits)
  have "netRun n (fst st) (snd st)" using netRun.make [of n "\<not> unreliable"] assms(2) by (intro startAll_netRun [OF s(1)]) auto
  then show ?thesis using connectAll_netRun [OF s(2)] by simp
qed

text \<open>Two servers, both started and connected.\<close>

definition exNames :: "nat \<Rightarrow> string list" where
  "exNames i = (if i = 0 then [''a'', ''b''] else [''c'', ''d''])"

lemma exNames_config:
  obtains cfg rn rfs where "make_config 2 False exNames id (\<lambda>_. 0) = Inr ((cfg :: int testConfig, rn), rfs)"
    "tc_endnames cfg ! 0 = Some [''a'', ''b'']" "tc_connected cfg ! 0" "tc_connected cfg ! 1"
proof -
  have u: "[0..<2] = [0, Suc 0]" by (simp add: upt_rec)
  let ?c = "make_config 2 False exNames id (\<lambda>_. 0) :: startError + (int testConfig \<times> netName Network) \<times> (int, int testGob) raft list"
  have "case ?c of Inl _ \<Rightarrow> False | Inr ((cfg, rn), rfs) \<Rightarrow> tc_endnames cfg ! 0 = Some [''a'', ''b''] \<and> tc_connected cfg ! 0 \<and> tc_connected cfg ! 1"
    by (simp add: make_config_def u start1_def crash1_def disconnect_def enableAll_def endOf_def emptyTest_def exNames_def MakeEnd_def Connect_def
      Enable_def nth_Cons' LongDelays_def Reliable_def MakeNetwork_def crashSaved_def persister_defs connect_def Let_def AddServer_def DeleteServer_def numeral_2_eq_2)
  then show ?thesis using that by (auto split: sum.splits prod.splits)
qed

theorem harness_connections_witness:
  "\<exists>(cfg :: int testConfig) rn. netRun 2 cfg rn \<and> tc_endnames cfg ! 0 = Some [''a'', ''b''] \<and>
    nw_connections rn (EndName ''b'') = Some (ServerName 1) \<and> nw_enabled rn (EndName ''b'')"
proof -
  obtain cfg :: "int testConfig" and rn rfs where c: "make_config 2 False exNames id (\<lambda>_. 0) = Inr ((cfg, rn), rfs)"
    "tc_endnames cfg ! 0 = Some [''a'', ''b'']" "tc_connected cfg ! 0" "tc_connected cfg ! 1" by (rule exNames_config)
  then have "netRun 2 cfg rn" using make_config_netRun [OF c(1)] by (simp add: exNames_def)
  then show ?thesis using harness_connections [of 2 cfg rn 0 1 "[''a'', ''b'']"] c(2-4) by auto
qed

end
