(* ===== verification/Raft_Node_Inv.thy ===== *)
theory Raft_Node_Inv
  imports Raft_Node
begin

text \<open>
  Properties of a single Raft server that hold for every sequence of handler calls: the persistent
  state on stable storage is never behind the state in memory, terms never decrease, a vote is never
  changed within a term, and the leader's index arrays keep their length. The handlers are
  collected in one event type so that each invariant is proved once over all of them.
\<close>

section \<open>All critical sections of one server\<close>

datatype ('c, 's) event =
    EvRequestVote int RequestVoteArgs
  | EvAppendEntries int "'c AppendEntriesArgs"
  | EvInstallSnapshot int "'s InstallSnapshotArgs"
  | EvVoteReply RequestVoteArgs RequestVoteReply
  | EvAppendReply nat "'c AppendEntriesArgs" AppendEntriesReply
  | EvSnapshotReply nat "'s InstallSnapshotArgs" InstallSnapshotReply
  | EvElection int
  | EvHeartbeat
  | EvStart 'c
  | EvSnapshot int "'s buffer"
  | EvCondInstall int int "'s buffer"
  | EvCollect
  | EvFinish "'c applyBatch"
  | EvKill
  | EvRestart int

fun raftStep :: "('c, 's) event \<Rightarrow> ('c, 's) raft \<Rightarrow> ('c, 's) raft go" where
  "raftStep (EvRequestVote rnd args) rf = Inr (fst (RequestVote rnd args rf))"
| "raftStep (EvAppendEntries rnd args) rf = Inr (fst (AppendEntries rnd args rf))"
| "raftStep (EvInstallSnapshot rnd args) rf = Inr (fst (InstallSnapshot rnd args rf))"
| "raftStep (EvVoteReply args reply) rf = Inr (handleVoteReply args reply rf)"
| "raftStep (EvAppendReply p args reply) rf = Inr (handleAppendReply p args reply rf)"
| "raftStep (EvSnapshotReply p args reply) rf = Inr (handleSnapshotReply p args reply rf)"
| "raftStep (EvElection rnd) rf = Inr (fst (tickElection rnd rf))"
| "raftStep EvHeartbeat rf = Inr (fst (tickHeartbeat rf))"
| "raftStep (EvStart c) rf = Inr (fst (Start c rf))"
| "raftStep (EvSnapshot i snap) rf = Snapshot i snap rf"
| "raftStep (EvCondInstall t i snap) rf =
     (case CondInstallSnapshot t i snap rf of Inl p \<Rightarrow> Inl p | Inr (rf', _) \<Rightarrow> Inr rf')"
| "raftStep EvCollect rf =
     Inr (case applierCollect rf of None \<Rightarrow> rf | Some (rf', _) \<Rightarrow> rf')"
| "raftStep (EvFinish b) rf = Inr (applierFinish b rf)"
| "raftStep EvKill rf = Inr (Kill rf)"
| "raftStep (EvRestart rnd) rf = Inr (Make (peers rf) (me rf) (Copy (Persister rf)) rnd)"

section \<open>Durability\<close>

definition persistentState ::
    "('c, 's) raft \<Rightarrow> int \<times> int \<times> 'c LogEntry list \<times> int \<times> int" where
  "persistentState rf =
     (currentTerm rf, votedFor rf, log rf, lastIncludedIndex rf, lastIncludedTerm rf)"

lemma decode_encodeState [simp]: "decodeState (encodeState rf) = Some (persistentState rf)"
  by (simp add: decodeState_def encodeState_def Encode_def Decode_def persistentState_def)

lemma encodeState_nonempty [simp]: "encodeState rf \<noteq> []"
  by (simp add: encodeState_def Encode_def)

interpretation raft_codec: codec encodeState decodeState persistentState
  by unfold_locales simp_all

text \<open>What \<^verbatim>\<open>Make\<close> recovers from a buffer, and the state whose buffer recovers to itself.\<close>

definition recovered ::
    "'c gobval buffer \<Rightarrow> int \<times> int \<times> 'c LogEntry list \<times> int \<times> int" where
  "recovered b = (if b = [] then (0, -1, [], 0, 0)
                  else case decodeState b of None \<Rightarrow> (0, -1, [], 0, 0) | Some st \<Rightarrow> st)"

definition durable :: "('c, 's) raft \<Rightarrow> bool" where
  "durable rf \<longleftrightarrow> recovered (raftstate (Persister rf)) = persistentState rf"

lemma persistentState_Make:
  "persistentState (Make n i ps rnd) = recovered (raftstate ps)"
  by (auto simp: Make_def readPersist_def recovered_def persistentState_def ReadRaftState_def
      Suc_le_eq split: option.splits)

lemma recovered_encodeState [simp]: "recovered (encodeState rf) = persistentState rf"
  unfolding recovered_def by (rule raft_codec.recover_enc)

lemma Make_recovers:
  assumes "raftstate ps = encodeState rf"
  shows "persistentState (Make n i ps rnd) = persistentState rf"
    "lastApplied (Make n i ps rnd) = lastIncludedIndex rf"
    "commitIndex (Make n i ps rnd) = lastIncludedIndex rf"
  using assms by (simp_all add: persistentState_Make)
    (simp_all add: Make_def Let_def readPersist_def ReadRaftState_def persistentState_def)

lemma persistentState_persist [simp]: "persistentState (persist rf) = persistentState rf"
  by (simp add: persistentState_def persist_def)

lemma durable_persist: "durable (persist rf)"
  by (simp add: durable_def persist_def SaveRaftState_def) (simp add: persistentState_def)

lemma durable_saveWithSnapshot: "durable (saveWithSnapshot snap rf)"
  by (simp add: durable_def saveWithSnapshot_def SaveStateAndSnapshot_def)
    (simp add: persistentState_def)

lemma durable_cong:
  assumes "durable rf" "Persister rf' = Persister rf" "persistentState rf' = persistentState rf"
  shows "durable rf'"
  using assms by (simp add: durable_def)

text \<open>Updates of volatile fields keep the durability of the state they start from.\<close>

lemma durable_volatile [simp]:
  "durable (rf\<lparr>state := x1\<rparr>) = durable rf" "durable (rf\<lparr>commitIndex := x2\<rparr>) = durable rf"
  "durable (rf\<lparr>lastApplied := x2\<rparr>) = durable rf" "durable (rf\<lparr>nextIndex := x3\<rparr>) = durable rf"
  "durable (rf\<lparr>matchIndex := x3\<rparr>) = durable rf" "durable (rf\<lparr>electionTimer := x2\<rparr>) = durable rf"
  "durable (rf\<lparr>heartbeatTimer := x2\<rparr>) = durable rf" "durable (rf\<lparr>applyCond := x4\<rparr>) = durable rf"
  "durable (rf\<lparr>votes := x5\<rparr>) = durable rf" "durable (rf\<lparr>dead := x4\<rparr>) = durable rf"
  by (simp_all add: durable_def persistentState_def)

text \<open>\<^verbatim>\<open>tryCommit\<close> picks the largest index above \<^verbatim>\<open>commitIndex\<close> that may be committed.\<close>

definition committable :: "('c, 's) raft \<Rightarrow> int \<Rightarrow> bool" where
  "committable rf m \<longleftrightarrow> termAt rf m = currentTerm rf \<and> matchCount rf m > peers rf div 2"

lemma tryCommitFrom_spec:
  "(tryCommitFrom rf n = rf \<and> (\<forall>m. commitIndex rf < m \<and> m \<le> n \<longrightarrow> \<not> committable rf m)) \<or>
   (\<exists>m. commitIndex rf < m \<and> m \<le> n \<and> committable rf m \<and>
        (\<forall>k. m < k \<and> k \<le> n \<longrightarrow> \<not> committable rf k) \<and>
        tryCommitFrom rf n = rf\<lparr>commitIndex := m, applyCond := True\<rparr>)"
proof (induction rf n rule: tryCommitFrom.induct)
  case (1 rf n)
  have below: "k \<le> n \<Longrightarrow> k = n \<or> k \<le> n - 1" for k :: int by auto
  show ?case
  proof (cases "n \<le> commitIndex rf")
    case True
    then show ?thesis by (auto simp: tryCommitFrom.simps [of rf n])
  next
    case above: False
    show ?thesis
    proof (cases "committable rf n")
      case True
      with above show ?thesis
        by (intro disjI2 exI [of _ n]) (auto simp: tryCommitFrom.simps [of rf n] committable_def)
    next
      case False
      with above have eq: "tryCommitFrom rf n = tryCommitFrom rf (n - 1)"
        by (auto simp: tryCommitFrom.simps [of rf n] committable_def)
      have "(tryCommitFrom rf (n - 1) = rf \<and>
              (\<forall>m. commitIndex rf < m \<and> m \<le> n - 1 \<longrightarrow> \<not> committable rf m)) \<or>
            (\<exists>m. commitIndex rf < m \<and> m \<le> n - 1 \<and> committable rf m \<and>
              (\<forall>k. m < k \<and> k \<le> n - 1 \<longrightarrow> \<not> committable rf k) \<and>
              tryCommitFrom rf (n - 1) = rf\<lparr>commitIndex := m, applyCond := True\<rparr>)"
        using above False 1 unfolding committable_def by blast
      then show ?thesis
      proof (elim disjE exE conjE)
        assume "tryCommitFrom rf (n - 1) = rf"
          and "\<forall>m. commitIndex rf < m \<and> m \<le> n - 1 \<longrightarrow> \<not> committable rf m"
        with below False eq show ?thesis by auto
      next
        fix m
        assume m: "commitIndex rf < m" "m \<le> n - 1" "committable rf m"
          "tryCommitFrom rf (n - 1) = rf\<lparr>commitIndex := m, applyCond := True\<rparr>"
          and "\<forall>k. m < k \<and> k \<le> n - 1 \<longrightarrow> \<not> committable rf k"
        with below False have "\<forall>k. m < k \<and> k \<le> n \<longrightarrow> \<not> committable rf k" by blast
        with m eq show ?thesis by (intro disjI2 exI [of _ m]) simp
      qed
    qed
  qed
qed

lemma tryCommit_cases:
  obtains (same) "tryCommit rf = rf"
  | (moved) m where "commitIndex rf < m" "m \<le> lastLogIndex rf" "committable rf m"
      "tryCommit rf = rf\<lparr>commitIndex := m, applyCond := True\<rparr>"
  using tryCommitFrom_spec [of rf "lastLogIndex rf"] by (auto simp: tryCommit_def)

lemma durable_tryCommit [simp]: "durable (tryCommit rf) = durable rf"
  by (cases rule: tryCommit_cases [of rf]) simp_all

text \<open>One lemma per handler; the step lemma then only looks at the event.\<close>

lemma Make_simps [simp]:
  "peers (Make n i ps rnd) = n" "me (Make n i ps rnd) = i" "Persister (Make n i ps rnd) = ps"
  "state (Make n i ps rnd) = StateFollower" "dead (Make n i ps rnd) = False"
  "nextIndex (Make n i ps rnd) = replicate n 0" "matchIndex (Make n i ps rnd) = replicate n 0"
  "votes (Make n i ps rnd) = (\<lambda>_. 0)"
  by (simp_all add: Make_def readPersist_def Let_def split: option.split)

lemma durable_stepDown: "durable (stepDown t rf)"
  by (simp add: stepDown_def durable_persist)

lemma durable_RequestVote: "durable rf \<Longrightarrow> durable (fst (RequestVote rnd args rf))"
  by (simp add: RequestVote_def Let_def resetElectionTimer_def durable_persist durable_stepDown)

lemma durable_AppendEntries: "durable rf \<Longrightarrow> durable (fst (AppendEntries rnd args rf))"
  by (simp add: AppendEntries_def Let_def resetElectionTimer_def durable_persist)

lemma durable_InstallSnapshot: "durable rf \<Longrightarrow> durable (fst (InstallSnapshot rnd args rf))"
  by (simp add: InstallSnapshot_def Let_def resetElectionTimer_def durable_persist)

lemma durable_handleVoteReply: "durable rf \<Longrightarrow> durable (handleVoteReply args reply rf)"
  by (simp add: handleVoteReply_def Let_def becomeLeader_def durable_stepDown)

lemma durable_handleAppendReply: "durable rf \<Longrightarrow> durable (handleAppendReply p args reply rf)"
  by (simp add: handleAppendReply_def Let_def setNextIndex_def setMatchIndex_def durable_stepDown)

lemma durable_handleSnapshotReply: "durable rf \<Longrightarrow> durable (handleSnapshotReply p args reply rf)"
  by (simp add: handleSnapshotReply_def Let_def setNextIndex_def setMatchIndex_def durable_stepDown)

lemma durable_tickElection: "durable rf \<Longrightarrow> durable (fst (tickElection rnd rf))"
  by (simp add: tickElection_def startElection_def Let_def resetElectionTimer_def durable_persist)

lemma durable_Start: "durable rf \<Longrightarrow> durable (fst (Start c rf))"
  by (simp add: Start_def Let_def durable_persist)

lemma durable_Snapshot: "durable rf \<Longrightarrow> Snapshot i snap rf = Inr rf' \<Longrightarrow> durable rf'"
  by (auto simp: Snapshot_def Let_def durable_saveWithSnapshot split: if_splits sum.splits)

lemma durable_CondInstallSnapshot:
  "durable rf \<Longrightarrow> CondInstallSnapshot t i snap rf = Inr (rf', b) \<Longrightarrow> durable rf'"
  by (auto simp: CondInstallSnapshot_def durable_saveWithSnapshot split: if_splits sum.splits)

lemma durable_Make: "durable rf \<Longrightarrow> durable (Make n i (Persister rf) rnd)"
  by (simp add: durable_def persistentState_Make)

lemma durable_Make_fresh: "durable (Make n i MakePersister rnd)"
  by (simp add: durable_def persistentState_Make)

lemmas durable_handlers = durable_RequestVote durable_AppendEntries durable_InstallSnapshot
  durable_handleVoteReply durable_handleAppendReply durable_handleSnapshotReply
  durable_tickElection durable_Start durable_Make

lemma raftStep_durable:
  assumes "durable rf" "raftStep ev rf = Inr rf'"
  shows "durable rf'"
  using assms
  by (cases ev) (auto simp: durable_handlers tickHeartbeat_def applierCollect_def applierFinish_def
      Kill_def intro: durable_Snapshot durable_CondInstallSnapshot
      split: sum.splits option.splits if_splits)

lemma persist_simps [simp]:
  "peers (persist rf) = peers rf" "me (persist rf) = me rf" "dead (persist rf) = dead rf"
  "state (persist rf) = state rf" "currentTerm (persist rf) = currentTerm rf"
  "votedFor (persist rf) = votedFor rf" "log (persist rf) = log rf"
  "lastIncludedIndex (persist rf) = lastIncludedIndex rf"
  "lastIncludedTerm (persist rf) = lastIncludedTerm rf"
  "commitIndex (persist rf) = commitIndex rf" "lastApplied (persist rf) = lastApplied rf"
  "nextIndex (persist rf) = nextIndex rf" "matchIndex (persist rf) = matchIndex rf"
  "electionTimer (persist rf) = electionTimer rf"
  "heartbeatTimer (persist rf) = heartbeatTimer rf" "applyCond (persist rf) = applyCond rf"
  "votes (persist rf) = votes rf"
  by (simp_all add: persist_def)

lemma saveWithSnapshot_simps [simp]:
  "peers (saveWithSnapshot snap rf) = peers rf" "me (saveWithSnapshot snap rf) = me rf"
  "dead (saveWithSnapshot snap rf) = dead rf" "state (saveWithSnapshot snap rf) = state rf"
  "currentTerm (saveWithSnapshot snap rf) = currentTerm rf"
  "votedFor (saveWithSnapshot snap rf) = votedFor rf" "log (saveWithSnapshot snap rf) = log rf"
  "lastIncludedIndex (saveWithSnapshot snap rf) = lastIncludedIndex rf"
  "lastIncludedTerm (saveWithSnapshot snap rf) = lastIncludedTerm rf"
  "commitIndex (saveWithSnapshot snap rf) = commitIndex rf"
  "lastApplied (saveWithSnapshot snap rf) = lastApplied rf"
  "nextIndex (saveWithSnapshot snap rf) = nextIndex rf"
  "matchIndex (saveWithSnapshot snap rf) = matchIndex rf"
  "electionTimer (saveWithSnapshot snap rf) = electionTimer rf"
  "heartbeatTimer (saveWithSnapshot snap rf) = heartbeatTimer rf"
  "applyCond (saveWithSnapshot snap rf) = applyCond rf"
  "votes (saveWithSnapshot snap rf) = votes rf"
  by (simp_all add: saveWithSnapshot_def)

lemma resetElectionTimer_simps [simp]:
  "peers (resetElectionTimer rnd rf) = peers rf" "me (resetElectionTimer rnd rf) = me rf"
  "dead (resetElectionTimer rnd rf) = dead rf" "state (resetElectionTimer rnd rf) = state rf"
  "currentTerm (resetElectionTimer rnd rf) = currentTerm rf"
  "votedFor (resetElectionTimer rnd rf) = votedFor rf" "log (resetElectionTimer rnd rf) = log rf"
  "lastIncludedIndex (resetElectionTimer rnd rf) = lastIncludedIndex rf"
  "lastIncludedTerm (resetElectionTimer rnd rf) = lastIncludedTerm rf"
  "commitIndex (resetElectionTimer rnd rf) = commitIndex rf"
  "lastApplied (resetElectionTimer rnd rf) = lastApplied rf"
  "nextIndex (resetElectionTimer rnd rf) = nextIndex rf"
  "matchIndex (resetElectionTimer rnd rf) = matchIndex rf"
  "heartbeatTimer (resetElectionTimer rnd rf) = heartbeatTimer rf"
  "applyCond (resetElectionTimer rnd rf) = applyCond rf"
  "votes (resetElectionTimer rnd rf) = votes rf"
  by (simp_all add: resetElectionTimer_def)

lemma stepDown_simps [simp]:
  "peers (stepDown t rf) = peers rf" "me (stepDown t rf) = me rf"
  "dead (stepDown t rf) = dead rf" "log (stepDown t rf) = log rf"
  "lastIncludedIndex (stepDown t rf) = lastIncludedIndex rf"
  "lastIncludedTerm (stepDown t rf) = lastIncludedTerm rf"
  "commitIndex (stepDown t rf) = commitIndex rf" "lastApplied (stepDown t rf) = lastApplied rf"
  "nextIndex (stepDown t rf) = nextIndex rf" "matchIndex (stepDown t rf) = matchIndex rf"
  "electionTimer (stepDown t rf) = electionTimer rf"
  "heartbeatTimer (stepDown t rf) = heartbeatTimer rf" "applyCond (stepDown t rf) = applyCond rf"
  "votes (stepDown t rf) = votes rf"
  by (simp_all add: stepDown_def)

lemma stepDown_core [simp]:
  "state (stepDown t rf) = StateFollower" "currentTerm (stepDown t rf) = t"
  "votedFor (stepDown t rf) = -1"
  by (simp_all add: stepDown_def)

lemma setNextIndex_simps [simp]:
  "peers (setNextIndex p v rf) = peers rf" "me (setNextIndex p v rf) = me rf"
  "dead (setNextIndex p v rf) = dead rf" "state (setNextIndex p v rf) = state rf"
  "currentTerm (setNextIndex p v rf) = currentTerm rf"
  "votedFor (setNextIndex p v rf) = votedFor rf" "log (setNextIndex p v rf) = log rf"
  "lastIncludedIndex (setNextIndex p v rf) = lastIncludedIndex rf"
  "lastIncludedTerm (setNextIndex p v rf) = lastIncludedTerm rf"
  "commitIndex (setNextIndex p v rf) = commitIndex rf"
  "lastApplied (setNextIndex p v rf) = lastApplied rf"
  "matchIndex (setNextIndex p v rf) = matchIndex rf"
  "electionTimer (setNextIndex p v rf) = electionTimer rf"
  "heartbeatTimer (setNextIndex p v rf) = heartbeatTimer rf"
  "applyCond (setNextIndex p v rf) = applyCond rf" "votes (setNextIndex p v rf) = votes rf"
  by (simp_all add: setNextIndex_def)

lemma setMatchIndex_simps [simp]:
  "peers (setMatchIndex p v rf) = peers rf" "me (setMatchIndex p v rf) = me rf"
  "dead (setMatchIndex p v rf) = dead rf" "state (setMatchIndex p v rf) = state rf"
  "currentTerm (setMatchIndex p v rf) = currentTerm rf"
  "votedFor (setMatchIndex p v rf) = votedFor rf" "log (setMatchIndex p v rf) = log rf"
  "lastIncludedIndex (setMatchIndex p v rf) = lastIncludedIndex rf"
  "lastIncludedTerm (setMatchIndex p v rf) = lastIncludedTerm rf"
  "commitIndex (setMatchIndex p v rf) = commitIndex rf"
  "lastApplied (setMatchIndex p v rf) = lastApplied rf"
  "nextIndex (setMatchIndex p v rf) = nextIndex rf"
  "electionTimer (setMatchIndex p v rf) = electionTimer rf"
  "heartbeatTimer (setMatchIndex p v rf) = heartbeatTimer rf"
  "applyCond (setMatchIndex p v rf) = applyCond rf" "votes (setMatchIndex p v rf) = votes rf"
  by (simp_all add: setMatchIndex_def)

lemma tryCommit_simps [simp]:
  "peers (tryCommit rf) = peers rf" "me (tryCommit rf) = me rf" "dead (tryCommit rf) = dead rf"
  "state (tryCommit rf) = state rf" "currentTerm (tryCommit rf) = currentTerm rf"
  "votedFor (tryCommit rf) = votedFor rf" "log (tryCommit rf) = log rf"
  "lastIncludedIndex (tryCommit rf) = lastIncludedIndex rf"
  "lastIncludedTerm (tryCommit rf) = lastIncludedTerm rf"
  "lastApplied (tryCommit rf) = lastApplied rf" "nextIndex (tryCommit rf) = nextIndex rf"
  "matchIndex (tryCommit rf) = matchIndex rf" "electionTimer (tryCommit rf) = electionTimer rf"
  "heartbeatTimer (tryCommit rf) = heartbeatTimer rf" "votes (tryCommit rf) = votes rf"
  by (cases rule: tryCommit_cases [of rf]; simp)+

lemma becomeLeader_simps [simp]:
  "peers (becomeLeader rf) = peers rf" "me (becomeLeader rf) = me rf"
  "dead (becomeLeader rf) = dead rf" "currentTerm (becomeLeader rf) = currentTerm rf"
  "votedFor (becomeLeader rf) = votedFor rf" "log (becomeLeader rf) = log rf"
  "lastIncludedIndex (becomeLeader rf) = lastIncludedIndex rf"
  "lastIncludedTerm (becomeLeader rf) = lastIncludedTerm rf"
  "commitIndex (becomeLeader rf) = commitIndex rf"
  "lastApplied (becomeLeader rf) = lastApplied rf"
  "electionTimer (becomeLeader rf) = electionTimer rf"
  "applyCond (becomeLeader rf) = applyCond rf" "votes (becomeLeader rf) = votes rf"
  by (simp_all add: becomeLeader_def)

lemma becomeLeader_state [simp]: "state (becomeLeader rf) = StateLeader"
  by (simp add: becomeLeader_def)

section \<open>Terms and votes\<close>

text \<open>
  Terms never decrease, and a vote given in a term is never withdrawn or changed while the term
  lasts.
\<close>

definition termVoteKept :: "('c, 's) raft \<Rightarrow> ('c, 's) raft \<Rightarrow> bool" where
  "termVoteKept rf rf' \<longleftrightarrow> currentTerm rf \<le> currentTerm rf' \<and>
     (currentTerm rf' = currentTerm rf \<and> votedFor rf \<noteq> -1 \<longrightarrow> votedFor rf' = votedFor rf)"

lemma termVoteKept_same:
  "currentTerm rf' = currentTerm rf \<Longrightarrow> votedFor rf' = votedFor rf \<Longrightarrow> termVoteKept rf rf'"
  by (simp add: termVoteKept_def)

lemma termVoteKept_newer: "currentTerm rf < currentTerm rf' \<Longrightarrow> termVoteKept rf rf'"
  by (simp add: termVoteKept_def)

lemma termVoteKept_RequestVote: "termVoteKept rf (fst (RequestVote rnd args rf))"
  by (auto simp: RequestVote_def Let_def termVoteKept_def)

lemma termVoteKept_AppendEntries: "termVoteKept rf (fst (AppendEntries rnd args rf))"
  by (simp add: AppendEntries_def Let_def termVoteKept_def)

lemma termVoteKept_InstallSnapshot: "termVoteKept rf (fst (InstallSnapshot rnd args rf))"
  by (simp add: InstallSnapshot_def Let_def termVoteKept_def)

lemma termVoteKept_handleVoteReply: "termVoteKept rf (handleVoteReply args reply rf)"
  by (simp add: handleVoteReply_def Let_def termVoteKept_def)

lemma termVoteKept_handleAppendReply: "termVoteKept rf (handleAppendReply p args reply rf)"
  by (simp add: handleAppendReply_def Let_def termVoteKept_def)

lemma termVoteKept_handleSnapshotReply: "termVoteKept rf (handleSnapshotReply p args reply rf)"
  by (simp add: handleSnapshotReply_def Let_def termVoteKept_def)

lemma termVoteKept_tickElection: "termVoteKept rf (fst (tickElection rnd rf))"
  by (simp add: tickElection_def startElection_def Let_def termVoteKept_def)

lemma termVoteKept_Start: "termVoteKept rf (fst (Start c rf))"
  by (simp add: Start_def Let_def termVoteKept_def)

lemma termVoteKept_Snapshot: "Snapshot i snap rf = Inr rf' \<Longrightarrow> termVoteKept rf rf'"
  by (auto simp: Snapshot_def Let_def termVoteKept_def split: if_splits sum.splits)

lemma termVoteKept_CondInstall: "CondInstallSnapshot t i snap rf = Inr (rf', b) \<Longrightarrow> termVoteKept rf rf'"
  by (auto simp: CondInstallSnapshot_def termVoteKept_def split: if_splits sum.splits)

lemma termVoteKept_Make:
  assumes "durable rf"
  shows "termVoteKept rf (Make n i (Persister rf) rnd)"
proof -
  have "persistentState (Make n i (Persister rf) rnd) = persistentState rf"
    using assms by (simp add: persistentState_Make durable_def)
  then show ?thesis by (simp add: persistentState_def termVoteKept_same)
qed

lemmas termVoteKept_handlers = termVoteKept_RequestVote termVoteKept_AppendEntries
  termVoteKept_InstallSnapshot termVoteKept_handleVoteReply termVoteKept_handleAppendReply
  termVoteKept_handleSnapshotReply termVoteKept_tickElection termVoteKept_Start termVoteKept_Make

lemma raftStep_termVoteKept:
  assumes "durable rf" "raftStep ev rf = Inr rf'"
  shows "termVoteKept rf rf'"
  using assms
  by (cases ev) (auto simp: termVoteKept_handlers tickHeartbeat_def applierCollect_def
      applierFinish_def Kill_def termVoteKept_same
      intro: termVoteKept_Snapshot termVoteKept_CondInstall
      split: sum.splits option.splits if_splits)

section \<open>Roles\<close>

text \<open>
  The handlers other than \<^verbatim>\<open>startElection\<close> and the vote goroutine never promote a server: whoever
  is not a follower afterwards had the same role, term and vote counter before.
\<close>

definition quiet :: "('c, 's) raft \<Rightarrow> ('c, 's) raft \<Rightarrow> bool" where
  "quiet rf rf' \<longleftrightarrow> me rf' = me rf \<and> peers rf' = peers rf \<and>
     (durable rf \<longrightarrow> durable rf' \<and> termVoteKept rf rf') \<and>
     (state rf' \<noteq> StateFollower \<longrightarrow>
        state rf' = state rf \<and> currentTerm rf' = currentTerm rf \<and> votes rf' = votes rf)"

lemma quietI:
  assumes "me rf' = me rf" "peers rf' = peers rf" "durable rf \<Longrightarrow> durable rf'" "termVoteKept rf rf'"
    and "state rf' \<noteq> StateFollower \<longrightarrow>
      state rf' = state rf \<and> currentTerm rf' = currentTerm rf \<and> votes rf' = votes rf"
  shows "quiet rf rf'"
  using assms by (simp add: quiet_def)

lemma quiet_RequestVote: "quiet rf (fst (RequestVote rnd args rf))"
  by (rule quietI [OF _ _ durable_RequestVote termVoteKept_RequestVote])
    (simp_all add: RequestVote_def Let_def)

lemma quiet_AppendEntries: "quiet rf (fst (AppendEntries rnd args rf))"
  by (rule quietI [OF _ _ durable_AppendEntries termVoteKept_AppendEntries])
    (simp_all add: AppendEntries_def Let_def)

lemma quiet_InstallSnapshot: "quiet rf (fst (InstallSnapshot rnd args rf))"
  by (rule quietI [OF _ _ durable_InstallSnapshot termVoteKept_InstallSnapshot])
    (simp_all add: InstallSnapshot_def Let_def)

lemma quiet_handleAppendReply: "quiet rf (handleAppendReply p args reply rf)"
  by (rule quietI [OF _ _ durable_handleAppendReply termVoteKept_handleAppendReply])
    (simp_all add: handleAppendReply_def Let_def)

lemma quiet_handleSnapshotReply: "quiet rf (handleSnapshotReply p args reply rf)"
  by (rule quietI [OF _ _ durable_handleSnapshotReply termVoteKept_handleSnapshotReply])
    (simp_all add: handleSnapshotReply_def Let_def)

lemma quiet_tickHeartbeat: "quiet rf (fst (tickHeartbeat rf))"
  by (simp add: quiet_def tickHeartbeat_def termVoteKept_same)

lemma quiet_Start: "quiet rf (fst (Start c rf))"
  by (rule quietI [OF _ _ durable_Start termVoteKept_Start]) (simp_all add: Start_def Let_def)

lemma quiet_Snapshot: "Snapshot i snap rf = Inr rf' \<Longrightarrow> quiet rf rf'"
  using durable_Snapshot [of rf i snap rf'] termVoteKept_Snapshot [of i snap rf rf']
  by (auto simp: quiet_def Snapshot_def Let_def split: if_splits sum.splits)

lemma quiet_CondInstallSnapshot: "CondInstallSnapshot t i snap rf = Inr (rf', b) \<Longrightarrow> quiet rf rf'"
  using durable_CondInstallSnapshot [of rf t i snap rf' b] termVoteKept_CondInstall [of t i snap rf rf' b]
  by (auto simp: quiet_def CondInstallSnapshot_def split: if_splits sum.splits)

lemma quiet_applierCollect: "applierCollect rf = Some (rf', b) \<Longrightarrow> quiet rf rf'"
  by (auto simp: quiet_def applierCollect_def termVoteKept_same split: if_splits)

lemma quiet_applierFinish: "quiet rf (applierFinish b rf)"
  by (simp add: quiet_def applierFinish_def termVoteKept_same)

lemma quiet_Make: "quiet rf (Make (peers rf) (me rf) (Persister rf) rnd)"
  by (simp add: quiet_def durable_Make termVoteKept_Make)

section \<open>Whole runs of a server\<close>

fun raftRun :: "('c, 's) event list \<Rightarrow> ('c, 's) raft \<Rightarrow> ('c, 's) raft go" where
  "raftRun [] rf = Inr rf"
| "raftRun (ev # evs) rf = (case raftStep ev rf of Inl p \<Rightarrow> Inl p | Inr rf1 \<Rightarrow> raftRun evs rf1)"

lemma raftRun_append:
  "raftRun (xs @ ys) rf = (case raftRun xs rf of Inl p \<Rightarrow> Inl p | Inr rf1 \<Rightarrow> raftRun ys rf1)"
  by (induction xs arbitrary: rf) (auto split: sum.split)

lemma raftRun_durable: "durable rf \<Longrightarrow> raftRun evs rf = Inr rf' \<Longrightarrow> durable rf'"
  by (induction evs arbitrary: rf) (auto split: sum.splits dest: raftStep_durable)

lemma termVoteKept_trans:
  "termVoteKept a b \<Longrightarrow> termVoteKept b c \<Longrightarrow> termVoteKept a c"
  by (auto simp: termVoteKept_def)

lemma raftRun_termVoteKept: "durable rf \<Longrightarrow> raftRun evs rf = Inr rf' \<Longrightarrow> termVoteKept rf rf'"
proof (induction evs arbitrary: rf)
  case (Cons ev evs)
  then obtain rf1 where "raftStep ev rf = Inr rf1" "raftRun evs rf1 = Inr rf'"
    by (auto split: sum.splits)
  with Cons raftStep_durable raftStep_termVoteKept show ?case by (blast intro: termVoteKept_trans)
qed (simp add: termVoteKept_same)

text \<open>
  C12. After any sequence of handler calls, goroutine sections and earlier crashes, a server that crashes
  and restarts from a copy of its persister has the term, the vote, the log and the snapshot
  position it had in memory.
\<close>

theorem crash_recovers_state:
  assumes "raftRun evs (Make n i MakePersister rnd0) = Inr rf"
  shows "persistentState (Make n i (Copy (Persister rf)) rnd) = persistentState rf"
  using raftRun_durable [OF durable_Make_fresh assms]
  by (simp add: persistentState_Make durable_def)

text \<open>
  C27. Over any run of a server, crashes included, its term never decreases, and as long as the term
  stays the same a vote once given is never given to another candidate.
\<close>

theorem term_and_vote_monotone:
  assumes "raftRun evs1 (Make n i MakePersister rnd0) = Inr rf1" "raftRun evs2 rf1 = Inr rf2"
  shows "currentTerm rf1 \<le> currentTerm rf2 \<and>
    (currentTerm rf2 = currentTerm rf1 \<and> votedFor rf1 \<noteq> -1 \<longrightarrow> votedFor rf2 = votedFor rf1)"
  using raftRun_termVoteKept [OF raftRun_durable [OF durable_Make_fresh assms(1)] assms(2)]
  by (simp add: termVoteKept_def)

definition exVoteArgs :: RequestVoteArgs where
  "exVoteArgs = \<lparr>rva_Term = 4, rva_CandidateId = 2, rva_LastLogIndex = 0, rva_LastLogTerm = 0\<rparr>"

lemma exVoted:
  "\<exists>rf. raftRun [EvRequestVote 0 exVoteArgs] (Make 3 0 (MakePersister :: (int gobval, int) persister) 0) = Inr rf \<and>
     currentTerm rf = 4 \<and> votedFor rf = 2"
  by (simp add: exVoteArgs_def RequestVote_def Make_def readPersist_def persister_defs isMoreUpToDate_def
      lastLogIndex_def lastLogTerm_def stepDown_def persist_def resetElectionTimer_def)

theorem crash_recovers_state_witness:
  "\<exists>rf. raftRun [EvRequestVote 0 exVoteArgs] (Make 3 0 (MakePersister :: (int gobval, int) persister) 0) = Inr rf \<and>
     votedFor (Make 3 0 (Copy (Persister rf)) 7) = 2"
proof -
  obtain rf where rf: "raftRun [EvRequestVote 0 exVoteArgs] (Make 3 0 (MakePersister :: (int gobval, int) persister) 0) = Inr rf"
    "votedFor rf = 2" using exVoted by blast
  from crash_recovers_state [OF rf(1), of 7] rf show ?thesis by (auto simp: persistentState_def)
qed

theorem term_and_vote_monotone_witness:
  "\<exists>rf1 rf2. raftRun [EvRequestVote 0 exVoteArgs] (Make 3 0 (MakePersister :: (int gobval, int) persister) 0) = Inr rf1 \<and>
     raftRun [EvRequestVote 0 (exVoteArgs\<lparr>rva_CandidateId := 1\<rparr>), EvRestart 5] rf1 = Inr rf2 \<and>
     4 \<le> currentTerm rf2"
proof -
  obtain rf1 where rf1: "raftRun [EvRequestVote 0 exVoteArgs] (Make 3 0 (MakePersister :: (int gobval, int) persister) 0) = Inr rf1"
    "currentTerm rf1 = 4" using exVoted by blast
  obtain rf2 where rf2: "raftRun [EvRequestVote 0 (exVoteArgs\<lparr>rva_CandidateId := 1\<rparr>), EvRestart 5] rf1 = Inr rf2"
    by simp
  from term_and_vote_monotone [OF rf1(1) rf2] rf1 rf2 show ?thesis by auto
qed

end
