(* ===== verification/Raft_Log.thy ===== *)
theory Raft_Log
  imports Raft_Node_Inv
begin

text \<open>
  What the handlers of \<^verbatim>\<open>raft.go\<close> do to one server's log: the effect of \<^verbatim>\<open>AppendEntries\<close> on every
  branch, the roll-back information it returns, the commit rule, log compaction and the apply loop.
\<close>

section \<open>The log seen by global index\<close>

definition entryAt :: "('c, 's) raft \<Rightarrow> int \<Rightarrow> 'c LogEntry option" where
  "entryAt rf g =
     (if lastIncludedIndex rf < g \<and> g \<le> lastLogIndex rf
      then Some (log rf ! nat (toSliceIndex rf g)) else None)"

lemma termAt_entryAt:
  "termAt rf g =
     (if g = lastIncludedIndex rf then lastIncludedTerm rf
      else case entryAt rf g of None \<Rightarrow> -1 | Some e \<Rightarrow> Term e)"
  by (auto simp: termAt_def entryAt_def toSliceIndex_def lastLogIndex_def Let_def)

lemma lastLogTerm_termAt: "lastLogTerm rf = termAt rf (lastLogIndex rf)"
  by (cases "log rf = []")
    (auto simp: lastLogTerm_def termAt_def lastLogIndex_def toSliceIndex_def Let_def)

section \<open>The loop of AppendEntries\<close>

text \<open>
  Reference definition: keep the log as far as the terms of the new entries agree with it, and
  replace the rest by the new entries from the first disagreement on; if all entries agree, nothing
  changes, even when the log is longer.
\<close>

fun commonTerms :: "'c LogEntry list \<Rightarrow> 'c LogEntry list \<Rightarrow> nat" where
  "commonTerms (e # es) (l # ls) = (if Term e = Term l then Suc (commonTerms es ls) else 0)"
| "commonTerms es ls = 0"

definition mergeLog :: "nat \<Rightarrow> 'c LogEntry list \<Rightarrow> 'c LogEntry list \<Rightarrow> 'c LogEntry list" where
  "mergeLog p es lg =
     (let k = commonTerms es (drop p lg) in
      if k = length es then lg else take (p + k) lg @ drop k es)"

lemma commonTerms_le: "commonTerms es ls \<le> length es" "commonTerms es ls \<le> length ls"
  by (induction es ls rule: commonTerms.induct) auto

lemma commonTerms_Nil [simp]: "commonTerms es [] = 0" "commonTerms [] ls = 0"
  by (cases es; simp)+

lemma commonTerms_nth: "i < commonTerms es ls \<Longrightarrow> Term (es ! i) = Term (ls ! i)"
  by (induction es ls arbitrary: i rule: commonTerms.induct)
    (auto simp: nth_Cons split: if_splits nat.splits)

lemma commonTerms_self [simp]: "commonTerms es es = length es"
  by (induction es) auto

lemma commonTerms_stop:
  assumes "commonTerms es ls < length es" "commonTerms es ls < length ls"
  shows "Term (es ! commonTerms es ls) \<noteq> Term (ls ! commonTerms es ls)"
  using assms by (induction es ls rule: commonTerms.induct) (auto split: if_splits)

text \<open>The second operand may be cut after the common part, or extended by the first one.\<close>

lemma commonTerms_take_append:
  "k = commonTerms es ls \<Longrightarrow> commonTerms es (take k ls @ drop k es) = length es"
proof (induction es ls arbitrary: k rule: commonTerms.induct)
  case (1 e es l ls)
  then show ?case by (cases "Term e = Term l") auto
qed auto

lemma appendLoop_mergeLog:
  assumes "lii \<le> prev + i" "nat (prev + i - lii) \<le> length lg"
  shows "appendLoop lii prev i es lg = mergeLog (nat (prev + i - lii)) es lg"
  using assms
proof (induction lii prev i es lg rule: appendLoop.induct)
  case (1 lii prev i lg)
  then show ?case by (simp add: mergeLog_def)
next
  case (2 lii prev i e es lg)
  define p where "p = nat (prev + i - lii)"
  have idx: "prev + 1 + i - lii - 1 = int p" and next_p: "nat (prev + (i + 1) - lii) = Suc p"
    and above: "\<not> prev + 1 + i \<le> lii"
    using "2.prems" by (auto simp: p_def)
  show ?case
  proof (cases "p < length lg")
    case False
    then have "p = length lg" using "2.prems" p_def by simp
    then show ?thesis
      using above idx by (simp add: Let_def mergeLog_def p_def [symmetric])
  next
    case True
    then have d: "drop p lg = lg ! p # drop (Suc p) lg" by (simp add: Cons_nth_drop_Suc)
    show ?thesis
    proof (cases "Term (lg ! p) = Term e")
      case False
      then show ?thesis using True above idx d
        by (simp add: Let_def mergeLog_def p_def [symmetric])
    next
      case same: True
      have "appendLoop lii prev i (e # es) lg = appendLoop lii prev (i + 1) es lg"
        using True above idx same by (simp add: Let_def)
      also have "\<dots> = mergeLog (Suc p) es lg"
        using "2.IH"(2) [OF refl above refl] True above idx same "2.prems" next_p by simp
      also have "\<dots> = mergeLog p (e # es) lg"
        using d same by (simp add: mergeLog_def Let_def)
      finally show ?thesis by (simp add: p_def)
    qed
  qed
qed

lemma length_mergeLog:
  assumes "p \<le> length lg"
  shows "length (mergeLog p es lg) =
     (if commonTerms es (drop p lg) = length es then length lg else p + length es)"
  using assms commonTerms_le [of es "drop p lg"] by (auto simp: mergeLog_def Let_def)

lemma mergeLog_long: "p \<le> length lg \<Longrightarrow> p + length es \<le> length (mergeLog p es lg)"
  using commonTerms_le(2) [of es "drop p lg"] by (auto simp: length_mergeLog)

lemma mergeLog_before:
  assumes "p \<le> length lg"
  shows "take p (mergeLog p es lg) = take p lg"
  using assms by (auto simp: mergeLog_def Let_def min_def)

lemma mergeLog_terms:
  assumes "p \<le> length lg" "i < length es"
  shows "Term (mergeLog p es lg ! (p + i)) = Term (es ! i)"
proof -
  define k where "k = commonTerms es (drop p lg)"
  have k: "k \<le> length es" "p + k \<le> length lg"
    using commonTerms_le [of es "drop p lg"] assms(1) by (auto simp: k_def)
  show ?thesis
  proof (cases "i < k")
    case True
    then have "Term (es ! i) = Term (lg ! (p + i))"
      using commonTerms_nth [of i es "drop p lg"] k(2) by (simp add: k_def)
    moreover have "mergeLog p es lg ! (p + i) = lg ! (p + i)"
      using True k by (auto simp: mergeLog_def Let_def k_def [symmetric] nth_append)
    ultimately show ?thesis by simp
  next
    case False
    then have "mergeLog p es lg = take (p + k) lg @ drop k es"
      using assms(2) by (auto simp: mergeLog_def Let_def k_def [symmetric])
    then show ?thesis using False k assms(2) by (simp add: nth_append)
  qed
qed

text \<open>Merging the same entries again changes nothing.\<close>

lemma mergeLog_idem:
  assumes "p \<le> length lg"
  shows "mergeLog p es (mergeLog p es lg) = mergeLog p es lg"
proof -
  define k where "k = commonTerms es (drop p lg)"
  have k: "k \<le> length es" "p + k \<le> length lg"
    using commonTerms_le [of es "drop p lg"] assms by (auto simp: k_def)
  show ?thesis
  proof (cases "k = length es")
    case True
    then show ?thesis by (simp add: mergeLog_def Let_def k_def [symmetric])
  next
    case False
    then have m: "mergeLog p es lg = take (p + k) lg @ drop k es"
      by (simp add: mergeLog_def Let_def k_def [symmetric])
    have "drop p (take (p + k) lg @ drop k es) = take k (drop p lg) @ drop k es"
      using k by (simp add: drop_take)
    then have "commonTerms es (drop p (mergeLog p es lg)) = length es"
      unfolding m using commonTerms_take_append [OF k_def] by simp
    then show ?thesis by (simp add: mergeLog_def [of p es "mergeLog p es lg"])
  qed
qed

section \<open>AppendEntries on every branch\<close>

text \<open>Concrete servers on which the hypotheses of the theorems below are evaluated.\<close>

abbreviation ent :: "int \<Rightarrow> nat \<Rightarrow> nat LogEntry" where
  "ent t c \<equiv> \<lparr>Term = t, Command = c\<rparr>"

definition exFollower :: "(nat, nat) raft" where
  "exFollower = (Make 3 1 MakePersister 0)
     \<lparr>currentTerm := 2, log := [ent 1 10, ent 1 11, ent 2 12], commitIndex := 1\<rparr>"

definition exArgs :: "nat AppendEntriesArgs" where
  "exArgs = \<lparr>aea_Term = 3, aea_LeaderId = 0, aea_PrevLogIndex = 1, aea_PrevLogTerm = 1,
             aea_Entries = [ent 1 11, ent 3 13], aea_LeaderCommit = 2\<rparr>"

definition exLeader :: "(nat, nat) raft" where
  "exLeader = (Make 3 0 MakePersister 0)
     \<lparr>state := StateLeader, currentTerm := 3, log := [ent 1 10, ent 1 11, ent 3 13],
      commitIndex := 1, nextIndex := [4, 2, 4], matchIndex := [3, 1, 3]\<rparr>"

lemmas ex_defs = exFollower_def exArgs_def exLeader_def Make_def readPersist_def ReadRaftState_def
  MakePersister_def Let_def termAt_def lastLogIndex_def toSliceIndex_def

text \<open>Terms and roll-back positions depend on the log and the snapshot boundary only.\<close>

definition sameLog :: "('c, 's) raft \<Rightarrow> ('c, 's) raft \<Rightarrow> bool" where
  "sameLog rf rf' \<longleftrightarrow> log rf' = log rf \<and> lastIncludedIndex rf' = lastIncludedIndex rf \<and>
     lastIncludedTerm rf' = lastIncludedTerm rf"

lemma sameLog_views:
  assumes "sameLog rf rf'"
  shows "termAt rf' = termAt rf" "lastLogIndex rf' = lastLogIndex rf"
    "lastLogTerm rf' = lastLogTerm rf" "entryAt rf' = entryAt rf"
  using assms
  by (auto simp: sameLog_def termAt_def lastLogIndex_def lastLogTerm_def entryAt_def toSliceIndex_def
      fun_eq_iff Let_def)

lemma sameLog_firstOfTerm:
  assumes "sameLog rf rf'"
  shows "firstOfTerm rf' t idx = firstOfTerm rf t idx"
  using assms
proof (induction rf t idx rule: firstOfTerm.induct)
  case (1 rf t idx)
  have eqs: "lastIncludedIndex rf' = lastIncludedIndex rf" "termAt rf' = termAt rf"
    using "1.prems" by (auto simp: sameLog_views) (simp add: sameLog_def)
  then show ?case
    using "1.IH" "1.prems" by (simp add: firstOfTerm.simps [of rf t idx] firstOfTerm.simps [of rf' t idx])
qed

text \<open>The consistency check of the handler, and the state it has prepared when it runs it.\<close>

definition aeAccepts :: "'c AppendEntriesArgs \<Rightarrow> ('c, 's) raft \<Rightarrow> bool" where
  "aeAccepts args rf \<longleftrightarrow>
     aea_Term args \<ge> currentTerm rf \<and> lastIncludedIndex rf \<le> aea_PrevLogIndex args \<and>
     aea_PrevLogIndex args \<le> lastLogIndex rf \<and>
     termAt rf (aea_PrevLogIndex args) = aea_PrevLogTerm args"

definition aePrepared :: "int \<Rightarrow> 'c AppendEntriesArgs \<Rightarrow> ('c, 's) raft \<Rightarrow> ('c, 's) raft" where
  "aePrepared rnd args rf =
     resetElectionTimer rnd
       ((if aea_Term args > currentTerm rf
         then persist (rf\<lparr>currentTerm := aea_Term args, votedFor := -1\<rparr>) else rf)
        \<lparr>state := StateFollower\<rparr>)"

lemma aePrepared_simps [simp]:
  "log (aePrepared rnd args rf) = log rf"
  "lastIncludedIndex (aePrepared rnd args rf) = lastIncludedIndex rf"
  "lastIncludedTerm (aePrepared rnd args rf) = lastIncludedTerm rf"
  "commitIndex (aePrepared rnd args rf) = commitIndex rf"
  "state (aePrepared rnd args rf) = StateFollower"
  "peers (aePrepared rnd args rf) = peers rf" "me (aePrepared rnd args rf) = me rf"
  by (simp_all add: aePrepared_def)

lemma aePrepared_term [simp]:
  "currentTerm rf \<le> aea_Term args \<Longrightarrow> currentTerm (aePrepared rnd args rf) = aea_Term args"
  by (simp add: aePrepared_def)

lemma sameLog_aePrepared: "sameLog rf (aePrepared rnd args rf)"
  by (simp add: sameLog_def)

lemmas aePrepared_views [simp] =
  sameLog_views [OF sameLog_aePrepared] sameLog_firstOfTerm [OF sameLog_aePrepared]

lemma AppendEntries_stale:
  "aea_Term args < currentTerm rf \<Longrightarrow>
   AppendEntries rnd args rf =
     (rf, \<lparr>aer_Term = currentTerm rf, aer_Success = False, aer_ConflictTerm = 0, aer_ConflictIndex = 0\<rparr>)"
  by (simp add: AppendEntries_def)

lemma AppendEntries_current:
  assumes "currentTerm rf \<le> aea_Term args"
  shows "AppendEntries rnd args rf =
    (let rf2 = aePrepared rnd args rf; prev = aea_PrevLogIndex args;
         fail = (\<lambda>ct ci. (rf2, \<lparr>aer_Term = aea_Term args, aer_Success = False,
                                aer_ConflictTerm = ct, aer_ConflictIndex = ci\<rparr>))
     in if prev < lastIncludedIndex rf then fail (-1) (lastIncludedIndex rf + 1)
        else if prev > lastLogIndex rf then fail (-1) (lastLogIndex rf + 1)
        else if termAt rf prev \<noteq> aea_PrevLogTerm args
          then fail (termAt rf prev) (firstOfTerm rf (termAt rf prev) prev)
        else
         let rf3 = persist (rf2\<lparr>log := appendLoop (lastIncludedIndex rf) prev 0
                                          (aea_Entries args) (log rf)\<rparr>)
         in (if aea_LeaderCommit args > commitIndex rf3
             then rf3\<lparr>commitIndex := min (lastLogIndex rf3) (aea_LeaderCommit args), applyCond := True\<rparr>
             else rf3,
             \<lparr>aer_Term = aea_Term args, aer_Success = True,
              aer_ConflictTerm = 0, aer_ConflictIndex = 0\<rparr>))"
  using assms aePrepared_views aePrepared_term [OF assms] aePrepared_simps
  unfolding AppendEntries_def aePrepared_def [symmetric] Let_def by (auto simp: min_def)

lemma AppendEntries_rejects:
  assumes "currentTerm rf \<le> aea_Term args" "\<not> aeAccepts args rf"
  shows "\<exists>ct ci. AppendEntries rnd args rf =
    (aePrepared rnd args rf,
     \<lparr>aer_Term = aea_Term args, aer_Success = False, aer_ConflictTerm = ct, aer_ConflictIndex = ci\<rparr>)"
  using assms
  by (auto simp: AppendEntries_current Let_def aeAccepts_def)

definition aeMerged :: "int \<Rightarrow> 'c AppendEntriesArgs \<Rightarrow> ('c, 's) raft \<Rightarrow> ('c, 's) raft" where
  "aeMerged rnd args rf =
     persist (aePrepared rnd args rf
       \<lparr>log := mergeLog (nat (aea_PrevLogIndex args - lastIncludedIndex rf)) (aea_Entries args) (log rf)\<rparr>)"

lemma AppendEntries_accepts:
  assumes "aeAccepts args rf"
  shows "AppendEntries rnd args rf =
    (let rf3 = aeMerged rnd args rf in
     (if aea_LeaderCommit args > commitIndex rf3
      then rf3\<lparr>commitIndex := min (lastLogIndex rf3) (aea_LeaderCommit args), applyCond := True\<rparr>
      else rf3,
      \<lparr>aer_Term = aea_Term args, aer_Success = True, aer_ConflictTerm = 0, aer_ConflictIndex = 0\<rparr>))"
proof -
  have "appendLoop (lastIncludedIndex rf) (aea_PrevLogIndex args) 0 (aea_Entries args) (log rf) =
        mergeLog (nat (aea_PrevLogIndex args - lastIncludedIndex rf)) (aea_Entries args) (log rf)"
    using assms by (subst appendLoop_mergeLog) (auto simp: aeAccepts_def lastLogIndex_def)
  then show ?thesis
    using assms by (auto simp: AppendEntries_current Let_def aeAccepts_def aeMerged_def)
qed

lemma aeMerged_simps [simp]:
  "log (aeMerged rnd args rf) =
     mergeLog (nat (aea_PrevLogIndex args - lastIncludedIndex rf)) (aea_Entries args) (log rf)"
  "lastIncludedIndex (aeMerged rnd args rf) = lastIncludedIndex rf"
  "lastIncludedTerm (aeMerged rnd args rf) = lastIncludedTerm rf"
  "commitIndex (aeMerged rnd args rf) = commitIndex rf"
  by (simp_all add: aeMerged_def)

lemma aeMerged_term [simp]: "aeAccepts args rf \<Longrightarrow> currentTerm (aeMerged rnd args rf) = aea_Term args"
  by (simp add: aeMerged_def aeAccepts_def)

lemma aeAccepts_cong:
  "sameLog rf rf' \<Longrightarrow> currentTerm rf' = currentTerm rf \<Longrightarrow> aeAccepts args rf' = aeAccepts args rf"
  by (simp add: aeAccepts_def sameLog_views) (simp add: sameLog_def)

lemma aeAccepts_position:
  assumes "aeAccepts args rf"
  obtains p where "p \<le> length (log rf)" "aea_PrevLogIndex args = lastIncludedIndex rf + int p"
    "nat (aea_PrevLogIndex args - lastIncludedIndex rf) = p"
  using assms that [of "nat (aea_PrevLogIndex args - lastIncludedIndex rf)"]
  by (auto simp: aeAccepts_def lastLogIndex_def)

lemma aeAccepts_after:
  assumes "aeAccepts args rf"
  shows "aeAccepts args (fst (AppendEntries rnd args rf))"
proof -
  obtain p where p: "p \<le> length (log rf)" "aea_PrevLogIndex args = lastIncludedIndex rf + int p"
    and p_def: "nat (aea_PrevLogIndex args - lastIncludedIndex rf) = p"
    using assms by (rule aeAccepts_position)
  have tk: "take p (mergeLog p (aea_Entries args) (log rf)) = take p (log rf)"
    and len: "p \<le> length (mergeLog p (aea_Entries args) (log rf))"
    using mergeLog_before [OF p(1)] mergeLog_long [OF p(1), of "aea_Entries args"] by auto
  have "p = 0 \<or> mergeLog p (aea_Entries args) (log rf) ! (p - 1) = log rf ! (p - 1)"
    using tk by (metis diff_less gr0I nth_take zero_less_one)
  then have "termAt (aeMerged rnd args rf) (aea_PrevLogIndex args) = termAt rf (aea_PrevLogIndex args)"
    using p len by (auto simp: termAt_def toSliceIndex_def Let_def nat_diff_distrib)
  with assms p len have "aeAccepts args (aeMerged rnd args rf)"
    by (auto simp: aeAccepts_def lastLogIndex_def)
  moreover have "sameLog (aeMerged rnd args rf) (fst (AppendEntries rnd args rf))"
    "currentTerm (fst (AppendEntries rnd args rf)) = currentTerm (aeMerged rnd args rf)"
    using assms by (auto simp: AppendEntries_accepts Let_def sameLog_def)
  ultimately show ?thesis by (simp add: aeAccepts_cong)
qed

text \<open>
  C13. AppendEntries answers true exactly when the term is not stale and the entry before the new
  ones agrees; it then leaves the log that keeps everything up to the first disagreement and takes
  the leader's entries from there, and when it answers false it leaves log and commit index alone.
\<close>

theorem AppendEntries_correct:
  "case AppendEntries rnd args rf of (rf', reply) \<Rightarrow>
     (aer_Success reply \<longleftrightarrow> aeAccepts args rf) \<and>
     log rf' = (if aer_Success reply
                then mergeLog (nat (aea_PrevLogIndex args - lastIncludedIndex rf))
                       (aea_Entries args) (log rf)
                else log rf) \<and>
     commitIndex rf' =
       (if aer_Success reply \<and> aea_LeaderCommit args > commitIndex rf
        then min (lastLogIndex rf') (aea_LeaderCommit args) else commitIndex rf)"
proof (cases "aeAccepts args rf")
  case True
  then show ?thesis
    by (auto simp: AppendEntries_accepts Let_def lastLogIndex_def)
next
  case False
  show ?thesis
  proof (cases "currentTerm rf \<le> aea_Term args")
    case True
    from AppendEntries_rejects [OF True False, of rnd] show ?thesis using False by auto
  next
    case stale: False
    then show ?thesis using False by (simp add: AppendEntries_stale)
  qed
qed

text \<open>
  Delivering the same AppendEntries a second time is accepted and changes neither the log nor
  the commit index.
\<close>

lemma AppendEntries_idempotent:
  assumes "aeAccepts args rf" and "rf' = fst (AppendEntries rnd args rf)"
  shows "case AppendEntries rnd' args rf' of (rf'', reply) \<Rightarrow>
     aer_Success reply \<and> log rf'' = log rf' \<and> commitIndex rf'' = commitIndex rf'"
proof -
  have acc: "aeAccepts args rf'"
    using assms aeAccepts_after by simp
  have rf': "log rf' = mergeLog (nat (aea_PrevLogIndex args - lastIncludedIndex rf)) (aea_Entries args) (log rf)"
    "lastIncludedIndex rf' = lastIncludedIndex rf"
    "commitIndex rf' = (if aea_LeaderCommit args > commitIndex rf
       then min (lastLogIndex rf') (aea_LeaderCommit args) else commitIndex rf)"
    using assms by (auto simp: AppendEntries_accepts Let_def lastLogIndex_def)
  have "nat (aea_PrevLogIndex args - lastIncludedIndex rf) \<le> length (log rf)"
    using assms(1) by (auto elim: aeAccepts_position)
  then have "mergeLog (nat (aea_PrevLogIndex args - lastIncludedIndex rf')) (aea_Entries args) (log rf') = log rf'"
    using mergeLog_idem rf'(1,2) by simp
  moreover from this have "lastLogIndex (aeMerged rnd' args rf') = lastLogIndex rf'"
    by (simp add: lastLogIndex_def)
  ultimately show ?thesis
    using acc rf'(3) by (auto simp: AppendEntries_accepts Let_def)
qed

lemma exArgs_accepted: "aeAccepts exArgs exFollower"
  by (simp add: aeAccepts_def ex_defs)

text \<open>
  After an accepted AppendEntries the follower's terms agree with the leader's entries at every
  index the message covers, and everything up to the previous index is as before.
\<close>

lemma AppendEntries_matches_leader:
  assumes "aeAccepts args rf" and "rf' = fst (AppendEntries rnd args rf)"
  shows "(\<forall>i < length (aea_Entries args).
            termAt rf' (aea_PrevLogIndex args + 1 + int i) = Term (aea_Entries args ! i)) \<and>
         (\<forall>g \<le> aea_PrevLogIndex args. termAt rf' g = termAt rf g)"
proof -
  obtain p where p: "p \<le> length (log rf)" "aea_PrevLogIndex args = lastIncludedIndex rf + int p"
    and p_def: "nat (aea_PrevLogIndex args - lastIncludedIndex rf) = p"
    using assms(1) by (rule aeAccepts_position)
  have rf': "log rf' = mergeLog p (aea_Entries args) (log rf)"
    "lastIncludedIndex rf' = lastIncludedIndex rf" "lastIncludedTerm rf' = lastIncludedTerm rf"
    using assms by (auto simp: AppendEntries_accepts Let_def p_def)
  have "termAt rf' (aea_PrevLogIndex args + 1 + int i) = Term (aea_Entries args ! i)"
    if "i < length (aea_Entries args)" for i
  proof -
    have "nat (aea_PrevLogIndex args + 1 + int i - lastIncludedIndex rf - 1) = p + i"
      using p(2) by auto
    then show ?thesis
      using that p rf' mergeLog_terms [OF p(1) that] mergeLog_long [OF p(1), of "aea_Entries args"]
      by (auto simp: termAt_def toSliceIndex_def Let_def)
  qed
  moreover have "termAt rf' g = termAt rf g" if "g \<le> aea_PrevLogIndex args" for g
  proof -
    have nth: "mergeLog p (aea_Entries args) (log rf) ! j = log rf ! j" if "j < p" for j
      using that mergeLog_before [OF p(1), of "aea_Entries args"] by (metis nth_take)
    show ?thesis
      using that p rf' nth [of "nat (g - lastIncludedIndex rf - 1)"]
        mergeLog_long [OF p(1), of "aea_Entries args"]
      by (auto simp: termAt_def toSliceIndex_def Let_def)
  qed
  ultimately show ?thesis by blast
qed

section \<open>Roll-back information\<close>

lemma firstOfTerm_spec:
  "firstOfTerm rf t idx \<le> idx \<and>
   (lastIncludedIndex rf \<le> idx \<longrightarrow> lastIncludedIndex rf \<le> firstOfTerm rf t idx) \<and>
   (\<forall>g. firstOfTerm rf t idx \<le> g \<and> g < idx \<longrightarrow> termAt rf g = t) \<and>
   (lastIncludedIndex rf < firstOfTerm rf t idx \<longrightarrow> termAt rf (firstOfTerm rf t idx - 1) \<noteq> t)"
proof (induction rf t idx rule: firstOfTerm.induct)
  case (1 rf t idx)
  show ?case
  proof (cases "idx > lastIncludedIndex rf \<and> termAt rf (idx - 1) = t")
    case True
    then have eq: "firstOfTerm rf t idx = firstOfTerm rf t (idx - 1)"
      by (simp add: firstOfTerm.simps [of rf t idx])
    note IH = "1.IH" [OF True]
    have "termAt rf g = t" if "firstOfTerm rf t (idx - 1) \<le> g" "g < idx" for g
      using IH True that by (cases "g = idx - 1") simp_all
    moreover have "firstOfTerm rf t (idx - 1) \<le> idx" using IH by simp
    moreover have "lastIncludedIndex rf \<le> firstOfTerm rf t (idx - 1)" using IH True by simp
    ultimately show ?thesis unfolding eq using IH by blast
  next
    case False
    then show ?thesis by (auto simp: firstOfTerm.simps [of rf t idx])
  qed
qed

text \<open>
  When the previous entry has another term, the reply names that term and the first index from
  which the follower's log up to the previous index consists of that term only.
\<close>

lemma AppendEntries_conflict:
  assumes "currentTerm rf \<le> aea_Term args"
    and "lastIncludedIndex rf \<le> aea_PrevLogIndex args" "aea_PrevLogIndex args \<le> lastLogIndex rf"
    and "termAt rf (aea_PrevLogIndex args) \<noteq> aea_PrevLogTerm args"
  shows "\<exists>ci. snd (AppendEntries rnd args rf) =
      \<lparr>aer_Term = aea_Term args, aer_Success = False,
       aer_ConflictTerm = termAt rf (aea_PrevLogIndex args), aer_ConflictIndex = ci\<rparr> \<and>
    lastIncludedIndex rf \<le> ci \<and> ci \<le> aea_PrevLogIndex args \<and>
    (\<forall>g. ci \<le> g \<and> g \<le> aea_PrevLogIndex args \<longrightarrow> termAt rf g = termAt rf (aea_PrevLogIndex args)) \<and>
    (lastIncludedIndex rf < ci \<longrightarrow> termAt rf (ci - 1) \<noteq> termAt rf (aea_PrevLogIndex args))"
proof (intro exI [of _ "firstOfTerm rf (termAt rf (aea_PrevLogIndex args)) (aea_PrevLogIndex args)"] conjI)
  show "snd (AppendEntries rnd args rf) =
      \<lparr>aer_Term = aea_Term args, aer_Success = False,
       aer_ConflictTerm = termAt rf (aea_PrevLogIndex args),
       aer_ConflictIndex = firstOfTerm rf (termAt rf (aea_PrevLogIndex args)) (aea_PrevLogIndex args)\<rparr>"
    using assms by (simp add: AppendEntries_current Let_def)
qed (use assms(2) firstOfTerm_spec [of rf "termAt rf (aea_PrevLogIndex args)" "aea_PrevLogIndex args"]
     in \<open>auto simp: order_le_less [of _ "aea_PrevLogIndex args"]\<close>)

section \<open>The commit rule\<close>

text \<open>
  C28. The leader moves its commit index to the largest index above it whose entry is of the current
  term and which a majority (itself included) has stored, and signals the apply loop; if there is no
  such index, nothing changes.
\<close>

theorem tryCommit_largest_majority:
  "(tryCommit rf = rf \<and>
      (\<forall>m. commitIndex rf < m \<and> m \<le> lastLogIndex rf \<longrightarrow> \<not> committable rf m)) \<or>
   (\<exists>m. commitIndex rf < m \<and> m \<le> lastLogIndex rf \<and> committable rf m \<and>
        (\<forall>k. m < k \<and> k \<le> lastLogIndex rf \<longrightarrow> \<not> committable rf k) \<and>
        tryCommit rf = rf\<lparr>commitIndex := m, applyCond := True\<rparr>)"
  unfolding tryCommit_def by (rule tryCommitFrom_spec)

theorem tryCommit_largest_majority_witness:
  "commitIndex (tryCommit exLeader) = 3 \<and> committable exLeader 3"
proof -
  have c: "committable exLeader 3" "lastLogIndex exLeader = 3" "commitIndex exLeader = 1"
    by (simp_all add: committable_def matchCount_def ex_defs upt_rec)
  from tryCommit_largest_majority [of exLeader] obtain m where
    "m \<le> 3" "\<forall>k. m < k \<and> k \<le> 3 \<longrightarrow> \<not> committable exLeader k" "commitIndex (tryCommit exLeader) = m"
    using c by (auto dest: spec [of _ 3])
  with c(1) show ?thesis by (cases "m < 3") auto
qed

section \<open>Log compaction\<close>

lemma Snapshot_result:
  assumes "lastIncludedIndex rf < index"
  shows "Snapshot index snap rf =
    (if index \<le> lastLogIndex rf
     then Inr (saveWithSnapshot snap
            (rf\<lparr>lastIncludedTerm := termAt rf index,
                log := drop (nat (index - lastIncludedIndex rf)) (log rf), lastIncludedIndex := index\<rparr>))
     else Inl IndexOutOfRange)"
proof -
  have "nat (index - lastIncludedIndex rf - 1 + 1) = nat (index - lastIncludedIndex rf)" by simp
  then show ?thesis
    using assms
    by (auto simp: Snapshot_def Let_def go_index_def go_from_def termAt_def toSliceIndex_def
        lastLogIndex_def)
qed

text \<open>
  Compaction up to an index in the log keeps every later entry at its global index, the term at
  the new boundary, and the last index and term that elections compare; the persister then holds the
  snapshot and the compacted state.
\<close>

lemma Snapshot_keeps_log_view:
  assumes "lastIncludedIndex rf < index" "index \<le> lastLogIndex rf"
  shows "\<exists>rf'. Snapshot index snap rf = Inr rf' \<and>
    lastLogIndex rf' = lastLogIndex rf \<and> lastLogTerm rf' = lastLogTerm rf \<and>
    lastIncludedIndex rf' = index \<and>
    (\<forall>g > index. entryAt rf' g = entryAt rf g) \<and> (\<forall>g \<ge> index. termAt rf' g = termAt rf g) \<and>
    snapshot (Persister rf') = snap \<and> durable rf'"
proof -
  define rf' where "rf' = saveWithSnapshot snap
    (rf\<lparr>lastIncludedTerm := termAt rf index,
        log := drop (nat (index - lastIncludedIndex rf)) (log rf), lastIncludedIndex := index\<rparr>)"
  have last: "lastLogIndex rf' = lastLogIndex rf"
    using assms by (simp add: rf'_def lastLogIndex_def)
  have entries: "entryAt rf' g = entryAt rf g" if "g > index" for g
  proof -
    have "nat (index - lastIncludedIndex rf) + nat (g - index - 1) = nat (g - lastIncludedIndex rf - 1)"
      and "nat (index - lastIncludedIndex rf) \<le> length (log rf)"
      using that assms by (simp_all add: lastLogIndex_def)
    then show ?thesis
      using that assms last by (auto simp: entryAt_def toSliceIndex_def rf'_def)
  qed
  have terms: "termAt rf' g = termAt rf g" if "g \<ge> index" for g
  proof (cases "g = index")
    case True
    then show ?thesis by (simp add: rf'_def termAt_def)
  next
    case False
    with that assms entries [of g] show ?thesis
      by (simp add: termAt_entryAt rf'_def)
  qed
  have "lastLogTerm rf' = lastLogTerm rf"
    using assms last terms by (simp add: lastLogTerm_termAt)
  moreover have "durable rf'" "snapshot (Persister rf') = snap"
    by (simp_all add: rf'_def durable_saveWithSnapshot)
      (simp add: saveWithSnapshot_def SaveStateAndSnapshot_def)
  moreover have "Snapshot index snap rf = Inr rf'"
    using assms by (simp add: Snapshot_result rf'_def)
  ultimately show ?thesis
    using last entries terms by (intro exI [of _ rf']) (simp add: rf'_def)
qed

section \<open>The apply loop\<close>

lemma collectEntries_upto:
  assumes "lastIncludedIndex rf < i" "commitIndex rf \<le> lastLogIndex rf"
  shows "collectEntries rf i = map (\<lambda>g. the (entryAt rf g)) [i..commitIndex rf]"
  using assms
proof (induction rf i rule: collectEntries.induct)
  case (1 rf i)
  show ?case
  proof (cases "i \<le> commitIndex rf")
    case True
    then have "entryAt rf i = Some (log rf ! nat (toSliceIndex rf i))"
      and "\<not> (toSliceIndex rf i < 0 \<or> toSliceIndex rf i \<ge> int (length (log rf)))"
      using "1.prems" by (auto simp: entryAt_def toSliceIndex_def lastLogIndex_def)
    then show ?thesis
      using True "1.IH"(2) "1.prems" upto_rec1 [of i "commitIndex rf"]
      by (simp add: collectEntries.simps [of rf i] Let_def)
  next
    case False
    then show ?thesis by (simp add: collectEntries.simps [of rf i])
  qed
qed

lemma applierSend_upto:
  "lii < i \<Longrightarrow> applierSend lii i (map f [i..j]) = map (\<lambda>g. commandMsg g (f g)) [i..j]"
proof (induction i j rule: upto.induct)
  case (1 i j)
  then show ?case by (cases "i \<le> j") (simp_all add: upto_rec1)
qed

text \<open>
  As long as nothing beyond the applied prefix has been compacted and the commit index lies in
  the log, one round of the apply loop sends exactly the committed, not yet applied entries, in index
  order, each with its own global index.
\<close>

lemma applier_sends_committed:
  assumes "lastIncludedIndex rf \<le> lastApplied rf" "lastApplied rf < commitIndex rf"
    and "commitIndex rf \<le> lastLogIndex rf"
  shows "\<exists>rf' b. applierCollect rf = Some (rf', b) \<and>
    applierSend (ab_lastIncludedIndex b) (ab_startIdx b) (ab_entries b) =
      map (\<lambda>g. commandMsg g (the (entryAt rf g))) [lastApplied rf + 1..commitIndex rf] \<and>
    lastApplied (applierFinish b rf') = commitIndex rf"
  using assms
  by (simp add: applierCollect_def collectEntries_upto applierSend_upto applierFinish_def)

section \<open>Replication\<close>

text \<open>
  What a leader sends to a peer whose next index lies in its log is exactly its log from there
  on, with the term before it, and the commit index it announces never exceeds what the message
  and its predecessors cover.
\<close>

lemma replicateTo_sends_suffix:
  assumes "state rf = StateLeader" "nextIndex rf ! peer = nxt"
    and "lastIncludedIndex rf < nxt" "nxt \<le> lastLogIndex rf + 1" "commitIndex rf \<le> lastLogIndex rf"
  shows "\<exists>args. replicateTo peer rf = SendEntries args \<and>
    aea_Term args = currentTerm rf \<and> aea_PrevLogIndex args = nxt - 1 \<and>
    aea_PrevLogTerm args = termAt rf (nxt - 1) \<and>
    map Some (aea_Entries args) = map (entryAt rf) [nxt..lastLogIndex rf] \<and>
    aea_LeaderCommit args \<le> aea_PrevLogIndex args + int (length (aea_Entries args))"
proof -
  define k where "k = nat (nxt - lastIncludedIndex rf - 1)"
  have k: "k \<le> length (log rf)" "nxt = lastIncludedIndex rf + 1 + int k"
    using assms by (auto simp: k_def lastLogIndex_def)
  have suffix: "map Some (drop k (log rf)) = map (entryAt rf) [nxt..lastLogIndex rf]"
  proof (rule nth_equalityI)
    show "length (map Some (drop k (log rf))) = length (map (entryAt rf) [nxt..lastLogIndex rf])"
      using k by (simp add: lastLogIndex_def)
  qed (use k in \<open>auto simp: entryAt_def toSliceIndex_def lastLogIndex_def nat_add_distrib\<close>)
  have "nxt > lastLogIndex rf \<Longrightarrow> drop k (log rf) = []"
    using k by (simp add: lastLogIndex_def)
  then have "replicateTo peer rf = SendEntries
      \<lparr>aea_Term = currentTerm rf, aea_LeaderId = int (me rf), aea_PrevLogIndex = nxt - 1,
       aea_PrevLogTerm = termAt rf (nxt - 1), aea_Entries = drop k (log rf),
       aea_LeaderCommit = commitIndex rf\<rparr>"
    using assms by (auto simp: replicateTo_def Let_def toSliceIndex_def k_def)
  then show ?thesis
    using suffix assms(5) k by (simp add: lastLogIndex_def)
qed

end
