(* ===== verification/Raft_Cluster.thy ===== *)
theory Raft_Cluster
  imports Raft_Log "HOL-Library.Multiset"
begin

text \<open>
  A Raft group: the servers of \<^verbatim>\<open>raft.go\<close>, the RPCs in flight and the goroutines that are started but
  have not run. One step is one critical section of one server, or the loss of a message, or a
  crash followed by a restart from the persister. The network (\<^verbatim>\<open>labrpc\<close>) may lose, delay and reorder
  requests and replies; it executes a request at most once and delivers its reply at most once, to
  the goroutine that waits for it. A goroutine of a crashed instance still may have its request executed,
  but its reply finds no one: messages carry the incarnation of their sender.

  The main result is election safety: no two servers are leader of the same term.
\<close>

section \<open>Group state and steps\<close>

text \<open>
  Each message starts with the calling server, its incarnation and the called peer.
  \<^verbatim>\<open>ReplTask\<close> is a started \<^verbatim>\<open>replicateTo\<close> goroutine, \<^verbatim>\<open>SnapMsg\<close> the goroutine of \<^verbatim>\<open>InstallSnapshot\<close> that
  sends to the service, \<^verbatim>\<open>Batch\<close> the apply loop between its two critical sections.
\<close>

datatype ('c, 's) msg =
    VoteReq nat nat nat RequestVoteArgs
  | VoteRep nat nat nat RequestVoteArgs RequestVoteReply
  | AppReq nat nat nat "'c AppendEntriesArgs"
  | AppRep nat nat nat "'c AppendEntriesArgs" AppendEntriesReply
  | SnapReq nat nat nat "'s InstallSnapshotArgs"
  | SnapRep nat nat nat "'s InstallSnapshotArgs" InstallSnapshotReply
  | ReplTask nat nat nat
  | SnapMsg nat nat "('c, 's) ApplyMsg"
  | Batch nat nat "'c applyBatch"

text \<open>
  \<^verbatim>\<open>granted\<close> and \<^verbatim>\<open>counted\<close> are history variables: the votes (voter, term, candidate) ever given, and the
  votes (candidate, term, voter) ever added to a candidate's counter. No step reads them.
\<close>

record ('c, 's) cluster =
  nservers :: nat
  node :: "nat \<Rightarrow> ('c, 's) raft"
  incarnation :: "nat \<Rightarrow> nat"
  net :: "('c, 's) msg multiset"
  granted :: "(nat \<times> int \<times> nat) set"
  counted :: "(nat \<times> int \<times> nat) set"

definition cinit :: "nat \<Rightarrow> (nat \<Rightarrow> int) \<Rightarrow> ('c, 's) cluster" where
  "cinit n rnds = \<lparr>nservers = n, node = (\<lambda>i. Make n i MakePersister (rnds i)),
     incarnation = (\<lambda>_. 0), net = {#}, granted = {}, counted = {}\<rparr>"

fun callMsgs :: "nat \<Rightarrow> nat \<Rightarrow> nat \<Rightarrow> ('c, 's) replicateCall \<Rightarrow> ('c, 's) msg multiset" where
  "callMsgs i k p SendNothing = {#}"
| "callMsgs i k p (SendSnapshot args) = {#SnapReq i k p args#}"
| "callMsgs i k p (SendEntries args) = {#AppReq i k p args#}"

text \<open>Only calls and replies travel over the network and can be lost.\<close>

fun isRpc :: "('c, 's) msg \<Rightarrow> bool" where
  "isRpc (ReplTask _ _ _) = False"
| "isRpc (SnapMsg _ _ _) = False"
| "isRpc (Batch _ _ _) = False"
| "isRpc _ = True"

definition countsVote :: "RequestVoteArgs \<Rightarrow> RequestVoteReply \<Rightarrow> ('c, 's) raft \<Rightarrow> bool" where
  "countsVote args reply rf \<longleftrightarrow>
     rvr_Term reply \<le> currentTerm rf \<and> state rf = StateCandidate \<and>
     currentTerm rf = rva_Term args \<and> rvr_VoteGranted reply"

inductive cstep :: "('c, 's) cluster \<Rightarrow> ('c, 's) cluster \<Rightarrow> bool" where
  elect:
  "\<lbrakk>i < nservers s; tickElection rnd (node s i) = (rf', Some args)\<rbrakk> \<Longrightarrow>
   cstep s (s\<lparr>node := (node s)(i := rf'),
              net := net s + mset (map (\<lambda>p. VoteReq i (incarnation s i) p args) (otherPeers rf')),
              granted := insert (i, rva_Term args, i) (granted s)\<rparr>)"
| vote_request:
  "\<lbrakk>VoteReq i k j args \<in># net s; RequestVote rnd args (node s j) = (rf', reply)\<rbrakk> \<Longrightarrow>
   cstep s (s\<lparr>node := (node s)(j := rf'),
              net := net s - {#VoteReq i k j args#} + {#VoteRep i k j args reply#},
              granted := (if rvr_VoteGranted reply then insert (j, rva_Term args, i) (granted s)
                          else granted s)\<rparr>)"
| vote_reply:
  "\<lbrakk>VoteRep i (incarnation s i) j args reply \<in># net s;
    rf' = handleVoteReply args reply (node s i)\<rbrakk> \<Longrightarrow>
   cstep s (s\<lparr>node := (node s)(i := rf'),
              net := net s - {#VoteRep i (incarnation s i) j args reply#},
              counted := (if countsVote args reply (node s i)
                          then insert (i, rva_Term args, j) (counted s) else counted s)\<rparr>)"
| heartbeat:
  "\<lbrakk>i < nservers s; tickHeartbeat (node s i) = (rf', ps)\<rbrakk> \<Longrightarrow>
   cstep s (s\<lparr>node := (node s)(i := rf'),
              net := net s + mset (map (\<lambda>p. ReplTask i (incarnation s i) p) ps)\<rparr>)"
| replicate_call:
  "ReplTask i (incarnation s i) p \<in># net s \<Longrightarrow>
   cstep s (s\<lparr>net := net s - {#ReplTask i (incarnation s i) p#} +
                     callMsgs i (incarnation s i) p (replicateTo p (node s i))\<rparr>)"
| append_request:
  "\<lbrakk>AppReq i k j args \<in># net s; AppendEntries rnd args (node s j) = (rf', reply)\<rbrakk> \<Longrightarrow>
   cstep s (s\<lparr>node := (node s)(j := rf'),
              net := net s - {#AppReq i k j args#} + {#AppRep i k j args reply#}\<rparr>)"
| append_reply:
  "\<lbrakk>AppRep i (incarnation s i) j args reply \<in># net s;
    rf' = handleAppendReply j args reply (node s i)\<rbrakk> \<Longrightarrow>
   cstep s (s\<lparr>node := (node s)(i := rf'),
              net := net s - {#AppRep i (incarnation s i) j args reply#}\<rparr>)"
| snap_request:
  "\<lbrakk>SnapReq i k j args \<in># net s; InstallSnapshot rnd args (node s j) = (rf', reply, out)\<rbrakk> \<Longrightarrow>
   cstep s (s\<lparr>node := (node s)(j := rf'),
              net := net s - {#SnapReq i k j args#} + {#SnapRep i k j args reply#} +
                     (case out of None \<Rightarrow> {#} | Some m \<Rightarrow> {#SnapMsg j (incarnation s j) m#})\<rparr>)"
| snap_reply:
  "\<lbrakk>SnapRep i (incarnation s i) j args reply \<in># net s;
    rf' = handleSnapshotReply j args reply (node s i)\<rbrakk> \<Longrightarrow>
   cstep s (s\<lparr>node := (node s)(i := rf'),
              net := net s - {#SnapRep i (incarnation s i) j args reply#}\<rparr>)"
| client_start:
  "\<lbrakk>i < nservers s; Start c (node s i) = (rf', index, t, isLeader)\<rbrakk> \<Longrightarrow>
   cstep s (s\<lparr>node := (node s)(i := rf')\<rparr>)"
| service_snapshot:
  "\<lbrakk>i < nservers s; Snapshot index data (node s i) = Inr rf'\<rbrakk> \<Longrightarrow>
   cstep s (s\<lparr>node := (node s)(i := rf')\<rparr>)"
| service_install:
  "\<lbrakk>SnapMsg i (incarnation s i) m \<in># net s;
    CondInstallSnapshot (am_SnapshotTerm m) (am_SnapshotIndex m) (am_Snapshot m) (node s i) =
      Inr (rf', installed)\<rbrakk> \<Longrightarrow>
   cstep s (s\<lparr>node := (node s)(i := rf'), net := net s - {#SnapMsg i (incarnation s i) m#}\<rparr>)"
| apply_collect:
  "\<lbrakk>i < nservers s; \<forall>b. Batch i (incarnation s i) b \<notin># net s;
    applierCollect (node s i) = Some (rf', b)\<rbrakk> \<Longrightarrow>
   cstep s (s\<lparr>node := (node s)(i := rf'), net := net s + {#Batch i (incarnation s i) b#}\<rparr>)"
| apply_finish:
  "\<lbrakk>Batch i (incarnation s i) b \<in># net s; rf' = applierFinish b (node s i)\<rbrakk> \<Longrightarrow>
   cstep s (s\<lparr>node := (node s)(i := rf'), net := net s - {#Batch i (incarnation s i) b#}\<rparr>)"
| lose:
  "\<lbrakk>m \<in># net s; isRpc m\<rbrakk> \<Longrightarrow> cstep s (s\<lparr>net := net s - {#m#}\<rparr>)"
| restart:
  "i < nservers s \<Longrightarrow>
   cstep s (s\<lparr>node := (node s)(i := Make (nservers s) i (Copy (Persister (node s i))) rnd),
              incarnation := (incarnation s)(i := Suc (incarnation s i))\<rparr>)"

inductive creach :: "nat \<Rightarrow> ('c, 's) cluster \<Rightarrow> bool" for n where
  start: "creach n (cinit n rnds)"
| step: "creach n s \<Longrightarrow> cstep s s' \<Longrightarrow> creach n s'"

end
