(* ===== verification/Raft_Election.thy ===== *)
theory Raft_Election
  imports Raft_Cluster
begin

text \<open>
  Election safety of a Raft group: an inductive invariant over all steps of \<^verbatim>\<open>cstep\<close> that ties the vote
  counters of the candidates to the votes that the servers have durably given.
\<close>

section \<open>The invariant\<close>

fun isVote :: "('c, 's) msg \<Rightarrow> bool" where
  "isVote (VoteReq _ _ _ _) = True"
| "isVote (VoteRep _ _ _ _ _) = True"
| "isVote _ = False"

fun isVoteOf :: "nat \<Rightarrow> int \<Rightarrow> nat \<Rightarrow> ('c, 's) msg \<Rightarrow> bool" where
  "isVoteOf i t j (VoteReq i' k j' args) = (i' = i \<and> j' = j \<and> rva_Term args = t)"
| "isVoteOf i t j (VoteRep i' k j' args reply) = (i' = i \<and> j' = j \<and> rva_Term args = t)"
| "isVoteOf i t j _ = False"

lemma isVoteOf_isVote: "isVoteOf i t j m \<Longrightarrow> isVote m"
  by (cases m) auto

lemma filter_isVoteOf: "filter_mset (isVoteOf i t j) (filter_mset isVote M) = filter_mset (isVoteOf i t j) M"
  by (induction M) (auto dest: isVoteOf_isVote)

definition pendingVotes :: "('c, 's) cluster \<Rightarrow> nat \<Rightarrow> int \<Rightarrow> nat \<Rightarrow> nat" where
  "pendingVotes s i t j = size (filter_mset (isVoteOf i t j) (net s))"

definition voters :: "('c, 's) cluster \<Rightarrow> nat \<Rightarrow> int \<Rightarrow> nat set" where
  "voters s i t = {j. (i, t, j) \<in> counted s}"

definition inv_ids :: "('c, 's) cluster \<Rightarrow> bool" where
  "inv_ids s \<longleftrightarrow> (\<forall>i < nservers s.
     me (node s i) = i \<and> peers (node s i) = nservers s \<and> durable (node s i))"

definition inv_granted :: "('c, 's) cluster \<Rightarrow> bool" where
  "inv_granted s \<longleftrightarrow>
     (\<forall>j t c. (j, t, c) \<in> granted s \<longrightarrow> j < nservers s \<and> t \<le> currentTerm (node s j) \<and>
        (t = currentTerm (node s j) \<longrightarrow> votedFor (node s j) = int c)) \<and>
     (\<forall>j t c c'. (j, t, c) \<in> granted s \<and> (j, t, c') \<in> granted s \<longrightarrow> c = c')"

definition voteCallOk :: "('c, 's) cluster \<Rightarrow> nat \<Rightarrow> nat \<Rightarrow> RequestVoteArgs \<Rightarrow> bool" where
  "voteCallOk s i j args \<longleftrightarrow> i < nservers s \<and> j < nservers s \<and> j \<noteq> i \<and>
     rva_CandidateId args = int i \<and> rva_Term args \<le> currentTerm (node s i)"

definition inv_calls :: "('c, 's) cluster \<Rightarrow> bool" where
  "inv_calls s \<longleftrightarrow>
     (\<forall>i k j args. VoteReq i k j args \<in># net s \<longrightarrow> voteCallOk s i j args) \<and>
     (\<forall>i k j args reply. VoteRep i k j args reply \<in># net s \<longrightarrow>
        voteCallOk s i j args \<and> (rvr_VoteGranted reply \<longrightarrow> (j, rva_Term args, i) \<in> granted s))"

definition inv_once :: "('c, 's) cluster \<Rightarrow> bool" where
  "inv_once s \<longleftrightarrow>
     (\<forall>i t j. pendingVotes s i t j \<le> 1 \<and> ((i, t, j) \<in> counted s \<longrightarrow> pendingVotes s i t j = 0))"

definition inv_counted :: "('c, 's) cluster \<Rightarrow> bool" where
  "inv_counted s \<longleftrightarrow> (\<forall>i t j. (i, t, j) \<in> counted s \<longrightarrow>
     i < nservers s \<and> j < nservers s \<and> j \<noteq> i \<and> (j, t, i) \<in> granted s \<and>
     t \<le> currentTerm (node s i))"

definition inv_roles :: "('c, 's) cluster \<Rightarrow> bool" where
  "inv_roles s \<longleftrightarrow> (\<forall>i < nservers s.
     (state (node s i) \<noteq> StateFollower \<longrightarrow> (i, currentTerm (node s i), i) \<in> granted s) \<and>
     (state (node s i) = StateCandidate \<longrightarrow>
        votes (node s i) (currentTerm (node s i)) = Suc (card (voters s i (currentTerm (node s i))))) \<and>
     (state (node s i) = StateLeader \<longrightarrow>
        nservers s div 2 + 1 \<le> Suc (card (voters s i (currentTerm (node s i))))))"

definition electionInv :: "('c, 's) cluster \<Rightarrow> bool" where
  "electionInv s \<longleftrightarrow> inv_ids s \<and> inv_granted s \<and> inv_calls s \<and> inv_once s \<and> inv_counted s \<and> inv_roles s"

lemmas electionInv_defs = inv_ids_def inv_granted_def inv_calls_def inv_once_def inv_counted_def
  inv_roles_def

lemma electionInv_init: "electionInv (cinit n rnds)"
  by (simp add: electionInv_def electionInv_defs cinit_def pendingVotes_def durable_Make_fresh)

section \<open>Steps that give and count no vote\<close>

lemma quiet_term: "quiet rf rf' \<Longrightarrow> durable rf \<Longrightarrow> currentTerm rf \<le> currentTerm rf'"
  by (simp add: quiet_def termVoteKept_def)

lemma quiet_vote:
  "\<lbrakk>quiet rf rf'; durable rf; t \<le> currentTerm rf; t = currentTerm rf \<longrightarrow> votedFor rf = int c;
    t = currentTerm rf'\<rbrakk> \<Longrightarrow> votedFor rf' = int c"
  by (auto simp: quiet_def termVoteKept_def)

lemma voteCallOk_quiet:
  assumes "electionInv s" "voteCallOk s i j args" "quiet (node s p) rf'"
    and "nservers s' = nservers s" "node s' = (node s)(p := rf')"
  shows "voteCallOk s' i j args"
  using assms quiet_term [OF assms(3)]
  by (auto simp: voteCallOk_def electionInv_def inv_ids_def intro: order_trans)

lemma electionInv_quiet:
  assumes inv: "electionInv s" and q: "quiet (node s p) rf'"
    and s': "nservers s' = nservers s" "node s' = (node s)(p := rf')"
      "granted s' = granted s" "counted s' = counted s"
    and net: "filter_mset isVote (net s') \<subseteq># filter_mset isVote (net s)"
  shows "electionInv s'"
proof -
  have dur: "p < nservers s \<Longrightarrow> durable (node s p)"
    using inv by (simp add: electionInv_def inv_ids_def)
  have mem: "m \<in># net s" if "m \<in># net s'" "isVote m" for m
    using that mset_subset_eqD [OF net, of m] by simp
  note call = voteCallOk_quiet [OF inv _ q s'(1,2)]
  have "filter_mset (isVoteOf i t j) (net s') \<subseteq># filter_mset (isVoteOf i t j) (net s)" for i t j
    using multiset_filter_mono [OF net, of "isVoteOf i t j"] by (simp only: filter_isVoteOf)
  then have pend: "pendingVotes s' i t j \<le> pendingVotes s i t j" for i t j
    by (simp add: pendingVotes_def size_mset_mono)
  have "inv_ids s'"
    using inv s' q by (auto simp: electionInv_def inv_ids_def quiet_def)
  moreover have "inv_counted s'"
    using inv s' quiet_term [OF q] dur
    by (fastforce simp: electionInv_def inv_counted_def intro: order_trans)
  moreover have "inv_granted s'"
    using inv s' quiet_term [OF q] quiet_vote [OF q] dur
    by (fastforce simp: electionInv_def inv_granted_def intro: order_trans)
  moreover have "inv_calls s'"
    using inv s'(3) mem call by (fastforce simp: electionInv_def inv_calls_def)
  moreover have "inv_once s'"
    using inv s'(4) pend unfolding electionInv_def inv_once_def by (metis le_trans le_zero_eq)
  moreover have "inv_roles s'"
    using inv s' q by (auto simp: electionInv_def inv_roles_def voters_def quiet_def)
  ultimately show ?thesis by (simp add: electionInv_def)
qed

section \<open>Giving a vote\<close>

lemma RequestVote_granted:
  assumes "RequestVote rnd args rf = (rf', reply)" "rvr_VoteGranted reply"
  shows "currentTerm rf \<le> rva_Term args" "currentTerm rf' = rva_Term args"
    "votedFor rf' = rva_CandidateId args"
    "rva_Term args = currentTerm rf \<longrightarrow> votedFor rf = -1 \<or> votedFor rf = rva_CandidateId args"
  using assms by (auto simp: RequestVote_def Let_def split: if_splits)

lemma electionInv_vote_request:
  assumes inv: "electionInv s" and m: "VoteReq i k j args \<in># net s"
    and rv: "RequestVote rnd args (node s j) = (rf', reply)"
    and s': "s' = s\<lparr>node := (node s)(j := rf'),
              net := net s - {#VoteReq i k j args#} + {#VoteRep i k j args reply#},
              granted := (if rvr_VoteGranted reply then insert (j, rva_Term args, i) (granted s)
                          else granted s)\<rparr>"
  shows "electionInv s'"
proof -
  define s1 where "s1 = s\<lparr>node := (node s)(j := rf'), net := net s - {#VoteReq i k j args#}\<rparr>"
  obtain N where N: "net s = add_mset (VoteReq i k j args) N"
    using m by (metis mset_add)
  have q: "quiet (node s j) rf'"
    using quiet_RequestVote [of "node s j" rnd args] rv by simp
  have inv1: "electionInv s1"
    using electionInv_quiet [OF inv q, of s1] N by (simp add: s1_def)
  have call: "voteCallOk s1 i j args"
    using inv m voteCallOk_quiet [OF inv _ q, of i j args s1]
    by (simp add: electionInv_def inv_calls_def s1_def)
  have s1': "nservers s' = nservers s1" "node s' = node s1" "counted s' = counted s1"
    "net s' = add_mset (VoteRep i k j args reply) (net s1)"
    "granted s' = (if rvr_VoteGranted reply then insert (j, rva_Term args, i) (granted s1) else granted s1)"
    by (simp_all add: s' s1_def)
  have calls_eq: "voteCallOk s' i' j' args' = voteCallOk s1 i' j' args'" for i' j' args'
    by (simp add: voteCallOk_def s1')
  have "pendingVotes s' i' t j' = pendingVotes s i' t j'" for i' t j'
    by (simp add: pendingVotes_def s' N)
  then have "inv_once s'"
    using inv by (simp add: electionInv_def inv_once_def s')
  moreover have "inv_granted s'"
  proof (cases "rvr_VoteGranted reply")
    case True
    note g = RequestVote_granted [OF rv True]
    have j: "j < nservers s" "rva_CandidateId args = int i" using call by (simp_all add: voteCallOk_def s1_def)
    have uniq: "c = i" if "(j, rva_Term args, c) \<in> granted s" for c
    proof -
      have "rva_Term args \<le> currentTerm (node s j)"
        "rva_Term args = currentTerm (node s j) \<longrightarrow> votedFor (node s j) = int c"
        using inv that by (auto simp: electionInv_def inv_granted_def)
      with g(1,4) j(2) show ?thesis by auto
    qed
    have "(\<forall>j t c. (j, t, c) \<in> granted s1 \<longrightarrow> j < nservers s1 \<and> t \<le> currentTerm (node s1 j) \<and>
        (t = currentTerm (node s1 j) \<longrightarrow> votedFor (node s1 j) = int c))"
      and func: "\<And>j t c c'. (j, t, c) \<in> granted s \<Longrightarrow> (j, t, c') \<in> granted s \<Longrightarrow> c = c'"
      using inv1 inv by (auto simp: electionInv_def inv_granted_def)
    then show ?thesis
      using g(2,3) j uniq s1' True unfolding inv_granted_def
      by (auto simp: s1_def dest: func)
  qed (use inv1 s1' in \<open>simp add: electionInv_def inv_granted_def\<close>)
  moreover have "inv_calls s'"
    using inv1 call s1' by (auto simp: electionInv_def inv_calls_def calls_eq)
  moreover have "inv_ids s'" "inv_counted s'" "inv_roles s'"
    using inv1 s1' by (auto simp: electionInv_def inv_ids_def inv_counted_def inv_roles_def voters_def)
  ultimately show ?thesis by (simp add: electionInv_def)
qed

section \<open>Standing for election\<close>

lemma tickElection_candidate:
  assumes "tickElection rnd rf = (rf', Some args)"
  shows "state rf' = StateCandidate" "currentTerm rf' = currentTerm rf + 1"
    "votedFor rf' = int (me rf)" "me rf' = me rf" "peers rf' = peers rf"
    "votes rf' (currentTerm rf') = 1" "rva_Term args = currentTerm rf'"
    "rva_CandidateId args = int (me rf)" "durable rf'"
  using assms
  by (auto simp: tickElection_def startElection_def Let_def durable_persist resetElectionTimer_def
      split: if_splits)

lemma distinct_otherPeers [simp]: "distinct (otherPeers rf)"
  and set_otherPeers [simp]: "set (otherPeers rf) = {..<peers rf} - {me rf}"
  by (auto simp: otherPeers_def)

lemma size_filter_fresh_calls:
  assumes "distinct ps"
  shows "size (filter_mset (isVoteOf i t j) (mset (map (\<lambda>p. VoteReq i' k p args) ps))) \<le>
    (if i = i' \<and> t = rva_Term args then 1 else 0)"
  using assms
proof (induction ps)
  case (Cons p ps)
  have "filter_mset (isVoteOf i t p) (mset (map (\<lambda>q. VoteReq i' k q args) qs)) = {#}"
    if "p \<notin> set qs" for qs
    using that by (induction qs) auto
  with Cons show ?case by auto
qed simp

lemma electionInv_elect:
  assumes inv: "electionInv s" and i: "i < nservers s"
    and te: "tickElection rnd (node s i) = (rf', Some args)"
    and s': "s' = s\<lparr>node := (node s)(i := rf'),
              net := net s + mset (map (\<lambda>p. VoteReq i (incarnation s i) p args) (otherPeers rf')),
              granted := insert (i, rva_Term args, i) (granted s)\<rparr>"
  shows "electionInv s'"
proof -
  note te' = tickElection_candidate [OF te]
  have me: "me (node s i) = i" "peers (node s i) = nservers s"
    using inv i by (auto simp: electionInv_def inv_ids_def)
  let ?t = "currentTerm (node s i) + 1"
  have old_calls: "\<And>j k a. VoteReq i k j a \<in># net s \<Longrightarrow> rva_Term a < ?t"
    "\<And>j k a r. VoteRep i k j a r \<in># net s \<Longrightarrow> rva_Term a < ?t"
    using inv by (fastforce simp: electionInv_def inv_calls_def voteCallOk_def)+
  have none: "pendingVotes s i ?t j = 0" for j
  proof -
    have "\<not> isVoteOf i ?t j m" if "m \<in># net s" for m
      using that by (cases m) (auto dest: old_calls)
    then show ?thesis by (simp add: pendingVotes_def filter_mset_eq_mempty_iff)
  qed
  have fresh: "(i, ?t, j) \<notin> counted s" "(i, ?t, c) \<notin> granted s" for j c
    using inv by (force simp: electionInv_def inv_counted_def inv_granted_def)+
  have pend: "pendingVotes s' i' t j \<le>
      pendingVotes s i' t j + (if i' = i \<and> t = ?t then 1 else 0)" for i' t j
    using size_filter_fresh_calls [of "otherPeers rf'" i' t j i "incarnation s i" args] te'(2,7)
    by (simp add: pendingVotes_def s')
  have once: "pendingVotes s i' t j \<le> 1 \<and> ((i', t, j) \<in> counted s \<longrightarrow> pendingVotes s i' t j = 0)"
    for i' t j using inv by (simp add: electionInv_def inv_once_def)
  have "inv_once s'"
    unfolding inv_once_def
  proof (intro allI)
    fix i' t j
    show "pendingVotes s' i' t j \<le> 1 \<and> ((i', t, j) \<in> counted s' \<longrightarrow> pendingVotes s' i' t j = 0)"
      using once [of i' t j] pend [of i' t j] none [of j] fresh(1) [of j]
      by (cases "i' = i \<and> t = ?t") (auto simp: s' split: if_splits)
  qed
  moreover have "inv_ids s'"
    using inv te' me by (auto simp: electionInv_def inv_ids_def s')
  moreover have "inv_granted s'"
  proof -
    have g: "\<And>j t c. (j, t, c) \<in> granted s \<Longrightarrow> j < nservers s \<and> t \<le> currentTerm (node s j) \<and>
        (t = currentTerm (node s j) \<longrightarrow> votedFor (node s j) = int c)"
      and func: "\<And>j t c c'. (j, t, c) \<in> granted s \<Longrightarrow> (j, t, c') \<in> granted s \<Longrightarrow> c = c'"
      using inv unfolding electionInv_def inv_granted_def by blast+
    have "t < ?t" if "(i, t, c) \<in> granted s" for t c using g [OF that] by simp
    then show ?thesis
      using te'(2,3,7) me i g func fresh(2) unfolding inv_granted_def by (auto simp: s' less_le)
  qed
  moreover have "inv_calls s'"
    using inv te' me i by (fastforce simp: electionInv_def inv_calls_def voteCallOk_def s')
  moreover have "inv_counted s'"
    using inv te'(2) by (fastforce simp: electionInv_def inv_counted_def s')
  moreover have "inv_roles s'"
    using inv te' me i fresh(1)
    by (auto simp: electionInv_def inv_roles_def voters_def s')
  ultimately show ?thesis by (simp add: electionInv_def)
qed

section \<open>Counting a vote\<close>

lemma quiet_handleVoteReply:
  "\<not> countsVote args reply rf \<Longrightarrow> quiet rf (handleVoteReply args reply rf)"
  by (rule quietI [OF _ _ durable_handleVoteReply termVoteKept_handleVoteReply])
    (auto simp: handleVoteReply_def countsVote_def Let_def)

lemma handleVoteReply_counts:
  assumes "countsVote args reply rf" "rf' = handleVoteReply args reply rf"
  shows "me rf' = me rf" "peers rf' = peers rf" "currentTerm rf' = currentTerm rf"
    "votedFor rf' = votedFor rf" "durable rf \<Longrightarrow> durable rf'"
    "votes rf' = (votes rf)(currentTerm rf := Suc (votes rf (currentTerm rf)))"
    "state rf' = (if peers rf div 2 + 1 \<le> Suc (votes rf (currentTerm rf))
                  then StateLeader else StateCandidate)"
  using assms by (auto simp: handleVoteReply_def countsVote_def Let_def majority_def
      becomeLeader_def)

lemma finite_voters: "inv_counted s \<Longrightarrow> finite (voters s i t)"
  by (rule finite_subset [of _ "{..<nservers s}"]) (auto simp: voters_def inv_counted_def)

lemma electionInv_count:
  assumes inv: "electionInv s" and m: "VoteRep i k j args reply \<in># net s"
    and c: "countsVote args reply (node s i)"
    and s': "s' = s\<lparr>node := (node s)(i := handleVoteReply args reply (node s i)),
              net := net s - {#VoteRep i k j args reply#},
              counted := insert (i, rva_Term args, j) (counted s)\<rparr>"
  shows "electionInv s'"
proof -
  let ?t = "rva_Term args"
  note h = handleVoteReply_counts [OF c refl]
  have t: "currentTerm (node s i) = ?t" "state (node s i) = StateCandidate" "rvr_VoteGranted reply"
    using c by (auto simp: countsVote_def)
  have call: "i < nservers s" "j < nservers s" "j \<noteq> i" "(j, ?t, i) \<in> granted s"
    using inv m t(3) by (auto simp: electionInv_def inv_calls_def voteCallOk_def)
  obtain N where N: "net s = add_mset (VoteRep i k j args reply) N"
    using m by (metis mset_add)
  have pend: "pendingVotes s i' t j' =
      pendingVotes s' i' t j' + (if i' = i \<and> t = ?t \<and> j' = j then 1 else 0)" for i' t j'
    by (auto simp: pendingVotes_def s' N)
  have once: "pendingVotes s i' t j' \<le> 1 \<and> ((i', t, j') \<in> counted s \<longrightarrow> pendingVotes s i' t j' = 0)"
    for i' t j' using inv by (simp add: electionInv_def inv_once_def)
  have fresh: "(i, ?t, j) \<notin> counted s" and gone: "pendingVotes s' i ?t j = 0"
    using once [of i ?t j] pend [of i ?t j] by auto
  have "voters s' i' t = (if i' = i \<and> t = ?t then insert j (voters s i ?t) else voters s i' t)" for i' t
    by (auto simp: voters_def s')
  moreover have "card (insert j (voters s i ?t)) = Suc (card (voters s i ?t))"
    using fresh inv finite_voters [of s i ?t]
    by (intro card_insert_disjoint) (auto simp: voters_def electionInv_def)
  ultimately have card: "card (voters s' i ?t) = Suc (card (voters s i ?t))"
    and other: "i' \<noteq> i \<Longrightarrow> voters s' i' t = voters s i' t" for i' t by simp_all
  have "inv_once s'"
    unfolding inv_once_def
  proof (intro allI)
    fix i' t j'
    show "pendingVotes s' i' t j' \<le> 1 \<and> ((i', t, j') \<in> counted s' \<longrightarrow> pendingVotes s' i' t j' = 0)"
      using once [of i' t j'] pend [of i' t j'] gone by (auto simp: s')
  qed
  moreover have "inv_ids s'" "inv_granted s'"
    using inv h(1-5) by (auto simp: electionInv_def inv_ids_def inv_granted_def s')
  moreover have "inv_calls s'"
    using inv h(3) N by (auto simp: electionInv_def inv_calls_def voteCallOk_def s')
  moreover have "inv_counted s'"
    using inv h(3) call t by (fastforce simp: electionInv_def inv_counted_def s')
  moreover have "inv_roles s'"
    using inv h t call card other
    by (auto simp: electionInv_def inv_roles_def inv_ids_def s' split: if_splits)
  ultimately show ?thesis by (simp add: electionInv_def)
qed

section \<open>Election safety\<close>

lemma cstep_electionInv:
  assumes "cstep s s'" "electionInv s"
  shows "electionInv s'"
  using assms
proof (cases rule: cstep.cases)
  case (elect i rnd rf' args)
  then show ?thesis using assms(2) electionInv_elect by blast
next
  case (vote_request i k j args rnd rf' reply)
  then show ?thesis using assms(2) electionInv_vote_request by blast
next
  case (vote_reply i j args reply rf')
  show ?thesis
  proof (cases "countsVote args reply (node s i)")
    case True
    from electionInv_count [OF assms(2) vote_reply(2) True refl] True vote_reply show ?thesis by simp
  next
    case False
    from electionInv_quiet [OF assms(2) quiet_handleVoteReply [OF False]] False vote_reply
    show ?thesis by (simp add: multiset_filter_mono)
  qed
next
  case (heartbeat i rf' ps)
  have "filter_mset isVote (net s') = filter_mset isVote (net s)"
    using heartbeat(1) by (induction ps arbitrary: s') auto
  then show ?thesis
    using electionInv_quiet [OF assms(2), of i rf' s'] quiet_tickHeartbeat [of "node s i"]
      heartbeat by simp
next
  case (replicate_call i p)
  have "filter_mset isVote (callMsgs i k p call) = {#}" for k and call :: "('a, 'b) replicateCall"
    by (cases call) auto
  moreover have "quiet (node s i) (node s i)" by (simp add: quiet_def termVoteKept_def)
  ultimately show ?thesis
    using replicate_call electionInv_quiet [OF assms(2), of i "node s i" s']
    by (simp add: multiset_filter_mono)
next
  case (append_request i k j args rnd rf' reply)
  then show ?thesis
    using electionInv_quiet [OF assms(2), of j rf' s'] quiet_AppendEntries [of "node s j" rnd args]
    by (simp add: multiset_filter_mono)
next
  case (append_reply i j args reply rf')
  then show ?thesis
    using electionInv_quiet [OF assms(2), of i rf' s']
    by (simp add: multiset_filter_mono quiet_handleAppendReply)
next
  case (snap_request i k j args rnd rf' reply out)
  then show ?thesis
    using electionInv_quiet [OF assms(2), of j rf' s'] quiet_InstallSnapshot [of "node s j" rnd args]
    by (simp add: multiset_filter_mono split: option.split)
next
  case (snap_reply i j args reply rf')
  then show ?thesis
    using electionInv_quiet [OF assms(2), of i rf' s']
    by (simp add: multiset_filter_mono quiet_handleSnapshotReply)
next
  case (client_start i c rf' index t isLeader)
  then show ?thesis
    using electionInv_quiet [OF assms(2), of i rf' s'] quiet_Start [of "node s i" c] by simp
next
  case (service_snapshot i index data rf')
  then show ?thesis
    using electionInv_quiet [OF assms(2), of i rf' s'] quiet_Snapshot [OF service_snapshot(3)] by simp
next
  case (service_install i m rf' installed)
  then show ?thesis
    using electionInv_quiet [OF assms(2), of i rf' s'] quiet_CondInstallSnapshot [OF service_install(3)]
    by (simp add: multiset_filter_mono)
next
  case (apply_collect i rf' b)
  then show ?thesis
    using electionInv_quiet [OF assms(2), of i rf' s'] quiet_applierCollect [OF apply_collect(4)] by simp
next
  case (apply_finish i b rf')
  then show ?thesis
    using electionInv_quiet [OF assms(2), of i rf' s']
    by (simp add: multiset_filter_mono quiet_applierFinish)
next
  case (lose m)
  have "quiet (node s 0) (node s 0)" by (simp add: quiet_def termVoteKept_def)
  then show ?thesis
    using lose electionInv_quiet [OF assms(2), of 0 "node s 0" s'] by (simp add: multiset_filter_mono)
next
  case (restart i rnd)
  then have "me (node s i) = i" "peers (node s i) = nservers s"
    using assms(2) by (auto simp: electionInv_def inv_ids_def)
  then show ?thesis
    using restart electionInv_quiet [OF assms(2), of i _ s'] quiet_Make [of "node s i" rnd] by simp
qed

lemma creach_electionInv: "creach n s \<Longrightarrow> electionInv s \<and> nservers s = n"
proof (induction rule: creach.induct)
  case (start rnds)
  show ?case by (simp add: electionInv_init) (simp add: cinit_def)
next
  case (step s s')
  have "nservers s' = nservers s" using step.hyps(2) by (cases rule: cstep.cases) simp_all
  with step show ?case by (simp add: cstep_electionInv)
qed

text \<open>The majorities that \<^verbatim>\<open>startElection\<close> counts form a quorum system.\<close>

interpretation elections: quorum_system "{..<n}" "\<lambda>Q. n div 2 + 1 \<le> card Q" for n :: nat
proof
  fix Q R :: "nat set"
  assume "n div 2 + 1 \<le> card Q" "n div 2 + 1 \<le> card R" "Q \<subseteq> {..<n}" "R \<subseteq> {..<n}"
  then show "Q \<inter> R \<noteq> {}" by (intro card_sum_meet [of "{..<n}"]) auto
qed

lemma leader_quorum:
  assumes "electionInv s" "i < nservers s" "state (node s i) = StateLeader"
  defines "t \<equiv> currentTerm (node s i)"
  shows "nservers s div 2 + 1 \<le> card (insert i (voters s i t))"
    "insert i (voters s i t) \<subseteq> {..<nservers s}"
    "\<And>p. p \<in> insert i (voters s i t) \<Longrightarrow> (p, t, i) \<in> granted s"
proof -
  have "finite (voters s i t)" "i \<notin> voters s i t"
    using assms(1) by (simp add: electionInv_def finite_voters)
      (use assms(1) in \<open>unfold electionInv_def inv_counted_def voters_def, blast\<close>)
  then show "nservers s div 2 + 1 \<le> card (insert i (voters s i t))"
    using assms by (simp add: electionInv_def inv_roles_def)
qed (use assms in \<open>auto simp: electionInv_def inv_counted_def inv_roles_def voters_def\<close>)

text \<open>
  C2. Election safety: in every reachable state of a Raft group, whatever messages are lost, delayed
  or reordered and whichever servers crash and restart, two leaders of the same term are the same
  server.
\<close>

theorem election_safety:
  assumes "creach n s" "i < n" "j < n"
    and "state (node s i) = StateLeader" "state (node s j) = StateLeader"
    and "currentTerm (node s i) = currentTerm (node s j)"
  shows "i = j"
proof -
  have inv: "electionInv s" "nservers s = n"
    using creach_electionInv [OF assms(1)] by auto
  note qi = leader_quorum [OF inv(1) _ assms(4), unfolded inv(2), OF assms(2)]
  note qj = leader_quorum [OF inv(1) _ assms(5), unfolded inv(2), OF assms(3)]
  obtain p where "p \<in> insert i (voters s i (currentTerm (node s i)))"
      "p \<in> insert j (voters s j (currentTerm (node s j)))"
    by (rule elections.quorums_share [OF qi(1) qj(1) qi(2) qj(2)])
  then have "(p, currentTerm (node s i), i) \<in> granted s" "(p, currentTerm (node s i), j) \<in> granted s"
    using qi(3) qj(3) assms(6) by auto
  then show ?thesis using inv(1) unfolding electionInv_def inv_granted_def by blast
qed

text \<open>A run that elects a leader: server 0 of three stands, server 1 grants its vote.\<close>

definition exCall :: RequestVoteArgs where
  "exCall = \<lparr>rva_Term = 1, rva_CandidateId = 0, rva_LastLogIndex = 0, rva_LastLogTerm = 0\<rparr>"

definition exElected :: "(int, int) cluster \<Rightarrow> bool" where
  "exElected s \<longleftrightarrow> creach 3 s \<and> state (node s 0) = StateLeader \<and>
     currentTerm (node s 0) = 1 \<and> currentTerm (node s 1) = 1"

lemma exElected_reachable: "\<exists>s. exElected s"
proof -
  let ?rep = "\<lparr>rvr_Term = 1, rvr_VoteGranted = True\<rparr>"
  define s0 :: "(int, int) cluster" where "s0 = cinit 3 (\<lambda>_. 0)"
  define s1 where "s1 = s0\<lparr>node := (node s0)(0 := fst (startElection 0 (node s0 0))),
    net := net s0 + mset (map (\<lambda>p. VoteReq 0 (incarnation s0 0) p exCall)
      (otherPeers (fst (startElection 0 (node s0 0))))),
    granted := insert (0, rva_Term exCall, 0) (granted s0)\<rparr>"
  define s2 where "s2 = s1\<lparr>node := (node s1)(1 := fst (RequestVote 0 exCall (node s1 1))),
    net := net s1 - {#VoteReq 0 0 1 exCall#} + {#VoteRep 0 0 1 exCall ?rep#},
    granted := insert (1, rva_Term exCall, 0) (granted s1)\<rparr>"
  define s3 where "s3 = s2\<lparr>node := (node s2)(0 := handleVoteReply exCall ?rep (node s2 0)),
    net := net s2 - {#VoteRep 0 (incarnation s2 0) 1 exCall ?rep#},
    counted := insert (0, rva_Term exCall, 1) (counted s2)\<rparr>"
  note ev = s0_def s1_def s2_def s3_def cinit_def Make_def readPersist_def MakePersister_def
    ReadRaftState_def startElection_def resetElectionTimer_def persist_def exCall_def Let_def
    lastLogIndex_def lastLogTerm_def otherPeers_def RequestVote_def isMoreUpToDate_def stepDown_def
    handleVoteReply_def majority_def becomeLeader_def upt_rec
  have "cstep s0 s1"
    unfolding s1_def by (rule elect [of _ _ 0]) (simp_all add: tickElection_def ev)
  moreover have "cstep s1 s2"
    using vote_request [of 0 0 1 exCall s1 0 "fst (RequestVote 0 exCall (node s1 1))" ?rep]
    unfolding s2_def by (simp add: ev)
  moreover have "cstep s2 s3"
    using vote_reply [of 0 s2 1 exCall ?rep "handleVoteReply exCall ?rep (node s2 0)"]
    unfolding s3_def by (simp add: ev countsVote_def)
  ultimately have "creach 3 s3"
    using creach.start [of 3 "\<lambda>_. 0"] unfolding s0_def by (blast intro: creach.step)
  then show ?thesis by (intro exI [of _ s3]) (simp add: exElected_def ev)
qed

theorem election_safety_witness:
  "\<exists>s :: (int, int) cluster. creach 3 s \<and> state (node s 0) = StateLeader \<and>
     currentTerm (node s 1) = currentTerm (node s 0) \<and> state (node s 1) \<noteq> StateLeader"
proof -
  obtain s where s: "exElected s" using exElected_reachable by blast
  then have "state (node s 1) \<noteq> StateLeader"
    using election_safety [of 3 s 0 1] by (auto simp: exElected_def)
  with s show ?thesis by (auto simp: exElected_def)
qed

end
