(* ===== verification/Raft_Leaders.thy ===== *)
theory Raft_Leaders
  imports Raft_Node
begin

text \<open>
  The logs of the leaders, term by term, and what follows from how leaders are elected. A history maps every
  term that had a leader to that leader's log, compacted entries included; acknowledgements record which
  server had stored which prefix of which leader's log. An entry of a leader's own term that a majority has
  acknowledged is chosen, and every later leader has it: leader completeness.
\<close>

section \<open>Lists that agree on a range\<close>

definition agree :: "nat \<Rightarrow> nat \<Rightarrow> 'a list \<Rightarrow> 'a list \<Rightarrow> bool" where
  "agree a k xs ys \<longleftrightarrow> k \<le> length xs \<and> k \<le> length ys \<and> (\<forall>j. a \<le> j \<and> j < k \<longrightarrow> xs ! j = ys ! j)"

lemma agree_refl: "k \<le> length xs \<Longrightarrow> agree a k xs xs"
  by (simp add: agree_def)

lemma agree_sym: "agree a k xs ys \<Longrightarrow> agree a k ys xs"
  by (simp add: agree_def)

lemma agree_trans: "agree a k xs ys \<Longrightarrow> agree a k ys zs \<Longrightarrow> agree a k xs zs"
  by (simp add: agree_def)

lemma agree_mono: "agree a k xs ys \<Longrightarrow> a \<le> a' \<Longrightarrow> k' \<le> k \<Longrightarrow> agree a' k' xs ys"
  by (auto simp: agree_def)

lemma agree_nth: "agree a k xs ys \<Longrightarrow> a \<le> j \<Longrightarrow> j < k \<Longrightarrow> xs ! j = ys ! j"
  by (simp add: agree_def)

lemma agree_append: "agree a k xs ys \<Longrightarrow> agree a k xs (ys @ zs)"
  by (auto simp: agree_def nth_append)

lemma agree_take: "k \<le> n \<Longrightarrow> n \<le> length ys \<Longrightarrow> agree a k xs (take n ys) \<longleftrightarrow> agree a k xs ys"
  by (auto simp: agree_def)

lemma agree_zero: "agree 0 k xs ys \<longleftrightarrow> k \<le> length xs \<and> k \<le> length ys \<and> take k xs = take k ys"
proof
  assume "k \<le> length xs \<and> k \<le> length ys \<and> take k xs = take k ys"
  then show "agree 0 k xs ys" unfolding agree_def by (metis nth_take)
qed (auto simp: agree_def intro: nth_take_lemma)

lemma agree_parts: "agree 0 a xs ys \<Longrightarrow> agree a k xs ys \<Longrightarrow> agree 0 k xs ys"
  by (auto simp: agree_def) (metis not_le)

section \<open>Histories\<close>

type_synonym 'c leaders = "int \<Rightarrow> 'c LogEntry list option"
type_synonym acks = "(nat \<times> int \<times> nat) set"

definition leaderLogs :: "'c leaders \<Rightarrow> bool" where
  "leaderLogs L \<longleftrightarrow> (\<forall>T l. L T = Some l \<longrightarrow> 1 \<le> T \<and>
     (\<forall>j < length l. Term (l ! j) \<le> T \<and> (\<exists>l'. L (Term (l ! j)) = Some l' \<and> agree 0 (Suc j) l l')))"

definition sourced :: "'c leaders \<Rightarrow> nat \<Rightarrow> 'c LogEntry list \<Rightarrow> bool" where
  "sourced L a F \<longleftrightarrow> (\<forall>j. a \<le> j \<and> j < length F \<longrightarrow> (\<exists>l. L (Term (F ! j)) = Some l \<and> agree a (Suc j) F l))"

definition lastOf :: "'c LogEntry list \<Rightarrow> int \<times> nat" where
  "lastOf F = (if F = [] then (0, 0) else (Term (last F), length F))"

text \<open>The order in which logs are compared when a vote is asked for.\<close>

definition lastGe :: "int \<times> nat \<Rightarrow> int \<Rightarrow> nat \<Rightarrow> bool" where
  "lastGe p t n \<longleftrightarrow> t < fst p \<or> t = fst p \<and> n \<le> snd p"

definition missing :: "'c leaders \<Rightarrow> int \<Rightarrow> nat \<Rightarrow> int \<Rightarrow> bool" where
  "missing L t n T \<longleftrightarrow> (\<exists>l l'. L t = Some l \<and> L T = Some l' \<and> \<not> agree 0 n l l')"

text \<open>Server \<^verbatim>\<open>p\<close> has acknowledged the entry with index \<^verbatim>\<open>n\<close> of the leader of term \<^verbatim>\<open>t\<close>, an entry of that term.\<close>

definition acked :: "'c leaders \<Rightarrow> acks \<Rightarrow> nat \<Rightarrow> int \<Rightarrow> nat \<Rightarrow> bool" where
  "acked L A p t n \<longleftrightarrow> (\<exists>l m. L t = Some l \<and> (p, t, m) \<in> A \<and> 1 \<le> n \<and> n \<le> m \<and> m \<le> length l \<and> Term (l ! (n - 1)) = t)"

definition majorityOf :: "nat \<Rightarrow> nat set \<Rightarrow> bool" where
  "majorityOf N Q \<longleftrightarrow> Q \<subseteq> {..<N} \<and> N < 2 * card Q"

definition chosen :: "nat \<Rightarrow> 'c leaders \<Rightarrow> acks \<Rightarrow> int \<Rightarrow> nat \<Rightarrow> bool" where
  "chosen N L A t n \<longleftrightarrow> (\<exists>Q. majorityOf N Q \<and> (\<forall>p\<in>Q. acked L A p t n))"

definition committed :: "nat \<Rightarrow> 'c leaders \<Rightarrow> acks \<Rightarrow> int \<Rightarrow> 'c LogEntry list \<Rightarrow> bool" where
  "committed N L A t xs \<longleftrightarrow> xs = [] \<or>
     (\<exists>t' n l. t' \<le> t \<and> chosen N L A t' n \<and> L t' = Some l \<and> length xs \<le> n \<and> agree 0 (length xs) xs l)"

text \<open>A position that can stand at the end of a log.\<close>

definition realLast :: "'c leaders \<Rightarrow> int \<times> nat \<Rightarrow> bool" where
  "realLast L p \<longleftrightarrow> p = (0, 0) \<or> (\<exists>l. L (fst p) = Some l \<and> 1 \<le> snd p \<and> snd p \<le> length l \<and> Term (l ! (snd p - 1)) = fst p)"

text \<open>
  How the leader of a term came to be: a majority voted for a log that ends at \<^verbatim>\<open>p\<close>; each voter had found it at
  least as good as every entry that it had acknowledged and that no leader in between has dropped.
\<close>

definition electedBy :: "nat \<Rightarrow> 'c leaders \<Rightarrow> acks \<Rightarrow> int \<Rightarrow> nat set \<Rightarrow> int \<times> nat \<Rightarrow> 'c LogEntry list \<Rightarrow> bool" where
  "electedBy N L A T V p l \<longleftrightarrow> majorityOf N V \<and> fst p < T \<and> realLast L p \<and>
     (\<forall>l'. L (fst p) = Some l' \<longrightarrow> agree 0 (snd p) l' l) \<and>
     (\<forall>v\<in>V. \<forall>t n. acked L A v t n \<and> t < T \<longrightarrow> (\<exists>T'. t < T' \<and> T' < T \<and> missing L t n T') \<or> lastGe p t n)"

lemma electedBy_voter:
  assumes "electedBy N L A T V p l"
  obtains v where "v \<in> V"
  using assms by (cases "V = {}") (auto simp: electedBy_def majorityOf_def)

definition electionsOk :: "nat \<Rightarrow> 'c leaders \<Rightarrow> acks \<Rightarrow> bool" where
  "electionsOk N L A \<longleftrightarrow> leaderLogs L \<and> (\<forall>T l. L T = Some l \<longrightarrow> (\<exists>V p. electedBy N L A T V p l))"

section \<open>Terms grow along a leader's log\<close>

lemma leader_term_pos: "leaderLogs L \<Longrightarrow> L T = Some l \<Longrightarrow> 1 \<le> T"
  by (simp add: leaderLogs_def)

lemma leader_term_le: "leaderLogs L \<Longrightarrow> L T = Some l \<Longrightarrow> j < length l \<Longrightarrow> Term (l ! j) \<le> T"
  by (simp add: leaderLogs_def)

lemma leader_source:
  assumes "leaderLogs L" "L T = Some l" "j < length l"
  obtains l' where "L (Term (l ! j)) = Some l'" "agree 0 (Suc j) l l'"
  using assms unfolding leaderLogs_def by blast

lemma leader_terms_mono:
  assumes "leaderLogs L" "L T = Some l" "i \<le> j" "j < length l"
  shows "Term (l ! i) \<le> Term (l ! j)"
proof -
  obtain l' where l': "L (Term (l ! j)) = Some l'" "agree 0 (Suc j) l l'" using leader_source [OF assms(1,2,4)] .
  then have "i < length l'" "l ! i = l' ! i" using assms(3) by (auto simp: agree_def)
  then show ?thesis using leader_term_le [OF assms(1) l'(1), of i] by simp
qed

interpretation majorities: quorum_system "{..<N}" "majorityOf N" for N
proof
  fix Q R assume "majorityOf N Q" "majorityOf N R" "Q \<subseteq> {..<N}" "R \<subseteq> {..<N}"
  then show "Q \<inter> R \<noteq> {}" by (intro card_sum_meet [of "{..<N}"]) (auto simp: majorityOf_def)
qed

lemma majority_meet:
  assumes "majorityOf N Q" "majorityOf N R"
  obtains p where "p \<in> Q" "p \<in> R" "p < N"
  using majorities.quorums_share [OF assms] assms by (auto simp: majorityOf_def)

lemma chosen_leader:
  assumes "chosen N L A t n"
  obtains l where "L t = Some l" "1 \<le> n" "n \<le> length l" "Term (l ! (n - 1)) = t"
proof -
  obtain Q where Q: "majorityOf N Q" "\<forall>p\<in>Q. acked L A p t n" using assms by (auto simp: chosen_def)
  then obtain p where "p \<in> Q" by (cases "Q = {}") (auto simp: majorityOf_def)
  then show ?thesis using Q(2) that by (fastforce simp: acked_def)
qed

section \<open>Leader completeness\<close>

lemma last_beyond:
  assumes L: "leaderLogs L" and \<tau>: "L \<tau> = Some l'" "1 \<le> m" "m \<le> length l'" "Term (l' ! (m - 1)) = \<tau>" and t: "t < \<tau>"
    and n: "L t = Some l" "1 \<le> n" "Term (l ! (n - 1)) = t" "agree 0 n l l'"
  shows "n < m"
proof (rule ccontr)
  assume "\<not> n < m"
  then have "Term (l' ! (m - 1)) \<le> Term (l' ! (n - 1))"
    using n(2,4) \<tau>(2) by (intro leader_terms_mono [OF L \<tau>(1)]) (auto simp: agree_def)
  moreover have "l' ! (n - 1) = l ! (n - 1)" using n(2,4) by (auto simp: agree_def)
  ultimately show False using \<tau>(4) n(3) t by simp
qed

lemma leader_completeness:
  assumes E: "electionsOk N L A" and c: "chosen N L A t n" and l: "L t = Some l"
  shows "L T = Some l' \<Longrightarrow> t < T \<Longrightarrow> agree 0 n l l'"
proof (induction "nat T" arbitrary: T l' rule: less_induct)
  case less
  have L: "leaderLogs L" using E by (simp add: electionsOk_def)
  have n: "1 \<le> n" "n \<le> length l" "Term (l ! (n - 1)) = t" using chosen_leader [OF c] l by auto
  have t: "1 \<le> t" using leader_term_pos [OF L l] .
  obtain V p where V: "electedBy N L A T V p l'" using E less.prems(1) unfolding electionsOk_def by blast
  obtain Q where Q: "majorityOf N Q" "\<forall>v\<in>Q. acked L A v t n" using c by (auto simp: chosen_def)
  obtain v where v: "v \<in> Q" "v \<in> V" using majority_meet Q(1) V unfolding electedBy_def by metis
  have IH: "agree 0 n l l''" if "L T' = Some l''" "t < T'" "T' < T" for T' l''
    using that t by (intro less.hyps) auto
  have "\<not> missing L t n T'" if "t < T'" "T' < T" for T'
    using IH that l by (auto simp: missing_def)
  then have ge: "lastGe p t n" using V v Q(2) less.prems(2) unfolding electedBy_def by blast
  have p: "fst p < T" "realLast L p" "\<forall>l''. L (fst p) = Some l'' \<longrightarrow> agree 0 (snd p) l'' l'"
    using V by (auto simp: electedBy_def)
  have "p \<noteq> (0, 0)" using ge t by (auto simp: lastGe_def)
  then obtain l'' where l'': "L (fst p) = Some l''" "1 \<le> snd p" "snd p \<le> length l''" "Term (l'' ! (snd p - 1)) = fst p"
    using p(2) by (auto simp: realLast_def)
  have ag: "agree 0 (snd p) l'' l'" using p(3) l''(1) by blast
  show ?case
  proof (cases "t = fst p")
    case True
    then show ?thesis using ag l l''(1) ge by (auto simp: lastGe_def intro: agree_mono)
  next
    case False
    then have lt: "t < fst p" using ge by (auto simp: lastGe_def)
    have a: "agree 0 n l l''" using IH [OF l''(1) lt p(1)] .
    have "n < snd p" by (rule last_beyond [OF L l'' lt l n(1,3) a])
    then show ?thesis using agree_trans [OF a] agree_mono [OF ag, of 0 n] by simp
  qed
qed

lemma chosen_in_leader:
  assumes "electionsOk N L A" "chosen N L A t n" "L t = Some l" "L T = Some l'" "t \<le> T"
  shows "agree 0 n l l'"
proof (cases "t = T")
  case True
  then show ?thesis using assms chosen_leader [OF assms(2)] by (metis agree_refl option.inject)
qed (use leader_completeness [OF assms(1-4)] assms(5) in simp)

lemma committed_in_leader:
  assumes "electionsOk N L A" "committed N L A t xs" "L T = Some l'" "t \<le> T"
  shows "agree 0 (length xs) xs l'"
proof (cases "xs = []")
  case False
  then obtain t' n l where c: "t' \<le> t" "chosen N L A t' n" "L t' = Some l" "length xs \<le> n" "agree 0 (length xs) xs l"
    using assms(2) by (auto simp: committed_def)
  have "agree 0 n l l'" using chosen_in_leader [OF assms(1) c(2,3) assms(3)] c(1) assms(4) by simp
  then show ?thesis using c(4,5) by (meson agree_mono agree_trans le_refl)
qed (simp add: agree_def)

lemma committed_agree:
  assumes "electionsOk N L A" "committed N L A t xs" "committed N L A t' ys" "length xs \<le> length ys"
  shows "agree 0 (length xs) xs ys"
proof (cases "xs = []")
  case False
  then obtain t1 n1 l1 where c1: "t1 \<le> t" "chosen N L A t1 n1" "L t1 = Some l1" "length xs \<le> n1" "agree 0 (length xs) xs l1"
    using assms(2) by (auto simp: committed_def)
  obtain t2 n2 l2 where c2: "t2 \<le> t'" "chosen N L A t2 n2" "L t2 = Some l2" "length ys \<le> n2" "agree 0 (length ys) ys l2"
    using False assms(3,4) by (auto simp: committed_def)
  consider "t1 \<le> t2" | "t2 \<le> t1" by linarith
  then have "agree 0 (length xs) l1 l2"
  proof cases
    case 1
    then show ?thesis using agree_mono [OF chosen_in_leader [OF assms(1) c1(2,3) c2(3) 1], of 0 "length xs"] c1(4) by simp
  next
    case 2
    then show ?thesis using agree_sym [OF agree_mono [OF chosen_in_leader [OF assms(1) c2(2,3) c1(3) 2], of 0 "length xs"]] c2(4) assms(4) by simp
  qed
  then have "agree 0 (length xs) xs l2" using agree_trans [OF c1(5)] by blast
  moreover have "agree 0 (length xs) l2 ys" using agree_sym [OF agree_mono [OF c2(5), of 0 "length xs"]] assms(4) by simp
  ultimately show ?thesis by (rule agree_trans)
qed (simp add: agree_def)

section \<open>Histories grow\<close>

text \<open>A leader only appends entries of its own term, and new terms may get a leader.\<close>

definition grows :: "'c leaders \<Rightarrow> 'c leaders \<Rightarrow> bool" where
  "grows L L' \<longleftrightarrow> (\<forall>T l. L T = Some l \<longrightarrow> (\<exists>es. L' T = Some (l @ es) \<and> (\<forall>e\<in>set es. Term e = T)))"

lemma grows_refl [simp]: "grows L L"
  by (auto simp: grows_def intro: exI [of _ "[]"])

lemma growsE:
  assumes "grows L L'" "L T = Some l"
  obtains es where "L' T = Some (l @ es)" "\<forall>e\<in>set es. Term e = T"
  using assms unfolding grows_def by blast

lemma grows_trans:
  assumes "grows L L1" "grows L1 L2"
  shows "grows L L2"
  unfolding grows_def
proof (intro allI impI)
  fix T l assume "L T = Some l"
  then obtain es where es: "L1 T = Some (l @ es)" "\<forall>e\<in>set es. Term e = T" using growsE [OF assms(1)] by blast
  obtain es' where "L2 T = Some ((l @ es) @ es')" "\<forall>e\<in>set es'. Term e = T" using growsE [OF assms(2) es(1)] .
  then show "\<exists>es. L2 T = Some (l @ es) \<and> (\<forall>e\<in>set es. Term e = T)" using es(2) by (intro exI [of _ "es @ es'"]) auto
qed

lemma missing_grows:
  assumes g: "grows L L'" and t: "L t = Some l" "1 \<le> n" "n \<le> length l" "Term (l ! (n - 1)) = t" "t \<noteq> T"
    and m: "missing L t n T"
  shows "missing L' t n T"
proof -
  obtain l' where l': "L T = Some l'" "\<not> agree 0 n l l'" using m t(1) by (auto simp: missing_def)
  obtain es where es: "L' t = Some (l @ es)" using growsE [OF g t(1)] .
  obtain es' where es': "L' T = Some (l' @ es')" "\<forall>e\<in>set es'. Term e = T" using growsE [OF g l'(1)] .
  have "\<not> agree 0 n (l @ es) (l' @ es')"
  proof
    assume a: "agree 0 n (l @ es) (l' @ es')"
    show False
    proof (cases "n \<le> length l'")
      case True
      then have "l ! j = l' ! j" if "j < n" for j using agree_nth [OF a, of j] that t(3) by (simp add: nth_append)
      then show False using l'(2) True t(3) by (auto simp: agree_def)
    next
      case False
      have "n \<le> length l' + length es'" using a by (simp add: agree_def)
      then have "n - 1 - length l' < length es'" using False t(2) by linarith
      then have "Term (es' ! (n - 1 - length l')) = T" using es'(2) by simp
      moreover have "n - 1 < length l" "\<not> n - 1 < length l'" using t(2,3) False by linarith+
      then have "l ! (n - 1) = es' ! (n - 1 - length l')"
        using agree_nth [OF a, of "n - 1"] t(2) by (simp only: nth_append) simp
      ultimately show False using t(4,5) by simp
    qed
  qed
  then show ?thesis using es es'(1) by (auto simp: missing_def)
qed

lemma acked_grows:
  assumes "acked L A p t n" "grows L L'" "A \<subseteq> A'"
  shows "acked L' A' p t n"
proof -
  obtain l m where l: "L t = Some l" "(p, t, m) \<in> A" "1 \<le> n" "n \<le> m" "m \<le> length l" "Term (l ! (n - 1)) = t"
    using assms(1) unfolding acked_def by blast
  obtain es where "L' t = Some (l @ es)" using growsE [OF assms(2) l(1)] .
  then show ?thesis using l assms(3) unfolding acked_def
    by (intro exI [of _ "l @ es"] exI [of _ m]) (auto simp: nth_append)
qed

lemma chosen_grows: "chosen N L A t n \<Longrightarrow> grows L L' \<Longrightarrow> A \<subseteq> A' \<Longrightarrow> chosen N L' A' t n"
  unfolding chosen_def by (meson acked_grows)

lemma committed_grows:
  assumes "committed N L A t xs" "grows L L'" "A \<subseteq> A'" "t \<le> t'"
  shows "committed N L' A' t' xs"
proof (cases "xs = []")
  case False
  then obtain t1 n l where c: "t1 \<le> t" "chosen N L A t1 n" "L t1 = Some l" "length xs \<le> n" "agree 0 (length xs) xs l"
    using assms(1) by (auto simp: committed_def)
  obtain es where "L' t1 = Some (l @ es)" using growsE [OF assms(2) c(3)] .
  then show ?thesis using c assms(4) chosen_grows [OF c(2) assms(2,3)] agree_append [OF c(5)]
    unfolding committed_def by (meson order_trans)
qed (simp add: committed_def)

lemma sourced_grows:
  assumes "sourced L a F" "grows L L'" "a \<le> a'"
  shows "sourced L' a' F"
  unfolding sourced_def
proof (intro allI impI)
  fix j assume j: "a' \<le> j \<and> j < length F"
  then obtain l where l: "L (Term (F ! j)) = Some l" "agree a (Suc j) F l" using assms(1,3) unfolding sourced_def by (meson order_trans)
  obtain es where "L' (Term (F ! j)) = Some (l @ es)" using growsE [OF assms(2) l(1)] .
  then show "\<exists>l. L' (Term (F ! j)) = Some l \<and> agree a' (Suc j) F l"
    using agree_append [OF agree_mono [OF l(2) assms(3) le_refl]] by blast
qed

lemma realLast_grows:
  assumes "realLast L p" "grows L L'"
  shows "realLast L' p"
proof (cases "p = (0, 0)")
  case False
  then obtain l where l: "L (fst p) = Some l" "1 \<le> snd p" "snd p \<le> length l" "Term (l ! (snd p - 1)) = fst p"
    using assms(1) unfolding realLast_def by blast
  obtain es where "L' (fst p) = Some (l @ es)" using growsE [OF assms(2) l(1)] .
  then show ?thesis using l unfolding realLast_def by (intro disjI2 exI [of _ "l @ es"]) (auto simp: nth_append)
qed (simp add: realLast_def)

lemma committed_mono: "committed N L A t xs \<Longrightarrow> t \<le> t' \<Longrightarrow> committed N L A t' xs"
  using committed_grows [of N L A t xs L A t'] by simp

lemma committed_prefix:
  assumes "committed N L A t xs" "k \<le> length xs"
  shows "committed N L A t (take k xs)"
proof (cases "take k xs = []")
  case False
  then obtain t1 n l where c: "t1 \<le> t" "chosen N L A t1 n" "L t1 = Some l" "length xs \<le> n" "agree 0 (length xs) xs l"
    using assms(1) by (auto simp: committed_def)
  have "agree 0 k (take k xs) l" using c(5) assms(2) by (auto simp: agree_def)
  then show ?thesis using c assms(2) unfolding committed_def
    by (intro disjI2 exI [of _ t1] exI [of _ n] exI [of _ l]) simp
qed (simp add: committed_def)

lemma committed_take:
  assumes "committed N L A t (take k xs)" "k \<noteq> 0" "k \<le> length xs"
  obtains t' n l where "t' \<le> t" "chosen N L A t' n" "L t' = Some l" "k \<le> n" "agree 0 k (take k xs) l"
proof -
  have k: "length (take k xs) = k" using assms(3) by simp
  then have "take k xs \<noteq> []" using assms(2) by auto
  then show ?thesis using assms(1) that unfolding committed_def k by blast
qed

text \<open>Acknowledgements of a leader's entries only; a voter's old acknowledgements stay the same.\<close>

definition acksOk :: "'c leaders \<Rightarrow> acks \<Rightarrow> bool" where
  "acksOk L A \<longleftrightarrow> (\<forall>p t m. (p, t, m) \<in> A \<longrightarrow> (\<exists>l. L t = Some l \<and> m \<le> length l))"

lemma acked_shrink:
  assumes "acked L' A' p t n" "acksOk L A" "grows L L'" "\<And>m. (p, t, m) \<in> A' \<Longrightarrow> (p, t, m) \<in> A"
  shows "acked L A p t n"
proof -
  obtain l' m where l': "L' t = Some l'" "(p, t, m) \<in> A'" "1 \<le> n" "n \<le> m" "Term (l' ! (n - 1)) = t"
    using assms(1) unfolding acked_def by blast
  have m: "(p, t, m) \<in> A" using assms(4) l'(2) .
  obtain l where l: "L t = Some l" "m \<le> length l" using assms(2) m unfolding acksOk_def by blast
  obtain es where "L' t = Some (l @ es)" using growsE [OF assms(3) l(1)] .
  then have "l' ! (n - 1) = l ! (n - 1)" using l' l(2) by (simp add: nth_append)
  then show ?thesis using l l' m unfolding acked_def by (intro exI [of _ l] exI [of _ m]) auto
qed

lemma acked_missing_grows:
  assumes "acked L A p t n" "grows L L'" "missing L t n T" "t < T"
  shows "missing L' t n T"
proof -
  obtain l m where "L t = Some l" "1 \<le> n" "n \<le> m" "m \<le> length l" "Term (l ! (n - 1)) = t"
    using assms(1) unfolding acked_def by blast
  then show ?thesis using missing_grows [OF assms(2), of t l n T] assms(3,4) by auto
qed

lemma electedBy_grows:
  assumes e: "electedBy N L A T V p l" and g: "grows L L'" "A \<subseteq> A'" "acksOk L A"
    and old: "\<And>v t m. v \<in> V \<Longrightarrow> (v, t, m) \<in> A' \<Longrightarrow> t < T \<Longrightarrow> (v, t, m) \<in> A"
  shows "electedBy N L' A' T V p (l @ es)"
proof -
  have "(\<exists>T'. t < T' \<and> T' < T \<and> missing L' t n T') \<or> lastGe p t n"
    if "v \<in> V" "acked L' A' v t n" "t < T" for v t n
  proof -
    have a: "acked L A v t n" using acked_shrink [OF that(2) g(3,1)] old that(1,3) by blast
    then have "(\<exists>T'. t < T' \<and> T' < T \<and> missing L t n T') \<or> lastGe p t n"
      using e that(1,3) unfolding electedBy_def by blast
    then show ?thesis using acked_missing_grows [OF a g(1)] by blast
  qed
  moreover have "agree 0 (snd p) l' (l @ es)" if l': "L' (fst p) = Some l'" for l'
  proof (cases "p = (0, 0)")
    case False
    then obtain l0 where l0: "L (fst p) = Some l0" "agree 0 (snd p) l0 l"
      using e unfolding electedBy_def realLast_def by blast
    obtain es0 where "L' (fst p) = Some (l0 @ es0)" using growsE [OF g(1) l0(1)] .
    then show ?thesis using l' agree_append [OF agree_sym [OF agree_append [OF agree_sym [OF l0(2)], of es0]], of es] by simp
  qed (simp add: agree_def)
  ultimately show ?thesis using e realLast_grows [OF _ g(1)] unfolding electedBy_def by blast
qed

text \<open>An entry of a leader appended by that leader.\<close>

lemma leaderLogs_append:
  assumes "leaderLogs L" "L T = Some l" "Term e = T"
  shows "leaderLogs (L(T \<mapsto> l @ [e]))" "grows L (L(T \<mapsto> l @ [e]))"
proof -
  show g: "grows L (L(T \<mapsto> l @ [e]))"
    using assms(2,3) unfolding grows_def by (auto intro: exI [of _ "[]"])
  show "leaderLogs (L(T \<mapsto> l @ [e]))"
    unfolding leaderLogs_def
  proof (intro allI impI conjI)
    fix T' l' j assume l': "(L(T \<mapsto> l @ [e])) T' = Some l'"
    obtain l0 where l0: "L T' = Some l0" using l' assms(2) by (auto split: if_splits)
    show "1 \<le> T'" using leader_term_pos [OF assms(1) l0] .
    assume j: "j < length l'"
    have "Term (l' ! j) \<le> T' \<and> (\<exists>l''. (L(T \<mapsto> l @ [e])) (Term (l' ! j)) = Some l'' \<and> agree 0 (Suc j) l' l'')"
    proof (cases "j < length l0")
      case True
      then have eq: "l' ! j = l0 ! j" using l' l0 assms(2) by (auto simp: nth_append split: if_splits)
      have le: "Term (l' ! j) \<le> T'" using leader_term_le [OF assms(1) l0 True] eq by simp
      obtain l1 where l1: "L (Term (l0 ! j)) = Some l1" "agree 0 (Suc j) l0 l1" using leader_source [OF assms(1) l0 True] .
      obtain es where es: "(L(T \<mapsto> l @ [e])) (Term (l0 ! j)) = Some (l1 @ es)" using growsE [OF g l1(1)] .
      have "agree 0 (Suc j) l' l0" using True l' l0 assms(2) by (auto simp: agree_def nth_append split: if_splits)
      then have "agree 0 (Suc j) l' (l1 @ es)" using agree_trans [OF _ agree_append [OF l1(2)]] by blast
      then show ?thesis using es eq le by metis
    next
      case False
      then have "T' = T" "l' = l @ [e]" "j = length l" using l' l0 j assms(2) by (auto split: if_splits)
      then show ?thesis using assms(3) by (auto simp: agree_refl)
    qed
    then show "Term (l' ! j) \<le> T'" "\<exists>l''. (L(T \<mapsto> l @ [e])) (Term (l' ! j)) = Some l'' \<and> agree 0 (Suc j) l' l''" by simp_all
  qed
qed

text \<open>A new leader whose log is a prefix of an earlier leader's.\<close>

lemma leaderLogs_new:
  assumes "leaderLogs L" "L T = None" "1 \<le> T" "l = [] \<or> (\<exists>T' l'. T' < T \<and> L T' = Some l' \<and> agree 0 (length l) l l')"
  shows "leaderLogs (L(T \<mapsto> l))" "grows L (L(T \<mapsto> l))"
proof -
  show g: "grows L (L(T \<mapsto> l))" using assms(2) unfolding grows_def by (auto intro: exI [of _ "[]"])
  show "leaderLogs (L(T \<mapsto> l))"
    unfolding leaderLogs_def
  proof (intro allI impI conjI)
    fix T' l' j assume l': "(L(T \<mapsto> l)) T' = Some l'"
    show "1 \<le> T'" using l' assms(3) leader_term_pos [OF assms(1)] by (auto split: if_splits)
    assume j: "j < length l'"
    obtain T0 l0 where l0: "T0 \<le> T'" "L T0 = Some l0" "agree 0 (length l') l' l0"
    proof (cases "T' = T")
      case True
      then have l: "l' = l" "l \<noteq> []" using l' j by auto
      then obtain T1 l1 where "T1 < T" "L T1 = Some l1" "agree 0 (length l) l l1" using assms(4) by blast
      then show ?thesis using that [of T1 l1] l(1) True by simp
    next
      case False
      then show ?thesis using l' that [of T' l'] by (simp add: agree_refl)
    qed
    have j0: "j < length l0" "l' ! j = l0 ! j" using l0(3) j by (auto simp: agree_def)
    show "Term (l' ! j) \<le> T'" using leader_term_le [OF assms(1) l0(2) j0(1)] j0(2) l0(1) by simp
    obtain l1 where l1: "L (Term (l0 ! j)) = Some l1" "agree 0 (Suc j) l0 l1" using leader_source [OF assms(1) l0(2) j0(1)] .
    then have "Term (l0 ! j) \<noteq> T" using assms(2) by auto
    moreover have "agree 0 (Suc j) l' l0" using agree_mono [OF l0(3), of 0 "Suc j"] j by simp
    ultimately show "\<exists>l''. (L(T \<mapsto> l)) (Term (l' ! j)) = Some l'' \<and> agree 0 (Suc j) l' l''"
      using l1 j0(2) agree_trans by (metis fun_upd_other)
  qed
qed

end
