(* ===== verification/Raft_Safety_Inv.thy ===== *)
theory Raft_Safety_Inv
  imports Raft_Election Raft_Leaders
begin

text \<open>
  The invariant behind state machine safety of a Raft group. A history of the run (leaders' logs,
  acknowledgements, the servers' logs with the compacted part, the logs that candidates stood with) is kept
  beside the state; the invariant ties it to the servers and to the messages in flight.
\<close>

section \<open>Servers and their full logs\<close>

definition base :: "('c, 's) raft \<Rightarrow> nat" where
  "base rf = nat (lastIncludedIndex rf)"

text \<open>\<^verbatim>\<open>F\<close> is the log of the server with the entries that a snapshot replaced.\<close>

definition holdsLog :: "'c LogEntry list \<Rightarrow> ('c, 's) raft \<Rightarrow> bool" where
  "holdsLog F rf \<longleftrightarrow> lastIncludedIndex rf = int (base rf) \<and> base rf \<le> length F \<and> log rf = drop (base rf) F \<and>
     lastIncludedTerm rf = fst (lastOf (take (base rf) F))"

lemma lastOf_take: "0 < k \<Longrightarrow> k \<le> length F \<Longrightarrow> lastOf (take k F) = (Term (F ! (k - 1)), k)"
  by (auto simp: lastOf_def last_conv_nth)

lemma lastOf_nth: "F \<noteq> [] \<Longrightarrow> lastOf F = (Term (F ! (length F - 1)), length F)"
  by (simp add: lastOf_def last_conv_nth)

lemma lastOf_Nil [simp]: "lastOf [] = (0, 0)"
  by (simp add: lastOf_def)

lemma snd_lastOf [simp]: "snd (lastOf F) = length F"
  by (simp add: lastOf_def)

lemma holds_lastLogIndex: "holdsLog F rf \<Longrightarrow> lastLogIndex rf = int (length F)"
  by (auto simp: holdsLog_def lastLogIndex_def)

lemma holds_lastLogTerm:
  assumes "holdsLog F rf"
  shows "lastLogTerm rf = fst (lastOf F)"
proof (cases "base rf = length F")
  case False
  then have "log rf \<noteq> []" "F \<noteq> []" using assms by (auto simp: holdsLog_def)
  then have "log rf ! (length (log rf) - 1) = F ! (length F - 1)"
    using assms False by (auto simp: holdsLog_def)
  then show ?thesis using \<open>log rf \<noteq> []\<close> \<open>F \<noteq> []\<close> by (simp add: lastLogTerm_def lastOf_nth)
qed (use assms in \<open>auto simp: holdsLog_def lastLogTerm_def\<close>)

lemma holds_termAt:
  assumes "holdsLog F rf" "base rf \<le> k" "k \<le> length F"
  shows "termAt rf (int k) = fst (lastOf (take k F))"
proof (cases "k = base rf")
  case False
  then have k: "base rf < k" using assms(2) by simp
  then have "log rf ! (k - base rf - 1) = F ! (k - 1)" using assms by (auto simp: holdsLog_def)
  moreover have "nat (int k - int (base rf) - 1) = k - base rf - 1" by arith
  ultimately show ?thesis using assms k lastOf_take [of k F]
    by (auto simp: termAt_def toSliceIndex_def holdsLog_def Let_def)
qed (use assms in \<open>simp add: termAt_def holdsLog_def\<close>)

lemma holds_termAt_beyond: "holdsLog F rf \<Longrightarrow> int (length F) < k \<Longrightarrow> termAt rf k = -1"
  by (auto simp: termAt_def toSliceIndex_def holdsLog_def Let_def)

section \<open>The history\<close>

record 'c ghost =
  gL :: "'c leaders"
  gOwner :: "int \<Rightarrow> nat"
  gA :: acks
  gF :: "nat \<Rightarrow> 'c LogEntry list"
  gLast :: "nat \<Rightarrow> int \<Rightarrow> int \<times> nat"

abbreviation gCommitted :: "nat \<Rightarrow> 'c ghost \<Rightarrow> int \<Rightarrow> 'c LogEntry list \<Rightarrow> bool" where
  "gCommitted N g \<equiv> committed N (gL g) (gA g)"

definition serverOk :: "nat \<Rightarrow> 'c ghost \<Rightarrow> nat \<Rightarrow> ('c, 's) raft \<Rightarrow> bool" where
  "serverOk N g i rf \<longleftrightarrow>
     holdsLog (gF g i) rf \<and> sourced (gL g) (base rf) (gF g i) \<and>
     (\<forall>e\<in>set (gF g i). Term e \<le> currentTerm rf) \<and> 0 \<le> currentTerm rf \<and>
     lastIncludedIndex rf \<le> commitIndex rf \<and> commitIndex rf \<le> int (length (gF g i)) \<and>
     gCommitted N g (currentTerm rf) (take (nat (commitIndex rf)) (gF g i))"

text \<open>What a leader of term \<^verbatim>\<open>t\<close> knows of a peer that holds its log up to index \<^verbatim>\<open>m\<close>.\<close>

definition matchOk :: "nat \<Rightarrow> 'c ghost \<Rightarrow> int \<Rightarrow> nat \<Rightarrow> int \<Rightarrow> bool" where
  "matchOk N g t p m \<longleftrightarrow> m \<le> 0 \<or> (\<exists>l. gL g t = Some l \<and> m \<le> int (length l) \<and>
     (Term (l ! (nat m - 1)) \<noteq> t \<or> acked (gL g) (gA g) p t (nat m) \<or> gCommitted N g t (take (nat m) l)))"

definition leaderOk :: "nat \<Rightarrow> 'c ghost \<Rightarrow> nat \<Rightarrow> ('c, 's) raft \<Rightarrow> bool" where
  "leaderOk N g i rf \<longleftrightarrow> (state rf = StateLeader \<longrightarrow>
     gL g (currentTerm rf) = Some (gF g i) \<and> gOwner g (currentTerm rf) = i \<and> length (matchIndex rf) = N \<and>
     (\<forall>p<N. p \<noteq> i \<longrightarrow> matchOk N g (currentTerm rf) p (matchIndex rf ! p)) \<and>
     (gF g i \<noteq> [] \<and> Term (last (gF g i)) = currentTerm rf \<longrightarrow> (i, currentTerm rf, length (gF g i)) \<in> gA g))"

definition candOk :: "'c ghost \<Rightarrow> nat \<Rightarrow> ('c, 's) raft \<Rightarrow> bool" where
  "candOk g i rf \<longleftrightarrow> (state rf = StateCandidate \<longrightarrow>
     1 \<le> currentTerm rf \<and>
     (gL g (currentTerm rf) \<noteq> None \<longrightarrow> gOwner g (currentTerm rf) \<noteq> i) \<and>
     (base rf < length (gF g i) \<longrightarrow> gLast g i (currentTerm rf) = lastOf (gF g i)) \<and>
     (base rf = length (gF g i) \<longrightarrow> snd (gLast g i (currentTerm rf)) \<le> base rf))"

text \<open>A server keeps what it acknowledged unless some later leader, of its term at most, does not have it.\<close>

definition keeps :: "'c ghost \<Rightarrow> nat \<Rightarrow> nat \<Rightarrow> int \<Rightarrow> nat \<Rightarrow> bool" where
  "keeps g i a t n \<longleftrightarrow> lastGe (lastOf (gF g i)) t n \<and> (\<forall>l. gL g t = Some l \<longrightarrow> agree a n (gF g i) l)"

definition ackOk :: "'c ghost \<Rightarrow> nat \<Rightarrow> ('c, 's) raft \<Rightarrow> bool" where
  "ackOk g i rf \<longleftrightarrow> (\<forall>t n. acked (gL g) (gA g) i t n \<longrightarrow> t \<le> currentTerm rf \<and>
     ((\<exists>T. t < T \<and> T \<le> currentTerm rf \<and> missing (gL g) t n T) \<or> keeps g i (base rf) t n))"

definition srvOk :: "nat \<Rightarrow> 'c ghost \<Rightarrow> nat \<Rightarrow> ('c, 's) raft \<Rightarrow> bool" where
  "srvOk N g i rf \<longleftrightarrow> serverOk N g i rf \<and> leaderOk N g i rf \<and> candOk g i rf \<and> ackOk g i rf"

definition voteOk :: "'c ghost \<Rightarrow> nat \<Rightarrow> int \<Rightarrow> nat \<Rightarrow> bool" where
  "voteOk g p T c \<longleftrightarrow> fst (gLast g c T) < T \<and> realLast (gL g) (gLast g c T) \<and>
     (\<forall>t n. acked (gL g) (gA g) p t n \<and> t < T \<longrightarrow>
        (\<exists>T'. t < T' \<and> T' \<le> T \<and> missing (gL g) t n T') \<or> lastGe (gLast g c T) t n)"

definition coreOk :: "nat \<Rightarrow> 'c ghost \<Rightarrow> (nat \<times> int \<times> nat) set \<Rightarrow> bool" where
  "coreOk N g gr \<longleftrightarrow> leaderLogs (gL g) \<and> acksOk (gL g) (gA g) \<and>
     (\<forall>T l. gL g T = Some l \<longrightarrow> (\<exists>V. electedBy N (gL g) (gA g) T V (gLast g (gOwner g T) T) l \<and>
        (\<forall>v\<in>V. (v, T, gOwner g T) \<in> gr))) \<and>
     (\<forall>p T c. (p, T, c) \<in> gr \<longrightarrow> voteOk g p T c \<and> (c, T, c) \<in> gr)"

text \<open>Messages\<close>

definition appOk :: "nat \<Rightarrow> 'c ghost \<Rightarrow> 'c AppendEntriesArgs \<Rightarrow> bool" where
  "appOk N g args \<longleftrightarrow> (\<exists>l. gL g (aea_Term args) = Some l \<and>
     (aea_PrevLogTerm args = -1 \<or>
      (\<exists>k. aea_PrevLogIndex args = int k \<and> k + length (aea_Entries args) \<le> length l \<and>
         aea_Entries args = take (length (aea_Entries args)) (drop k l) \<and>
         aea_PrevLogTerm args = fst (lastOf (take k l)) \<and>
         aea_LeaderCommit args \<le> int (k + length (aea_Entries args)) \<and>
         gCommitted N g (aea_Term args) (take (nat (aea_LeaderCommit args)) l))))"

definition snapOk :: "nat \<Rightarrow> 'c ghost \<Rightarrow> int \<Rightarrow> int \<Rightarrow> int \<Rightarrow> bool" where
  "snapOk N g t index lit \<longleftrightarrow>
     (\<exists>xs. index = int (length xs) \<and> lit = fst (lastOf xs) \<and> gCommitted N g t xs)"

fun msgOk :: "nat \<Rightarrow> 'c ghost \<Rightarrow> (nat \<Rightarrow> int) \<Rightarrow> (nat \<times> int \<times> nat) set \<Rightarrow> ('c, 's) msg \<Rightarrow> bool" where
  "msgOk N g cur gr (VoteReq i k j args) \<longleftrightarrow> (i, rva_Term args, i) \<in> gr \<and>
     gLast g i (rva_Term args) = (rva_LastLogTerm args, nat (rva_LastLogIndex args)) \<and> 0 \<le> rva_LastLogIndex args"
| "msgOk N g cur gr (VoteRep i k j args reply) \<longleftrightarrow> True"
| "msgOk N g cur gr (AppReq i k j args) \<longleftrightarrow> i < N \<and> j < N \<and> i \<noteq> j \<and> appOk N g args"
| "msgOk N g cur gr (AppRep i k j args reply) \<longleftrightarrow> i < N \<and> j < N \<and> i \<noteq> j \<and>
     (aer_Success reply \<longrightarrow> matchOk N g (aea_Term args) j (aea_PrevLogIndex args + int (length (aea_Entries args))))"
| "msgOk N g cur gr (SnapReq i k j args) \<longleftrightarrow> i < N \<and> j < N \<and> i \<noteq> j \<and>
     snapOk N g (isa_Term args) (isa_LastIncludedIndex args) (isa_LastIncludedTerm args)"
| "msgOk N g cur gr (SnapRep i k j args reply) \<longleftrightarrow> i < N \<and> j < N \<and> i \<noteq> j \<and>
     snapOk N g (isa_Term args) (isa_LastIncludedIndex args) (isa_LastIncludedTerm args)"
| "msgOk N g cur gr (ReplTask i k p) \<longleftrightarrow> i < N \<and> p < N \<and> p \<noteq> i"
| "msgOk N g cur gr (SnapMsg i k m) \<longleftrightarrow> i < N \<and> snapOk N g (cur i) (am_SnapshotIndex m) (am_SnapshotTerm m)"
| "msgOk N g cur gr (Batch i k b) \<longleftrightarrow> i < N"

definition raftInv :: "nat \<Rightarrow> 'c ghost \<Rightarrow> ('c, 's) cluster \<Rightarrow> bool" where
  "raftInv N g s \<longleftrightarrow> electionInv s \<and> nservers s = N \<and> coreOk N g (granted s) \<and>
     (\<forall>i<N. srvOk N g i (node s i)) \<and>
     (\<forall>m\<in>#net s. msgOk N g (\<lambda>i. currentTerm (node s i)) (granted s) m)"

lemma core_elections: "coreOk N g gr \<Longrightarrow> electionsOk N (gL g) (gA g)"
  unfolding coreOk_def electionsOk_def by blast

section \<open>What a growing history keeps\<close>

text \<open>Server \<^verbatim>\<open>i\<close> has made a step; \<^verbatim>\<open>t\<close> is its term before.\<close>

definition ghostGrow :: "nat \<Rightarrow> int \<Rightarrow> 'c ghost \<Rightarrow> 'c ghost \<Rightarrow> bool" where
  "ghostGrow i t g g' \<longleftrightarrow> grows (gL g) (gL g') \<and> gA g \<subseteq> gA g' \<and>
     (\<forall>p t' m. (p, t', m) \<in> gA g' \<and> (p, t', m) \<notin> gA g \<longrightarrow> p = i \<and> t \<le> t') \<and>
     (\<forall>j. j \<noteq> i \<longrightarrow> gF g' j = gF g j \<and> gLast g' j = gLast g j) \<and>
     (\<forall>T. gL g T \<noteq> None \<longrightarrow> gOwner g' T = gOwner g T) \<and>
     (\<forall>T. gL g' T \<noteq> gL g T \<longrightarrow> gOwner g' T = i)"

lemma ghostGrow_refl [simp]: "ghostGrow i t g g"
  by (simp add: ghostGrow_def)

lemma matchOk_grow:
  assumes "matchOk N g t p m" "grows (gL g) (gL g')" "gA g \<subseteq> gA g'"
  shows "matchOk N g' t p m"
proof (cases "m \<le> 0")
  case False
  then obtain l where l: "gL g t = Some l" "m \<le> int (length l)"
    "Term (l ! (nat m - 1)) \<noteq> t \<or> acked (gL g) (gA g) p t (nat m) \<or> gCommitted N g t (take (nat m) l)"
    using assms(1) unfolding matchOk_def by blast
  obtain es where "gL g' t = Some (l @ es)" using growsE [OF assms(2) l(1)] .
  moreover have "(l @ es) ! (nat m - 1) = l ! (nat m - 1)" "take (nat m) (l @ es) = take (nat m) l"
    using l(2) False by (simp_all add: nth_append)
  ultimately show ?thesis using l acked_grows [OF _ assms(2,3)] committed_grows [OF _ assms(2,3) order_refl]
    unfolding matchOk_def by (intro disjI2 exI [of _ "l @ es"]) auto
qed (simp add: matchOk_def)

lemma serverOk_grow:
  assumes "serverOk N g i rf" "grows (gL g) (gL g')" "gA g \<subseteq> gA g'" "gF g' i = gF g i"
  shows "serverOk N g' i rf"
  using assms(1,4) sourced_grows [OF _ assms(2) order_refl] committed_grows [OF _ assms(2,3) order_refl]
  by (auto simp: serverOk_def)

lemma ackOk_grow:
  assumes s: "ackOk g i rf" and A: "acksOk (gL g) (gA g)" and gr: "grows (gL g) (gL g')" and eq: "gF g' i = gF g i"
    and old: "\<And>t m. (i, t, m) \<in> gA g' \<Longrightarrow> (i, t, m) \<in> gA g"
  shows "ackOk g' i rf"
  unfolding ackOk_def
proof (intro allI impI)
  fix t n assume "acked (gL g') (gA g') i t n"
  then have a: "acked (gL g) (gA g) i t n" using acked_shrink [OF _ A gr] old by blast
  then have k: "t \<le> currentTerm rf" "(\<exists>T. t < T \<and> T \<le> currentTerm rf \<and> missing (gL g) t n T) \<or> keeps g i (base rf) t n"
    using s unfolding ackOk_def by blast+
  have "keeps g' i (base rf) t n" if "keeps g i (base rf) t n"
  proof -
    obtain l where l: "gL g t = Some l" using a unfolding acked_def by blast
    obtain es where "gL g' t = Some (l @ es)" using growsE [OF gr l] .
    then show ?thesis using that l eq agree_append unfolding keeps_def by auto
  qed
  then show "t \<le> currentTerm rf \<and> ((\<exists>T. t < T \<and> T \<le> currentTerm rf \<and> missing (gL g') t n T) \<or> keeps g' i (base rf) t n)"
    using k acked_missing_grows [OF a gr] by blast
qed

lemma srvOk_grow:
  assumes s: "srvOk N g j rf" and g: "ghostGrow i t g g'" and A: "acksOk (gL g) (gA g)" and ji: "j \<noteq> i"
  shows "srvOk N g' j rf"
proof -
  have gr: "grows (gL g) (gL g')" "gA g \<subseteq> gA g'" and eq: "gF g' j = gF g j" "gLast g' j = gLast g j"
    and own: "\<And>T. gL g T \<noteq> None \<Longrightarrow> gOwner g' T = gOwner g T" "\<And>T. gL g' T \<noteq> gL g T \<Longrightarrow> gOwner g' T = i"
    and old: "\<And>t m. (j, t, m) \<in> gA g' \<Longrightarrow> (j, t, m) \<in> gA g"
    using g ji unfolding ghostGrow_def by blast+
  have "leaderOk N g' j rf"
  proof (cases "state rf = StateLeader")
    case True
    then have l: "gL g (currentTerm rf) = Some (gF g j)" "gOwner g (currentTerm rf) = j"
      using s by (auto simp: srvOk_def leaderOk_def)
    have "gOwner g' (currentTerm rf) = j" using own(1) l by simp
    moreover have "gL g' (currentTerm rf) = gL g (currentTerm rf)" using own(2) calculation ji by blast
    ultimately show ?thesis using s True l eq matchOk_grow [OF _ gr] gr(2) unfolding srvOk_def leaderOk_def by auto
  qed (simp add: leaderOk_def)
  moreover have "candOk g' j rf"
    using s eq own ji unfolding srvOk_def candOk_def by metis
  ultimately show ?thesis using s serverOk_grow [where rf = rf, OF _ gr eq(1)] ackOk_grow [where rf = rf, OF _ A gr(1) eq(1) old]
    by (simp add: srvOk_def)
qed

lemma snapOk_grow:
  "snapOk N g t index lit \<Longrightarrow> grows (gL g) (gL g') \<Longrightarrow> gA g \<subseteq> gA g' \<Longrightarrow> t \<le> t' \<Longrightarrow> snapOk N g' t' index lit"
  using committed_grows [of N "gL g" "gA g" t _ "gL g'" "gA g'" t'] unfolding snapOk_def by blast

lemma appOk_grow:
  assumes "appOk N g args" "grows (gL g) (gL g')" "gA g \<subseteq> gA g'"
  shows "appOk N g' args"
proof -
  obtain l where l: "gL g (aea_Term args) = Some l" using assms(1) unfolding appOk_def by blast
  obtain es where es: "gL g' (aea_Term args) = Some (l @ es)" using growsE [OF assms(2) l] .
  show ?thesis
  proof (cases "aea_PrevLogTerm args = -1")
    case False
    then obtain k where k: "aea_PrevLogIndex args = int k" "k + length (aea_Entries args) \<le> length l"
      "aea_Entries args = take (length (aea_Entries args)) (drop k l)" "aea_PrevLogTerm args = fst (lastOf (take k l))"
      "aea_LeaderCommit args \<le> int (k + length (aea_Entries args))"
      "gCommitted N g (aea_Term args) (take (nat (aea_LeaderCommit args)) l)"
      using assms(1) l unfolding appOk_def by auto
    have "take (length (aea_Entries args)) (drop k (l @ es)) = take (length (aea_Entries args)) (drop k l)"
      "take k (l @ es) = take k l" "take (nat (aea_LeaderCommit args)) (l @ es) = take (nat (aea_LeaderCommit args)) l"
      using k(2,5) by simp_all
    then show ?thesis using k es committed_grows [OF k(6) assms(2,3) order_refl] unfolding appOk_def
      by (intro exI [of _ "l @ es"] conjI disjI2 exI [of _ k]) auto
  qed (use es in \<open>auto simp: appOk_def\<close>)
qed

lemma msgOk_grow:
  assumes m: "msgOk N g cur gr m" and g: "ghostGrow i t g g'" and last: "\<And>T. (i, T, i) \<in> gr \<Longrightarrow> gLast g' i T = gLast g i T"
    and gr': "gr \<subseteq> gr'" and cur: "\<And>j. j < N \<Longrightarrow> cur j \<le> cur' j"
  shows "msgOk N g' cur' gr' m"
proof -
  have gr: "grows (gL g) (gL g')" "gA g \<subseteq> gA g'" using g by (auto simp: ghostGrow_def)
  have "gLast g' j T = gLast g j T" if "(j, T, j) \<in> gr" for j T
    using that last g unfolding ghostGrow_def by (cases "j = i") auto
  then show ?thesis using m gr' appOk_grow [OF _ gr] matchOk_grow [OF _ gr] snapOk_grow [OF _ gr] snapOk_grow [OF _ gr order_refl] cur
    by (cases m) auto
qed

lemma coreOk_grow:
  assumes c: "coreOk N g gr" and g: "ghostGrow i (cur i) g g'" and last: "\<And>T. (i, T, i) \<in> gr \<Longrightarrow> gLast g' i T = gLast g i T"
    and L': "leaderLogs (gL g')" "acksOk (gL g') (gA g')" "\<And>T l'. gL g T = None \<Longrightarrow> gL g' T = Some l' \<Longrightarrow>
      \<exists>V. electedBy N (gL g') (gA g') T V (gLast g' (gOwner g' T) T) l' \<and> (\<forall>v\<in>V. (v, T, gOwner g' T) \<in> gr)"
    and cur: "\<And>p T c. (p, T, c) \<in> gr \<Longrightarrow> T \<le> cur p"
  shows "coreOk N g' gr"
proof -
  have gr: "grows (gL g) (gL g')" "gA g \<subseteq> gA g'" using g by (auto simp: ghostGrow_def)
  have A: "acksOk (gL g) (gA g)" using c by (simp add: coreOk_def)
  have self: "(c, T, c) \<in> gr" if "(p, T, c) \<in> gr" for p T c using c that unfolding coreOk_def by blast
  have last': "gLast g' c T = gLast g c T" if "(p, T, c) \<in> gr" for p T c
    using self [OF that] last g unfolding ghostGrow_def by (cases "c = i") auto
  have old: "(p, t, m) \<in> gA g" if "(p, T, c) \<in> gr" "(p, t, m) \<in> gA g'" "t < T" for p T c t m
    using that cur [OF that(1)] g unfolding ghostGrow_def by force
  have "\<exists>V. electedBy N (gL g') (gA g') T V (gLast g' (gOwner g' T) T) l' \<and> (\<forall>v\<in>V. (v, T, gOwner g' T) \<in> gr)"
    if l': "gL g' T = Some l'" for T l'
  proof (cases "gL g T")
    case None
    then show ?thesis using L'(3) l' by blast
  next
    case l: (Some l)
    obtain es where es: "gL g' T = Some (l @ es)" using growsE [OF gr(1) l] .
    obtain V where V: "electedBy N (gL g) (gA g) T V (gLast g (gOwner g T) T) l" "\<forall>v\<in>V. (v, T, gOwner g T) \<in> gr"
      using c l unfolding coreOk_def by blast
    have own: "gOwner g' T = gOwner g T" using g l unfolding ghostGrow_def by blast
    obtain v where "v \<in> V" using electedBy_voter [OF V(1)] .
    then have "gLast g' (gOwner g' T) T = gLast g (gOwner g T) T" using V(2) last' own by metis
    moreover have "electedBy N (gL g') (gA g') T V (gLast g (gOwner g T) T) (l @ es)"
      using electedBy_grows [OF V(1) gr A] old V(2) by blast
    ultimately show ?thesis using es l' V(2) own by auto
  qed
  moreover have "voteOk g' p T c" if pc: "(p, T, c) \<in> gr" for p T c
  proof -
    have v: "voteOk g p T c" using c pc unfolding coreOk_def by blast
    have "(\<exists>T'. t < T' \<and> T' \<le> T \<and> missing (gL g') t n T') \<or> lastGe (gLast g c T) t n"
      if "acked (gL g') (gA g') p t n" "t < T" for t n
    proof -
      have a: "acked (gL g) (gA g) p t n" using acked_shrink [OF that(1) A gr(1)] old [OF pc _ that(2)] by blast
      then show ?thesis using v that(2) acked_missing_grows [OF a gr(1)] unfolding voteOk_def by blast
    qed
    then show ?thesis using v last' [OF pc] realLast_grows [OF _ gr(1)] unfolding voteOk_def by auto
  qed
  ultimately show ?thesis using L'(1,2) self unfolding coreOk_def by blast
qed

section \<open>Putting a step together\<close>

lemma raftInv_step:
  assumes I: "raftInv N g s" and E: "electionInv s'" and s': "nservers s' = N" "node s' = (node s)(i := rf')" "granted s \<subseteq> granted s'"
    and i: "i < N" and g: "ghostGrow i (currentTerm (node s i)) g g'"
    and last: "\<And>T. (i, T, i) \<in> granted s \<Longrightarrow> gLast g' i T = gLast g i T"
    and core: "coreOk N g' (granted s')" and srv: "srvOk N g' i rf'" and up: "currentTerm (node s i) \<le> currentTerm rf'"
    and net: "\<And>m. m \<in># net s' \<Longrightarrow> m \<in># net s \<or> msgOk N g' (\<lambda>i. currentTerm (node s' i)) (granted s') m"
  shows "raftInv N g' s'"
proof -
  have A: "acksOk (gL g) (gA g)" using I by (simp add: raftInv_def coreOk_def)
  have "srvOk N g' j (node s' j)" if "j < N" for j
    using that I srv srvOk_grow [OF _ g A] s'(2) by (cases "j = i") (auto simp: raftInv_def)
  moreover have "msgOk N g' (\<lambda>i. currentTerm (node s' i)) (granted s') m" if "m \<in># net s" for m
    using I that up s'(2) by (intro msgOk_grow [OF _ g last s'(3)]) (auto simp: raftInv_def)
  ultimately show ?thesis using E s'(1) core net unfolding raftInv_def by blast
qed

lemma granted_current: "electionInv s \<Longrightarrow> (p, T, c) \<in> granted s \<Longrightarrow> T \<le> currentTerm (node s p)"
  unfolding electionInv_def inv_granted_def by blast

text \<open>What a step leads to: the invariant, for a history that continues the old one.\<close>

definition raftNext :: "nat \<Rightarrow> 'c ghost \<Rightarrow> ('c, 's) cluster \<Rightarrow> bool" where
  "raftNext N g s' \<longleftrightarrow> (\<exists>g'. raftInv N g' s' \<and> grows (gL g) (gL g') \<and> gA g \<subseteq> gA g')"

lemma raftNext_same: "raftInv N g s' \<Longrightarrow> raftNext N g s'"
  unfolding raftNext_def by (intro exI [of _ g]) simp

lemma raftNext_grow: "raftInv N g' s' \<Longrightarrow> ghostGrow i t g g' \<Longrightarrow> raftNext N g s'"
  unfolding raftNext_def ghostGrow_def by blast

text \<open>Steps that leave the logs, the matches and the history alone.\<close>

definition calm :: "('c, 's) raft \<Rightarrow> ('c, 's) raft \<Rightarrow> bool" where
  "calm rf rf' \<longleftrightarrow> sameLog rf rf' \<and> (commitIndex rf' = commitIndex rf \<or> commitIndex rf' = lastIncludedIndex rf) \<and>
     currentTerm rf \<le> currentTerm rf' \<and>
     (state rf' \<noteq> StateFollower \<longrightarrow> state rf' = state rf \<and> currentTerm rf' = currentTerm rf \<and> matchIndex rf' = matchIndex rf)"

lemma calm_refl: "calm rf rf"
  by (simp add: calm_def sameLog_def)

lemma serverOk_same:
  assumes s: "serverOk N g i rf" and same: "sameLog rf rf'" and up: "currentTerm rf \<le> currentTerm rf'"
    and c: "commitIndex rf' = commitIndex rf \<or> commitIndex rf' = lastIncludedIndex rf"
  shows "serverOk N g i rf'"
proof -
  have b: "base rf' = base rf" "lastIncludedIndex rf' = lastIncludedIndex rf" using same by (simp_all add: base_def sameLog_def)
  have h: "holdsLog (gF g i) rf'" using s same b by (simp add: serverOk_def holdsLog_def sameLog_def)
  note s = assms(1) [unfolded serverOk_def]
  have "gCommitted N g (currentTerm rf) (take (nat (commitIndex rf')) (gF g i))"
  proof (cases "commitIndex rf' = commitIndex rf")
    case False
    then have "take (nat (commitIndex rf')) (gF g i) = take (nat (commitIndex rf')) (take (nat (commitIndex rf)) (gF g i))"
      using c s by (auto simp: min_def)
    moreover have "nat (commitIndex rf') \<le> length (take (nat (commitIndex rf)) (gF g i))" using False c s by auto
    ultimately show ?thesis using s committed_prefix by metis
  qed (use s in simp)
  then show ?thesis using s h c up b committed_mono [OF _ up] unfolding serverOk_def by force
qed

lemma ackOk_same:
  assumes "ackOk g i rf" "base rf' = base rf" "currentTerm rf \<le> currentTerm rf'"
  shows "ackOk g i rf'"
  unfolding ackOk_def
proof (intro allI impI)
  fix t n assume "acked (gL g) (gA g) i t n"
  then have "t \<le> currentTerm rf" "(\<exists>T. t < T \<and> T \<le> currentTerm rf \<and> missing (gL g) t n T) \<or> keeps g i (base rf) t n"
    using assms(1) unfolding ackOk_def by blast+
  then show "t \<le> currentTerm rf' \<and> ((\<exists>T. t < T \<and> T \<le> currentTerm rf' \<and> missing (gL g) t n T) \<or> keeps g i (base rf') t n)"
    unfolding assms(2) using assms(3) by (meson order_trans)
qed

lemma sameLog_base: "sameLog rf rf' \<Longrightarrow> base rf' = base rf"
  by (simp add: base_def sameLog_def)

lemma srvOk_calm:
  assumes "srvOk N g i rf" "calm rf rf'"
  shows "srvOk N g i rf'"
proof -
  have c: "sameLog rf rf'" "currentTerm rf \<le> currentTerm rf'"
    "commitIndex rf' = commitIndex rf \<or> commitIndex rf' = lastIncludedIndex rf"
    "state rf' \<noteq> StateFollower \<longrightarrow> state rf' = state rf \<and> currentTerm rf' = currentTerm rf \<and> matchIndex rf' = matchIndex rf"
    using assms(2) by (auto simp: calm_def)
  have "leaderOk N g i rf'" "candOk g i rf'"
    using assms(1) c(4) sameLog_base [OF c(1)] unfolding srvOk_def leaderOk_def candOk_def by auto
  then show ?thesis
    using assms(1) serverOk_same [OF _ c(1,2,3)] ackOk_same [OF _ sameLog_base [OF c(1)] c(2)] by (simp add: srvOk_def)
qed

lemma cstep_nservers: "cstep s s' \<Longrightarrow> nservers s' = nservers s"
  by (induction rule: cstep.induct) simp_all

text \<open>One server changes, the history does not.\<close>

lemma raftInv_same:
  assumes I: "raftInv N g s" and st: "cstep s s'" and s': "node s' = (node s)(i := rf')" "granted s' = granted s"
    and i: "i < N" and srv: "srvOk N g i rf'" and up: "currentTerm (node s i) \<le> currentTerm rf'"
    and net: "\<And>m. m \<in># net s' \<Longrightarrow> m \<in># net s \<or> msgOk N g (\<lambda>i. currentTerm (node s' i)) (granted s) m"
  shows "raftInv N g s'"
proof (rule raftInv_step [OF I _ _ s'(1) _ i])
  show "electionInv s'" using cstep_electionInv [OF st] I by (simp add: raftInv_def)
  show "nservers s' = N" using cstep_nservers [OF st] I by (simp add: raftInv_def)
qed (use I s' net srv up in \<open>auto simp: raftInv_def\<close>)

lemma raftInv_calm:
  assumes I: "raftInv N g s" and st: "cstep s s'" and s': "node s' = (node s)(i := rf')" "granted s' = granted s"
    and i: "i < N" and calm: "calm (node s i) rf'"
    and net: "\<And>m. m \<in># net s' \<Longrightarrow> m \<in># net s \<or> msgOk N g (\<lambda>i. currentTerm (node s' i)) (granted s) m"
  shows "raftInv N g s'"
proof (rule raftInv_same [OF I st s' i _ _ net])
  show "srvOk N g i rf'" using srvOk_calm [OF _ calm] I i by (simp add: raftInv_def)
qed (use calm in \<open>simp_all add: calm_def\<close>)

end
