(* ===== verification/Raft_Safety_Votes.thy ===== *)
theory Raft_Safety_Votes
  imports Raft_Safety_Inv
begin

text \<open>
  The steps of elections keep the invariant: standing for election, giving a vote, and becoming leader. The
  log of a new leader is a prefix of an earlier leader's log.
\<close>

section \<open>Standing and voting\<close>

lemma server_base_committed:
  assumes s: "serverOk N g i rf"
  shows "gCommitted N g (currentTerm rf) (take (base rf) (gF g i))"
proof -
  have b: "base rf \<le> nat (commitIndex rf)" "nat (commitIndex rf) \<le> length (gF g i)"
    using s by (auto simp: serverOk_def base_def)
  have "gCommitted N g (currentTerm rf) (take (nat (commitIndex rf)) (gF g i))" using s by (simp add: serverOk_def)
  then have "gCommitted N g (currentTerm rf) (take (base rf) (take (nat (commitIndex rf)) (gF g i)))"
    by (rule committed_prefix) (use b in simp)
  then show ?thesis using b(1) by (simp add: min_def)
qed

text \<open>Every entry of a server stands at the same place in the log of the leader of its term.\<close>

lemma server_source:
  assumes c: "coreOk N g gr" and s: "serverOk N g i rf" and j: "j < length (gF g i)"
  shows "\<exists>l. gL g (Term (gF g i ! j)) = Some l \<and> j < length l \<and> l ! j = gF g i ! j"
proof (cases "base rf \<le> j")
  case True
  then obtain l where l: "gL g (Term (gF g i ! j)) = Some l" "agree (base rf) (Suc j) (gF g i) l"
    using s j unfolding serverOk_def sourced_def by blast
  then show ?thesis using True agree_nth [OF l(2) True] by (auto simp: agree_def)
next
  case False
  let ?b = "base rf" let ?F = "gF g i"
  have b: "?b \<noteq> 0" "?b \<le> length ?F" using False s by (auto simp: serverOk_def holdsLog_def)
  obtain t n l where l: "gL g t = Some l" "agree 0 ?b (take ?b ?F) l"
    using committed_take [OF server_base_committed [OF s] b] by blast
  have jl: "j < length l" "l ! j = ?F ! j" using agree_nth [OF l(2), of j] False l(2) by (auto simp: agree_def)
  obtain l' where l': "gL g (Term (l ! j)) = Some l'" "agree 0 (Suc j) l l'"
    using c l(1) jl(1) leader_source unfolding coreOk_def by metis
  then show ?thesis using jl agree_nth [OF l'(2), of j] by (auto simp: agree_def)
qed

lemma server_realLast:
  assumes c: "coreOk N g gr" and s: "serverOk N g i rf"
  shows "realLast (gL g) (lastOf (gF g i))"
proof (cases "gF g i = []")
  case False
  then have j: "length (gF g i) - 1 < length (gF g i)" by simp
  then show ?thesis using server_source [OF c s j] lastOf_nth [OF False] unfolding realLast_def by auto
qed (simp add: realLast_def)

lemma coreOk_vote:
  assumes "coreOk N g gr" "voteOk g p T c" "(c, T, c) \<in> insert (p, T, c) gr"
  shows "coreOk N g (insert (p, T, c) gr)"
  using assms unfolding coreOk_def by blast

lemma raftInv_elect:
  assumes I: "raftInv N g s" and i: "i < N" and te: "tickElection rnd (node s i) = (rf', Some args)"
    and s': "s' = s\<lparr>node := (node s)(i := rf'),
              net := net s + mset (map (\<lambda>p. VoteReq i (incarnation s i) p args) (otherPeers rf')),
              granted := insert (i, rva_Term args, i) (granted s)\<rparr>"
  shows "raftNext N g s'"
proof -
  let ?rf = "node s i" let ?T = "currentTerm ?rf + 1" let ?F = "gF g i"
  define g' where "g' = g\<lparr>gLast := (gLast g)(i := (gLast g i)(?T := lastOf ?F))\<rparr>"
  have E: "electionInv s" "nservers s = N" and core: "coreOk N g (granted s)" and srv: "srvOk N g i ?rf"
    using I i by (auto simp: raftInv_def)
  have rf': "sameLog ?rf rf'" "commitIndex rf' = commitIndex ?rf" "currentTerm rf' = ?T" "state rf' = StateCandidate"
    and args: "rva_Term args = ?T" "rva_LastLogIndex args = lastLogIndex ?rf" "rva_LastLogTerm args = lastLogTerm ?rf"
    using te by (auto simp: tickElection_def startElection_def Let_def sameLog_def lastLogIndex_def lastLogTerm_def split: if_splits)
  have h: "holdsLog ?F ?rf" and pos: "0 \<le> currentTerm ?rf" using srv by (auto simp: srvOk_def serverOk_def)
  have gr: "ghostGrow i (currentTerm ?rf) g g'" by (simp add: ghostGrow_def g'_def)
  have same: "gL g' = gL g" "gA g' = gA g" "gF g' = gF g" "gOwner g' = gOwner g" "gLast g' i ?T = lastOf ?F" by (simp_all add: g'_def)
  have last: "gLast g' i T = gLast g i T" if "(i, T, i) \<in> granted s" for T
    using granted_current [OF E(1) that] by (auto simp: g'_def)
  have "coreOk N g' (granted s)"
    using core granted_current [OF E(1)] same
    by (intro coreOk_grow [where cur = "\<lambda>i. currentTerm (node s i)", OF core gr last]) (auto simp: coreOk_def)
  moreover have "voteOk g' i ?T i"
    unfolding voteOk_def same
  proof (intro conjI allI impI)
    show "fst (lastOf ?F) < ?T"
      using srv pos last_in_set [of ?F] by (fastforce simp: srvOk_def serverOk_def lastOf_def)
    show "realLast (gL g) (lastOf ?F)" using server_realLast [OF core, of i ?rf] srv by (simp add: srvOk_def)
    fix t n assume a: "acked (gL g) (gA g) i t n \<and> t < ?T"
    then have "(\<exists>T. t < T \<and> T \<le> currentTerm ?rf \<and> missing (gL g) t n T) \<or> keeps g i (base ?rf) t n"
      using srv unfolding srvOk_def ackOk_def by blast
    then show "(\<exists>T'. t < T' \<and> T' \<le> ?T \<and> missing (gL g) t n T') \<or> lastGe (lastOf ?F) t n"
      unfolding keeps_def by force
  qed
  ultimately have core': "coreOk N g' (insert (i, ?T, i) (granted s))" by (intro coreOk_vote) auto
  have own: "gOwner g ?T \<noteq> i" if some: "gL g ?T \<noteq> None"
  proof
    assume o: "gOwner g ?T = i"
    obtain l where "gL g ?T = Some l" using some by blast
    then obtain V where V: "electedBy N (gL g) (gA g) ?T V (gLast g (gOwner g ?T) ?T) l" "\<forall>v\<in>V. (v, ?T, gOwner g ?T) \<in> granted s"
      using core unfolding coreOk_def by blast
    obtain v where "v \<in> V" using electedBy_voter [OF V(1)] .
    then have "(v, ?T, i) \<in> granted s" using V(2) o by auto
    then have "(i, ?T, i) \<in> granted s" using core unfolding coreOk_def by blast
    then show False using granted_current [OF E(1)] by fastforce
  qed
  have "serverOk N g' i ?rf" using srv same by (simp add: srvOk_def serverOk_def)
  then have "serverOk N g' i rf'" using serverOk_same [OF _ rf'(1)] rf'(2,3) by simp
  moreover have "ackOk g' i ?rf" using srv same by (simp add: srvOk_def ackOk_def keeps_def)
  then have "ackOk g' i rf'" using ackOk_same [OF _ sameLog_base [OF rf'(1)]] rf'(3) by simp
  moreover have "candOk g' i rf'"
    using own pos unfolding candOk_def rf'(3) same sameLog_base [OF rf'(1)] by auto
  ultimately have srv': "srvOk N g' i rf'" using rf'(4) by (simp add: srvOk_def leaderOk_def)
  have "raftInv N g' s'"
  proof (rule raftInv_step [OF I _ _ _ _ i gr last _ srv'])
    show "electionInv s'" using electionInv_elect [OF E(1) _ te s'] E(2) i by simp
    show "coreOk N g' (granted s')" using core' by (simp add: s' args(1))
    fix m assume "m \<in># net s'"
    then show "m \<in># net s \<or> msgOk N g' (\<lambda>i. currentTerm (node s' i)) (granted s') m"
      using holds_lastLogIndex [OF h] holds_lastLogTerm [OF h] args same(5) by (auto simp: s' prod_eq_iff)
  qed (use s' E(2) rf'(3) in auto)
  then show ?thesis using gr by (rule raftNext_grow)
qed

lemma calm_RequestVote: "calm rf (fst (RequestVote rnd args rf))"
  by (auto simp: RequestVote_def Let_def calm_def sameLog_def)

lemma RequestVote_upToDate:
  assumes "RequestVote rnd args rf = (rf', reply)" "rvr_VoteGranted reply" "holdsLog F rf" "0 \<le> rva_LastLogIndex args"
    "lastGe (lastOf F) t n"
  shows "lastGe (rva_LastLogTerm args, nat (rva_LastLogIndex args)) t n"
proof -
  have "isMoreUpToDate rf (rva_LastLogIndex args) (rva_LastLogTerm args)"
    using assms(1,2) by (auto simp: RequestVote_def Let_def isMoreUpToDate_def lastLogIndex_def lastLogTerm_def split: if_splits)
  then show ?thesis
    using assms(4,5) holds_lastLogIndex [OF assms(3)] holds_lastLogTerm [OF assms(3)]
    by (auto simp: isMoreUpToDate_def Let_def lastGe_def split: if_splits)
qed

lemma raftInv_vote_request:
  assumes I: "raftInv N g s" and m: "VoteReq i k j args \<in># net s" and rv: "RequestVote rnd args (node s j) = (rf', reply)"
    and s': "s' = s\<lparr>node := (node s)(j := rf'),
              net := net s - {#VoteReq i k j args#} + {#VoteRep i k j args reply#},
              granted := (if rvr_VoteGranted reply then insert (j, rva_Term args, i) (granted s) else granted s)\<rparr>"
  shows "raftInv N g s'"
proof -
  let ?T = "rva_Term args"
  have E: "electionInv s" "nservers s = N" and core: "coreOk N g (granted s)" using I by (auto simp: raftInv_def)
  have j: "j < N" using E m by (auto simp: electionInv_def inv_calls_def voteCallOk_def)
  have srv: "srvOk N g j (node s j)" using I j by (simp add: raftInv_def)
  have vm: "(i, ?T, i) \<in> granted s" "gLast g i ?T = (rva_LastLogTerm args, nat (rva_LastLogIndex args))" "0 \<le> rva_LastLogIndex args"
    using I m by (auto simp: raftInv_def)
  have calm: "calm (node s j) rf'" using calm_RequestVote [of "node s j" rnd args] rv by simp
  have "coreOk N g (granted s')"
  proof (cases "rvr_VoteGranted reply")
    case True
    have le: "currentTerm (node s j) \<le> ?T" using RequestVote_granted [OF rv True] by simp
    have v: "voteOk g i ?T i" using core vm(1) unfolding coreOk_def by blast
    have "(\<exists>T'. t < T' \<and> T' \<le> ?T \<and> missing (gL g) t n T') \<or> lastGe (gLast g i ?T) t n"
      if a: "acked (gL g) (gA g) j t n" for t n
    proof -
      have "(\<exists>T. t < T \<and> T \<le> currentTerm (node s j) \<and> missing (gL g) t n T) \<or> keeps g j (base (node s j)) t n"
        using srv a unfolding srvOk_def ackOk_def by blast
      then show ?thesis
        using RequestVote_upToDate [OF rv True _ vm(3), of "gF g j" t n] srv le vm(2)
        unfolding keeps_def srvOk_def serverOk_def by (metis order_trans)
    qed
    then have "voteOk g j ?T i" using v unfolding voteOk_def by blast
    then show ?thesis using coreOk_vote [OF core] vm(1) True by (simp add: s')
  qed (use core s' in simp)
  moreover have "electionInv s'" using electionInv_vote_request [OF E(1) m rv s'] .
  ultimately show ?thesis
    using calm srvOk_calm [OF srv calm] s' E(2)
    by (intro raftInv_step [OF I _ _ _ _ j]) (auto simp: calm_def dest: in_diffD)
qed

section \<open>Becoming leader\<close>

text \<open>What the majority of a candidate has chosen is not newer than the log it stood with.\<close>

lemma votes_cover:
  assumes core: "coreOk N g gr" and V: "majorityOf N V" "\<forall>v\<in>V. (v, T, c) \<in> gr" and new: "gL g T = None"
    and ch: "chosen N (gL g) (gA g) t n" and t: "t < T"
  shows "lastGe (gLast g c T) t n"
proof -
  obtain Q where Q: "majorityOf N Q" "\<forall>v\<in>Q. acked (gL g) (gA g) v t n" using ch unfolding chosen_def by blast
  obtain v where v: "v \<in> Q" "v \<in> V" using majority_meet [OF Q(1) V(1)] .
  obtain l where l: "gL g t = Some l" using chosen_leader [OF ch] .
  have "\<not> missing (gL g) t n T'" if "t < T'" for T'
    using leader_completeness [OF core_elections [OF core] ch l _ that] l unfolding missing_def by auto
  moreover have "voteOk g v T c" using core V(2) v(2) unfolding coreOk_def by blast
  ultimately show ?thesis using Q(2) v(1) t unfolding voteOk_def by blast
qed

lemma winner_log:
  assumes core: "coreOk N g gr" and V: "majorityOf N V" "\<forall>v\<in>V. (v, T, i) \<in> gr" and new: "gL g T = None"
    and s: "serverOk N g i rf" and c: "candOk g i rf" "state rf = StateCandidate" "currentTerm rf = T"
  shows "gF g i = [] \<and> snd (gLast g i T) = 0 \<or>
    (\<exists>l. gL g (fst (gLast g i T)) = Some l \<and> length (gF g i) = snd (gLast g i T) \<and> agree 0 (length (gF g i)) (gF g i) l)"
proof -
  let ?F = "gF g i" let ?b = "base rf" let ?p = "gLast g i T"
  have L: "leaderLogs (gL g)" using core by (simp add: coreOk_def)
  have b: "?b \<le> length ?F" using s by (auto simp: serverOk_def holdsLog_def)
  have cand: "?b < length ?F \<Longrightarrow> ?p = lastOf ?F" "?b = length ?F \<Longrightarrow> snd ?p \<le> ?b" using c by (auto simp: candOk_def)
  have src: "\<exists>l. gL g (fst ?p) = Some l \<and> agree ?b (length ?F) ?F l" if lt: "?b < length ?F"
  proof -
    have "?b \<le> length ?F - 1 \<and> length ?F - 1 < length ?F" using lt by linarith
    then obtain l where "gL g (Term (?F ! (length ?F - 1))) = Some l" "agree ?b (Suc (length ?F - 1)) ?F l"
      using s unfolding serverOk_def sourced_def by blast
    moreover have ne: "?F \<noteq> []" using lt by auto
    then have "fst ?p = Term (?F ! (length ?F - 1))" "Suc (length ?F - 1) = length ?F"
      using cand(1) [OF lt] lastOf_nth [OF ne] by simp_all
    ultimately show ?thesis by metis
  qed
  show ?thesis
  proof (cases "?b = 0")
    case True
    then show ?thesis using src cand by (cases "?F = []") auto
  next
    case False
    have "gCommitted N g T (take ?b ?F)" using server_base_committed [OF s] c(3) by simp
    then obtain t n l where ch: "t \<le> T" "chosen N (gL g) (gA g) t n" "gL g t = Some l" "?b \<le> n" "agree 0 ?b (take ?b ?F) l"
      using committed_take [OF _ _ b] False by blast
    have t: "t < T" using ch(1,3) new by (cases "t = T") auto
    have ge: "lastGe ?p t n" using votes_cover [OF core V new ch(2) t] .
    have t1: "1 \<le> t" using leader_term_pos [OF L ch(3)] .
    have "voteOk g i T i" using core V unfolding coreOk_def majorityOf_def by (metis card.empty ex_in_conv mult_0_right not_less_zero)
    moreover have "?p \<noteq> (0, 0)" using ge t1 by (auto simp: lastGe_def)
    ultimately obtain l' where l': "gL g (fst ?p) = Some l'" "1 \<le> snd ?p" "snd ?p \<le> length l'" "Term (l' ! (snd ?p - 1)) = fst ?p"
      unfolding voteOk_def realLast_def by blast
    have "agree 0 n l l'" using chosen_in_leader [OF core_elections [OF core] ch(2,3) l'(1)] ge by (auto simp: lastGe_def)
    have nl: "1 \<le> n" "Term (l ! (n - 1)) = t" using chosen_leader [OF ch(2)] ch(3) by auto
    have "agree 0 ?b ?F l" using ch(5) b by (auto simp: agree_def)
    then have base: "agree 0 ?b ?F l'" using agree_trans agree_mono [OF \<open>agree 0 n l l'\<close> le_refl ch(4)] by blast
    show ?thesis
    proof (cases "?b = length ?F")
      case False
      then have lt: "?b < length ?F" using b by simp
      then have "agree ?b (length ?F) ?F l'" using src l'(1) by auto
      then show ?thesis using agree_parts [OF base] l'(1) cand(1) [OF lt] by auto
    next
      case True
      have "fst ?p = t"
      proof (rule ccontr)
        assume "fst ?p \<noteq> t"
        then have "t < fst ?p" using ge by (auto simp: lastGe_def)
        then have "n < snd ?p" using last_beyond [OF L l' _ ch(3) nl \<open>agree 0 n l l'\<close>] by blast
        then show False using cand(2) [OF True] ch(4) by simp
      qed
      then have "snd ?p = ?b" using ge cand(2) [OF True] ch(4) by (auto simp: lastGe_def)
      then show ?thesis using base True l'(1) by simp
    qed
  qed
qed

lemma winner_elected:
  assumes core: "coreOk N g gr" and V: "majorityOf N V" "\<forall>v\<in>V. (v, T, i) \<in> gr" and new: "gL g T = None"
    and log: "gF g i = [] \<and> snd (gLast g i T) = 0 \<or>
      (\<exists>l. gL g (fst (gLast g i T)) = Some l \<and> length (gF g i) = snd (gLast g i T) \<and> agree 0 (length (gF g i)) (gF g i) l)"
    and L': "grows (gL g) ((gL g)(T \<mapsto> gF g i))"
  shows "electedBy N ((gL g)(T \<mapsto> gF g i)) (gA g) T V (gLast g i T) (gF g i)"
proof -
  let ?L = "(gL g)(T \<mapsto> gF g i)" let ?p = "gLast g i T"
  obtain v0 where "v0 \<in> V" using V(1) by (cases "V = {}") (auto simp: majorityOf_def)
  then have p: "fst ?p < T" "realLast (gL g) ?p" using core V(2) unfolding coreOk_def voteOk_def by blast+
  have "agree 0 (snd ?p) l' (gF g i)" if "?L (fst ?p) = Some l'" for l'
    using that log p(1) agree_sym by (auto simp: agree_def)
  moreover have "(\<exists>T'. t < T' \<and> T' < T \<and> missing ?L t n T') \<or> lastGe ?p t n"
    if v: "v \<in> V" "acked ?L (gA g) v t n" "t < T" for v t n
  proof -
    have a: "acked (gL g) (gA g) v t n" using v(2,3) by (simp add: acked_def)
    have "voteOk g v T i" using core V(2) v(1) unfolding coreOk_def by blast
    then have "(\<exists>T'. t < T' \<and> T' \<le> T \<and> missing (gL g) t n T') \<or> lastGe ?p t n"
      using a v(3) unfolding voteOk_def by blast
    moreover have "T' \<noteq> T" if "missing (gL g) t n T'" for T' using that new by (auto simp: missing_def)
    ultimately show ?thesis using acked_missing_grows [OF a L'] by (metis order_le_less)
  qed
  ultimately show ?thesis using V(1) p realLast_grows [OF _ L'] unfolding electedBy_def by blast
qed

lemma acksOk_grows: "acksOk L A \<Longrightarrow> grows L L' \<Longrightarrow> acksOk L' A"
  unfolding acksOk_def grows_def by (metis append_eq_conv_conj length_append trans_le_add1)

lemma leader_majority:
  assumes "electionInv s" "nservers s = N" "i < N" "state (node s i) = StateLeader"
  obtains V where "majorityOf N V" "\<forall>v\<in>V. (v, currentTerm (node s i), i) \<in> granted s"
  using leader_quorum [OF assms(1) _ assms(4)] assms(2,3)
  by (intro that [of "insert i (voters s i (currentTerm (node s i)))"]) (auto simp: majorityOf_def)

lemma no_other_leader:
  assumes E: "electionInv s" and core: "coreOk N g (granted s)" and V: "majorityOf N V" "\<forall>v\<in>V. (v, T, i) \<in> granted s"
    and l: "gL g T = Some l"
  shows "gOwner g T = i"
proof -
  obtain V' where V': "electedBy N (gL g) (gA g) T V' (gLast g (gOwner g T) T) l" "\<forall>v\<in>V'. (v, T, gOwner g T) \<in> granted s"
    using core l unfolding coreOk_def by blast
  then obtain v where "v \<in> V" "v \<in> V'" using majority_meet V(1) unfolding electedBy_def by metis
  then have "(v, T, i) \<in> granted s" "(v, T, gOwner g T) \<in> granted s" using V(2) V'(2) by blast+
  then show ?thesis using E unfolding electionInv_def inv_granted_def by blast
qed

lemma raftInv_lead:
  assumes I: "raftInv N g s" and st: "cstep s s'" and s': "node s' = (node s)(i := rf')" "granted s' = granted s" and i: "i < N"
    and net: "\<And>m. m \<in># net s' \<Longrightarrow> m \<in># net s"
    and rf': "sameLog (node s i) rf'" "commitIndex rf' = commitIndex (node s i)" "currentTerm rf' = currentTerm (node s i)"
      "state (node s i) = StateCandidate" "state rf' = StateLeader" "length (matchIndex rf') = N"
      "\<And>p. p < N \<Longrightarrow> p \<noteq> i \<Longrightarrow> matchIndex rf' ! p \<le> 0"
  shows "raftNext N g s'"
proof -
  let ?rf = "node s i" let ?T = "currentTerm ?rf" let ?F = "gF g i" let ?p = "gLast g i ?T"
  define g' where "g' = g\<lparr>gL := (gL g)(?T \<mapsto> ?F), gOwner := (gOwner g)(?T := i)\<rparr>"
  have E: "electionInv s" "nservers s = N" and core: "coreOk N g (granted s)" and srv: "srvOk N g i ?rf"
    using I i by (auto simp: raftInv_def)
  have E': "electionInv s'" "nservers s' = N" using cstep_electionInv [OF st E(1)] cstep_nservers [OF st] E(2) by simp_all
  have "state (node s' i) = StateLeader" "currentTerm (node s' i) = ?T" using s'(1) rf'(3,5) by simp_all
  then obtain V where V: "majorityOf N V" "\<forall>v\<in>V. (v, ?T, i) \<in> granted s" using leader_majority [OF E' i] s'(2) by metis
  have cand: "candOk g i ?rf" and srvO: "serverOk N g i ?rf" using srv by (auto simp: srvOk_def)
  have new: "gL g ?T = None"
    using no_other_leader [OF E(1) core V] cand rf'(4) unfolding candOk_def by (metis not_None_eq)
  have L: "leaderLogs (gL g)" "acksOk (gL g) (gA g)" using core by (auto simp: coreOk_def)
  have log: "?F = [] \<and> snd ?p = 0 \<or> (\<exists>l. gL g (fst ?p) = Some l \<and> length ?F = snd ?p \<and> agree 0 (length ?F) ?F l)"
    using winner_log [OF core V new srvO cand rf'(4) refl] .
  obtain v where v: "v \<in> V" using V(1) by (cases "V = {}") (auto simp: majorityOf_def)
  then have p: "fst ?p < ?T" using core V(2) unfolding coreOk_def voteOk_def by blast
  have src: "?F = [] \<or> (\<exists>T' l'. T' < ?T \<and> gL g T' = Some l' \<and> agree 0 (length ?F) ?F l')" using log p by blast
  have pos: "1 \<le> ?T" using cand rf'(4) by (auto simp: candOk_def)
  note L' = leaderLogs_new [OF L(1) new pos src]
  have g: "ghostGrow i ?T g g'" using L'(2) new unfolding ghostGrow_def g'_def by auto
  have eq: "gL g' = (gL g)(?T \<mapsto> ?F)" "gA g' = gA g" "gF g' = gF g" "gLast g' = gLast g" by (simp_all add: g'_def)
  have core': "coreOk N g' (granted s)"
  proof (rule coreOk_grow [where cur = "\<lambda>i. currentTerm (node s i)", OF core g])
    show "leaderLogs (gL g')" "acksOk (gL g') (gA g')" using L'(1) acksOk_grows [OF L(2) L'(2)] by (simp_all add: eq)
    fix T l' assume "gL g T = None" "gL g' T = Some l'"
    then have T: "T = ?T" "l' = ?F" by (auto simp: eq split: if_splits)
    then show "\<exists>V. electedBy N (gL g') (gA g') T V (gLast g' (gOwner g' T) T) l' \<and> (\<forall>v\<in>V. (v, T, gOwner g' T) \<in> granted s)"
      using winner_elected [OF core V new log L'(2)] V(2) by (auto simp: g'_def)
  qed (use granted_current [OF E(1)] eq in auto)
  have gr: "grows (gL g) (gL g')" "gA g \<subseteq> gA g'" using L'(2) by (simp_all add: eq)
  have "serverOk N g' i ?rf" "ackOk g' i ?rf"
    using serverOk_grow [OF srvO gr] ackOk_grow [OF _ L(2) gr(1), of i ?rf] srv by (simp_all add: eq srvOk_def)
  then have so: "serverOk N g' i rf'" "ackOk g' i rf'"
    using serverOk_same [OF _ rf'(1)] ackOk_same [OF _ sameLog_base [OF rf'(1)]] rf'(2,3) by simp_all
  have "Term (last ?F) \<noteq> ?T" if ne: "?F \<noteq> []"
  proof -
    obtain T' l where l: "T' < ?T" "gL g T' = Some l" "agree 0 (length ?F) ?F l" using src ne by blast
    have j: "length ?F - 1 < length ?F" using ne by simp
    moreover have "length ?F \<le> length l" using l(3) by (simp add: agree_def)
    ultimately have "length ?F - 1 < length l" by linarith
    moreover have "last ?F = l ! (length ?F - 1)" using agree_nth [OF l(3) _ j] ne by (simp add: last_conv_nth)
    ultimately show ?thesis using leader_term_le [OF L(1) l(2), of "length ?F - 1"] l(1) by auto
  qed
  then have "leaderOk N g' i rf'"
    using rf' unfolding leaderOk_def matchOk_def by (auto simp: g'_def)
  then have "srvOk N g' i rf'" using so rf'(5) by (simp add: srvOk_def candOk_def)
  then have "raftInv N g' s'"
    using net core' s'(2) rf'(3) eq(4) by (intro raftInv_step [OF I E' s'(1) _ i g]) auto
  then show ?thesis using g by (rule raftNext_grow)
qed

lemma raftInv_vote_reply:
  assumes I: "raftInv N g s" and m: "VoteRep i (incarnation s i) j args reply \<in># net s"
    and rf': "rf' = handleVoteReply args reply (node s i)"
    and s': "s' = s\<lparr>node := (node s)(i := rf'), net := net s - {#VoteRep i (incarnation s i) j args reply#},
              counted := (if countsVote args reply (node s i) then insert (i, rva_Term args, j) (counted s) else counted s)\<rparr>"
  shows "raftNext N g s'"
proof -
  have st: "cstep s s'" unfolding s' by (rule vote_reply [OF m rf'])
  have i: "i < N" "peers (node s i) = N" "me (node s i) = i"
    using I m by (auto simp: raftInv_def electionInv_def inv_calls_def inv_ids_def voteCallOk_def)
  show ?thesis
  proof (cases "state (node s i) = StateCandidate \<and> state rf' = StateLeader")
    case True
    then have c: "countsVote args reply (node s i)" by (auto simp: rf' handleVoteReply_def countsVote_def Let_def split: if_splits)
    show ?thesis
    proof (rule raftInv_lead [OF I st _ _ i(1)])
      show "node s' = (node s)(i := rf')" "granted s' = granted s" by (simp_all add: s')
      show "sameLog (node s i) rf'" "commitIndex rf' = commitIndex (node s i)"
        by (simp_all add: rf' handleVoteReply_def Let_def sameLog_def)
      show "currentTerm rf' = currentTerm (node s i)" using handleVoteReply_counts(3) [OF c rf'] .
      show "length (matchIndex rf') = N" "\<And>p. p < N \<Longrightarrow> p \<noteq> i \<Longrightarrow> matchIndex rf' ! p \<le> 0"
        using c True i by (auto simp: rf' handleVoteReply_def countsVote_def Let_def becomeLeader_def split: if_splits)
    qed (use True in \<open>auto simp: s' dest: in_diffD\<close>)
  next
    case False
    then have "calm (node s i) rf'"
      by (auto simp: rf' handleVoteReply_def Let_def calm_def sameLog_def split: if_splits)
    then have "raftInv N g s'" by (intro raftInv_calm [OF I st _ _ i(1)]) (auto simp: s' dest: in_diffD)
    then show ?thesis by (rule raftNext_same)
  qed
qed

end
