(* ===== verification/Raft_Safety_Log.thy ===== *)
theory Raft_Safety_Log
  imports Raft_Safety_Votes
begin

text \<open>
  The steps that change logs keep the invariant: a leader that appends a command, and a server that merges the
  entries of an AppendEntries call.
\<close>

section \<open>A leader appends a command\<close>

lemma ackOk_append:
  assumes L: "gL g (currentTerm rf) = Some (gF g i)" and A: "acksOk (gL g) (gA g)" and s: "ackOk g i rf"
    and e: "Term e = currentTerm rf" and rf': "currentTerm rf' = currentTerm rf" "base rf' = base rf"
    and g': "g' = g\<lparr>gL := (gL g)(currentTerm rf \<mapsto> gF g i @ [e]), gF := (gF g)(i := gF g i @ [e]),
               gA := insert (i, currentTerm rf, Suc (length (gF g i))) (gA g)\<rparr>"
    and gr: "grows (gL g) (gL g')"
  shows "ackOk g' i rf'"
  unfolding ackOk_def rf'
proof (intro allI impI)
  let ?T = "currentTerm rf" let ?F = "gF g i"
  fix t n assume a': "acked (gL g') (gA g') i t n"
  have last: "lastOf (?F @ [e]) = (?T, Suc (length ?F))" using e by (simp add: lastOf_def)
  show "t \<le> ?T \<and> ((\<exists>T. t < T \<and> T \<le> ?T \<and> missing (gL g') t n T) \<or> keeps g' i (base rf) t n)"
  proof (cases "t = ?T")
    case True
    then have "n \<le> Suc (length ?F)" using a' by (auto simp: acked_def g')
    then show ?thesis using True last by (auto simp: keeps_def g' lastGe_def intro: agree_refl)
  next
    case False
    then have a: "acked (gL g) (gA g) i t n" using acked_shrink [OF a' A gr] by (auto simp: g')
    then have t: "t < ?T" and k: "(\<exists>T. t < T \<and> T \<le> ?T \<and> missing (gL g) t n T) \<or> keeps g i (base rf) t n"
      using s False unfolding ackOk_def by (meson order_le_less)+
    have "keeps g' i (base rf) t n" if "keeps g i (base rf) t n"
      using that t last False agree_sym [OF agree_append [OF agree_sym]] by (auto simp: keeps_def lastGe_def g')
    then show ?thesis using k t acked_missing_grows [OF a gr] by (meson less_imp_le)
  qed
qed

lemma serverOk_append:
  assumes s: "serverOk N g i rf" and L: "gL g' (currentTerm rf) = Some (gF g i @ [e])" "Term e = currentTerm rf"
    and gr: "grows (gL g) (gL g')" "gA g \<subseteq> gA g'" and F: "gF g' i = gF g i @ [e]"
    and rf': "log rf' = log rf @ [e]" "lastIncludedIndex rf' = lastIncludedIndex rf" "lastIncludedTerm rf' = lastIncludedTerm rf"
      "commitIndex rf' = commitIndex rf" "currentTerm rf' = currentTerm rf"
  shows "serverOk N g' i rf'"
proof -
  let ?F = "gF g i"
  have b: "base rf' = base rf" "base rf \<le> length ?F" using s rf'(2) by (auto simp: base_def serverOk_def holdsLog_def)
  have h: "holdsLog (?F @ [e]) rf'" using s rf' b by (auto simp: serverOk_def holdsLog_def)
  have src: "sourced (gL g') (base rf) (?F @ [e])"
    unfolding sourced_def
  proof (intro allI impI)
    fix j assume j: "base rf \<le> j \<and> j < length (?F @ [e])"
    show "\<exists>l. gL g' (Term ((?F @ [e]) ! j)) = Some l \<and> agree (base rf) (Suc j) (?F @ [e]) l"
    proof (cases "j < length ?F")
      case True
      moreover have "sourced (gL g') (base rf) ?F" using s sourced_grows [OF _ gr(1) order_refl] by (simp add: serverOk_def)
      ultimately obtain l where "gL g' (Term (?F ! j)) = Some l" "agree (base rf) (Suc j) ?F l"
        using j unfolding sourced_def by blast
      then show ?thesis using True agree_sym [OF agree_append [OF agree_sym]] by (auto simp: nth_append)
    next
      case False
      then have "j = length ?F" using j by simp
      then show ?thesis using L by (simp add: agree_refl)
    qed
  qed
  have ci: "lastIncludedIndex rf \<le> commitIndex rf" "nat (commitIndex rf) \<le> length ?F" "0 \<le> commitIndex rf"
    using s by (auto simp: serverOk_def holdsLog_def)
  have "gCommitted N g' (currentTerm rf) (take (nat (commitIndex rf)) ?F)"
    using s committed_grows [OF _ gr order_refl] by (simp add: serverOk_def)
  then show ?thesis using s h src ci b L(2) unfolding serverOk_def F rf' by (auto simp: nat_le_iff)
qed

lemma raftInv_client_start:
  assumes I: "raftInv N g s" and i: "i < nservers s" and rf': "Start c (node s i) = (rf', index, t, isLeader)"
    and s': "s' = s\<lparr>node := (node s)(i := rf')\<rparr>"
  shows "raftNext N g s'"
proof (cases "state (node s i) = StateLeader")
  case False
  then have "rf' = node s i" using rf' by (simp add: Start_def)
  then have "s' = s" using s' by simp
  then show ?thesis using raftNext_same [OF I] by simp
next
  case True
  let ?rf = "node s i" let ?T = "currentTerm ?rf" let ?F = "gF g i"
  define e where "e = \<lparr>Term = ?T, Command = c\<rparr>"
  define g' where "g' = g\<lparr>gL := (gL g)(?T \<mapsto> ?F @ [e]), gF := (gF g)(i := ?F @ [e]),
    gA := insert (i, ?T, Suc (length ?F)) (gA g)\<rparr>"
  have st: "cstep s s'" unfolding s' by (rule client_start [OF i rf'])
  have E: "electionInv s" "nservers s = N" and core: "coreOk N g (granted s)" and srv: "srvOk N g i ?rf"
    using I i by (auto simp: raftInv_def)
  have lead: "gL g ?T = Some ?F" "gOwner g ?T = i" "length (matchIndex ?rf) = N"
    "\<forall>p<N. p \<noteq> i \<longrightarrow> matchOk N g ?T p (matchIndex ?rf ! p)" using srv True by (auto simp: srvOk_def leaderOk_def)
  have me: "me ?rf = i" using E i by (simp add: electionInv_def inv_ids_def)
  have f: "log rf' = log ?rf @ [e]" "lastIncludedIndex rf' = lastIncludedIndex ?rf" "lastIncludedTerm rf' = lastIncludedTerm ?rf"
    "commitIndex rf' = commitIndex ?rf" "currentTerm rf' = ?T" "state rf' = StateLeader"
    "length (matchIndex rf') = N" "\<And>p. p \<noteq> i \<Longrightarrow> matchIndex rf' ! p = matchIndex ?rf ! p"
    using rf' True me lead(3) by (auto simp: Start_def Let_def e_def)
  have e: "Term e = ?T" by (simp add: e_def)
  have L: "leaderLogs (gL g)" "acksOk (gL g) (gA g)" using core by (auto simp: coreOk_def)
  note L' = leaderLogs_append [OF L(1) lead(1) e]
  have gr: "grows (gL g) (gL g')" "gA g \<subseteq> gA g'" using L'(2) by (auto simp: g'_def)
  have gg: "ghostGrow i ?T g g'" using gr lead(2) unfolding ghostGrow_def by (auto simp: g'_def)
  have A': "acksOk (gL g') (gA g')" using acksOk_grows [OF L(2) gr(1)] by (auto simp: acksOk_def g'_def)
  have core': "coreOk N g' (granted s)"
  proof (rule coreOk_grow [where cur = "\<lambda>i. currentTerm (node s i)", OF core gg _ _ A'])
    show "leaderLogs (gL g')" using L'(1) by (simp add: g'_def)
    fix T l' assume "gL g T = None" "gL g' T = Some l'"
    then show "\<exists>V. electedBy N (gL g') (gA g') T V (gLast g' (gOwner g' T) T) l' \<and> (\<forall>v\<in>V. (v, T, gOwner g' T) \<in> granted s)"
      using lead(1) by (auto simp: g'_def split: if_splits)
  qed (use granted_current [OF E(1)] in \<open>auto simp: g'_def\<close>)
  have "serverOk N g' i rf'" using serverOk_append [OF _ _ e gr _ f(1-5)] srv by (simp add: srvOk_def g'_def)
  moreover have "base rf' = base ?rf" using f(2) by (simp add: base_def)
  then have "ackOk g' i rf'" using ackOk_append [OF lead(1) L(2) _ e f(5) _ g'_def gr(1)] srv by (simp add: srvOk_def)
  moreover have "leaderOk N g' i rf'"
    using lead f e matchOk_grow [OF _ gr] unfolding leaderOk_def by (auto simp: g'_def)
  ultimately have "srvOk N g' i rf'" using f(6) by (simp add: srvOk_def candOk_def)
  then have "raftInv N g' s'"
    using core' s' f(5) i E(2) cstep_electionInv [OF st E(1)]
    by (intro raftInv_step [OF I _ _ _ _ _ gg]) (auto simp: g'_def)
  then show ?thesis using gg by (rule raftNext_grow)
qed

section \<open>A server merges the entries of a leader\<close>

lemma server_commit_agree:
  assumes c: "coreOk N g gr" and s: "serverOk N g i rf" and l: "gL g t = Some l" "currentTerm rf \<le> t"
  shows "agree 0 (nat (commitIndex rf)) (gF g i) l" "agree 0 (base rf) (gF g i) l"
proof -
  have b: "base rf \<le> nat (commitIndex rf)" "nat (commitIndex rf) \<le> length (gF g i)"
    using s by (auto simp: serverOk_def base_def)
  have "gCommitted N g (currentTerm rf) (take (nat (commitIndex rf)) (gF g i))" using s by (simp add: serverOk_def)
  from committed_in_leader [OF core_elections [OF c] this l] b(2)
  show a: "agree 0 (nat (commitIndex rf)) (gF g i) l" by (auto simp: agree_def)
  show "agree 0 (base rf) (gF g i) l" using agree_mono [OF a order_refl b(1)] .
qed

text \<open>Log matching: where a server and a leader have entries of the same term, they have the same log up to there.\<close>

lemma log_matching:
  assumes c: "coreOk N g gr" and s: "serverOk N g i rf" and l: "gL g t = Some l" "currentTerm rf \<le> t"
    and j: "base rf \<le> j" "j < length (gF g i)" "j < length l" "Term (gF g i ! j) = Term (l ! j)"
  shows "agree 0 (Suc j) (gF g i) l"
proof -
  obtain l1 where l1: "gL g (Term (gF g i ! j)) = Some l1" "agree (base rf) (Suc j) (gF g i) l1"
    using s j(1,2) unfolding serverOk_def sourced_def by blast
  obtain l2 where l2: "gL g (Term (l ! j)) = Some l2" "agree 0 (Suc j) l l2"
    using c l(1) j(3) leader_source unfolding coreOk_def by metis
  have "agree (base rf) (Suc j) l1 l" using agree_mono [OF agree_sym [OF l2(2)], of "base rf" "Suc j"] l1(1) l2(1) j(4) by simp
  then show ?thesis using agree_parts [OF server_commit_agree(2) [OF c s l] agree_trans [OF l1(2)]] by blast
qed

lemma server_terms_pos:
  assumes c: "coreOk N g gr" and s: "serverOk N g i rf"
  shows "0 \<le> fst (lastOf (take k (gF g i)))"
proof (cases "take k (gF g i) = []")
  case False
  let ?F = "gF g i" let ?j = "length (take k ?F) - 1"
  have j: "?j < length (take k ?F)" using False by (metis diff_less length_greater_0_conv zero_less_one)
  then have "?j < length ?F" "take k ?F ! ?j = ?F ! ?j" by auto
  then have "1 \<le> Term (take k ?F ! ?j)" using server_source [OF c s] leader_term_pos c unfolding coreOk_def by metis
  then show ?thesis using lastOf_nth [OF False] by simp
qed (simp only: lastOf_Nil fst_conv order_refl)

lemma server_last_ge:
  assumes c: "coreOk N g gr" and s: "serverOk N g i rf" and j: "base rf \<le> j" "j < length (gF g i)"
  shows "Term (gF g i ! j) \<le> fst (lastOf (gF g i))"
proof -
  let ?F = "gF g i" let ?e = "length ?F - 1"
  have ne: "?F \<noteq> []" and e: "base rf \<le> ?e \<and> ?e < length ?F" "Suc ?e = length ?F" "j \<le> ?e" using j by auto
  obtain l where l: "gL g (Term (?F ! ?e)) = Some l" "agree (base rf) (Suc ?e) ?F l"
    using s e(1) unfolding serverOk_def sourced_def by blast
  have "?e < length l" "l ! j = ?F ! j" "l ! ?e = ?F ! ?e"
    using agree_nth [OF l(2), of j] agree_nth [OF l(2), of ?e] e j l(2) by (auto simp: agree_def)
  then have "Term (?F ! j) \<le> Term (?F ! ?e)"
    using leader_terms_mono [where L = "gL g", OF _ l(1) e(3)] c unfolding coreOk_def by metis
  then show ?thesis using lastOf_nth [OF ne] by simp
qed

text \<open>What an accepted call does to the full log: nothing, or the leader's log up to the last entry sent.\<close>

definition mergedLog :: "nat \<Rightarrow> 'c LogEntry list \<Rightarrow> 'c LogEntry list \<Rightarrow> 'c LogEntry list" where
  "mergedLog k es F = (if commonTerms es (drop k F) = length es then F
     else take (k + commonTerms es (drop k F)) F @ drop (commonTerms es (drop k F)) es)"

lemma mergedLog_log:
  assumes "b \<le> k" "k \<le> length F"
  shows "mergeLog (k - b) es (drop b F) = drop b (mergedLog k es F)" "take b (mergedLog k es F) = take b F"
  using assms commonTerms_le(2) [of es "drop k F"]
  by (auto simp: mergeLog_def mergedLog_def Let_def take_drop min_def)

lemma merge_cases:
  assumes es: "es = take (length es) (drop k l)" "k + length es \<le> length l" and k: "agree 0 k F l"
    and match: "\<And>j. k \<le> j \<Longrightarrow> j < length F \<Longrightarrow> j < length l \<Longrightarrow> Term (F ! j) = Term (l ! j) \<Longrightarrow> agree 0 (Suc j) F l"
  obtains (same) "mergedLog k es F = F" "agree 0 (k + length es) F l"
  | (cut) d where "mergedLog k es F = take (k + length es) l" "k \<le> d" "d < k + length es" "agree 0 d F l"
      "d < length F \<longrightarrow> F ! d \<noteq> l ! d" "d \<le> length F"
proof -
  let ?c = "commonTerms es (drop k F)" let ?m = "length es"
  have c: "?c \<le> ?m" "k + ?c \<le> length F" using commonTerms_le [of es "drop k F"] k by (auto simp: agree_def)
  have nth: "es ! x = l ! (k + x)" if "x < ?m" for x
    using es that by (metis add_leE nth_drop nth_take)
  have a: "agree 0 (k + ?c) F l"
  proof (cases "?c = 0")
    case False
    then have x: "?c - 1 < ?c" "k + (?c - 1) < length F" "k + (?c - 1) < length l" "Suc (k + (?c - 1)) = k + ?c"
      using c es(2) by auto
    then have "Term (F ! (k + (?c - 1))) = Term (l ! (k + (?c - 1)))"
      using commonTerms_nth [OF x(1)] nth [of "?c - 1"] c by simp
    from match [OF _ x(2,3) this] x(4) show ?thesis by simp
  qed (use k in simp)
  show ?thesis
  proof (cases "?c = ?m")
    case True
    then show ?thesis using a same by (simp add: mergedLog_def)
  next
    case False
    then have lt: "?c < ?m" using c(1) by simp
    have "take (k + ?c) F = take (k + ?c) l" using a by (simp add: agree_zero)
    moreover have "drop ?c es = take (?m - ?c) (drop (k + ?c) l)" using es(1) by (metis add.commute drop_drop drop_take)
    moreover have "take (k + ?c) l @ take (?m - ?c) (drop (k + ?c) l) = take (k + ?m) l"
      using lt take_add [of "k + ?c" "?m - ?c" l] by simp
    ultimately have "mergedLog k es F = take (k + ?m) l" using False by (simp add: mergedLog_def)
    moreover have "F ! (k + ?c) \<noteq> l ! (k + ?c)" if "k + ?c < length F"
      using commonTerms_stop [OF lt] that nth [OF lt] by (force simp: less_diff_conv)
    ultimately show ?thesis using cut [of "k + ?c"] a lt c by simp
  qed
qed

text \<open>Where the log is cut, nothing committed is lost, and nothing acknowledged that the leader has.\<close>

lemma agree_before:
  assumes "agree b n F l" "d < length F \<longrightarrow> F ! d \<noteq> l ! d" "b \<le> d" "d \<le> length F"
  shows "n \<le> d"
  using assms by (force simp: agree_def not_le)

lemma keeps_cut:
  assumes L: "leaderLogs (gL g)" and a: "acked (gL g) A j t' n" and t: "gL g t = Some l" "gL g t' = Some l'" and le: "t' \<le> t"
    and k: "agree b n (gF g j) l'" and ag: "agree 0 n l' l" and d: "d < length (gF g j) \<longrightarrow> gF g j ! d \<noteq> l ! d" "b \<le> d" "d \<le> length (gF g j)"
    and m: "d < m" "m \<le> length l" and F': "gF g' j = take m l" "gL g' = gL g"
  shows "keeps g' j b t' n"
proof -
  have n: "1 \<le> n" "Term (l' ! (n - 1)) = t'" using a t(2) by (auto simp: acked_def)
  have nd: "n \<le> d" using agree_before [OF agree_trans [OF k agree_mono [OF ag]] d] by simp
  have "Term (l ! (n - 1)) \<le> Term (l ! (m - 1))"
    using nd m n(1) by (intro leader_terms_mono [OF L t(1)]) auto
  moreover have "l ! (n - 1) = l' ! (n - 1)" using agree_nth [OF ag, of "n - 1"] n(1) by simp
  ultimately have "t' \<le> Term (l ! (m - 1))" using n(2) by simp
  then have "lastGe (lastOf (take m l)) t' n" using lastOf_take [of m l] m nd by (auto simp: lastGe_def)
  moreover have "agree b n (take m l) l'" using agree_mono [OF agree_sym [OF ag], of b n] m nd by (auto simp: agree_def)
  ultimately show ?thesis using t(2) F' by (simp add: keeps_def)
qed

lemma ackOk_merge:
  assumes c: "coreOk N g gr" and s: "serverOk N g j rf" "ackOk g j rf" and l: "gL g t = Some l" "currentTerm rf \<le> t"
    and rf': "base rf' = base rf" "currentTerm rf' = t"
    and F': "gF g' j = F'" "gL g' = gL g" and new: "agree 0 km F' l"
    and A': "gA g' = (if base rf < km \<and> Term (l ! (km - 1)) = t then insert (j, t, km) (gA g) else gA g)"
    and cs: "F' = gF g j \<or> F' = take km l \<and>
      (\<exists>d. base rf \<le> d \<and> d < km \<and> d \<le> length (gF g j) \<and> (d < length (gF g j) \<longrightarrow> gF g j ! d \<noteq> l ! d))"
  shows "ackOk g' j rf'"
  unfolding ackOk_def rf'
proof (intro allI impI)
  let ?F = "gF g j" let ?b = "base rf"
  have L: "leaderLogs (gL g)" using c by (simp add: coreOk_def)
  have km: "km \<le> length l" "km \<le> length F'" using new by (auto simp: agree_def)
  fix t' n assume a': "acked (gL g') (gA g') j t' n"
  show "t' \<le> t \<and> ((\<exists>T. t' < T \<and> T \<le> t \<and> missing (gL g') t' n T) \<or> keeps g' j ?b t' n)"
  proof (cases "acked (gL g) (gA g) j t' n")
    case a: True
    obtain l' where l': "gL g t' = Some l'" "n \<le> length l'" using a unfolding acked_def by (auto dest: order_trans)
    have t': "t' \<le> t" and k: "(\<exists>T. t' < T \<and> T \<le> currentTerm rf \<and> missing (gL g) t' n T) \<or> keeps g j ?b t' n"
      using s(2) a l(2) unfolding ackOk_def by (meson order_trans)+
    have "missing (gL g) t' n t \<and> t' < t \<or> keeps g' j ?b t' n" if kp: "keeps g j ?b t' n"
    proof (cases "F' = ?F")
      case True
      then show ?thesis using kp F' by (simp add: keeps_def)
    next
      case False
      then obtain d where d: "F' = take km l" "?b \<le> d" "d < km" "d \<le> length ?F" "d < length ?F \<longrightarrow> ?F ! d \<noteq> l ! d"
        using cs by blast
      have kl: "agree ?b n ?F l'" using kp l' by (simp add: keeps_def)
      show ?thesis
      proof (cases "agree 0 n l' l")
        case True
        then show ?thesis using keeps_cut [OF L a l(1) l'(1) t' kl True d(5,2,4,3) km(1) _ F'(2)] F'(1) d(1) by simp
      next
        case False
        then have "t' \<noteq> t" using l l' by (auto simp: agree_refl)
        then show ?thesis using False l l' t' unfolding missing_def by fastforce
      qed
    qed
    then show ?thesis using k t' l(2) F'(2) by (metis order_trans order_refl)
  next
    case False
    then have n: "t' = t" "?b < km" "Term (l ! (km - 1)) = t" "n \<le> km" "1 \<le> n"
      using a' l(1) F'(2) unfolding acked_def A' by (auto split: if_splits)
    have km1: "?b \<le> km - 1" "km - 1 < length F'" "km - 1 < length l" using n(2) km by auto
    have last: "F' ! (km - 1) = l ! (km - 1)" using agree_nth [OF new, of "km - 1"] n(2) by simp
    have "lastGe (lastOf F') t km"
    proof (cases "F' = ?F")
      case True
      then have "t \<le> fst (lastOf F')" using server_last_ge [OF c s(1) km1(1)] km1(2) last n(3) by simp
      then show ?thesis using km(2) by (auto simp: lastGe_def)
    next
      case False
      then have "lastOf F' = (t, km)" using cs lastOf_take [of km l] km(1) n(2,3) by auto
      then show ?thesis by (simp add: lastGe_def)
    qed
    moreover have "agree ?b n F' l" using agree_mono [OF new _ n(4)] by simp
    ultimately show ?thesis using n l F' by (auto simp: keeps_def lastGe_def)
  qed
qed

lemma serverOk_merge:
  assumes c: "coreOk N g gr" and s: "serverOk N g j rf" and l: "gL g t = Some l" "currentTerm rf \<le> t"
    and rf': "lastIncludedIndex rf' = lastIncludedIndex rf" "lastIncludedTerm rf' = lastIncludedTerm rf" "currentTerm rf' = t"
      "log rf' = drop (base rf) F'" "take (base rf) F' = take (base rf) (gF g j)" "base rf \<le> length F'"
    and ci: "commitIndex rf' = commitIndex rf \<or>
      commitIndex rf < commitIndex rf' \<and> commitIndex rf' \<le> int km \<and> gCommitted N g t (take (nat (commitIndex rf')) l)"
    and F': "gF g' j = F'" "gL g' = gL g" "gA g \<subseteq> gA g'" and new: "agree 0 km F' l"
    and cs: "F' = gF g j \<or> F' = take km l \<and>
      (\<exists>d. base rf \<le> d \<and> d < km \<and> d \<le> length (gF g j) \<and> (d < length (gF g j) \<longrightarrow> gF g j ! d \<noteq> l ! d))"
  shows "serverOk N g' j rf'"
proof -
  let ?F = "gF g j" let ?b = "base rf" let ?ci = "nat (commitIndex rf)"
  have b: "base rf' = ?b" using rf'(1) by (simp add: base_def)
  have h: "holdsLog F' rf'" using s rf' b by (simp add: serverOk_def holdsLog_def)
  have L: "leaderLogs (gL g)" using c by (simp add: coreOk_def)
  have sc: "sourced (gL g) ?b F' \<and> (\<forall>e\<in>set F'. Term e \<le> t)"
  proof (cases "F' = ?F")
    case True
    then show ?thesis using s l(2) by (auto simp: serverOk_def intro: order_trans)
  next
    case False
    then have tk: "F' = take km l" using cs by blast
    have "\<exists>l1. gL g (Term (take km l ! x)) = Some l1 \<and> agree ?b (Suc x) (take km l) l1"
      if x: "x < length (take km l)" for x
    proof -
      obtain l1 where "gL g (Term (l ! x)) = Some l1" "agree 0 (Suc x) l l1" using leader_source [OF L l(1)] x by auto
      then show ?thesis using x by (auto simp: agree_def)
    qed
    moreover have "Term e \<le> t" if "e \<in> set (take km l)" for e
      using that leader_term_le [OF L l(1)] by (metis in_set_conv_nth in_set_takeD)
    ultimately show ?thesis unfolding tk sourced_def by blast
  qed
  have old: "agree 0 ?ci ?F F'" "?ci \<le> length F'"
  proof -
    have a: "agree 0 ?ci ?F l" using server_commit_agree(1) [OF c s l] .
    show "agree 0 ?ci ?F F'"
    proof (cases "F' = ?F")
      case True
      then show ?thesis using a by (simp add: agree_def)
    next
      case False
      then obtain d where d: "F' = take km l" "?b \<le> d" "d < km" "d \<le> length ?F" "d < length ?F \<longrightarrow> ?F ! d \<noteq> l ! d" using cs by blast
      have "?ci \<le> d" using agree_before [OF a d(5) _ d(4)] by simp
      then show ?thesis using a d(1,3) new by (auto simp: agree_def)
    qed
    then show "?ci \<le> length F'" by (simp add: agree_def)
  qed
  have "lastIncludedIndex rf \<le> commitIndex rf'" "commitIndex rf' \<le> int (length F')" "gCommitted N g t (take (nat (commitIndex rf')) F')"
  proof -
    have i: "lastIncludedIndex rf \<le> commitIndex rf" "gCommitted N g (currentTerm rf) (take ?ci ?F)" "0 \<le> commitIndex rf"
      using s by (auto simp: serverOk_def holdsLog_def)
    show "lastIncludedIndex rf \<le> commitIndex rf'" using ci i(1) by auto
    show "commitIndex rf' \<le> int (length F')" using ci old(2) new by (auto simp: agree_def nat_le_iff)
    have "take ?ci ?F = take ?ci F'" using old(1) by (simp add: agree_zero)
    then have "gCommitted N g t (take ?ci F')" using committed_mono [OF i(2) l(2)] by simp
    moreover have "take (nat x) F' = take (nat x) l" if "x \<le> int km" for x
      using agree_mono [OF new order_refl, of "nat x"] that by (simp add: agree_zero nat_le_iff)
    ultimately show "gCommitted N g t (take (nat (commitIndex rf')) F')" using ci by metis
  qed
  then show ?thesis
    using h sc b s l(2) rf'(1,3) F' committed_grows [of N "gL g" "gA g" t _ "gL g'" "gA g'" t] unfolding serverOk_def by auto
qed

lemma accepted_call:
  assumes core: "coreOk N g gr" and so: "serverOk N g j rf" and ap: "appOk N g args" and acc: "aeAccepts args rf"
  obtains k l where "aea_PrevLogIndex args = int k" "base rf \<le> k" "k \<le> length (gF g j)" "gL g (aea_Term args) = Some l"
    "k + length (aea_Entries args) \<le> length l" "aea_Entries args = take (length (aea_Entries args)) (drop k l)"
    "aea_LeaderCommit args \<le> int (k + length (aea_Entries args))"
    "gCommitted N g (aea_Term args) (take (nat (aea_LeaderCommit args)) l)" "agree 0 k (gF g j) l"
proof -
  let ?F = "gF g j" let ?b = "base rf" let ?t = "aea_Term args" let ?es = "aea_Entries args"
  have h: "holdsLog ?F rf" using so by (simp add: serverOk_def)
  have ac: "currentTerm rf \<le> ?t" "int ?b \<le> aea_PrevLogIndex args" "aea_PrevLogIndex args \<le> int (length ?F)"
    "termAt rf (aea_PrevLogIndex args) = aea_PrevLogTerm args"
    using acc holds_lastLogIndex [OF h] h by (auto simp: aeAccepts_def holdsLog_def)
  obtain k where kp: "aea_PrevLogIndex args = int k" "?b \<le> k" "k \<le> length ?F"
    using ac(2,3) by (metis nonneg_int_cases of_nat_0_le_iff of_nat_le_iff order_trans)
  have tk: "aea_PrevLogTerm args = fst (lastOf (take k ?F))" using holds_termAt [OF h kp(2,3)] ac(4) kp(1) by simp
  then have "aea_PrevLogTerm args \<noteq> -1" using server_terms_pos [OF core so, of k] by simp
  then obtain l where l: "gL g ?t = Some l" and a: "k + length ?es \<le> length l" "?es = take (length ?es) (drop k l)"
    "fst (lastOf (take k ?F)) = fst (lastOf (take k l))" "aea_LeaderCommit args \<le> int (k + length ?es)"
    "gCommitted N g ?t (take (nat (aea_LeaderCommit args)) l)"
    using ap kp(1) tk unfolding appOk_def by auto
  have "agree 0 k ?F l"
  proof (cases "k = ?b")
    case False
    then have x: "?b \<le> k - 1" "k - 1 < length ?F" "k - 1 < length l" "Suc (k - 1) = k" using kp a(1) by auto
    then have "Term (?F ! (k - 1)) = Term (l ! (k - 1))" using a(3) lastOf_take [of k ?F] lastOf_take [of k l] by simp
    from log_matching [OF core so l ac(1) x(1-3) this] x(4) show ?thesis by simp
  qed (use server_commit_agree(2) [OF core so l ac(1)] in simp)
  then show ?thesis using that kp l a by blast
qed

lemma accepted_merge:
  assumes core: "coreOk N g gr" and so: "serverOk N g j rf" and l: "gL g t = Some l" "currentTerm rf \<le> t"
    and k: "base rf \<le> k" "agree 0 k (gF g j) l" and es: "k + length es \<le> length l" "es = take (length es) (drop k l)"
    and F': "F' = mergedLog k es (gF g j)" and km: "km = k + length es"
  shows "agree 0 km F' l" "F' = gF g j \<or> F' = take km l \<and>
      (\<exists>d. base rf \<le> d \<and> d < km \<and> d \<le> length (gF g j) \<and> (d < length (gF g j) \<longrightarrow> gF g j ! d \<noteq> l ! d))"
proof -
  have m: "agree 0 (Suc x) (gF g j) l" if "k \<le> x" "x < length (gF g j)" "x < length l" "Term (gF g j ! x) = Term (l ! x)" for x
    using log_matching [OF core so l] that k(1) by simp
  show "agree 0 km F' l"
    by (rule merge_cases [OF es(2,1) k(2) m]) (use es(1) in \<open>auto simp: F' km agree_def\<close>)
  show "F' = gF g j \<or> F' = take km l \<and>
      (\<exists>d. base rf \<le> d \<and> d < km \<and> d \<le> length (gF g j) \<and> (d < length (gF g j) \<longrightarrow> gF g j ! d \<noteq> l ! d))"
    by (rule merge_cases [OF es(2,1) k(2) m]) (use k(1) in \<open>auto simp: F' km intro: order_trans\<close>)
qed

lemma accepted_fields:
  assumes acc: "aeAccepts args rf" and ae: "AppendEntries rnd args rf = (rf', reply)" and h: "holdsLog F rf"
    and kp: "aea_PrevLogIndex args = int k" "base rf \<le> k" "k \<le> length F" and F': "F' = mergedLog k (aea_Entries args) F"
    and lc: "aea_LeaderCommit args \<le> int (length F')"
  shows "lastIncludedIndex rf' = lastIncludedIndex rf" "lastIncludedTerm rf' = lastIncludedTerm rf"
    "currentTerm rf' = aea_Term args" "log rf' = drop (base rf) F'" "take (base rf) F' = take (base rf) F" "base rf \<le> length F'"
    "state rf' = StateFollower"
    "commitIndex rf' = (if commitIndex rf < aea_LeaderCommit args then aea_LeaderCommit args else commitIndex rf)"
proof -
  have pos: "nat (aea_PrevLogIndex args - lastIncludedIndex rf) = k - base rf" using kp h by (auto simp: holdsLog_def)
  have mg: "log (aeMerged rnd args rf) = drop (base rf) F'" "take (base rf) F' = take (base rf) F"
    using mergedLog_log [OF kp(2,3)] h pos by (auto simp: F' holdsLog_def)
  have b: "base rf \<le> length F" using kp by simp
  show len: "base rf \<le> length F'" using mg(2) b by (metis length_take min.absorb_iff2)
  show "take (base rf) F' = take (base rf) F" by (rule mg(2))
  have last: "lastLogIndex (aeMerged rnd args rf) = int (length F')" using mg(1) len h by (auto simp: lastLogIndex_def holdsLog_def)
  have "state (aeMerged rnd args rf) = StateFollower" by (simp add: aeMerged_def)
  then show "lastIncludedIndex rf' = lastIncludedIndex rf" "lastIncludedTerm rf' = lastIncludedTerm rf"
    "currentTerm rf' = aea_Term args" "log rf' = drop (base rf) F'" "state rf' = StateFollower"
    "commitIndex rf' = (if commitIndex rf < aea_LeaderCommit args then aea_LeaderCommit args else commitIndex rf)"
    using ae acc mg(1) lc last unfolding AppendEntries_accepts [OF acc] Let_def by auto
qed

lemma raftInv_append_accept:
  assumes I: "raftInv N g s" and m: "AppReq i k0 j args \<in># net s" and acc: "aeAccepts args (node s j)"
    and ae: "AppendEntries rnd args (node s j) = (rf', reply)"
    and s': "s' = s\<lparr>node := (node s)(j := rf'), net := net s - {#AppReq i k0 j args#} + {#AppRep i k0 j args reply#}\<rparr>"
  shows "raftNext N g s'"
proof -
  let ?rf = "node s j" let ?F = "gF g j" let ?b = "base ?rf" let ?t = "aea_Term args"
  have st: "cstep s s'" unfolding s' by (rule append_request [OF m ae])
  have E: "electionInv s" "nservers s = N" and core: "coreOk N g (granted s)" and mo: "i < N" "j < N" "i \<noteq> j" "appOk N g args"
    using I m by (auto simp: raftInv_def)
  have so: "serverOk N g j ?rf" "ackOk g j ?rf" and h: "holdsLog ?F ?rf" using I mo(2) by (auto simp: raftInv_def srvOk_def serverOk_def)
  have ac: "currentTerm ?rf \<le> ?t" using acc by (simp add: aeAccepts_def)
  obtain k l where kp: "aea_PrevLogIndex args = int k" "?b \<le> k" "k \<le> length ?F" and l: "gL g ?t = Some l"
    and a: "k + length (aea_Entries args) \<le> length l" "aea_Entries args = take (length (aea_Entries args)) (drop k l)"
      "aea_LeaderCommit args \<le> int (k + length (aea_Entries args))" "gCommitted N g ?t (take (nat (aea_LeaderCommit args)) l)"
      "agree 0 k ?F l"
    by (rule accepted_call [OF core so(1) mo(4) acc])
  define F' where "F' = mergedLog k (aea_Entries args) ?F"
  define km where "km = k + length (aea_Entries args)"
  note F' = accepted_merge [OF core so(1) l ac kp(2) a(5,1,2) F'_def km_def]
  have "km \<le> length F'" using F'(1) by (simp add: agree_def)
  then have "aea_LeaderCommit args \<le> int (length F')" using a(3) by (simp add: km_def)
  note f = accepted_fields [OF acc ae h kp F'_def this]
  define g' where "g' = g\<lparr>gF := (gF g)(j := F'),
    gA := (if ?b < km \<and> Term (l ! (km - 1)) = ?t then insert (j, ?t, km) (gA g) else gA g)\<rparr>"
  have g': "gF g' j = F'" "gL g' = gL g" "gA g \<subseteq> gA g'" "gOwner g' = gOwner g" "gLast g' = gLast g"
    "gA g' = (if ?b < km \<and> Term (l ! (km - 1)) = ?t then insert (j, ?t, km) (gA g) else gA g)" by (auto simp: g'_def)
  have gg: "ghostGrow j (currentTerm ?rf) g g'" using ac by (auto simp: ghostGrow_def g'_def)
  have A': "acksOk (gL g') (gA g')" using core l a(1) by (auto simp: coreOk_def acksOk_def g' km_def)
  have core': "coreOk N g' (granted s)"
    using core granted_current [OF E(1)] g'
    by (intro coreOk_grow [where cur = "\<lambda>i. currentTerm (node s i)", OF core gg _ _ A']) (auto simp: coreOk_def)
  have "serverOk N g' j rf'"
    using F' f(8) a(3,4) by (intro serverOk_merge [OF core so(1) l ac f(1-6) _ g'(1-3)]) (auto simp: km_def)
  moreover have "base rf' = ?b" using f(1) by (simp add: base_def)
  then have "ackOk g' j rf'" using ackOk_merge [OF core so l ac _ f(3) g'(1,2) F'(1) g'(6) F'(2)] by blast
  ultimately have "srvOk N g' j rf'" using f(7) by (simp add: srvOk_def leaderOk_def candOk_def)
  moreover have "matchOk N g' ?t j (int km)"
  proof (cases "?b < km")
    case True
    then have "1 \<le> km" "km \<le> length l" using a(1) by (simp_all add: km_def)
    then show ?thesis using True l g' by (auto simp: matchOk_def acked_def)
  next
    case False
    then have "km = ?b" using kp(2) by (simp add: km_def)
    moreover have "take ?b l = take ?b ?F" using server_commit_agree(2) [OF core so(1) l ac] by (simp add: agree_zero)
    ultimately have "gCommitted N g' ?t (take km l)"
      using committed_grows [OF server_base_committed [OF so(1)], of "gL g'" "gA g'" ?t] g' ac by simp
    moreover have "km \<le> length l" using a(1) by (simp add: km_def)
    ultimately show ?thesis using l g'(2) unfolding matchOk_def by auto
  qed
  ultimately have "raftInv N g' s'"
    using core' E(2) cstep_electionInv [OF st E(1)] s' f(3) ac mo g'(5) kp(1)
    by (intro raftInv_step [OF I _ _ _ _ _ gg]) (auto simp: km_def dest: in_diffD)
  then show ?thesis using gg by (rule raftNext_grow)
qed

lemma raftInv_append_request:
  assumes I: "raftInv N g s" and m: "AppReq i k j args \<in># net s" and ae: "AppendEntries rnd args (node s j) = (rf', reply)"
    and s': "s' = s\<lparr>node := (node s)(j := rf'), net := net s - {#AppReq i k j args#} + {#AppRep i k j args reply#}\<rparr>"
  shows "raftNext N g s'"
proof (cases "aeAccepts args (node s j)")
  case False
  have st: "cstep s s'" unfolding s' by (rule append_request [OF m ae])
  have mo: "i < N" "j < N" "i \<noteq> j" using I m by (auto simp: raftInv_def)
  have "calm (node s j) rf' \<and> \<not> aer_Success reply"
  proof (cases "aea_Term args < currentTerm (node s j)")
    case True
    then show ?thesis using ae AppendEntries_stale [OF True] by (auto simp: calm_refl)
  next
    case nf: False
    then obtain ct ci where "AppendEntries rnd args (node s j) = (aePrepared rnd args (node s j),
        \<lparr>aer_Term = aea_Term args, aer_Success = False, aer_ConflictTerm = ct, aer_ConflictIndex = ci\<rparr>)"
      using AppendEntries_rejects [OF _ False] by (metis not_le)
    then show ?thesis using ae nf by (auto simp: calm_def sameLog_def)
  qed
  then have "raftInv N g s'"
    using mo by (intro raftInv_calm [OF I st _ _ mo(2)]) (auto simp: s' dest: in_diffD)
  then show ?thesis by (rule raftNext_same)
qed (rule raftInv_append_accept [OF I m _ ae s'])

end
