(* ===== verification/Raft_Safety_Steps.thy ===== *)
theory Raft_Safety_Steps
  imports Raft_Safety_Log
begin

text \<open>
  The other steps keep the invariant: replication and its replies with the commitment of entries, snapshots,
  the apply loop, lost messages and restarts.
\<close>

section \<open>Commitment by a leader\<close>

lemma match_term:
  assumes L: "leaderLogs (gL g)" "gL g t = Some l" and m: "0 < m" "int m \<le> mi" "Term (l ! (m - 1)) = t" and ok: "matchOk N g t p mi"
  shows "acked (gL g) (gA g) p t m \<or> gCommitted N g t (take m l)"
proof -
  have mi: "mi \<le> int (length l)" "Term (l ! (nat mi - 1)) \<noteq> t \<or> acked (gL g) (gA g) p t (nat mi) \<or> gCommitted N g t (take (nat mi) l)"
    using ok m L(2) by (auto simp: matchOk_def)
  have le: "m \<le> nat mi" "nat mi \<le> length l" using m mi(1) by linarith+
  have "t \<le> Term (l ! (nat mi - 1))" using leader_terms_mono [OF L, of "m - 1" "nat mi - 1"] m le by auto
  moreover have "Term (l ! (nat mi - 1)) \<le> t" using leader_term_le [OF L, of "nat mi - 1"] m(1) le by auto
  ultimately consider "acked (gL g) (gA g) p t (nat mi)" | "gCommitted N g t (take (nat mi) l)" using mi(2) by auto
  then show ?thesis
  proof cases
    case 1
    then show ?thesis using L(2) m le unfolding acked_def by (auto intro: order_trans)
  next
    case 2
    then have "gCommitted N g t (take m (take (nat mi) l))" by (rule committed_prefix) (use le in simp)
    then show ?thesis using le by (simp add: min_def)
  qed
qed

lemma committable_committed:
  assumes core: "coreOk N g gr" and lead: "leaderOk N g i rf" "state rf = StateLeader" and h: "holdsLog (gF g i) rf"
    and id: "me rf = i" "peers rf = N" "i < N" and c: "committable rf (int m)" and m: "base rf < m" "m \<le> length (gF g i)"
  shows "gCommitted N g (currentTerm rf) (take m (gF g i))"
proof -
  let ?T = "currentTerm rf" let ?F = "gF g i"
  define Q where "Q = {p. p < N \<and> p \<noteq> i \<and> int m \<le> matchIndex rf ! p}"
  have L: "leaderLogs (gL g)" using core by (simp add: coreOk_def)
  have l: "gL g ?T = Some ?F" "\<And>p. p < N \<Longrightarrow> p \<noteq> i \<Longrightarrow> matchOk N g ?T p (matchIndex rf ! p)"
    and own: "?F \<noteq> [] \<Longrightarrow> Term (last ?F) = ?T \<Longrightarrow> (i, ?T, length ?F) \<in> gA g"
    using lead by (auto simp: leaderOk_def)
  have tm: "Term (?F ! (m - 1)) = ?T" using c holds_termAt [OF h, of m] m lastOf_take [of m ?F] by (simp add: committable_def)
  have "{x. x < N \<and> x \<noteq> i \<and> int m \<le> matchIndex rf ! x} = Q" by (simp add: Q_def)
  then have "N div 2 < 1 + card Q" using c id by (simp add: committable_def matchCount_def length_filter_conv_card cong: conj_cong)
  moreover have "i \<notin> Q" "finite Q" by (simp_all add: Q_def)
  ultimately have maj: "majorityOf N (insert i Q)" using id(3) by (auto simp: majorityOf_def Q_def)
  show ?thesis
  proof (cases "\<forall>p\<in>Q. acked (gL g) (gA g) p ?T m")
    case False
    then obtain p where p: "p < N" "p \<noteq> i" "int m \<le> matchIndex rf ! p" "\<not> acked (gL g) (gA g) p ?T m" by (auto simp: Q_def)
    then show ?thesis using match_term [OF L l(1) _ p(3) tm l(2)] m(1) by simp
  next
    case True
    have ne: "?F \<noteq> []" and j: "m - 1 \<le> length ?F - 1" "length ?F - 1 < length ?F" using m by auto
    have "?T \<le> Term (last ?F)" using leader_terms_mono [OF L l(1) j] tm ne by (simp add: last_conv_nth)
    then have "Term (last ?F) = ?T" using leader_term_le [OF L l(1) j(2)] ne by (simp add: last_conv_nth)
    then have "acked (gL g) (gA g) i ?T m" using own ne l(1) m tm unfolding acked_def by (intro exI [of _ ?F] exI [of _ "length ?F"]) auto
    then have "chosen N (gL g) (gA g) ?T m" using True maj unfolding chosen_def by blast
    then show ?thesis using l(1) m(2) unfolding committed_def by (intro disjI2 exI [of _ ?T] exI [of _ m] exI [of _ ?F]) (auto simp: agree_def)
  qed
qed

text \<open>A leader learns how far a peer has come.\<close>

lemma srvOk_match:
  assumes s: "srvOk N g i rf" and m: "matchOk N g (currentTerm rf) p v" and c: "calm (rf\<lparr>matchIndex := (matchIndex rf)[p := v]\<rparr>) rf'"
  shows "srvOk N g i rf'"
proof (rule srvOk_calm [OF _ c])
  have "matchOk N g (currentTerm rf) q ((matchIndex rf)[p := v] ! q)" if "q < N" "q \<noteq> i" "state rf = StateLeader" for q
    using s m that by (cases "q = p") (auto simp: srvOk_def leaderOk_def)
  then show "srvOk N g i (rf\<lparr>matchIndex := (matchIndex rf)[p := v]\<rparr>)"
    using s unfolding srvOk_def serverOk_def leaderOk_def candOk_def ackOk_def holdsLog_def base_def by auto
qed

lemma srvOk_tryCommit:
  assumes core: "coreOk N g gr" and s: "srvOk N g i rf" and lead: "state rf = StateLeader" and id: "me rf = i" "peers rf = N" "i < N"
  shows "srvOk N g i (tryCommit rf)"
proof (cases rule: tryCommit_cases [of rf])
  case (moved m)
  have so: "serverOk N g i rf" "leaderOk N g i rf" "holdsLog (gF g i) rf" using s by (auto simp: srvOk_def serverOk_def)
  have ci: "lastIncludedIndex rf = int (base rf)" "lastIncludedIndex rf \<le> commitIndex rf" using so by (auto simp: serverOk_def holdsLog_def)
  have m: "m = int (nat m)" "base rf < nat m" "nat m \<le> length (gF g i)"
    using moved(1,2) ci holds_lastLogIndex [OF so(3)] by linarith+
  have "gCommitted N g (currentTerm rf) (take (nat m) (gF g i))"
    using committable_committed [OF core so(2) lead so(3) id _ m(2,3)] moved(3) m(1) by simp
  then show ?thesis using s moved m unfolding moved(4)
    by (auto simp: srvOk_def serverOk_def leaderOk_def candOk_def ackOk_def holdsLog_def base_def)
qed (use s in simp)

lemma raftInv_append_reply:
  assumes I: "raftInv N g s" and m: "AppRep i (incarnation s i) j args reply \<in># net s"
    and rf': "rf' = handleAppendReply j args reply (node s i)"
    and s': "s' = s\<lparr>node := (node s)(i := rf'), net := net s - {#AppRep i (incarnation s i) j args reply#}\<rparr>"
  shows "raftInv N g s'"
proof -
  let ?rf = "node s i"
  have st: "cstep s s'" unfolding s' by (rule append_reply [OF m rf'])
  have mo: "i < N" "aer_Success reply \<longrightarrow> matchOk N g (aea_Term args) j (aea_PrevLogIndex args + int (length (aea_Entries args)))"
    using I m by (auto simp: raftInv_def)
  have core: "coreOk N g (granted s)" and srv: "srvOk N g i ?rf" using I mo(1) by (auto simp: raftInv_def)
  have id: "me ?rf = i" "peers ?rf = N" using I mo(1) by (auto simp: raftInv_def electionInv_def inv_ids_def)
  show ?thesis
  proof (cases "aer_Term reply \<le> currentTerm ?rf \<and> state ?rf = StateLeader \<and> currentTerm ?rf = aea_Term args \<and> aer_Success reply")
    case True
    let ?v = "aea_PrevLogIndex args + int (length (aea_Entries args))"
    define rf1 where "rf1 = (if matchIndex ?rf ! j < ?v then setMatchIndex j ?v ?rf else ?rf)"
    define rf2 where "rf2 = setNextIndex j (matchIndex rf1 ! j + 1) rf1"
    have eq: "rf' = tryCommit rf2" using True unfolding rf' rf2_def rf1_def handleAppendReply_def Let_def by auto
    have "srvOk N g i rf2"
    proof (cases "matchIndex ?rf ! j < ?v")
      case less: True
      have "calm (?rf\<lparr>matchIndex := (matchIndex ?rf)[j := ?v]\<rparr>) rf2"
        using less by (simp add: rf2_def rf1_def calm_def sameLog_def setMatchIndex_def)
      then show ?thesis using srvOk_match [OF srv] mo(2) True by auto
    next
      case False
      then have "calm ?rf rf2" by (simp add: rf2_def rf1_def calm_def sameLog_def)
      then show ?thesis using srvOk_calm [OF srv] by simp
    qed
    moreover have "state rf2 = StateLeader" "me rf2 = i" "peers rf2 = N" "currentTerm rf2 = currentTerm ?rf"
      using True id by (simp_all add: rf2_def rf1_def)
    ultimately have "srvOk N g i rf'" "currentTerm ?rf \<le> currentTerm rf'" using srvOk_tryCommit [OF core, of i rf2] mo(1) eq by simp_all
    then show ?thesis by (intro raftInv_same [OF I st _ _ mo(1)]) (auto simp: s' dest: in_diffD)
  next
    case False
    then have "calm ?rf rf'"
      by (auto simp: rf' handleAppendReply_def Let_def calm_def sameLog_def)
    then show ?thesis by (intro raftInv_calm [OF I st _ _ mo(1)]) (auto simp: s' dest: in_diffD)
  qed
qed

section \<open>Replication\<close>

lemma replicateTo_ok:
  assumes s: "srvOk N g i rf" and r: "m \<in># callMsgs i k p (replicateTo p rf)" and p: "i < N" "p < N" "p \<noteq> i"
  shows "msgOk N g cur gr m"
proof -
  let ?F = "gF g i" let ?T = "currentTerm rf"
  have h: "holdsLog ?F rf" and so: "serverOk N g i rf" using s by (auto simp: srvOk_def serverOk_def)
  have lead: "state rf = StateLeader" using r by (auto simp: replicateTo_def split: if_splits)
  have l: "gL g ?T = Some ?F" using s lead by (simp add: srvOk_def leaderOk_def)
  have b: "lastIncludedIndex rf = int (base rf)" "base rf \<le> length ?F" "log rf = drop (base rf) ?F" using h by (auto simp: holdsLog_def)
  note last = holds_lastLogIndex [OF h]
  let ?n = "nextIndex rf ! p"
  show ?thesis
  proof (cases "?n \<le> lastIncludedIndex rf")
    case True
    have "snapOk N g ?T (lastIncludedIndex rf) (lastIncludedTerm rf)"
      using server_base_committed [OF so] h unfolding snapOk_def
      by (intro exI [of _ "take (base rf) ?F"]) (auto simp: holdsLog_def)
    then show ?thesis using r True lead p by (auto simp: replicateTo_def Let_def)
  next
    case False
    define k where "k = nat (?n - 1)"
    have k: "?n - 1 = int k" "base rf \<le> k" using False b(1) by (auto simp: k_def)
    define args where "args = \<lparr>aea_Term = ?T, aea_LeaderId = int (me rf), aea_PrevLogIndex = ?n - 1, aea_PrevLogTerm = termAt rf (?n - 1),
      aea_Entries = (if ?n \<le> lastLogIndex rf then drop (nat (toSliceIndex rf ?n)) (log rf) else []), aea_LeaderCommit = commitIndex rf\<rparr>"
    have "appOk N g args"
    proof (cases "k \<le> length ?F")
      case True
      have "nat (toSliceIndex rf ?n) + base rf = k" using k b(1) by (simp add: toSliceIndex_def)
      then have es: "aea_Entries args = drop k ?F" using True k last b by (auto simp: args_def)
      have "aea_PrevLogTerm args = fst (lastOf (take k ?F))" using holds_termAt [OF h k(2) True] k(1) by (simp add: args_def)
      moreover have "aea_LeaderCommit args \<le> int (length ?F)" "gCommitted N g ?T (take (nat (aea_LeaderCommit args)) ?F)"
        using so by (auto simp: args_def serverOk_def)
      ultimately show ?thesis using l es True k(1) unfolding appOk_def
        by (intro exI [of _ ?F] conjI disjI2 exI [of _ k]) (auto simp: args_def)
    next
      case False
      then have "aea_PrevLogTerm args = -1" using holds_termAt_beyond [OF h] k(1) by (simp add: args_def)
      then show ?thesis using l by (auto simp: appOk_def args_def)
    qed
    then show ?thesis using r False lead p by (auto simp: replicateTo_def Let_def args_def)
  qed
qed

lemma raftInv_replicate_call:
  assumes I: "raftInv N g s" and m: "ReplTask i (incarnation s i) p \<in># net s"
    and s': "s' = s\<lparr>net := net s - {#ReplTask i (incarnation s i) p#} + callMsgs i (incarnation s i) p (replicateTo p (node s i))\<rparr>"
  shows "raftInv N g s'"
proof -
  have mo: "i < N" "p < N" "p \<noteq> i" using I m by (auto simp: raftInv_def)
  have st: "cstep s s'" unfolding s' by (rule replicate_call [OF m])
  show ?thesis
  proof (rule raftInv_calm [OF I st _ _ mo(1) calm_refl])
    fix x assume "x \<in># net s'"
    then show "x \<in># net s \<or> msgOk N g (\<lambda>i. currentTerm (node s' i)) (granted s) x"
      using replicateTo_ok [of N g i "node s i" x] I mo by (auto simp: s' raftInv_def dest: in_diffD)
  qed (simp_all add: s')
qed

section \<open>Snapshots\<close>

lemma raftInv_snap_request:
  assumes I: "raftInv N g s" and m: "SnapReq i k j args \<in># net s" and ins: "InstallSnapshot rnd args (node s j) = (rf', reply, out)"
    and s': "s' = s\<lparr>node := (node s)(j := rf'), net := net s - {#SnapReq i k j args#} + {#SnapRep i k j args reply#} +
                     (case out of None \<Rightarrow> {#} | Some m \<Rightarrow> {#SnapMsg j (incarnation s j) m#})\<rparr>"
  shows "raftInv N g s'"
proof -
  have st: "cstep s s'" unfolding s' by (rule snap_request [OF m ins])
  have mo: "i < N" "j < N" "i \<noteq> j" and ok: "snapOk N g (isa_Term args) (isa_LastIncludedIndex args) (isa_LastIncludedTerm args)"
    using I m by (auto simp: raftInv_def)
  have calm: "calm (node s j) rf'"
    using ins by (auto simp: InstallSnapshot_def Let_def calm_def sameLog_def split: if_splits)
  have out: "out = None \<or> out = Some (snapshotMsg args) \<and> currentTerm rf' = isa_Term args"
    using ins by (auto simp: InstallSnapshot_def Let_def split: if_splits)
  show ?thesis
    by (rule raftInv_calm [OF I st _ _ mo(2) calm]) (use mo ok out in \<open>auto simp: s' snapshotMsg_def dest: in_diffD\<close>)
qed

lemma raftInv_snap_reply:
  assumes I: "raftInv N g s" and m: "SnapRep i (incarnation s i) j args reply \<in># net s"
    and rf': "rf' = handleSnapshotReply j args reply (node s i)"
    and s': "s' = s\<lparr>node := (node s)(i := rf'), net := net s - {#SnapRep i (incarnation s i) j args reply#}\<rparr>"
  shows "raftInv N g s'"
proof -
  let ?rf = "node s i" let ?v = "isa_LastIncludedIndex args"
  have st: "cstep s s'" unfolding s' by (rule snap_reply [OF m rf'])
  have mo: "i < N" and ok: "snapOk N g (isa_Term args) ?v (isa_LastIncludedTerm args)" using I m by (auto simp: raftInv_def)
  have core: "coreOk N g (granted s)" and srv: "srvOk N g i ?rf" using I mo by (auto simp: raftInv_def)
  have up: "currentTerm ?rf \<le> currentTerm rf'" by (simp add: rf' handleSnapshotReply_def Let_def)
  have "srvOk N g i rf'"
  proof (cases "isr_Term reply \<le> currentTerm ?rf \<and> state ?rf = StateLeader \<and> currentTerm ?rf = isa_Term args \<and> matchIndex ?rf ! j < ?v")
    case True
    then have l: "gL g (currentTerm ?rf) = Some (gF g i)" using srv by (simp add: srvOk_def leaderOk_def)
    obtain xs where xs: "?v = int (length xs)" "gCommitted N g (currentTerm ?rf) xs" using ok True unfolding snapOk_def by auto
    have "agree 0 (length xs) xs (gF g i)" using committed_in_leader [OF core_elections [OF core] xs(2) l] by simp
    then have "take (length xs) (gF g i) = xs" "length xs \<le> length (gF g i)" by (simp_all add: agree_zero)
    then have "matchOk N g (currentTerm ?rf) j ?v" using l xs unfolding matchOk_def by auto
    moreover have "calm (?rf\<lparr>matchIndex := (matchIndex ?rf)[j := ?v]\<rparr>) rf'"
      using True by (simp add: rf' handleSnapshotReply_def Let_def calm_def sameLog_def setMatchIndex_def setNextIndex_def)
    ultimately show ?thesis using srvOk_match [OF srv] by blast
  next
    case False
    then have "calm ?rf rf'" by (auto simp: rf' handleSnapshotReply_def Let_def calm_def sameLog_def)
    then show ?thesis by (rule srvOk_calm [OF srv])
  qed
  then show ?thesis using up by (intro raftInv_same [OF I st _ _ mo]) (auto simp: s' dest: in_diffD)
qed

lemma raftInv_service_snapshot:
  assumes I: "raftInv N g s" and i: "i < nservers s" and sn: "Snapshot index data (node s i) = Inr rf'"
    and c: "lastIncludedIndex rf' \<le> commitIndex rf'" and s': "s' = s\<lparr>node := (node s)(i := rf')\<rparr>"
  shows "raftInv N g s'"
proof -
  let ?rf = "node s i" let ?F = "gF g i"
  have st: "cstep s s'" unfolding s' by (rule service_snapshot [OF i sn])
  have iN: "i < N" and srv: "srvOk N g i ?rf" using I i by (auto simp: raftInv_def)
  have so: "serverOk N g i ?rf" "holdsLog ?F ?rf" using srv by (auto simp: srvOk_def serverOk_def)
  have b: "lastIncludedIndex ?rf = int (base ?rf)" "log ?rf = drop (base ?rf) ?F" using so(2) by (auto simp: holdsLog_def)
  show ?thesis
  proof (cases "index \<le> lastIncludedIndex ?rf")
    case True
    then have "node s i = rf'" using sn by (simp add: Snapshot_def)
    then have "s' = s" using s' by auto
    then show ?thesis using I by simp
  next
    case False
    then have r: "index \<le> int (length ?F)" "rf' = saveWithSnapshot data (?rf\<lparr>lastIncludedTerm := termAt ?rf index,
        log := drop (nat (index - lastIncludedIndex ?rf)) (log ?rf), lastIncludedIndex := index\<rparr>)"
      using sn holds_lastLogIndex [OF so(2)] by (auto simp: Snapshot_result split: if_splits)
    define k where "k = nat index"
    have k: "index = int k" "base ?rf < k" "k \<le> length ?F" using False b(1) r(1) by (auto simp: k_def)
    have f: "base rf' = k" "log rf' = drop k ?F" "lastIncludedTerm rf' = fst (lastOf (take k ?F))" "lastIncludedIndex rf' = int k"
      "commitIndex rf' = commitIndex ?rf" "currentTerm rf' = currentTerm ?rf" "state rf' = state ?rf" "matchIndex rf' = matchIndex ?rf"
    proof -
      have "nat (index - lastIncludedIndex ?rf) + base ?rf = k" using k b(1) by simp
      then have "drop (nat (index - lastIncludedIndex ?rf)) (log ?rf) = drop k ?F" using b(2) by simp
      then show "log rf' = drop k ?F" using r(2) by simp
      show "lastIncludedTerm rf' = fst (lastOf (take k ?F))" using r(2) k holds_termAt [OF so(2), of k] by simp
    qed (simp_all add: r(2) k(1) base_def)
    have "holdsLog ?F rf'" using f k by (simp add: holdsLog_def)
    moreover have "sourced (gL g) k ?F" using so(1) k(2) sourced_grows [of "gL g" "base ?rf" ?F "gL g" k] by (simp add: serverOk_def)
    ultimately have "serverOk N g i rf'" using so(1) f c by (simp add: serverOk_def)
    moreover have "ackOk g i rf'"
      using srv agree_mono [where a = "base ?rf" and a' = k] k(2) unfolding srvOk_def ackOk_def keeps_def f by (meson less_imp_le order_refl)
    moreover have "candOk g i rf'" "leaderOk N g i rf'"
      using srv f k by (auto simp: srvOk_def candOk_def leaderOk_def)
    ultimately have "srvOk N g i rf'" by (simp add: srvOk_def)
    then show ?thesis using f(6) by (intro raftInv_same [OF I st _ _ iN]) (auto simp: s')
  qed
qed

text \<open>What a committed prefix says of an entry that a server has acknowledged within its length.\<close>

lemma committed_lastGe:
  assumes E: "electionsOk N L A" and c: "committed N L A cur xs" and a: "acked L A p t n" and n: "n \<le> length xs"
  shows "(\<exists>T. t < T \<and> T \<le> cur \<and> missing L t n T) \<or> lastGe (lastOf xs) t n"
proof -
  obtain l where l: "L t = Some l" "1 \<le> n" "n \<le> length l" "Term (l ! (n - 1)) = t" using a unfolding acked_def by (auto dest: order_trans)
  have LL: "leaderLogs L" using E by (simp add: electionsOk_def)
  have ne: "xs \<noteq> []" using n l(2) by auto
  then obtain t1 n1 l1 where c1: "t1 \<le> cur" "chosen N L A t1 n1" "L t1 = Some l1" "length xs \<le> n1" "agree 0 (length xs) xs l1"
    using c unfolding committed_def by blast
  have ge: "lastGe (lastOf xs) t n" if l2: "L t2 = Some l2" "agree 0 (length xs) xs l2" "Term (l2 ! (n - 1)) = t" for t2 l2
  proof -
    have j: "length xs - 1 < length xs" using ne by simp
    moreover have "length xs \<le> length l2" using l2(2) by (simp add: agree_def)
    ultimately have e: "length xs - 1 < length l2" "n - 1 \<le> length xs - 1" using n by linarith+
    have "xs ! (length xs - 1) = l2 ! (length xs - 1)" using agree_nth [OF l2(2) _ j] by simp
    then have "t \<le> Term (xs ! (length xs - 1))" using leader_terms_mono [OF LL l2(1) e(2,1)] l2(3) by simp
    then show ?thesis using lastOf_nth [OF ne] n by (auto simp: lastGe_def)
  qed
  show ?thesis
  proof (cases "t \<le> t1")
    case True
    show ?thesis
    proof (cases "agree 0 n l l1")
      case ag: True
      then have "Term (l1 ! (n - 1)) = t" using agree_nth [OF ag, of "n - 1"] l by simp
      then show ?thesis using ge [OF c1(3,5)] by blast
    next
      case False
      then have "t \<noteq> t1" using l(1,3) c1(3) by (auto simp: agree_refl)
      then show ?thesis using False l(1) c1(1,3) True unfolding missing_def by (intro disjI1 exI [of _ t1]) auto
    qed
  next
    case False
    then have "agree 0 n1 l1 l" using chosen_in_leader [OF E c1(2,3) l(1)] by simp
    then have "agree 0 (length xs) xs l" using agree_trans [OF c1(5) agree_mono [OF _ order_refl c1(4)]] by blast
    then show ?thesis using ge [OF l(1)] l(4) by blast
  qed
qed

definition installedLog :: "'c LogEntry list \<Rightarrow> 'c LogEntry list \<Rightarrow> 'c LogEntry list" where
  "installedLog xs F = xs @ drop (length xs) F"

lemma installedLog_last:
  "length xs < length F \<Longrightarrow> lastOf (installedLog xs F) = lastOf F"
  "length F \<le> length xs \<Longrightarrow> installedLog xs F = xs"
  by (auto simp: installedLog_def lastOf_def)

lemma serverOk_install:
  assumes core: "coreOk N g gr" and s: "serverOk N g i rf" and xs: "gCommitted N g (currentTerm rf) xs" "base rf \<le> length xs"
    and F': "gF g' i = installedLog xs (gF g i)" "gL g' = gL g" "gA g' = gA g"
    and f: "lastIncludedIndex rf' = int (length xs)" "lastIncludedTerm rf' = fst (lastOf xs)" "log rf' = drop (length xs) (gF g i)"
      "commitIndex rf' = int (length xs)" "currentTerm rf' = currentTerm rf"
  shows "serverOk N g' i rf'"
proof -
  let ?F = "gF g i" let ?F' = "installedLog xs ?F"
  have L: "leaderLogs (gL g)" using core by (simp add: coreOk_def)
  have b: "base rf' = length xs" using f(1) by (simp add: base_def)
  have h: "holdsLog ?F' rf'" using f b by (simp add: holdsLog_def installedLog_def)
  have "sourced (gL g) (length xs) ?F'"
    unfolding sourced_def
  proof (intro allI impI)
    fix j assume j: "length xs \<le> j \<and> j < length ?F'"
    then have "base rf \<le> j \<and> j < length ?F" using xs(2) by (auto simp: installedLog_def)
    then obtain l where l: "gL g (Term (?F ! j)) = Some l" "agree (base rf) (Suc j) ?F l" using s unfolding serverOk_def sourced_def by blast
    have same: "?F' ! x = ?F ! x" if "length xs \<le> x" "x \<le> j" for x using that j by (simp add: installedLog_def nth_append)
    then have "agree (length xs) (Suc j) ?F' l" using l(2) xs(2) j by (auto simp: agree_def)
    then show "\<exists>l. gL g (Term (?F' ! j)) = Some l \<and> agree (length xs) (Suc j) ?F' l" using l(1) same [of j] j by auto
  qed
  moreover have "Term e \<le> currentTerm rf" if "e \<in> set xs" for e
  proof -
    have "xs \<noteq> []" using that by auto
    then obtain t n l where l: "t \<le> currentTerm rf" "gL g t = Some l" "agree 0 (length xs) xs l"
      using xs(1) unfolding committed_def by blast
    obtain j where "j < length xs" "e = xs ! j" using \<open>e \<in> set xs\<close> unfolding in_set_conv_nth by blast
    then have "j < length l" "e = l ! j" using l(3) by (auto simp: agree_def)
    then show ?thesis using leader_term_le [OF L l(2)] l(1) by fastforce
  qed
  then have "\<forall>e\<in>set ?F'. Term e \<le> currentTerm rf" using s by (auto simp: installedLog_def serverOk_def dest: in_set_dropD)
  moreover have "0 \<le> currentTerm rf" using s by (simp add: serverOk_def)
  ultimately show ?thesis using h b xs(1) f F' unfolding serverOk_def by (simp add: installedLog_def)
qed

lemma ackOk_install:
  assumes core: "coreOk N g gr" and s: "ackOk g i rf" and xs: "gCommitted N g (currentTerm rf) xs" "base rf \<le> length xs"
    and F': "gF g' i = installedLog xs (gF g i)" "gL g' = gL g" "gA g' = gA g"
    and f: "base rf' = length xs" "currentTerm rf' = currentTerm rf"
  shows "ackOk g' i rf'"
  unfolding ackOk_def F'(2,3) f
proof (intro allI impI)
  let ?F = "gF g i" let ?F' = "installedLog xs ?F" let ?M = "\<lambda>t n. \<exists>T. t < T \<and> T \<le> currentTerm rf \<and> missing (gL g) t n T"
  fix t n assume a: "acked (gL g) (gA g) i t n"
  obtain l where l: "gL g t = Some l" "n \<le> length l" using a unfolding acked_def by (auto dest: order_trans)
  have t: "t \<le> currentTerm rf" and k: "?M t n \<or> keeps g i (base rf) t n" using s a unfolding ackOk_def by blast+
  have "?M t n \<or> keeps g' i (length xs) t n" if kp: "keeps g i (base rf) t n"
  proof -
    have ag: "agree (base rf) n ?F l" and ge: "lastGe (lastOf ?F) t n" using kp l(1) by (auto simp: keeps_def)
    then have nF: "n \<le> length ?F" by (simp add: agree_def)
    have ag': "agree (length xs) n ?F' l" using ag l(2) nF xs(2) by (auto simp: agree_def installedLog_def nth_append)
    show ?thesis
    proof (cases "length xs < length ?F")
      case True
      then show ?thesis using ge ag' l(1) installedLog_last(1) [OF True] by (simp add: keeps_def F')
    next
      case False
      then have "?F' = xs" "n \<le> length xs" using nF installedLog_last(2) [of ?F xs] by auto
      then show ?thesis using committed_lastGe [OF core_elections [OF core] xs(1) a] ag' l(1) by (auto simp: keeps_def F')
    qed
  qed
  then show "t \<le> currentTerm rf \<and> (?M t n \<or> keeps g' i (length xs) t n)" using t k by blast
qed

lemma raftInv_install:
  assumes I: "raftInv N g s" and st: "cstep s s'" and i: "i < N" and s': "node s' = (node s)(i := rf')" "granted s' = granted s"
    and net: "\<And>m. m \<in># net s' \<Longrightarrow> m \<in># net s"
    and xs: "gCommitted N g (currentTerm (node s i)) xs" "commitIndex (node s i) < int (length xs)"
    and f: "lastIncludedIndex rf' = int (length xs)" "lastIncludedTerm rf' = fst (lastOf xs)" "log rf' = drop (length xs) (gF g i)"
      "commitIndex rf' = int (length xs)" "currentTerm rf' = currentTerm (node s i)" "state rf' = state (node s i)"
      "matchIndex rf' = matchIndex (node s i)"
  shows "raftNext N g s'"
proof -
  let ?rf = "node s i" let ?F = "gF g i" let ?F' = "installedLog xs ?F"
  define g' where "g' = g\<lparr>gF := (gF g)(i := ?F')\<rparr>"
  have g': "gF g' i = ?F'" "gL g' = gL g" "gA g' = gA g" "gOwner g' = gOwner g" "gLast g' = gLast g" by (simp_all add: g'_def)
  have E: "electionInv s'" "nservers s' = N" using cstep_electionInv [OF st] cstep_nservers [OF st] I by (simp_all add: raftInv_def)
  have core: "coreOk N g (granted s)" and srv: "srvOk N g i ?rf" using I i by (auto simp: raftInv_def)
  have b: "base ?rf \<le> length xs" "base ?rf \<le> length ?F" "base rf' = length xs"
    using srv xs(2) f(1) by (auto simp: srvOk_def serverOk_def holdsLog_def base_def)
  have gg: "ghostGrow i (currentTerm ?rf) g g'" by (simp add: ghostGrow_def g'_def)
  have core': "coreOk N g' (granted s')" using core s'(2) unfolding coreOk_def voteOk_def g' by simp
  have "serverOk N g' i rf'" using serverOk_install [OF core _ xs(1) b(1) g'(1-3) f(1-5)] srv by (simp add: srvOk_def)
  moreover have "leaderOk N g' i rf'"
  proof (cases "state ?rf = StateLeader")
    case True
    then have l: "gL g (currentTerm ?rf) = Some ?F" using srv by (simp add: srvOk_def leaderOk_def)
    have "take (length xs) ?F = xs"
      using committed_in_leader [OF core_elections [OF core] xs(1) l order_refl] by (simp add: agree_zero)
    then have "?F' = ?F" unfolding installedLog_def by (metis append_take_drop_id)
    moreover have "matchOk N g' t p v = matchOk N g t p v" for t p v unfolding matchOk_def g' ..
    ultimately show ?thesis using srv f unfolding srvOk_def leaderOk_def g' by simp
  qed (simp add: leaderOk_def f)
  moreover have "candOk g' i rf'"
  proof (cases "length xs < length ?F")
    case True
    then show ?thesis using srv b f installedLog_last(1) [OF True] by (auto simp: srvOk_def candOk_def g' installedLog_def)
  next
    case False
    then have "?F' = xs" by (intro installedLog_last) simp
    then show ?thesis using False srv b f by (cases "base ?rf < length ?F") (auto simp: srvOk_def candOk_def g')
  qed
  moreover have "ackOk g' i rf'" using ackOk_install [OF core _ xs(1) b(1) g'(1-3) b(3) f(5)] srv by (simp add: srvOk_def)
  ultimately have "srvOk N g' i rf'" by (simp add: srvOk_def)
  then have "raftInv N g' s'" using core' s'(2) net f(5) g'(5) by (intro raftInv_step [OF I E s'(1) _ i gg]) auto
  then show ?thesis using gg by (rule raftNext_grow)
qed

end
