(* ===== verification/Raft_Safety.thy ===== *)
theory Raft_Safety
  imports Raft_Safety_Steps
begin

text \<open>
  Safety of whole runs of a Raft group, with snapshots, crashes and an unreliable network: log matching, leader
  completeness and state machine safety. The service may compact only what is committed; nothing else is
  asked of it, of the network or of the clients.
\<close>

section \<open>The remaining steps\<close>

lemma raftInv_service_install:
  assumes I: "raftInv N g s" and m: "SnapMsg i (incarnation s i) m \<in># net s"
    and ci: "CondInstallSnapshot (am_SnapshotTerm m) (am_SnapshotIndex m) (am_Snapshot m) (node s i) = Inr (rf', installed)"
    and s': "s' = s\<lparr>node := (node s)(i := rf'), net := net s - {#SnapMsg i (incarnation s i) m#}\<rparr>"
  shows "raftNext N g s'"
proof -
  let ?rf = "node s i" let ?F = "gF g i"
  have st: "cstep s s'" unfolding s' by (rule service_install [OF m ci])
  have i: "i < N" and ok: "snapOk N g (currentTerm ?rf) (am_SnapshotIndex m) (am_SnapshotTerm m)" using I m by (auto simp: raftInv_def)
  have n: "node s' = (node s)(i := rf')" "granted s' = granted s" "\<And>m. m \<in># net s' \<Longrightarrow> m \<in># net s"
    by (auto simp: s' dest: in_diffD)
  show ?thesis
  proof (cases "am_SnapshotIndex m \<le> commitIndex ?rf")
    case True
    then have "rf' = ?rf" using ci by (simp add: CondInstallSnapshot_def)
    then show ?thesis using raftInv_calm [OF I st n(1,2) i] n(3) calm_refl raftNext_same by blast
  next
    case False
    obtain xs where xs: "am_SnapshotIndex m = int (length xs)" "am_SnapshotTerm m = fst (lastOf xs)" "gCommitted N g (currentTerm ?rf) xs"
      using ok unfolding snapOk_def by blast
    have so: "serverOk N g i ?rf" "holdsLog ?F ?rf" using I i by (auto simp: raftInv_def srvOk_def serverOk_def)
    have b: "lastIncludedIndex ?rf = int (base ?rf)" "log ?rf = drop (base ?rf) ?F" "base ?rf \<le> length ?F" "base ?rf \<le> length xs"
      using so False xs(1) by (auto simp: serverOk_def holdsLog_def)
    have e: "nat (int (length xs) - int (base ?rf)) + base ?rf = length xs" using b(4) by arith
    have r: "\<exists>lg. lg = drop (length xs) ?F \<and> rf' = saveWithSnapshot (am_Snapshot m) (?rf\<lparr>log := lg, lastIncludedIndex := int (length xs),
        lastIncludedTerm := fst (lastOf xs), commitIndex := int (length xs), lastApplied := int (length xs)\<rparr>)"
      using ci False xs(1,2) b e holds_lastLogIndex [OF so(2)]
      by (auto simp: CondInstallSnapshot_def go_from_def toSliceIndex_def split: if_splits sum.splits)
    then have f: "lastIncludedIndex rf' = int (length xs)" "lastIncludedTerm rf' = fst (lastOf xs)" "log rf' = drop (length xs) ?F"
      "commitIndex rf' = int (length xs)" "currentTerm rf' = currentTerm ?rf" "state rf' = state ?rf" "matchIndex rf' = matchIndex ?rf" by auto
    show ?thesis using raftInv_install [OF I st i n xs(3) _ f] False xs(1) by simp
  qed
qed

lemma raftInv_lose:
  assumes I: "raftInv N g s" and st: "cstep s s'" and s': "s' = s\<lparr>net := net s - {#m#}\<rparr>"
  shows "raftInv N g s'"
  using I cstep_electionInv [OF st] unfolding raftInv_def by (auto simp: s' dest: in_diffD)

lemma Make_commitIndex: "commitIndex (Make n i ps rnd) = lastIncludedIndex (Make n i ps rnd)"
  by (auto simp: Make_def readPersist_def Let_def split: option.split)

lemma calm_Make:
  assumes "durable rf"
  shows "calm rf (Make n i (Copy (Persister rf)) rnd)"
proof -
  have "persistentState (Make n i (Persister rf) rnd) = persistentState rf"
    using assms by (simp add: persistentState_Make durable_def)
  then show ?thesis using Make_commitIndex [of n i "Persister rf" rnd] by (simp add: calm_def sameLog_def persistentState_def)
qed

text \<open>What the service of server \<^verbatim>\<open>i\<close> may do: \<^verbatim>\<open>Snapshot(index)\<close> only for an index that is committed.\<close>

definition compactsCommitted :: "('c, 's) cluster \<Rightarrow> bool" where
  "compactsCommitted s \<longleftrightarrow> (\<forall>i < nservers s. lastIncludedIndex (node s i) \<le> commitIndex (node s i))"

definition sstep :: "('c, 's) cluster \<Rightarrow> ('c, 's) cluster \<Rightarrow> bool" where
  "sstep s s' \<longleftrightarrow> cstep s s' \<and> compactsCommitted s'"

lemma raftInv_sstep:
  assumes "sstep s s'" and I: "raftInv N g s"
  shows "raftNext N g s'"
proof -
  have st: "cstep s s'" and c: "compactsCommitted s'" using assms(1) by (simp_all add: sstep_def)
  have E: "electionInv s" "nservers s = N" using I by (auto simp: raftInv_def)
  note calmly = raftNext_same [OF raftInv_calm [OF I st]]
  from st show ?thesis
  proof (cases rule: cstep.cases)
    case (elect i rnd rf' args)
    then show ?thesis using raftInv_elect [OF I] E(2) by blast
  next
    case (vote_request i k j args rnd rf' reply)
    then show ?thesis using raftNext_same [OF raftInv_vote_request [OF I]] by blast
  next
    case (vote_reply i j args reply rf')
    then show ?thesis using raftInv_vote_reply [OF I] by blast
  next
    case (heartbeat i rf' ps)
    have "calm (node s i) rf'" "ps = [] \<or> ps = otherPeers (node s i)"
      using heartbeat(3) by (auto simp: tickHeartbeat_def calm_def sameLog_def split: if_splits)
    then show ?thesis using heartbeat E by (intro calmly [of i rf']) (auto simp: electionInv_def inv_ids_def)
  next
    case (replicate_call i p)
    then show ?thesis using raftNext_same [OF raftInv_replicate_call [OF I]] by blast
  next
    case (append_request i k j args rnd rf' reply)
    then show ?thesis using raftInv_append_request [OF I] by blast
  next
    case (append_reply i j args reply rf')
    then show ?thesis using raftNext_same [OF raftInv_append_reply [OF I]] by blast
  next
    case (snap_request i k j args rnd rf' reply out)
    then show ?thesis using raftNext_same [OF raftInv_snap_request [OF I]] by blast
  next
    case (snap_reply i j args reply rf')
    then show ?thesis using raftNext_same [OF raftInv_snap_reply [OF I]] by blast
  next
    case (client_start i cmd rf' index t isLeader)
    then show ?thesis using raftInv_client_start [OF I] by blast
  next
    case (service_snapshot i index data rf')
    moreover have "lastIncludedIndex rf' \<le> commitIndex rf'" using c service_snapshot(1,2) by (auto simp: compactsCommitted_def)
    ultimately show ?thesis using raftNext_same [OF raftInv_service_snapshot [OF I]] by blast
  next
    case (service_install i m rf' installed)
    then show ?thesis using raftInv_service_install [OF I] by blast
  next
    case (apply_collect i rf' b)
    have "calm (node s i) rf'" using apply_collect(4) by (auto simp: applierCollect_def calm_def sameLog_def split: if_splits)
    then show ?thesis using apply_collect E(2) by (intro calmly [of i rf']) auto
  next
    case (apply_finish i b rf')
    moreover have "i < N" using I apply_finish(2) by (auto simp: raftInv_def)
    moreover have "calm (node s i) rf'" using apply_finish(3) by (simp add: applierFinish_def calm_def sameLog_def)
    ultimately show ?thesis by (intro calmly [of i rf']) (auto dest: in_diffD)
  next
    case (lose m)
    then show ?thesis using raftNext_same [OF raftInv_lose [OF I st]] by blast
  next
    case (restart i rnd)
    moreover have "durable (node s i)" using E restart(2) by (simp add: electionInv_def inv_ids_def)
    ultimately show ?thesis using E(2) calm_Make by (intro calmly [of i]) auto
  qed
qed

section \<open>Runs\<close>

inductive sreach :: "nat \<Rightarrow> ('c, 's) cluster \<Rightarrow> bool" for n where
  start: "sreach n (cinit n rnds)"
| step: "sreach n s \<Longrightarrow> sstep s s' \<Longrightarrow> sreach n s'"

definition emptyHistory :: "'c ghost" where
  "emptyHistory = \<lparr>gL = Map.empty, gOwner = (\<lambda>_. 0), gA = {}, gF = (\<lambda>_. []), gLast = (\<lambda>_ _. (0, 0))\<rparr>"

lemma srvOk_init: "srvOk n emptyHistory i (Make n i MakePersister rnd)"
  by (simp add: srvOk_def serverOk_def holdsLog_def base_def leaderOk_def candOk_def ackOk_def acked_def sourced_def
      committed_def emptyHistory_def Make_def readPersist_def MakePersister_def ReadRaftState_def Let_def)

lemma coreOk_init: "coreOk n emptyHistory {}"
  by (simp add: coreOk_def leaderLogs_def acksOk_def emptyHistory_def)

lemma raftInv_init: "raftInv n emptyHistory (cinit n rnds)"
  unfolding raftInv_def by (intro conjI electionInv_init) (simp_all add: cinit_def srvOk_init coreOk_init)

lemma sreach_raftInv: "sreach n s \<Longrightarrow> \<exists>g. raftInv n g s"
proof (induction rule: sreach.induct)
  case (step s s')
  then show ?case using raftInv_sstep unfolding raftNext_def by blast
qed (use raftInv_init in blast)

lemma srun_raftInv:
  assumes "sstep\<^sup>*\<^sup>* s s'" "raftInv n g s"
  shows "raftNext n g s'"
  using assms
proof (induction rule: rtranclp_induct)
  case base
  then show ?case by (rule raftNext_same)
next
  case (step s1 s2)
  then obtain g1 where g1: "raftInv n g1 s1" "grows (gL g) (gL g1)" "gA g \<subseteq> gA g1" unfolding raftNext_def by blast
  obtain g2 where g2: "raftInv n g2 s2" "grows (gL g1) (gL g2)" "gA g1 \<subseteq> gA g2"
    using raftInv_sstep [OF step.hyps(2) g1(1)] unfolding raftNext_def by blast
  show ?case using g1 g2 grows_trans [OF g1(2) g2(2)] unfolding raftNext_def by blast
qed

section \<open>Safety\<close>

lemma holds_entryAt:
  "holdsLog F rf \<Longrightarrow> entryAt rf k =
     (if lastIncludedIndex rf < k \<and> k \<le> int (length F) then Some (F ! (nat k - 1)) else None)"
proof -
  assume h: "holdsLog F rf"
  then have b: "lastIncludedIndex rf = int (base rf)" "log rf = drop (base rf) F" by (auto simp: holdsLog_def)
  have "log rf ! nat (k - int (base rf) - 1) = F ! (nat k - 1)" if "int (base rf) < k" "k \<le> int (length F)"
  proof -
    have "base rf + nat (k - int (base rf) - 1) = nat k - 1" using that by linarith
    then show ?thesis using b(2) h by (simp add: holdsLog_def)
  qed
  then show ?thesis using h b(1) holds_lastLogIndex [OF h] by (auto simp: entryAt_def toSliceIndex_def)
qed

text \<open>What two states of one run have in common: one history for both.\<close>

lemma two_moments:
  assumes "sreach n s" "sstep\<^sup>*\<^sup>* s s'"
  obtains g g' where "raftInv n g s" "raftInv n g' s'" "grows (gL g) (gL g')" "gA g \<subseteq> gA g'"
  using sreach_raftInv [OF assms(1)] srun_raftInv [OF assms(2)] unfolding raftNext_def by blast

lemma committed_entry:
  assumes I: "raftInv n g s" and i: "i < n" and k: "lastIncludedIndex (node s i) < k" "k \<le> commitIndex (node s i)"
  shows "entryAt (node s i) k = Some (gF g i ! (nat k - 1))" "0 < nat k" "nat k \<le> length (gF g i)"
    "gCommitted n g (currentTerm (node s i)) (take (nat k) (gF g i))"
proof -
  let ?rf = "node s i" let ?F = "gF g i"
  have so: "serverOk n g i ?rf" "holdsLog ?F ?rf" using I i by (auto simp: raftInv_def srvOk_def serverOk_def)
  have c: "commitIndex ?rf \<le> int (length ?F)" "lastIncludedIndex ?rf = int (base ?rf)"
    "gCommitted n g (currentTerm ?rf) (take (nat (commitIndex ?rf)) ?F)" using so by (auto simp: serverOk_def holdsLog_def)
  show "entryAt ?rf k = Some (?F ! (nat k - 1))" using holds_entryAt [OF so(2)] k c(1) by simp
  show "0 < nat k" "nat k \<le> length ?F" using k c(1,2) by linarith+
  have le: "nat k \<le> length (take (nat (commitIndex ?rf)) ?F)" using k c(1) by simp
  show "gCommitted n g (currentTerm ?rf) (take (nat k) ?F)"
    using committed_prefix [OF c(3) le] nat_mono [OF k(2)] by (simp add: min_def)
qed

lemma one_entry_per_index:
  assumes "sreach n s" "sstep\<^sup>*\<^sup>* s s'" "i < n" "j < n"
    and "lastIncludedIndex (node s i) < k" "k \<le> commitIndex (node s i)"
    and "lastIncludedIndex (node s' j) < k" "k \<le> commitIndex (node s' j)"
  shows "\<exists>e. entryAt (node s i) k = Some e \<and> entryAt (node s' j) k = Some e"
proof -
  obtain g g' where g: "raftInv n g s" "raftInv n g' s'" "grows (gL g) (gL g')" "gA g \<subseteq> gA g'"
    using two_moments [OF assms(1,2)] .
  note ci = committed_entry [OF g(1) assms(3,5,6)]
  note cj = committed_entry [OF g(2) assms(4,7,8)]
  have E: "electionsOk n (gL g') (gA g')" using g(2) core_elections by (auto simp: raftInv_def)
  have "gCommitted n g' (currentTerm (node s i)) (take (nat k) (gF g i))" using committed_grows [OF ci(4) g(3,4) order_refl] .
  from committed_agree [OF E this cj(4)] have "take (nat k) (gF g i) = take (nat k) (gF g' j)"
    using ci(3) cj(3) by (simp add: agree_zero)
  then have "gF g i ! (nat k - 1) = gF g' j ! (nat k - 1)" using ci(2) by (metis diff_less nth_take zero_less_one)
  then show ?thesis using ci(1) cj(1) by simp
qed

text \<open>
  C1. State machine safety: if one server has an entry committed at index \<^verbatim>\<open>k\<close>, then whatever server has \<^verbatim>\<open>k\<close>
  committed at that or any later time of the run has the same entry there. Messages may be lost, delayed and
  reordered, servers may crash and restart, logs may be compacted and replaced by snapshots; the service calls
  \<^verbatim>\<open>Snapshot\<close> only for committed indices, as \<^verbatim>\<open>Raft_Service\<close> shows of the services here.
\<close>

theorem state_machine_safety:
  assumes "sreach n s" "sstep\<^sup>*\<^sup>* s s'" "i < n" "j < n"
    and "lastIncludedIndex (node s i) < k" "k \<le> commitIndex (node s i)"
    and "lastIncludedIndex (node s' j) < k" "k \<le> commitIndex (node s' j)"
  shows "\<exists>e. entryAt (node s i) k = Some e \<and> entryAt (node s' j) k = Some e"
  using assms by (rule one_entry_per_index)

text \<open>
  C11. Log matching: if two servers, at two moments of a run, have entries of the same term at the same index, they
  have the same entries at all smaller indices that neither has compacted. Only committed indices are compacted.
\<close>

theorem logs_match:
  assumes "sreach n s" "sstep\<^sup>*\<^sup>* s s'" "i < n" "j < n"
    and "entryAt (node s i) k = Some e" "entryAt (node s' j) k = Some e'" "Term e = Term e'"
    and "lastIncludedIndex (node s i) < k'" "lastIncludedIndex (node s' j) < k'" "k' \<le> k"
  shows "entryAt (node s i) k' = entryAt (node s' j) k'"
proof -
  obtain g g' where g: "raftInv n g s" "raftInv n g' s'" "grows (gL g) (gL g')" "gA g \<subseteq> gA g'"
    using two_moments [OF assms(1,2)] .
  let ?F = "gF g i" let ?F' = "gF g' j" let ?b = "base (node s i)" let ?b' = "base (node s' j)"
  have so: "serverOk n g i (node s i)" "serverOk n g' j (node s' j)" using g assms(3,4) by (auto simp: raftInv_def srvOk_def)
  have h: "holdsLog ?F (node s i)" "holdsLog ?F' (node s' j)" using so by (auto simp: serverOk_def)
  then have b: "lastIncludedIndex (node s i) = int ?b" "lastIncludedIndex (node s' j) = int ?b'" by (auto simp: holdsLog_def)
  have k: "int ?b < k" "k \<le> int (length ?F)" "e = ?F ! (nat k - 1)" "int ?b' < k" "k \<le> int (length ?F')" "e' = ?F' ! (nat k - 1)"
    using assms(5,6) b unfolding holds_entryAt [OF h(1)] holds_entryAt [OF h(2)] by (auto split: if_splits)
  have r: "?b \<le> nat k - 1 \<and> nat k - 1 < length ?F" "?b' \<le> nat k - 1 \<and> nat k - 1 < length ?F'" using k by linarith+
  have "sourced (gL g') ?b ?F" using so(1) sourced_grows [OF _ g(3) order_refl] by (simp add: serverOk_def)
  then obtain l where l: "gL g' (Term e) = Some l" "agree ?b (Suc (nat k - 1)) ?F l" using r(1) k(3) unfolding sourced_def by blast
  have "sourced (gL g') ?b' ?F'" using so(2) by (simp add: serverOk_def)
  then obtain l' where l': "gL g' (Term e') = Some l'" "agree ?b' (Suc (nat k - 1)) ?F' l'" using r(2) k(6) unfolding sourced_def by blast
  have x: "?b \<le> nat k' - 1" "?b' \<le> nat k' - 1" "nat k' - 1 < Suc (nat k - 1)" using assms(8-10) b by linarith+
  have "?F ! (nat k' - 1) = ?F' ! (nat k' - 1)"
    using agree_nth [OF l(2) x(1,3)] agree_nth [OF l'(2) x(2,3)] l(1) l'(1) assms(7) by simp
  then show ?thesis using k assms(8-10) unfolding holds_entryAt [OF h(1)] holds_entryAt [OF h(2)] by simp
qed

text \<open>
  C10. Leader completeness: an entry that some server has committed is in the log, or in the compacted part of the log, of
  every server that is leader then or later in a term at least as large. Only committed indices are compacted.
\<close>

theorem leader_has_committed:
  assumes "sreach n s" "sstep\<^sup>*\<^sup>* s s'" "i < n" "j < n"
    and "lastIncludedIndex (node s i) < k" "k \<le> commitIndex (node s i)"
    and "state (node s' j) = StateLeader" "currentTerm (node s i) \<le> currentTerm (node s' j)"
  shows "k \<le> lastLogIndex (node s' j) \<and>
    (lastIncludedIndex (node s' j) < k \<longrightarrow> entryAt (node s' j) k = entryAt (node s i) k)"
proof -
  obtain g g' where g: "raftInv n g s" "raftInv n g' s'" "grows (gL g) (gL g')" "gA g \<subseteq> gA g'"
    using two_moments [OF assms(1,2)] .
  note ci = committed_entry [OF g(1) assms(3,5,6)]
  have so: "holdsLog (gF g' j) (node s' j)" "gL g' (currentTerm (node s' j)) = Some (gF g' j)"
    using g(2) assms(4,7) by (auto simp: raftInv_def srvOk_def serverOk_def leaderOk_def)
  have E: "electionsOk n (gL g') (gA g')" using g(2) core_elections by (auto simp: raftInv_def)
  have "gCommitted n g' (currentTerm (node s i)) (take (nat k) (gF g i))" using committed_grows [OF ci(4) g(3,4) order_refl] .
  from committed_in_leader [OF E this so(2) assms(8)]
  have a: "nat k \<le> length (gF g' j)" "take (nat k) (gF g i) = take (nat k) (gF g' j)" using ci(3) by (simp_all add: agree_zero)
  then have "gF g i ! (nat k - 1) = gF g' j ! (nat k - 1)" using ci(2) by (metis diff_less nth_take zero_less_one)
  then show ?thesis using ci(1) a(1) holds_lastLogIndex [OF so(1)] unfolding holds_entryAt [OF so(1)] by auto
qed

lemma applied_message:
  assumes "applierCollect rf = Some (rf', b)" "lastIncludedIndex rf \<le> lastApplied rf" "commitIndex rf \<le> lastLogIndex rf"
    "m \<in> set (applierSend (ab_lastIncludedIndex b) (ab_startIdx b) (ab_entries b))"
  obtains k where "lastIncludedIndex rf < k" "k \<le> commitIndex rf" "m = commandMsg k (the (entryAt rf k))"
proof -
  have "m \<in> set (map (\<lambda>g. commandMsg g (the (entryAt rf g))) [lastApplied rf + 1..commitIndex rf])"
    using assms by (auto simp: applierCollect_def collectEntries_upto applierSend_upto split: if_splits)
  then obtain k where "lastApplied rf + 1 \<le> k" "k \<le> commitIndex rf" "m = commandMsg k (the (entryAt rf k))" by auto
  then show ?thesis using that [of k] assms(2) by simp
qed

text \<open>
  No two servers ever apply different commands at the same index: the messages that the apply loops of two servers
  send to their services, at two moments of a run, are equal when their command indices are.
\<close>

lemma replicas_apply_same:
  assumes "sreach n s" "sstep\<^sup>*\<^sup>* s s'" "i < n" "j < n"
    and "lastIncludedIndex (node s i) \<le> lastApplied (node s i)" "lastIncludedIndex (node s' j) \<le> lastApplied (node s' j)"
    and "applierCollect (node s i) = Some (rf1, b1)" "applierCollect (node s' j) = Some (rf2, b2)"
    and "m1 \<in> set (applierSend (ab_lastIncludedIndex b1) (ab_startIdx b1) (ab_entries b1))"
    and "m2 \<in> set (applierSend (ab_lastIncludedIndex b2) (ab_startIdx b2) (ab_entries b2))"
    and "am_CommandIndex m1 = am_CommandIndex m2"
  shows "m1 = m2"
proof -
  obtain g g' where g: "raftInv n g s" "raftInv n g' s'" using two_moments [OF assms(1,2)] .
  have ci: "commitIndex (node s i) \<le> lastLogIndex (node s i)" "commitIndex (node s' j) \<le> lastLogIndex (node s' j)"
    using g assms(3,4) holds_lastLogIndex by (fastforce simp: raftInv_def srvOk_def serverOk_def)+
  obtain k where k: "lastIncludedIndex (node s i) < k" "k \<le> commitIndex (node s i)" "m1 = commandMsg k (the (entryAt (node s i) k))"
    using applied_message [OF assms(7,5) ci(1) assms(9)] by blast
  obtain k' where k': "lastIncludedIndex (node s' j) < k'" "k' \<le> commitIndex (node s' j)" "m2 = commandMsg k' (the (entryAt (node s' j) k'))"
    using applied_message [OF assms(8,6) ci(2) assms(10)] by blast
  have "k' = k" using k(3) k'(3) assms(11) by (simp add: commandMsg_def)
  then show ?thesis using one_entry_per_index [OF assms(1-4) k(1,2)] k k' by auto
qed

section \<open>A run\<close>

text \<open>
  Two servers: server 0 is elected, takes a command, replicates it, commits it and tells server 1. Both have then
  committed index 1.
\<close>

definition exEnt :: "'c \<Rightarrow> 'c LogEntry" where
  "exEnt c = \<lparr>Term = 1, Command = c\<rparr>"

definition exNode :: "nat \<Rightarrow> raftState \<Rightarrow> 'c LogEntry list \<Rightarrow> int \<Rightarrow> int list \<Rightarrow> int list \<Rightarrow> int \<Rightarrow> bool \<Rightarrow> nat \<Rightarrow> ('c, 's) raft" where
  "exNode i st lg ci nx mt hb ac v =
     \<lparr>peers = 2, me = i, Persister = \<lparr>raftstate = [GInt 1, GInt 0, GLog lg, GInt 0, GInt 0], snapshot = []\<rparr>, dead = False,
      state = st, currentTerm = 1, votedFor = 0, log = lg, lastIncludedIndex = 0, lastIncludedTerm = 0, commitIndex = ci,
      lastApplied = 0, nextIndex = nx, matchIndex = mt, electionTimer = 300, heartbeatTimer = hb, applyCond = ac,
      votes = (\<lambda>_. 0)(1 := v)\<rparr>"

definition exState :: "('c, 's) raft \<Rightarrow> ('c, 's) raft \<Rightarrow> ('c, 's) msg multiset \<Rightarrow> (nat \<times> int \<times> nat) set \<Rightarrow>
    (nat \<times> int \<times> nat) set \<Rightarrow> ('c, 's) cluster" where
  "exState a b M G C = \<lparr>nservers = 2, node = (\<lambda>i. Make 2 i MakePersister 0)(0 := a, 1 := b), incarnation = (\<lambda>_. 0),
     net = M, granted = G, counted = C\<rparr>"

lemma exState_simps [simp]:
  "nservers (exState a b M G C) = 2" "node (exState a b M G C) 0 = a" "node (exState a b M G C) (Suc 0) = b"
  "incarnation (exState a b M G C) i = 0" "net (exState a b M G C) = M"
  by (simp_all add: exState_def)

lemma exState_upd [simp]:
  "exState a b M G C\<lparr>node := (node (exState a b M G C))(0 := x)\<rparr> = exState x b M G C"
  "exState a b M G C\<lparr>node := (node (exState a b M G C))(Suc 0 := y)\<rparr> = exState a y M G C"
  "exState a b M G C\<lparr>net := M'\<rparr> = exState a b M' G C" "granted (exState a b M G C) = G" "counted (exState a b M G C) = C"
  "exState a b M G C\<lparr>granted := G'\<rparr> = exState a b M G' C" "exState a b M G C\<lparr>counted := C'\<rparr> = exState a b M G C'"
  by (auto simp: exState_def fun_eq_iff)

definition exVote :: RequestVoteArgs where
  "exVote = \<lparr>rva_Term = 1, rva_CandidateId = 0, rva_LastLogIndex = 0, rva_LastLogTerm = 0\<rparr>"

definition exYes :: RequestVoteReply where
  "exYes = \<lparr>rvr_Term = 1, rvr_VoteGranted = True\<rparr>"

definition exSend :: "int \<Rightarrow> 'c LogEntry list \<Rightarrow> 'c AppendEntriesArgs" where
  "exSend k es = \<lparr>aea_Term = 1, aea_LeaderId = 0, aea_PrevLogIndex = k, aea_PrevLogTerm = k, aea_Entries = es, aea_LeaderCommit = k\<rparr>"

definition exOk :: AppendEntriesReply where
  "exOk = \<lparr>aer_Term = 1, aer_Success = True, aer_ConflictTerm = 0, aer_ConflictIndex = 0\<rparr>"

lemma replicate_two: "replicate 2 x = [x, x]"
  by (simp add: numeral_eq_Suc)

lemmas ex_run_defs = exNode_def exEnt_def exVote_def exYes_def exSend_def exOk_def Make_def readPersist_def MakePersister_def
  ReadRaftState_def Let_def lastLogIndex_def lastLogTerm_def toSliceIndex_def termAt_def persist_def SaveRaftState_def
  encodeState_def Encode_def resetElectionTimer_def randomElectionTimeout_def ElectionTimeoutMin_def HeartbeatInterval_def upt_rec replicate_two

lemma ex_nodes:
  "tickElection 0 (Make 2 0 MakePersister 0) = (exNode 0 StateCandidate [] 0 [0, 0] [0, 0] 100 False 1, Some exVote)"
  "RequestVote 0 exVote (Make 2 1 MakePersister 0) = (exNode 1 StateFollower [] 0 [0, 0] [0, 0] 100 False 0, exYes)"
  "handleVoteReply exVote exYes (exNode 0 StateCandidate [] 0 [0, 0] [0, 0] 100 False 1) =
     exNode 0 StateLeader [] 0 [1, 1] [0, 0] 0 False 2"
  "Start c (exNode 0 StateLeader [] 0 [1, 1] [0, 0] 0 False 2) =
     (exNode 0 StateLeader [exEnt c] 0 [1, 1] [1, 0] 0 False 2, 1, 1, True)"
  "AppendEntries 0 (exSend 0 [exEnt c]) (exNode 1 StateFollower [] 0 [0, 0] [0, 0] 100 False 0) =
     (exNode 1 StateFollower [exEnt c] 0 [0, 0] [0, 0] 100 False 0, exOk)"
  "AppendEntries 0 (exSend 1 []) (exNode 1 StateFollower [exEnt c] 0 [0, 0] [0, 0] 100 False 0) =
     (exNode 1 StateFollower [exEnt c] 1 [0, 0] [0, 0] 100 True 0, exOk)"
  by (simp_all add: ex_run_defs tickElection_def startElection_def RequestVote_def isMoreUpToDate_def stepDown_def
      handleVoteReply_def majority_def becomeLeader_def Start_def AppendEntries_def fun_eq_iff)

lemma ex_leader:
  "tickHeartbeat (exNode 0 StateLeader lg ci nx mt hb ac v) = (exNode 0 StateLeader lg ci nx mt 100 ac v, [1])"
  "replicateTo 1 (exNode 0 StateLeader [exEnt c] 0 [1, 1] [1, 0] 100 False 2) = SendEntries (exSend 0 [exEnt c])"
  "replicateTo 1 (exNode 0 StateLeader [exEnt c] 1 [1, 2] [1, 1] 100 True 2) = SendEntries (exSend 1 [])"
  by (simp_all add: ex_run_defs tickHeartbeat_def otherPeers_def replicateTo_def)

lemma ex_commit:
  "handleAppendReply 1 (exSend 0 [exEnt c]) exOk (exNode 0 StateLeader [exEnt c] 0 [1, 1] [1, 0] 100 False 2) =
     exNode 0 StateLeader [exEnt c] 1 [1, 2] [1, 1] 100 True 2"
  by (simp add: ex_run_defs handleAppendReply_def setMatchIndex_def setNextIndex_def tryCommit_def tryCommitFrom.simps matchCount_def)

definition exElect :: "('c, 's) cluster" where
  "exElect = exState (exNode 0 StateLeader [] 0 [1, 1] [0, 0] 0 False 2) (exNode 1 StateFollower [] 0 [0, 0] [0, 0] 100 False 0)
     {#} {(1, 1, 0), (0, 1, 0)} {(0, 1, 1)}"

definition exFirst :: "'c \<Rightarrow> ('c, 's) cluster" where
  "exFirst c = exState (exNode 0 StateLeader [exEnt c] 1 [1, 2] [1, 1] 100 True 2)
     (exNode 1 StateFollower [exEnt c] 0 [0, 0] [0, 0] 100 False 0) {#} {(1, 1, 0), (0, 1, 0)} {(0, 1, 1)}"

definition exBoth :: "'c \<Rightarrow> ('c, 's) cluster" where
  "exBoth c = exState (exNode 0 StateLeader [exEnt c] 1 [1, 2] [1, 1] 100 True 2)
     (exNode 1 StateFollower [exEnt c] 1 [0, 0] [0, 0] 100 True 0) {#AppRep 0 0 1 (exSend 1 []) exOk#} {(1, 1, 0), (0, 1, 0)} {(0, 1, 1)}"

lemma exState_init: "cinit 2 (\<lambda>_. 0) = exState (Make 2 0 MakePersister 0) (Make 2 1 MakePersister 0) {#} {} {}"
  by (auto simp: cinit_def exState_def fun_eq_iff)

text \<open>All states of the run are plain: no server has restarted, compacted its log or started to apply.\<close>

definition exPlain :: "('c, 's) cluster \<Rightarrow> bool" where
  "exPlain s \<longleftrightarrow> nservers s = 2 \<and> (\<forall>i. lastIncludedIndex (node s i) = 0 \<and> 0 \<le> commitIndex (node s i)) \<and>
     incarnation s = (\<lambda>_. 0) \<and> (\<forall>i k b. Batch i k b \<notin># net s)"

definition exStep :: "('c, 's) cluster \<Rightarrow> ('c, 's) cluster \<Rightarrow> bool" where
  "exStep s s' \<longleftrightarrow> cstep s s' \<and> exPlain s'"

lemma exStep_reach: "exStep\<^sup>*\<^sup>* s s' \<Longrightarrow> sreach n s \<Longrightarrow> sreach n s'"
  and exStep_run: "exStep\<^sup>*\<^sup>* s s' \<Longrightarrow> sstep\<^sup>*\<^sup>* s s'"
proof -
  have "sstep s s'" if "exStep s s'" for s s' :: "('c, 's) cluster"
    using that by (auto simp: exStep_def exPlain_def sstep_def compactsCommitted_def)
  then show run: "exStep\<^sup>*\<^sup>* s s' \<Longrightarrow> sstep\<^sup>*\<^sup>* s s'" for s s' :: "('c, 's) cluster" by (metis mono_rtranclp)
  show "sreach n s'" if "exStep\<^sup>*\<^sup>* s s'" "sreach n s" for s s' :: "('c, 's) cluster"
    using run [OF that(1)] that(2) by (induction rule: rtranclp_induct) (auto intro: sreach.step)
qed

lemma ex_step:
  assumes "cstep s (exState a b M G C)" "lastIncludedIndex a = 0" "0 \<le> commitIndex a" "lastIncludedIndex b = 0" "0 \<le> commitIndex b"
    and "\<forall>i k b. Batch i k b \<notin># M"
  shows "exStep s (exState a b M G C)"
  using assms by (auto simp: exStep_def exPlain_def exState_def Make_def readPersist_def MakePersister_def ReadRaftState_def)

lemma ex_compacts:
  "lastIncludedIndex (exNode i st lg ci nx mt hb ac v) = 0" "commitIndex (exNode i st lg ci nx mt hb ac v) = ci"
  "lastIncludedIndex (Make 2 i MakePersister 0) = 0" "commitIndex (Make 2 i MakePersister 0) = 0"
  by (simp_all add: exNode_def Make_def readPersist_def MakePersister_def ReadRaftState_def)

lemma exElect_run: "exStep\<^sup>*\<^sup>* (cinit 2 (\<lambda>_. 0)) (exElect :: ('c, 's) cluster)"
proof -
  let ?A0 = "Make 2 0 MakePersister 0 :: ('c, 's) raft" and ?B0 = "Make 2 1 MakePersister 0 :: ('c, 's) raft"
  let ?A1 = "exNode 0 StateCandidate [] 0 [0, 0] [0, 0] 100 False 1 :: ('c, 's) raft"
  let ?B1 = "exNode 1 StateFollower [] 0 [0, 0] [0, 0] 100 False 0 :: ('c, 's) raft"
  let ?A2 = "exNode 0 StateLeader [] 0 [1, 1] [0, 0] 0 False 2 :: ('c, 's) raft"
  let ?s0 = "exState ?A0 ?B0 {#} {} {}" and ?s1 = "exState ?A1 ?B0 {#VoteReq 0 0 1 exVote#} {(0, 1, 0)} {}"
  let ?s2 = "exState ?A1 ?B1 {#VoteRep 0 0 1 exVote exYes#} {(1, 1, 0), (0, 1, 0)} {}"
  have e: "tickElection 0 ?A0 = (?A1, Some exVote)" "RequestVote 0 exVote ?B0 = (?B1, exYes)" "handleVoteReply exVote exYes ?A1 = ?A2"
    by (rule ex_nodes)+
  have "cstep ?s0 ?s1"
    using elect [of 0 ?s0 0 ?A1 exVote] e(1) by (simp add: otherPeers_def exVote_def exNode_def upt_rec)
  then have 1: "exStep ?s0 ?s1" by (intro ex_step) (simp_all add: ex_compacts)
  have "cstep ?s1 ?s2"
    using vote_request [of 0 0 1 exVote ?s1 0 ?B1 exYes] e(2) by (simp add: exVote_def exYes_def)
  then have 2: "exStep ?s1 ?s2" by (intro ex_step) (simp_all add: ex_compacts)
  have "cstep ?s2 exElect"
    using vote_reply [of 0 ?s2 1 exVote exYes ?A2] e(3) by (simp add: exElect_def countsVote_def exVote_def exYes_def exNode_def)
  then have 3: "exStep ?s2 exElect" unfolding exElect_def by (intro ex_step) (simp_all add: ex_compacts)
  show ?thesis unfolding exState_init using 1 2 3 by (meson converse_rtranclp_into_rtranclp rtranclp.rtrancl_refl)
qed

text \<open>The leader sends its log to server 1; the call is executed.\<close>

lemma ex_replicate:
  fixes b :: "('c, 's) raft"
  assumes "replicateTo 1 (exNode 0 StateLeader lg ci nx mt 100 ac v :: ('c, 's) raft) = SendEntries args"
    and "AppendEntries 0 args b = (b', reply)" and "0 \<le> ci" "lastIncludedIndex b = 0" "0 \<le> commitIndex b" "lastIncludedIndex b' = 0" "0 \<le> commitIndex b'"
  shows "exStep\<^sup>*\<^sup>* (exState (exNode 0 StateLeader lg ci nx mt hb ac v) b {#} G C)
    (exState (exNode 0 StateLeader lg ci nx mt 100 ac v) b' {#AppRep 0 0 1 args reply#} G C)"
proof -
  let ?a = "exNode 0 StateLeader lg ci nx mt hb ac v :: ('c, 's) raft" and ?a' = "exNode 0 StateLeader lg ci nx mt 100 ac v :: ('c, 's) raft"
  have "cstep (exState ?a b {#} G C) (exState ?a' b {#ReplTask 0 0 1#} G C)"
    using heartbeat [of 0 "exState ?a b {#} G C" ?a' "[1]"] ex_leader(1) [of lg ci nx mt hb ac v] by simp
  then have "exStep (exState ?a b {#} G C) (exState ?a' b {#ReplTask 0 0 1#} G C)"
    using assms(3-5) by (intro ex_step) (simp_all add: ex_compacts)
  moreover have "cstep (exState ?a' b {#ReplTask 0 0 1#} G C) (exState ?a' b {#AppReq 0 0 1 args#} G C)"
    using replicate_call [of 0 "exState ?a' b {#ReplTask 0 0 1#} G C" 1] assms(1) by simp
  then have "exStep (exState ?a' b {#ReplTask 0 0 1#} G C) (exState ?a' b {#AppReq 0 0 1 args#} G C)"
    using assms(3-5) by (intro ex_step) (simp_all add: ex_compacts)
  moreover have "cstep (exState ?a' b {#AppReq 0 0 1 args#} G C) (exState ?a' b' {#AppRep 0 0 1 args reply#} G C)"
    using append_request [of 0 0 1 args "exState ?a' b {#AppReq 0 0 1 args#} G C" 0 b' reply] assms(2) by simp
  then have "exStep (exState ?a' b {#AppReq 0 0 1 args#} G C) (exState ?a' b' {#AppRep 0 0 1 args reply#} G C)"
    using assms(3,6,7) by (intro ex_step) (simp_all add: ex_compacts)
  ultimately show ?thesis by (meson converse_rtranclp_into_rtranclp rtranclp.rtrancl_refl)
qed

lemma exFirst_run: "exStep\<^sup>*\<^sup>* exElect (exFirst c :: ('c, 's) cluster)"
proof -
  let ?G = "{(1, 1, 0), (0, 1, 0)}" and ?C = "{(0, 1, 1)}"
  let ?A = "exNode 0 StateLeader [exEnt c] 0 [1, 1] [1, 0] 0 False 2 :: ('c, 's) raft"
  let ?B = "exNode 1 StateFollower [] 0 [0, 0] [0, 0] 100 False 0" and ?B' = "exNode 1 StateFollower [exEnt c] 0 [0, 0] [0, 0] 100 False 0"
  let ?s1 = "exState ?A ?B {#} ?G ?C"
  let ?s2 = "exState (exNode 0 StateLeader [exEnt c] 0 [1, 1] [1, 0] 100 False 2) ?B' {#AppRep 0 0 1 (exSend 0 [exEnt c]) exOk#} ?G ?C :: ('c, 's) cluster"
  have "cstep exElect ?s1"
    using client_start [of 0 exElect c ?A 1 1 True] unfolding exElect_def by (simp add: ex_nodes(4))
  then have 1: "exStep exElect ?s1" by (intro ex_step) (simp_all add: ex_compacts)
  have 2: "exStep\<^sup>*\<^sup>* ?s1 ?s2" by (rule ex_replicate [OF ex_leader(2) ex_nodes(5)]) (simp_all add: ex_compacts)
  have "cstep ?s2 (exFirst c)"
    using append_reply [of 0 ?s2 1 "exSend 0 [exEnt c]" exOk] unfolding exFirst_def by (simp add: ex_commit [unfolded One_nat_def])
  then have 3: "exStep ?s2 (exFirst c)" unfolding exFirst_def by (intro ex_step) (simp_all add: ex_compacts)
  show ?thesis using converse_rtranclp_into_rtranclp [of exStep, OF 1 2] 3 by (rule rtranclp.rtrancl_into_rtrancl)
qed

lemma exBoth_run: "exStep\<^sup>*\<^sup>* (exFirst c) (exBoth c)"
  unfolding exFirst_def exBoth_def by (rule ex_replicate [OF ex_leader(3) ex_nodes(6)]) (simp_all add: ex_compacts)

definition exLeaderCommits :: "(int, int) cluster" where
  "exLeaderCommits = exFirst 7"

definition exBothCommit :: "(int, int) cluster" where
  "exBothCommit = exBoth 7"

lemma exLeaderCommits_reachable: "sreach 2 exLeaderCommits"
  unfolding exLeaderCommits_def
  by (rule exStep_reach [OF rtranclp_trans [OF exElect_run exFirst_run] sreach.start])

lemma exBothCommit_run: "sstep\<^sup>*\<^sup>* exLeaderCommits exBothCommit"
  unfolding exLeaderCommits_def exBothCommit_def by (rule exStep_run [OF exBoth_run])

lemma ex_views:
  "entryAt (node exLeaderCommits 0) 1 = Some (exEnt 7)" "lastIncludedIndex (node exLeaderCommits 0) = 0"
  "commitIndex (node exLeaderCommits 0) = 1" "lastIncludedIndex (node exBothCommit 1) = 0" "commitIndex (node exBothCommit 1) = 1"
  "currentTerm (node exLeaderCommits 0) = 1" "state (node exBothCommit 0) = StateLeader" "currentTerm (node exBothCommit 0) = 1"
  "lastApplied (node exLeaderCommits 0) = 0" "lastApplied (node exBothCommit 1) = 0"
  "entryAt (node exBothCommit 1) 1 = Some (exEnt 7)" "lastIncludedIndex (node exBothCommit 0) = 0"
  by (simp_all add: exLeaderCommits_def exBothCommit_def exFirst_def exBoth_def exNode_def entryAt_def lastLogIndex_def toSliceIndex_def)

theorem state_machine_safety_witness:
  "sreach 2 exLeaderCommits \<and> sstep\<^sup>*\<^sup>* exLeaderCommits exBothCommit \<and> commitIndex (node exLeaderCommits 0) = 1 \<and>
   commitIndex (node exBothCommit 1) = 1 \<and> entryAt (node exBothCommit 1) 1 = Some \<lparr>Term = 1, Command = 7\<rparr>"
proof -
  have "\<exists>e. entryAt (node exLeaderCommits 0) 1 = Some e \<and> entryAt (node exBothCommit 1) 1 = Some e"
    by (rule state_machine_safety [OF exLeaderCommits_reachable exBothCommit_run]) (unfold ex_views, simp_all)
  then show ?thesis using exLeaderCommits_reachable exBothCommit_run unfolding ex_views by (simp add: exEnt_def)
qed

theorem logs_match_witness:
  "sreach 2 exLeaderCommits \<and> sstep\<^sup>*\<^sup>* exLeaderCommits exBothCommit \<and>
   entryAt (node exLeaderCommits 0) 1 = entryAt (node exBothCommit 1) 1"
proof -
  have "entryAt (node exLeaderCommits 0) 1 = entryAt (node exBothCommit 1) 1"
    by (rule logs_match [OF exLeaderCommits_reachable exBothCommit_run _ _ ex_views(1,11)]) (unfold ex_views, simp_all)
  then show ?thesis using exLeaderCommits_reachable exBothCommit_run by blast
qed

theorem leader_has_committed_witness:
  "sreach 2 exLeaderCommits \<and> sstep\<^sup>*\<^sup>* exLeaderCommits exBothCommit \<and> state (node exBothCommit 0) = StateLeader \<and>
   entryAt (node exBothCommit 0) 1 = Some \<lparr>Term = 1, Command = 7\<rparr>"
proof -
  have "1 \<le> lastLogIndex (node exBothCommit 0) \<and>
    (lastIncludedIndex (node exBothCommit 0) < 1 \<longrightarrow> entryAt (node exBothCommit 0) 1 = entryAt (node exLeaderCommits 0) 1)"
    by (rule leader_has_committed [OF exLeaderCommits_reachable exBothCommit_run]) (unfold ex_views, simp_all)
  then show ?thesis using exLeaderCommits_reachable exBothCommit_run unfolding ex_views by (simp add: exEnt_def)
qed

end
