(* ===== verification/Raft_Service.thy ===== *)
theory Raft_Service
  imports Raft_Safety
begin

text \<open>
  A replicated service: the servers of a Raft group together with the services that read their apply channels. The key/value
  server, the shard controller and the sharded server are such services. A step is a critical section of Raft that does not
  concern the service, a round of Raft's apply loop, a round of the service's apply loop, or a crash and restart of a server with its service.

  The apply channel is a queue: the apply loop of Raft puts a batch of commands in, the service takes them out one by one. The goroutine
  that offers a snapshot to the service may be overtaken by commands, and commands that were queued before the service installs a snapshot are
  delivered after it, although the snapshot covers them.

  Shown: if the service satisfies the laws of the locale below, the state of every replica is at every moment what a
  prefix of one growing sequence of commands leads to. Nothing is assumed of the use that the service makes of \<^verbatim>\<open>Snapshot\<close>: that it compacts
  only what is committed follows.
\<close>

section \<open>The system\<close>

record ('c, 's, 'st) system =
  servers :: "('c, 's) cluster"
  queue :: "nat \<Rightarrow> ('c, 's) ApplyMsg list"
  svc :: "nat \<Rightarrow> 'st"

text \<open>Steps of the Raft group that the services do not take part in: nobody restarts, no batch is collected, no snapshot taken or installed.\<close>

definition raftOnly :: "('c, 's) cluster \<Rightarrow> ('c, 's) cluster \<Rightarrow> bool" where
  "raftOnly s s' \<longleftrightarrow> cstep s s' \<and> incarnation s' = incarnation s \<and>
     (\<forall>i. lastIncludedIndex (node s' i) = lastIncludedIndex (node s i)) \<and>
     (\<forall>i k b. Batch i k b \<in># net s' \<longrightarrow> Batch i k b \<in># net s)"

text \<open>
  \<^verbatim>\<open>round\<close> is one round of the apply loop of the service with its Raft instance, \<^verbatim>\<open>boot\<close> the start of a service from a
  persister, \<^verbatim>\<open>view\<close> the replicated part of its state: the handlers of client requests change only the rest of it. With \<^verbatim>\<open>strict\<close>, snapshots are
  installed only when no command is queued.
\<close>

inductive sysStep ::
    "bool \<Rightarrow> (('c, 's) ApplyMsg \<Rightarrow> ('c, 's) raft \<times> 'st \<Rightarrow> (('c, 's) raft \<times> 'st) go) \<Rightarrow>
     (nat \<Rightarrow> int \<Rightarrow> ('c gobval, 's) persister \<Rightarrow> 'st) \<Rightarrow> ('st \<Rightarrow> 'v) \<Rightarrow>
     ('c, 's, 'st) system \<Rightarrow> ('c, 's, 'st) system \<Rightarrow> bool"
  for strict round boot view where
  raft:
  "raftOnly (servers S) s' \<Longrightarrow> sysStep strict round boot view S (S\<lparr>servers := s'\<rparr>)"
| collect:
  "\<lbrakk>servers S = s; i < nservers s; \<forall>b. Batch i (incarnation s i) b \<notin># net s; applierCollect (node s i) = Some (rf', b)\<rbrakk> \<Longrightarrow>
   sysStep strict round boot view S
     (S\<lparr>servers := s\<lparr>node := (node s)(i := rf'), net := net s + {#Batch i (incarnation s i) b#}\<rparr>,
        queue := (queue S)(i := queue S i @ applierSend (ab_lastIncludedIndex b) (ab_startIdx b) (ab_entries b))\<rparr>)"
| apply_command:
  "\<lbrakk>servers S = s; i < nservers s; queue S i = m # ms; round m (node s i, svc S i) = Inr (rf', st')\<rbrakk> \<Longrightarrow>
   sysStep strict round boot view S
     (S\<lparr>servers := s\<lparr>node := (node s)(i := rf')\<rparr>, queue := (queue S)(i := ms), svc := (svc S)(i := st')\<rparr>)"
| install:
  "\<lbrakk>servers S = s; SnapMsg i (incarnation s i) m \<in># net s; strict \<longrightarrow> queue S i = [];
    round m (node s i, svc S i) = Inr (rf', st')\<rbrakk> \<Longrightarrow>
   sysStep strict round boot view S
     (S\<lparr>servers := s\<lparr>node := (node s)(i := rf'), net := net s - {#SnapMsg i (incarnation s i) m#}\<rparr>,
        svc := (svc S)(i := st')\<rparr>)"
| crash:
  "\<lbrakk>servers S = s; i < nservers s\<rbrakk> \<Longrightarrow>
   sysStep strict round boot view S
     (S\<lparr>servers := s\<lparr>node := (node s)(i := Make (nservers s) i (Copy (Persister (node s i))) rnd),
                   incarnation := (incarnation s)(i := Suc (incarnation s i))\<rparr>,
        queue := (queue S)(i := []), svc := (svc S)(i := boot i rnd (Copy (Persister (node s i))))\<rparr>)"
| handler:
  "view st' = view (svc S i) \<Longrightarrow> sysStep strict round boot view S (S\<lparr>svc := (svc S)(i := st')\<rparr>)"

definition sysInit :: "(nat \<Rightarrow> int \<Rightarrow> ('c gobval, 's) persister \<Rightarrow> 'st) \<Rightarrow> nat \<Rightarrow> (nat \<Rightarrow> int) \<Rightarrow> ('c, 's, 'st) system" where
  "sysInit boot n rnds = \<lparr>servers = cinit n rnds, queue = (\<lambda>_. []), svc = (\<lambda>i. boot i (rnds i) MakePersister)\<rparr>"

inductive sysReach ::
    "bool \<Rightarrow> (('c, 's) ApplyMsg \<Rightarrow> ('c, 's) raft \<times> 'st \<Rightarrow> (('c, 's) raft \<times> 'st) go) \<Rightarrow>
     (nat \<Rightarrow> int \<Rightarrow> ('c gobval, 's) persister \<Rightarrow> 'st) \<Rightarrow> ('st \<Rightarrow> 'v) \<Rightarrow> nat \<Rightarrow> ('c, 's, 'st) system \<Rightarrow> bool"
  for strict round boot view n where
  start: "sysReach strict round boot view n (sysInit boot n rnds)"
| step: "sysReach strict round boot view n S \<Longrightarrow> sysStep strict round boot view S S' \<Longrightarrow> sysReach strict round boot view n S'"

section \<open>What Raft alone does to snapshots and positions\<close>

text \<open>The messages that \<^verbatim>\<open>InstallSnapshot\<close> sends to the service.\<close>

definition offer :: "('c, 's) ApplyMsg \<Rightarrow> bool" where
  "offer m \<longleftrightarrow> am_SnapshotValid m \<and> \<not> am_CommandValid m"

fun msgSnap :: "(int \<Rightarrow> 's buffer \<Rightarrow> bool) \<Rightarrow> ('c, 's) msg \<Rightarrow> bool" where
  "msgSnap P (SnapReq i k j args) \<longleftrightarrow> P (isa_LastIncludedIndex args) (isa_Data args)"
| "msgSnap P (SnapMsg i k m) \<longleftrightarrow> offer m \<and> P (am_SnapshotIndex m) (am_Snapshot m)"
| "msgSnap P _ \<longleftrightarrow> True"

text \<open>Every snapshot in the group, stored or under way, goes with its index.\<close>

definition snapsIn :: "(int \<Rightarrow> 's buffer \<Rightarrow> bool) \<Rightarrow> ('c, 's) cluster \<Rightarrow> bool" where
  "snapsIn P s \<longleftrightarrow> (\<forall>i. P (lastIncludedIndex (node s i)) (ReadSnapshot (Persister (node s i)))) \<and> (\<forall>m\<in>#net s. msgSnap P m)"

text \<open>\<^verbatim>\<open>c\<close> is the last index that server \<^verbatim>\<open>i\<close> has put into its apply channel, or that a snapshot it installed covers.\<close>

definition sentTo :: "('c, 's) cluster \<Rightarrow> nat \<Rightarrow> int \<Rightarrow> bool" where
  "sentTo s i c \<longleftrightarrow> lastApplied (node s i) \<le> c \<and> c \<le> commitIndex (node s i) \<and>
     (\<forall>b. Batch i (incarnation s i) b \<in># net s \<longrightarrow> c = max (lastApplied (node s i)) (ab_commitIndex b)) \<and>
     ((\<forall>b. Batch i (incarnation s i) b \<notin># net s) \<longrightarrow> c = lastApplied (node s i))"

definition freshBatches :: "('c, 's) cluster \<Rightarrow> bool" where
  "freshBatches s \<longleftrightarrow> (\<forall>i k b. Batch i k b \<in># net s \<longrightarrow> k \<le> incarnation s i)"

text \<open>What most critical sections leave alone.\<close>

definition steady :: "('c, 's) raft \<Rightarrow> ('c, 's) raft \<Rightarrow> bool" where
  "steady rf rf' \<longleftrightarrow> lastIncludedIndex rf' = lastIncludedIndex rf \<and> ReadSnapshot (Persister rf') = ReadSnapshot (Persister rf) \<and>
     lastApplied rf' = lastApplied rf \<and> commitIndex rf \<le> commitIndex rf'"

lemma stored_snapshot [simp]:
  "ReadSnapshot (Persister (persist rf)) = ReadSnapshot (Persister rf)"
  "ReadSnapshot (Persister (resetElectionTimer rnd rf)) = ReadSnapshot (Persister rf)"
  "ReadSnapshot (Persister (stepDown t rf)) = ReadSnapshot (Persister rf)"
  "ReadSnapshot (Persister (setNextIndex p v rf)) = ReadSnapshot (Persister rf)"
  "ReadSnapshot (Persister (setMatchIndex p v rf)) = ReadSnapshot (Persister rf)"
  "ReadSnapshot (Persister (becomeLeader rf)) = ReadSnapshot (Persister rf)"
  "ReadSnapshot (Persister (saveWithSnapshot data rf)) = data"
  "ReadSnapshot (Persister (Make n i ps rnd)) = ReadSnapshot ps"
  by (auto simp: persist_def resetElectionTimer_def stepDown_def setNextIndex_def setMatchIndex_def becomeLeader_def
      saveWithSnapshot_def persister_defs Make_def readPersist_def Let_def split: option.split)

lemma steady_tryCommit: "steady rf (tryCommit rf)"
  by (cases rule: tryCommit_cases [of rf]) (auto simp: steady_def)

lemma steady_RequestVote: "steady rf (fst (RequestVote rnd args rf))"
  by (simp add: steady_def RequestVote_def Let_def)

lemma steady_InstallSnapshot: "steady rf (fst (InstallSnapshot rnd args rf))"
  by (simp add: steady_def InstallSnapshot_def Let_def)

lemma steady_handleVoteReply: "steady rf (handleVoteReply args reply rf)"
  by (simp add: steady_def handleVoteReply_def Let_def)

lemma steady_handleSnapshotReply: "steady rf (handleSnapshotReply p args reply rf)"
  by (simp add: steady_def handleSnapshotReply_def Let_def)

lemma steady_handleAppendReply: "steady rf (handleAppendReply p args reply rf)"
proof -
  have *: "steady rf (tryCommit rf')" if "steady rf rf'" for rf'
    using that steady_tryCommit [of rf'] by (simp add: steady_def)
  show ?thesis
    unfolding handleAppendReply_def Let_def
    by (auto intro!: *) (auto simp: steady_def)
qed

lemma steady_tickElection: "steady rf (fst (tickElection rnd rf))"
  by (simp add: steady_def tickElection_def startElection_def Let_def)

lemma steady_tickHeartbeat: "steady rf (fst (tickHeartbeat rf))"
  by (simp add: steady_def tickHeartbeat_def)

lemma steady_Start: "steady rf (fst (Start c rf))"
  by (simp add: steady_def Start_def Let_def)

lemma steady_AppendEntries:
  assumes core: "coreOk N g gr" and so: "serverOk N g j rf" and ap: "appOk N g args"
  shows "steady rf (fst (AppendEntries rnd args rf))"
proof -
  have "commitIndex rf \<le> commitIndex (fst (AppendEntries rnd args rf))"
  proof (cases "aeAccepts args rf")
    case True
    have h: "holdsLog (gF g j) rf" and ct: "currentTerm rf \<le> aea_Term args" using so True by (simp_all add: serverOk_def aeAccepts_def)
    obtain k l where kp: "aea_PrevLogIndex args = int k" "base rf \<le> k" "k \<le> length (gF g j)" and l: "gL g (aea_Term args) = Some l"
      and a: "k + length (aea_Entries args) \<le> length l" "aea_Entries args = take (length (aea_Entries args)) (drop k l)"
        "aea_LeaderCommit args \<le> int (k + length (aea_Entries args))" "agree 0 k (gF g j) l"
      using accepted_call [OF core so ap True] by metis
    have "agree 0 (k + length (aea_Entries args)) (mergedLog k (aea_Entries args) (gF g j)) l"
      by (rule accepted_merge(1) [OF core so l ct kp(2) a(4,1,2) refl refl])
    then have "aea_LeaderCommit args \<le> int (length (mergedLog k (aea_Entries args) (gF g j)))" using a(3) by (auto simp: agree_def)
    from accepted_fields(8) [OF True prod.collapse [symmetric] h kp refl this, of rnd] show ?thesis by simp
  next
    case False
    then show ?thesis
      using AppendEntries_stale [of args rf rnd] AppendEntries_rejects [OF _ False, of rnd]
      by (cases "aea_Term args < currentTerm rf") auto
  qed
  then show ?thesis
    by (auto simp: steady_def AppendEntries_def Let_def)
qed

lemma steady_refl [simp]: "steady rf rf"
  by (simp add: steady_def)

lemma Snapshot_cases:
  assumes "Snapshot index data rf = Inr rf'"
  obtains (ignored) "index \<le> lastIncludedIndex rf" "rf' = rf"
  | (compacted) "lastIncludedIndex rf < index" "lastIncludedIndex rf' = index" "ReadSnapshot (Persister rf') = data"
      "commitIndex rf' = commitIndex rf" "lastApplied rf' = lastApplied rf"
proof (cases "index \<le> lastIncludedIndex rf")
  case True
  then show ?thesis using that(1) assms by (simp add: Snapshot_def)
next
  case False
  then show ?thesis using that(2) assms by (auto simp: Snapshot_result split: if_splits)
qed

lemma CondInstallSnapshot_cases:
  assumes "CondInstallSnapshot lit lii data rf = Inr (rf', ok)"
  obtains (refused) "lii \<le> commitIndex rf" "rf' = rf" "\<not> ok"
  | (installed) "commitIndex rf < lii" "ok" "lastIncludedIndex rf' = lii" "commitIndex rf' = lii" "lastApplied rf' = lii"
      "ReadSnapshot (Persister rf') = data"
  using assms by (auto simp: CondInstallSnapshot_def split: if_splits sum.splits)

text \<open>A step of Raft alone is steady at every server, or ends a round of an apply loop.\<close>

lemma raftOnly_cases:
  assumes I: "raftInv N g s" and r: "raftOnly s s'"
  obtains (steady) "\<And>i. steady (node s i) (node s' i)" "\<And>i k b. Batch i k b \<in># net s' \<longleftrightarrow> Batch i k b \<in># net s"
  | (finish) i b where "Batch i (incarnation s i) b \<in># net s"
      "s' = s\<lparr>node := (node s)(i := applierFinish b (node s i)), net := net s - {#Batch i (incarnation s i) b#}\<rparr>"
proof -
  have st: "cstep s s'" and inc: "incarnation s' = incarnation s" and lii: "\<And>i. lastIncludedIndex (node s' i) = lastIncludedIndex (node s i)"
    and nb: "\<And>i k b. Batch i k b \<in># net s' \<Longrightarrow> Batch i k b \<in># net s" using r by (auto simp: raftOnly_def)
  have ok: "serverOk N g j (node s j)" if "j < N" for j using I that by (simp add: raftInv_def srvOk_def)
  from st show ?thesis
  proof (cases rule: cstep.cases)
    case (elect i rnd rf' args)
    then show ?thesis using steady_tickElection [of "node s i" rnd] by (intro that(1)) auto
  next
    case (vote_request i k j args rnd rf' reply)
    then show ?thesis using steady_RequestVote [of "node s j" rnd args] by (intro that(1)) (auto simp: in_diff_count)
  next
    case (vote_reply i j args reply rf')
    then show ?thesis using steady_handleVoteReply [of "node s i" args reply] by (intro that(1)) (auto simp: in_diff_count)
  next
    case (heartbeat i rf' ps)
    then show ?thesis using steady_tickHeartbeat [of "node s i"] by (intro that(1)) auto
  next
    case (replicate_call i p)
    then show ?thesis by (intro that(1); cases "replicateTo p (node s i)") (auto simp: in_diff_count)
  next
    case (append_request i k j args rnd rf' reply)
    then have "j < N" "appOk N g args" using I by (auto simp: raftInv_def)
    moreover have "coreOk N g (granted s)" using I by (simp add: raftInv_def)
    ultimately have "steady (node s j) (fst (AppendEntries rnd args (node s j)))" using steady_AppendEntries ok by blast
    then show ?thesis using append_request by (intro that(1)) (auto simp: in_diff_count)
  next
    case (append_reply i j args reply rf')
    then show ?thesis using steady_handleAppendReply [of "node s i" j args reply] by (intro that(1)) (auto simp: in_diff_count)
  next
    case (snap_request i k j args rnd rf' reply out)
    then show ?thesis using steady_InstallSnapshot [of "node s j" rnd args] by (intro that(1)) (auto simp: in_diff_count split: option.splits)
  next
    case (snap_reply i j args reply rf')
    then show ?thesis using steady_handleSnapshotReply [of "node s i" j args reply] by (intro that(1)) (auto simp: in_diff_count)
  next
    case (client_start i c rf' index t isLeader)
    then show ?thesis using steady_Start [of "node s i" c] by (intro that(1)) auto
  next
    case (service_snapshot i index data rf')
    from service_snapshot(3) have "rf' = node s i" by (cases rule: Snapshot_cases) (use lii [of i] service_snapshot(1) in auto)
    then show ?thesis using service_snapshot by (intro that(1)) auto
  next
    case (service_install i m rf' installed)
    have "i < N" using I service_install(2) by (auto simp: raftInv_def)
    then have c: "lastIncludedIndex (node s i) \<le> commitIndex (node s i)" using ok by (simp add: serverOk_def)
    from service_install(3) have "rf' = node s i"
      by (cases rule: CondInstallSnapshot_cases) (use lii [of i] c service_install(1) in auto)
    then show ?thesis using service_install by (intro that(1)) (auto simp: in_diff_count)
  next
    case (apply_collect i rf' b)
    then show ?thesis using nb [of i "incarnation s i" b] by simp
  next
    case (apply_finish i b rf')
    then show ?thesis using that(2) by blast
  next
    case (lose m)
    then show ?thesis by (intro that(1)) (auto simp: in_diff_count)
  next
    case (restart i rnd)
    then show ?thesis using inc by (auto dest: fun_cong [of _ _ i])
  qed
qed

lemma msgSnap_cstep:
  assumes "cstep s s'" "snapsIn P s" "m \<in># net s'"
  shows "msgSnap P m"
  using assms
proof (cases rule: cstep.cases)
  case (replicate_call i p)
  have "msgSnap P m" if "m \<in># callMsgs i (incarnation s i) p (replicateTo p (node s i))"
    using that assms(2) by (cases "replicateTo p (node s i)") (auto simp: replicateTo_def snapsIn_def Let_def split: if_splits)
  moreover have "m \<in># net s \<or> m \<in># callMsgs i (incarnation s i) p (replicateTo p (node s i))"
    using replicate_call assms(3) by (auto dest: in_diffD)
  ultimately show ?thesis using assms(2) by (auto simp: snapsIn_def)
next
  case (snap_request i k j args rnd rf' reply out)
  then have "out = None \<or> out = Some (snapshotMsg args)" by (auto simp: InstallSnapshot_def Let_def split: if_splits)
  then show ?thesis using snap_request assms(2,3) by (auto simp: snapsIn_def snapshotMsg_def offer_def dest: in_diffD split: option.splits)
qed (auto simp: snapsIn_def dest: in_diffD)

lemma raftOnly_snapsIn:
  assumes "raftInv N g s" "raftOnly s s'" "snapsIn P s"
  shows "snapsIn P s'"
proof -
  have "cstep s s'" using assms(2) by (simp add: raftOnly_def)
  then have "\<forall>m\<in>#net s'. msgSnap P m" using msgSnap_cstep assms(3) by blast
  moreover have "P (lastIncludedIndex (node s' i)) (ReadSnapshot (Persister (node s' i)))" for i
    using assms(1,2)
  proof (cases rule: raftOnly_cases)
    case steady
    then show ?thesis using assms(3) by (simp add: snapsIn_def steady_def)
  qed (use assms(3) in \<open>simp add: snapsIn_def applierFinish_def\<close>)
  ultimately show ?thesis by (simp add: snapsIn_def)
qed

lemma raftOnly_sentTo:
  assumes "raftInv N g s" "raftOnly s s'" "sentTo s i c"
  shows "sentTo s' i c"
  using assms(1,2)
proof (cases rule: raftOnly_cases)
  case steady
  have "incarnation s' = incarnation s" using assms(2) by (simp add: raftOnly_def)
  moreover have "lastApplied (node s' i) = lastApplied (node s i)" "commitIndex (node s i) \<le> commitIndex (node s' i)"
    using steady(1) [of i] by (simp_all add: steady_def)
  ultimately show ?thesis using assms(3) by (auto simp: sentTo_def steady(2))
next
  case (finish j b)
  show ?thesis
  proof (cases "j = i")
    case True
    have c: "c = max (lastApplied (node s i)) (ab_commitIndex b)" "c \<le> commitIndex (node s i)"
      using assms(3) finish(1) True by (auto simp: sentTo_def)
    then have "lastApplied (node s' i) = c" "commitIndex (node s' i) = commitIndex (node s i)"
      using finish(2) True by (auto simp: applierFinish_def)
    moreover have "c = max c (ab_commitIndex b')" if "Batch i (incarnation s i) b' \<in># net s'" for b'
    proof -
      have "c = max (lastApplied (node s i)) (ab_commitIndex b')"
        using that finish(2) assms(3) by (auto simp: sentTo_def dest: in_diffD)
      then show ?thesis by simp
    qed
    ultimately show ?thesis using c(2) finish(2) by (auto simp: sentTo_def)
  next
    case False
    then show ?thesis using assms(3) finish(2) by (auto simp: sentTo_def in_diff_count)
  qed
qed

lemma raftOnly_freshBatches: "raftOnly s s' \<Longrightarrow> freshBatches s \<Longrightarrow> freshBatches s'"
  unfolding raftOnly_def freshBatches_def by metis

lemma committed_is_take:
  assumes "raftInv N g s" "gCommitted N g T xs" "gCommitted N g T' ys" "length xs \<le> length ys"
  shows "xs = take (length xs) ys"
proof -
  have "electionsOk N (gL g) (gA g)" using assms(1) core_elections by (auto simp: raftInv_def)
  from committed_agree [OF this assms(2-4)] show ?thesis using assms(4) by (simp add: agree_zero)
qed

lemma server_commit: "raftInv N g s \<Longrightarrow> i < N \<Longrightarrow> lastIncludedIndex (node s i) \<le> commitIndex (node s i) \<and> 0 \<le> lastIncludedIndex (node s i) \<and> commitIndex (node s i) \<le> lastLogIndex (node s i)"
  using holds_lastLogIndex by (fastforce simp: raftInv_def srvOk_def serverOk_def holdsLog_def)

lemma raftInv_one:
  assumes I: "raftInv N g s" and st: "cstep s s'" and c: "\<And>j. j < N \<Longrightarrow> lastIncludedIndex (node s' j) \<le> commitIndex (node s' j)"
  shows "raftNext N g s'"
proof -
  have "nservers s' = N" using cstep_nservers [OF st] I by (simp add: raftInv_def)
  then show ?thesis using raftInv_sstep [OF _ I] st c by (simp add: sstep_def compactsCommitted_def)
qed

section \<open>Replicated services\<close>

text \<open>
  What is asked of a service. \<^verbatim>\<open>app\<close> is the effect of a command on the replicated state, \<^verbatim>\<open>isSnap data v\<close> says that \<^verbatim>\<open>data\<close> is an encoding of
  the state \<^verbatim>\<open>v\<close>. A command is executed, and then possibly a snapshot of the result is handed to Raft; an offered snapshot is installed exactly if it goes beyond the
  commit index; the service starts from the snapshot of its persister. If snapshots may be installed while commands are queued, then
  commands that the state includes already must not change it.
\<close>

locale replicated_service =
  fixes strict :: bool
    and round :: "('c, 's) ApplyMsg \<Rightarrow> ('c, 's) raft \<times> 'st \<Rightarrow> (('c, 's) raft \<times> 'st) go"
    and boot :: "nat \<Rightarrow> int \<Rightarrow> ('c gobval, 's) persister \<Rightarrow> 'st"
    and view :: "'st \<Rightarrow> 'v"
    and app :: "'c \<Rightarrow> 'v \<Rightarrow> 'v"
    and v0 :: 'v
    and isSnap :: "'s buffer \<Rightarrow> 'v \<Rightarrow> bool"
  assumes command: "round (commandMsg k e) (rf, st) = Inr (rf', st') \<Longrightarrow>
      view st' = app (Command e) (view st) \<and> (rf' = rf \<or> (\<exists>data. isSnap data (view st') \<and> Snapshot k data rf = Inr rf'))"
    and outdated: "offer m \<Longrightarrow> am_SnapshotIndex m \<le> commitIndex rf \<Longrightarrow> round m (rf, st) = Inr (rf', st') \<Longrightarrow>
      rf' = rf \<and> view st' = view st"
    and snapshot: "offer m \<Longrightarrow> commitIndex rf < am_SnapshotIndex m \<Longrightarrow> isSnap (am_Snapshot m) v \<Longrightarrow>
      round m (rf, st) = Inr (rf', st') \<Longrightarrow>
      CondInstallSnapshot (am_SnapshotTerm m) (am_SnapshotIndex m) (am_Snapshot m) rf = Inr (rf', True) \<and> view st' = v"
    and boot_empty: "ReadSnapshot ps = [] \<Longrightarrow> view (boot i rnd ps) = v0"
    and boot_snapshot: "isSnap (ReadSnapshot ps) v \<Longrightarrow> view (boot i rnd ps) = v"
    and replay: "\<not> strict \<Longrightarrow> isSnap data v \<Longrightarrow> c \<in> set cs \<Longrightarrow> app c (fold app cs v0) = fold app cs v0"
begin

definition after :: "'c LogEntry list \<Rightarrow> 'v" where
  "after xs = fold app (map Command xs) v0"

lemma after_snoc [simp]: "after (xs @ [e]) = app (Command e) (after xs)"
  by (simp add: after_def)

lemma after_Nil [simp]: "after [] = v0"
  by (simp add: after_def)

text \<open>\<^verbatim>\<open>data\<close> is a snapshot of the state after the first \<^verbatim>\<open>k\<close> committed commands.\<close>

definition snapOf :: "nat \<Rightarrow> 'c ghost \<Rightarrow> int \<Rightarrow> 's buffer \<Rightarrow> bool" where
  "snapOf N g k data \<longleftrightarrow> k = 0 \<and> data = [] \<or>
     (\<exists>T xs. gCommitted N g T xs \<and> xs \<noteq> [] \<and> k = int (length xs) \<and> isSnap data (after xs))"

text \<open>
  The commands in the queue of a service that has applied \<^verbatim>\<open>ap\<close> of them: the next ones up to index \<^verbatim>\<open>c\<close>, and among them commands that the last snapshot,
  at index \<^verbatim>\<open>lii\<close>, covers.
\<close>

fun follows :: "nat \<Rightarrow> 'c ghost \<Rightarrow> int \<Rightarrow> int \<Rightarrow> ('c, 's) ApplyMsg list \<Rightarrow> int \<Rightarrow> bool" where
  "follows N g lii ap [] c \<longleftrightarrow> ap = c"
| "follows N g lii ap (m # ms) c \<longleftrightarrow> (\<exists>T xs e. gCommitted N g T (xs @ [e]) \<and> m = commandMsg (int (length xs) + 1) e \<and>
     (if int (length xs) = ap then follows N g lii (ap + 1) ms c
      else \<not> strict \<and> int (length xs) + 1 \<le> lii \<and> follows N g lii ap ms c))"

definition replicaOk :: "nat \<Rightarrow> 'c ghost \<Rightarrow> ('c, 's, 'st) system \<Rightarrow> nat \<Rightarrow> bool" where
  "replicaOk N g S i \<longleftrightarrow> (\<exists>T xs c. gCommitted N g T xs \<and> view (svc S i) = after xs \<and>
     lastIncludedIndex (node (servers S) i) \<le> int (length xs) \<and> sentTo (servers S) i c \<and>
     follows N g (lastIncludedIndex (node (servers S) i)) (int (length xs)) (queue S i) c)"

definition sysInv :: "nat \<Rightarrow> 'c ghost \<Rightarrow> ('c, 's, 'st) system \<Rightarrow> bool" where
  "sysInv N g S \<longleftrightarrow> raftInv N g (servers S) \<and> freshBatches (servers S) \<and> snapsIn (snapOf N g) (servers S) \<and> (\<forall>i<N. replicaOk N g S i)"

lemma snapOf_grows: "snapOf N g k data \<Longrightarrow> grows (gL g) (gL g') \<Longrightarrow> gA g \<subseteq> gA g' \<Longrightarrow> snapOf N g' k data"
  unfolding snapOf_def using committed_grows [OF _ _ _ order_refl] by metis

lemma follows_grows: "follows N g lii ap ms c \<Longrightarrow> grows (gL g) (gL g') \<Longrightarrow> gA g \<subseteq> gA g' \<Longrightarrow> follows N g' lii ap ms c"
proof (induction ms arbitrary: ap)
  case (Cons m ms)
  then show ?case using committed_grows [OF _ Cons.prems(2,3) order_refl] by (auto split: if_splits) metis+
qed simp

lemma follows_lii: "follows N g lii ap ms c \<Longrightarrow> lii \<le> lii' \<Longrightarrow> follows N g lii' ap ms c"
  by (induction ms arbitrary: ap) (fastforce split: if_splits)+

lemma follows_append: "follows N g lii ap ms c \<Longrightarrow> follows N g lii c ms' d \<Longrightarrow> follows N g lii ap (ms @ ms') d"
  by (induction ms arbitrary: ap) (fastforce split: if_splits)+

lemma follows_le: "follows N g lii ap ms c \<Longrightarrow> ap \<le> c"
  by (induction ms arbitrary: ap) (fastforce split: if_splits)+

lemma follows_covered:
  "follows N g lii ap ms c \<Longrightarrow> lii \<le> k \<Longrightarrow> c \<le> k \<Longrightarrow> strict \<longrightarrow> ms = [] \<Longrightarrow> follows N g k k ms k"
proof (induction ms arbitrary: ap)
  case (Cons m ms)
  then obtain T xs e where x: "gCommitted N g T (xs @ [e])" "m = commandMsg (int (length xs) + 1) e"
    "int (length xs) = ap \<and> follows N g lii (ap + 1) ms c \<or> int (length xs) + 1 \<le> lii \<and> follows N g lii ap ms c"
    by (auto split: if_splits)
  have "follows N g k k ms k" using x(3) Cons.IH Cons.prems by auto
  moreover have "int (length xs) + 1 \<le> k" using x(3) Cons.prems(2,3) follows_le by force
  ultimately have "if int (length xs) = k then follows N g k (k + 1) ms k
      else \<not> strict \<and> int (length xs) + 1 \<le> k \<and> follows N g k k ms k" using Cons.prems(4) by auto
  then show ?case unfolding follows.simps using x(1,2) by blast
qed simp

end

context replicated_service
begin

definition sysNext :: "nat \<Rightarrow> 'c ghost \<Rightarrow> ('c, 's, 'st) system \<Rightarrow> bool" where
  "sysNext N g S' \<longleftrightarrow> (\<exists>g'. sysInv N g' S' \<and> grows (gL g) (gL g') \<and> gA g \<subseteq> gA g')"

lemma sysNextI:
  assumes r: "raftNext N g (servers S')" and f: "freshBatches (servers S')" and sn: "snapsIn (snapOf N g) (servers S')"
    and re: "\<And>i. i < N \<Longrightarrow> replicaOk N g S' i"
  shows "sysNext N g S'"
proof -
  obtain g' where g': "raftInv N g' (servers S')" "grows (gL g) (gL g')" "gA g \<subseteq> gA g'" using r by (auto simp: raftNext_def)
  have "msgSnap (snapOf N g') m" if "m \<in># net (servers S')" for m
    using that sn snapOf_grows [OF _ g'(2,3)] by (cases m) (auto simp: snapsIn_def)
  then have "snapsIn (snapOf N g') (servers S')" using sn snapOf_grows [OF _ g'(2,3)] by (auto simp: snapsIn_def)
  moreover have "replicaOk N g' S' i" if "i < N" for i
    using re [OF that] follows_grows [OF _ g'(2,3)] committed_grows [OF _ g'(2,3) order_refl] unfolding replicaOk_def by metis
  ultimately show ?thesis using g' f by (auto simp: sysNext_def sysInv_def)
qed

lemma replicaOk_other:
  assumes "replicaOk N g S i" "svc S' i = svc S i" "queue S' i = queue S i" "node (servers S') i = node (servers S) i"
    and "incarnation (servers S') i = incarnation (servers S) i"
    and "\<And>b. Batch i (incarnation (servers S) i) b \<in># net (servers S') \<longleftrightarrow> Batch i (incarnation (servers S) i) b \<in># net (servers S)"
  shows "replicaOk N g S' i"
  using assms by (simp add: replicaOk_def sentTo_def)

lemma replicaOk_all:
  assumes "sysInv N g S" "replicaOk N g S' i" "j < N"
    and "j \<noteq> i \<Longrightarrow> svc S' j = svc S j \<and> queue S' j = queue S j \<and> node (servers S') j = node (servers S) j \<and>
      incarnation (servers S') j = incarnation (servers S) j \<and>
      (\<forall>b. Batch j (incarnation (servers S) j) b \<in># net (servers S') \<longleftrightarrow> Batch j (incarnation (servers S) j) b \<in># net (servers S))"
  shows "replicaOk N g S' j"
  using assms replicaOk_other [of N g S j S'] unfolding sysInv_def by blast

lemma sysInv_raft:
  assumes "sysInv N g S" "raftOnly (servers S) s'"
  shows "sysNext N g (S\<lparr>servers := s'\<rparr>)"
proof (rule sysNextI)
  have I: "raftInv N g (servers S)" using assms(1) by (simp add: sysInv_def)
  have lii: "lastIncludedIndex (node s' i) = lastIncludedIndex (node (servers S) i)" for i using assms(2) by (simp add: raftOnly_def)
  have up: "commitIndex (node (servers S) i) \<le> commitIndex (node s' i)" for i
    using I assms(2) by (cases rule: raftOnly_cases) (auto simp: steady_def applierFinish_def)
  have "lastIncludedIndex (node s' i) \<le> commitIndex (node s' i)" if "i < N" for i
    using server_commit [OF I that] lii [of i] up [of i] by linarith
  then show "raftNext N g (servers (S\<lparr>servers := s'\<rparr>))" using raftInv_one [OF I] assms(2) by (simp add: raftOnly_def)
  show "freshBatches (servers (S\<lparr>servers := s'\<rparr>))" "snapsIn (snapOf N g) (servers (S\<lparr>servers := s'\<rparr>))"
    using assms raftOnly_freshBatches raftOnly_snapsIn [OF I assms(2)] by (auto simp: sysInv_def)
  show "replicaOk N g (S\<lparr>servers := s'\<rparr>) i" if "i < N" for i
    using assms(1) that raftOnly_sentTo [OF I assms(2)] by (fastforce simp: sysInv_def replicaOk_def lii)
qed

lemma follows_committed:
  assumes "\<And>k. a < k \<Longrightarrow> k \<le> b \<Longrightarrow> \<exists>T xs. gCommitted N g T (xs @ [f k]) \<and> int (length xs) + 1 = k" "a \<le> b"
  shows "follows N g lii a (map (\<lambda>k. commandMsg k (f k)) [a + 1..b]) b"
  using assms
proof (induction "nat (b - a)" arbitrary: a)
  case (Suc n)
  then have ab: "a < b" by simp
  then have u: "[a + 1..b] = (a + 1) # [a + 1 + 1..b]" by (simp add: upto_rec1)
  have "follows N g lii (a + 1) (map (\<lambda>k. commandMsg k (f k)) [a + 1 + 1..b]) b"
    using Suc.hyps(2) Suc.prems by (intro Suc.hyps(1)) auto
  moreover obtain T xs where "gCommitted N g T (xs @ [f (a + 1)])" "int (length xs) + 1 = a + 1" using Suc.prems(1) [of "a + 1"] ab by auto
  ultimately show ?case unfolding u list.map follows.simps by (intro exI [of _ T] exI [of _ xs] exI [of _ "f (a + 1)"]) auto
qed simp

end

lemma Make_positions:
  assumes "durable rf"
  shows "lastIncludedIndex (Make n i (Persister rf) rnd) = lastIncludedIndex rf"
    "commitIndex (Make n i (Persister rf) rnd) = lastIncludedIndex rf"
    "lastApplied (Make n i (Persister rf) rnd) = lastIncludedIndex rf"
proof -
  have "persistentState (Make n i (Persister rf) rnd) = persistentState rf"
    using assms by (simp add: persistentState_Make durable_def)
  then show l: "lastIncludedIndex (Make n i (Persister rf) rnd) = lastIncludedIndex rf" by (simp add: persistentState_def)
  then show "commitIndex (Make n i (Persister rf) rnd) = lastIncludedIndex rf" by (simp add: Make_commitIndex)
  have "lastApplied (Make n i (Persister rf) rnd) = lastIncludedIndex (Make n i (Persister rf) rnd)"
    by (auto simp: Make_def readPersist_def Let_def split: option.split)
  then show "lastApplied (Make n i (Persister rf) rnd) = lastIncludedIndex rf" using l by simp
qed

context replicated_service
begin

lemma snapsIn_update:
  assumes "snapsIn P s" "P (lastIncludedIndex rf') (ReadSnapshot (Persister rf'))" "\<And>m. m \<in># M \<Longrightarrow> m \<in># net s \<or> msgSnap P m"
    and "node s' = (node s)(i := rf')" "net s' = M"
  shows "snapsIn P s'"
  using assms by (auto simp: snapsIn_def)

lemma sysInv_collect:
  assumes V: "sysInv N g S" and s: "servers S = s" and i: "i < nservers s" and nb: "\<forall>b. Batch i (incarnation s i) b \<notin># net s"
    and c: "applierCollect (node s i) = Some (rf', b)"
  shows "sysNext N g (S\<lparr>servers := s\<lparr>node := (node s)(i := rf'), net := net s + {#Batch i (incarnation s i) b#}\<rparr>,
    queue := (queue S)(i := queue S i @ applierSend (ab_lastIncludedIndex b) (ab_startIdx b) (ab_entries b))\<rparr>)"
    (is "sysNext N g ?S'")
proof (rule sysNextI)
  let ?rf = "node s i" and ?F = "gF g i"
  have I: "raftInv N g s" and iN: "i < N" using V i s by (auto simp: sysInv_def raftInv_def)
  have lt: "lastApplied ?rf < commitIndex ?rf" and rf': "rf' = ?rf\<lparr>applyCond := False\<rparr>" and cb: "ab_commitIndex b = commitIndex ?rf"
    using c by (auto simp: applierCollect_def split: if_splits)
  have "cstep s (servers ?S')" using apply_collect [OF i nb c] by simp
  then show "raftNext N g (servers ?S')" using server_commit [OF I] rf' by (intro raftInv_one [OF I]) auto
  show "freshBatches (servers ?S')" "snapsIn (snapOf N g) (servers ?S')" using V s rf' by (auto simp: sysInv_def freshBatches_def snapsIn_def)
  obtain T xs where x: "gCommitted N g T xs" "view (svc S i) = after xs" "lastIncludedIndex ?rf \<le> int (length xs)"
    "follows N g (lastIncludedIndex ?rf) (int (length xs)) (queue S i) (lastApplied ?rf)"
    using V iN s nb by (auto simp: sysInv_def replicaOk_def sentTo_def)
  have la: "lastIncludedIndex ?rf \<le> lastApplied ?rf" using x(3) follows_le [OF x(4)] by simp
  have "\<exists>T xs. gCommitted N g T (xs @ [the (entryAt ?rf k)]) \<and> int (length xs) + 1 = k"
    if "lastApplied ?rf < k" "k \<le> commitIndex ?rf" for k
  proof -
    have "lastIncludedIndex ?rf < k" using la that(1) by simp
    note e = committed_entry [OF I iN this that(2)]
    have "take (nat k) ?F = take (nat k - 1) ?F @ [?F ! (nat k - 1)]" using e(2,3) take_Suc_conv_app_nth [of "nat k - 1" ?F] by simp
    then show ?thesis using e by (intro exI [of _ "currentTerm ?rf"] exI [of _ "take (nat k - 1) ?F"]) auto
  qed
  then have "follows N g (lastIncludedIndex ?rf) (lastApplied ?rf)
      (map (\<lambda>k. commandMsg k (the (entryAt ?rf k))) [lastApplied ?rf + 1..commitIndex ?rf]) (commitIndex ?rf)"
    using lt by (intro follows_committed) auto
  moreover have "(applierSend (ab_lastIncludedIndex b) (ab_startIdx b) (ab_entries b) :: ('c, 's) ApplyMsg list) =
      map (\<lambda>k. commandMsg k (the (entryAt ?rf k))) [lastApplied ?rf + 1..commitIndex ?rf]"
    using c la lt server_commit [OF I iN] by (auto simp: applierCollect_def collectEntries_upto applierSend_upto)
  ultimately have f: "follows N g (lastIncludedIndex ?rf) (int (length xs)) (queue ?S' i) (commitIndex ?rf)"
    using follows_append [OF x(4)] by simp
  have "sentTo (servers ?S') i (commitIndex ?rf)" using lt nb cb rf' by (auto simp: sentTo_def max_def)
  then have me: "replicaOk N g ?S' i" using x(1-3) f rf' unfolding replicaOk_def by (intro exI [of _ T] exI [of _ xs] exI [of _ "commitIndex ?rf"]) auto
  show "replicaOk N g ?S' j" if "j < N" for j
    by (rule replicaOk_all [OF V me that]) (auto simp: s)
qed

lemma sysInv_crash:
  assumes V: "sysInv N g S" and s: "servers S = s" and i: "i < nservers s"
  shows "sysNext N g (S\<lparr>servers := s\<lparr>node := (node s)(i := Make (nservers s) i (Copy (Persister (node s i))) rnd),
                   incarnation := (incarnation s)(i := Suc (incarnation s i))\<rparr>,
        queue := (queue S)(i := []), svc := (svc S)(i := boot i rnd (Copy (Persister (node s i))))\<rparr>)"
    (is "sysNext N g ?S'")
proof (rule sysNextI)
  let ?rf = "node s i"
  have I: "raftInv N g s" and iN: "i < N" using V i s by (auto simp: sysInv_def raftInv_def)
  have "durable ?rf" using I i by (simp add: raftInv_def electionInv_def inv_ids_def)
  note p = Make_positions [OF this, of "nservers s" i rnd]
  have "cstep s (servers ?S')" using restart [OF i, of rnd] by simp
  then show "raftNext N g (servers ?S')" using server_commit [OF I] p by (intro raftInv_one [OF I]) auto
  show "freshBatches (servers ?S')" "snapsIn (snapOf N g) (servers ?S')" using V s p by (auto simp: sysInv_def freshBatches_def snapsIn_def le_Suc_eq)
  have nb: "Batch i (Suc (incarnation s i)) b \<notin># net s" for b
    using V s unfolding sysInv_def freshBatches_def by (metis Suc_n_not_le_n)
  have "snapOf N g (lastIncludedIndex ?rf) (ReadSnapshot (Persister ?rf))" using V s by (simp add: sysInv_def snapsIn_def)
  then obtain T xs where "gCommitted N g T xs" "lastIncludedIndex ?rf = int (length xs)" "view (boot i rnd (Persister ?rf)) = after xs"
  proof (cases "lastIncludedIndex ?rf = 0 \<and> ReadSnapshot (Persister ?rf) = []")
    case True
    then show ?thesis using that [of 0 "[]"] boot_empty by (simp add: committed_def)
  next
    case False
    then obtain T xs where "gCommitted N g T xs" "lastIncludedIndex ?rf = int (length xs)" "isSnap (ReadSnapshot (Persister ?rf)) (after xs)"
      using \<open>snapOf N g _ _\<close> unfolding snapOf_def by blast
    then show ?thesis using that boot_snapshot by blast
  qed
  then have me: "replicaOk N g ?S' i" using p nb unfolding replicaOk_def
    by (intro exI [of _ T] exI [of _ xs] exI [of _ "lastIncludedIndex ?rf"]) (auto simp: sentTo_def)
  show "replicaOk N g ?S' j" if "j < N" for j
    by (rule replicaOk_all [OF V me that]) (auto simp: s)
qed

end

context replicated_service
begin

lemma sysInv_install:
  assumes V: "sysInv N g S" and s: "servers S = s" and m: "SnapMsg i (incarnation s i) m \<in># net s" and q: "strict \<longrightarrow> queue S i = []"
    and r: "round m (node s i, svc S i) = Inr (rf', st')"
  shows "sysNext N g (S\<lparr>servers := s\<lparr>node := (node s)(i := rf'), net := net s - {#SnapMsg i (incarnation s i) m#}\<rparr>,
        svc := (svc S)(i := st')\<rparr>)"
    (is "sysNext N g ?S'")
proof (rule sysNextI)
  let ?rf = "node s i"
  have I: "raftInv N g s" and sn: "snapsIn (snapOf N g) s" using V s by (auto simp: sysInv_def)
  have iN: "i < N" and ok: "offer m" "snapOf N g (am_SnapshotIndex m) (am_Snapshot m)"
    using I sn m by (auto simp: raftInv_def snapsIn_def)
  have ci: "lastIncludedIndex ?rf \<le> commitIndex ?rf" "0 \<le> commitIndex ?rf" using server_commit [OF I iN] by auto
  obtain T xs c where x: "gCommitted N g T xs" "view (svc S i) = after xs" "lastIncludedIndex ?rf \<le> int (length xs)" "sentTo s i c"
    "follows N g (lastIncludedIndex ?rf) (int (length xs)) (queue S i) c"
    using V iN s by (auto simp: sysInv_def replicaOk_def)
  have *: "(\<exists>b. CondInstallSnapshot (am_SnapshotTerm m) (am_SnapshotIndex m) (am_Snapshot m) ?rf = Inr (rf', b)) \<and>
      lastIncludedIndex rf' \<le> commitIndex rf' \<and> snapOf N g (lastIncludedIndex rf') (ReadSnapshot (Persister rf')) \<and> replicaOk N g ?S' i"
  proof (cases "am_SnapshotIndex m \<le> commitIndex ?rf")
    case True
    then have "rf' = ?rf" "view st' = view (svc S i)" using outdated [OF ok(1) True r] by auto
    moreover have "sentTo (servers ?S') i c" using x(4) \<open>rf' = ?rf\<close> by (auto simp: sentTo_def in_diff_count)
    moreover have "replicaOk N g ?S' i" unfolding replicaOk_def using x calculation
      by (intro exI [of _ T] exI [of _ xs] exI [of _ c]) auto
    moreover have "CondInstallSnapshot (am_SnapshotTerm m) (am_SnapshotIndex m) (am_Snapshot m) ?rf = Inr (?rf, False)"
      using True by (simp add: CondInstallSnapshot_def)
    ultimately show ?thesis using ci sn by (auto simp: snapsIn_def)
  next
    case False
    then obtain T' ys where y: "gCommitted N g T' ys" "am_SnapshotIndex m = int (length ys)" "isSnap (am_Snapshot m) (after ys)"
      using ok(2) ci(2) unfolding snapOf_def by auto
    have inst: "CondInstallSnapshot (am_SnapshotTerm m) (am_SnapshotIndex m) (am_Snapshot m) ?rf = Inr (rf', True)" "view st' = after ys"
      using snapshot [OF ok(1) _ y(3) r] False by auto
    from inst(1) have p: "lastIncludedIndex rf' = int (length ys)" "commitIndex rf' = int (length ys)" "lastApplied rf' = int (length ys)"
      "ReadSnapshot (Persister rf') = am_Snapshot m" by (cases rule: CondInstallSnapshot_cases; simp add: y(2))+
    have "sentTo (servers ?S') i (int (length ys))"
      using x(4) p False y(2) unfolding sentTo_def by (auto dest!: in_diffD)
    moreover have "follows N g (int (length ys)) (int (length ys)) (queue S i) (int (length ys))"
      using False y(2) x(4) ci(1) by (intro follows_covered [OF x(5) _ _ q]) (auto simp: sentTo_def)
    ultimately have "replicaOk N g ?S' i" unfolding replicaOk_def using y(1) inst(2) p
      by (intro exI [of _ T'] exI [of _ ys] exI [of _ "int (length ys)"]) auto
    then show ?thesis using inst(1) ok(2) y(2) p by auto
  qed
  have "cstep s (servers ?S')" using service_install [OF m] * by auto
  then show "raftNext N g (servers ?S')" using server_commit [OF I] * by (intro raftInv_one [OF I]) auto
  show "freshBatches (servers ?S')" using V s unfolding sysInv_def freshBatches_def by (auto dest!: in_diffD)
  show "snapsIn (snapOf N g) (servers ?S')" using sn * by (intro snapsIn_update [OF sn]) (auto dest: in_diffD)
  show "replicaOk N g ?S' j" if "j < N" for j
    by (rule replicaOk_all [OF V conjunct2 [OF conjunct2 [OF conjunct2 [OF *]]] that]) (auto simp: s in_diff_count)
qed

lemma apply_effect:
  assumes I: "raftInv N g s" and i: "i < N" and x: "gCommitted N g T xs" "view st = after xs" "lastIncludedIndex (node s i) \<le> int (length xs)"
    and sn: "snapOf N g (lastIncludedIndex (node s i)) (ReadSnapshot (Persister (node s i)))"
    and q: "follows N g (lastIncludedIndex (node s i)) (int (length xs)) (m # ms) c"
    and r: "round m (node s i, st) = Inr (rf', st')"
  obtains T' ys k data where "gCommitted N g T' ys" "view st' = after ys" "follows N g (lastIncludedIndex (node s i)) (int (length ys)) ms c"
    "rf' = node s i \<or> Snapshot k data (node s i) = Inr rf'" "k \<le> lastIncludedIndex (node s i) \<or> k = int (length ys) \<and> isSnap data (after ys)"
    "int (length xs) \<le> int (length ys)"
proof -
  let ?lii = "lastIncludedIndex (node s i)"
  obtain T' ys e where y: "gCommitted N g T' (ys @ [e])" "m = commandMsg (int (length ys) + 1) e"
    "int (length ys) = int (length xs) \<and> follows N g ?lii (int (length xs) + 1) ms c \<or>
     \<not> strict \<and> int (length ys) + 1 \<le> ?lii \<and> follows N g ?lii (int (length xs)) ms c" using q by (auto split: if_splits)
  have e: "view st' = app (Command e) (after xs)"
    "rf' = node s i \<or> (\<exists>data. isSnap data (view st') \<and> Snapshot (int (length ys) + 1) data (node s i) = Inr rf')"
    using command [OF r [unfolded y(2)]] x(2) by auto
  from y(3) show ?thesis
  proof
    assume a: "int (length ys) = int (length xs) \<and> follows N g ?lii (int (length xs) + 1) ms c"
    have "xs = ys" using committed_is_take [OF I x(1) y(1)] a by simp
    then have v: "view st' = after (ys @ [e])" "follows N g ?lii (int (length (ys @ [e]))) ms c" "int (length xs) \<le> int (length (ys @ [e]))"
      using e(1) a by (simp_all add: add.commute)
    show ?thesis
    proof (cases "rf' = node s i")
      case True
      then show ?thesis using that [OF y(1) v(1,2) _ _ v(3), of ?lii] by simp
    next
      case False
      then obtain data where "isSnap data (after (ys @ [e]))" "Snapshot (int (length (ys @ [e]))) data (node s i) = Inr rf'"
        using e(2) v(1) by (auto simp: add.commute)
      then show ?thesis using that [OF y(1) v(1,2) disjI2 disjI2 v(3)] by blast
    qed
  next
    assume a: "\<not> strict \<and> int (length ys) + 1 \<le> ?lii \<and> follows N g ?lii (int (length xs)) ms c"
    have "ys @ [e] = take (length (ys @ [e])) xs" using a x(3) by (intro committed_is_take [OF I y(1) x(1)]) simp
    then have "set (ys @ [e]) \<subseteq> set xs" by (rule ssubst) (rule set_take_subset)
    then have "Command e \<in> set (map Command xs)" by auto
    moreover obtain data v where "isSnap data v" using sn a unfolding snapOf_def by auto
    ultimately have "view st' = after xs" using replay a e(1) by (simp add: after_def)
    then show ?thesis using that [OF x(1) _ _ _ disjI1, of "int (length ys) + 1"] e(2) a by blast
  qed
qed

end

context replicated_service
begin

lemma sysInv_apply:
  assumes V: "sysInv N g S" and s: "servers S = s" and i: "i < nservers s" and q: "queue S i = m # ms"
    and r: "round m (node s i, svc S i) = Inr (rf', st')"
  shows "sysNext N g (S\<lparr>servers := s\<lparr>node := (node s)(i := rf')\<rparr>, queue := (queue S)(i := ms), svc := (svc S)(i := st')\<rparr>)"
    (is "sysNext N g ?S'")
proof (rule sysNextI)
  let ?rf = "node s i"
  have I: "raftInv N g s" and iN: "i < N" and sn: "snapsIn (snapOf N g) s" using V i s by (auto simp: sysInv_def raftInv_def)
  obtain T xs c where x: "gCommitted N g T xs" "view (svc S i) = after xs" "lastIncludedIndex ?rf \<le> int (length xs)" "sentTo s i c"
    "follows N g (lastIncludedIndex ?rf) (int (length xs)) (m # ms) c"
    using V iN s q by (auto simp: sysInv_def replicaOk_def)
  have so: "snapOf N g (lastIncludedIndex ?rf) (ReadSnapshot (Persister ?rf))" using sn by (simp add: snapsIn_def)
  obtain T' ys k data where y: "gCommitted N g T' ys" "view st' = after ys" "follows N g (lastIncludedIndex ?rf) (int (length ys)) ms c"
    "rf' = ?rf \<or> Snapshot k data ?rf = Inr rf'" "k \<le> lastIncludedIndex ?rf \<or> k = int (length ys) \<and> isSnap data (after ys)"
    "int (length xs) \<le> int (length ys)" by (rule apply_effect [OF I iN x(1-3) so x(5) r])
  have le: "int (length ys) \<le> commitIndex ?rf" using follows_le [OF y(3)] x(4) by (simp add: sentTo_def)
  have *: "rf' = ?rf \<or> Snapshot k data ?rf = Inr rf' \<and> lastIncludedIndex rf' = int (length ys) \<and> lastIncludedIndex ?rf < int (length ys) \<and>
      ReadSnapshot (Persister rf') = data \<and> isSnap data (after ys) \<and> commitIndex rf' = commitIndex ?rf \<and> lastApplied rf' = lastApplied ?rf"
  proof (cases "rf' = ?rf")
    case False
    then have "Snapshot k data ?rf = Inr rf'" using y(4) by blast
    then show ?thesis by (cases rule: Snapshot_cases) (use y(5) \<open>Snapshot k data ?rf = Inr rf'\<close> in auto)
  qed simp
  have p: "lastIncludedIndex rf' \<le> commitIndex rf'" using * le server_commit [OF I iN] by auto
  show "raftNext N g (servers ?S')"
  proof (cases "rf' = ?rf")
    case True
    then show ?thesis using raftNext_same [OF I] by simp
  next
    case False
    then have "Snapshot k data ?rf = Inr rf'" using * by blast
    from service_snapshot [OF i this] have "cstep s (servers ?S')" by simp
    then show ?thesis using server_commit [OF I] p by (intro raftInv_one [OF I]) auto
  qed
  show "freshBatches (servers ?S')" using V s by (simp add: sysInv_def freshBatches_def)
  have "snapOf N g (int (length ys)) data" if "lastIncludedIndex ?rf < int (length ys)" "isSnap data (after ys)"
    using that y(1) server_commit [OF I iN] unfolding snapOf_def by (intro disjI2 exI [of _ T'] exI [of _ ys]) auto
  then have "snapOf N g (lastIncludedIndex rf') (ReadSnapshot (Persister rf'))" using * so by auto
  then show "snapsIn (snapOf N g) (servers ?S')" using sn by (intro snapsIn_update [OF sn]) auto
  have "sentTo (servers ?S') i c" using x(4) * by (auto simp: sentTo_def)
  moreover have "follows N g (lastIncludedIndex rf') (int (length ys)) ms c" using follows_lii [OF y(3)] y(3) * by auto
  moreover have "lastIncludedIndex rf' \<le> int (length ys)" using * x(3) y(6) by auto
  ultimately have me: "replicaOk N g ?S' i" unfolding replicaOk_def using y(1,2) by (intro exI [of _ T'] exI [of _ ys] exI [of _ c]) simp
  show "replicaOk N g ?S' j" if "j < N" for j
    by (rule replicaOk_all [OF V me that]) (auto simp: s)
qed

lemma sysInv_step:
  assumes "sysStep strict round boot view S S'" "sysInv N g S"
  shows "sysNext N g S'"
  using assms(1)
proof cases
  case (handler st' i)
  have "replicaOk N g S' j" if "j < N" for j
    using assms(2) that handler by (fastforce simp: sysInv_def replicaOk_def)
  then show ?thesis using assms(2) handler(1) by (intro sysNextI) (auto simp: sysInv_def intro: raftNext_same)
next
  case (raft s')
  then show ?thesis using sysInv_raft [OF assms(2)] by simp
next
  case (collect s i rf' b)
  then show ?thesis using sysInv_collect [OF assms(2)] by simp
next
  case (apply_command s i m ms rf' st')
  then show ?thesis using sysInv_apply [OF assms(2)] by simp
next
  case (install s i m rf' st')
  then show ?thesis using sysInv_install [OF assms(2)] by simp
next
  case (crash s i rnd)
  then show ?thesis using sysInv_crash [OF assms(2)] by simp
qed

lemma sysInv_init: "sysInv n emptyHistory (sysInit boot n rnds)"
proof -
  have "replicaOk n emptyHistory (sysInit boot n rnds) i" if "i < n" for i
    unfolding replicaOk_def sysInit_def
    by (intro exI [of _ 0] exI [of _ "[]"] exI [of _ 0])
      (auto simp: committed_def boot_empty persister_defs sentTo_def cinit_def Make_def readPersist_def Let_def)
  then show ?thesis
    using raftInv_init [of n rnds]
    by (auto simp: sysInv_def sysInit_def freshBatches_def snapsIn_def snapOf_def cinit_def persister_defs Make_def readPersist_def Let_def)
qed

lemma sysReach_inv: "sysReach strict round boot view n S \<Longrightarrow> \<exists>g. sysInv n g S"
proof (induction rule: sysReach.induct)
  case (step S S')
  then show ?case using sysInv_step unfolding sysNext_def by blast
qed (use sysInv_init in blast)

lemma sysRun_inv:
  assumes "(sysStep strict round boot view)\<^sup>*\<^sup>* S S'" "sysInv n g S"
  shows "sysNext n g S'"
  using assms
proof (induction rule: rtranclp_induct)
  case base
  then show ?case by (auto simp: sysNext_def)
next
  case (step S1 S2)
  then obtain g1 where g1: "sysInv n g1 S1" "grows (gL g) (gL g1)" "gA g \<subseteq> gA g1" unfolding sysNext_def by blast
  obtain g2 where g2: "sysInv n g2 S2" "grows (gL g1) (gL g2)" "gA g1 \<subseteq> gA g2"
    using sysInv_step [OF step.hyps(2) g1(1)] unfolding sysNext_def by blast
  show ?case using g1 g2 grows_trans [OF g1(2) g2(2)] unfolding sysNext_def by blast
qed

end

section \<open>Replicas agree\<close>

text \<open>
  \<^verbatim>\<open>G\<close> is the sequence of commands that the group has agreed on so far: it contains, at its index, every entry that some server has committed and
  not compacted, and every replica is in the state that a prefix of \<^verbatim>\<open>G\<close> leads to, which covers its snapshot and is committed.
\<close>

definition agreed :: "('st \<Rightarrow> 'v) \<Rightarrow> ('c \<Rightarrow> 'v \<Rightarrow> 'v) \<Rightarrow> 'v \<Rightarrow> nat \<Rightarrow> ('c, 's, 'st) system \<Rightarrow> 'c list \<Rightarrow> bool" where
  "agreed view app v0 n S G \<longleftrightarrow> (\<forall>i<n.
     (\<forall>k. lastIncludedIndex (node (servers S) i) < k \<and> k \<le> commitIndex (node (servers S) i) \<longrightarrow>
        k \<le> int (length G) \<and> map_option Command (entryAt (node (servers S) i) k) = Some (G ! (nat k - 1))) \<and>
     (\<exists>k \<le> length G. lastIncludedIndex (node (servers S) i) \<le> int k \<and> int k \<le> commitIndex (node (servers S) i) \<and>
        view (svc S i) = fold app (take k G) v0))"

context replicated_service
begin

lemma agreed_committed:
  assumes V: "sysInv n g S" and xs: "gCommitted n g T xs" "\<And>i. i < n \<Longrightarrow> nat (commitIndex (node (servers S) i)) \<le> length xs"
  shows "agreed view app v0 n S (map Command xs)"
  unfolding agreed_def
proof (intro allI impI conjI)
  fix i assume i: "i < n"
  let ?rf = "node (servers S) i" and ?F = "gF g i"
  have I: "raftInv n g (servers S)" using V by (simp add: sysInv_def)
  show "k \<le> int (length (map Command xs))" "map_option Command (entryAt ?rf k) = Some (map Command xs ! (nat k - 1))"
    if k: "lastIncludedIndex ?rf < k \<and> k \<le> commitIndex ?rf" for k
  proof -
    note e = committed_entry [OF I i conjunct1 [OF k] conjunct2 [OF k]]
    have len: "length (take (nat k) ?F) = nat k" "nat k \<le> length xs" using e(3) xs(2) [OF i] k by auto
    have "take (nat k) ?F = take (nat k) xs" using committed_is_take [OF I e(4) xs(1)] len by simp
    then have "?F ! (nat k - 1) = xs ! (nat k - 1)" using e(2) by (metis diff_less nth_take zero_less_one)
    then show "map_option Command (entryAt ?rf k) = Some (map Command xs ! (nat k - 1))" using e(1,2) len(2) by simp
    show "k \<le> int (length (map Command xs))" using len(2) by simp
  qed
  obtain T' ys c where y: "gCommitted n g T' ys" "view (svc S i) = after ys" "lastIncludedIndex ?rf \<le> int (length ys)" "sentTo (servers S) i c"
    "follows n g (lastIncludedIndex ?rf) (int (length ys)) (queue S i) c" using V i by (auto simp: sysInv_def replicaOk_def)
  have c: "int (length ys) \<le> commitIndex ?rf" using follows_le [OF y(5)] y(4) by (simp add: sentTo_def)
  then have "length ys \<le> length xs" using xs(2) [OF i] by linarith
  then show "\<exists>k \<le> length (map Command xs). lastIncludedIndex ?rf \<le> int k \<and> int k \<le> commitIndex ?rf \<and>
      view (svc S i) = fold app (take k (map Command xs)) v0"
    using y(2,3) c committed_is_take [OF I y(1) xs(1)] by (intro exI [of _ "length ys"]) (simp add: after_def take_map)
qed

lemma longest_committed:
  assumes "raftInv n g s"
  obtains T xs where "gCommitted n g T xs" "\<And>i. i < n \<Longrightarrow> nat (commitIndex (node s i)) \<le> length xs"
proof (cases "n = 0")
  case True
  then show ?thesis using that [of 0 "[]"] by (simp add: committed_def)
next
  case False
  define f where "f i = nat (commitIndex (node s i))" for i
  have "Max (f ` {..<n}) \<in> f ` {..<n}" using False by (intro Max_in) auto
  then obtain i where i: "i < n" "f i = Max (f ` {..<n})" by auto
  have "serverOk n g i (node s i)" using assms i(1) by (simp add: raftInv_def srvOk_def)
  then have "gCommitted n g (currentTerm (node s i)) (take (f i) (gF g i))" "f i \<le> length (gF g i)" by (auto simp: serverOk_def f_def)
  moreover have "f j \<le> f i" if "j < n" for j using i(2) that by simp
  ultimately show ?thesis using that [of "currentTerm (node s i)" "take (f i) (gF g i)"] by (simp add: f_def)
qed

lemma replicas_agree:
  assumes "sysReach strict round boot view n S" "(sysStep strict round boot view)\<^sup>*\<^sup>* S S'"
  shows "\<exists>G H. agreed view app v0 n S G \<and> agreed view app v0 n S' (G @ H)"
proof -
  obtain g where g: "sysInv n g S" using sysReach_inv [OF assms(1)] by blast
  obtain g' where g': "sysInv n g' S'" "grows (gL g) (gL g')" "gA g \<subseteq> gA g'" using sysRun_inv [OF assms(2) g] by (auto simp: sysNext_def)
  have I: "raftInv n g (servers S)" "raftInv n g' (servers S')" using g g'(1) by (auto simp: sysInv_def)
  obtain T xs where x: "gCommitted n g T xs" "\<And>i. i < n \<Longrightarrow> nat (commitIndex (node (servers S) i)) \<le> length xs" by (rule longest_committed [OF I(1)]) blast
  obtain T' ys where y: "gCommitted n g' T' ys" "\<And>i. i < n \<Longrightarrow> nat (commitIndex (node (servers S') i)) \<le> length ys" by (rule longest_committed [OF I(2)]) blast
  have x': "gCommitted n g' T xs" using committed_grows [OF x(1) g'(2,3) order_refl] .
  have a: "agreed view app v0 n S (map Command xs)" using agreed_committed [OF g x] .
  show ?thesis
  proof (cases "length xs \<le> length ys")
    case True
    then have "ys = xs @ drop (length xs) ys" using committed_is_take [OF I(2) x' y(1)] by (metis append_take_drop_id)
    then have "map Command ys = map Command xs @ map Command (drop (length xs) ys)" by (metis map_append)
    then show ?thesis using a agreed_committed [OF g'(1) y] by metis
  next
    case False
    then have "nat (commitIndex (node (servers S') i)) \<le> length xs" if "i < n" for i using y(2) [OF that] by simp
    then have "agreed view app v0 n S' (map Command xs @ [])" using agreed_committed [OF g'(1) x'] by simp
    then show ?thesis using a by blast
  qed
qed

end

text \<open>A service that panics only where Raft does never panics.\<close>

locale total_service = replicated_service +
  assumes command_panic: "round (commandMsg k e) (rf, st) = Inl p \<Longrightarrow> \<exists>data. Snapshot k data rf = Inl p"
    and snapshot_panic: "offer m \<Longrightarrow> round m (rf, st) = Inl p \<Longrightarrow>
      CondInstallSnapshot (am_SnapshotTerm m) (am_SnapshotIndex m) (am_Snapshot m) rf = Inl p"
begin

lemma apply_no_panic:
  assumes r: "sysReach strict round boot view n S" and i: "i < n" and q: "queue S i = m # ms"
  shows "\<exists>rf' st'. round m (node (servers S) i, svc S i) = Inr (rf', st')"
proof -
  let ?rf = "node (servers S) i"
  obtain g where g: "sysInv n g S" using sysReach_inv [OF r] by blast
  have I: "raftInv n g (servers S)" using g by (simp add: sysInv_def)
  obtain T xs c where "gCommitted n g T xs" and x: "lastIncludedIndex ?rf \<le> int (length xs)" "sentTo (servers S) i c"
    "follows n g (lastIncludedIndex ?rf) (int (length xs)) (m # ms) c"
    using g i unfolding sysInv_def replicaOk_def q [symmetric] by blast
  then obtain k e where y: "m = commandMsg k e" "k \<le> lastIncludedIndex ?rf \<or> k \<le> c"
    using follows_le by (fastforce split: if_splits)
  have "k \<le> lastLogIndex ?rf" using y(2) x(2) server_commit [OF I i] by (auto simp: sentTo_def)
  then have "Snapshot (k) data ?rf \<noteq> Inl p" for data p
    using Snapshot_result [of ?rf "k" data] by (cases "k \<le> lastIncludedIndex ?rf") (auto simp: Snapshot_def)
  then have "round m (?rf, svc S i) \<noteq> Inl p" for p using command_panic [of k e ?rf "svc S i"] unfolding y(1) by blast
  then show ?thesis by (cases "round m (?rf, svc S i)") auto
qed

lemma install_no_panic:
  assumes r: "sysReach strict round boot view n S" and m: "SnapMsg i (incarnation (servers S) i) m \<in># net (servers S)"
  shows "\<exists>rf' st'. round m (node (servers S) i, svc S i) = Inr (rf', st')"
proof -
  let ?rf = "node (servers S) i"
  obtain g where g: "sysInv n g S" using sysReach_inv [OF r] by blast
  have I: "raftInv n g (servers S)" using g by (simp add: sysInv_def)
  have i: "i < n" "offer m" using g I m by (auto simp: sysInv_def raftInv_def snapsIn_def)
  have "CondInstallSnapshot (am_SnapshotTerm m) (am_SnapshotIndex m) (am_Snapshot m) ?rf \<noteq> Inl p" for p
    using server_commit [OF I i(1)] by (auto simp: CondInstallSnapshot_def go_from_def toSliceIndex_def lastLogIndex_def split: if_splits)
  then show ?thesis using snapshot_panic [OF i(2)] by (cases "round m (?rf, svc S i)") auto
qed

end

section \<open>A run with a command applied\<close>

text \<open>The run of two servers that commits one command, with any service: its steps are steps of Raft alone.\<close>

lemma exPlain_init: "exPlain (cinit 2 (\<lambda>_. 0))"
  by (simp add: exPlain_def cinit_def Make_def readPersist_def MakePersister_def ReadRaftState_def)

lemma exStep_sysStep:
  assumes "exStep\<^sup>*\<^sup>* (servers S) s'" "exPlain (servers S)"
  shows "(sysStep strict round boot view)\<^sup>*\<^sup>* S (S\<lparr>servers := s'\<rparr>) \<and> exPlain s'"
  using assms(1)
proof (induction rule: rtranclp_induct)
  case (step s1 s2)
  then have "raftOnly s1 s2" by (auto simp: exStep_def exPlain_def raftOnly_def)
  then have "sysStep strict round boot view (S\<lparr>servers := s1\<rparr>) (S\<lparr>servers := s2\<rparr>)"
    using sysStep.raft [of "S\<lparr>servers := s1\<rparr>" s2] by simp
  then show ?case using step by (auto simp: exStep_def intro: rtranclp.rtrancl_into_rtrancl)
qed (use assms(2) in simp)

definition exBatch :: "'c \<Rightarrow> 'c applyBatch" where
  "exBatch c = \<lparr>ab_commitIndex = 1, ab_startIdx = 1, ab_lastIncludedIndex = 0, ab_entries = [exEnt c]\<rparr>"

lemma ex_collect:
  "applierCollect (node (exFirst c) 0) = Some ((node (exFirst c) 0)\<lparr>applyCond := False\<rparr>, exBatch c)"
  "applierSend (ab_lastIncludedIndex (exBatch c)) (ab_startIdx (exBatch c)) (ab_entries (exBatch c)) = [commandMsg 1 (exEnt c)]"
  by (simp_all add: exFirst_def exNode_def applierCollect_def collectEntries.simps toSliceIndex_def exBatch_def Let_def)

lemma sysRun_reach:
  "(sysStep strict round boot view)\<^sup>*\<^sup>* S S' \<Longrightarrow> sysReach strict round boot view n S \<Longrightarrow> sysReach strict round boot view n S'"
  by (induction rule: rtranclp_induct) (auto intro: sysReach.step)

text \<open>The service of the leader has the command in its queue.\<close>

definition exQueued :: "(nat \<Rightarrow> int \<Rightarrow> ('c gobval, 's) persister \<Rightarrow> 'st) \<Rightarrow> 'c \<Rightarrow> ('c, 's, 'st) system" where
  "exQueued boot c = (sysInit boot 2 (\<lambda>_. 0))
     \<lparr>servers := (exFirst c)\<lparr>node := (node (exFirst c))(0 := (node (exFirst c) 0)\<lparr>applyCond := False\<rparr>), net := {#Batch 0 0 (exBatch c)#}\<rparr>,
      queue := (\<lambda>_. [])(0 := [commandMsg 1 (exEnt c)])\<rparr>"

lemma exQueued_reachable: "sysReach strict round boot view 2 (exQueued boot c)"
proof -
  let ?S0 = "sysInit boot 2 (\<lambda>_. 0)"
  have "exStep\<^sup>*\<^sup>* (servers ?S0) (exFirst c)" unfolding sysInit_def using rtranclp_trans [OF exElect_run exFirst_run] by simp
  moreover have "exPlain (servers ?S0)" by (simp add: sysInit_def exPlain_init)
  ultimately have 1: "(sysStep strict round boot view)\<^sup>*\<^sup>* ?S0 (?S0\<lparr>servers := exFirst c\<rparr>)" by (rule conjunct1 [OF exStep_sysStep])
  have n: "nservers (exFirst c) = 2" "incarnation (exFirst c) 0 = 0" "net (exFirst c) = {#}" by (simp_all add: exFirst_def)
  have "sysStep strict round boot view (?S0\<lparr>servers := exFirst c\<rparr>) (exQueued boot c)"
    using sysStep.collect [of "?S0\<lparr>servers := exFirst c\<rparr>" "exFirst c" 0 _ "exBatch c" strict round boot view, OF _ _ _ ex_collect(1)]
    by (simp add: n ex_collect(2) exQueued_def sysInit_def)
  then show ?thesis using sysRun_reach [OF 1 sysReach.start] by (rule sysReach.step [rotated])
qed

text \<open>The service has applied it.\<close>

definition exApplied :: "(nat \<Rightarrow> int \<Rightarrow> ('c gobval, 's) persister \<Rightarrow> 'st) \<Rightarrow> 'c \<Rightarrow> ('c, 's) raft \<Rightarrow> 'st \<Rightarrow> ('c, 's, 'st) system" where
  "exApplied boot c rf st = (exQueued boot c)
     \<lparr>servers := (servers (exQueued boot c))\<lparr>node := (node (servers (exQueued boot c)))(0 := rf)\<rparr>, queue := \<lambda>_. [],
      svc := (svc (exQueued boot c))(0 := st)\<rparr>"

lemma exApplied_step:
  assumes "round (commandMsg 1 (exEnt c)) (node (servers (exQueued boot c)) 0, svc (exQueued boot c) 0) = Inr (rf, st)"
  shows "sysStep strict round boot view (exQueued boot c) (exApplied boot c rf st)"
proof -
  have "queue (exQueued boot c) = (\<lambda>_. [])(0 := [commandMsg 1 (exEnt c)])" "nservers (servers (exQueued boot c)) = 2"
    by (simp_all add: exQueued_def exFirst_def)
  then show ?thesis
    using apply_command [of "exQueued boot c" "servers (exQueued boot c)" 0 "commandMsg 1 (exEnt c)" "[]" round rf st strict boot view] assms
    by (simp add: exApplied_def fun_upd_idem)
qed

end
