(* ===== verification/Raft_Harness_Runs.thy ===== *)
theory Raft_Harness_Runs
  imports Raft_Harness Raft_Service
begin

text \<open>
  The harness of \<^verbatim>\<open>raft/config.go\<close> on a Raft group. If nobody takes snapshots, its appliers accept every message and \<^verbatim>\<open>nCommitted\<close> never finds
  different commands at an index; \<^verbatim>\<open>checkOneLeader\<close> never finds two leaders of a term. A test that fails with one of these messages has
  found an error.
\<close>

section \<open>Committed commands\<close>

text \<open>
  A test that uses \<^verbatim>\<open>applier\<close>: the Raft group runs, its apply loops send, servers are restarted, and the appliers read what was sent.
  Nobody takes snapshots in these tests. Every instance of a server has its own channel, \<^verbatim>\<open>q i k\<close> for instance \<^verbatim>\<open>k\<close> of server \<^verbatim>\<open>i\<close>; the applier of a
  killed instance may read on. Connections decide only which messages are lost.
\<close>

inductive testRun ::
    "nat \<Rightarrow> ('c, 's) cluster \<Rightarrow> (nat \<Rightarrow> nat \<Rightarrow> ('c, 's) ApplyMsg list) \<Rightarrow> 'c testConfig \<Rightarrow> bool" for n where
  start: "testRun n (cinit n rnds) (\<lambda>_ _. []) (emptyTest n)"
| raft: "testRun n s q cfg \<Longrightarrow> raftOnly s s' \<Longrightarrow> testRun n s' q cfg"
| send: "\<lbrakk>testRun n s q cfg; i < nservers s; \<forall>b. Batch i (incarnation s i) b \<notin># net s; applierCollect (node s i) = Some (rf', b)\<rbrakk> \<Longrightarrow>
    testRun n (s\<lparr>node := (node s)(i := rf'), net := net s + {#Batch i (incarnation s i) b#}\<rparr>)
      (q(i := (q i)(incarnation s i := q i (incarnation s i) @
          applierSend (ab_lastIncludedIndex b) (ab_startIdx b) (ab_entries b)))) cfg"
| restart: "\<lbrakk>testRun n s q cfg; i < nservers s\<rbrakk> \<Longrightarrow>
    testRun n (s\<lparr>node := (node s)(i := Make (nservers s) i (Copy (Persister (node s i))) rnd),
                 incarnation := (incarnation s)(i := Suc (incarnation s i))\<rparr>) q cfg"
| read: "\<lbrakk>testRun n s q cfg; i < n; q i k = m # ms; applierMsg i m cfg = Inr cfg'\<rbrakk> \<Longrightarrow>
    testRun n s (q(i := (q i)(k := ms))) cfg'"

definition committedAt :: "nat \<Rightarrow> 'c ghost \<Rightarrow> int \<Rightarrow> 'c option \<Rightarrow> bool" where
  "committedAt n g k v \<longleftrightarrow> (\<exists>T xs e. gCommitted n g T (xs @ [e]) \<and> k = int (length xs) + 1 \<and> v = Some (Command e))"

text \<open>The committed commands from index \<^verbatim>\<open>a + 1\<close> to index \<^verbatim>\<open>c\<close>, in order.\<close>

fun inOrder :: "nat \<Rightarrow> 'c ghost \<Rightarrow> int \<Rightarrow> ('c, 's) ApplyMsg list \<Rightarrow> int \<Rightarrow> bool" where
  "inOrder n g a [] c \<longleftrightarrow> a = c"
| "inOrder n g a (m # ms) c \<longleftrightarrow> am_CommandValid m \<and> am_CommandIndex m = a + 1 \<and> committedAt n g (a + 1) (am_Command m) \<and>
     inOrder n g (a + 1) ms c"

definition channelOk :: "nat \<Rightarrow> 'c ghost \<Rightarrow> ('c, 's) cluster \<Rightarrow> 'c testConfig \<Rightarrow> nat \<Rightarrow> nat \<Rightarrow> ('c, 's) ApplyMsg list \<Rightarrow> bool" where
  "channelOk n g s cfg i k ms \<longleftrightarrow> (\<exists>a c. 0 \<le> a \<and> inOrder n g a ms c \<and>
     (\<forall>j. 1 \<le> j \<and> j \<le> a \<longrightarrow> (tc_logs cfg ! i) j \<noteq> None) \<and> (k = incarnation s i \<longrightarrow> sentTo s i c) \<and> (incarnation s i < k \<longrightarrow> ms = []))"

definition logsOk :: "nat \<Rightarrow> 'c ghost \<Rightarrow> 'c testConfig \<Rightarrow> bool" where
  "logsOk n g cfg \<longleftrightarrow> length (tc_logs cfg) = n \<and> (\<forall>i < n. \<forall>k v. (tc_logs cfg ! i) k = Some v \<longrightarrow> committedAt n g k v)"

definition testInv :: "nat \<Rightarrow> 'c ghost \<Rightarrow> ('c, 's) cluster \<Rightarrow> (nat \<Rightarrow> nat \<Rightarrow> ('c, 's) ApplyMsg list) \<Rightarrow> 'c testConfig \<Rightarrow> bool" where
  "testInv n g s q cfg \<longleftrightarrow> raftInv n g s \<and> freshBatches s \<and> (\<forall>i < n. lastIncludedIndex (node s i) = 0) \<and> logsOk n g cfg \<and>
     (\<forall>i < n. \<forall>k. channelOk n g s cfg i k (q i k))"

lemma committedAt_unique:
  assumes "raftInv n g s" "committedAt n g k v" "committedAt n g k v'"
  shows "v = v'"
proof -
  obtain T xs e T' ys e' where x: "gCommitted n g T (xs @ [e])" "k = int (length xs) + 1" "v = Some (Command e)"
    and y: "gCommitted n g T' (ys @ [e'])" "k = int (length ys) + 1" "v' = Some (Command e')"
    using assms(2,3) unfolding committedAt_def by blast
  have "xs @ [e] = take (length (xs @ [e])) (ys @ [e'])" using x(2) y(2) by (intro committed_is_take [OF assms(1) x(1) y(1)]) simp
  then show ?thesis using x y by simp
qed

lemma committedAt_grows: "committedAt n g k v \<Longrightarrow> grows (gL g) (gL g') \<Longrightarrow> gA g \<subseteq> gA g' \<Longrightarrow> committedAt n g' k v"
  unfolding committedAt_def using committed_grows [OF _ _ _ order_refl] by metis

lemma inOrder_grows: "inOrder n g a ms c \<Longrightarrow> grows (gL g) (gL g') \<Longrightarrow> gA g \<subseteq> gA g' \<Longrightarrow> inOrder n g' a ms c"
  using committedAt_grows by (induction ms arbitrary: a) auto

lemma inOrder_append: "inOrder n g a ms c \<Longrightarrow> inOrder n g c ms' d \<Longrightarrow> inOrder n g a (ms @ ms') d"
  by (induction ms arbitrary: a) auto

lemma inOrder_le: "inOrder n g a ms c \<Longrightarrow> a \<le> c"
  by (induction ms arbitrary: a) fastforce+

lemma inOrder_upto:
  assumes "\<And>k. a < k \<Longrightarrow> k \<le> b \<Longrightarrow> committedAt n g k (Some (Command (f k)))" "a \<le> b"
  shows "inOrder n g a (map (\<lambda>k. commandMsg k (f k) :: ('c, 's) ApplyMsg) [a + 1..b]) b"
  using assms
proof (induction "nat (b - a)" arbitrary: a)
  case (Suc m)
  then have "[a + 1..b] = (a + 1) # [a + 1 + 1..b]" by (simp add: upto_rec1)
  moreover have "inOrder n g (a + 1) (map (\<lambda>k. commandMsg k (f k) :: ('c, 's) ApplyMsg) [a + 1 + 1..b]) b"
    using Suc.hyps(2) Suc.prems by (intro Suc.hyps(1)) auto
  moreover have "committedAt n g (a + 1) (Some (Command (f (a + 1))))" using Suc.hyps(2) Suc.prems(1) by simp
  ultimately show ?case by (simp add: commandMsg_def)
qed simp

text \<open>What a round of Raft's apply loop sends.\<close>

lemma sent_inOrder:
  fixes s :: "('c, 's) cluster"
  assumes I: "raftInv n g s" and i: "i < n" and c: "applierCollect (node s i) = Some (rf', b)"
    and l: "lastIncludedIndex (node s i) \<le> lastApplied (node s i)"
  shows "inOrder n g (lastApplied (node s i)) (applierSend (ab_lastIncludedIndex b) (ab_startIdx b) (ab_entries b) :: ('c, 's) ApplyMsg list) (commitIndex (node s i))"
proof -
  let ?rf = "node s i" and ?F = "gF g i"
  have "committedAt n g k (Some (Command (the (entryAt ?rf k))))" if "lastApplied ?rf < k" "k \<le> commitIndex ?rf" for k
  proof -
    have "lastIncludedIndex ?rf < k" using l that(1) by simp
    note e = committed_entry [OF I i this that(2)]
    have "take (nat k) ?F = take (nat k - 1) ?F @ [?F ! (nat k - 1)]" using e(2,3) take_Suc_conv_app_nth [of "nat k - 1" ?F] by simp
    then show ?thesis using e unfolding committedAt_def by (intro exI [of _ "currentTerm ?rf"] exI [of _ "take (nat k - 1) ?F"]) auto
  qed
  moreover have "lastApplied ?rf < commitIndex ?rf" using c by (auto simp: applierCollect_def split: if_splits)
  moreover from this have "(applierSend (ab_lastIncludedIndex b) (ab_startIdx b) (ab_entries b) :: ('c, 's) ApplyMsg list) =
      map (\<lambda>k. commandMsg k (the (entryAt ?rf k))) [lastApplied ?rf + 1..commitIndex ?rf]"
    using c l server_commit [OF I i] by (auto simp: applierCollect_def collectEntries_upto applierSend_upto)
  ultimately show ?thesis by (simp only:) (intro inOrder_upto; simp)
qed

section \<open>Reading never fails\<close>

lemma findMismatch_None: "(\<And>l w. l \<in> set ls \<Longrightarrow> l index = Some w \<Longrightarrow> w = v) \<Longrightarrow> findMismatch j ls index v = None"
  by (induction ls arbitrary: j) (auto split: option.splits)

lemma countCommitted_agree:
  assumes "\<And>l w. l \<in> set ls \<Longrightarrow> l index = Some w \<Longrightarrow> w = v" "cnt > 0 \<longrightarrow> cmd = Some v"
  shows "\<exists>nd cmd'. countCommitted ls index cnt cmd = Inr (nd, cmd')"
  using assms
proof (induction ls arbitrary: cnt cmd)
  case (Cons l ls)
  show ?case
  proof (cases "l index")
    case (Some w)
    then have "w = v" using Cons.prems(1) [of l] by simp
    moreover have "\<exists>nd cmd'. countCommitted ls index (cnt + 1) (Some v) = Inr (nd, cmd')"
      using Cons.prems(1) by (intro Cons.IH) auto
    ultimately show ?thesis using Some Cons.prems(2) by auto
  next
    case None
    have "\<exists>nd cmd'. countCommitted ls index cnt cmd = Inr (nd, cmd')"
    proof (rule Cons.IH)
      show "w = v" if "l' \<in> set ls" "l' index = Some w" for l' w using Cons.prems(1) [of l' w] that by simp
    qed (rule Cons.prems(2))
    then show ?thesis using None by simp
  qed
qed simp

lemma logsOk_mem:
  assumes "logsOk n g cfg" "l \<in> set (tc_logs cfg)" "l k = Some w"
  shows "committedAt n g k w"
  using assms unfolding logsOk_def by (auto simp: in_set_conv_nth)

lemma read_head:
  assumes I: "raftInv n g s" and L: "logsOk n g cfg" and C: "channelOk n g s cfg i k (m # ms)" and i: "i < n"
  obtains cfg' where "applierMsg i m cfg = Inr cfg'" "logsOk n g cfg'" "channelOk n g s cfg' i k ms"
    "tc_logs cfg' = (tc_logs cfg)[i := (tc_logs cfg ! i)(am_CommandIndex m \<mapsto> am_Command m)]"
proof -
  obtain a c where a: "0 \<le> a" "am_CommandValid m" "am_CommandIndex m = a + 1" "committedAt n g (a + 1) (am_Command m)"
    "inOrder n g (a + 1) ms c" "\<forall>j. 1 \<le> j \<and> j \<le> a \<longrightarrow> (tc_logs cfg ! i) j \<noteq> None" "k = incarnation s i \<longrightarrow> sentTo s i c"
    "\<not> incarnation s i < k"
    using C by (auto simp: channelOk_def)
  have "findMismatch 0 (tc_logs cfg) (a + 1) (am_Command m) = None"
    using logsOk_mem [OF L] committedAt_unique [OF I _ a(4)] by (intro findMismatch_None) blast
  moreover have prev: "a + 1 > 1 \<Longrightarrow> (tc_logs cfg ! i) a \<noteq> None" using a(6) by simp
  ultimately obtain cfg' where c': "applierMsg i m cfg = Inr cfg'"
      "tc_logs cfg' = (tc_logs cfg)[i := (tc_logs cfg ! i)(am_CommandIndex m \<mapsto> am_Command m)]"
    using a(2,3) prev by (auto simp: applierMsg_def checkLogs_def Let_def)
  have len: "length (tc_logs cfg) = n" using L by (simp add: logsOk_def)
  then have "logsOk n g cfg'" using L a(3,4) i by (auto simp: logsOk_def c'(2) nth_list_update)
  moreover have "channelOk n g s cfg' i k ms" unfolding channelOk_def c'(2)
    using a i len by (intro exI [of _ "a + 1"] exI [of _ c]) auto
  ultimately show ?thesis using that c' by blast
qed

lemma channelOk_read:
  assumes "channelOk n g s cfg i k ms" "\<And>x. (tc_logs cfg ! i) x \<noteq> None \<Longrightarrow> (tc_logs cfg' ! i) x \<noteq> None"
  shows "channelOk n g s cfg' i k ms"
  using assms(1) unfolding channelOk_def
proof (elim exE, goal_cases)
  case (1 a c)
  then show ?case using assms(2) by (intro exI [of _ a] exI [of _ c]) blast
qed

lemma channelOk_later:
  assumes "channelOk n g s cfg i k ms" "incarnation s i \<le> incarnation s' i"
    and "k = incarnation s' i \<Longrightarrow> k = incarnation s i \<and> (\<forall>c. sentTo s i c \<longrightarrow> sentTo s' i c)"
  shows "channelOk n g s' cfg i k ms"
  using assms(1) unfolding channelOk_def
proof (elim exE, goal_cases)
  case (1 a c)
  then show ?case using assms(2,3) by (intro exI [of _ a] exI [of _ c]) auto
qed

lemma testInv_raft:
  assumes V: "testInv n g s q cfg" and r: "raftNext n g s'" and f: "freshBatches s'" and l: "\<And>i. i < n \<Longrightarrow> lastIncludedIndex (node s' i) = 0"
    and c: "\<And>i k. i < n \<Longrightarrow> channelOk n g s' cfg i k (q' i k)"
  shows "\<exists>g'. testInv n g' s' q' cfg"
proof -
  obtain g' where g': "raftInv n g' s'" "grows (gL g) (gL g')" "gA g \<subseteq> gA g'" using r by (auto simp: raftNext_def)
  have "logsOk n g' cfg" using V committedAt_grows [OF _ g'(2,3)] by (auto simp: testInv_def logsOk_def)
  moreover have "channelOk n g' s' cfg i k (q' i k)" if "i < n" for i k
    using c [OF that, of k] inOrder_grows [OF _ g'(2,3)] unfolding channelOk_def by blast
  ultimately show ?thesis using g' f l by (auto simp: testInv_def)
qed

lemma channel_sent:
  assumes "testInv n g s q cfg" "i < n"
  obtains c where "sentTo s i c" "0 \<le> c"
proof -
  obtain a c where "0 \<le> a" "inOrder n g a (q i (incarnation s i)) c" "sentTo s i c"
    using assms unfolding testInv_def channelOk_def by blast
  then show ?thesis using that inOrder_le by fastforce
qed

lemma testInv_raftOnly:
  assumes V: "testInv n g s q cfg" and r: "raftOnly s s'"
  shows "\<exists>g'. testInv n g' s' q cfg"
proof (rule testInv_raft [OF V])
  have I: "raftInv n g s" using V by (simp add: testInv_def)
  have inc: "incarnation s' = incarnation s" and lii: "\<And>i. lastIncludedIndex (node s' i) = lastIncludedIndex (node s i)" using r by (auto simp: raftOnly_def)
  have "0 \<le> commitIndex (node s' i)" if i: "i < n" for i
  proof -
    obtain c where "sentTo s i c" "0 \<le> c" using channel_sent [OF V i] .
    then show ?thesis using raftOnly_sentTo [OF I r, of i c] by (simp add: sentTo_def)
  qed
  then show "raftNext n g s'" using raftInv_one [OF I] r V by (simp add: raftOnly_def testInv_def)
  show "freshBatches s'" "\<And>i. i < n \<Longrightarrow> lastIncludedIndex (node s' i) = 0" using V raftOnly_freshBatches [OF r] lii by (auto simp: testInv_def)
  show "channelOk n g s' cfg i k (q i k)" if "i < n" for i k
  proof (rule channelOk_later [where s = s])
    show "channelOk n g s cfg i k (q i k)" using V that by (simp add: testInv_def)
  qed (use raftOnly_sentTo [OF I r] inc in auto)
qed

lemma testInv_send:
  assumes V: "testInv n g s q cfg" and i: "i < nservers s" and nb: "\<forall>b. Batch i (incarnation s i) b \<notin># net s"
    and c: "applierCollect (node s i) = Some (rf', b)"
  shows "\<exists>g'. testInv n g' (s\<lparr>node := (node s)(i := rf'), net := net s + {#Batch i (incarnation s i) b#}\<rparr>)
      (q(i := (q i)(incarnation s i := q i (incarnation s i) @ applierSend (ab_lastIncludedIndex b) (ab_startIdx b) (ab_entries b)))) cfg"
    (is "\<exists>g'. testInv n g' ?s' ?q' cfg")
proof (rule testInv_raft [OF V])
  let ?rf = "node s i"
  have I: "raftInv n g s" and iN: "i < n" and l0: "lastIncludedIndex ?rf = 0" using V i by (auto simp: testInv_def raftInv_def)
  have rf': "rf' = ?rf\<lparr>applyCond := False\<rparr>" "ab_commitIndex b = commitIndex ?rf" "lastApplied ?rf < commitIndex ?rf"
    using c by (auto simp: applierCollect_def split: if_splits)
  have "cstep s ?s'" using apply_collect [OF i nb c] by simp
  then show "raftNext n g ?s'" using server_commit [OF I] rf' by (intro raftInv_one [OF I]) auto
  show "freshBatches ?s'" "\<And>j. j < n \<Longrightarrow> lastIncludedIndex (node ?s' j) = 0" using V rf' by (auto simp: testInv_def freshBatches_def)
  obtain a where a: "0 \<le> a" "inOrder n g a (q i (incarnation s i)) (lastApplied ?rf)" "\<forall>j. 1 \<le> j \<and> j \<le> a \<longrightarrow> (tc_logs cfg ! i) j \<noteq> None"
    using V iN nb unfolding testInv_def channelOk_def sentTo_def by metis
  have "sentTo ?s' i (commitIndex ?rf)" using rf' nb by (auto simp: sentTo_def max_def)
  moreover have "inOrder n g a (?q' i (incarnation s i)) (commitIndex ?rf)"
    using inOrder_append [OF a(2)] sent_inOrder [OF I iN c] a(1) inOrder_le [OF a(2)] l0 by simp
  ultimately have me: "channelOk n g ?s' cfg i (incarnation s i) (?q' i (incarnation s i))" using a unfolding channelOk_def by auto
  have "channelOk n g ?s' cfg j k (?q' j k)" if "(j, k) \<noteq> (i, incarnation s i)" "j < n" for j k
  proof -
    have "sentTo ?s' j c \<longleftrightarrow> sentTo s j c" if "j \<noteq> i" for c using that by (simp add: sentTo_def)
    moreover have "channelOk n g s cfg j k (?q' j k)" using V that by (auto simp: testInv_def)
    ultimately show ?thesis using that(1) by (elim channelOk_later) auto
  qed
  then show "channelOk n g ?s' cfg j k (?q' j k)" if "j < n" for j k using me that by (cases "(j, k) = (i, incarnation s i)") auto
qed

lemma testInv_restart:
  assumes V: "testInv n g s q cfg" and i: "i < nservers s"
  shows "\<exists>g'. testInv n g' (s\<lparr>node := (node s)(i := Make (nservers s) i (Copy (Persister (node s i))) rnd),
                 incarnation := (incarnation s)(i := Suc (incarnation s i))\<rparr>) q cfg"
    (is "\<exists>g'. testInv n g' ?s' q cfg")
proof (rule testInv_raft [OF V])
  have I: "raftInv n g s" and iN: "i < n" and l0: "lastIncludedIndex (node s i) = 0" using V i by (auto simp: testInv_def raftInv_def)
  have "durable (node s i)" using I i by (simp add: raftInv_def electionInv_def inv_ids_def)
  note p = Make_positions [OF this, of "nservers s" i rnd]
  have "cstep s ?s'" using cstep.restart [OF i, of rnd] by simp
  then show "raftNext n g ?s'" using server_commit [OF I] p by (intro raftInv_one [OF I]) auto
  show "freshBatches ?s'" "\<And>j. j < n \<Longrightarrow> lastIncludedIndex (node ?s' j) = 0" using V p by (auto simp: testInv_def freshBatches_def le_Suc_eq)
  have nb: "Batch i (Suc (incarnation s i)) b \<notin># net s" for b using V unfolding testInv_def freshBatches_def by (metis Suc_n_not_le_n)
  show "channelOk n g ?s' cfg j k (q j k)" if "j < n" for j k
  proof (cases "(j, k) = (i, Suc (incarnation s i))")
    case True
    have "q i (Suc (incarnation s i)) = []" using V iN unfolding testInv_def channelOk_def by (metis lessI)
    then show ?thesis using p nb l0 True by (auto simp: channelOk_def sentTo_def intro!: exI [of _ 0])
  next
    case False
    have "sentTo ?s' j c \<longleftrightarrow> sentTo s j c" if "j \<noteq> i" for c using that by (simp add: sentTo_def)
    moreover have "channelOk n g s cfg j k (q j k)" using V that by (simp add: testInv_def)
    ultimately show ?thesis using False by (elim channelOk_later) (auto split: if_splits)
  qed
qed

lemma testInv_start: "testInv n emptyHistory (cinit n rnds) (\<lambda>_ _. []) (emptyTest n)"
  using raftInv_init [of n rnds]
  by (auto simp: testInv_def channelOk_def logsOk_def emptyTest_def freshBatches_def sentTo_def cinit_def persister_defs Make_def readPersist_def Let_def)

lemma testInv_read:
  assumes V: "testInv n g s q cfg" and i: "i < n" and m: "q i k = m # ms" "applierMsg i m cfg = Inr cfg'"
  shows "testInv n g s (q(i := (q i)(k := ms))) cfg'"
proof -
  have I: "raftInv n g s" and L: "logsOk n g cfg" and C: "channelOk n g s cfg i k (m # ms)" using V i m(1) by (auto simp: testInv_def) (metis m(1))
  obtain c: "logsOk n g cfg'" "channelOk n g s cfg' i k ms"
      "tc_logs cfg' = (tc_logs cfg)[i := (tc_logs cfg ! i)(am_CommandIndex m \<mapsto> am_Command m)]"
    using read_head [OF I L C i] m(2) by auto
  have "channelOk n g s cfg' j l (q j l)" if "j < n" for j l
  proof -
    have "(tc_logs cfg' ! j) x \<noteq> None" if "(tc_logs cfg ! j) x \<noteq> None" for x
      using that L \<open>j < n\<close> by (cases "j = i") (auto simp: c(3) logsOk_def)
    moreover have "channelOk n g s cfg j l (q j l)" using V that by (simp add: testInv_def)
    ultimately show ?thesis by (rule channelOk_read [rotated])
  qed
  then show ?thesis using V c(1,2) by (auto simp: testInv_def)
qed

lemma testRun_inv: "testRun n s q cfg \<Longrightarrow> \<exists>g. testInv n g s q cfg"
proof (induction rule: testRun.induct)
  case (start rnds)
  then show ?case using testInv_start by blast
next
  case (raft s q cfg s')
  then show ?case using testInv_raftOnly by blast
next
  case (send s q cfg i rf' b)
  then show ?case using testInv_send by blast
next
  case (restart s q cfg i rnd)
  then show ?case using testInv_restart by blast
next
  case (read s q cfg i k m ms cfg')
  then show ?case using testInv_read by blast
qed

text \<open>
  C21. The harness finds no fault in a Raft group that takes no snapshots: whatever messages are lost, delayed or reordered and whichever servers
  crash and restart, the applier of every server accepts every message, so it reports neither a command that differs from the one another server committed
  at the index nor one applied out of order, and \<^verbatim>\<open>nCommitted\<close> never finds two servers with different commands at an index.
\<close>

theorem harness_accepts_raft:
  assumes "testRun n s q cfg"
  shows "(\<forall>i k m ms. i < n \<and> q i k = m # ms \<longrightarrow> (\<exists>cfg'. applierMsg i m cfg = Inr cfg')) \<and>
    (\<forall>index. \<exists>nd cmd. nCommitted index cfg = Inr (nd, cmd))"
proof (intro conjI allI impI)
  obtain g where V: "testInv n g s q cfg" using testRun_inv [OF assms] by blast
  then have I: "raftInv n g s" and L: "logsOk n g cfg" by (simp_all add: testInv_def)
  show "\<exists>cfg'. applierMsg i m cfg = Inr cfg'" if "i < n \<and> q i k = m # ms" for i k m ms
  proof -
    have "channelOk n g s cfg i k (m # ms)" using V that by (metis testInv_def)
    then show ?thesis using read_head [OF I L] that by metis
  qed
  show "\<exists>nd cmd. nCommitted index cfg = Inr (nd, cmd)" for index
    unfolding nCommitted_def
  proof (cases "\<exists>v. committedAt n g index v")
    case True
    then obtain v where "committedAt n g index v" by blast
    then have "w = v" if "l \<in> set (tc_logs cfg)" "l index = Some w" for l w
      using committedAt_unique [OF I logsOk_mem [OF L that]] by blast
    then show "\<exists>nd cmd. countCommitted (tc_logs cfg) index 0 None = Inr (nd, cmd)" by (intro countCommitted_agree [where v = v]) auto
  next
    case False
    then have "w = None" if "l \<in> set (tc_logs cfg)" "l index = Some w" for l w using logsOk_mem [OF L that] by blast
    then show "\<exists>nd cmd. countCommitted (tc_logs cfg) index 0 None = Inr (nd, cmd)" by (intro countCommitted_agree [where v = None]) auto
  qed
qed

lemma testRun_exStep:
  assumes "exStep\<^sup>*\<^sup>* s s'" "exPlain s" "testRun n s q cfg"
  shows "testRun n s' q cfg \<and> exPlain s'"
  using assms(1)
proof (induction rule: rtranclp_induct)
  case (step s1 s2)
  then have "raftOnly s1 s2" by (auto simp: exStep_def exPlain_def raftOnly_def)
  then show ?case using step testRun.raft by (auto simp: exStep_def)
qed (use assms(2,3) in simp)

lemma exStep_cstep: "exStep\<^sup>*\<^sup>* s s' \<Longrightarrow> cstep\<^sup>*\<^sup>* s s'"
  by (induction rule: rtranclp_induct) (auto simp: exStep_def intro: rtranclp.rtrancl_into_rtrancl)

text \<open>The leader of two servers has committed a command and sent it to its applier.\<close>

definition exTestQueue :: "nat \<Rightarrow> nat \<Rightarrow> (int, int) ApplyMsg list" where
  "exTestQueue = (\<lambda>_ _. [])(0 := (\<lambda>_. [])(0 := [commandMsg 1 (exEnt 7)]))"

lemma exTestQueue_reachable: "\<exists>s. testRun 2 s exTestQueue (emptyTest 2)"
proof -
  have "testRun 2 (exFirst 7 :: (int, int) cluster) (\<lambda>_ _. []) (emptyTest 2)"
    using testRun_exStep [OF rtranclp_trans [OF exElect_run exFirst_run [of 7]] exPlain_init testRun.start] by blast
  moreover have "nservers (exFirst 7 :: (int, int) cluster) = 2" "incarnation (exFirst 7 :: (int, int) cluster) 0 = 0" "net (exFirst 7 :: (int, int) cluster) = {#}"
    by (simp_all add: exFirst_def)
  ultimately show ?thesis using testRun.send [OF _ _ _ ex_collect(1)] unfolding exTestQueue_def ex_collect(2) by fastforce
qed

theorem harness_accepts_raft_witness:
  "(\<exists>s. testRun 2 s exTestQueue (emptyTest 2)) \<and> (\<exists>cfg'. applierMsg 0 (commandMsg 1 (exEnt 7) :: (int, int) ApplyMsg) (emptyTest 2) = Inr cfg') \<and>
    (\<exists>nd cmd. nCommitted 1 (emptyTest 2 :: int testConfig) = Inr (nd, cmd))"
proof -
  obtain s where s: "testRun 2 s exTestQueue (emptyTest 2)" using exTestQueue_reachable by blast
  have "exTestQueue 0 0 = [commandMsg 1 (exEnt 7)]" by (simp add: exTestQueue_def)
  then show ?thesis using s harness_accepts_raft [OF s] by (metis zero_less_numeral)
qed

section \<open>Leaders\<close>

text \<open>The votes are never taken back, so leaders of one term seen at different moments are the same server.\<close>

lemma granted_mono: "cstep s s' \<Longrightarrow> granted s \<subseteq> granted s'"
  by (induction rule: cstep.induct) auto

lemma granted_run: "cstep\<^sup>*\<^sup>* s s' \<Longrightarrow> granted s \<subseteq> granted s'"
  by (induction rule: rtranclp_induct) (use granted_mono in blast)+

lemma creach_run: "cstep\<^sup>*\<^sup>* s s' \<Longrightarrow> creach n s \<Longrightarrow> creach n s'"
  by (induction rule: rtranclp_induct) (auto intro: creach.step)

lemma leaders_over_time:
  assumes "creach n s1" "cstep\<^sup>*\<^sup>* s1 s" "creach n s2" "cstep\<^sup>*\<^sup>* s2 s" "i < n" "j < n"
    and "GetState (node s1 i) = (t, True)" "GetState (node s2 j) = (t, True)"
  shows "i = j"
proof -
  have inv: "electionInv s1" "nservers s1 = n" "electionInv s2" "nservers s2 = n" "electionInv s"
    using creach_electionInv assms(1,3) creach_run [OF assms(2,1)] by auto
  have l: "state (node s1 i) = StateLeader" "currentTerm (node s1 i) = t" "state (node s2 j) = StateLeader" "currentTerm (node s2 j) = t"
    using assms(7,8) by (simp_all add: GetState_def)
  note q1 = leader_quorum [OF inv(1) _ l(1), unfolded inv(2) l(2), OF assms(5)]
  note q2 = leader_quorum [OF inv(3) _ l(3), unfolded inv(4) l(4), OF assms(6)]
  obtain p where "p \<in> insert i (voters s1 i t)" "p \<in> insert j (voters s2 j t)"
    by (rule elections.quorums_share [OF q1(1) q2(1) q1(2) q2(2)])
  then have "(p, t, i) \<in> granted s" "(p, t, j) \<in> granted s"
    using q1(3) q2(3) granted_run [OF assms(2)] granted_run [OF assms(4)] by auto
  then show ?thesis using inv(5) unfolding electionInv_def inv_granted_def by blast
qed

lemma map_default_entry:
  "(t, l) \<in> set (AList.map_default k v f m) \<Longrightarrow> (t, l) \<in> set m \<or> t = k \<and> (l = v \<or> (\<exists>l0. (k, l0) \<in> set m \<and> l = f l0))"
  by (induction m) (auto split: if_splits)

lemma leadersByTerm_snoc:
  "leadersByTerm (js @ [i]) cfg obs =
     (if tc_connected cfg ! i \<and> snd (obs i) then AList.map_default (fst (obs i)) [i] (\<lambda>l. l @ [i]) (leadersByTerm js cfg obs)
      else leadersByTerm js cfg obs)"
  by (simp add: leadersByTerm_def)

lemma leadersByTerm_entries:
  assumes "(t, l) \<in> set (leadersByTerm js cfg obs)" "distinct js"
  shows "distinct l \<and> (\<forall>i\<in>set l. i \<in> set js \<and> tc_connected cfg ! i \<and> obs i = (t, True))"
  using assms
proof (induction js arbitrary: t l rule: rev_induct)
  case (snoc i js)
  have i: "i \<notin> set js" "distinct js" using snoc.prems(2) by auto
  show ?case
  proof (cases "tc_connected cfg ! i \<and> snd (obs i) \<and> (t, l) \<notin> set (leadersByTerm js cfg obs)")
    case True
    then have "(t, l) \<in> set (AList.map_default (fst (obs i)) [i] (\<lambda>l. l @ [i]) (leadersByTerm js cfg obs))"
      using snoc.prems(1) by (simp add: leadersByTerm_snoc)
    from map_default_entry [OF this] consider (new) "t = fst (obs i)" "l = [i]"
      | (more) l0 where "t = fst (obs i)" "(t, l0) \<in> set (leadersByTerm js cfg obs)" "l = l0 @ [i]" using True by blast
    then show ?thesis
    proof cases
      case (more l0)
      then show ?thesis using snoc.IH [OF more(2) i(2)] True i(1) by (auto simp: prod_eq_iff)
    qed (use True in \<open>auto simp: prod_eq_iff\<close>)
  next
    case False
    then have "(t, l) \<in> set (leadersByTerm js cfg obs)" using snoc.prems(1) by (auto simp: leadersByTerm_snoc split: if_splits)
    then show ?thesis using snoc.IH [OF _ i(2)] by auto
  qed
qed (simp add: leadersByTerm_def)

lemma map_default_fst: "fst ` set (AList.map_default k v f m) = insert k (fst ` set m)"
  by (induction m) auto

lemma leadersByTerm_complete:
  "i \<in> set js \<Longrightarrow> tc_connected cfg ! i \<Longrightarrow> snd (obs i) \<Longrightarrow> fst (obs i) \<in> fst ` set (leadersByTerm js cfg obs)"
  by (induction js rule: rev_induct) (auto simp: leadersByTerm_snoc map_default_fst)

lemma fold_latest: "a \<le> fold (\<lambda>(t, l) a. if t > a then t else a) m a \<and> (\<forall>t\<in>fst ` set m. t \<le> fold (\<lambda>(t, l) a. if t > a then t else a) m (a::int))"
  by (induction m arbitrary: a) (auto, smt+)

text \<open>
  C23. A round of \<^verbatim>\<open>checkOneLeader\<close> never reports a term with two leaders, although it asks the servers one after the other while the group goes on; and the leader
  that it returns is a connected server that claimed to be leader, with the latest term of all that did.
\<close>

theorem harness_one_leader:
  assumes "\<forall>i < tc_n cfg. \<exists>s. creach (tc_n cfg) s \<and> cstep\<^sup>*\<^sup>* s now \<and> obs i = GetState (node s i)"
  shows "\<exists>r. leaderRound cfg obs = Inr r \<and>
    (\<forall>i. r = Some i \<longrightarrow> i < tc_n cfg \<and> tc_connected cfg ! i \<and> snd (obs i) \<and>
      (\<forall>j < tc_n cfg. tc_connected cfg ! j \<and> snd (obs j) \<longrightarrow> fst (obs j) \<le> fst (obs i)))"
proof -
  let ?m = "leadersByTerm [0..<tc_n cfg] cfg obs" and ?t = "fold (\<lambda>(t, l) a. if t > a then t else a) (leadersByTerm [0..<tc_n cfg] cfg obs) (-1)"
  have "length l \<le> 1" if "(t, l) \<in> set ?m" for t l
  proof (rule ccontr)
    assume "\<not> length l \<le> 1"
    then obtain i j l' where l: "l = i # j # l'" by (cases l rule: remdups_adj.cases) auto
    have e: "i \<noteq> j" "i < tc_n cfg" "j < tc_n cfg" "obs i = (t, True)" "obs j = (t, True)" using leadersByTerm_entries [OF that] l by auto
    then show False using assms leaders_over_time by metis
  qed
  then have f: "filter (\<lambda>(t, l). length l > 1) ?m = []" unfolding filter_empty_conv by fastforce
  have r: "leaderRound cfg obs = Inr (case map_of ?m ?t of Some (i # _) \<Rightarrow> Some i | _ \<Rightarrow> None)"
    unfolding leaderRound_def Let_def f by (auto split: option.splits list.splits)
  have "i < tc_n cfg \<and> tc_connected cfg ! i \<and> snd (obs i) \<and> fst (obs i) = ?t"
    if h: "(case map_of ?m ?t of Some (i # _) \<Rightarrow> Some i | _ \<Rightarrow> None) = Some i" for i
  proof -
    obtain l where "(?t, i # l) \<in> set ?m" using h by (auto split: option.splits list.splits dest: map_of_SomeD)
    from leadersByTerm_entries [OF this] have "i \<in> set [0..<tc_n cfg] \<and> tc_connected cfg ! i \<and> obs i = (?t, True)" by simp
    then show ?thesis by (simp only: set_upt atLeastLessThan_iff fst_conv snd_conv)
  qed
  moreover have "fst (obs j) \<le> ?t" if "j < tc_n cfg" "tc_connected cfg ! j" "snd (obs j)" for j
    using fold_latest [of "-1" ?m] leadersByTerm_complete [of j "[0..<tc_n cfg]" cfg obs] that by auto
  ultimately show ?thesis using r by auto
qed

text \<open>Both servers are connected; server 0, the leader, was asked before server 1 knew of the committed command, server 1 after that.\<close>

definition exBothOn :: "int testConfig" where
  "exBothOn = (emptyTest 2)\<lparr>tc_connected := [True, True]\<rparr>"

theorem harness_one_leader_witness:
  "\<exists>s now :: (int, int) cluster. creach 2 s \<and> cstep\<^sup>*\<^sup>* s now \<and> state (node s 0) = StateLeader \<and>
    (\<exists>r. leaderRound exBothOn (\<lambda>i. GetState (node (if i = 0 then s else now) i)) = Inr r)"
proof -
  let ?s = "exFirst 7 :: (int, int) cluster" and ?now = "exBoth 7 :: (int, int) cluster"
  let ?obs = "\<lambda>i. GetState (node (if i = 0 then ?s else ?now) i)"
  have "exStep\<^sup>*\<^sup>* (cinit 2 (\<lambda>_. 0)) ?s" by (rule rtranclp_trans [OF exElect_run exFirst_run])
  then have r1: "creach 2 ?s" using creach_run [OF exStep_cstep] creach.start by blast
  have run: "cstep\<^sup>*\<^sup>* ?s ?now" by (rule exStep_cstep [OF exBoth_run])
  have "tc_n exBothOn = 2" by (simp add: exBothOn_def emptyTest_def)
  moreover have "\<exists>s. creach 2 s \<and> cstep\<^sup>*\<^sup>* s ?now \<and> ?obs i = GetState (node s i)" for i
    using r1 run creach_run [OF run r1] by (cases "i = 0") auto
  ultimately have "\<exists>r. leaderRound exBothOn ?obs = Inr r"
    using harness_one_leader [of exBothOn ?now ?obs] by metis
  moreover have "state (node ?s 0) = StateLeader" by (simp add: exFirst_def exNode_def)
  ultimately show ?thesis using r1 run by blast
qed

end
