(* ===== verification/Notify.thy ===== *)
theory Notify
  imports Go_Prelude
begin

text \<open>
  The rendez-vous between an RPC handler and the apply loop that \<^verbatim>\<open>kvraft\<close>, \<^verbatim>\<open>shardctrler\<close> and
  \<^verbatim>\<open>shardkv\<close> share (\<^verbatim>\<open>submitAndWait\<close>, \<^verbatim>\<open>submitOp\<close>): the handler registers a channel of capacity one under
  the log index of its command, with the identity of the command; the apply loop sends the result
  to the channel found there if the identity matches. The identity is the pair of client and
  sequence number in the first two services and a random number in the third. A channel is a
  number, \<^verbatim>\<open>chans\<close> holds the buffered results.
\<close>

record 'k notifyEntry =
  ne_id :: 'k
  ne_ch :: nat

type_synonym 'k notifyTable = "int \<rightharpoonup> 'k notifyEntry"
type_synonym 'r chans = "nat \<Rightarrow> 'r list"

text \<open>A send blocks (here: is not possible) while the buffer of capacity one is full.\<close>

definition chanSend :: "nat \<Rightarrow> 'r \<Rightarrow> 'r chans \<Rightarrow> 'r chans option" where
  "chanSend c v chs = (if length (chs c) < 1 then Some (chs(c := chs c @ [v])) else None)"

text \<open>The lock region that registers a handler; an older entry at the same index is refused.\<close>

definition registerWaiter ::
    "'r \<Rightarrow> int \<Rightarrow> 'k \<Rightarrow> nat \<Rightarrow> 'k notifyTable \<Rightarrow> 'r chans \<Rightarrow> ('k notifyTable \<times> 'r chans) option" where
  "registerWaiter refusal index k c nt chs =
     (case (case nt index of None \<Rightarrow> Some chs | Some old \<Rightarrow> chanSend (ne_ch old) refusal chs) of
        None \<Rightarrow> None
      | Some chs' \<Rightarrow> Some (nt(index \<mapsto> \<lparr>ne_id = k, ne_ch = c\<rparr>), chs'))"

text \<open>The deferred function: only the handler's own entry is removed.\<close>

definition unregisterWaiter :: "int \<Rightarrow> 'k \<Rightarrow> 'k notifyTable \<Rightarrow> 'k notifyTable" where
  "unregisterWaiter index k nt =
     (case nt index of None \<Rightarrow> nt | Some e \<Rightarrow> if ne_id e = k then nt(index := None) else nt)"

text \<open>What the apply loop does for a command with identity \<^verbatim>\<open>k\<close> at \<^verbatim>\<open>index\<close>.\<close>

definition notifyTarget :: "int \<Rightarrow> 'k \<Rightarrow> 'k notifyTable \<Rightarrow> nat option" where
  "notifyTarget index k nt =
     (case nt index of None \<Rightarrow> None | Some e \<Rightarrow> if ne_id e = k then Some (ne_ch e) else None)"

section \<open>The protocol as a transition system\<close>

text \<open>
  \<^verbatim>\<open>handlers\<close> are the goroutines that wait in the \<^verbatim>\<open>select\<close>, \<^verbatim>\<open>leaving\<close> those that are past it and
  have not run their deferred function, \<^verbatim>\<open>sending\<close> is the result that the apply
  loop has taken out of the lock region and not sent yet, \<^verbatim>\<open>applied\<close> the history of applied commands,
  \<^verbatim>\<open>answers\<close> what the handlers received.
\<close>

record ('k, 'r) waitsys =
  notify :: "'k notifyTable"
  buffers :: "'r chans"
  handlers :: "nat \<rightharpoonup> int \<times> 'k"
  leaving :: "nat \<rightharpoonup> int \<times> 'k"
  sending :: "(nat \<times> 'r) option"
  applied :: "(int \<times> 'k \<times> 'r) list"
  answers :: "(int \<times> 'k \<times> 'r) list"
  used :: nat

definition winit :: "('k, 'r) waitsys" where
  "winit = \<lparr>notify = Map.empty, buffers = (\<lambda>_. []), handlers = Map.empty,
     leaving = Map.empty, sending = None,
     applied = [], answers = [], used = 0\<rparr>"

inductive wstep :: "'r \<Rightarrow> ('k, 'r) waitsys \<Rightarrow> ('k, 'r) waitsys \<Rightarrow> bool" for refusal where
  register:
  "registerWaiter refusal index k (used w) (notify w) (buffers w) = Some (nt, chs) \<Longrightarrow>
   wstep refusal w (w\<lparr>notify := nt, buffers := chs, handlers := (handlers w)(used w \<mapsto> (index, k)),
     used := Suc (used w)\<rparr>)"
| apply_command:
  "sending w = None \<Longrightarrow>
   wstep refusal w (w\<lparr>applied := applied w @ [(index, k, r)],
     sending := map_option (\<lambda>c. (c, r)) (notifyTarget index k (notify w))\<rparr>)"
| deliver:
  "\<lbrakk>sending w = Some (c, r); chanSend c r (buffers w) = Some chs\<rbrakk> \<Longrightarrow>
   wstep refusal w (w\<lparr>buffers := chs, sending := None\<rparr>)"
| receive:
  "\<lbrakk>handlers w c = Some x; buffers w c = r # rest\<rbrakk> \<Longrightarrow>
   wstep refusal w (w\<lparr>buffers := (buffers w)(c := rest), handlers := (handlers w)(c := None),
     leaving := (leaving w)(c \<mapsto> x), answers := answers w @ [(fst x, snd x, r)]\<rparr>)"
| timeout:
  "handlers w c = Some x \<Longrightarrow>
   wstep refusal w (w\<lparr>handlers := (handlers w)(c := None), leaving := (leaving w)(c \<mapsto> x)\<rparr>)"
| leave:
  "leaving w c = Some (index, k) \<Longrightarrow>
   wstep refusal w (w\<lparr>leaving := (leaving w)(c := None),
     notify := unregisterWaiter index k (notify w)\<rparr>)"

inductive wreach :: "'r \<Rightarrow> ('k, 'r) waitsys \<Rightarrow> bool" for refusal where
  start: "wreach refusal winit"
| step: "wreach refusal w \<Longrightarrow> wstep refusal w w' \<Longrightarrow> wreach refusal w'"

text \<open>
  Every channel belongs to the index and identity of its handler: \<^verbatim>\<open>owner\<close> is the function the
  invariant quantifies over.
\<close>

definition waitInv :: "'r \<Rightarrow> (nat \<Rightarrow> int \<times> 'k) \<Rightarrow> ('k, 'r) waitsys \<Rightarrow> bool" where
  "waitInv refusal owner w \<longleftrightarrow>
     (\<forall>c x. handlers w c = Some x \<longrightarrow> c < used w \<and> owner c = x) \<and>
     (\<forall>i e. notify w i = Some e \<longrightarrow> ne_ch e < used w \<and> owner (ne_ch e) = (i, ne_id e)) \<and>
     (\<forall>c r. sending w = Some (c, r) \<longrightarrow> c < used w \<and> (fst (owner c), snd (owner c), r) \<in> set (applied w)) \<and>
     (\<forall>c r. r \<in> set (buffers w c) \<longrightarrow>
        c < used w \<and> (r = refusal \<or> (fst (owner c), snd (owner c), r) \<in> set (applied w))) \<and>
     (\<forall>i k r. (i, k, r) \<in> set (answers w) \<longrightarrow> r = refusal \<or> (i, k, r) \<in> set (applied w))"

lemma notify_unregister: "unregisterWaiter index k nt i = Some e \<Longrightarrow> nt i = Some e"
  by (auto simp: unregisterWaiter_def split: option.splits if_splits)

lemma notifyTarget_Some:
  "notifyTarget index k nt = Some c \<Longrightarrow> \<exists>e. nt index = Some e \<and> ne_id e = k \<and> ne_ch e = c"
  by (auto simp: notifyTarget_def split: option.splits if_splits)

lemma chanSend_mem: "chanSend c v chs = Some chs' \<Longrightarrow> r \<in> set (chs' c') \<Longrightarrow> r \<in> set (chs c') \<or> (c' = c \<and> r = v)"
  by (auto simp: chanSend_def split: if_splits)

lemma registerWaiter_Some:
  assumes "registerWaiter refusal index k c nt chs = Some (nt', chs')"
  shows "nt' = nt(index \<mapsto> \<lparr>ne_id = k, ne_ch = c\<rparr>)"
    "r \<in> set (chs' c') \<Longrightarrow> r \<in> set (chs c') \<or> (\<exists>e. nt index = Some e \<and> c' = ne_ch e \<and> r = refusal)"
  using assms by (auto simp: registerWaiter_def dest: chanSend_mem split: option.splits)

lemma waitInvI:
  assumes "\<And>c x. handlers w c = Some x \<Longrightarrow> c < used w \<and> owner c = x"
    and "\<And>i e. notify w i = Some e \<Longrightarrow> ne_ch e < used w \<and> owner (ne_ch e) = (i, ne_id e)"
    and "\<And>c r. sending w = Some (c, r) \<Longrightarrow> c < used w \<and> (fst (owner c), snd (owner c), r) \<in> set (applied w)"
    and "\<And>c r. r \<in> set (buffers w c) \<Longrightarrow>
      c < used w \<and> (r = refusal \<or> (fst (owner c), snd (owner c), r) \<in> set (applied w))"
    and "\<And>i k r. (i, k, r) \<in> set (answers w) \<Longrightarrow> r = refusal \<or> (i, k, r) \<in> set (applied w)"
  shows "waitInv refusal owner w"
  using assms unfolding waitInv_def by blast

lemma waitInvD:
  assumes "waitInv refusal owner w"
  shows "handlers w c = Some x \<Longrightarrow> c < used w \<and> owner c = x"
    and "notify w i = Some e \<Longrightarrow> ne_ch e < used w \<and> owner (ne_ch e) = (i, ne_id e)"
    and "sending w = Some (c, r) \<Longrightarrow> c < used w \<and> (fst (owner c), snd (owner c), r) \<in> set (applied w)"
    and "r \<in> set (buffers w c) \<Longrightarrow>
      c < used w \<and> (r = refusal \<or> (fst (owner c), snd (owner c), r) \<in> set (applied w))"
    and "(i, k, r) \<in> set (answers w) \<Longrightarrow> r = refusal \<or> (i, k, r) \<in> set (applied w)"
  using assms unfolding waitInv_def by blast+

lemma waitInv_register:
  assumes inv: "waitInv refusal owner w"
    and reg: "registerWaiter refusal index k (used w) (notify w) (buffers w) = Some (nt, chs)"
  shows "waitInv refusal (owner(used w := (index, k)))
    (w\<lparr>notify := nt, buffers := chs, handlers := (handlers w)(used w \<mapsto> (index, k)), used := Suc (used w)\<rparr>)"
    (is "waitInv refusal ?owner ?w")
proof (rule waitInvI)
  note D = waitInvD [OF inv]
  show "c < used ?w \<and> ?owner c = x" if "handlers ?w c = Some x" for c x
    using that D(1) [of c x] by (auto split: if_splits)
  show "ne_ch e < used ?w \<and> ?owner (ne_ch e) = (i, ne_id e)" if "notify ?w i = Some e" for i e
    using that D(2) [of i e] registerWaiter_Some(1) [OF reg] by (auto split: if_splits)
  show "c < used ?w \<and> (fst (?owner c), snd (?owner c), r) \<in> set (applied ?w)"
    if "sending ?w = Some (c, r)" for c r
    using that D(3) [of c r] by auto
  show "c < used ?w \<and> (r = refusal \<or> (fst (?owner c), snd (?owner c), r) \<in> set (applied ?w))"
    if "r \<in> set (buffers ?w c)" for c r
    using registerWaiter_Some(2) [OF reg, of r c] that D(2,4) by fastforce
qed (use waitInvD(5) [OF inv] in simp)

lemma waitInv_receive:
  assumes inv: "waitInv refusal owner w" and h: "handlers w c = Some x" "buffers w c = r # rest"
  shows "waitInv refusal owner (w\<lparr>buffers := (buffers w)(c := rest), handlers := (handlers w)(c := None),
     leaving := (leaving w)(c \<mapsto> x), answers := answers w @ [(fst x, snd x, r)]\<rparr>)"
proof (rule waitInvI, goal_cases)
  case (4 c' r')
  then show ?case using waitInvD(4) [OF inv, of r' c'] h(2) by (auto split: if_splits)
next
  case (5 i k r')
  then show ?case using waitInvD(5) [OF inv, of i k r'] waitInvD(4) [OF inv, of r c]
      waitInvD(1) [OF inv h(1)] h(2) by auto
qed (use waitInvD(1-3) [OF inv] in \<open>auto split: if_splits\<close>)

lemma wstep_waitInv:
  assumes "wstep refusal w w'" "waitInv refusal owner w"
  shows "\<exists>owner'. waitInv refusal owner' w'"
  using assms
proof (cases rule: wstep.cases)
  case (register index k nt chs)
  then show ?thesis using waitInv_register [OF assms(2)] by blast
next
  case (apply_command r index k)
  have "waitInv refusal owner w'"
    unfolding apply_command(1)
  proof (rule waitInvI, goal_cases)
    case (3 c r')
    then obtain e where "notify w index = Some e" "ne_id e = k" "ne_ch e = c" "r' = r"
      using notifyTarget_Some by fastforce
    then show ?case using waitInvD(2) [OF assms(2), of index e] by simp
  qed (auto dest: waitInvD [OF assms(2)])
  then show ?thesis by blast
next
  case (deliver c r chs)
  have "waitInv refusal owner w'"
    unfolding deliver(1)
  proof (rule waitInvI, goal_cases)
    case (4 c' r')
    then show ?case
      using chanSend_mem [OF deliver(3), of r' c'] waitInvD(3,4) [OF assms(2)] deliver(2) by auto
  qed (auto dest: waitInvD [OF assms(2)])
  then show ?thesis by blast
next
  case (receive c x r rest)
  then show ?thesis using waitInv_receive [OF assms(2)] by blast
next
  case (timeout c x)
  then show ?thesis using waitInvD [OF assms(2)]
    by (intro exI [of _ owner] waitInvI) (auto split: if_splits)
next
  case (leave c index k)
  then show ?thesis
    by (intro exI [of _ owner] waitInvI)
      (auto dest: waitInvD [OF assms(2)] dest!: notify_unregister)
qed

text \<open>
  C29. Whatever the interleaving of registrations, applied commands, timeouts and overwritten log
  indices: what a waiting handler receives is the refusal, or the result of applying a command with
  the handler's own identity at the handler's own index.
\<close>

theorem handler_gets_own_result:
  assumes "wreach refusal w" "(index, k, r) \<in> set (answers w)"
  shows "r = refusal \<or> (index, k, r) \<in> set (applied w)"
proof -
  have "\<exists>owner. waitInv refusal owner w"
    using assms(1)
  proof (induction rule: wreach.induct)
    case start
    show ?case by (simp add: waitInv_def winit_def)
  next
    case (step w w')
    from step.IH obtain owner where "waitInv refusal owner w" ..
    from wstep_waitInv [OF step.hyps(2) this] show ?case .
  qed
  then obtain owner where "waitInv refusal owner w" ..
  then show ?thesis using assms(2) by (rule waitInvD(5))
qed

text \<open>A run: a handler registers at index 7, its command is applied there, the result reaches it.\<close>

theorem handler_gets_own_result_witness:
  "\<exists>w :: (int, string) waitsys. wreach ''refused'' w \<and> (7, 1, ''ok'') \<in> set (answers w) \<and>
     (7, 1, ''ok'') \<in> set (applied w)"
proof -
  define w1 :: "(int, string) waitsys" where "w1 = winit\<lparr>notify := [7 \<mapsto> \<lparr>ne_id = 1, ne_ch = 0\<rparr>],
    handlers := [0 \<mapsto> (7, 1)], used := 1\<rparr>"
  define w2 where "w2 = w1\<lparr>applied := [(7, 1, ''ok'')], sending := Some (0, ''ok'')\<rparr>"
  define w3 where "w3 = w2\<lparr>buffers := (\<lambda>_. [])(0 := [''ok'']), sending := None\<rparr>"
  define w4 where "w4 = w3\<lparr>buffers := (buffers w3)(0 := []), handlers := (handlers w3)(0 := None),
    leaving := (leaving w3)(0 \<mapsto> (7, 1)), answers := answers w3 @ [(7, 1, ''ok'')]\<rparr>"
  note ev = w1_def w2_def w3_def w4_def winit_def
  have "wstep ''refused'' winit w1"
    using register [of "''refused''" 7 1 winit] by (simp add: ev registerWaiter_def)
  moreover have "wstep ''refused'' w1 w2"
    using apply_command [of w1 "''refused''" "''ok''" 7 1] by (simp add: ev notifyTarget_def)
  moreover have "wstep ''refused'' w2 w3"
    using deliver [of w2 0 "''ok''" _ "''refused''"] by (simp add: ev chanSend_def)
  moreover have "wstep ''refused'' w3 w4"
    using receive [of w3 0 "(7, 1)" "''ok''" "[]" "''refused''"] unfolding w4_def by (simp add: ev)
  ultimately have reach: "wreach ''refused'' w4"
    by (rule wreach.step [OF wreach.step [OF wreach.step [OF wreach.step [OF wreach.start]]]])
  have ans: "(7, 1, ''ok'') \<in> set (answers w4)" by (simp add: w4_def)
  from handler_gets_own_result [OF reach ans] reach ans show ?thesis by auto
qed

end
