(* ===== verification/Dedup.thy ===== *)
theory Dedup
  imports Go_Prelude
begin

text \<open>
  The contract behind the duplicate tables of \<^verbatim>\<open>kvraft\<close>, \<^verbatim>\<open>shardctrler\<close> and \<^verbatim>\<open>shardkv\<close>: a replicated
  state machine that remembers, per client, the sequence number of the last write it executed and
  ignores writes that are not newer. The two locales are interpreted on the apply functions of the
  three services; their lemmas turn at-least-once delivery of commands into exactly-once execution.
\<close>

section \<open>Runs over a log\<close>

text \<open>
  An apply function returns \<^term>\<open>None\<close> where the code panics; the run of a replica over the commands of
  its log stops there.
\<close>

fun runOps :: "('o \<Rightarrow> 'z \<Rightarrow> ('z \<times> 'r) option) \<Rightarrow> 'o list \<Rightarrow> 'z \<Rightarrow> ('z \<times> 'r list) option" where
  "runOps app [] z = Some (z, [])"
| "runOps app (op # ops) z =
     (case app op z of None \<Rightarrow> None
      | Some (z1, r) \<Rightarrow> (case runOps app ops z1 of None \<Rightarrow> None | Some (z2, rs) \<Rightarrow> Some (z2, r # rs)))"

lemma runOps_Cons_Some:
  "runOps app (op # ops) z = Some (z2, rs2) \<longleftrightarrow>
     (\<exists>z1 r rs. app op z = Some (z1, r) \<and> runOps app ops z1 = Some (z2, rs) \<and> rs2 = r # rs)"
  by (auto split: option.splits)

lemma runOps_append:
  "runOps app (xs @ ys) z =
     (case runOps app xs z of None \<Rightarrow> None
      | Some (z1, rs) \<Rightarrow> (case runOps app ys z1 of None \<Rightarrow> None | Some (z2, rs') \<Rightarrow> Some (z2, rs @ rs')))"
  by (induction xs arbitrary: z) (auto split: option.splits)

lemma runOps_total: "\<exists>z' rs. runOps (\<lambda>op z. Some (f op z)) ops z = Some (z', rs)"
proof (induction ops arbitrary: z)
  case (Cons op ops)
  obtain z1 r where "f op z = (z1, r)" by (cases "f op z")
  with Cons [of z1] show ?case by auto
qed simp

text \<open>The writes that are executed: those newer than what the table holds for their client.\<close>

definition newer :: "('i \<rightharpoonup> int) \<Rightarrow> 'i \<Rightarrow> int \<Rightarrow> bool" where
  "newer t i n \<longleftrightarrow> (case t i of None \<Rightarrow> True | Some m \<Rightarrow> m < n)"

fun effective ::
    "('o \<Rightarrow> 'i) \<Rightarrow> ('o \<Rightarrow> int) \<Rightarrow> ('o \<Rightarrow> bool) \<Rightarrow> ('i \<rightharpoonup> int) \<Rightarrow> 'o list \<Rightarrow> 'o list" where
  "effective cl sq wr t [] = []"
| "effective cl sq wr t (op # ops) =
     (if wr op \<and> newer t (cl op) (sq op)
      then op # effective cl sq wr (t(cl op \<mapsto> sq op)) ops
      else effective cl sq wr t ops)"

lemma effective_newer:
  "op \<in> set (effective cl sq wr t ops) \<Longrightarrow> newer t (cl op) (sq op)"
  by (induction ops arbitrary: t) (force simp: newer_def split: if_splits option.splits)+

lemma effective_increasing:
  "sorted_wrt (\<lambda>a b. cl a = cl b \<longrightarrow> sq a < sq b) (effective cl sq wr t ops)"
proof (induction ops arbitrary: t)
  case (Cons op ops)
  have "sq op < sq b" if "b \<in> set (effective cl sq wr (t(cl op \<mapsto> sq op)) ops)" "cl op = cl b" for b
    using effective_newer [OF that(1)] that(2) by (simp add: newer_def)
  with Cons show ?case by auto
qed simp

lemma increasing_distinct:
  "sorted_wrt (\<lambda>a b. cl a = cl b \<longrightarrow> sq a < (sq b :: int)) ops \<Longrightarrow> distinct (map (\<lambda>op. (cl op, sq op)) ops)"
  by (induction ops) force+

lemma effective_ids_distinct: "distinct (map (\<lambda>op. (cl op, sq op)) (effective cl sq wr t ops))"
  by (rule increasing_distinct [OF effective_increasing])

text \<open>
  The first occurrence of a request carries a number above all earlier requests of its client (\<^verbatim>\<open>nextSeq\<close>);
  retransmissions may occur anywhere after it. \<^verbatim>\<open>KvClerk_Runs\<close> shows it of every log that clerks produce.
\<close>

fun freshInOrder ::
    "('o \<Rightarrow> 'i) \<Rightarrow> ('o \<Rightarrow> int) \<Rightarrow> ('o \<Rightarrow> bool) \<Rightarrow> ('i \<times> int) list \<Rightarrow> 'o list \<Rightarrow> bool" where
  "freshInOrder cl sq wr seen [] = True"
| "freshInOrder cl sq wr seen (op # ops) =
     (if wr op
      then ((cl op, sq op) \<in> set seen \<or> list_all (\<lambda>(c, n). c = cl op \<longrightarrow> n < sq op) seen) \<and>
           freshInOrder cl sq wr ((cl op, sq op) # seen) ops
      else freshInOrder cl sq wr seen ops)"

text \<open>The writes of a log without retransmissions.\<close>

fun firstOccs ::
    "('o \<Rightarrow> 'i) \<Rightarrow> ('o \<Rightarrow> int) \<Rightarrow> ('o \<Rightarrow> bool) \<Rightarrow> ('i \<times> int) list \<Rightarrow> 'o list \<Rightarrow> 'o list" where
  "firstOccs cl sq wr seen [] = []"
| "firstOccs cl sq wr seen (op # ops) =
     (if wr op \<and> (cl op, sq op) \<notin> set seen
      then op # firstOccs cl sq wr ((cl op, sq op) # seen) ops
      else firstOccs cl sq wr seen ops)"

definition tracks :: "('i \<rightharpoonup> int) \<Rightarrow> ('i \<times> int) list \<Rightarrow> bool" where
  "tracks t seen \<longleftrightarrow>
     (\<forall>c n. (c, n) \<in> set seen \<longrightarrow> (\<exists>m. t c = Some m \<and> n \<le> m)) \<and>
     (\<forall>c m. t c = Some m \<longrightarrow> (c, m) \<in> set seen)"

lemma tracks_insert:
  "tracks t seen \<Longrightarrow> newer t c n \<Longrightarrow> tracks (t(c \<mapsto> n)) ((c, n) # seen)"
  unfolding tracks_def newer_def by (force split: option.splits)

lemma tracks_same_set: "tracks t seen \<Longrightarrow> set seen = set seen' \<Longrightarrow> tracks t seen'"
  by (simp add: tracks_def)

lemma freshInOrder_same_set:
  "set seen = set seen' \<Longrightarrow> freshInOrder cl sq wr seen ops = freshInOrder cl sq wr seen' ops"
proof (induction ops arbitrary: seen seen')
  case (Cons op ops)
  from Cons.IH [OF Cons.prems] Cons.IH [of "(cl op, sq op) # seen" "(cl op, sq op) # seen'"] Cons.prems
  show ?case by (simp add: list_all_iff)
qed simp

lemma tracks_newer:
  assumes "tracks t seen"
    and "(c, n) \<in> set seen \<or> list_all (\<lambda>(c', m). c' = c \<longrightarrow> m < n) seen"
  shows "newer t c n \<longleftrightarrow> (c, n) \<notin> set seen"
proof (cases "t c")
  case None
  then have "(c, n) \<notin> set seen" using assms(1) by (fastforce simp: tracks_def)
  with None show ?thesis by (simp add: newer_def)
next
  case (Some m)
  then have "(c, m) \<in> set seen" "(c, n) \<in> set seen \<Longrightarrow> n \<le> m"
    using assms(1) by (fastforce simp: tracks_def)+
  with Some assms(2) show ?thesis by (fastforce simp: newer_def list_all_iff)
qed

lemma effective_firstOccs:
  "tracks t seen \<Longrightarrow> freshInOrder cl sq wr seen ops \<Longrightarrow>
   effective cl sq wr t ops = firstOccs cl sq wr seen ops"
proof (induction ops arbitrary: t seen)
  case (Cons op ops)
  show ?case
  proof (cases "wr op")
    case True
    then have new: "newer t (cl op) (sq op) \<longleftrightarrow> (cl op, sq op) \<notin> set seen"
      using Cons.prems tracks_newer by fastforce
    show ?thesis
    proof (cases "(cl op, sq op) \<in> set seen")
      case seen: True
      then have "freshInOrder cl sq wr seen ops"
        using Cons.prems(2) True freshInOrder_same_set [of "(cl op, sq op) # seen" seen] by auto
      with seen new Cons show ?thesis by simp
    next
      case False
      then show ?thesis using Cons True new tracks_insert [OF Cons.prems(1)] by auto
    qed
  qed (use Cons in auto)
qed simp

lemma freshInOrder_snoc:
  "freshInOrder cl sq wr seen (xs @ [x]) \<longleftrightarrow> freshInOrder cl sq wr seen xs \<and>
     (let ids = set seen \<union> (\<lambda>op. (cl op, sq op)) ` {op \<in> set xs. wr op} in
        wr x \<longrightarrow> (cl x, sq x) \<in> ids \<or> (\<forall>(c, n) \<in> ids. c = cl x \<longrightarrow> n < sq x))"
proof (induction xs arbitrary: seen)
  case (Cons y xs)
  have "(\<lambda>op. (cl op, sq op)) ` {op \<in> set (y # xs). wr op} =
      (if wr y then insert (cl y, sq y) else id) ((\<lambda>op. (cl op, sq op)) ` {op \<in> set xs. wr op})" by auto
  then show ?case using Cons.IH by (simp add: Let_def) blast
qed (simp add: list_all_iff Let_def)

lemma set_firstOccs_seen:
  assumes "\<And>x y. x \<in> set xs \<Longrightarrow> y \<in> set xs \<Longrightarrow> cl x = cl y \<Longrightarrow> sq x = sq y \<Longrightarrow> x = y"
  shows "set (firstOccs cl sq wr seen xs) = {x \<in> set xs. wr x \<and> (cl x, sq x) \<notin> set seen}"
  using assms
proof (induction xs arbitrary: seen)
  case (Cons y xs)
  have IH: "set (firstOccs cl sq wr seen xs) = {x \<in> set xs. wr x \<and> (cl x, sq x) \<notin> set seen}" for seen
    by (rule Cons.IH) (use Cons.prems in auto)
  have "x = y" if "x \<in> set xs" "cl x = cl y" "sq x = sq y" for x using Cons.prems [of x y] that by simp
  then show ?case by (auto simp: IH)
qed simp

lemma set_firstOccs:
  assumes "\<And>x y. x \<in> set xs \<Longrightarrow> y \<in> set xs \<Longrightarrow> cl x = cl y \<Longrightarrow> sq x = sq y \<Longrightarrow> x = y"
  shows "set (firstOccs cl sq wr [] xs) = {x \<in> set xs. wr x}"
  using set_firstOccs_seen [OF assms, where seen = "[]"] by simp

lemma firstOccs_unseen: "x \<in> set (firstOccs cl sq wr seen xs) \<Longrightarrow> (cl x, sq x) \<notin> set seen"
  by (induction xs arbitrary: seen) (fastforce split: if_splits)+

lemma distinct_firstOccs: "distinct (firstOccs cl sq wr seen xs)"
  by (induction xs arbitrary: seen) (fastforce dest: firstOccs_unseen)+

section \<open>The contract of a duplicate table\<close>

locale dup_table =
  fixes app :: "'o \<Rightarrow> 'z \<Rightarrow> ('z \<times> 'r) option"
    and table :: "'z \<Rightarrow> 'i \<rightharpoonup> int"
    and client :: "'o \<Rightarrow> 'i" and seqno :: "'o \<Rightarrow> int" and writes :: "'o \<Rightarrow> bool"
  assumes table_mono:
      "\<lbrakk>app op z = Some (z', r); table z i = Some n\<rbrakk> \<Longrightarrow> \<exists>m. table z' i = Some m \<and> n \<le> m"
    and dup_ignored:
      "\<lbrakk>app op z = Some (z', r); writes op; \<not> newer (table z) (client op) (seqno op)\<rbrakk> \<Longrightarrow> z' = z"
begin

lemma run_mono:
  "\<lbrakk>runOps app ops z = Some (z', rs); table z i = Some n\<rbrakk> \<Longrightarrow> \<exists>m. table z' i = Some m \<and> n \<le> m"
proof (induction ops arbitrary: z n rs)
  case (Cons op ops)
  then obtain z1 r rs' where "app op z = Some (z1, r)" "runOps app ops z1 = Some (z', rs')"
    by (metis runOps_Cons_Some)
  with Cons table_mono show ?case by (meson order_trans)
qed simp

text \<open>Once the table covers a request, the request changes nothing, however much later it comes.\<close>

lemma covered_forever:
  assumes "\<not> newer (table z) (client op) (seqno op)" "writes op"
    and "runOps app ops z = Some (z1, rs)" "app op z1 = Some (z2, r)"
  shows "z2 = z1"
proof -
  from assms(1) obtain n where "table z (client op) = Some n" "seqno op \<le> n"
    by (auto simp: newer_def split: option.splits)
  with run_mono [OF assms(3)] obtain m where "table z1 (client op) = Some m" "seqno op \<le> m"
    by (meson order_trans)
  then show ?thesis using dup_ignored [OF assms(4,2)] by (simp add: newer_def)
qed

end

text \<open>A machine whose writes run \<^verbatim>\<open>exec\<close> on a store and are then entered into the table.\<close>

locale dup_machine = dup_table +
  fixes store :: "'b \<Rightarrow> 's" and exec :: "'a \<Rightarrow> 's \<Rightarrow> 's"
  assumes fresh_executed:
      "\<lbrakk>app op z = Some (z', r); writes op; newer (table z) (client op) (seqno op)\<rbrakk> \<Longrightarrow>
       store z' = exec op (store z) \<and> table z' = (table z)(client op \<mapsto> seqno op)"
    and read_only:
      "\<lbrakk>app op z = Some (z', r); \<not> writes op\<rbrakk> \<Longrightarrow> store z' = store z \<and> table z' = table z"
begin

lemma run_effective:
  "runOps app ops z = Some (z', rs) \<Longrightarrow>
   store z' = fold exec (effective client seqno writes (table z) ops) (store z)"
proof (induction ops arbitrary: z rs)
  case (Cons op ops)
  then obtain z1 r rs' where step: "app op z = Some (z1, r)" and rest: "runOps app ops z1 = Some (z', rs')"
    by (metis runOps_Cons_Some)
  note IH = Cons.IH [OF rest]
  show ?case
  proof (cases "writes op \<and> newer (table z) (client op) (seqno op)")
    case True
    then have "store z1 = exec op (store z)" "table z1 = (table z)(client op \<mapsto> seqno op)"
      using fresh_executed [OF step] by auto
    then show ?thesis using IH True by (simp del: fun_upd_apply)
  next
    case False
    then have "store z1 = store z \<and> table z1 = table z"
      using read_only [OF step] dup_ignored [OF step] by blast
    then show ?thesis using IH False by auto
  qed
qed simp

lemma run_exactly_once:
  assumes "runOps app ops z = Some (z', rs)" "table z = Map.empty"
    and "freshInOrder client seqno writes [] ops"
  shows "store z' = fold exec (firstOccs client seqno writes [] ops) (store z)"
  using run_effective [OF assms(1)] effective_firstOccs [OF _ assms(3), of "table z"] assms(2)
  by (simp add: tracks_def)

end

end
