(* ===== verification/Models_Kv.thy ===== *)
theory Models_Kv
  imports Go_Prelude "HOL-Library.AList" "HOL-Library.List_Lexorder" "HOL-Library.Char_ord"
begin

text \<open>
  \<^verbatim>\<open>models/kv.go\<close>: the sequential key/value model that the linearizability checker of the tests uses. It
  is the abstract specification of the key/value services: a history is split by key, and each part
  must be a legal run of a single string register with get, put and append.
\<close>

record ('i, 'o) Operation =
  o_ClientId :: int
  o_Input :: 'i
  o_Call :: int
  o_Output :: 'o
  o_Return :: int

record KvInput =
  ki_Op :: nat
  ki_Key :: string
  ki_Value :: string

record KvOutput =
  ko_Value :: string

type_synonym kvOperation = "(KvInput, KvOutput) Operation"

definition KvInit :: string where
  "KvInit = ''''"

definition KvStep :: "string \<Rightarrow> KvInput \<Rightarrow> KvOutput \<Rightarrow> bool \<times> string" where
  "KvStep st inp out =
     (if ki_Op inp = 0 then (ko_Value out = st, st)
      else if ki_Op inp = 1 then (True, ki_Value inp)
      else (True, st @ ki_Value inp))"

text \<open>
  \<^verbatim>\<open>Partition\<close>: \<^verbatim>\<open>m\<close> maps each key to its operations in history order, \<^verbatim>\<open>sort.Strings\<close> orders the keys
  bytewise, so the order in which Go enumerates the map does not matter.
\<close>

fun partitionMap :: "kvOperation list \<Rightarrow> (string \<times> kvOperation list) list \<Rightarrow> (string \<times> kvOperation list) list" where
  "partitionMap [] m = m"
| "partitionMap (v # history) m =
     partitionMap history (AList.map_default (ki_Key (o_Input v)) [v] (\<lambda>vs. vs @ [v]) m)"

definition KvPartition :: "kvOperation list \<Rightarrow> kvOperation list list" where
  "KvPartition history =
     (let m = partitionMap history []; keys = sort (map fst m)
      in map (\<lambda>k. case map_of m k of None \<Rightarrow> [] | Some vs \<Rightarrow> vs) keys)"

section \<open>Partition is the split by key\<close>

abbreviation opKey :: "kvOperation \<Rightarrow> string" where
  "opKey v \<equiv> ki_Key (o_Input v)"

lemma map_default_conv:
  "map_of (AList.map_default k [v] (\<lambda>vs. vs @ [v]) m) k' =
     (if k' = k then Some ((case map_of m k of None \<Rightarrow> [] | Some vs \<Rightarrow> vs) @ [v]) else map_of m k')"
  by (induction m) auto

lemma map_default_keys:
  "fst ` set (AList.map_default k v f m) = insert k (fst ` set m)"
  by (induction m) auto

lemma partitionMap_distinct: "distinct (map fst m) \<Longrightarrow> distinct (map fst (partitionMap history m))"
  by (induction history arbitrary: m) (auto simp: distinct_map_default)

lemma partitionMap_keys:
  "fst ` set (partitionMap history m) = opKey ` set history \<union> fst ` set m"
  by (induction history arbitrary: m) (auto simp: map_default_keys)

lemma partitionMap_lookup:
  "(case map_of (partitionMap history m) k of None \<Rightarrow> [] | Some vs \<Rightarrow> vs) =
   (case map_of m k of None \<Rightarrow> [] | Some vs \<Rightarrow> vs) @ filter (\<lambda>v. opKey v = k) history"
  by (induction history arbitrary: m) (simp_all add: map_default_conv)

lemma KvPartition_filter:
  "KvPartition history =
     map (\<lambda>k. filter (\<lambda>v. opKey v = k) history) (sorted_list_of_set (opKey ` set history))"
proof -
  have "sort (map fst (partitionMap history [])) = sorted_list_of_set (opKey ` set history)"
    using partitionMap_distinct [of "[]" history] partitionMap_keys [of history "[]"]
    by (intro sorted_distinct_set_unique) auto
  then show ?thesis by (simp add: KvPartition_def partitionMap_lookup)
qed

section \<open>Legal sequential histories\<close>

text \<open>The sequential reading of \<^verbatim>\<open>Step\<close>: every operation is accepted in turn.\<close>

fun kvLegalFrom :: "string \<Rightarrow> kvOperation list \<Rightarrow> bool" where
  "kvLegalFrom st [] = True"
| "kvLegalFrom st (v # vs) =
     (case KvStep st (o_Input v) (o_Output v) of (ok, st') \<Rightarrow> ok \<and> kvLegalFrom st' vs)"

definition kvLegal :: "kvOperation list \<Rightarrow> bool" where
  "kvLegal history = list_all (kvLegalFrom KvInit) (KvPartition history)"

text \<open>The same over all keys at once: a store of registers.\<close>

fun storeLegalFrom :: "(string \<Rightarrow> string) \<Rightarrow> kvOperation list \<Rightarrow> bool" where
  "storeLegalFrom sts [] = True"
| "storeLegalFrom sts (v # vs) =
     (case KvStep (sts (opKey v)) (o_Input v) (o_Output v) of
        (ok, st') \<Rightarrow> ok \<and> storeLegalFrom (sts(opKey v := st')) vs)"

lemma storeLegalFrom_keys:
  "storeLegalFrom sts vs \<longleftrightarrow> (\<forall>k. kvLegalFrom (sts k) (filter (\<lambda>v. opKey v = k) vs))"
proof (induction vs arbitrary: sts)
  case (Cons v vs)
  obtain ok st' where st: "KvStep (sts (opKey v)) (o_Input v) (o_Output v) = (ok, st')"
    by (cases "KvStep (sts (opKey v)) (o_Input v) (o_Output v)") auto
  define tail where "tail = (\<lambda>k. kvLegalFrom ((sts(opKey v := st')) k) (filter (\<lambda>v. opKey v = k) vs))"
  have "kvLegalFrom (sts k) (filter (\<lambda>v. opKey v = k) (v # vs)) \<longleftrightarrow>
      (if k = opKey v then ok \<and> tail k else tail k)" for k
    using st by (auto simp: tail_def)
  then have "(\<forall>k. kvLegalFrom (sts k) (filter (\<lambda>v. opKey v = k) (v # vs))) \<longleftrightarrow>
      ok \<and> (\<forall>k. tail k)"
    by auto
  moreover have "storeLegalFrom sts (v # vs) \<longleftrightarrow> ok \<and> storeLegalFrom (sts(opKey v := st')) vs"
    using st by simp
  ultimately show ?case using Cons.IH [of "sts(opKey v := st')"] by (simp only: tail_def)
qed simp

lemma kvLegalFrom_no_ops: "kvLegalFrom st []" by simp

lemma kvLegal_store: "kvLegal vs \<longleftrightarrow> storeLegalFrom (\<lambda>_. KvInit) vs"
proof -
  have other: "kvLegalFrom KvInit (filter (\<lambda>v. opKey v = k) vs)" if "k \<notin> opKey ` set vs" for k
    using that by (metis (mono_tags, lifting) filter_False imageI kvLegalFrom_no_ops)
  have "kvLegal vs \<longleftrightarrow> (\<forall>k \<in> opKey ` set vs. kvLegalFrom KvInit (filter (\<lambda>v. opKey v = k) vs))"
    by (simp add: kvLegal_def KvPartition_filter list_all_iff)
  also have "\<dots> \<longleftrightarrow> (\<forall>k. kvLegalFrom KvInit (filter (\<lambda>v. opKey v = k) vs))"
    using other by blast
  also have "\<dots> \<longleftrightarrow> storeLegalFrom (\<lambda>_. KvInit) vs"
    by (rule storeLegalFrom_keys [symmetric])
  finally show ?thesis .
qed

end
