(* ===== verification/KvRaft.thy ===== *)
theory KvRaft
  imports Raft_Log Notify Dedup Models_Kv
begin

text \<open>
  \<^verbatim>\<open>kvraft/server.go\<close> and \<^verbatim>\<open>kvraft/common.go\<close>: the replicated key/value server. The server holds its Raft
  instance, whose persister is also its own (\<^verbatim>\<open>kv.persister\<close>). \<^verbatim>\<open>submitAndWait\<close> is cut at its lock regions,
  one round of \<^verbatim>\<open>applier\<close> is one function of the received message. The size in bytes of the encoded
  Raft state is a parameter (\<^verbatim>\<open>bytes\<close>), as in the persister.
\<close>

section \<open>Data\<close>

datatype Err = OK | ErrNoKey | ErrWrongLeader | ErrTimeout

record PutAppendArgs =
  pa_Key :: string
  pa_Value :: string
  pa_Op :: string
  pa_ClientId :: int
  pa_SeqId :: int

record PutAppendReply =
  pr_Err :: Err

record GetArgs =
  ga_Key :: string
  ga_ClientId :: int
  ga_SeqId :: int

record GetReply =
  gr_Err :: Err
  gr_Value :: string

record Op =
  op_OpType :: string
  op_Key :: string
  op_Value :: string
  op_ClientId :: int
  op_SeqId :: int

record applyResult =
  ar_Err :: Err
  ar_Value :: string
  ar_ClientId :: int
  ar_SeqId :: int

record lastReply =
  lr_SeqId :: int
  lr_Reply :: applyResult

text \<open>The two values that a snapshot holds.\<close>

datatype kvgob = GStore "string \<rightharpoonup> string" | GDup "int \<rightharpoonup> lastReply"

fun asStore :: "kvgob \<Rightarrow> (string \<rightharpoonup> string) option" where
  "asStore (GStore m) = Some m"
| "asStore (GDup _) = None"

fun asDup :: "kvgob \<Rightarrow> (int \<rightharpoonup> lastReply) option" where
  "asDup (GDup m) = Some m"
| "asDup (GStore _) = None"

type_synonym kvId = "int \<times> int"

record KVServer =
  kv_me :: nat
  kv_rf :: "(Op, kvgob) raft"
  kv_dead :: bool
  kv_maxraftstate :: int
  kvStore :: "string \<rightharpoonup> string"
  dupTable :: "int \<rightharpoonup> lastReply"
  notifyChans :: "kvId notifyTable"
  kv_chans :: "applyResult chans"

section \<open>RPC handlers\<close>

definition GetOp :: "GetArgs \<Rightarrow> Op" where
  "GetOp args = \<lparr>op_OpType = ''Get'', op_Key = ga_Key args, op_Value = '''',
     op_ClientId = ga_ClientId args, op_SeqId = ga_SeqId args\<rparr>"

definition PutAppendOp :: "PutAppendArgs \<Rightarrow> Op" where
  "PutAppendOp args = \<lparr>op_OpType = pa_Op args, op_Key = pa_Key args, op_Value = pa_Value args,
     op_ClientId = pa_ClientId args, op_SeqId = pa_SeqId args\<rparr>"

definition GetAnswer :: "Err \<times> string \<Rightarrow> GetReply" where
  "GetAnswer res = \<lparr>gr_Err = fst res, gr_Value = snd res\<rparr>"

definition PutAppendAnswer :: "Err \<times> string \<Rightarrow> PutAppendReply" where
  "PutAppendAnswer res = \<lparr>pr_Err = fst res\<rparr>"

text \<open>
  \<^verbatim>\<open>submitAndWait\<close>: \<^verbatim>\<open>Start\<close> either refuses at once or gives the index to wait at.
\<close>

definition submitStart :: "Op \<Rightarrow> KVServer \<Rightarrow> KVServer \<times> (Err \<times> string + int)" where
  "submitStart op kv =
     (case Start op (kv_rf kv) of (rf', index, _, isLeader) \<Rightarrow>
        if \<not> isLeader then (kv\<lparr>kv_rf := rf'\<rparr>, Inl (ErrWrongLeader, ''''))
        else (kv\<lparr>kv_rf := rf'\<rparr>, Inr index))"

definition wrongLeaderResult :: applyResult where
  "wrongLeaderResult = \<lparr>ar_Err = ErrWrongLeader, ar_Value = '''', ar_ClientId = 0, ar_SeqId = 0\<rparr>"

definition submitRegister :: "Op \<Rightarrow> int \<Rightarrow> nat \<Rightarrow> KVServer \<Rightarrow> KVServer option" where
  "submitRegister op index ch kv =
     (case registerWaiter wrongLeaderResult index (op_ClientId op, op_SeqId op) ch
             (notifyChans kv) (kv_chans kv) of
        None \<Rightarrow> None
      | Some (nt, chs) \<Rightarrow> Some (kv\<lparr>notifyChans := nt, kv_chans := chs\<rparr>))"

definition submitResult :: "Op \<Rightarrow> applyResult option \<Rightarrow> Err \<times> string" where
  "submitResult op received =
     (case received of
        Some result \<Rightarrow>
          (if ar_ClientId result \<noteq> op_ClientId op \<or> ar_SeqId result \<noteq> op_SeqId op
           then (ErrWrongLeader, '''') else (ar_Err result, ar_Value result))
      | None \<Rightarrow> (ErrTimeout, ''''))"

definition submitLeave :: "Op \<Rightarrow> int \<Rightarrow> KVServer \<Rightarrow> KVServer" where
  "submitLeave op index kv =
     kv\<lparr>notifyChans := unregisterWaiter index (op_ClientId op, op_SeqId op) (notifyChans kv)\<rparr>"

section \<open>The state machine\<close>

definition mkResult :: "Err \<Rightarrow> string \<Rightarrow> applyResult" where
  "mkResult e v = \<lparr>ar_Err = e, ar_Value = v, ar_ClientId = 0, ar_SeqId = 0\<rparr>"

definition applyOp :: "Op \<Rightarrow> KVServer \<Rightarrow> KVServer \<times> applyResult" where
  "applyOp op kv =
     (if op_OpType op = ''Get''
      then (case kvStore kv (op_Key op) of
              None \<Rightarrow> (kv, mkResult ErrNoKey '''')
            | Some v \<Rightarrow> (kv, mkResult OK v))
      else if op_OpType op = ''Put''
      then (kv\<lparr>kvStore := (kvStore kv)(op_Key op \<mapsto> op_Value op)\<rparr>, mkResult OK '''')
      else if op_OpType op = ''Append''
      then (kv\<lparr>kvStore := (kvStore kv)(op_Key op \<mapsto>
              (case kvStore kv (op_Key op) of None \<Rightarrow> '''' | Some v \<Rightarrow> v) @ op_Value op)\<rparr>,
            mkResult OK '''')
      else (kv, mkResult ErrNoKey ''''))"

text \<open>The part of \<^verbatim>\<open>applier\<close> that looks the command up in the duplicate table and executes it.\<close>

definition applyCommand :: "Op \<Rightarrow> KVServer \<Rightarrow> KVServer \<times> applyResult" where
  "applyCommand op kv =
     (let execute =
        (case applyOp op kv of (kv1, r) \<Rightarrow>
           let result = \<lparr>ar_Err = ar_Err r, ar_Value = ar_Value r,
                         ar_ClientId = op_ClientId op, ar_SeqId = op_SeqId op\<rparr>
           in (if op_OpType op \<noteq> ''Get''
               then kv1\<lparr>dupTable := (dupTable kv1)(op_ClientId op \<mapsto>
                          \<lparr>lr_SeqId = op_SeqId op, lr_Reply = result\<rparr>)\<rparr>
               else kv1, result))
      in case dupTable kv (op_ClientId op) of
           Some prev \<Rightarrow>
             (if lr_SeqId prev \<ge> op_SeqId op
              then (kv, \<lparr>ar_Err = ar_Err (lr_Reply prev), ar_Value = ar_Value (lr_Reply prev),
                         ar_ClientId = op_ClientId op, ar_SeqId = op_SeqId op\<rparr>)
              else execute)
         | None \<Rightarrow> execute)"

section \<open>Snapshots and the apply loop\<close>

definition encodeSnapshot :: "KVServer \<Rightarrow> kvgob buffer" where
  "encodeSnapshot kv = Encode (Encode [] (GStore (kvStore kv))) (GDup (dupTable kv))"

definition doSnapshot :: "int \<Rightarrow> KVServer \<Rightarrow> KVServer go" where
  "doSnapshot index kv =
     (case Snapshot index (encodeSnapshot kv) (kv_rf kv) of
        Inl p \<Rightarrow> Inl p | Inr rf' \<Rightarrow> Inr (kv\<lparr>kv_rf := rf'\<rparr>))"

definition decodeSnapshot :: "kvgob buffer \<Rightarrow> ((string \<rightharpoonup> string) \<times> (int \<rightharpoonup> lastReply)) option" where
  "decodeSnapshot r =
     (case Decode asStore r of None \<Rightarrow> None | Some (st, r1) \<Rightarrow>
      case Decode asDup r1 of None \<Rightarrow> None | Some (dt, r2) \<Rightarrow> Some (st, dt))"

definition installSnapshot :: "kvgob buffer \<Rightarrow> KVServer \<Rightarrow> KVServer" where
  "installSnapshot data kv =
     (if length data = 0 then kv
      else case decodeSnapshot data of
        None \<Rightarrow> kv
      | Some (st, dt) \<Rightarrow> kv\<lparr>kvStore := st, dupTable := dt\<rparr>)"

text \<open>
  One round of \<^verbatim>\<open>applier\<close>; the second component is the send that happens after the lock is released.
\<close>

definition needSnapshot :: "(Op gobval buffer \<Rightarrow> int) \<Rightarrow> KVServer \<Rightarrow> bool" where
  "needSnapshot bytes kv \<longleftrightarrow> kv_maxraftstate kv \<noteq> -1 \<and>
     RaftStateSize bytes (Persister (kv_rf kv)) \<ge> kv_maxraftstate kv"

definition applierRound ::
    "(Op gobval buffer \<Rightarrow> int) \<Rightarrow> (Op, kvgob) ApplyMsg \<Rightarrow> KVServer \<Rightarrow>
     (KVServer \<times> (nat \<times> applyResult) option) go" where
  "applierRound bytes msg kv =
     (if am_SnapshotValid msg
      then (case CondInstallSnapshot (am_SnapshotTerm msg) (am_SnapshotIndex msg) (am_Snapshot msg)
                   (kv_rf kv) of
              Inl p \<Rightarrow> Inl p
            | Inr (rf', installed) \<Rightarrow>
                Inr (if installed then installSnapshot (am_Snapshot msg) (kv\<lparr>kv_rf := rf'\<rparr>)
                     else kv\<lparr>kv_rf := rf'\<rparr>, None))
      else if \<not> am_CommandValid msg then Inr (kv, None)
      else case am_Command msg of
        None \<Rightarrow> Inr (kv, None)
      | Some op \<Rightarrow>
         (case applyCommand op kv of (kv1, result) \<Rightarrow>
           let notifyCh = notifyTarget (am_CommandIndex msg) (op_ClientId op, op_SeqId op)
                            (notifyChans kv1)
           in case (if needSnapshot bytes kv1 then doSnapshot (am_CommandIndex msg) kv1
                    else Inr kv1) of
                Inl p \<Rightarrow> Inl p
              | Inr kv2 \<Rightarrow> Inr (kv2, map_option (\<lambda>ch. (ch, result)) notifyCh)))"

definition KvKill :: "KVServer \<Rightarrow> KVServer" where
  "KvKill kv = kv\<lparr>kv_dead := True, kv_rf := Kill (kv_rf kv)\<rparr>"

definition KvKilled :: "KVServer \<Rightarrow> bool" where
  "KvKilled kv = kv_dead kv"

definition StartKVServer ::
    "nat \<Rightarrow> nat \<Rightarrow> (Op gobval, kvgob) persister \<Rightarrow> int \<Rightarrow> int \<Rightarrow> KVServer" where
  "StartKVServer n i persister maxraftstate rnd =
     (let kv = \<lparr>kv_me = i, kv_rf = Make n i persister rnd, kv_dead = False,
                kv_maxraftstate = maxraftstate, kvStore = Map.empty, dupTable = Map.empty,
                notifyChans = Map.empty, kv_chans = (\<lambda>_. [])\<rparr>;
          snap = ReadSnapshot persister
      in if length snap > 0 then installSnapshot snap kv else kv)"

section \<open>Exactly-once execution\<close>

abbreviation isWrite :: "Op \<Rightarrow> bool" where
  "isWrite op \<equiv> op_OpType op \<noteq> ''Get''"

definition valueOf :: "(string \<rightharpoonup> string) \<Rightarrow> string \<Rightarrow> string" where
  "valueOf st k = (case st k of None \<Rightarrow> '''' | Some v \<Rightarrow> v)"

text \<open>The effect of a write on the store alone, without server and table.\<close>

definition kvExec :: "Op \<Rightarrow> (string \<rightharpoonup> string) \<Rightarrow> string \<rightharpoonup> string" where
  "kvExec op st =
     (if op_OpType op = ''Put'' then st(op_Key op \<mapsto> op_Value op)
      else if op_OpType op = ''Append'' then st(op_Key op \<mapsto> valueOf st (op_Key op) @ op_Value op)
      else st)"

definition kvSeq :: "KVServer \<Rightarrow> int \<rightharpoonup> int" where
  "kvSeq kv c = map_option lr_SeqId (dupTable kv c)"

abbreviation kvApply :: "Op \<Rightarrow> KVServer \<Rightarrow> (KVServer \<times> applyResult) option" where
  "kvApply op kv \<equiv> Some (applyCommand op kv)"

lemma kvStore_applyOp [simp]: "kvStore (fst (applyOp op kv)) = kvExec op (kvStore kv)"
  by (auto simp: applyOp_def kvExec_def valueOf_def split: option.split)

lemma dupTable_applyOp [simp]: "dupTable (fst (applyOp op kv)) = dupTable kv"
  and kv_rf_applyOp [simp]: "kv_rf (fst (applyOp op kv)) = kv_rf kv"
  by (auto simp: applyOp_def split: option.split)

lemma applyCommand_stale:
  "\<not> newer (kvSeq kv) (op_ClientId op) (op_SeqId op) \<Longrightarrow> fst (applyCommand op kv) = kv"
  by (auto simp: applyCommand_def Let_def newer_def kvSeq_def split: option.splits)

lemma applyCommand_fresh:
  "newer (kvSeq kv) (op_ClientId op) (op_SeqId op) \<Longrightarrow>
   applyCommand op kv =
     (let result = (snd (applyOp op kv))\<lparr>ar_ClientId := op_ClientId op, ar_SeqId := op_SeqId op\<rparr>
      in (if isWrite op
          then (fst (applyOp op kv))\<lparr>dupTable := (dupTable kv)(op_ClientId op \<mapsto>
                 \<lparr>lr_SeqId = op_SeqId op, lr_Reply = result\<rparr>)\<rparr>
          else fst (applyOp op kv), result))"
  by (cases "dupTable kv (op_ClientId op)"; cases "snd (applyOp op kv)")
    (auto simp: applyCommand_def Let_def newer_def kvSeq_def split_beta)

lemma kvSeq_applyCommand:
  "kvSeq (fst (applyCommand op kv)) =
     (if isWrite op \<and> newer (kvSeq kv) (op_ClientId op) (op_SeqId op)
      then (kvSeq kv)(op_ClientId op \<mapsto> op_SeqId op) else kvSeq kv)"
  by (cases "newer (kvSeq kv) (op_ClientId op) (op_SeqId op)")
    (auto simp: applyCommand_stale applyCommand_fresh Let_def kvSeq_def fun_eq_iff)

interpretation kv_dup: dup_machine kvApply kvSeq op_ClientId op_SeqId isWrite kvStore kvExec
proof
  fix op kv kv' r i n
  assume "kvApply op kv = Some (kv', r)" "kvSeq kv i = Some n"
  then show "\<exists>m. kvSeq kv' i = Some m \<and> n \<le> m"
    using kvSeq_applyCommand [of op kv]
    by (cases "i = op_ClientId op") (auto simp: newer_def split: if_splits)
next
  fix op kv kv' r
  assume "kvApply op kv = Some (kv', r)" "\<not> newer (kvSeq kv) (op_ClientId op) (op_SeqId op)"
  then show "kv' = kv" using applyCommand_stale [of kv op] by simp
next
  fix op kv kv' r
  assume "kvApply op kv = Some (kv', r)" "isWrite op" "newer (kvSeq kv) (op_ClientId op) (op_SeqId op)"
  then show "kvStore kv' = kvExec op (kvStore kv) \<and> kvSeq kv' = (kvSeq kv)(op_ClientId op \<mapsto> op_SeqId op)"
    using kvSeq_applyCommand [of op kv] by (auto simp: applyCommand_fresh Let_def)
next
  fix op kv kv' r
  assume "kvApply op kv = Some (kv', r)" "\<not> isWrite op"
  then show "kvStore kv' = kvStore kv \<and> kvSeq kv' = kvSeq kv"
    using kvSeq_applyCommand [of op kv] applyCommand_stale [of kv op] applyCommand_fresh [of kv op]
    by (cases "newer (kvSeq kv) (op_ClientId op) (op_SeqId op)") (auto simp: Let_def kvExec_def)
qed

definition exPut :: Op where
  "exPut = \<lparr>op_OpType = ''Put'', op_Key = ''x'', op_Value = ''a'', op_ClientId = 1, op_SeqId = 1\<rparr>"

definition exAppend :: Op where
  "exAppend = \<lparr>op_OpType = ''Append'', op_Key = ''x'', op_Value = ''b'', op_ClientId = 1, op_SeqId = 2\<rparr>"

text \<open>
  A retransmitted write gets the reply of its execution, as long as no newer command of the same
  client has been applied in between.
\<close>

lemma kv_retransmission_same_reply:
  assumes "isWrite op" "newer (kvSeq kv) (op_ClientId op) (op_SeqId op)"
    and "applyCommand op kv = (kv1, r)"
    and "runOps kvApply ops kv1 = Some (kv2, rs)"
    and "\<forall>op' \<in> set ops. op_ClientId op' = op_ClientId op \<longrightarrow> op_SeqId op' \<le> op_SeqId op"
  shows "applyCommand op kv2 = (kv2, r)"
proof -
  let ?entry = "Some \<lparr>lr_SeqId = op_SeqId op, lr_Reply = r\<rparr>"
  have keep: "dupTable (fst (applyCommand op' z)) (op_ClientId op) = ?entry"
    if "dupTable z (op_ClientId op) = ?entry"
      "op_ClientId op' = op_ClientId op \<longrightarrow> op_SeqId op' \<le> op_SeqId op" for op' z
  proof (cases "newer (kvSeq z) (op_ClientId op') (op_SeqId op')")
    case True
    then have "op_ClientId op' \<noteq> op_ClientId op"
      using that by (auto simp: newer_def kvSeq_def)
    with that True show ?thesis by (simp add: applyCommand_fresh Let_def)
  qed (simp add: applyCommand_stale that)
  have "dupTable kv1 (op_ClientId op) = ?entry"
    using assms(1-3) by (auto simp: applyCommand_fresh Let_def)
  then have "dupTable kv2 (op_ClientId op) = ?entry"
    using assms(4,5)
  proof (induction ops arbitrary: kv1 rs)
    case (Cons o1 ops)
    obtain z1 r1 where "applyCommand o1 kv1 = (z1, r1)" by (cases "applyCommand o1 kv1")
    with Cons keep [of kv1 o1] show ?case by (auto split: option.splits)
  qed simp
  moreover have "ar_ClientId r = op_ClientId op" "ar_SeqId r = op_SeqId op"
    using assms(2,3) by (auto simp: applyCommand_fresh Let_def)
  ultimately show ?thesis by (simp add: applyCommand_def Let_def)
qed

section \<open>The executed commands are a legal history of the sequential model\<close>

text \<open>
  An executed command as an operation of \<^verbatim>\<open>models/kv.go\<close>, with the value the clerk returns for it.
\<close>

definition kvInput :: "Op \<Rightarrow> KvInput" where
  "kvInput op = \<lparr>ki_Op = (if op_OpType op = ''Get'' then 0 else if op_OpType op = ''Put'' then 1 else 2),
     ki_Key = op_Key op, ki_Value = op_Value op\<rparr>"

definition kvOutput :: "applyResult \<Rightarrow> KvOutput" where
  "kvOutput r = \<lparr>ko_Value = (if ar_Err r = OK then ar_Value r else '''')\<rparr>"

definition kvOperationOf :: "Op \<Rightarrow> applyResult \<Rightarrow> kvOperation" where
  "kvOperationOf op r = \<lparr>o_ClientId = op_ClientId op, o_Input = kvInput op, o_Call = 0,
     o_Output = kvOutput r, o_Return = 0\<rparr>"

fun executedHistory :: "Op list \<Rightarrow> KVServer \<Rightarrow> kvOperation list" where
  "executedHistory [] kv = []"
| "executedHistory (op # ops) kv =
     (case applyCommand op kv of (kv1, r) \<Rightarrow>
        (if newer (kvSeq kv) (op_ClientId op) (op_SeqId op) then [kvOperationOf op r] else []) @
        executedHistory ops kv1)"

definition validOp :: "Op \<Rightarrow> bool" where
  "validOp op \<longleftrightarrow> op_OpType op \<in> {''Get'', ''Put'', ''Append''}"

lemma applyCommand_refines_KvStep:
  assumes "validOp op" "newer (kvSeq kv) (op_ClientId op) (op_SeqId op)" "applyCommand op kv = (kv1, r)"
  shows "KvStep (valueOf (kvStore kv) (op_Key op)) (kvInput op) (kvOutput r) =
      (True, valueOf (kvStore kv1) (op_Key op))"
    "valueOf (kvStore kv1) = (valueOf (kvStore kv))(op_Key op := valueOf (kvStore kv1) (op_Key op))"
  using assms
  by (auto simp: validOp_def applyCommand_fresh Let_def applyOp_def KvStep_def kvInput_def kvOutput_def
      mkResult_def valueOf_def fun_eq_iff split: option.splits if_splits)

lemma executedHistory_storeLegal:
  "\<forall>op \<in> set ops. validOp op \<Longrightarrow> storeLegalFrom (valueOf (kvStore kv)) (executedHistory ops kv)"
proof (induction ops arbitrary: kv)
  case (Cons op ops)
  obtain kv1 r where r: "applyCommand op kv = (kv1, r)" by (cases "applyCommand op kv")
  show ?case
  proof (cases "newer (kvSeq kv) (op_ClientId op) (op_SeqId op)")
    case True
    have "validOp op" using Cons.prems by simp
    note step = applyCommand_refines_KvStep [OF this True r]
    have key: "opKey (kvOperationOf op r) = op_Key op" by (simp add: kvOperationOf_def kvInput_def)
    show ?thesis
      using Cons.IH [of kv1] Cons.prems r True step key
      by (simp add: kvOperationOf_def del: fun_upd_apply)
  next
    case False
    then have "kv1 = kv" using applyCommand_stale [OF False] r by simp
    with Cons False r show ?thesis by simp
  qed
qed simp

text \<open>
  C15. Whatever log of get, put and append commands a fresh server applies, retransmissions included,
  the commands it executes and the values it answers form a legal history of the model that the
  linearizability checker uses: every partition by key is accepted step by step.
\<close>

theorem kv_refines_model:
  assumes "\<forall>op \<in> set ops. validOp op"
  shows "kvLegal (executedHistory ops (StartKVServer n i MakePersister maxraftstate rnd))"
proof -
  have "valueOf (kvStore (StartKVServer n i MakePersister maxraftstate rnd)) = (\<lambda>_. KvInit)"
    by (auto simp: StartKVServer_def Let_def persister_defs valueOf_def KvInit_def)
  with executedHistory_storeLegal [OF assms, of "StartKVServer n i MakePersister maxraftstate rnd"]
  show ?thesis by (simp add: kvLegal_store)
qed

theorem kv_refines_model_witness:
  "kvLegal (executedHistory [exPut, exAppend, exPut] (StartKVServer 3 0 MakePersister (-1) 0)) \<and>
   length (executedHistory [exPut, exAppend, exPut] (StartKVServer 3 0 MakePersister (-1) 0)) = 2"
  using kv_refines_model [of "[exPut, exAppend, exPut]" 3 0 "-1" 0]
  by (simp add: validOp_def exPut_def exAppend_def applyCommand_def applyOp_def newer_def kvSeq_def
      StartKVServer_def Let_def persister_defs mkResult_def)

section \<open>Snapshots\<close>

interpretation kv_codec: codec encodeSnapshot decodeSnapshot "\<lambda>kv. (kvStore kv, dupTable kv)"
  by unfold_locales (simp_all add: encodeSnapshot_def decodeSnapshot_def Encode_def Decode_def)

lemma installSnapshot_encoded:
  "installSnapshot (encodeSnapshot kv) kv0 = kv0\<lparr>kvStore := kvStore kv, dupTable := dupTable kv\<rparr>"
  using kv_codec.enc_nonempty [of kv] by (simp add: installSnapshot_def kv_codec.dec_enc)

lemma StartKVServer_saved:
  assumes "snapshot ps = encodeSnapshot kv"
  shows "kvStore (StartKVServer n i ps m rnd) = kvStore kv"
    "dupTable (StartKVServer n i ps m rnd) = dupTable kv"
    "kv_rf (StartKVServer n i ps m rnd) = Make n i ps rnd"
  using assms kv_codec.enc_nonempty [of kv]
  by (simp_all add: StartKVServer_def Let_def ReadSnapshot_def installSnapshot_encoded)

text \<open>
  C31. A server that takes a snapshot at an index of its log, crashes and restarts from its persister
  has the store and the duplicate table of that moment, and its Raft instance resumes applying
  right after that index with the same remaining log.
\<close>

theorem kv_restart_from_snapshot:
  assumes "lastIncludedIndex (kv_rf kv) < index" "index \<le> lastLogIndex (kv_rf kv)"
  shows "\<exists>kv'. doSnapshot index kv = Inr kv' \<and>
    (let kv2 = StartKVServer n i (Copy (Persister (kv_rf kv'))) maxraftstate rnd in
       kvStore kv2 = kvStore kv \<and> dupTable kv2 = dupTable kv \<and>
       lastApplied (kv_rf kv2) = index \<and> lastLogIndex (kv_rf kv2) = lastLogIndex (kv_rf kv) \<and>
       currentTerm (kv_rf kv2) = currentTerm (kv_rf kv) \<and>
       log (kv_rf kv2) = drop (nat (index - lastIncludedIndex (kv_rf kv))) (log (kv_rf kv)))"
proof -
  let ?rf = "kv_rf kv"
  let ?rf' = "saveWithSnapshot (encodeSnapshot kv)
    (?rf\<lparr>lastIncludedTerm := termAt ?rf index,
         log := drop (nat (index - lastIncludedIndex ?rf)) (log ?rf), lastIncludedIndex := index\<rparr>)"
  have snap: "Snapshot index (encodeSnapshot kv) ?rf = Inr ?rf'"
    using assms by (simp add: Snapshot_result)
  let ?ps = "Persister ?rf'"
  have "snapshot ?ps = encodeSnapshot kv"
    by (simp add: saveWithSnapshot_def SaveStateAndSnapshot_def)
  note start = StartKVServer_saved [OF this, of n i maxraftstate rnd]
  have "raftstate ?ps = encodeState ?rf'"
    by (simp add: saveWithSnapshot_def SaveStateAndSnapshot_def encodeState_def)
  note Make_recovers [OF this, of n i rnd]
  then have "lastApplied (Make n i ?ps rnd) = index" "currentTerm (Make n i ?ps rnd) = currentTerm ?rf"
    "log (Make n i ?ps rnd) = drop (nat (index - lastIncludedIndex ?rf)) (log ?rf)"
    "lastIncludedIndex (Make n i ?ps rnd) = index"
    by (simp_all add: persistentState_def saveWithSnapshot_def)
  moreover have "index + int (length (log ?rf) - nat (index - lastIncludedIndex ?rf)) = lastLogIndex ?rf"
    using assms by (simp add: lastLogIndex_def of_nat_diff)
  ultimately show ?thesis
    using snap start by (simp add: doSnapshot_def Let_def lastLogIndex_def)
qed

definition exKvServer :: KVServer where
  "exKvServer = (StartKVServer 3 0 MakePersister (-1) 0)
     \<lparr>kv_rf := (Make 3 0 MakePersister 0)\<lparr>log := [\<lparr>Term = 1, Command = exPut\<rparr>, \<lparr>Term = 1, Command = exAppend\<rparr>],
        currentTerm := 1\<rparr>, kvStore := [''x'' \<mapsto> ''a'']\<rparr>"

lemma exKvServer_indices:
  "lastIncludedIndex (kv_rf exKvServer) = 0" "lastLogIndex (kv_rf exKvServer) = 2"
  "kvStore exKvServer ''x'' = Some ''a''"
  by (simp_all add: exKvServer_def lastLogIndex_def Make_def Let_def readPersist_def persister_defs)

theorem kv_restart_from_snapshot_witness:
  "\<exists>kv'. doSnapshot 1 exKvServer = Inr kv' \<and>
     kvStore (StartKVServer 3 0 (Copy (Persister (kv_rf kv'))) (-1) 0) ''x'' = Some ''a'' \<and>
     lastApplied (kv_rf (StartKVServer 3 0 (Copy (Persister (kv_rf kv'))) (-1) 0)) = 1"
  using kv_restart_from_snapshot [of exKvServer 1 3 0 "-1" 0]
  by (auto simp: exKvServer_indices Let_def)

text \<open>
  A snapshot that reaches a server is installed exactly when it is ahead of the commit index: then
  the server takes over store and duplicate table of the server that made it and its Raft
  instance continues after the snapshot; otherwise nothing of the service state changes.
\<close>

lemma kv_snapshot_message:
  assumes "am_SnapshotValid msg" "am_Snapshot msg = encodeSnapshot origin"
    and "lastIncludedIndex (kv_rf kv) \<le> commitIndex (kv_rf kv)"
  shows "\<exists>kv'. applierRound bytes msg kv = Inr (kv', None) \<and>
    (if commitIndex (kv_rf kv) < am_SnapshotIndex msg
     then kvStore kv' = kvStore origin \<and> dupTable kv' = dupTable origin \<and>
          lastApplied (kv_rf kv') = am_SnapshotIndex msg \<and>
          lastIncludedIndex (kv_rf kv') = am_SnapshotIndex msg
     else kv' = kv)"
proof (cases "commitIndex (kv_rf kv) < am_SnapshotIndex msg")
  case True
  let ?rf = "kv_rf kv" and ?i = "am_SnapshotIndex msg"
  obtain lg where lg: "(if ?i \<le> lastLogIndex ?rf then go_from (log ?rf) (toSliceIndex ?rf ?i + 1)
      else Inr []) = Inr lg"
    using True assms(3) by (fastforce simp: lastLogIndex_def toSliceIndex_def)
  have "CondInstallSnapshot t ?i snap ?rf = Inr (saveWithSnapshot snap (?rf\<lparr>log := lg,
      lastIncludedIndex := ?i, lastIncludedTerm := t, commitIndex := ?i, lastApplied := ?i\<rparr>), True)" for t snap
    using True by (simp only: CondInstallSnapshot_def lg) simp
  then show ?thesis
    using True assms by (simp add: applierRound_def installSnapshot_encoded saveWithSnapshot_def)
next
  case False
  then show ?thesis using assms by (simp add: applierRound_def CondInstallSnapshot_def)
qed

end
