(* ===== verification/Clerk_Retry.thy ===== *)
theory Clerk_Retry
  imports Go_Prelude
begin

text \<open>
  The retry loop that the clerks of \<^verbatim>\<open>kvraft\<close> and \<^verbatim>\<open>shardctrler\<close> share: call the server that was last
  the leader; return, stay with it, or go on to the next one, depending on the reply. What each RPC
  makes of a reply is a classification function of its own theory; the locale states what the
  classifications have in common. The servers are a parameter: \<^verbatim>\<open>call k s\<close> is the reply of server \<^verbatim>\<open>s\<close> to
  the \<^verbatim>\<open>k\<close>-th attempt, \<^term>\<open>None\<close> when the RPC fails. The loop may run for ever, so it is bounded by the
  number of attempts and returns \<^term>\<open>None\<close> when they are used up.
\<close>

datatype 'r outcome = Done 'r | Stay | Next

fun retryLoop ::
    "nat \<Rightarrow> ('rep option \<Rightarrow> 'r outcome) \<Rightarrow> (nat \<Rightarrow> nat \<Rightarrow> 'rep option) \<Rightarrow> nat \<Rightarrow> nat \<Rightarrow> nat \<Rightarrow>
     (nat \<times> 'r) option" where
  "retryLoop 0 classify call n k leader = None"
| "retryLoop (Suc fuel) classify call n k leader =
     (case classify (call k leader) of
        Done r \<Rightarrow> Some (leader, r)
      | Stay \<Rightarrow> retryLoop fuel classify call n (Suc k) leader
      | Next \<Rightarrow> retryLoop fuel classify call n (Suc k) ((leader + 1) mod n))"

lemma retryLoop_mono:
  "retryLoop fuel classify call n k leader = Some res \<Longrightarrow> fuel \<le> fuel' \<Longrightarrow>
   retryLoop fuel' classify call n k leader = Some res"
proof (induction fuel arbitrary: fuel' k leader)
  case (Suc fuel)
  then show ?case by (cases fuel') (auto split: outcome.splits)
qed simp

text \<open>A result is always the classification of a reply that some server really gave.\<close>

lemma retryLoop_result:
  "retryLoop fuel classify call n k leader = Some (s, r) \<Longrightarrow>
   \<exists>j. k \<le> j \<and> j < k + fuel \<and> classify (call j s) = Done r"
proof (induction fuel arbitrary: k leader)
  case (Suc fuel)
  show ?case
  proof (cases "classify (call k leader)")
    case (Done r')
    with Suc.prems show ?thesis by auto
  next
    case Stay
    with Suc obtain j where "Suc k \<le> j" "j < Suc k + fuel" "classify (call j s) = Done r" by fastforce
    then show ?thesis by (intro exI [of _ j]) auto
  next
    case Next
    with Suc obtain j where "Suc k \<le> j" "j < Suc k + fuel" "classify (call j s) = Done r" by fastforce
    then show ?thesis by (intro exI [of _ j]) auto
  qed
qed simp

text \<open>How far the leader is from the server that is called next.\<close>

definition ahead :: "nat \<Rightarrow> nat \<Rightarrow> nat \<Rightarrow> nat" where
  "ahead n s L = (if s \<le> L then L - s else L + n - s)"

lemma ahead_less: "s < n \<Longrightarrow> L < n \<Longrightarrow> ahead n s L < n"
  unfolding ahead_def by (cases "s \<le> L") auto

lemma ahead_0: "s < n \<Longrightarrow> ahead n s L = 0 \<longleftrightarrow> s = L"
  by (auto simp: ahead_def)

lemma ahead_Suc:
  assumes "s < n" "L < n" "s \<noteq> L"
  shows "Suc (ahead n ((s + 1) mod n) L) = ahead n s L"
proof (cases "s + 1 = n")
  case False
  then have "(s + 1) mod n = s + 1" using assms by simp
  with assms False show ?thesis unfolding ahead_def by (cases "s \<le> L") auto
qed (use assms in \<open>auto simp: ahead_def\<close>)

locale retry_policy =
  fixes classify :: "'rep option \<Rightarrow> 'r outcome" and refuses :: "'rep \<Rightarrow> bool"
  assumes lost: "classify None = Next"
    and refused: "refuses rep \<Longrightarrow> classify (Some rep) = Next"
begin

lemma finds_leader:
  assumes "s < n" "L < n"
    and others: "\<And>j p rep. p < n \<Longrightarrow> p \<noteq> L \<Longrightarrow> call j p = Some rep \<Longrightarrow> refuses rep"
    and leader: "\<And>j. \<exists>r. classify (call j L) = Done r"
  shows "\<exists>r. retryLoop (Suc (ahead n s L)) classify call n k s = Some (L, r)"
  using assms(1)
proof (induction "ahead n s L" arbitrary: s k)
  case (0 s)
  then have s: "s = L" using ahead_0 by simp
  obtain r where "classify (call k L) = Done r" using leader by blast
  with s show ?case by simp
next
  case (Suc d s)
  then have neq: "s \<noteq> L" using ahead_0 by fastforce
  then have "classify (call k s) = Next"
    using lost refused others [OF Suc.prems] by (cases "call k s") auto
  moreover have d: "d = ahead n ((s + 1) mod n) L"
    using ahead_Suc [OF Suc.prems assms(2) neq] Suc.hyps(2) by simp
  moreover have "(s + 1) mod n < n" using assms(2) by simp
  ultimately obtain r where "retryLoop (Suc d) classify call n (Suc k) ((s + 1) mod n) = Some (L, r)"
    using Suc.hyps(1) [of "(s + 1) mod n" "Suc k"] by blast
  then have "retryLoop (Suc (Suc d)) classify call n k s = Some (L, r)"
    using \<open>classify (call k s) = Next\<close> by (simp only: retryLoop.simps(2) [of "Suc d"] outcome.simps)
  then show ?case using Suc.hyps(2) by auto
qed

lemma finds_leader_within:
  assumes "s < n" "L < n"
    and "\<And>j p rep. p < n \<Longrightarrow> p \<noteq> L \<Longrightarrow> call j p = Some rep \<Longrightarrow> refuses rep"
    and "\<And>j. \<exists>r. classify (call j L) = Done r"
  shows "\<exists>r. retryLoop n classify call n k s = Some (L, r)"
proof -
  obtain r where "retryLoop (Suc (ahead n s L)) classify call n k s = Some (L, r)"
    using finds_leader [of s n L call k] assms by blast
  moreover have "Suc (ahead n s L) \<le> n" using ahead_less [OF assms(1,2)] by simp
  ultimately show ?thesis by (blast intro: retryLoop_mono)
qed

end

end
