(* ===== verification/ClientId.thy ===== *)
theory ClientId
  imports Go_Prelude "HOL-Library.Word"
begin

text \<open>
  The client identifiers of the three clerks (\<^verbatim>\<open>genClientId\<close> in \<^verbatim>\<open>kvraft/client.go\<close>, repeated in
  \<^verbatim>\<open>shardctrler/client.go\<close> and \<^verbatim>\<open>shardkv/client.go\<close>): 64 bits, a Unix second in the upper half, 22 random bits
  and a counter of 10 bits that wraps. The clock and \<^verbatim>\<open>randBits(22)\<close> are arguments.
\<close>

unbundle bit_operations_syntax

record idgen =
  clientIdLastSec :: "64 word"
  clientIdRand :: "64 word"
  clientIdCounter :: "64 word"

definition idgen0 :: idgen where
  "idgen0 = \<lparr>clientIdLastSec = 0, clientIdRand = 0, clientIdCounter = 0\<rparr>"

definition packId :: "64 word \<Rightarrow> 64 word \<Rightarrow> 64 word \<Rightarrow> 64 word" where
  "packId now rnd counter = push_bit 32 now OR push_bit 10 rnd OR counter"

definition genClientId :: "64 word \<Rightarrow> 64 word \<Rightarrow> idgen \<Rightarrow> idgen \<times> 64 word" where
  "genClientId now rnd g =
     (let g1 = (if now \<noteq> clientIdLastSec g
                then g\<lparr>clientIdLastSec := now, clientIdRand := rnd, clientIdCounter := 0\<rparr>
                else g\<lparr>clientIdCounter := (clientIdCounter g + 1) AND 0x3FF\<rparr>)
      in (g1, packId now (clientIdRand g1) (clientIdCounter g1)))"

fun genClientIds :: "(64 word \<times> 64 word) list \<Rightarrow> idgen \<Rightarrow> 64 word list" where
  "genClientIds [] g = []"
| "genClientIds ((now, rnd) # calls) g =
     (case genClientId now rnd g of (g1, cid) \<Rightarrow> cid # genClientIds calls g1)"

section \<open>The layout of an identifier\<close>

lemma bit_below: "w < 2 ^ n \<Longrightarrow> bit (w :: 64 word) k \<Longrightarrow> k < n"
  by (metis less_mask_eq bit_and_iff bit_mask_iff)

lemma packId_second:
  assumes "now < 2 ^ 32" "rnd < 2 ^ 22" "counter < 2 ^ 10"
  shows "drop_bit 32 (packId now rnd counter) = now"
  by (rule bit_word_eqI)
    (auto simp: packId_def bit_simps dest: bit_below [OF assms(1)] bit_below [OF assms(2)]
      bit_below [OF assms(3)])

lemma mask_10: "0x3FF = (mask 10 :: 64 word)"
  by (simp add: mask_eq_exp_minus_1)

lemma packId_counter:
  assumes "counter < 2 ^ 10"
  shows "packId now rnd counter AND 0x3FF = counter"
  unfolding mask_10
  by (rule bit_word_eqI) (auto simp: packId_def bit_simps dest: bit_below [OF assms])

lemma next_counter:
  assumes "unat c < 1023"
  shows "unat ((c + 1) AND 0x3FF :: 64 word) = Suc (unat c)"
proof -
  have 1: "unat (c + 1) = Suc (unat c)"
    using assms by (simp add: unat_word_ariths unat_of_nat)
  then have "c + 1 < 2 ^ 10"
    using assms by (simp add: word_less_nat_alt)
  then show ?thesis unfolding mask_10 using 1 by (simp add: less_mask_eq)
qed

section \<open>Distinct clerks\<close>

text \<open>The second and the counter that an identifier carries, and the order of generation.\<close>

definition idAfter :: "64 word \<Rightarrow> 64 word \<Rightarrow> 64 word \<Rightarrow> bool" where
  "idAfter t c x \<longleftrightarrow> t < drop_bit 32 x \<or> (t = drop_bit 32 x \<and> c < x AND 0x3FF)"

lemma genClientIds_increasing:
  assumes "sorted (map fst calls)" "\<forall>x \<in> set calls. clientIdLastSec g \<le> fst x"
    and "\<forall>x \<in> set calls. fst x < 2 ^ 32 \<and> snd x < 2 ^ 22"
    and "clientIdRand g < 2 ^ 22"
    and "unat (clientIdCounter g) + count_list (map fst calls) (clientIdLastSec g) < 1024"
    and "\<forall>t. t \<noteq> clientIdLastSec g \<longrightarrow> count_list (map fst calls) t \<le> 1024"
  shows "distinct (genClientIds calls g) \<and>
    (\<forall>x \<in> set (genClientIds calls g). idAfter (clientIdLastSec g) (clientIdCounter g) x)"
  using assms
proof (induction calls arbitrary: g)
  case (Cons call calls)
  obtain now rnd where call: "call = (now, rnd)" by (cases call)
  obtain g1 x where g1: "genClientId now rnd g = (g1, x)" by (cases "genClientId now rnd g")
  have state: "clientIdLastSec g1 = now" "clientIdRand g1 < 2 ^ 22"
    "x = packId now (clientIdRand g1) (clientIdCounter g1)"
    using g1 Cons.prems(3,4) call by (auto simp: genClientId_def Let_def split: if_splits)
  have le: "clientIdLastSec g \<le> now" using Cons.prems(2) call by simp
  have step: "idAfter (clientIdLastSec g) (clientIdCounter g) y" if "idAfter now (clientIdCounter g1) y" for y
  proof (cases "now = clientIdLastSec g")
    case True
    then have "unat (clientIdCounter g) < 1023" using Cons.prems(5) call by simp
    then have "clientIdCounter g < clientIdCounter g1"
      using g1 True next_counter by (auto simp: genClientId_def word_less_nat_alt)
    with that True show ?thesis by (auto simp: idAfter_def)
  qed (use that le in \<open>auto simp: idAfter_def\<close>)
  have cnt: "unat (clientIdCounter g1) + count_list (map fst calls) now < 1024"
  proof (cases "now = clientIdLastSec g")
    case True
    then have "unat (clientIdCounter g) < 1023" using Cons.prems(5) call by simp
    then show ?thesis using Cons.prems(5) g1 True call next_counter by (auto simp: genClientId_def)
  next
    case False
    then have "count_list (map fst (call # calls)) now \<le> 1024" using Cons.prems(6) by blast
    then show ?thesis using g1 False call by (auto simp: genClientId_def Let_def)
  qed
  have "count_list (map fst calls) t \<le> 1024" if "t \<noteq> now" for t
  proof -
    have "count_list (map fst (call # calls)) t = count_list (map fst calls) t"
      using call that by simp
    then show ?thesis using Cons.prems(5,6) by (cases "t = clientIdLastSec g") (auto simp del: list.map)
  qed
  then have IH: "distinct (genClientIds calls g1) \<and>
      (\<forall>y \<in> set (genClientIds calls g1). idAfter now (clientIdCounter g1) y)"
    using Cons.IH [of g1] Cons.prems(1,3) state cnt call by simp
  have c1: "clientIdCounter g1 < 2 ^ 10" using cnt by (simp add: word_less_nat_alt)
  have "now < 2 ^ 32" using Cons.prems(3) call by simp
  then have x: "drop_bit 32 x = now" "x AND 0x3FF = clientIdCounter g1"
    using packId_second [OF _ state(2) c1] packId_counter [OF c1] state(3) by auto
  have new: "idAfter (clientIdLastSec g) (clientIdCounter g) x"
  proof (cases "now = clientIdLastSec g")
    case True
    then have "unat (clientIdCounter g) < 1023" using Cons.prems(5) call by simp
    then have "clientIdCounter g < clientIdCounter g1"
      using g1 True next_counter by (auto simp: genClientId_def word_less_nat_alt)
    with x True show ?thesis by (simp add: idAfter_def)
  qed (use x le in \<open>auto simp: idAfter_def\<close>)
  have "x \<notin> set (genClientIds calls g1)" using IH x by (auto simp: idAfter_def)
  then show ?case using IH new step call g1 by auto
qed simp

text \<open>
  C39. Clerks created in one process get pairwise distinct identifiers, as long as the clock does not
  go back, shows a time below 2 to the 32, and at most 1024 of them are created in any one second.
\<close>

theorem client_ids_distinct:
  assumes "sorted (map fst calls)"
    and "\<forall>x \<in> set calls. 0 < fst x \<and> fst x < 2 ^ 32 \<and> snd x < 2 ^ 22"
    and "\<forall>t. count_list (map fst calls) t \<le> 1024"
  shows "distinct (genClientIds calls idgen0)"
proof -
  have "count_list (map fst calls) 0 = 0"
    using assms(2) by (auto simp: count_list_0_iff)
  then show ?thesis
    using genClientIds_increasing [of calls idgen0] assms by (simp add: idgen0_def word_less_nat_alt)
qed

theorem client_ids_distinct_witness:
  "distinct (genClientIds [(1700000000, 5), (1700000000, 9), (1700000001, 5)] idgen0)"
  by (rule client_ids_distinct) simp_all

end
