(* ===== verification/KvClerk.thy ===== *)
theory KvClerk
  imports KvRaft Clerk_Retry ClientId
begin

text \<open>
  \<^verbatim>\<open>kvraft/client.go\<close>: the clerk. \<^verbatim>\<open>call k s args\<close> stands for the \<^verbatim>\<open>k\<close>-th RPC of a loop, to server \<^verbatim>\<open>s\<close>.
\<close>

record Clerk =
  servers :: nat
  clientId :: int
  seqId :: int
  leaderId :: nat

definition MakeClerk :: "nat \<Rightarrow> 64 word \<Rightarrow> 64 word \<Rightarrow> idgen \<Rightarrow> idgen \<times> Clerk" where
  "MakeClerk n now rnd g =
     (case genClientId now rnd g of (g1, cid) \<Rightarrow>
        (g1, \<lparr>servers = n, clientId = sint cid, seqId = 0, leaderId = 0\<rparr>))"

definition nextSeq :: "Clerk \<Rightarrow> Clerk \<times> int" where
  "nextSeq ck = (ck\<lparr>seqId := seqId ck + 1\<rparr>, seqId ck + 1)"

text \<open>The \<^verbatim>\<open>switch\<close> of \<^verbatim>\<open>Get\<close>; a failed call rotates.\<close>

definition getOutcome :: "GetReply option \<Rightarrow> string outcome" where
  "getOutcome answer =
     (case answer of None \<Rightarrow> Next
      | Some reply \<Rightarrow>
         (case gr_Err reply of
            OK \<Rightarrow> Done (gr_Value reply)
          | ErrNoKey \<Rightarrow> Done ''''
          | ErrWrongLeader \<Rightarrow> Next
          | ErrTimeout \<Rightarrow> Stay))"

text \<open>The \<^verbatim>\<open>switch\<close> of \<^verbatim>\<open>PutAppend\<close> has no case for \<^verbatim>\<open>ErrNoKey\<close>: the loop goes on with the same server.\<close>

definition putAppendOutcome :: "PutAppendReply option \<Rightarrow> unit outcome" where
  "putAppendOutcome answer =
     (case answer of None \<Rightarrow> Next
      | Some reply \<Rightarrow>
         (case pr_Err reply of
            OK \<Rightarrow> Done ()
          | ErrNoKey \<Rightarrow> Stay
          | ErrWrongLeader \<Rightarrow> Next
          | ErrTimeout \<Rightarrow> Stay))"

definition ClerkGet ::
    "nat \<Rightarrow> (nat \<Rightarrow> nat \<Rightarrow> GetArgs \<Rightarrow> GetReply option) \<Rightarrow> string \<Rightarrow> Clerk \<Rightarrow> (Clerk \<times> string) option" where
  "ClerkGet fuel call key ck =
     (case nextSeq ck of (ck1, seq) \<Rightarrow>
        let args = \<lparr>ga_Key = key, ga_ClientId = clientId ck1, ga_SeqId = seq\<rparr>
        in map_option (\<lambda>(s, v). (ck1\<lparr>leaderId := s\<rparr>, v))
             (retryLoop fuel getOutcome (\<lambda>k s. call k s args) (servers ck1) 0 (leaderId ck1)))"

definition ClerkPutAppend ::
    "nat \<Rightarrow> (nat \<Rightarrow> nat \<Rightarrow> PutAppendArgs \<Rightarrow> PutAppendReply option) \<Rightarrow> string \<Rightarrow> string \<Rightarrow> string \<Rightarrow>
     Clerk \<Rightarrow> Clerk option" where
  "ClerkPutAppend fuel call key v opn ck =
     (case nextSeq ck of (ck1, seq) \<Rightarrow>
        let args = \<lparr>pa_Key = key, pa_Value = v, pa_Op = opn, pa_ClientId = clientId ck1, pa_SeqId = seq\<rparr>
        in map_option (\<lambda>(s, _). ck1\<lparr>leaderId := s\<rparr>)
             (retryLoop fuel putAppendOutcome (\<lambda>k s. call k s args) (servers ck1) 0 (leaderId ck1)))"

definition ClerkPut where
  "ClerkPut fuel call key v ck = ClerkPutAppend fuel call key v ''Put'' ck"

definition ClerkAppend where
  "ClerkAppend fuel call key v ck = ClerkPutAppend fuel call key v ''Append'' ck"

section \<open>Finding the leader\<close>

interpretation get_policy: retry_policy getOutcome "\<lambda>reply. gr_Err reply = ErrWrongLeader"
  by unfold_locales (simp_all add: getOutcome_def)

interpretation put_policy: retry_policy putAppendOutcome "\<lambda>reply. pr_Err reply = ErrWrongLeader"
  by unfold_locales (simp_all add: putAppendOutcome_def)

text \<open>
  C40. If one server answers with the value or with \<^verbatim>\<open>ErrNoKey\<close> and every other one is unreachable or says
  that it is not the leader, \<^verbatim>\<open>Get\<close> returns within as many attempts as there are servers, remembers
  that server, and has used exactly one new sequence number.
\<close>

theorem clerk_get_finds_leader:
  assumes "leaderId ck < servers ck" "L < servers ck"
    and "\<forall>k s args rep. s \<noteq> L \<and> call k s args = Some rep \<longrightarrow> gr_Err rep = ErrWrongLeader"
    and "\<forall>k args. \<exists>rep. call k L args = Some rep \<and> gr_Err rep \<in> {OK, ErrNoKey}"
  shows "\<exists>ck' v. ClerkGet (servers ck) call key ck = Some (ck', v) \<and>
    leaderId ck' = L \<and> seqId ck' = seqId ck + 1 \<and> clientId ck' = clientId ck \<and>
    (\<exists>k rep. call k L \<lparr>ga_Key = key, ga_ClientId = clientId ck, ga_SeqId = seqId ck + 1\<rparr> = Some rep \<and>
       (gr_Err rep = OK \<and> v = gr_Value rep \<or> gr_Err rep = ErrNoKey \<and> v = ''''))"
proof -
  let ?args = "\<lparr>ga_Key = key, ga_ClientId = clientId ck, ga_SeqId = seqId ck + 1\<rparr>"
  have conclusive: "\<exists>r. getOutcome (call j L ?args) = Done r" for j
    using assms(4) [rule_format, of j ?args] by (auto simp: getOutcome_def)
  obtain v where v: "retryLoop (servers ck) getOutcome (\<lambda>k s. call k s ?args) (servers ck) 0 (leaderId ck) = Some (L, v)"
    using get_policy.finds_leader_within [OF assms(1,2), of "\<lambda>k s. call k s ?args" 0] assms(3) conclusive by blast
  obtain j where "getOutcome (call j L ?args) = Done v"
    using retryLoop_result [OF v] by blast
  then have "\<exists>rep. call j L ?args = Some rep \<and> (gr_Err rep = OK \<and> v = gr_Value rep \<or> gr_Err rep = ErrNoKey \<and> v = '''')"
    by (auto simp: getOutcome_def split: option.splits Err.splits)
  with v show ?thesis by (auto simp: ClerkGet_def nextSeq_def Let_def)
qed

definition exGetCall :: "nat \<Rightarrow> nat \<Rightarrow> GetArgs \<Rightarrow> GetReply option" where
  "exGetCall k s args = (if s = 2 then Some \<lparr>gr_Err = OK, gr_Value = ''hi''\<rparr> else None)"

theorem clerk_get_finds_leader_witness:
  "\<exists>ck' v. ClerkGet 3 exGetCall ''x'' \<lparr>servers = 3, clientId = 1, seqId = 0, leaderId = 0\<rparr> =
     Some (ck', v) \<and> leaderId ck' = 2"
proof -
  let ?ck = "\<lparr>servers = 3, clientId = 1, seqId = 0, leaderId = 0\<rparr>"
  have "\<exists>ck' v. ClerkGet (servers ?ck) exGetCall ''x'' ?ck = Some (ck', v) \<and> leaderId ck' = 2 \<and>
      seqId ck' = seqId ?ck + 1 \<and> clientId ck' = clientId ?ck \<and>
      (\<exists>k rep. exGetCall k 2 \<lparr>ga_Key = ''x'', ga_ClientId = clientId ?ck, ga_SeqId = seqId ?ck + 1\<rparr> = Some rep \<and>
         (gr_Err rep = OK \<and> v = gr_Value rep \<or> gr_Err rep = ErrNoKey \<and> v = ''''))"
    by (rule clerk_get_finds_leader) (auto simp: exGetCall_def)
  then show ?thesis by auto
qed

text \<open>
  A server that answers every request with \<^verbatim>\<open>ErrTimeout\<close>, as a leader cut off from its majority
  does, holds the clerk for ever: no number of attempts lets \<^verbatim>\<open>PutAppend\<close> move on to another server.
\<close>

lemma clerk_stuck_on_timeouts:
  assumes "\<forall>k args. call k (leaderId ck) args = Some \<lparr>pr_Err = ErrTimeout\<rparr>"
  shows "ClerkPutAppend fuel call key v opn ck = None"
proof -
  have "retryLoop fuel putAppendOutcome (\<lambda>k s. call k s args) n k (leaderId ck) = None" for args n k
    by (induction fuel arbitrary: k) (simp_all add: assms putAppendOutcome_def)
  then show ?thesis by (simp add: ClerkPutAppend_def nextSeq_def Let_def)
qed

end
