(* ===== verification/KvRaft_Harness.thy ===== *)
theory KvRaft_Harness
  imports KvClerk Raft_Harness
begin

text \<open>
  \<^verbatim>\<open>kvraft/config.go\<close>: the harness of the key/value tests. It starts and stops servers, gives clerks their own ends,
  and cuts the servers into two parts. Shown: \<^verbatim>\<open>make_partition\<close> puts the leader into the smaller part, and after
  \<^verbatim>\<open>partition\<close> exactly the servers of the same part can talk to each other; and the order in which a clerk tries the servers is a permutation of them.
  \<^verbatim>\<open>shardctrler/config.go\<close> has the same functions.
\<close>

section \<open>State\<close>

text \<open>
  A clerk is named by its address. While a server runs, its persister and \<^verbatim>\<open>saved\<close> are the same object.
\<close>

record kvTest =
  kc_n :: nat
  kc_servers :: "KVServer option list"
  kc_saved :: "(Op gobval, kvgob) persister option list"
  kc_endnames :: "string list option list"
  kc_clerks :: "nat \<rightharpoonup> string list"
  kc_nextClientId :: int
  kc_maxraftstate :: int
  kc_rpcs0 :: int
  kc_ops :: "32 word"

definition savedNow :: "nat \<Rightarrow> kvTest \<Rightarrow> (Op gobval, kvgob) persister option" where
  "savedNow i cfg = (case kc_servers cfg ! i of Some kv \<Rightarrow> Some (Persister (kv_rf kv)) | None \<Rightarrow> kc_saved cfg ! i)"

text \<open>The sizes; a server that was never started has no persister, and asking it panics.\<close>

fun largest :: "('p \<Rightarrow> int) \<Rightarrow> 'p option list \<Rightarrow> int \<Rightarrow> int go" where
  "largest sz [] a = Inr a"
| "largest sz (None # ps) a = Inl IndexOutOfRange"
| "largest sz (Some p # ps) a = largest sz ps (if sz p > a then sz p else a)"

definition kvLogSize :: "(Op gobval buffer \<Rightarrow> int) \<Rightarrow> kvTest \<Rightarrow> int go" where
  "kvLogSize bytes cfg = largest (RaftStateSize bytes) (map (\<lambda>i. savedNow i cfg) [0..<kc_n cfg]) 0"

definition kvSnapshotSize :: "(kvgob buffer \<Rightarrow> int) \<Rightarrow> kvTest \<Rightarrow> int go" where
  "kvSnapshotSize bytes cfg = largest (SnapshotSize bytes) (map (\<lambda>i. savedNow i cfg) [0..<kc_n cfg]) 0"

section \<open>Connections\<close>

text \<open>\<^verbatim>\<open>cfg.endnames[i][j]\<close>\<close>

definition nameOf :: "nat \<Rightarrow> nat \<Rightarrow> kvTest \<Rightarrow> string go" where
  "nameOf i j cfg = (case go_index (kc_endnames cfg) (int i) of
     Inl p \<Rightarrow> Inl p | Inr None \<Rightarrow> Inl IndexOutOfRange | Inr (Some names) \<Rightarrow> go_index names (int j))"

fun enableEach :: "bool \<Rightarrow> (nat \<times> nat) list \<Rightarrow> kvTest \<Rightarrow> netName Network \<Rightarrow> netName Network go" where
  "enableEach b [] cfg rn = Inr rn"
| "enableEach b ((i, j) # ps) cfg rn =
     (case nameOf i j cfg of Inl p \<Rightarrow> Inl p | Inr name \<Rightarrow> enableEach b ps cfg (Enable (EndName name) b rn))"

definition connectUnlocked :: "nat \<Rightarrow> nat list \<Rightarrow> kvTest \<Rightarrow> netName Network \<Rightarrow> netName Network go" where
  "connectUnlocked i to cfg rn =
     (case enableEach True (map (\<lambda>j. (i, j)) to) cfg rn of
        Inl p \<Rightarrow> Inl p | Inr rn1 \<Rightarrow> enableEach True (map (\<lambda>j. (j, i)) to) cfg rn1)"

text \<open>The second loop of \<^verbatim>\<open>disconnectUnlocked\<close> tests the names of server \<^verbatim>\<open>j\<close>, the position in the list, and not of the server there.\<close>

fun disconnectIncoming :: "nat \<Rightarrow> nat \<Rightarrow> nat list \<Rightarrow> kvTest \<Rightarrow> netName Network \<Rightarrow> netName Network go" where
  "disconnectIncoming i j [] cfg rn = Inr rn"
| "disconnectIncoming i j (f # fs) cfg rn =
     (case go_index (kc_endnames cfg) (int j) of
        Inl p \<Rightarrow> Inl p
      | Inr None \<Rightarrow> disconnectIncoming i (Suc j) fs cfg rn
      | Inr (Some _) \<Rightarrow>
          (case nameOf f i cfg of
             Inl p \<Rightarrow> Inl p | Inr name \<Rightarrow> disconnectIncoming i (Suc j) fs cfg (Enable (EndName name) False rn)))"

definition disconnectUnlocked :: "nat \<Rightarrow> nat list \<Rightarrow> kvTest \<Rightarrow> netName Network \<Rightarrow> netName Network go" where
  "disconnectUnlocked i from cfg rn =
     (case (if from = [] then Inr rn
            else case go_index (kc_endnames cfg) (int i) of
              Inl p \<Rightarrow> Inl p
            | Inr None \<Rightarrow> Inr rn
            | Inr (Some _) \<Rightarrow> enableEach False (map (\<lambda>j. (i, j)) from) cfg rn) of
        Inl p \<Rightarrow> Inl p | Inr rn1 \<Rightarrow> disconnectIncoming i 0 from cfg rn1)"

definition AllServers :: "kvTest \<Rightarrow> nat list" where
  "AllServers cfg = [0..<kc_n cfg]"

fun connectFrom :: "nat list \<Rightarrow> nat list \<Rightarrow> kvTest \<Rightarrow> netName Network \<Rightarrow> netName Network go" where
  "connectFrom [] to cfg rn = Inr rn"
| "connectFrom (i # is) to cfg rn = (case connectUnlocked i to cfg rn of Inl p \<Rightarrow> Inl p | Inr rn1 \<Rightarrow> connectFrom is to cfg rn1)"

definition ConnectAll :: "kvTest \<Rightarrow> netName Network \<Rightarrow> netName Network go" where
  "ConnectAll cfg rn = connectFrom (AllServers cfg) (AllServers cfg) cfg rn"

fun cutOff :: "nat list \<Rightarrow> nat list \<Rightarrow> nat list \<Rightarrow> kvTest \<Rightarrow> netName Network \<Rightarrow> netName Network go" where
  "cutOff [] p q cfg rn = Inr rn"
| "cutOff (i # is) p q cfg rn =
     (case disconnectUnlocked i q cfg rn of
        Inl e \<Rightarrow> Inl e
      | Inr rn1 \<Rightarrow> (case connectUnlocked i p cfg rn1 of Inl e \<Rightarrow> Inl e | Inr rn2 \<Rightarrow> cutOff is p q cfg rn2))"

definition partitionNet :: "nat list \<Rightarrow> nat list \<Rightarrow> kvTest \<Rightarrow> netName Network \<Rightarrow> netName Network go" where
  "partitionNet p1 p2 cfg rn = (case cutOff p1 p1 p2 cfg rn of Inl e \<Rightarrow> Inl e | Inr rn1 \<Rightarrow> cutOff p2 p2 p1 cfg rn1)"

section \<open>Choosing a partition\<close>

fun LeaderFrom :: "nat \<Rightarrow> KVServer option list \<Rightarrow> (bool \<times> nat) go" where
  "LeaderFrom i [] = Inr (False, 0)"
| "LeaderFrom i (None # kvs) = Inl IndexOutOfRange"
| "LeaderFrom i (Some kv # kvs) = (if snd (GetState (kv_rf kv)) then Inr (True, i) else LeaderFrom (Suc i) kvs)"

definition Leader :: "kvTest \<Rightarrow> (bool \<times> nat) go" where
  "Leader cfg = LeaderFrom 0 (take (kc_n cfg) (kc_servers cfg))"

fun fillParts :: "nat \<Rightarrow> nat list \<Rightarrow> nat \<Rightarrow> nat list \<Rightarrow> nat list \<Rightarrow> (nat list \<times> nat list) go" where
  "fillParts l [] j p1 p2 = Inr (p1, p2)"
| "fillParts l (i # is) j p1 p2 =
     (if i \<noteq> l
      then (if j < length p1 then fillParts l is (Suc j) (p1[j := i]) p2
            else case go_store p2 (int (j - length p1)) i of Inl p \<Rightarrow> Inl p | Inr p2' \<Rightarrow> fillParts l is (Suc j) p1 p2')
      else fillParts l is j p1 p2)"

definition make_partition :: "kvTest \<Rightarrow> (nat list \<times> nat list) go" where
  "make_partition cfg =
     (case Leader cfg of
        Inl p \<Rightarrow> Inl p
      | Inr (_, l) \<Rightarrow>
         (case fillParts l [0..<kc_n cfg] 0 (replicate (kc_n cfg div 2 + 1) 0) (replicate (kc_n cfg div 2) 0) of
            Inl p \<Rightarrow> Inl p
          | Inr (p1, p2) \<Rightarrow>
             (case go_store p2 (int (length p2) - 1) l of Inl p \<Rightarrow> Inl p | Inr p2' \<Rightarrow> Inr (p1, p2'))))"

section \<open>Clerks\<close>

text \<open>\<^verbatim>\<open>random_handles\<close>: \<^verbatim>\<open>rs\<close> are the random numbers, one per position.\<close>

fun randomHandles :: "nat \<Rightarrow> nat list \<Rightarrow> 'a list \<Rightarrow> 'a list" where
  "randomHandles i [] sa = sa"
| "randomHandles i (r # rs) sa =
     (if i < length sa then let j = r mod (i + 1) in randomHandles (Suc i) rs (sa[i := sa ! j, j := sa ! i]) else sa)"

definition setClientEnds :: "bool \<Rightarrow> nat \<Rightarrow> nat list \<Rightarrow> kvTest \<Rightarrow> netName Network \<Rightarrow> netName Network go" where
  "setClientEnds b ck to cfg rn =
     fold (\<lambda>s r. case r of
        Inl p \<Rightarrow> Inl p
      | Inr rn1 \<Rightarrow> (case go_index (case kc_clerks cfg ck of None \<Rightarrow> [] | Some names \<Rightarrow> names) (int s) of
                      Inl p \<Rightarrow> Inl p | Inr name \<Rightarrow> Inr (Enable (EndName name) b rn1))) to (Inr rn)"

definition ConnectClientUnlocked :: "nat \<Rightarrow> nat list \<Rightarrow> kvTest \<Rightarrow> netName Network \<Rightarrow> netName Network go" where
  "ConnectClientUnlocked ck to cfg rn = setClientEnds True ck to cfg rn"

definition DisconnectClientUnlocked :: "nat \<Rightarrow> nat list \<Rightarrow> kvTest \<Rightarrow> netName Network \<Rightarrow> netName Network go" where
  "DisconnectClientUnlocked ck from cfg rn = setClientEnds False ck from cfg rn"

datatype clientError = ClientFatal fatal | ClientPanic panic

text \<open>The clerk is at address \<^verbatim>\<open>ck\<close>; the order of the servers that it gets is part of the result.\<close>

definition makeClient ::
    "nat list \<Rightarrow> string list \<Rightarrow> nat list \<Rightarrow> nat \<Rightarrow> 64 word \<Rightarrow> 64 word \<Rightarrow> idgen \<Rightarrow> kvTest \<Rightarrow> netName Network \<Rightarrow>
     clientError + kvTest \<times> netName Network \<times> idgen \<times> Clerk \<times> nat list" where
  "makeClient to names rs ck now rnd g cfg rn =
     (case makeEnds 0 names rn of
        Inl f \<Rightarrow> Inl (ClientFatal f)
      | Inr rn1 \<Rightarrow>
         (case MakeClerk (kc_n cfg) now rnd g of (g1, clerk) \<Rightarrow>
            let cfg1 = cfg\<lparr>kc_clerks := (kc_clerks cfg)(ck \<mapsto> names), kc_nextClientId := kc_nextClientId cfg + 1\<rparr>
            in case ConnectClientUnlocked ck to cfg1 rn1 of
                 Inl p \<Rightarrow> Inl (ClientPanic p)
               | Inr rn2 \<Rightarrow> Inr (cfg1, rn2, g1, clerk, randomHandles 0 rs [0..<kc_n cfg])))"

definition deleteClient :: "nat \<Rightarrow> kvTest \<Rightarrow> kvTest" where
  "deleteClient ck cfg = cfg\<lparr>kc_clerks := (kc_clerks cfg)(ck := None)\<rparr>"

section \<open>Servers\<close>

text \<open>The server that was running is killed; \<^verbatim>\<open>saved\<close> is a copy that it no longer writes.\<close>

definition ShutdownServer :: "nat \<Rightarrow> kvTest \<Rightarrow> netName Network \<Rightarrow> (kvTest \<times> netName Network) go" where
  "ShutdownServer i cfg rn =
     (case disconnectUnlocked i (AllServers cfg) cfg rn of
        Inl p \<Rightarrow> Inl p
      | Inr rn1 \<Rightarrow>
         Inr (cfg\<lparr>kc_saved := (kc_saved cfg)[i := map_option Copy (savedNow i cfg)], kc_servers := (kc_servers cfg)[i := None]\<rparr>,
              DeleteServer (ServerName i) rn1))"

definition KvStartServer :: "nat \<Rightarrow> string list \<Rightarrow> nat \<Rightarrow> int \<Rightarrow> kvTest \<Rightarrow> netName Network \<Rightarrow> fatal + kvTest \<times> netName Network" where
  "KvStartServer i names addr rnd cfg rn =
     (case makeEnds 0 names rn of
        Inl f \<Rightarrow> Inl f
      | Inr rn1 \<Rightarrow>
         let ps = (case savedNow i cfg of None \<Rightarrow> MakePersister | Some p \<Rightarrow> Copy p);
             kv = StartKVServer (kc_n cfg) i ps (kc_maxraftstate cfg) rnd
         in Inr (cfg\<lparr>kc_endnames := (kc_endnames cfg)[i := Some names], kc_saved := (kc_saved cfg)[i := Some ps],
                     kc_servers := (kc_servers cfg)[i := Some kv]\<rparr>,
                 AddServer (ServerName i) addr rn1))"

fun KvStartAll ::
    "(nat \<Rightarrow> string list) \<Rightarrow> (nat \<Rightarrow> nat) \<Rightarrow> (nat \<Rightarrow> int) \<Rightarrow> nat list \<Rightarrow> kvTest \<Rightarrow> netName Network \<Rightarrow> fatal + kvTest \<times> netName Network" where
  "KvStartAll names addr rnd [] cfg rn = Inr (cfg, rn)"
| "KvStartAll names addr rnd (i # is) cfg rn =
     (case KvStartServer i (names i) (addr i) (rnd i) cfg rn of
        Inl f \<Rightarrow> Inl f | Inr (cfg1, rn1) \<Rightarrow> KvStartAll names addr rnd is cfg1 rn1)"

definition kv_make_config ::
    "nat \<Rightarrow> bool \<Rightarrow> int \<Rightarrow> (nat \<Rightarrow> string list) \<Rightarrow> (nat \<Rightarrow> nat) \<Rightarrow> (nat \<Rightarrow> int) \<Rightarrow> clientError + kvTest \<times> netName Network" where
  "kv_make_config n unreliable maxraftstate names addr rnd =
     (let cfg = \<lparr>kc_n = n, kc_servers = replicate n None, kc_saved = replicate n None, kc_endnames = replicate n None,
                 kc_clerks = Map.empty, kc_nextClientId = int n + 1000, kc_maxraftstate = maxraftstate, kc_rpcs0 = 0, kc_ops = 0\<rparr>
      in case KvStartAll names addr rnd [0..<n] cfg MakeNetwork of
           Inl f \<Rightarrow> Inl (ClientFatal f)
         | Inr (cfg1, rn1) \<Rightarrow>
            (case ConnectAll cfg1 rn1 of
               Inl p \<Rightarrow> Inl (ClientPanic p) | Inr rn2 \<Rightarrow> Inr (cfg1, Reliable (\<not> unreliable) rn2)))"

definition kvBegin :: "netName Network \<Rightarrow> kvTest \<Rightarrow> kvTest" where
  "kvBegin rn cfg = cfg\<lparr>kc_rpcs0 := GetTotalCount rn, kc_ops := 0\<rparr>"

definition countOp :: "kvTest \<Rightarrow> kvTest" where
  "countOp cfg = cfg\<lparr>kc_ops := kc_ops cfg + 1\<rparr>"

definition kvEnd :: "netName Network \<Rightarrow> kvTest \<Rightarrow> nat \<times> int \<times> int" where
  "kvEnd rn cfg = (kc_n cfg, GetTotalCount rn - kc_rpcs0 cfg, sint (kc_ops cfg))"

section \<open>Partitions\<close>

abbreviation kvName :: "kvTest \<Rightarrow> nat \<Rightarrow> nat \<Rightarrow> string" where
  "kvName cfg i j \<equiv> the (kc_endnames cfg ! i) ! j"

text \<open>All servers have been started, and their ends have different names.\<close>

definition allStarted :: "kvTest \<Rightarrow> bool" where
  "allStarted cfg \<longleftrightarrow> length (kc_endnames cfg) = kc_n cfg \<and>
     (\<forall>i < kc_n cfg. kc_endnames cfg ! i \<noteq> None \<and> length (the (kc_endnames cfg ! i)) = kc_n cfg) \<and>
     (\<forall>i < kc_n cfg. \<forall>j < kc_n cfg. \<forall>x < kc_n cfg. \<forall>y < kc_n cfg. kvName cfg i j = kvName cfg x y \<longrightarrow> i = x \<and> j = y)"

text \<open>On the pairs of servers in \<^verbatim>\<open>P\<close> the ends are enabled as \<^verbatim>\<open>T\<close> says.\<close>

definition switched :: "(nat \<Rightarrow> nat \<Rightarrow> bool) \<Rightarrow> kvTest \<Rightarrow> netName Network \<Rightarrow> (nat \<times> nat) set \<Rightarrow> bool" where
  "switched T cfg rn P \<longleftrightarrow> (\<forall>x < kc_n cfg. \<forall>y < kc_n cfg. (x, y) \<in> P \<longrightarrow> (nw_enabled rn (EndName (kvName cfg x y)) \<longleftrightarrow> T x y))"

lemma nameOf_started: "allStarted cfg \<Longrightarrow> i < kc_n cfg \<Longrightarrow> j < kc_n cfg \<Longrightarrow> nameOf i j cfg = Inr (kvName cfg i j)"
  by (auto simp: nameOf_def allStarted_def go_index_def)

lemma index_started: "allStarted cfg \<Longrightarrow> i < kc_n cfg \<Longrightarrow> go_index (kc_endnames cfg) (int i) = Inr (Some (the (kc_endnames cfg ! i)))"
  by (auto simp: allStarted_def go_index_def)

lemma switched_Enable:
  assumes "allStarted cfg" "i < kc_n cfg" "j < kc_n cfg" "T i j = b" "switched T cfg rn P"
  shows "switched T cfg (Enable (EndName (kvName cfg i j)) b rn) (insert (i, j) P)"
  unfolding switched_def
proof (intro allI impI)
  fix x y assume "x < kc_n cfg" "y < kc_n cfg" "(x, y) \<in> insert (i, j) P"
  moreover have "kvName cfg x y = kvName cfg i j \<longleftrightarrow> (x, y) = (i, j)"
    using assms(1-3) \<open>x < kc_n cfg\<close> \<open>y < kc_n cfg\<close> unfolding allStarted_def by auto
  ultimately show "nw_enabled (Enable (EndName (kvName cfg i j)) b rn) (EndName (kvName cfg x y)) \<longleftrightarrow> T x y"
    using assms(4,5) by (auto simp: Enable_def switched_def)
qed

lemma enableEach_switched:
  assumes "allStarted cfg" "\<forall>(i, j)\<in>set ps. i < kc_n cfg \<and> j < kc_n cfg \<and> T i j = b" "switched T cfg rn P"
  shows "\<exists>rn'. enableEach b ps cfg rn = Inr rn' \<and> switched T cfg rn' (P \<union> set ps)"
  using assms(2,3)
proof (induction ps arbitrary: rn P)
  case (Cons p ps)
  obtain i j where p: "p = (i, j)" "i < kc_n cfg" "j < kc_n cfg" "T i j = b" using Cons.prems(1) by (cases p) auto
  have "switched T cfg (Enable (EndName (kvName cfg i j)) b rn) (insert (i, j) P)"
    by (rule switched_Enable [OF assms(1) p(2-4) Cons.prems(2)])
  from Cons.IH [OF _ this] Cons.prems(1) show ?case using nameOf_started [OF assms(1) p(2,3)] p(1) by simp
qed simp

lemma disconnectIncoming_switched:
  assumes "allStarted cfg" "i < kc_n cfg" "\<forall>f\<in>set fs. f < kc_n cfg \<and> \<not> T f i" "j + length fs \<le> kc_n cfg" "switched T cfg rn P"
  shows "\<exists>rn'. disconnectIncoming i j fs cfg rn = Inr rn' \<and> switched T cfg rn' (P \<union> (\<lambda>f. (f, i)) ` set fs)"
  using assms(3-5)
proof (induction fs arbitrary: j rn P)
  case (Cons f fs)
  have j: "j < kc_n cfg" "f < kc_n cfg" "T f i = False" using Cons.prems(1,2) by auto
  have "switched T cfg (Enable (EndName (kvName cfg f i)) False rn) (insert (f, i) P)"
    by (rule switched_Enable [OF assms(1) j(2) assms(2) j(3) Cons.prems(3)])
  from Cons.IH [OF _ _ this, of "Suc j"] Cons.prems(1,2) obtain rn' where
    "disconnectIncoming i (Suc j) fs cfg (Enable (EndName (kvName cfg f i)) False rn) = Inr rn'"
    "switched T cfg rn' (insert (f, i) P \<union> (\<lambda>f. (f, i)) ` set fs)" by auto
  then show ?case using nameOf_started [OF assms(1) j(2) assms(2)] index_started [OF assms(1) j(1)] by (simp del: go_index_Inr)
qed simp

lemma connectUnlocked_switched:
  assumes "allStarted cfg" "i < kc_n cfg" "\<forall>t\<in>set to. t < kc_n cfg \<and> T i t \<and> T t i" "switched T cfg rn P"
  shows "\<exists>rn'. connectUnlocked i to cfg rn = Inr rn' \<and> switched T cfg rn' (P \<union> {i} \<times> set to \<union> set to \<times> {i})"
proof -
  obtain rn1 where 1: "enableEach True (map (\<lambda>j. (i, j)) to) cfg rn = Inr rn1" "switched T cfg rn1 (P \<union> set (map (\<lambda>j. (i, j)) to))"
    using enableEach_switched [OF assms(1) _ assms(4), of "map (\<lambda>j. (i, j)) to" True] assms(2,3) by auto
  obtain rn2 where 2: "enableEach True (map (\<lambda>j. (j, i)) to) cfg rn1 = Inr rn2"
    "switched T cfg rn2 (P \<union> set (map (\<lambda>j. (i, j)) to) \<union> set (map (\<lambda>j. (j, i)) to))"
    using enableEach_switched [OF assms(1) _ 1(2), of "map (\<lambda>j. (j, i)) to" True] assms(2,3) by auto
  have "P \<union> set (map (\<lambda>j. (i, j)) to) \<union> set (map (\<lambda>j. (j, i)) to) = P \<union> {i} \<times> set to \<union> set to \<times> {i}" by auto
  then show ?thesis using 1(1) 2 by (simp add: connectUnlocked_def)
qed

lemma disconnectUnlocked_switched:
  assumes "allStarted cfg" "i < kc_n cfg" "\<forall>f\<in>set from. f < kc_n cfg \<and> \<not> T i f \<and> \<not> T f i" "length from \<le> kc_n cfg" "switched T cfg rn P"
  shows "\<exists>rn'. disconnectUnlocked i from cfg rn = Inr rn' \<and> switched T cfg rn' (P \<union> {i} \<times> set from \<union> set from \<times> {i})"
proof -
  obtain rn1 where 1: "enableEach False (map (\<lambda>j. (i, j)) from) cfg rn = Inr rn1" "switched T cfg rn1 (P \<union> set (map (\<lambda>j. (i, j)) from))"
    using enableEach_switched [OF assms(1) _ assms(5), of "map (\<lambda>j. (i, j)) from" False] assms(2,3) by auto
  obtain rn2 where 2: "disconnectIncoming i 0 from cfg rn1 = Inr rn2"
    "switched T cfg rn2 (P \<union> set (map (\<lambda>j. (i, j)) from) \<union> (\<lambda>f. (f, i)) ` set from)"
    using disconnectIncoming_switched [OF assms(1,2) _ _ 1(2), of "from" 0] assms(3,4) by auto
  have "P \<union> set (map (\<lambda>j. (i, j)) from) \<union> (\<lambda>f. (f, i)) ` set from = P \<union> {i} \<times> set from \<union> set from \<times> {i}" by auto
  then show ?thesis using 1(1) 2 index_started [OF assms(1,2)] by (cases "from = []") (auto simp: disconnectUnlocked_def simp del: go_index_Inr)
qed

lemma cutOff_switched:
  assumes "allStarted cfg" "\<forall>i\<in>set is. i < kc_n cfg \<and> (\<forall>y\<in>set p. T i y \<and> T y i) \<and> (\<forall>y\<in>set q. \<not> T i y \<and> \<not> T y i)"
    and "\<forall>y\<in>set p \<union> set q. y < kc_n cfg" "length q \<le> kc_n cfg" "switched T cfg rn P"
  shows "\<exists>rn'. cutOff is p q cfg rn = Inr rn' \<and> switched T cfg rn' (P \<union> set is \<times> (set p \<union> set q) \<union> (set p \<union> set q) \<times> set is)"
  using assms(2,5)
proof (induction "is" arbitrary: rn P)
  case (Cons i js)
  obtain rn1 where 1: "disconnectUnlocked i q cfg rn = Inr rn1" "switched T cfg rn1 (P \<union> {i} \<times> set q \<union> set q \<times> {i})"
    using disconnectUnlocked_switched [OF assms(1) _ _ assms(4) Cons.prems(2), of i] Cons.prems(1) assms(3) by auto
  obtain rn2 where 2: "connectUnlocked i p cfg rn1 = Inr rn2"
    "switched T cfg rn2 (P \<union> {i} \<times> set q \<union> set q \<times> {i} \<union> {i} \<times> set p \<union> set p \<times> {i})"
    using connectUnlocked_switched [OF assms(1) _ _ 1(2), of i p] Cons.prems(1) assms(3) by auto
  from Cons.IH [OF _ 2(2)] Cons.prems(1) obtain rn' where 3: "cutOff js p q cfg rn2 = Inr rn'"
    "switched T cfg rn' (P \<union> {i} \<times> set q \<union> set q \<times> {i} \<union> {i} \<times> set p \<union> set p \<times> {i} \<union> set js \<times> (set p \<union> set q) \<union> (set p \<union> set q) \<times> set js)" by auto
  have "P \<union> {i} \<times> set q \<union> set q \<times> {i} \<union> {i} \<times> set p \<union> set p \<times> {i} \<union> set js \<times> (set p \<union> set q) \<union> (set p \<union> set q) \<times> set js =
      P \<union> set (i # js) \<times> (set p \<union> set q) \<union> (set p \<union> set q) \<times> set (i # js)" by auto
  then show ?case using 1(1) 2(1) 3 by simp
qed simp

text \<open>After \<^verbatim>\<open>partition\<close> exactly the servers of the same part can talk to each other, whatever was connected before.\<close>

lemma partitionNet_cuts:
  assumes s: "allStarted cfg" and p: "set p1 \<union> set p2 = {..<kc_n cfg}" "set p1 \<inter> set p2 = {}" "distinct p1" "distinct p2"
  shows "\<exists>rn'. partitionNet p1 p2 cfg rn = Inr rn' \<and>
    (\<forall>i < kc_n cfg. \<forall>j < kc_n cfg. nw_enabled rn' (EndName (kvName cfg i j)) \<longleftrightarrow> (i \<in> set p1 \<longleftrightarrow> j \<in> set p1))"
proof -
  let ?T = "\<lambda>x y. x \<in> set p1 \<longleftrightarrow> y \<in> set p1" and ?U = "set p1 \<union> set p2"
  have "card (set p1) \<le> kc_n cfg" "card (set p2) \<le> kc_n cfg" using p(1) card_mono [of "{..<kc_n cfg}" "set p1"] card_mono [of "{..<kc_n cfg}" "set p2"] by auto
  then have len: "length p1 \<le> kc_n cfg" "length p2 \<le> kc_n cfg" using p(3,4) by (simp_all add: distinct_card)
  have r: "x < kc_n cfg" if "x \<in> set p1 \<or> x \<in> set p2" for x using that p(1) by auto
  obtain rn1 where 1: "cutOff p1 p1 p2 cfg rn = Inr rn1" "switched ?T cfg rn1 ({} \<union> set p1 \<times> ?U \<union> ?U \<times> set p1)"
    using cutOff_switched [OF s, of p1 p1 ?T p2 rn "{}"] p(2) r len(2) by (auto simp: switched_def)
  obtain rn2 where 2: "cutOff p2 p2 p1 cfg rn1 = Inr rn2"
    "switched ?T cfg rn2 ({} \<union> set p1 \<times> ?U \<union> ?U \<times> set p1 \<union> set p2 \<times> (set p2 \<union> set p1) \<union> (set p2 \<union> set p1) \<times> set p2)"
    using cutOff_switched [OF s _ _ len(1) 1(2), of p2 p2] p(2) r by auto
  have "(i, j) \<in> {} \<union> set p1 \<times> ?U \<union> ?U \<times> set p1 \<union> set p2 \<times> (set p2 \<union> set p1) \<union> (set p2 \<union> set p1) \<times> set p2" if "i < kc_n cfg" "j < kc_n cfg" for i j
    using p(1) that by auto
  then show ?thesis using 1(1) 2 by (auto simp: partitionNet_def switched_def)
qed

lemma fillParts_fills:
  assumes "j + length (filter (\<lambda>i. i \<noteq> l) is) \<le> length p1 + length p2"
  shows "\<exists>q1 q2. fillParts l is j p1 p2 = Inr (q1, q2) \<and> length q1 = length p1 \<and> length q2 = length p2 \<and>
    q1 @ q2 = take j (p1 @ p2) @ filter (\<lambda>i. i \<noteq> l) is @ drop (j + length (filter (\<lambda>i. i \<noteq> l) is)) (p1 @ p2)"
  using assms
proof (induction "is" arbitrary: j p1 p2)
  case (Cons i js)
  show ?case
  proof (cases "i = l")
    case True
    then show ?thesis using Cons by simp
  next
    case False
    let ?ys = "filter (\<lambda>i. i \<noteq> l) js" and ?a = "p1 @ p2"
    have j: "j < length ?a" "Suc j + length ?ys \<le> length ?a" using Cons.prems False by simp_all
    define r1 r2 where "r1 = (if j < length p1 then p1[j := i] else p1)" and "r2 = (if j < length p1 then p2 else p2[j - length p1 := i])"
    have r: "length r1 = length p1" "length r2 = length p2" "r1 @ r2 = ?a[j := i]" by (auto simp: r1_def r2_def list_update_append)
    have "fillParts l (i # js) j p1 p2 = fillParts l js (Suc j) r1 r2" using False j(1) by (simp add: r1_def r2_def go_store_def nat_diff_distrib')
    moreover obtain q1 q2 where "fillParts l js (Suc j) r1 r2 = Inr (q1, q2)" "length q1 = length p1" "length q2 = length p2"
        "q1 @ q2 = take (Suc j) (r1 @ r2) @ ?ys @ drop (Suc j + length ?ys) (r1 @ r2)"
      using Cons.IH [of "Suc j" r1 r2] r j(2) by auto
    moreover have "take (Suc j) (?a[j := i]) = take j ?a @ [i]" using j(1) by (simp add: take_Suc_conv_app_nth)
    moreover have "drop (Suc j + length ?ys) (?a[j := i]) = drop (Suc j + length ?ys) ?a" by simp
    ultimately show ?thesis using False r(3) by simp
  qed
next
  case Nil
  show ?case by (simp del: take_append drop_append)
qed

lemma LeaderFrom_range: "LeaderFrom i kvs = Inr (found, l) \<Longrightarrow> l = 0 \<or> i \<le> l \<and> l < i + length kvs"
  by (induction i kvs rule: LeaderFrom.induct) (auto split: if_splits)

lemma LeaderFrom_found: "LeaderFrom i kvs = Inr (True, l) \<Longrightarrow> \<exists>kv. kvs ! (l - i) = Some kv \<and> i \<le> l \<and> snd (GetState (kv_rf kv))"
proof (induction i kvs rule: LeaderFrom.induct)
  case (3 i kv kvs)
  show ?case
  proof (cases "snd (GetState (kv_rf kv))")
    case False
    then obtain kv' where "kvs ! (l - Suc i) = Some kv'" "Suc i \<le> l" "snd (GetState (kv_rf kv'))" using 3 by auto
    moreover from this have "(Some kv # kvs) ! (l - i) = kvs ! (l - Suc i)" by (simp add: nth_Cons')
    ultimately show ?thesis by auto
  qed (use 3 in auto)
qed simp_all

lemma make_partition_splits:
  assumes "Leader cfg = Inr (found, l)" "l < kc_n cfg" "odd (kc_n cfg)" "kc_n cfg \<noteq> 1"
  obtains p1 p2 where "make_partition cfg = Inr (p1, p2)" "length p1 = kc_n cfg div 2 + 1" "l \<notin> set p1"
    "set p1 \<union> set p2 = {..<kc_n cfg}" "set p1 \<inter> set p2 = {}" "distinct p1" "distinct p2"
proof -
  obtain k where k: "kc_n cfg = 2 * k + 1" using assms(3) by (auto elim: oddE)
  then have k0: "0 < k" "kc_n cfg div 2 = k" using assms(4) by auto
  let ?xs = "filter (\<lambda>i. i \<noteq> l) [0..<kc_n cfg]" and ?r1 = "replicate (k + 1) (0::nat)" and ?r2 = "replicate k (0::nat)"
  have xs: "set ?xs = {..<kc_n cfg} - {l}" "distinct ?xs" by auto
  have "length ?xs = card (set ?xs)" using distinct_card [OF xs(2)] by simp
  also have "\<dots> = 2 * k" unfolding xs(1) using assms(2) k by simp
  finally have lxs: "length ?xs = 2 * k" .
  obtain q1 q2 where q: "fillParts l [0..<kc_n cfg] 0 ?r1 ?r2 = Inr (q1, q2)" "length q1 = k + 1" "length q2 = k"
      "q1 @ q2 = ?xs @ drop (2 * k) (?r1 @ ?r2)"
    using fillParts_fills [of 0 l "[0..<kc_n cfg]" ?r1 ?r2] unfolding lxs by auto
  have "length (drop (2 * k) (?r1 @ ?r2)) = 1" by simp
  then obtain z where "drop (2 * k) (?r1 @ ?r2) = [z]" by (metis One_nat_def length_0_conv length_Suc_conv)
  then have "butlast (q1 @ q2) = ?xs" unfolding q(4) by (simp only: butlast_snoc)
  then have b: "q1 @ butlast q2 = ?xs" using q(3) k0(1) by (simp add: butlast_append split: if_splits)
  have u: "q2[k - 1 := l] = butlast q2 @ [l]" using q(3) k0(1) by (metis One_nat_def append_butlast_last_id length_butlast length_greater_0_conv list_update_length)
  have "make_partition cfg = Inr (q1, butlast q2 @ [l])"
    using assms(1) q(1-3) k0 u by (auto simp: make_partition_def go_store_def)
  moreover have "l \<notin> set q1" "set q1 \<inter> set (butlast q2 @ [l]) = {}" "distinct q1" "distinct (butlast q2 @ [l])"
    "set q1 \<union> set (butlast q2 @ [l]) = {..<kc_n cfg}"
  proof -
    have "set q1 \<union> set (butlast q2) = {..<kc_n cfg} - {l}" "distinct (q1 @ butlast q2)" using xs unfolding b [symmetric] by simp_all
    then show "l \<notin> set q1" "set q1 \<inter> set (butlast q2 @ [l]) = {}" "distinct q1" "distinct (butlast q2 @ [l])"
      "set q1 \<union> set (butlast q2 @ [l]) = {..<kc_n cfg}" using assms(2) by auto
  qed
  ultimately show ?thesis using that q(2) k0(2) by simp
qed

text \<open>
  C24. With an odd number of at least three started servers, \<^verbatim>\<open>make_partition\<close> puts a majority without the leader into the first part, and after \<^verbatim>\<open>partition\<close> the
  servers of each part can talk to each other and to nobody else, whatever was connected before: the old leader is cut off from every majority.
\<close>

theorem leader_cut_off:
  assumes "allStarted cfg" "Leader cfg = Inr (found, l)" "odd (kc_n cfg)" "kc_n cfg \<noteq> 1"
  shows "\<exists>p1 p2 rn'. make_partition cfg = Inr (p1, p2) \<and> partitionNet p1 p2 cfg rn = Inr rn' \<and>
    length p1 = kc_n cfg div 2 + 1 \<and> l \<notin> set p1 \<and>
    (\<forall>i < kc_n cfg. \<forall>j < kc_n cfg. nw_enabled rn' (EndName (kvName cfg i j)) \<longleftrightarrow> (i \<in> set p1 \<longleftrightarrow> j \<in> set p1))"
proof -
  have "l < kc_n cfg" using assms(2) LeaderFrom_range [of 0 "take (kc_n cfg) (kc_servers cfg)" found l] odd_pos [OF assms(3)] by (auto simp: Leader_def)
  then obtain p1 p2 where p: "make_partition cfg = Inr (p1, p2)" "length p1 = kc_n cfg div 2 + 1" "l \<notin> set p1"
    "set p1 \<union> set p2 = {..<kc_n cfg}" "set p1 \<inter> set p2 = {}" "distinct p1" "distinct p2"
    using make_partition_splits [OF assms(2) _ assms(3,4)] by blast
  then show ?thesis using partitionNet_cuts [OF assms(1) p(4-7), of rn] by auto
qed

lemma mset_randomHandles: "mset (randomHandles i rs sa) = mset sa"
proof (induction i rs sa rule: randomHandles.induct)
  case (2 i r rs sa)
  have "r mod (i + 1) < length sa" if "i < length sa" using mod_less_divisor [of "i + 1" r] that by linarith
  then have "mset (sa[i := sa ! (r mod (i + 1)), r mod (i + 1) := sa ! i]) = mset sa" if "i < length sa"
    using that mset_swap [of "r mod (i + 1)" sa i] by blast
  then show ?case using 2 by (simp add: Let_def)
qed simp

section \<open>Names of ends\<close>

text \<open>The names of the servers started so far are those of ends that exist, and all different.\<close>

definition namesOk :: "kvTest \<Rightarrow> netName Network \<Rightarrow> bool" where
  "namesOk cfg rn \<longleftrightarrow> length (kc_endnames cfg) = kc_n cfg \<and>
     (\<forall>i < kc_n cfg. kc_endnames cfg ! i \<noteq> None \<longrightarrow> length (the (kc_endnames cfg ! i)) = kc_n cfg \<and>
        (\<forall>j < kc_n cfg. nw_ends rn (EndName (kvName cfg i j)) \<noteq> None)) \<and>
     (\<forall>i < kc_n cfg. \<forall>j < kc_n cfg. \<forall>x < kc_n cfg. \<forall>y < kc_n cfg.
        kc_endnames cfg ! i \<noteq> None \<and> kc_endnames cfg ! x \<noteq> None \<and> kvName cfg i j = kvName cfg x y \<longrightarrow> i = x \<and> j = y)"

lemma namesOk_start:
  assumes ok: "namesOk cfg rn" and i: "i < kc_n cfg" and names: "length names = kc_n cfg" and s: "KvStartServer i names addr rnd cfg rn = Inr (cfg', rn')"
  shows "namesOk cfg' rn' \<and> kc_n cfg' = kc_n cfg \<and> kc_endnames cfg' = (kc_endnames cfg)[i := Some names]"
proof -
  obtain rn1 where m: "makeEnds 0 names rn = Inr rn1" using s by (cases "makeEnds 0 names rn") (simp_all add: KvStartServer_def)
  note e = makeEnds_cases [OF m]
  have c: "kc_n cfg' = kc_n cfg" "kc_endnames cfg' = (kc_endnames cfg)[i := Some names]" "nw_ends rn' = nw_ends rn1"
    using s m by (auto simp: KvStartServer_def Let_def AddServer_def)
  have len: "length (kc_endnames cfg) = kc_n cfg" using ok by (simp add: namesOk_def)
  have mine: "kc_endnames cfg' ! i = Some names" and other: "\<And>x. x \<noteq> i \<Longrightarrow> kc_endnames cfg' ! x = kc_endnames cfg ! x" using c(2) i len by simp_all
  have new: "names ! j \<noteq> kvName cfg x y" if "j < kc_n cfg" "x < kc_n cfg" "y < kc_n cfg" "kc_endnames cfg ! x \<noteq> None" for j x y
  proof -
    have "nw_ends rn (EndName (names ! j)) = None" using e names that(1) by simp
    moreover have "nw_ends rn (EndName (kvName cfg x y)) \<noteq> None" using ok that(2-4) unfolding namesOk_def by blast
    ultimately show ?thesis by metis
  qed
  have "a = x \<and> b = y" if "a < kc_n cfg" "b < kc_n cfg" "x < kc_n cfg" "y < kc_n cfg" "kc_endnames cfg' ! a \<noteq> None" "kc_endnames cfg' ! x \<noteq> None"
    "kvName cfg' a b = kvName cfg' x y" for a b x y
  proof (cases "a = i"; cases "x = i")
    assume "a = i" "x = i"
    then show ?thesis using that(2,4,7) mine e names by (simp add: nth_eq_iff_index_eq)
  next
    assume "a \<noteq> i" "x \<noteq> i"
    then show ?thesis using that ok other unfolding namesOk_def by metis
  qed (use that new [of b x y] new [of y a b] mine other in auto)
  moreover have "length (the (kc_endnames cfg' ! a)) = kc_n cfg \<and> (\<forall>b < kc_n cfg. nw_ends rn' (EndName (kvName cfg' a b)) \<noteq> None)"
    if "a < kc_n cfg" "kc_endnames cfg' ! a \<noteq> None" for a
  proof (cases "a = i")
    case True
    then show ?thesis using mine names e c(3) by simp
  next
    case False
    then show ?thesis using that ok e c(3) other [OF False] unfolding namesOk_def by simp
  qed
  ultimately show ?thesis using c len unfolding namesOk_def by simp
qed

lemma KvStartAll_names:
  assumes "KvStartAll names addr rnd is cfg rn = Inr (cfg', rn')" "namesOk cfg rn" "\<forall>i\<in>set is. i < kc_n cfg \<and> length (names i) = kc_n cfg"
  shows "namesOk cfg' rn' \<and> kc_n cfg' = kc_n cfg \<and> (\<forall>i < kc_n cfg. kc_endnames cfg ! i \<noteq> None \<or> i \<in> set is \<longrightarrow> kc_endnames cfg' ! i \<noteq> None)"
  using assms
proof (induction names addr rnd "is" cfg rn rule: KvStartAll.induct)
  case (2 names addr rnd i js cfg rn)
  obtain cfg1 rn1 where s: "KvStartServer i (names i) (addr i) (rnd i) cfg rn = Inr (cfg1, rn1)" using 2(2)
    by (cases "KvStartServer i (names i) (addr i) (rnd i) cfg rn") auto
  have 1: "namesOk cfg1 rn1" "kc_n cfg1 = kc_n cfg" "kc_endnames cfg1 = (kc_endnames cfg)[i := Some (names i)]"
    using namesOk_start [OF 2(3) _ _ s] 2(4) by auto
  have "KvStartAll names addr rnd js cfg1 rn1 = Inr (cfg', rn')" using 2(2) s by simp
  from 2(1) [OF s refl this 1(1)] have r: "namesOk cfg' rn'" "kc_n cfg' = kc_n cfg"
      "\<forall>a < kc_n cfg. kc_endnames cfg1 ! a \<noteq> None \<or> a \<in> set js \<longrightarrow> kc_endnames cfg' ! a \<noteq> None" using 2(4) 1(2) by auto
  have "length (kc_endnames cfg) = kc_n cfg" using 2(3) by (simp add: namesOk_def)
  then have "kc_endnames cfg1 ! a \<noteq> None" if "a < kc_n cfg" "kc_endnames cfg ! a \<noteq> None \<or> a = i" for a
    using that 1(3) by (cases "a = i") auto
  then show ?case using r by auto
qed simp

text \<open>After \<^verbatim>\<open>make_config\<close> all servers are started, with different names.\<close>

lemma kv_make_config_started:
  assumes "kv_make_config n unreliable maxraftstate names addr rnd = Inr (cfg, rn)" "\<forall>i < n. length (names i) = n"
  shows "allStarted cfg \<and> kc_n cfg = n"
proof -
  let ?cfg = "\<lparr>kc_n = n, kc_servers = replicate n None, kc_saved = replicate n None, kc_endnames = replicate n None,
    kc_clerks = Map.empty, kc_nextClientId = int n + 1000, kc_maxraftstate = maxraftstate, kc_rpcs0 = 0, kc_ops = 0\<rparr>"
  obtain rn1 where "KvStartAll names addr rnd [0..<n] ?cfg MakeNetwork = Inr (cfg, rn1)"
    using assms(1) by (auto simp: kv_make_config_def Let_def split: sum.splits prod.splits)
  moreover have "namesOk ?cfg MakeNetwork" by (simp add: namesOk_def)
  ultimately have "namesOk cfg rn1" "kc_n cfg = n" "\<forall>i < n. kc_endnames cfg ! i \<noteq> None"
    using KvStartAll_names [of names addr rnd "[0..<n]" ?cfg MakeNetwork cfg rn1] assms(2) by auto
  then show ?thesis by (auto simp: allStarted_def namesOk_def)
qed

section \<open>Examples\<close>

text \<open>Three servers, the second is leader.\<close>

definition exKvServer :: "nat \<Rightarrow> KVServer" where
  "exKvServer i = (let kv = StartKVServer 3 i MakePersister (-1) 0 in if i = 1 then kv\<lparr>kv_rf := (kv_rf kv)\<lparr>state := StateLeader\<rparr>\<rparr> else kv)"

definition exKvTest :: kvTest where
  "exKvTest = \<lparr>kc_n = 3, kc_servers = map (\<lambda>i. Some (exKvServer i)) [0, 1, 2], kc_saved = [None, None, None],
     kc_endnames = [Some [''a'', ''b'', ''c''], Some [''d'', ''e'', ''f''], Some [''g'', ''h'', ''i'']],
     kc_clerks = Map.empty, kc_nextClientId = 1003, kc_maxraftstate = -1, kc_rpcs0 = 0, kc_ops = 0\<rparr>"

lemma exKvTest_started: "allStarted exKvTest"
  by (simp add: allStarted_def exKvTest_def numeral_3_eq_3 All_less_Suc2)

lemma exKvTest_leader: "Leader exKvTest = Inr (True, 1)"
  by (simp add: Leader_def exKvTest_def exKvServer_def GetState_def StartKVServer_def persister_defs Make_def readPersist_def Let_def)

theorem leader_cut_off_witness:
  "\<exists>p1 p2 rn'. make_partition exKvTest = Inr (p1, p2) \<and> partitionNet p1 p2 exKvTest MakeNetwork = Inr rn' \<and> length p1 = 2 \<and> 1 \<notin> set p1"
  using leader_cut_off [OF exKvTest_started exKvTest_leader, of MakeNetwork] by (auto simp: exKvTest_def)

text \<open>
  The second loop of \<^verbatim>\<open>disconnectUnlocked\<close> is meant to skip servers that were not started. With server 1 not started it looks at server 0
  instead and panics.
\<close>

lemma disconnect_not_started: "disconnectUnlocked 0 [1] (exKvTest\<lparr>kc_endnames := [Some [''a'', ''b'', ''c''], None, None]\<rparr>) MakeNetwork = Inl IndexOutOfRange"
  by (simp add: disconnectUnlocked_def nameOf_def go_index_def)

end
