(* ===== verification/ShardCtrler_Config.thy ===== *)
theory ShardCtrler_Config
  imports Go_Prelude "HOL-Library.Finite_Map"
begin

text \<open>
  \<^verbatim>\<open>shardctrler/common.go\<close> and the load balancing of \<^verbatim>\<open>shardctrler/server.go\<close>. A configuration assigns each
  of the ten shards to a replica group; \<^verbatim>\<open>rebalance\<close> spreads the shards over the groups. The map
  \<^verbatim>\<open>Groups\<close> is a finite map; the order in which Go enumerates a map is unspecified, so the loop that
  writes the result back takes the order as an argument.
\<close>

section \<open>Data\<close>

definition NShards :: nat where "NShards = 10"

record Config =
  Num :: int
  Shards :: "int list"
  Groups :: "(int, string list) fmap"

section \<open>rebalance\<close>

definition sortedGIDs :: "(int, string list) fmap \<Rightarrow> int list" where
  "sortedGIDs groups = sorted_list_of_fset (fmdom groups)"

text \<open>The number of shards that the \<^verbatim>\<open>i\<close>-th group gets.\<close>

definition targetOf :: "nat \<Rightarrow> nat \<Rightarrow> nat \<Rightarrow> nat" where
  "targetOf avg extra i = (if i < extra then avg + 1 else avg)"

type_synonym ownedMap = "int \<rightharpoonup> nat list"

text \<open>The loop over \<^verbatim>\<open>cfg.Shards\<close> that splits the shards into owned and unassigned ones.\<close>

fun countOwned :: "nat \<Rightarrow> int list \<Rightarrow> ownedMap \<Rightarrow> nat list \<Rightarrow> ownedMap \<times> nat list" where
  "countOwned shard [] owned unassigned = (owned, unassigned)"
| "countOwned shard (gid # rest) owned unassigned =
     (if gid = 0 \<or> owned gid = None
      then countOwned (Suc shard) rest owned (unassigned @ [shard])
      else countOwned (Suc shard) rest (owned(gid \<mapsto> the (owned gid) @ [shard])) unassigned)"

text \<open>The loop that moves the excess of every group to the pool.\<close>

fun trimExcess :: "nat \<Rightarrow> nat \<Rightarrow> nat \<Rightarrow> int list \<Rightarrow> ownedMap \<Rightarrow> nat list \<Rightarrow> ownedMap \<times> nat list" where
  "trimExcess avg extra i [] owned pool = (owned, pool)"
| "trimExcess avg extra i (gid # gids) owned pool =
     (let target = targetOf avg extra i; shards = the (owned gid) in
      if length shards > target
      then trimExcess avg extra (Suc i) gids (owned(gid \<mapsto> take target shards))
             (pool @ drop target shards)
      else trimExcess avg extra (Suc i) gids owned pool)"

text \<open>\<^verbatim>\<open>for len(owned[gid]) < target\<close>: taking from an empty pool is an index panic.\<close>

function fillGroup :: "nat \<Rightarrow> nat list \<Rightarrow> nat list \<Rightarrow> (nat list \<times> nat list) go" where
  "fillGroup target shards pool =
     (if length shards < target
      then (case pool of [] \<Rightarrow> Inl IndexOutOfRange
            | s # pool' \<Rightarrow> fillGroup target (shards @ [s]) pool')
      else Inr (shards, pool))"
  by pat_completeness auto
termination
  by (relation "measure (\<lambda>(target, shards, pool). target - length shards)") auto

declare fillGroup.simps [simp del]

fun fillGroups ::
    "nat \<Rightarrow> nat \<Rightarrow> nat \<Rightarrow> int list \<Rightarrow> ownedMap \<Rightarrow> nat list \<Rightarrow> (ownedMap \<times> nat list) go" where
  "fillGroups avg extra i [] owned pool = Inr (owned, pool)"
| "fillGroups avg extra i (gid # gids) owned pool =
     (case fillGroup (targetOf avg extra i) (the (owned gid)) pool of
        Inl p \<Rightarrow> Inl p
      | Inr (shards, pool') \<Rightarrow> fillGroups avg extra (Suc i) gids (owned(gid \<mapsto> shards)) pool')"

fun writeShards :: "nat list \<Rightarrow> int \<Rightarrow> int list \<Rightarrow> int list" where
  "writeShards [] gid sh = sh"
| "writeShards (s # rest) gid sh = writeShards rest gid (sh[s := gid])"

fun writeOwned :: "int list \<Rightarrow> ownedMap \<Rightarrow> int list \<Rightarrow> int list" where
  "writeOwned [] owned sh = sh"
| "writeOwned (gid # order) owned sh = writeOwned order owned (writeShards (the (owned gid)) gid sh)"

definition rebalanceWith :: "int list \<Rightarrow> Config \<Rightarrow> Config go" where
  "rebalanceWith order cfg =
     (let nGroups = fcard (fmdom (Groups cfg)) in
      if nGroups = 0 then Inr (cfg\<lparr>Shards := map (\<lambda>_. 0) (Shards cfg)\<rparr>)
      else
       let gids = sortedGIDs (Groups cfg);
           avg = NShards div nGroups;
           extra = NShards mod nGroups;
           (owned1, pool1) = countOwned 0 (Shards cfg) (map_of (map (\<lambda>gid. (gid, [])) gids)) [];
           (owned2, pool2) = trimExcess avg extra 0 gids owned1 pool1
       in case fillGroups avg extra 0 gids owned2 pool2 of
            Inl p \<Rightarrow> Inl p
          | Inr (owned3, pool3) \<Rightarrow> Inr (cfg\<lparr>Shards := writeOwned order owned3 (Shards cfg)\<rparr>))"

definition rebalance :: "Config \<Rightarrow> Config go" where
  "rebalance cfg = rebalanceWith (sortedGIDs (Groups cfg)) cfg"

section \<open>The parts of rebalance\<close>

text \<open>All shards that the groups hold or that lie in the pool.\<close>

definition heldShards :: "int list \<Rightarrow> ownedMap \<Rightarrow> nat list" where
  "heldShards gids owned = concat (map (\<lambda>g. the (owned g)) gids)"

lemma heldShards_Cons [simp]: "heldShards (g # gids) owned = the (owned g) @ heldShards gids owned"
  by (simp add: heldShards_def)

lemma heldShards_Nil [simp]: "heldShards [] owned = []"
  by (simp add: heldShards_def)

lemma heldShards_upd_other [simp]: "g \<notin> set gids \<Longrightarrow> heldShards gids (owned(g \<mapsto> x)) = heldShards gids owned"
  by (induction gids) auto

lemma heldShards_append:
  "distinct gids \<Longrightarrow> g \<in> set gids \<Longrightarrow>
   mset (heldShards gids (owned(g \<mapsto> the (owned g) @ xs))) = mset (heldShards gids owned) + mset xs"
  by (induction gids) auto

lemma countOwned_spec:
  assumes "countOwned shard sh owned un = (owned', un')" "distinct gids" "dom owned = set gids"
  shows "dom owned' = set gids \<and>
    mset (heldShards gids owned') + mset un' =
      mset (heldShards gids owned) + mset un + mset [shard..<shard + length sh]"
  using assms
proof (induction sh arbitrary: shard owned un)
  case (Cons gid sh)
  have upt: "[shard..<shard + length (gid # sh)] = shard # [Suc shard..<Suc shard + length sh]"
    by (simp add: upt_rec)
  show ?case
  proof (cases "gid = 0 \<or> owned gid = None")
    case True
    then show ?thesis
      using Cons.IH [of "Suc shard" owned "un @ [shard]"] Cons.prems unfolding upt by simp
  next
    case False
    then have g: "gid \<in> set gids" using Cons.prems(3) by auto
    define owned1 where "owned1 = owned(gid \<mapsto> the (owned gid) @ [shard])"
    have "dom owned1 = set gids" using Cons.prems(3) g by (auto simp: owned1_def)
    moreover have "countOwned (Suc shard) sh owned1 un = (owned', un')"
      using Cons.prems(1) False by (simp add: owned1_def)
    moreover have "mset (heldShards gids owned1) = mset (heldShards gids owned) + mset [shard]"
      using heldShards_append [OF Cons.prems(2) g] by (simp add: owned1_def)
    ultimately show ?thesis
      using Cons.IH [of "Suc shard" owned1 un] Cons.prems(2) unfolding upt by simp
  qed
qed auto

lemma trimExcess_other: "g \<notin> set gids \<Longrightarrow> fst (trimExcess avg extra i gids owned pool) g = owned g"
  by (induction gids arbitrary: i owned pool) (auto simp: Let_def)

lemma trimExcess_spec:
  assumes "trimExcess avg extra i gids owned pool = (owned', pool')" "distinct gids"
  shows "mset (heldShards gids owned') + mset pool' = mset (heldShards gids owned) + mset pool"
    "\<forall>j < length gids. length (the (owned' (gids ! j))) \<le> targetOf avg extra (i + j)"
proof -
  have "mset (heldShards gids owned') + mset pool' = mset (heldShards gids owned) + mset pool \<and>
    (\<forall>j < length gids. length (the (owned' (gids ! j))) \<le> targetOf avg extra (i + j))"
    using assms
  proof (induction gids arbitrary: i owned pool)
    case (Cons g gids)
    let ?t = "targetOf avg extra i" and ?s = "the (owned g)"
    define owned1 where "owned1 = (if length ?s > ?t then owned(g \<mapsto> take ?t ?s) else owned)"
    define pool1 where "pool1 = (if length ?s > ?t then pool @ drop ?t ?s else pool)"
    have run: "trimExcess avg extra (Suc i) gids owned1 pool1 = (owned', pool')"
      using Cons.prems(1) by (auto simp: Let_def owned1_def pool1_def split: if_splits)
    have g: "owned' g = owned1 g"
      using trimExcess_other [of g gids avg extra "Suc i" owned1 pool1] Cons.prems(2) run by simp
    have held: "heldShards gids owned1 = heldShards gids owned"
      using Cons.prems(2) by (simp add: owned1_def)
    have "mset (the (owned1 g)) + mset pool1 = mset ?s + mset pool"
    proof -
      have "mset (take ?t ?s) + mset (drop ?t ?s) = mset ?s"
        by (metis append_take_drop_id mset_append)
      then show ?thesis by (auto simp: owned1_def pool1_def ac_simps)
    qed
    moreover have "length (the (owned1 g)) \<le> ?t" by (simp add: owned1_def)
    ultimately show ?case
      using Cons.IH [OF run] Cons.prems(2) g held
      by (auto simp: less_Suc_eq_0_disj ac_simps) (metis add.assoc add.commute)+
  qed simp
  then show "mset (heldShards gids owned') + mset pool' = mset (heldShards gids owned) + mset pool"
    "\<forall>j < length gids. length (the (owned' (gids ! j))) \<le> targetOf avg extra (i + j)" by blast+
qed

lemma fillGroup_enough:
  "target - length shards \<le> length pool \<Longrightarrow>
   fillGroup target shards pool =
     Inr (shards @ take (target - length shards) pool, drop (target - length shards) pool)"
proof (induction target shards pool rule: fillGroup.induct)
  case (1 target shards pool)
  show ?case
  proof (cases "length shards < target")
    case True
    then obtain s pool' where pool: "pool = s # pool'" using "1.prems" by (cases pool) auto
    have "target - length shards = Suc (target - length (shards @ [s]))" using True by simp
    with 1 True pool show ?thesis by (simp add: fillGroup.simps [of target shards])
  next
    case False
    then show ?thesis by (simp add: fillGroup.simps [of target shards])
  qed
qed


definition deficit :: "nat \<Rightarrow> nat \<Rightarrow> nat \<Rightarrow> int list \<Rightarrow> ownedMap \<Rightarrow> nat" where
  "deficit avg extra i gids owned =
     (\<Sum>j < length gids. targetOf avg extra (i + j) - length (the (owned (gids ! j))))"

lemma deficit_Cons:
  "deficit avg extra i (g # gids) owned =
     (targetOf avg extra i - length (the (owned g))) + deficit avg extra (Suc i) gids owned"
  unfolding deficit_def by (simp add: sum.lessThan_Suc_shift del: sum.lessThan_Suc)

lemma deficit_upd_other: "g \<notin> set gids \<Longrightarrow> deficit avg extra i gids (owned(g \<mapsto> x)) = deficit avg extra i gids owned"
  unfolding deficit_def by (intro sum.cong) (auto simp: nth_mem)

lemma fillGroups_spec:
  assumes "distinct gids" "deficit avg extra i gids owned \<le> length pool"
    and "\<forall>j < length gids. length (the (owned (gids ! j))) \<le> targetOf avg extra (i + j)"
  shows "\<exists>owned' pool'. fillGroups avg extra i gids owned pool = Inr (owned', pool') \<and>
    (\<forall>g. g \<notin> set gids \<longrightarrow> owned' g = owned g) \<and>
    length pool' = length pool - deficit avg extra i gids owned \<and>
    mset (heldShards gids owned') + mset pool' = mset (heldShards gids owned) + mset pool \<and>
    (\<forall>j < length gids. length (the (owned' (gids ! j))) = targetOf avg extra (i + j))"
  using assms
proof (induction gids arbitrary: i owned pool)
  case (Cons g gids)
  let ?s = "the (owned g)" and ?t = "targetOf avg extra i"
  let ?d = "?t - length ?s"
  define owned1 where "owned1 = owned(g \<mapsto> ?s @ take ?d pool)"
  have le: "length ?s \<le> ?t" using Cons.prems(3) by force
  have d: "?d + deficit avg extra (Suc i) gids owned \<le> length pool"
    using Cons.prems(2) by (simp add: deficit_Cons)
  have fill: "fillGroup ?t ?s pool = Inr (?s @ take ?d pool, drop ?d pool)"
    using d by (intro fillGroup_enough) simp
  have other: "owned1 (gids ! j) = owned (gids ! j)" if "j < length gids" for j
    using that Cons.prems(1) by (auto simp: owned1_def)
  have dist: "distinct gids" using Cons.prems(1) by simp
  have enough: "deficit avg extra (Suc i) gids owned1 \<le> length (drop ?d pool)"
    using d Cons.prems(1) by (simp add: deficit_upd_other owned1_def)
  have below: "\<forall>j < length gids. length (the (owned1 (gids ! j))) \<le> targetOf avg extra (Suc i + j)"
    using Cons.prems(3) other by (metis Suc_less_eq add_Suc_shift length_Cons nth_Cons_Suc)
  obtain owned' pool' where IH: "fillGroups avg extra (Suc i) gids owned1 (drop ?d pool) = Inr (owned', pool')"
    "\<forall>g. g \<notin> set gids \<longrightarrow> owned' g = owned1 g"
    "length pool' = length (drop ?d pool) - deficit avg extra (Suc i) gids owned1"
    "mset (heldShards gids owned') + mset pool' = mset (heldShards gids owned1) + mset (drop ?d pool)"
    "\<forall>j < length gids. length (the (owned' (gids ! j))) = targetOf avg extra (Suc i + j)"
    using Cons.IH [OF dist enough below] by blast
  have g: "owned' g = Some (?s @ take ?d pool)"
    using IH(2) Cons.prems(1) by (simp add: owned1_def)
  have held: "heldShards gids owned1 = heldShards gids owned" "deficit avg extra (Suc i) gids owned1 = deficit avg extra (Suc i) gids owned"
    using Cons.prems(1) by (simp_all add: owned1_def deficit_upd_other)
  have split: "mset (take ?d pool) + mset (drop ?d pool) = mset pool"
    by (metis append_take_drop_id mset_append)
  have "mset (heldShards (g # gids) owned') + mset pool' =
      mset ?s + mset (take ?d pool) + (mset (heldShards gids owned') + mset pool')"
    by (simp add: g)
  also have "\<dots> = mset ?s + mset (heldShards gids owned) + (mset (take ?d pool) + mset (drop ?d pool))"
    unfolding IH(4) held(1) by (simp only: ac_simps)
  also have "\<dots> = mset (heldShards (g # gids) owned) + mset pool"
    unfolding split by simp
  finally have "mset (heldShards (g # gids) owned') + mset pool' = mset (heldShards (g # gids) owned) + mset pool" .
  moreover have "length (the (owned' ((g # gids) ! j))) = targetOf avg extra (i + j)" if "j < length (g # gids)" for j
    using that IH(5) g d le by (cases j) auto
  moreover have "fillGroups avg extra i (g # gids) owned pool = Inr (owned', pool')"
    using fill IH(1) by (simp add: owned1_def)
  moreover have "\<forall>h. h \<notin> set (g # gids) \<longrightarrow> owned' h = owned h"
    using IH(2) by (simp add: owned1_def)
  moreover have "length pool' = length pool - deficit avg extra i (g # gids) owned"
    using IH(3) held(2) by (simp add: deficit_Cons)
  ultimately show ?case by blast
qed (simp add: deficit_def)


section \<open>Writing back\<close>

lemma writeShards_length [simp]: "length (writeShards shs g sh) = length sh"
  by (induction shs arbitrary: sh) auto

lemma writeShards_nth:
  "s < length sh \<Longrightarrow> writeShards shs g sh ! s = (if s \<in> set shs then g else sh ! s)"
  by (induction shs arbitrary: sh) (auto simp: nth_list_update)

lemma writeOwned_length [simp]: "length (writeOwned order owned sh) = length sh"
  by (induction order arbitrary: sh) auto

lemma writeOwned_other:
  "s < length sh \<Longrightarrow> \<forall>g \<in> set order. s \<notin> set (the (owned g)) \<Longrightarrow> writeOwned order owned sh ! s = sh ! s"
  by (induction order arbitrary: sh) (auto simp: writeShards_nth)

lemma writeOwned_nth:
  assumes "s < length sh" "g \<in> set order" "s \<in> set (the (owned g))"
    and "\<forall>h \<in> set order. s \<in> set (the (owned h)) \<longrightarrow> h = g"
  shows "writeOwned order owned sh ! s = g"
  using assms
proof (induction order arbitrary: sh)
  case (Cons h order)
  show ?case
  proof (cases "g \<in> set order")
    case True
    have "\<forall>h \<in> set order. s \<in> set (the (owned h)) \<longrightarrow> h = g" using Cons.prems(4) by simp
    from Cons.IH [OF _ True Cons.prems(3) this, of "writeShards (the (owned h)) h sh"] Cons.prems(1)
    show ?thesis by (simp only: writeOwned.simps writeShards_length)
  next
    case False
    then have "h = g" using Cons.prems(2) by simp
    moreover have "\<forall>h \<in> set order. s \<notin> set (the (owned h))"
      using False Cons.prems(4) by auto
    ultimately show ?thesis using Cons.prems(1,3) by (simp add: writeOwned_other writeShards_nth)
  qed
qed simp

definition soleOwner :: "int list \<Rightarrow> ownedMap \<Rightarrow> nat \<Rightarrow> int \<Rightarrow> bool" where
  "soleOwner gids owned s g \<longleftrightarrow> g \<in> set gids \<and> s \<in> set (the (owned g)) \<and>
     (\<forall>h \<in> set gids. s \<in> set (the (owned h)) \<longrightarrow> h = g)"

lemma soleOwner_cong: "set order = set gids \<Longrightarrow> soleOwner order owned s g = soleOwner gids owned s g"
  by (simp add: soleOwner_def)

lemma writeOwned_sole:
  "soleOwner order owned s g \<Longrightarrow> s < length sh \<Longrightarrow> writeOwned order owned sh ! s = g"
  unfolding soleOwner_def by (rule writeOwned_nth) blast+

text \<open>
  What the loops before the write-back achieve: they do not panic, and each group ends with
  exactly its target of the shards, every shard with one group.
\<close>

definition distributed :: "nat \<Rightarrow> int list \<Rightarrow> ownedMap \<Rightarrow> bool" where
  "distributed n gids owned \<longleftrightarrow>
     mset (heldShards gids owned) = mset [0..<n] \<and>
     (\<forall>j < length gids. length (the (owned (gids ! j))) =
        targetOf (n div length gids) (n mod length gids) j)"

lemma sum_targetOf: "0 < m \<Longrightarrow> (\<Sum>j < m. targetOf (n div m) (n mod m) j) = n"
proof -
  assume "0 < m"
  have "(\<Sum>j < k. targetOf a e j) = k * a + min k e" for a e k
    by (induction k) (auto simp: targetOf_def)
  moreover have "min m (n mod m) = n mod m" using \<open>0 < m\<close> by (simp add: min_absorb2 less_imp_le)
  ultimately show ?thesis by simp
qed

lemma length_heldShards: "length (heldShards gids owned) = (\<Sum>j < length gids. length (the (owned (gids ! j))))"
  by (simp add: heldShards_def length_concat sum_list_sum_nth comp_def atLeast0LessThan)

lemma distribution:
  assumes "distinct gids" "gids \<noteq> []"
    and "countOwned 0 sh (map_of (map (\<lambda>gid. (gid, [])) gids)) [] = (owned1, pool1)"
    and "trimExcess (length sh div length gids) (length sh mod length gids) 0 gids owned1 pool1 = (owned2, pool2)"
  shows "\<exists>owned3. fillGroups (length sh div length gids) (length sh mod length gids) 0 gids owned2 pool2 =
      Inr (owned3, []) \<and> distributed (length sh) gids owned3"
proof -
  let ?n = "length sh" and ?m = "length gids"
  let ?avg = "?n div ?m" and ?extra = "?n mod ?m"
  have "heldShards xs (map_of (map (\<lambda>gid. (gid, [])) gids)) = []" if "set xs \<subseteq> set gids" for xs
    using that by (induction xs) (auto simp: map_of_map_restrict restrict_map_def)
  then have m1: "mset (heldShards gids owned1) + mset pool1 = mset [0..<?n]"
    using countOwned_spec [OF assms(3,1)] by (auto simp: dom_map_of_conv_image_fst image_image)
  note trim = trimExcess_spec [OF assms(4,1)]
  have m2: "mset (heldShards gids owned2) + mset pool2 = mset [0..<?n]" using trim(1) m1 by simp
  then have "length (heldShards gids owned2) + length pool2 = ?n"
    by (metis diff_zero length_upt size_mset size_union)
  moreover have "deficit ?avg ?extra 0 gids owned2 + length (heldShards gids owned2) = ?n"
    using sum_targetOf [of ?m ?n] assms(2) trim(2)
    by (simp add: deficit_def length_heldShards flip: sum.distrib)
  ultimately have def_eq: "deficit ?avg ?extra 0 gids owned2 = length pool2" by simp
  obtain owned3 pool3 where fill: "fillGroups ?avg ?extra 0 gids owned2 pool2 = Inr (owned3, pool3)"
    "length pool3 = 0" "mset (heldShards gids owned3) + mset pool3 = mset [0..<?n]"
    "\<forall>j < ?m. length (the (owned3 (gids ! j))) = targetOf ?avg ?extra j"
    using fillGroups_spec [OF assms(1), of ?avg ?extra 0 owned2 pool2] def_eq trim(2) m2 by auto
  then show ?thesis by (auto simp: distributed_def)
qed


section \<open>Correctness of rebalance\<close>

lemma sortedGIDs_facts:
  "distinct (sortedGIDs gs)" "set (sortedGIDs gs) = fset (fmdom gs)"
  "length (sortedGIDs gs) = fcard (fmdom gs)" "sorted (sortedGIDs gs)"
  by (simp_all add: sortedGIDs_def sorted_list_of_fset.rep_eq fcard.rep_eq)

lemma distributed_owner:
  assumes "distributed n gids owned" "distinct gids" "s < n"
  shows "\<exists>g. soleOwner gids owned s g"
proof -
  have m: "mset (heldShards gids owned) = mset [0..<n]" using assms(1) by (simp add: distributed_def)
  then have "s \<in> set (heldShards gids owned)" using assms(3) by (metis mset_eq_setD atLeastLessThan_iff le0 set_upt)
  then obtain g where g: "g \<in> set gids" "s \<in> set (the (owned g))" by (auto simp: heldShards_def)
  have "distinct (heldShards gids owned)" using m by (metis distinct_upt mset_eq_imp_distinct_iff)
  then have "h = g" if "h \<in> set gids" "s \<in> set (the (owned h))" for h
    using that g assms(2) by (induction gids) (auto simp: heldShards_def)
  with g show ?thesis unfolding soleOwner_def by blast
qed

lemma distinct_held: "distinct (heldShards gids owned) \<Longrightarrow> g \<in> set gids \<Longrightarrow> distinct (the (owned g))"
  by (induction gids) auto

lemma distributed_count:
  assumes "distributed (length sh) gids owned" "distinct gids" "set order = set gids" "j < length gids"
  shows "count_list (writeOwned order owned sh) (gids ! j) =
    targetOf (length sh div length gids) (length sh mod length gids) j"
proof -
  let ?g = "gids ! j" and ?res = "writeOwned order owned sh"
  have g: "?g \<in> set gids" using assms(4) by simp
  have "?res ! s = ?g \<longleftrightarrow> s \<in> set (the (owned ?g))" if s: "s < length sh" for s
  proof -
    obtain h where h: "soleOwner gids owned s h"
      using distributed_owner [OF assms(1,2) s] by blast
    then have "?res ! s = h" using writeOwned_sole [OF _ s] soleOwner_cong [OF assms(3)] by blast
    moreover have "s \<in> set (the (owned ?g)) \<longleftrightarrow> h = ?g" using h g unfolding soleOwner_def by blast
    ultimately show ?thesis by simp
  qed
  moreover have "set (the (owned ?g)) \<subseteq> {..<length sh}"
  proof -
    have "set (the (owned ?g)) \<subseteq> set (heldShards gids owned)" using g by (auto simp: heldShards_def)
    also have "\<dots> = {..<length sh}" using assms(1) unfolding distributed_def
      by (metis atLeast0LessThan mset_eq_setD set_upt)
    finally show ?thesis .
  qed
  ultimately have "{s. s < length ?res \<and> ?res ! s = ?g} = set (the (owned ?g))" by auto
  moreover have "distinct (the (owned ?g))"
  proof -
    have "distinct (heldShards gids owned)" using assms(1) unfolding distributed_def
      by (metis distinct_upt mset_eq_imp_distinct_iff)
    then show ?thesis using g by (rule distinct_held)
  qed
  moreover have "length (filter ((=) ?g) ?res) = card {s. s < length ?res \<and> ?res ! s = ?g}"
    by (simp add: length_filter_conv_card eq_commute)
  ultimately have "count_list ?res ?g = length (the (owned ?g))"
    by (simp add: count_list_eq_length_filter distinct_card)
  then show ?thesis using assms(1,4) by (simp add: distributed_def)
qed

lemma rebalanceWith_nonempty:
  assumes "length (Shards cfg) = NShards" "fmdom (Groups cfg) \<noteq> {||}"
  obtains owned where
    "\<And>order. rebalanceWith order cfg = Inr (cfg\<lparr>Shards := writeOwned order owned (Shards cfg)\<rparr>)"
    "distributed NShards (sortedGIDs (Groups cfg)) owned"
proof -
  let ?gids = "sortedGIDs (Groups cfg)"
  note gids = sortedGIDs_facts [of "Groups cfg"]
  obtain owned1 pool1 where 1: "countOwned 0 (Shards cfg) (map_of (map (\<lambda>gid. (gid, [])) ?gids)) [] = (owned1, pool1)"
    by fastforce
  obtain owned2 pool2 where 2: "trimExcess (NShards div length ?gids) (NShards mod length ?gids) 0 ?gids owned1 pool1 = (owned2, pool2)"
    by fastforce
  have ne: "?gids \<noteq> []" using gids(2) assms(2) by auto
  obtain owned3 where 3: "fillGroups (NShards div length ?gids) (NShards mod length ?gids) 0 ?gids owned2 pool2 = Inr (owned3, [])"
    "distributed NShards ?gids owned3"
    using distribution [OF gids(1) ne 1] 2 assms(1) by auto
  have "fcard (fmdom (Groups cfg)) \<noteq> 0" using ne gids(3) by (metis length_0_conv)
  then have "rebalanceWith order cfg = Inr (cfg\<lparr>Shards := writeOwned order owned3 (Shards cfg)\<rparr>)" for order
    using 1 2 3(1) gids(3) by (simp add: rebalanceWith_def Let_def)
  then show thesis using 3(2) by (rule that)
qed

lemma rebalance_result:
  assumes "length (Shards cfg) = NShards" "fmdom (Groups cfg) \<noteq> {||}"
  shows "\<exists>cfg'. rebalance cfg = Inr cfg' \<and> Num cfg' = Num cfg \<and> Groups cfg' = Groups cfg \<and>
    length (Shards cfg') = NShards \<and> set (Shards cfg') \<subseteq> fset (fmdom (Groups cfg)) \<and>
    (\<forall>i < length (sortedGIDs (Groups cfg)).
       count_list (Shards cfg') (sortedGIDs (Groups cfg) ! i) =
         NShards div length (sortedGIDs (Groups cfg)) +
         (if i < NShards mod length (sortedGIDs (Groups cfg)) then 1 else 0))"
proof -
  let ?gids = "sortedGIDs (Groups cfg)"
  note gids = sortedGIDs_facts [of "Groups cfg"]
  obtain owned where res: "\<And>order. rebalanceWith order cfg = Inr (cfg\<lparr>Shards := writeOwned order owned (Shards cfg)\<rparr>)"
    and dist: "distributed NShards ?gids owned"
    using rebalanceWith_nonempty [OF assms] by blast
  let ?sh = "writeOwned ?gids owned (Shards cfg)"
  have "?sh ! s \<in> set ?gids" if s: "s < NShards" for s
  proof -
    obtain g where g: "soleOwner ?gids owned s g"
      using distributed_owner [OF dist gids(1) s] by blast
    then have "?sh ! s = g" using writeOwned_sole [OF g] s assms(1) by simp
    then show ?thesis using g by (simp add: soleOwner_def)
  qed
  then have "set ?sh \<subseteq> set ?gids" using assms(1) by (auto simp: in_set_conv_nth)
  moreover have "count_list ?sh (?gids ! i) = NShards div length ?gids + (if i < NShards mod length ?gids then 1 else 0)"
    if "i < length ?gids" for i
    using distributed_count [of "Shards cfg" ?gids owned ?gids i] dist assms(1) gids(1) that
    by (simp add: targetOf_def)
  ultimately show ?thesis using res [of ?gids] assms(1) gids(2) by (simp add: rebalance_def)
qed

text \<open>
  C14. With at least one group, \<^verbatim>\<open>rebalance\<close> never takes a shard from an empty pool; it gives every shard to
  a group, and the \<^verbatim>\<open>i\<close>-th group in the order of identifiers gets the average, plus one while the
  remainder lasts.
\<close>

theorem rebalance_balanced:
  assumes "length (Shards cfg) = NShards" "fmdom (Groups cfg) \<noteq> {||}"
  shows "\<exists>cfg'. rebalance cfg = Inr cfg' \<and> Num cfg' = Num cfg \<and> Groups cfg' = Groups cfg \<and>
    length (Shards cfg') = NShards \<and> set (Shards cfg') \<subseteq> fset (fmdom (Groups cfg)) \<and>
    (\<forall>i < length (sortedGIDs (Groups cfg)).
       count_list (Shards cfg') (sortedGIDs (Groups cfg) ! i) =
         NShards div length (sortedGIDs (Groups cfg)) +
         (if i < NShards mod length (sortedGIDs (Groups cfg)) then 1 else 0))"
  using assms by (rule rebalance_result)

definition exGroups :: "(int, string list) fmap" where
  "exGroups = fmupd 2 [''b''] (fmupd 1 [''a''] (fmupd 3 [''c''] fmempty))"

definition exConfig :: Config where
  "exConfig = \<lparr>Num = 4, Shards = [1, 1, 1, 1, 1, 0, 0, 2, 2, 9], Groups = exGroups\<rparr>"

lemma exGroups_sorted: "sortedGIDs exGroups = [1, 2, 3]"
  using sortedGIDs_facts [of exGroups]
  by (intro sorted_distinct_set_unique) (auto simp: exGroups_def)

theorem rebalance_balanced_witness:
  "\<exists>cfg'. rebalance exConfig = Inr cfg' \<and>
     count_list (Shards cfg') 1 = 4 \<and> count_list (Shards cfg') 2 = 3 \<and> count_list (Shards cfg') 3 = 3"
proof -
  have len: "length (Shards exConfig) = NShards" and ne: "fmdom (Groups exConfig) \<noteq> {||}"
    by (simp_all add: exConfig_def NShards_def exGroups_def)
  obtain cfg' where res: "rebalance exConfig = Inr cfg'" and cnt:
    "\<forall>i < length (sortedGIDs (Groups exConfig)).
       count_list (Shards cfg') (sortedGIDs (Groups exConfig) ! i) =
         NShards div length (sortedGIDs (Groups exConfig)) +
         (if i < NShards mod length (sortedGIDs (Groups exConfig)) then 1 else 0)"
    using rebalance_balanced [OF len ne] by blast
  have g: "sortedGIDs (Groups exConfig) = [1, 2, 3]" by (simp add: exConfig_def exGroups_sorted)
  from cnt [rule_format, of 0] cnt [rule_format, of 1] cnt [rule_format, of 2] res
  show ?thesis unfolding g by (simp add: NShards_def)
qed

text \<open>
  C33. The result does not depend on the order in which the last loop of \<^verbatim>\<open>rebalance\<close> enumerates the map
  \<^verbatim>\<open>owned\<close>: all replicas compute the same configuration.
\<close>

theorem rebalance_deterministic:
  assumes "length (Shards cfg) = NShards" "set order = fset (fmdom (Groups cfg))"
  shows "rebalanceWith order cfg = rebalance cfg"
proof (cases "fmdom (Groups cfg) = {||}")
  case True
  then show ?thesis by (simp add: rebalance_def rebalanceWith_def)
next
  case False
  let ?gids = "sortedGIDs (Groups cfg)"
  note gids = sortedGIDs_facts [of "Groups cfg"]
  obtain owned where res: "\<And>order. rebalanceWith order cfg = Inr (cfg\<lparr>Shards := writeOwned order owned (Shards cfg)\<rparr>)"
    and dist: "distributed NShards ?gids owned"
    using rebalanceWith_nonempty [OF assms(1) False] by blast
  have "writeOwned order owned (Shards cfg) = writeOwned ?gids owned (Shards cfg)"
  proof (rule nth_equalityI)
    fix s assume "s < length (writeOwned order owned (Shards cfg))"
    then have s: "s < length (Shards cfg)" "s < NShards" using assms(1) by simp_all
    obtain g where g: "soleOwner ?gids owned s g"
      using distributed_owner [OF dist gids(1) s(2)] by blast
    then have "soleOwner order owned s g" using soleOwner_cong [of order ?gids] assms(2) gids(2) by simp
    then show "writeOwned order owned (Shards cfg) ! s = writeOwned ?gids owned (Shards cfg) ! s"
      using writeOwned_sole [OF _ s(1)] g by metis
  qed simp
  then show ?thesis using res by (simp add: rebalance_def)
qed

theorem rebalance_deterministic_witness:
  "rebalanceWith [3, 1, 2] exConfig = rebalance exConfig"
  by (rule rebalance_deterministic) (auto simp: exConfig_def NShards_def exGroups_def)

definition exTwoGroups :: Config where
  "exTwoGroups = \<lparr>Num = 2, Shards = [2, 2, 2, 2, 2, 3, 3, 3, 3, 3], Groups = exGroups\<rparr>"

definition moved :: "int list \<Rightarrow> int list \<Rightarrow> nat" where
  "moved xs ys = length (filter (\<lambda>(x, y). x \<noteq> y) (zip xs ys))"

text \<open>
  \<^verbatim>\<open>rebalance\<close> does not always move as few shards as a balanced result needs: when group 1 joins
  groups 2 and 3 with five shards each, four shards move, although another assignment with the same
  group sizes up to renaming moves three.
\<close>

theorem rebalance_not_minimal:
  "\<exists>cfg' sh. rebalance exTwoGroups = Inr cfg' \<and> moved (Shards exTwoGroups) (Shards cfg') = 4 \<and>
     moved (Shards exTwoGroups) sh = 3 \<and> set sh = {1, 2, 3} \<and>
     count_list sh 1 = 3 \<and> count_list sh 2 = 4 \<and> count_list sh 3 = 3"
proof -
  have "fcard (fmdom exGroups) = 3"
    using sortedGIDs_facts(3) [of exGroups] exGroups_sorted by simp
  then have "rebalance exTwoGroups = Inr (exTwoGroups\<lparr>Shards := [2, 2, 2, 1, 1, 3, 3, 3, 1, 1]\<rparr>)"
    by (simp add: rebalance_def rebalanceWith_def exTwoGroups_def exGroups_sorted NShards_def Let_def
        targetOf_def fillGroup.simps)
  then show ?thesis
    by (intro exI [of _ "exTwoGroups\<lparr>Shards := [2, 2, 2, 1, 1, 3, 3, 3, 1, 1]\<rparr>"]
        exI [of _ "[2, 2, 2, 2, 1, 3, 3, 3, 1, 1]"]) (auto simp: exTwoGroups_def moved_def)
qed

end
