(* ===== verification/ShardCtrler.thy ===== *)
theory ShardCtrler
  imports ShardCtrler_Config Raft_Node_Inv Notify Dedup "HOL-Library.Sublist"
begin

text \<open>
  \<^verbatim>\<open>shardctrler/server.go\<close>: the replicated history of configurations. The state machine appends a
  configuration for Join, Leave and Move and reads one for Query; an index outside the arrays of
  the code is a panic, which here is a value.
\<close>

section \<open>Data\<close>

datatype Err = OK | ErrWrongLeader | ErrTimeout

datatype OpType = OpJoin | OpLeave | OpMove | OpQuery

record Op =
  sop_Type :: OpType
  sop_ClientId :: int
  sop_SeqId :: int
  sop_Servers :: "(int, string list) fmap"
  sop_GIDs :: "int list"
  sop_Shard :: int
  sop_GID :: int
  sop_Num :: int

record applyResult =
  sar_Err :: Err
  sar_Config :: Config
  sar_ClientId :: int
  sar_SeqId :: int

record lastReply =
  slr_SeqId :: int
  slr_Reply :: applyResult

record ShardCtrler =
  sc_me :: nat
  sc_rf :: "(Op, unit) raft"
  sc_dead :: bool
  configs :: "Config list"
  sc_dupTable :: "int \<rightharpoonup> lastReply"
  sc_notifyChans :: "(int \<times> int) notifyTable"
  sc_chans :: "applyResult chans"

section \<open>RPC handlers\<close>

record JoinArgs =
  ja_Servers :: "(int, string list) fmap"
  ja_ClientId :: int
  ja_SeqId :: int

record LeaveArgs =
  la_GIDs :: "int list"
  la_ClientId :: int
  la_SeqId :: int

record MoveArgs =
  ma_Shard :: int
  ma_GID :: int
  ma_ClientId :: int
  ma_SeqId :: int

record QueryArgs =
  qa_Num :: int
  qa_ClientId :: int
  qa_SeqId :: int

text \<open>Join, Leave and Move have the same reply; Query adds the configuration.\<close>

record CtrlReply =
  cr_WrongLeader :: bool
  cr_Err :: Err

record QueryReply = CtrlReply +
  qr_Config :: Config

definition blankOp :: "OpType \<Rightarrow> int \<Rightarrow> int \<Rightarrow> Op" where
  "blankOp t cid seq = \<lparr>sop_Type = t, sop_ClientId = cid, sop_SeqId = seq, sop_Servers = fmempty,
     sop_GIDs = [], sop_Shard = 0, sop_GID = 0, sop_Num = 0\<rparr>"

definition JoinOp :: "JoinArgs \<Rightarrow> Op" where
  "JoinOp args = (blankOp OpJoin (ja_ClientId args) (ja_SeqId args))\<lparr>sop_Servers := ja_Servers args\<rparr>"

definition LeaveOp :: "LeaveArgs \<Rightarrow> Op" where
  "LeaveOp args = (blankOp OpLeave (la_ClientId args) (la_SeqId args))\<lparr>sop_GIDs := la_GIDs args\<rparr>"

definition MoveOp :: "MoveArgs \<Rightarrow> Op" where
  "MoveOp args = (blankOp OpMove (ma_ClientId args) (ma_SeqId args))
     \<lparr>sop_Shard := ma_Shard args, sop_GID := ma_GID args\<rparr>"

definition QueryOp :: "QueryArgs \<Rightarrow> Op" where
  "QueryOp args = (blankOp OpQuery (qa_ClientId args) (qa_SeqId args))\<lparr>sop_Num := qa_Num args\<rparr>"

definition CtrlAnswer :: "Err \<times> Config \<Rightarrow> CtrlReply" where
  "CtrlAnswer res = \<lparr>cr_WrongLeader = (fst res = ErrWrongLeader), cr_Err = fst res\<rparr>"

definition QueryAnswer :: "Err \<times> Config \<Rightarrow> QueryReply" where
  "QueryAnswer res = \<lparr>cr_WrongLeader = (fst res = ErrWrongLeader), cr_Err = fst res,
     qr_Config = snd res\<rparr>"

definition emptyConfig :: Config where
  "emptyConfig = \<lparr>Num = 0, Shards = replicate NShards 0, Groups = fmempty\<rparr>"

definition submitStart :: "Op \<Rightarrow> ShardCtrler \<Rightarrow> ShardCtrler \<times> (Err \<times> Config + int)" where
  "submitStart op sc =
     (case Start op (sc_rf sc) of (rf', index, _, isLeader) \<Rightarrow>
        if \<not> isLeader then (sc\<lparr>sc_rf := rf'\<rparr>, Inl (ErrWrongLeader, emptyConfig))
        else (sc\<lparr>sc_rf := rf'\<rparr>, Inr index))"

definition wrongLeaderResult :: applyResult where
  "wrongLeaderResult =
     \<lparr>sar_Err = ErrWrongLeader, sar_Config = emptyConfig, sar_ClientId = 0, sar_SeqId = 0\<rparr>"

definition submitRegister :: "Op \<Rightarrow> int \<Rightarrow> nat \<Rightarrow> ShardCtrler \<Rightarrow> ShardCtrler option" where
  "submitRegister op index ch sc =
     (case registerWaiter wrongLeaderResult index (sop_ClientId op, sop_SeqId op) ch
             (sc_notifyChans sc) (sc_chans sc) of
        None \<Rightarrow> None
      | Some (nt, chs) \<Rightarrow> Some (sc\<lparr>sc_notifyChans := nt, sc_chans := chs\<rparr>))"

definition submitResult :: "Op \<Rightarrow> applyResult option \<Rightarrow> Err \<times> Config" where
  "submitResult op received =
     (case received of
        Some result \<Rightarrow>
          (if sar_ClientId result \<noteq> sop_ClientId op \<or> sar_SeqId result \<noteq> sop_SeqId op
           then (ErrWrongLeader, emptyConfig) else (sar_Err result, sar_Config result))
      | None \<Rightarrow> (ErrTimeout, emptyConfig))"

definition submitLeave :: "Op \<Rightarrow> int \<Rightarrow> ShardCtrler \<Rightarrow> ShardCtrler" where
  "submitLeave op index sc =
     sc\<lparr>sc_notifyChans := unregisterWaiter index (sop_ClientId op, sop_SeqId op) (sc_notifyChans sc)\<rparr>"

section \<open>The state machine\<close>

text \<open>
  \<^verbatim>\<open>cloneLatestConfig\<close>; \<^verbatim>\<open>configs\<close> is never empty, so its last element exists.
\<close>

definition cloneLatestConfig :: "ShardCtrler \<Rightarrow> Config" where
  "cloneLatestConfig sc =
     (let latest = configs sc ! (length (configs sc) - 1)
      in \<lparr>Num = Num latest + 1, Shards = Shards latest, Groups = Groups latest\<rparr>)"

definition okResult :: "Config \<Rightarrow> applyResult" where
  "okResult cfg = \<lparr>sar_Err = OK, sar_Config = cfg, sar_ClientId = 0, sar_SeqId = 0\<rparr>"

definition appendConfig :: "Config go \<Rightarrow> ShardCtrler \<Rightarrow> (ShardCtrler \<times> applyResult) go" where
  "appendConfig new sc =
     (case new of Inl p \<Rightarrow> Inl p
      | Inr newCfg \<Rightarrow> Inr (sc\<lparr>configs := configs sc @ [newCfg]\<rparr>, okResult emptyConfig))"

definition applyJoin :: "Op \<Rightarrow> Config \<Rightarrow> Config go" where
  "applyJoin op newCfg = rebalance (newCfg\<lparr>Groups := Groups newCfg ++\<^sub>f sop_Servers op\<rparr>)"

definition applyLeave :: "Op \<Rightarrow> Config \<Rightarrow> Config go" where
  "applyLeave op newCfg =
     rebalance (newCfg\<lparr>Groups := fold fmdrop (sop_GIDs op) (Groups newCfg),
                       Shards := map (\<lambda>gid. if gid \<in> set (sop_GIDs op) then 0 else gid) (Shards newCfg)\<rparr>)"

definition applyMove :: "Op \<Rightarrow> Config \<Rightarrow> Config go" where
  "applyMove op newCfg =
     (case go_store (Shards newCfg) (sop_Shard op) (sop_GID op) of
        Inl p \<Rightarrow> Inl p | Inr sh \<Rightarrow> Inr (newCfg\<lparr>Shards := sh\<rparr>))"

definition applyQuery :: "Op \<Rightarrow> Config list \<Rightarrow> Config go" where
  "applyQuery op cs =
     (let n = sop_Num op in
      if n = -1 \<or> n \<ge> int (length cs) then go_index cs (int (length cs) - 1) else go_index cs n)"

definition applyOp :: "Op \<Rightarrow> ShardCtrler \<Rightarrow> (ShardCtrler \<times> applyResult) go" where
  "applyOp op sc =
     (case sop_Type op of
        OpJoin \<Rightarrow> appendConfig (applyJoin op (cloneLatestConfig sc)) sc
      | OpLeave \<Rightarrow> appendConfig (applyLeave op (cloneLatestConfig sc)) sc
      | OpMove \<Rightarrow> appendConfig (applyMove op (cloneLatestConfig sc)) sc
      | OpQuery \<Rightarrow> (case applyQuery op (configs sc) of
                       Inl p \<Rightarrow> Inl p | Inr cfg \<Rightarrow> Inr (sc, okResult cfg)))"

section \<open>The apply loop\<close>

definition applyCommand :: "Op \<Rightarrow> ShardCtrler \<Rightarrow> (ShardCtrler \<times> applyResult) go" where
  "applyCommand op sc =
     (let prev = (if sop_Type op \<noteq> OpQuery then sc_dupTable sc (sop_ClientId op) else None);
          isDup = (case prev of None \<Rightarrow> False | Some lr \<Rightarrow> slr_SeqId lr \<ge> sop_SeqId op)
      in if isDup
         then Inr (sc, (slr_Reply (the prev))\<lparr>sar_ClientId := sop_ClientId op, sar_SeqId := sop_SeqId op\<rparr>)
         else (case applyOp op sc of
                 Inl p \<Rightarrow> Inl p
               | Inr (sc1, r) \<Rightarrow>
                   let result = r\<lparr>sar_ClientId := sop_ClientId op, sar_SeqId := sop_SeqId op\<rparr>
                   in Inr (if sop_Type op \<noteq> OpQuery
                           then sc1\<lparr>sc_dupTable := (sc_dupTable sc1)(sop_ClientId op \<mapsto>
                                      \<lparr>slr_SeqId = sop_SeqId op, slr_Reply = result\<rparr>)\<rparr>
                           else sc1, result)))"

definition applierRound ::
    "(Op, unit) ApplyMsg \<Rightarrow> ShardCtrler \<Rightarrow> (ShardCtrler \<times> (nat \<times> applyResult) option) go" where
  "applierRound msg sc =
     (if \<not> am_CommandValid msg then Inr (sc, None)
      else case am_Command msg of
        None \<Rightarrow> Inr (sc, None)
      | Some op \<Rightarrow>
         (case applyCommand op sc of
            Inl p \<Rightarrow> Inl p
          | Inr (sc1, result) \<Rightarrow>
              Inr (sc1, map_option (\<lambda>ch. (ch, result))
                 (notifyTarget (am_CommandIndex msg) (sop_ClientId op, sop_SeqId op)
                    (sc_notifyChans sc1)))))"

definition ScKill :: "ShardCtrler \<Rightarrow> ShardCtrler" where
  "ScKill sc = sc\<lparr>sc_dead := True, sc_rf := Kill (sc_rf sc)\<rparr>"

definition ScKilled :: "ShardCtrler \<Rightarrow> bool" where
  "ScKilled sc = sc_dead sc"

definition StartServer :: "nat \<Rightarrow> nat \<Rightarrow> (Op gobval, unit) persister \<Rightarrow> int \<Rightarrow> ShardCtrler" where
  "StartServer n i persister rnd =
     \<lparr>sc_me = i, sc_rf = Make n i persister rnd, sc_dead = False, configs = [emptyConfig],
      sc_dupTable = Map.empty, sc_notifyChans = Map.empty, sc_chans = (\<lambda>_. [])\<rparr>"

section \<open>The history of configurations\<close>

definition configsOk :: "Config list \<Rightarrow> bool" where
  "configsOk cs \<longleftrightarrow> cs \<noteq> [] \<and>
     (\<forall>k < length cs. Num (cs ! k) = int k \<and> length (Shards (cs ! k)) = NShards)"

lemma configsOk_append:
  "configsOk cs \<Longrightarrow> Num c = int (length cs) \<Longrightarrow> length (Shards c) = NShards \<Longrightarrow> configsOk (cs @ [c])"
  by (auto simp: configsOk_def nth_append less_Suc_eq)

lemma cloneLatestConfig_ok:
  assumes "configsOk (configs sc)"
  shows "Num (cloneLatestConfig sc) = int (length (configs sc))"
    "length (Shards (cloneLatestConfig sc)) = NShards"
    "Groups (cloneLatestConfig sc) = Groups (last (configs sc))"
proof -
  have "length (configs sc) - 1 < length (configs sc)" "configs sc \<noteq> []"
    using assms by (auto simp: configsOk_def)
  then show "Num (cloneLatestConfig sc) = int (length (configs sc))"
    "length (Shards (cloneLatestConfig sc)) = NShards"
    "Groups (cloneLatestConfig sc) = Groups (last (configs sc))"
    using assms by (auto simp: cloneLatestConfig_def Let_def configsOk_def last_conv_nth of_nat_diff Suc_le_eq)
qed

lemma rebalance_total:
  assumes "length (Shards cfg) = NShards"
  obtains cfg' where "rebalance cfg = Inr cfg'" "Num cfg' = Num cfg" "Groups cfg' = Groups cfg"
    "length (Shards cfg') = NShards"
proof (cases "fmdom (Groups cfg) = {||}")
  case True
  then have "fcard (fmdom (Groups cfg)) = 0" by (simp add: fcard.rep_eq)
  then have "rebalance cfg = Inr (cfg\<lparr>Shards := map (\<lambda>_. 0) (Shards cfg)\<rparr>)"
    by (simp add: rebalance_def rebalanceWith_def)
  then show thesis using that assms by simp
next
  case False
  then obtain owned where
    "rebalance cfg = Inr (cfg\<lparr>Shards := writeOwned (sortedGIDs (Groups cfg)) owned (Shards cfg)\<rparr>)"
    using rebalanceWith_nonempty [OF assms False] unfolding rebalance_def by metis
  then show thesis using that assms by simp
qed

text \<open>The next configuration that a command produces, if it produces one.\<close>

definition nextConfig :: "Op \<Rightarrow> Config \<Rightarrow> Config go" where
  "nextConfig op cfg =
     (case sop_Type op of OpJoin \<Rightarrow> applyJoin op cfg | OpLeave \<Rightarrow> applyLeave op cfg
      | OpMove \<Rightarrow> applyMove op cfg | OpQuery \<Rightarrow> Inr cfg)"

lemma applyOp_write:
  "sop_Type op \<noteq> OpQuery \<Longrightarrow> applyOp op sc = appendConfig (nextConfig op (cloneLatestConfig sc)) sc"
  by (cases "sop_Type op") (simp_all add: applyOp_def nextConfig_def)

lemma nextConfig_keeps:
  assumes "length (Shards cfg) = NShards" "nextConfig op cfg = Inr cfg'"
  shows "Num cfg' = Num cfg" "length (Shards cfg') = NShards"
proof -
  have "Num cfg' = Num cfg \<and> length (Shards cfg') = NShards"
  proof (cases "sop_Type op")
    case OpJoin
    let ?c = "cfg\<lparr>Groups := Groups cfg ++\<^sub>f sop_Servers op\<rparr>"
    have "length (Shards ?c) = NShards" using assms(1) by simp
    from rebalance_total [OF this] show ?thesis
      using assms(2) OpJoin by (force simp: nextConfig_def applyJoin_def)
  next
    case OpLeave
    let ?c = "cfg\<lparr>Groups := fold fmdrop (sop_GIDs op) (Groups cfg),
      Shards := map (\<lambda>gid. if gid \<in> set (sop_GIDs op) then 0 else gid) (Shards cfg)\<rparr>"
    have "length (Shards ?c) = NShards" using assms(1) by simp
    from rebalance_total [OF this] show ?thesis
      using assms(2) OpLeave by (force simp: nextConfig_def applyLeave_def)
  qed (use assms in \<open>auto simp: nextConfig_def applyMove_def split: sum.splits\<close>)
  then show "Num cfg' = Num cfg" "length (Shards cfg') = NShards" by blast+
qed

lemma applyOp_Inl_iff:
  assumes "configsOk (configs sc)"
  shows "(\<exists>p. applyOp op sc = Inl p) \<longleftrightarrow>
    (sop_Type op = OpMove \<and> (sop_Shard op < 0 \<or> int NShards \<le> sop_Shard op)) \<or>
    (sop_Type op = OpQuery \<and> sop_Num op < -1)"
proof -
  let ?c = "cloneLatestConfig sc"
  note c = cloneLatestConfig_ok [OF assms]
  show ?thesis
  proof (cases "sop_Type op")
    case OpJoin
    have "length (Shards (?c\<lparr>Groups := Groups ?c ++\<^sub>f sop_Servers op\<rparr>)) = NShards" using c by simp
    from rebalance_total [OF this] show ?thesis
      using OpJoin by (force simp: applyOp_def appendConfig_def applyJoin_def)
  next
    case OpLeave
    have "length (Shards (?c\<lparr>Groups := fold fmdrop (sop_GIDs op) (Groups ?c),
      Shards := map (\<lambda>gid. if gid \<in> set (sop_GIDs op) then 0 else gid) (Shards ?c)\<rparr>)) = NShards" using c by simp
    from rebalance_total [OF this] show ?thesis
      using OpLeave by (force simp: applyOp_def appendConfig_def applyLeave_def)
  next
    case OpMove
    then show ?thesis using c by (auto simp: applyOp_def appendConfig_def applyMove_def go_store_def)
  next
    case OpQuery
    have "configs sc \<noteq> []" using assms by (simp add: configsOk_def)
    then have "0 \<le> int (length (configs sc)) - 1" by (simp add: Suc_le_eq)
    with OpQuery show ?thesis
      by (auto simp: applyOp_def applyQuery_def Let_def go_index_def split: if_splits)
  qed
qed

text \<open>
  C38. On a well-formed history a command makes the state machine panic exactly when it is a Move whose
  shard is not one of the ten, or a Query for a number below minus one; Join and Leave never do.
\<close>

theorem applyOp_panics:
  assumes "configsOk (configs sc)"
  shows "(\<exists>p. applyOp op sc = Inl p) \<longleftrightarrow>
    (sop_Type op = OpMove \<and> (sop_Shard op < 0 \<or> int NShards \<le> sop_Shard op)) \<or>
    (sop_Type op = OpQuery \<and> sop_Num op < -1)"
  using assms by (rule applyOp_Inl_iff)

lemma configsOk_start: "configsOk (configs (StartServer n i ps rnd))"
  by (simp add: configsOk_def StartServer_def emptyConfig_def)

theorem applyOp_panics_witness:
  "\<exists>p. applyOp ((blankOp OpQuery 1 1)\<lparr>sop_Num := -2\<rparr>) (StartServer 3 0 MakePersister 0) = Inl p"
  using applyOp_panics [OF configsOk_start, of "(blankOp OpQuery 1 1)\<lparr>sop_Num := -2\<rparr>" 3 0 MakePersister 0]
  by (simp add: blankOp_def)

section \<open>Exactly-once execution\<close>

abbreviation ctrlWrite :: "Op \<Rightarrow> bool" where
  "ctrlWrite op \<equiv> sop_Type op \<noteq> OpQuery"

definition ctrlSeq :: "ShardCtrler \<Rightarrow> int \<rightharpoonup> int" where
  "ctrlSeq sc c = map_option slr_SeqId (sc_dupTable sc c)"

definition ctrlApply :: "Op \<Rightarrow> ShardCtrler \<Rightarrow> (ShardCtrler \<times> applyResult) option" where
  "ctrlApply op sc = (case applyCommand op sc of Inl _ \<Rightarrow> None | Inr res \<Rightarrow> Some res)"

text \<open>The effect of a write on the history alone.\<close>

definition ctrlExec :: "Op \<Rightarrow> Config list \<Rightarrow> Config list" where
  "ctrlExec op cs =
     (let latest = cs ! (length cs - 1) in
      case nextConfig op (latest\<lparr>Num := Num latest + 1\<rparr>) of Inl _ \<Rightarrow> cs | Inr c \<Rightarrow> cs @ [c])"

lemma cloneLatestConfig_upd:
  "cloneLatestConfig sc = (let latest = configs sc ! (length (configs sc) - 1) in latest\<lparr>Num := Num latest + 1\<rparr>)"
  by (simp add: cloneLatestConfig_def Let_def)

lemma ctrlApply_stale:
  "ctrlWrite op \<Longrightarrow> \<not> newer (ctrlSeq sc) (sop_ClientId op) (sop_SeqId op) \<Longrightarrow>
   ctrlApply op sc = Some (sc', r) \<Longrightarrow> sc' = sc"
  by (auto simp: ctrlApply_def applyCommand_def Let_def newer_def ctrlSeq_def split: option.splits)

lemma ctrlApply_fresh:
  assumes "ctrlWrite op" "newer (ctrlSeq sc) (sop_ClientId op) (sop_SeqId op)"
    and "ctrlApply op sc = Some (sc', r)"
  shows "\<exists>c. nextConfig op (cloneLatestConfig sc) = Inr c \<and> configs sc' = configs sc @ [c]"
    "ctrlSeq sc' = (ctrlSeq sc)(sop_ClientId op \<mapsto> sop_SeqId op)" "sar_Err r = OK"
  using assms
  by (auto simp: ctrlApply_def applyCommand_def Let_def newer_def ctrlSeq_def applyOp_write appendConfig_def
      okResult_def fun_eq_iff split: option.splits sum.splits prod.splits if_splits)

lemma ctrlApply_query:
  assumes "\<not> ctrlWrite op" "ctrlApply op sc = Some (sc', r)"
  shows "sc' = sc" "applyQuery op (configs sc) = Inr (sar_Config r)"
  using assms
  by (auto simp: ctrlApply_def applyCommand_def Let_def applyOp_def okResult_def split: option.splits sum.splits)

interpretation ctrl_dup: dup_machine ctrlApply ctrlSeq sop_ClientId sop_SeqId ctrlWrite configs ctrlExec
proof
  fix op sc sc' r i n
  assume app: "ctrlApply op sc = Some (sc', r)" and t: "ctrlSeq sc i = Some n"
  show "\<exists>m. ctrlSeq sc' i = Some m \<and> n \<le> m"
  proof (cases "ctrlWrite op \<and> newer (ctrlSeq sc) (sop_ClientId op) (sop_SeqId op)")
    case True
    then show ?thesis using ctrlApply_fresh(2) [OF _ _ app] t by (auto simp: newer_def)
  next
    case False
    then have "sc' = sc" using ctrlApply_query(1) [OF _ app] ctrlApply_stale [OF _ _ app] by blast
    then show ?thesis using t by simp
  qed
next
  fix op sc sc' r
  assume "ctrlApply op sc = Some (sc', r)" "ctrlWrite op" "newer (ctrlSeq sc) (sop_ClientId op) (sop_SeqId op)"
  then show "configs sc' = ctrlExec op (configs sc) \<and> ctrlSeq sc' = (ctrlSeq sc)(sop_ClientId op \<mapsto> sop_SeqId op)"
    using ctrlApply_fresh [of op sc sc' r] by (auto simp: ctrlExec_def cloneLatestConfig_upd Let_def)
next
  fix op sc sc' r
  assume "ctrlApply op sc = Some (sc', r)" "\<not> ctrlWrite op"
  then show "configs sc' = configs sc \<and> ctrlSeq sc' = ctrlSeq sc" using ctrlApply_query(1) by metis
qed (rule ctrlApply_stale)

lemma ctrlApply_configsOk:
  assumes "ctrlApply op sc = Some (sc', r)" "configsOk (configs sc)"
  shows "configsOk (configs sc')" "prefix (configs sc) (configs sc')"
    "configs sc' = configs sc \<or> configs sc' = ctrlExec op (configs sc)"
proof -
  have "configsOk (configs sc') \<and> prefix (configs sc) (configs sc') \<and>
      (configs sc' = configs sc \<or> configs sc' = ctrlExec op (configs sc))"
  proof (cases "ctrlWrite op \<and> newer (ctrlSeq sc) (sop_ClientId op) (sop_SeqId op)")
    case True
    then obtain c where c: "nextConfig op (cloneLatestConfig sc) = Inr c" "configs sc' = configs sc @ [c]"
      using ctrlApply_fresh(1) [OF _ _ assms(1)] by blast
    note clone = cloneLatestConfig_ok [OF assms(2)]
    from nextConfig_keeps [OF clone(2) c(1)] clone(1) configsOk_append [OF assms(2), of c] c
    show ?thesis by (simp add: ctrlExec_def cloneLatestConfig_upd Let_def)
  next
    case False
    then have "sc' = sc" using ctrlApply_query(1) [OF _ assms(1)] ctrlApply_stale [OF _ _ assms(1)] by blast
    then show ?thesis using assms(2) by simp
  qed
  then show "configsOk (configs sc')" "prefix (configs sc) (configs sc')"
    "configs sc' = configs sc \<or> configs sc' = ctrlExec op (configs sc)" by blast+
qed

lemma run_configsOk:
  assumes "runOps ctrlApply ops a = Some (b, rs)" "configsOk (configs a)"
  shows "configsOk (configs b) \<and> prefix (configs a) (configs b)"
  using assms
proof (induction ops arbitrary: a rs)
  case (Cons op ops)
  then obtain c r rs' where "ctrlApply op a = Some (c, r)" "runOps ctrlApply ops c = Some (b, rs')"
    by (metis runOps_Cons_Some)
  with Cons ctrlApply_configsOk [of op a c r] show ?case by (meson prefix_order.trans)
qed simp

text \<open>
  C18. Whatever log of commands a controller has applied, its configuration with index \<^verbatim>\<open>k\<close> has number \<^verbatim>\<open>k\<close>
  and assigns all ten shards, and applying more commands only appends configurations.
\<close>

theorem config_history:
  assumes "runOps ctrlApply ops1 (StartServer n i MakePersister rnd) = Some (sc1, rs1)"
    and "runOps ctrlApply ops2 sc1 = Some (sc2, rs2)"
  shows "configsOk (configs sc1) \<and> configsOk (configs sc2) \<and> prefix (configs sc1) (configs sc2)"
  using run_configsOk [OF assms(1) configsOk_start] run_configsOk [OF assms(2)] by blast

definition exJoin :: Op where
  "exJoin = (blankOp OpJoin 1 1)\<lparr>sop_Servers := fmupd 1 [''s1''] fmempty\<rparr>"

lemma ctrlApply_total:
  assumes "configsOk (configs sc)" "sop_Type op \<in> {OpJoin, OpLeave}"
  obtains sc' r where "ctrlApply op sc = Some (sc', r)"
proof -
  have "\<not> (\<exists>p. applyOp op sc = Inl p)" using applyOp_Inl_iff [OF assms(1), of op] assms(2) by auto
  then obtain res where "applyOp op sc = Inr res" by (cases "applyOp op sc") auto
  then have "\<exists>x. applyCommand op sc = Inr x"
    by (auto simp: applyCommand_def Let_def split: option.split prod.split)
  then show thesis using that by (auto simp: ctrlApply_def)
qed

lemma exJoin_run:
  obtains sc1 r where "ctrlApply exJoin (StartServer 3 0 MakePersister 0) = Some (sc1, r)"
    "length (configs sc1) = 2"
proof -
  let ?sc = "StartServer 3 0 MakePersister 0"
  have w: "ctrlWrite exJoin" "sop_Type exJoin \<in> {OpJoin, OpLeave}" by (simp_all add: exJoin_def blankOp_def)
  obtain sc1 r where app: "ctrlApply exJoin ?sc = Some (sc1, r)"
    using ctrlApply_total [OF configsOk_start w(2)] by blast
  have "newer (ctrlSeq ?sc) (sop_ClientId exJoin) (sop_SeqId exJoin)"
    by (simp add: newer_def ctrlSeq_def StartServer_def)
  from ctrlApply_fresh(1) [OF w(1) this app] have "length (configs sc1) = 2"
    by (auto simp: StartServer_def)
  with app show thesis by (rule that)
qed

theorem config_history_witness:
  "\<exists>sc1 rs1. runOps ctrlApply [exJoin] (StartServer 3 0 MakePersister 0) = Some (sc1, rs1) \<and>
     configsOk (configs sc1) \<and> length (configs sc1) = 2"
proof -
  obtain sc1 r where app: "ctrlApply exJoin (StartServer 3 0 MakePersister 0) = Some (sc1, r)"
    and len: "length (configs sc1) = 2" by (rule exJoin_run)
  have run: "runOps ctrlApply [exJoin] (StartServer 3 0 MakePersister 0) = Some (sc1, [r])"
    and rest: "runOps ctrlApply [] sc1 = Some (sc1, [])" using app by simp_all
  from config_history [OF run rest] run len show ?thesis by blast
qed

text \<open>
  A Query that is applied answers with the configuration of the number it asks for, and with the
  latest one for minus one or a number that does not exist yet; it changes nothing.
\<close>

lemma query_answers:
  assumes "configsOk (configs sc)" "sop_Type op = OpQuery" "ctrlApply op sc = Some (sc', r)"
  shows "sc' = sc \<and>
    (if sop_Num op = -1 \<or> int (length (configs sc)) \<le> sop_Num op
     then sar_Config r = last (configs sc) \<and> Num (sar_Config r) = int (length (configs sc)) - 1
     else sar_Config r = configs sc ! nat (sop_Num op) \<and> Num (sar_Config r) = sop_Num op)"
proof -
  have ne: "configs sc \<noteq> []" using assms(1) by (simp add: configsOk_def)
  have q: "sc' = sc" "applyQuery op (configs sc) = Inr (sar_Config r)"
    using ctrlApply_query [OF _ assms(3)] assms(2) by simp_all
  show ?thesis
  proof (cases "sop_Num op = -1 \<or> int (length (configs sc)) \<le> sop_Num op")
    case True
    then have "sar_Config r = last (configs sc)"
      using q(2) ne by (auto simp: applyQuery_def Let_def last_conv_nth)
    moreover have "length (configs sc) - 1 < length (configs sc)" using ne by simp
    ultimately show ?thesis
      using True q(1) ne assms(1) by (auto simp: configsOk_def last_conv_nth of_nat_diff Suc_le_eq)
  next
    case False
    then show ?thesis using q assms(1) by (auto simp: applyQuery_def Let_def configsOk_def)
  qed
qed

text \<open>
  A controller that applies a log with retransmitted commands ends with the history that results
  from executing every Join, Leave and Move once, in the order of first occurrence.
\<close>

lemma ctrl_exactly_once:
  assumes "runOps ctrlApply ops (StartServer n i MakePersister rnd) = Some (sc', rs)"
    and "freshInOrder sop_ClientId sop_SeqId ctrlWrite [] ops"
  shows "configs sc' = fold ctrlExec (firstOccs sop_ClientId sop_SeqId ctrlWrite [] ops) [emptyConfig]"
  using ctrl_dup.run_exactly_once [OF assms(1) _ assms(2)]
  by (simp add: StartServer_def ctrlSeq_def fun_eq_iff)

lemma fold_fmdrop_dom: "fmdom (fold fmdrop gids gs) = fmdom gs |-| fset_of_list gids"
  by (induction gids arbitrary: gs) auto

text \<open>
  After a Leave, no shard belongs to a group that left, and if any group remains every shard
  belongs to a remaining one and the loads of two groups differ by at most one.
\<close>

lemma leave_reassigns:
  assumes "configsOk (configs sc)" "sop_Type op = OpLeave"
  shows "\<exists>sc' r. applyOp op sc = Inr (sc', r) \<and>
    (let c = last (configs sc') in
       fset (fmdom (Groups c)) = fset (fmdom (Groups (last (configs sc)))) - set (sop_GIDs op) \<and>
       (if fset (fmdom (Groups c)) = {} then set (Shards c) \<subseteq> {0}
        else set (Shards c) \<subseteq> fset (fmdom (Groups c)) \<and>
          (\<forall>g \<in> fset (fmdom (Groups c)). \<forall>h \<in> fset (fmdom (Groups c)).
             count_list (Shards c) g \<le> count_list (Shards c) h + 1)))"
proof -
  let ?c = "cloneLatestConfig sc"
  let ?n = "?c\<lparr>Groups := fold fmdrop (sop_GIDs op) (Groups ?c),
      Shards := map (\<lambda>gid. if gid \<in> set (sop_GIDs op) then 0 else gid) (Shards ?c)\<rparr>"
  note c = cloneLatestConfig_ok [OF assms(1)]
  have len: "length (Shards ?n) = NShards" using c by simp
  have dom: "fset (fmdom (Groups ?n)) = fset (fmdom (Groups (last (configs sc)))) - set (sop_GIDs op)"
    using c(3) by (simp add: fold_fmdrop_dom fset_of_list.rep_eq)
  have app: "applyOp op sc = appendConfig (rebalance ?n) sc"
    using assms(2) by (simp add: applyOp_def applyLeave_def)
  show ?thesis
  proof (cases "fmdom (Groups ?n) = {||}")
    case True
    then have "fcard (fmdom (Groups ?n)) = 0" by (simp add: fcard.rep_eq)
    then have "rebalance ?n = Inr (?n\<lparr>Shards := map (\<lambda>_. 0) (Shards ?n)\<rparr>)"
      by (simp add: rebalance_def rebalanceWith_def)
    with app True dom show ?thesis by (auto simp: appendConfig_def)
  next
    case False
    obtain cfg' where cfg': "rebalance ?n = Inr cfg'" "Groups cfg' = Groups ?n"
        "set (Shards cfg') \<subseteq> fset (fmdom (Groups ?n))"
      and cnt: "\<And>i. i < length (sortedGIDs (Groups ?n)) \<Longrightarrow>
        count_list (Shards cfg') (sortedGIDs (Groups ?n) ! i) =
         NShards div length (sortedGIDs (Groups ?n)) + (if i < NShards mod length (sortedGIDs (Groups ?n)) then 1 else 0)"
      using rebalance_result [OF len False] by blast
    have "count_list (Shards cfg') g \<le> count_list (Shards cfg') h + 1"
      if gh: "g \<in> fset (fmdom (Groups ?n))" "h \<in> fset (fmdom (Groups ?n))" for g h
    proof -
      have "g \<in> set (sortedGIDs (Groups ?n))" "h \<in> set (sortedGIDs (Groups ?n))"
        using gh by (simp_all only: sortedGIDs_facts(2))
      then obtain a b where a: "a < length (sortedGIDs (Groups ?n))" "sortedGIDs (Groups ?n) ! a = g"
        and b: "b < length (sortedGIDs (Groups ?n))" "sortedGIDs (Groups ?n) ! b = h"
        unfolding in_set_conv_nth by blast
      show ?thesis using cnt [OF a(1)] cnt [OF b(1)] unfolding a(2) b(2) by (simp split: if_splits)
    qed
    then show ?thesis using app cfg' dom False by (auto simp: appendConfig_def)
  qed
qed


end
