(* ===== verification/ShardKV.thy ===== *)
theory ShardKV
  imports ShardCtrler Raft_Log Models_Kv "HOL-Library.AList"
begin

text \<open>
  \<^verbatim>\<open>shardkv/server.go\<close> and \<^verbatim>\<open>shardkv/common.go\<close>: a replica group that serves some of the shards and hands
  shards over when the configuration changes. One round of \<^verbatim>\<open>applier\<close> is one function of the message;
  the background goroutines are cut at their lock regions and RPCs. The controller's clerk, the
  other groups' servers and the random \<^verbatim>\<open>InternalId\<close> of a command are arguments.
\<close>

section \<open>Data\<close>

datatype Err = OK | ErrNoKey | ErrWrongGroup | ErrWrongLeader | ErrTimeout | ErrNotReady

datatype ShardState = Serving | Pulling | BePulling | GCing

record Shard =
  State :: ShardState
  KV :: "string \<rightharpoonup> string"

definition newShard :: Shard where
  "newShard = \<lparr>State = Serving, KV = Map.empty\<rparr>"

definition cloneKV :: "Shard \<Rightarrow> string \<rightharpoonup> string" where
  "cloneKV s = (\<lambda>k. case KV s k of None \<Rightarrow> None | Some v \<Rightarrow> Some v)"

record DupEntry =
  de_SeqId :: int
  de_Err :: Err
  de_Value :: string

record PutAppendArgs =
  spa_Key :: string
  spa_Value :: string
  spa_Op :: string
  spa_ClientId :: int
  spa_SeqId :: int

record GetArgs =
  sga_Key :: string
  sga_ClientId :: int
  sga_SeqId :: int

record PullShardArgs =
  psa_ConfigNum :: int
  psa_ShardIds :: "int list"

record PullShardReply =
  psr_Err :: Err
  psr_Shards :: "(int \<times> (string \<rightharpoonup> string)) list"
  psr_DupTable :: "int \<rightharpoonup> DupEntry"

record GCArgs =
  gca_ConfigNum :: int
  gca_ShardIds :: "int list"

text \<open>
  The command; its \<^verbatim>\<open>Type\<close> is the string of the code because \<^verbatim>\<open>PutAppend\<close> copies it from the client's
  arguments.
\<close>

record Op =
  kop_InternalId :: int
  kop_Type :: string
  kop_ClientId :: int
  kop_SeqId :: int
  kop_Key :: string
  kop_Value :: string
  kop_Config :: Config
  kop_ConfigNum :: int
  kop_Shards :: "(int \<times> (string \<rightharpoonup> string)) list"
  kop_DupTable :: "int \<rightharpoonup> DupEntry"
  kop_GCConfigNum :: int
  kop_GCShardIds :: "int list"

definition blankOp :: Op where
  "blankOp = \<lparr>kop_InternalId = 0, kop_Type = '''', kop_ClientId = 0, kop_SeqId = 0, kop_Key = '''',
     kop_Value = '''', kop_Config = emptyConfig, kop_ConfigNum = 0, kop_Shards = [],
     kop_DupTable = Map.empty, kop_GCConfigNum = 0, kop_GCShardIds = []\<rparr>"

record applyResult =
  kar_InternalId :: int
  kar_Err :: Err
  kar_Value :: string

datatype skgob = GShards "Shard list" | GDup "int \<rightharpoonup> DupEntry" | GConfig Config

record ShardKV =
  skv_me :: nat
  skv_rf :: "(Op, skgob) raft"
  skv_gid :: int
  skv_maxraftstate :: int
  skv_dead :: bool
  skv_config :: Config
  lastConfig :: Config
  shards :: "Shard list"
  skv_dupTable :: "int \<rightharpoonup> DupEntry"
  skv_notifyChans :: "int notifyTable"
  skv_chans :: "applyResult chans"

definition key2shard :: "string \<Rightarrow> nat" where
  "key2shard key = (if length key > 0 then of_char (key ! 0) else 0) mod NShards"

section \<open>RPC handlers\<close>

definition GetOp :: "GetArgs \<Rightarrow> Op" where
  "GetOp args = blankOp\<lparr>kop_Type := ''Get'', kop_Key := sga_Key args, kop_ClientId := sga_ClientId args,
     kop_SeqId := sga_SeqId args\<rparr>"

definition PutAppendOp :: "PutAppendArgs \<Rightarrow> Op" where
  "PutAppendOp args = blankOp\<lparr>kop_Type := spa_Op args, kop_Key := spa_Key args,
     kop_Value := spa_Value args, kop_ClientId := spa_ClientId args, kop_SeqId := spa_SeqId args\<rparr>"

fun collectShards ::
    "int list \<Rightarrow> Shard list \<Rightarrow> (int \<times> (string \<rightharpoonup> string)) list \<Rightarrow> (int \<times> (string \<rightharpoonup> string)) list go" where
  "collectShards [] shs acc = Inr acc"
| "collectShards (i # ids) shs acc =
     (case go_index shs i of Inl p \<Rightarrow> Inl p
      | Inr s \<Rightarrow> collectShards ids shs (AList.update i (cloneKV s) acc))"

definition pullRefused :: "Err \<Rightarrow> PullShardReply" where
  "pullRefused e = \<lparr>psr_Err = e, psr_Shards = [], psr_DupTable = Map.empty\<rparr>"

definition PullShard :: "PullShardArgs \<Rightarrow> ShardKV \<Rightarrow> PullShardReply go" where
  "PullShard args kv =
     (if \<not> snd (GetState (skv_rf kv)) then Inr (pullRefused ErrWrongLeader)
      else if Num (skv_config kv) < psa_ConfigNum args then Inr (pullRefused ErrNotReady)
      else case collectShards (psa_ShardIds args) (shards kv) [] of
        Inl p \<Rightarrow> Inl p
      | Inr kvs \<Rightarrow> Inr \<lparr>psr_Err = OK, psr_Shards = kvs, psr_DupTable = skv_dupTable kv\<rparr>)"

text \<open>The loop of \<^verbatim>\<open>GCShard\<close> that looks for a shard still in \<^verbatim>\<open>BePulling\<close>.\<close>

fun anyBePulling :: "int list \<Rightarrow> Shard list \<Rightarrow> bool go" where
  "anyBePulling [] shs = Inr False"
| "anyBePulling (i # ids) shs =
     (case go_index shs i of Inl p \<Rightarrow> Inl p
      | Inr s \<Rightarrow> if State s = BePulling then Inr True else anyBePulling ids shs)"

definition gcOp :: "int \<Rightarrow> int list \<Rightarrow> Op" where
  "gcOp n ids = blankOp\<lparr>kop_Type := ''GC'', kop_GCConfigNum := n, kop_GCShardIds := ids\<rparr>"

text \<open>\<^verbatim>\<open>GCShard\<close> answers at once (left) or goes on to submit a command (right).\<close>

definition GCShard :: "GCArgs \<Rightarrow> ShardKV \<Rightarrow> (Err + Op) go" where
  "GCShard args kv =
     (if \<not> snd (GetState (skv_rf kv)) then Inr (Inl ErrWrongLeader)
      else if Num (skv_config kv) > gca_ConfigNum args then Inr (Inl OK)
      else case anyBePulling (gca_ShardIds args) (shards kv) of
        Inl p \<Rightarrow> Inl p
      | Inr found \<Rightarrow>
          Inr (if \<not> found then Inl OK else Inr (gcOp (gca_ConfigNum args) (gca_ShardIds args))))"

definition submitStart :: "int \<Rightarrow> Op \<Rightarrow> ShardKV \<Rightarrow> ShardKV \<times> (Err \<times> string + int)" where
  "submitStart iid op kv =
     (case Start (op\<lparr>kop_InternalId := iid\<rparr>) (skv_rf kv) of (rf', index, _, isLeader) \<Rightarrow>
        if \<not> isLeader then (kv\<lparr>skv_rf := rf'\<rparr>, Inl (ErrWrongLeader, ''''))
        else (kv\<lparr>skv_rf := rf'\<rparr>, Inr index))"

definition wrongLeaderResult :: applyResult where
  "wrongLeaderResult = \<lparr>kar_InternalId = 0, kar_Err = ErrWrongLeader, kar_Value = ''''\<rparr>"

definition submitRegister :: "int \<Rightarrow> int \<Rightarrow> nat \<Rightarrow> ShardKV \<Rightarrow> ShardKV option" where
  "submitRegister iid index ch kv =
     (case registerWaiter wrongLeaderResult index iid ch (skv_notifyChans kv) (skv_chans kv) of
        None \<Rightarrow> None
      | Some (nt, chs) \<Rightarrow> Some (kv\<lparr>skv_notifyChans := nt, skv_chans := chs\<rparr>))"

definition submitResult :: "int \<Rightarrow> applyResult option \<Rightarrow> Err \<times> string" where
  "submitResult iid received =
     (case received of
        Some result \<Rightarrow> (if kar_InternalId result \<noteq> iid then (ErrWrongLeader, '''')
                        else (kar_Err result, kar_Value result))
      | None \<Rightarrow> (ErrTimeout, ''''))"

definition submitLeave :: "int \<Rightarrow> int \<Rightarrow> ShardKV \<Rightarrow> ShardKV" where
  "submitLeave iid index kv = kv\<lparr>skv_notifyChans := unregisterWaiter index iid (skv_notifyChans kv)\<rparr>"

section \<open>The state machine\<close>

definition mkResult :: "Err \<Rightarrow> string \<Rightarrow> applyResult" where
  "mkResult e v = \<lparr>kar_InternalId = 0, kar_Err = e, kar_Value = v\<rparr>"

text \<open>\<^verbatim>\<open>kv.shards[shardId].KV[key] = v\<close> and \<^verbatim>\<open>kv.shards[shardId].State = st\<close>\<close>

definition setKey :: "nat \<Rightarrow> string \<Rightarrow> string \<Rightarrow> ShardKV \<Rightarrow> ShardKV" where
  "setKey i k v kv =
     kv\<lparr>shards := (shards kv)[i := (shards kv ! i)\<lparr>KV := (KV (shards kv ! i))(k \<mapsto> v)\<rparr>]\<rparr>"

definition applyKVOp :: "Op \<Rightarrow> ShardKV \<Rightarrow> ShardKV \<times> applyResult" where
  "applyKVOp op kv =
     (let shardId = key2shard (kop_Key op); store = KV (shards kv ! shardId) in
      if kop_Type op = ''Get''
      then (case store (kop_Key op) of
              None \<Rightarrow> (kv, mkResult ErrNoKey '''')
            | Some v \<Rightarrow> (kv, mkResult OK v))
      else if kop_Type op = ''Put''
      then (setKey shardId (kop_Key op) (kop_Value op) kv, mkResult OK '''')
      else if kop_Type op = ''Append''
      then (setKey shardId (kop_Key op)
              ((case store (kop_Key op) of None \<Rightarrow> '''' | Some v \<Rightarrow> v) @ kop_Value op) kv,
            mkResult OK '''')
      else (kv, mkResult ErrNoKey ''''))"

text \<open>The body of the loop of \<^verbatim>\<open>OpConfig\<close>: what becomes of one shard.\<close>

definition configShard :: "int \<Rightarrow> int \<Rightarrow> int \<Rightarrow> Shard \<Rightarrow> Shard" where
  "configShard gid newGid prevGid s =
     (let nowOwner = (newGid = gid); wasOwner = (prevGid = gid);
          s1 = (if nowOwner \<and> \<not> wasOwner
                then s\<lparr>State := (if prevGid = 0 then Serving else Pulling)\<rparr> else s)
      in if \<not> nowOwner \<and> wasOwner then s1\<lparr>State := BePulling\<rparr> else s1)"

definition applyConfig :: "Op \<Rightarrow> ShardKV \<Rightarrow> ShardKV" where
  "applyConfig op kv =
     (if Num (kop_Config op) \<noteq> Num (skv_config kv) + 1 then kv
      else let lc = skv_config kv; c = kop_Config op in
        kv\<lparr>lastConfig := lc, skv_config := c,
           shards := map (\<lambda>i. configShard (skv_gid kv) (Shards c ! i) (Shards lc ! i) (shards kv ! i))
                       [0..<NShards]\<rparr>)"

fun installShards ::
    "(int \<times> (string \<rightharpoonup> string)) list \<Rightarrow> Shard list \<Rightarrow> Shard list go" where
  "installShards [] shs = Inr shs"
| "installShards ((i, kvData) # rest) shs =
     (case go_index shs i of Inl p \<Rightarrow> Inl p
      | Inr s \<Rightarrow>
          installShards rest
            (if State s = Pulling then shs[nat i := \<lparr>State = GCing, KV = kvData\<rparr>] else shs))"

definition mergeDup :: "(int \<rightharpoonup> DupEntry) \<Rightarrow> (int \<rightharpoonup> DupEntry) \<Rightarrow> int \<rightharpoonup> DupEntry" where
  "mergeDup incoming table = (\<lambda>c.
     (case incoming c of
        None \<Rightarrow> table c
      | Some entry \<Rightarrow>
          (case table c of
             None \<Rightarrow> Some entry
           | Some existing \<Rightarrow> if de_SeqId entry > de_SeqId existing then Some entry else Some existing)))"

definition applyInstall :: "Op \<Rightarrow> ShardKV \<Rightarrow> ShardKV go" where
  "applyInstall op kv =
     (if kop_ConfigNum op \<noteq> Num (skv_config kv) then Inr kv
      else case installShards (kop_Shards op) (shards kv) of
        Inl p \<Rightarrow> Inl p
      | Inr shs \<Rightarrow> Inr (kv\<lparr>shards := shs, skv_dupTable := mergeDup (kop_DupTable op) (skv_dupTable kv)\<rparr>))"

fun gcShards :: "int \<Rightarrow> int \<Rightarrow> int list \<Rightarrow> Shard list \<Rightarrow> Shard list go" where
  "gcShards num gcNum [] shs = Inr shs"
| "gcShards num gcNum (i # ids) shs =
     (case go_index shs i of Inl p \<Rightarrow> Inl p
      | Inr s \<Rightarrow>
          gcShards num gcNum ids
            (case State s of
               BePulling \<Rightarrow> (if num = gcNum then shs[nat i := \<lparr>State = Serving, KV = Map.empty\<rparr>] else shs)
             | GCing \<Rightarrow> (if num = gcNum then shs[nat i := s\<lparr>State := Serving\<rparr>] else shs)
             | _ \<Rightarrow> shs))"

definition applyGC :: "Op \<Rightarrow> ShardKV \<Rightarrow> ShardKV go" where
  "applyGC op kv =
     (case gcShards (Num (skv_config kv)) (kop_GCConfigNum op) (kop_GCShardIds op) (shards kv) of
        Inl p \<Rightarrow> Inl p | Inr shs \<Rightarrow> Inr (kv\<lparr>shards := shs\<rparr>))"

definition applyAdminOp :: "Op \<Rightarrow> ShardKV \<Rightarrow> (ShardKV \<times> applyResult) go" where
  "applyAdminOp op kv =
     (if kop_Type op = ''Config'' then Inr (applyConfig op kv, mkResult OK '''')
      else if kop_Type op = ''Install''
      then (case applyInstall op kv of Inl p \<Rightarrow> Inl p | Inr kv' \<Rightarrow> Inr (kv', mkResult OK ''''))
      else if kop_Type op = ''GC''
      then (case applyGC op kv of Inl p \<Rightarrow> Inl p | Inr kv' \<Rightarrow> Inr (kv', mkResult OK ''''))
      else Inr (kv, mkResult OK ''''))"

section \<open>The apply loop\<close>

definition isKVOp :: "Op \<Rightarrow> bool" where
  "isKVOp op \<longleftrightarrow> kop_Type op = ''Get'' \<or> kop_Type op = ''Put'' \<or> kop_Type op = ''Append''"

text \<open>The condition under which the group may execute a command on a shard.\<close>

definition serves :: "nat \<Rightarrow> ShardKV \<Rightarrow> bool" where
  "serves i kv \<longleftrightarrow> Shards (skv_config kv) ! i = skv_gid kv \<and>
     (State (shards kv ! i) = Serving \<or> State (shards kv ! i) = GCing)"

definition applyClientOp :: "Op \<Rightarrow> ShardKV \<Rightarrow> ShardKV \<times> applyResult" where
  "applyClientOp op kv =
     (if \<not> serves (key2shard (kop_Key op)) kv then (kv, mkResult ErrWrongGroup '''')
      else if kop_Type op \<noteq> ''Get''
      then
       (let execute =
          (case applyKVOp op kv of (kv1, r) \<Rightarrow>
             (kv1\<lparr>skv_dupTable := (skv_dupTable kv1)(kop_ClientId op \<mapsto>
                \<lparr>de_SeqId = kop_SeqId op, de_Err = kar_Err r, de_Value = kar_Value r\<rparr>)\<rparr>, r))
        in case skv_dupTable kv (kop_ClientId op) of
             Some prev \<Rightarrow> (if de_SeqId prev \<ge> kop_SeqId op
                            then (kv, mkResult (de_Err prev) (de_Value prev)) else execute)
           | None \<Rightarrow> execute)
      else applyKVOp op kv)"

definition applyCommand :: "Op \<Rightarrow> ShardKV \<Rightarrow> (ShardKV \<times> applyResult) go" where
  "applyCommand op kv =
     (case (if isKVOp op then Inr (applyClientOp op kv) else applyAdminOp op kv) of
        Inl p \<Rightarrow> Inl p
      | Inr (kv1, r) \<Rightarrow> Inr (kv1, r\<lparr>kar_InternalId := kop_InternalId op\<rparr>))"

section \<open>Snapshots\<close>

definition encodeSnapshot :: "ShardKV \<Rightarrow> skgob buffer" where
  "encodeSnapshot kv =
     Encode (Encode (Encode (Encode [] (GShards (shards kv))) (GDup (skv_dupTable kv)))
       (GConfig (skv_config kv))) (GConfig (lastConfig kv))"

definition doSnapshot :: "int \<Rightarrow> ShardKV \<Rightarrow> ShardKV go" where
  "doSnapshot index kv =
     (case Snapshot index (encodeSnapshot kv) (skv_rf kv) of
        Inl p \<Rightarrow> Inl p | Inr rf' \<Rightarrow> Inr (kv\<lparr>skv_rf := rf'\<rparr>))"

fun asShards :: "skgob \<Rightarrow> Shard list option" where
  "asShards (GShards s) = Some s"
| "asShards _ = None"

fun asDup :: "skgob \<Rightarrow> (int \<rightharpoonup> DupEntry) option" where
  "asDup (GDup d) = Some d"
| "asDup _ = None"

fun asConfig :: "skgob \<Rightarrow> Config option" where
  "asConfig (GConfig c) = Some c"
| "asConfig _ = None"

definition decodeSnapshot ::
    "skgob buffer \<Rightarrow> (Shard list \<times> (int \<rightharpoonup> DupEntry) \<times> Config \<times> Config) option" where
  "decodeSnapshot r =
     (case Decode asShards r of None \<Rightarrow> None | Some (sh, r1) \<Rightarrow>
      case Decode asDup r1 of None \<Rightarrow> None | Some (dt, r2) \<Rightarrow>
      case Decode asConfig r2 of None \<Rightarrow> None | Some (c, r3) \<Rightarrow>
      case Decode asConfig r3 of None \<Rightarrow> None | Some (lc, r4) \<Rightarrow> Some (sh, dt, c, lc))"

definition installSnapshot :: "skgob buffer \<Rightarrow> ShardKV \<Rightarrow> ShardKV" where
  "installSnapshot data kv =
     (if length data = 0 then kv
      else case decodeSnapshot data of
        None \<Rightarrow> kv
      | Some (sh, dt, c, lc) \<Rightarrow>
          kv\<lparr>shards := sh, skv_dupTable := dt, skv_config := c, lastConfig := lc\<rparr>)"

definition needSnapshot :: "(Op gobval buffer \<Rightarrow> int) \<Rightarrow> ShardKV \<Rightarrow> bool" where
  "needSnapshot bytes kv \<longleftrightarrow> skv_maxraftstate kv \<noteq> -1 \<and>
     RaftStateSize bytes (Persister (skv_rf kv)) \<ge> skv_maxraftstate kv"

definition applierRound ::
    "(Op gobval buffer \<Rightarrow> int) \<Rightarrow> (Op, skgob) ApplyMsg \<Rightarrow> ShardKV \<Rightarrow>
     (ShardKV \<times> (nat \<times> applyResult) option) go" where
  "applierRound bytes msg kv =
     (if am_SnapshotValid msg
      then (case CondInstallSnapshot (am_SnapshotTerm msg) (am_SnapshotIndex msg) (am_Snapshot msg)
                   (skv_rf kv) of
              Inl p \<Rightarrow> Inl p
            | Inr (rf', installed) \<Rightarrow>
                Inr (if installed then installSnapshot (am_Snapshot msg) (kv\<lparr>skv_rf := rf'\<rparr>)
                     else kv\<lparr>skv_rf := rf'\<rparr>, None))
      else if \<not> am_CommandValid msg then Inr (kv, None)
      else case am_Command msg of
        None \<Rightarrow> Inr (kv, None)
      | Some op \<Rightarrow>
         (case applyCommand op kv of
            Inl p \<Rightarrow> Inl p
          | Inr (kv1, result) \<Rightarrow>
             let notifyCh = notifyTarget (am_CommandIndex msg) (kop_InternalId op) (skv_notifyChans kv1)
             in case (if needSnapshot bytes kv1 then doSnapshot (am_CommandIndex msg) kv1
                      else Inr kv1) of
                  Inl p \<Rightarrow> Inl p
                | Inr kv2 \<Rightarrow> Inr (kv2, map_option (\<lambda>ch. (ch, result)) notifyCh)))"

section \<open>Background goroutines\<close>

text \<open>
  \<^verbatim>\<open>configPoller\<close>: the lock region gives the number to ask for when this server is leader and every shard
  is stable; after the controller has answered, the command is started if the number is the next.
\<close>

definition pollCheck :: "ShardKV \<Rightarrow> int option" where
  "pollCheck kv =
     (if snd (GetState (skv_rf kv)) \<and> list_all (\<lambda>s. State s = Serving) (shards kv)
      then Some (Num (skv_config kv)) else None)"

definition configOp :: "int \<Rightarrow> Config \<Rightarrow> Op" where
  "configOp iid c = blankOp\<lparr>kop_Type := ''Config'', kop_Config := c, kop_InternalId := iid\<rparr>"

definition pollPropose :: "int \<Rightarrow> int \<Rightarrow> Config \<Rightarrow> ShardKV \<Rightarrow> ShardKV" where
  "pollPropose iid currentNum newCfg kv =
     (if Num newCfg = currentNum + 1
      then kv\<lparr>skv_rf := fst (Start (configOp iid newCfg) (skv_rf kv))\<rparr> else kv)"

text \<open>
  \<^verbatim>\<open>migrationPuller\<close> and \<^verbatim>\<open>gcHandler\<close> group the shards in a given state by their previous owner.
\<close>

fun groupShards ::
    "ShardState \<Rightarrow> nat \<Rightarrow> Shard list \<Rightarrow> Config \<Rightarrow> (int \<times> int list) list \<Rightarrow> (int \<times> int list) list" where
  "groupShards st i [] lc m = m"
| "groupShards st i (s # shs) lc m =
     groupShards st (Suc i) shs lc
       (if State s = st then AList.map_default (Shards lc ! i) [int i] (\<lambda>is. is @ [int i]) m else m)"

definition pullMap :: "ShardKV \<Rightarrow> (int \<times> int list) list" where
  "pullMap kv = (if snd (GetState (skv_rf kv)) then groupShards Pulling 0 (shards kv) (lastConfig kv) [] else [])"

definition gcMap :: "ShardKV \<Rightarrow> (int \<times> int list) list" where
  "gcMap kv = (if snd (GetState (skv_rf kv)) then groupShards GCing 0 (shards kv) (lastConfig kv) [] else [])"

definition installOp :: "int \<Rightarrow> int \<Rightarrow> PullShardReply \<Rightarrow> Op" where
  "installOp iid configNum reply = blankOp\<lparr>kop_Type := ''Install'', kop_InternalId := iid,
     kop_ConfigNum := configNum, kop_Shards := psr_Shards reply, kop_DupTable := psr_DupTable reply\<rparr>"

text \<open>
  The goroutine of one previous owner: its servers are called in turn until one answers \<^verbatim>\<open>OK\<close>.
\<close>

fun pullFrom ::
    "(string \<Rightarrow> PullShardArgs \<Rightarrow> PullShardReply option) \<Rightarrow> string list \<Rightarrow> PullShardArgs \<Rightarrow> PullShardReply option" where
  "pullFrom call [] args = None"
| "pullFrom call (srv # srvs) args =
     (case call srv args of
        Some reply \<Rightarrow> (if psr_Err reply = OK then Some reply else pullFrom call srvs args)
      | None \<Rightarrow> pullFrom call srvs args)"

definition pullGroup ::
    "(string \<Rightarrow> PullShardArgs \<Rightarrow> PullShardReply option) \<Rightarrow> int \<Rightarrow> int \<Rightarrow> Config \<Rightarrow> int \<times> int list \<Rightarrow>
     ShardKV \<Rightarrow> ShardKV" where
  "pullGroup call iid configNum lastCfg task kv =
     (case fmlookup (Groups lastCfg) (fst task) of
        None \<Rightarrow> kv
      | Some srvs \<Rightarrow>
         (case pullFrom call srvs \<lparr>psa_ConfigNum = configNum, psa_ShardIds = snd task\<rparr> of
            None \<Rightarrow> kv
          | Some reply \<Rightarrow> kv\<lparr>skv_rf := fst (Start (installOp iid configNum reply) (skv_rf kv))\<rparr>))"

fun gcFrom :: "(string \<Rightarrow> GCArgs \<Rightarrow> Err option) \<Rightarrow> string list \<Rightarrow> GCArgs \<Rightarrow> bool" where
  "gcFrom call [] args = False"
| "gcFrom call (srv # srvs) args = (if call srv args = Some OK then True else gcFrom call srvs args)"

definition gcGroup ::
    "(string \<Rightarrow> GCArgs \<Rightarrow> Err option) \<Rightarrow> int \<Rightarrow> int \<Rightarrow> Config \<Rightarrow> int \<times> int list \<Rightarrow> ShardKV \<Rightarrow> ShardKV" where
  "gcGroup call iid configNum lastCfg task kv =
     (case fmlookup (Groups lastCfg) (fst task) of
        None \<Rightarrow> kv
      | Some srvs \<Rightarrow>
          if gcFrom call srvs \<lparr>gca_ConfigNum = configNum, gca_ShardIds = snd task\<rparr>
          then kv\<lparr>skv_rf := fst (Start ((gcOp configNum (snd task))\<lparr>kop_InternalId := iid\<rparr>) (skv_rf kv))\<rparr>
          else kv)"

section \<open>Shutdown and start-up\<close>

definition SkvKill :: "ShardKV \<Rightarrow> ShardKV" where
  "SkvKill kv = kv\<lparr>skv_dead := True, skv_rf := Kill (skv_rf kv)\<rparr>"

definition SkvKilled :: "ShardKV \<Rightarrow> bool" where
  "SkvKilled kv = skv_dead kv"

definition StartServer ::
    "nat \<Rightarrow> nat \<Rightarrow> (Op gobval, skgob) persister \<Rightarrow> int \<Rightarrow> int \<Rightarrow> int \<Rightarrow> ShardKV" where
  "StartServer n i persister maxraftstate gid rnd =
     (let kv = \<lparr>skv_me = i, skv_rf = Make n i persister rnd, skv_gid = gid,
                skv_maxraftstate = maxraftstate, skv_dead = False, skv_config = emptyConfig,
                lastConfig = emptyConfig, shards = map (\<lambda>_. newShard) [0..<NShards],
                skv_dupTable = Map.empty, skv_notifyChans = Map.empty, skv_chans = (\<lambda>_. [])\<rparr>;
          snap = ReadSnapshot persister
      in if length snap > 0 then installSnapshot snap kv else kv)"

end
