(* ===== verification/ShardCtrler_Clerk.thy ===== *)
theory ShardCtrler_Clerk
  imports ShardCtrler Clerk_Retry ClientId
begin

text \<open>
  \<^verbatim>\<open>shardctrler/client.go\<close>: the clerk of the controller. Its four calls run the same loop; they return on
  an accepted reply, repeat at the same server after \<^verbatim>\<open>ErrTimeout\<close>, and otherwise go on to the next
  server.
\<close>

record Clerk =
  servers :: nat
  clientId :: int
  seqId :: int
  leaderId :: nat

definition MakeClerk :: "nat \<Rightarrow> 64 word \<Rightarrow> 64 word \<Rightarrow> idgen \<Rightarrow> idgen \<times> Clerk" where
  "MakeClerk n now rnd g =
     (case genClientId now rnd g of (g1, cid) \<Rightarrow>
        (g1, \<lparr>servers = n, clientId = sint cid, seqId = 0, leaderId = 0\<rparr>))"

definition nextSeq :: "Clerk \<Rightarrow> Clerk \<times> int" where
  "nextSeq ck = (ck\<lparr>seqId := seqId ck + 1\<rparr>, seqId ck + 1)"

definition ctrlOutcome :: "('x CtrlReply_scheme \<Rightarrow> 'r) \<Rightarrow> 'x CtrlReply_scheme option \<Rightarrow> 'r outcome" where
  "ctrlOutcome result answer =
     (case answer of
        Some reply \<Rightarrow>
          (if \<not> cr_WrongLeader reply \<and> cr_Err reply = OK then Done (result reply)
           else if cr_Err reply = ErrTimeout then Stay
           else Next)
      | None \<Rightarrow> Next)"

definition clerkCall ::
    "nat \<Rightarrow> ('x CtrlReply_scheme \<Rightarrow> 'r) \<Rightarrow> (nat \<Rightarrow> nat \<Rightarrow> 'x CtrlReply_scheme option) \<Rightarrow> Clerk \<Rightarrow>
     (Clerk \<times> 'r) option" where
  "clerkCall fuel result call ck =
     map_option (\<lambda>(s, r). (ck\<lparr>leaderId := s\<rparr>, r))
       (retryLoop fuel (ctrlOutcome result) call (servers ck) 0 (leaderId ck))"

definition ClerkQuery ::
    "nat \<Rightarrow> (nat \<Rightarrow> nat \<Rightarrow> QueryArgs \<Rightarrow> QueryReply option) \<Rightarrow> int \<Rightarrow> Clerk \<Rightarrow> (Clerk \<times> Config) option" where
  "ClerkQuery fuel call num ck =
     (case nextSeq ck of (ck1, seq) \<Rightarrow>
        clerkCall fuel qr_Config
          (\<lambda>k s. call k s \<lparr>qa_Num = num, qa_ClientId = clientId ck1, qa_SeqId = seq\<rparr>) ck1)"

definition ClerkJoin ::
    "nat \<Rightarrow> (nat \<Rightarrow> nat \<Rightarrow> JoinArgs \<Rightarrow> CtrlReply option) \<Rightarrow> (int, string list) fmap \<Rightarrow> Clerk \<Rightarrow>
     (Clerk \<times> unit) option" where
  "ClerkJoin fuel call srvs ck =
     (case nextSeq ck of (ck1, seq) \<Rightarrow>
        clerkCall fuel (\<lambda>_. ())
          (\<lambda>k s. call k s \<lparr>ja_Servers = srvs, ja_ClientId = clientId ck1, ja_SeqId = seq\<rparr>) ck1)"

definition ClerkLeave ::
    "nat \<Rightarrow> (nat \<Rightarrow> nat \<Rightarrow> LeaveArgs \<Rightarrow> CtrlReply option) \<Rightarrow> int list \<Rightarrow> Clerk \<Rightarrow> (Clerk \<times> unit) option" where
  "ClerkLeave fuel call gids ck =
     (case nextSeq ck of (ck1, seq) \<Rightarrow>
        clerkCall fuel (\<lambda>_. ())
          (\<lambda>k s. call k s \<lparr>la_GIDs = gids, la_ClientId = clientId ck1, la_SeqId = seq\<rparr>) ck1)"

definition ClerkMove ::
    "nat \<Rightarrow> (nat \<Rightarrow> nat \<Rightarrow> MoveArgs \<Rightarrow> CtrlReply option) \<Rightarrow> int \<Rightarrow> int \<Rightarrow> Clerk \<Rightarrow> (Clerk \<times> unit) option" where
  "ClerkMove fuel call shard gid ck =
     (case nextSeq ck of (ck1, seq) \<Rightarrow>
        clerkCall fuel (\<lambda>_. ())
          (\<lambda>k s. call k s \<lparr>ma_Shard = shard, ma_GID = gid, ma_ClientId = clientId ck1,
             ma_SeqId = seq\<rparr>) ck1)"

section \<open>Finding the leader\<close>

interpretation ctrl_policy: retry_policy "ctrlOutcome result"
    "\<lambda>reply. cr_WrongLeader reply \<and> cr_Err reply = ErrWrongLeader" for result
  by unfold_locales (simp_all add: ctrlOutcome_def)

text \<open>The refusals that the handlers of the servers really send are of this kind.\<close>

lemma refusal_recognised:
  "cr_WrongLeader (QueryAnswer (ErrWrongLeader, c)) \<and> cr_Err (QueryAnswer (ErrWrongLeader, c)) = ErrWrongLeader"
  by (simp add: QueryAnswer_def)

text \<open>
  If one controller server answers Query and every other one is unreachable or refuses as not being
  the leader, the clerk's Query returns a configuration that this server gave, within as many
  attempts as there are servers, and remembers the server.
\<close>

lemma clerk_query_finds_leader:
  assumes "leaderId ck < servers ck" "L < servers ck"
    and "\<forall>k s args rep. s \<noteq> L \<and> call k s args = Some rep \<longrightarrow> rep = QueryAnswer (ErrWrongLeader, emptyConfig)"
    and "\<forall>k args. \<exists>c. call k L args = Some (QueryAnswer (OK, c))"
  shows "\<exists>ck' c k. ClerkQuery (servers ck) call num ck = Some (ck', c) \<and> leaderId ck' = L \<and>
    seqId ck' = seqId ck + 1 \<and>
    call k L \<lparr>qa_Num = num, qa_ClientId = clientId ck, qa_SeqId = seqId ck + 1\<rparr> = Some (QueryAnswer (OK, c))"
proof -
  let ?args = "\<lparr>qa_Num = num, qa_ClientId = clientId ck, qa_SeqId = seqId ck + 1\<rparr>"
  have answers: "\<exists>r. ctrlOutcome qr_Config (call j L ?args) = Done r" for j
    using assms(4) [rule_format, of j ?args] by (auto simp: ctrlOutcome_def QueryAnswer_def)
  have refuses: "cr_WrongLeader rep \<and> cr_Err rep = ErrWrongLeader"
    if "p \<noteq> L" "call j p ?args = Some rep" for j p rep
    using assms(3) [rule_format, of p j ?args rep] that by (simp add: QueryAnswer_def)
  obtain c where c: "retryLoop (servers ck) (ctrlOutcome qr_Config) (\<lambda>k s. call k s ?args) (servers ck) 0
      (leaderId ck) = Some (L, c)"
    using ctrl_policy.finds_leader_within [OF assms(1,2), of "\<lambda>k s. call k s ?args" qr_Config 0]
      answers refuses by blast
  obtain j where j: "ctrlOutcome qr_Config (call j L ?args) = Done c"
    using retryLoop_result [OF c] by blast
  obtain c' where "call j L ?args = Some (QueryAnswer (OK, c'))" using assms(4) by blast
  with j have "call j L ?args = Some (QueryAnswer (OK, c))"
    by (simp add: ctrlOutcome_def QueryAnswer_def)
  with c show ?thesis by (auto simp: ClerkQuery_def clerkCall_def nextSeq_def)
qed

definition exQueryCall :: "nat \<Rightarrow> nat \<Rightarrow> QueryArgs \<Rightarrow> QueryReply option" where
  "exQueryCall k s args =
     (if s = 1 then Some (QueryAnswer (OK, emptyConfig)) else if s = 0 then None
      else Some (QueryAnswer (ErrWrongLeader, emptyConfig)))"

end
