(* ===== verification/Go_Fmt.thy ===== *)
theory Go_Fmt
  imports Go_Prelude
begin

text \<open>
  The formatting of \<^verbatim>\<open>fmt.Sprintf\<close> and \<^verbatim>\<open>strconv.Itoa\<close> that the code relies on for names: decimal numbers
  without leading zeros. Two numbers with the same digits are equal, so names built from a fixed text
  and a number are distinct for distinct numbers.
\<close>

definition digit :: "nat \<Rightarrow> char" where
  "digit d = char_of (48 + d)"

fun decimal :: "nat \<Rightarrow> string" where
  "decimal n = (if n < 10 then [digit n] else decimal (n div 10) @ [digit (n mod 10)])"

declare decimal.simps [simp del]

definition fmtD :: "int \<Rightarrow> string" where
  "fmtD i = (if i < 0 then CHR ''-'' # decimal (nat (- i)) else decimal (nat i))"

lemma fmtD_int [simp]: "fmtD (int n) = decimal n"
  by (simp add: fmtD_def)

lemma of_char_digit: "d < 10 \<Longrightarrow> of_char (digit d) = 48 + d"
  by (simp add: digit_def)

lemma digit_inj: "a < 10 \<Longrightarrow> b < 10 \<Longrightarrow> digit a = digit b \<longleftrightarrow> a = b"
  by (metis of_char_digit add_left_cancel)

lemma decimal_not_Nil [simp]: "decimal n \<noteq> []"
  by (subst decimal.simps) simp

lemma Nil_not_decimal [simp]: "[] \<noteq> decimal n"
  using decimal_not_Nil [of n] by metis

lemma decimal_last: "last (decimal n) = digit (n mod 10)"
  by (subst decimal.simps) simp

lemma decimal_butlast: "butlast (decimal n) = (if n < 10 then [] else decimal (n div 10))"
  by (subst decimal.simps) simp

lemma decimal_inj: "decimal m = decimal n \<longleftrightarrow> m = n"
proof
  show "decimal m = decimal n \<Longrightarrow> m = n"
  proof (induction m arbitrary: n rule: decimal.induct)
    case (1 m)
    have mods: "m mod 10 = n mod 10"
      using arg_cong [OF "1.prems", of last] by (simp add: decimal_last digit_inj)
    have bl: "(if m < 10 then [] else decimal (m div 10)) = (if n < 10 then [] else decimal (n div 10))"
      using arg_cong [OF "1.prems", of butlast] by (simp add: decimal_butlast)
    show ?case
    proof (cases "m < 10")
      case True
      then have "n < 10" using bl by (auto split: if_splits)
      with True mods show ?thesis by simp
    next
      case False
      then have "\<not> n < 10" "decimal (m div 10) = decimal (n div 10)" using bl by (auto split: if_splits)
      with "1.IH" [OF False] have "m div 10 = n div 10" by simp
      with mods show ?thesis by (metis div_mult_mod_eq)
    qed
  qed
qed simp

lemma digit_decimal: "c \<in> set (decimal n) \<Longrightarrow> \<exists>d < 10. c = digit d"
proof (induction n rule: decimal.induct)
  case (1 n)
  show ?case
  proof (cases "n < 10")
    case True
    with 1 show ?thesis by (subst (asm) decimal.simps) auto
  next
    case False
    then have "c \<in> set (decimal (n div 10)) \<or> c = digit (n mod 10)"
      using "1.prems" by (subst (asm) decimal.simps) auto
    then show ?thesis using "1.IH" [OF False] by (metis mod_less_divisor zero_less_numeral)
  qed
qed

lemma not_digit: "of_char c < (48::nat) \<Longrightarrow> c \<notin> set (decimal n)"
  using digit_decimal [of c n] of_char_digit by fastforce

lemma dash_notin_decimal [simp]: "CHR ''-'' \<notin> set (decimal n)"
  and slash_notin_decimal [simp]: "CHR ''/'' \<notin> set (decimal n)"
  by (rule not_digit, simp)+

text \<open>A text that ends in a dash and a number determines both parts.\<close>

lemma dash_decimal_inj: "xs @ CHR ''-'' # decimal i = ys @ CHR ''-'' # decimal j \<longleftrightarrow> xs = ys \<and> i = j"
proof
  assume eq: "xs @ CHR ''-'' # decimal i = ys @ CHR ''-'' # decimal j"
  have split: "takeWhile (\<lambda>c. c \<noteq> CHR ''-'') (rev (decimal k) @ CHR ''-'' # zs) = rev (decimal k)"
    "dropWhile (\<lambda>c. c \<noteq> CHR ''-'') (rev (decimal k) @ CHR ''-'' # zs) = CHR ''-'' # zs" for zs k
  proof -
    have "c \<noteq> CHR ''-''" if "c \<in> set (rev (decimal k))" for c using that dash_notin_decimal [of k] by auto
    then show "takeWhile (\<lambda>c. c \<noteq> CHR ''-'') (rev (decimal k) @ CHR ''-'' # zs) = rev (decimal k)"
      "dropWhile (\<lambda>c. c \<noteq> CHR ''-'') (rev (decimal k) @ CHR ''-'' # zs) = CHR ''-'' # zs"
      using takeWhile_append2 [of "rev (decimal k)" "\<lambda>c. c \<noteq> CHR ''-''"]
        dropWhile_append2 [of "rev (decimal k)" "\<lambda>c. c \<noteq> CHR ''-''"] by auto
  qed
  have "rev (decimal i) @ CHR ''-'' # rev xs = rev (decimal j) @ CHR ''-'' # rev ys"
    using arg_cong [OF eq, of rev] by simp
  then have "rev (decimal i) = rev (decimal j)" "CHR ''-'' # rev xs = CHR ''-'' # rev ys"
    using split [of i "rev xs"] split [of j "rev ys"] by metis+
  then show "xs = ys \<and> i = j" by (simp add: decimal_inj)
qed simp

end
