(* ===== verification/ShardKV_Harness.thy ===== *)
theory ShardKV_Harness
  imports ShardKV ShardCtrler_Clerk Labrpc Go_Fmt
begin

text \<open>
  \<^verbatim>\<open>shardkv/config.go\<close>: the harness of the sharded store's tests. It starts three controllers and three replica groups in one network, stops and restarts
  servers and groups, and makes groups join and leave. Shown: different servers have different names, a started group is found under the names that
  \<^verbatim>\<open>joinm\<close> announces, and the harness works only with three servers per group, since two of its tables have the wrong length.
\<close>

section \<open>State\<close>

record shardGroup =
  gr_gid :: int
  gr_servers :: "ShardKV option list"
  gr_saved :: "(Op gobval, skgob) persister option list"
  gr_endnames :: "string list option list"
  gr_mendnames :: "string list option list"

record shardTest =
  st_nctrlers :: nat
  st_ctrlers :: "ShardCtrler option list"
  st_ngroups :: nat
  st_n :: nat
  st_groups :: "shardGroup list"
  st_clerks :: "nat \<rightharpoonup> string list"
  st_nextClientId :: int
  st_maxraftstate :: int

datatype harnessError = HarnessFatal fatal | HarnessPanic panic

definition ctrlername :: "nat \<Rightarrow> string" where
  "ctrlername i = ''ctrler'' @ fmtD (int i)"

definition servername :: "int \<Rightarrow> nat \<Rightarrow> string" where
  "servername gid i = ''server-'' @ fmtD gid @ ''-'' @ fmtD (int i)"

text \<open>While a server runs, its persister and \<^verbatim>\<open>saved\<close> are the same object.\<close>

definition skvSaved :: "shardGroup \<Rightarrow> nat \<Rightarrow> (Op gobval, skgob) persister option" where
  "skvSaved gg i = (case gr_servers gg ! i of Some kv \<Rightarrow> Some (Persister (skv_rf kv)) | None \<Rightarrow> gr_saved gg ! i)"

datatype sizeError = RaftStateTooBig int int | SnapshotNotEmpty | NoPersister

text \<open>\<^verbatim>\<open>checklogs\<close>: the first complaint.\<close>

fun checkSizes ::
    "(Op gobval buffer \<Rightarrow> int) \<Rightarrow> int \<Rightarrow> (Op gobval, skgob) persister option list \<Rightarrow> sizeError option" where
  "checkSizes bytes mr [] = None"
| "checkSizes bytes mr (None # ps) = Some NoPersister"
| "checkSizes bytes mr (Some p # ps) =
     (if mr \<ge> 0 \<and> RaftStateSize bytes p > 8 * mr then Some (RaftStateTooBig (RaftStateSize bytes p) mr)
      else if mr < 0 \<and> length (ReadSnapshot p) > 0 then Some SnapshotNotEmpty
      else checkSizes bytes mr ps)"

definition checklogs :: "(Op gobval buffer \<Rightarrow> int) \<Rightarrow> shardTest \<Rightarrow> sizeError option" where
  "checklogs bytes cfg = checkSizes bytes (st_maxraftstate cfg)
     (concat (map (\<lambda>gi. map (skvSaved (st_groups cfg ! gi)) [0..<st_n cfg]) [0..<st_ngroups cfg]))"

section \<open>Ends\<close>

text \<open>Ends with the given names, connected to the given servers and enabled.\<close>

fun linkEnds :: "(string \<times> string) list \<Rightarrow> string Network \<Rightarrow> fatal + string Network" where
  "linkEnds [] rn = Inr rn"
| "linkEnds ((name, server) # es) rn =
     (case MakeEnd name rn of Inl f \<Rightarrow> Inl f | Inr (rn1, e) \<Rightarrow> linkEnds es (Enable name True (Connect name server rn1)))"

definition ctrlerEnds :: "string list \<Rightarrow> (string \<times> string) list" where
  "ctrlerEnds names = zip names (map ctrlername [0..<length names])"

text \<open>
  \<^verbatim>\<open>makeClient\<close>: ends to the controllers, named in a table of length \<^verbatim>\<open>n\<close>; the clerk makes its ends to the groups itself. The clerk is at address \<^verbatim>\<open>ck\<close>.
\<close>

definition skvMakeClient :: "string list \<Rightarrow> nat \<Rightarrow> shardTest \<Rightarrow> string Network \<Rightarrow> harnessError + shardTest \<times> string Network" where
  "skvMakeClient names ck cfg rn =
     (if st_nctrlers cfg > st_n cfg then Inl (HarnessPanic IndexOutOfRange)
      else case linkEnds (ctrlerEnds names) rn of
        Inl f \<Rightarrow> Inl (HarnessFatal f)
      | Inr rn1 \<Rightarrow>
         Inr (cfg\<lparr>st_clerks := (st_clerks cfg)(ck \<mapsto> names @ replicate (st_n cfg - st_nctrlers cfg) ''''),
                  st_nextClientId := st_nextClientId cfg + 1\<rparr>, rn1))"

definition skvDeleteClient :: "nat \<Rightarrow> shardTest \<Rightarrow> shardTest" where
  "skvDeleteClient ck cfg = cfg\<lparr>st_clerks := (st_clerks cfg)(ck := None)\<rparr>"

definition skvMakeEnd :: "string \<Rightarrow> string \<Rightarrow> string Network \<Rightarrow> fatal + string Network" where
  "skvMakeEnd name server rn = linkEnds [(name, server)] rn"

definition shardclerk :: "string list \<Rightarrow> string Network \<Rightarrow> fatal + string Network" where
  "shardclerk names rn = linkEnds (ctrlerEnds names) rn"

section \<open>Servers\<close>

text \<open>\<^verbatim>\<open>ShutdownServer\<close>: the server can no longer send, and the network forgets it. A server that was never started makes it panic.\<close>

definition skvShutdownServer :: "nat \<Rightarrow> nat \<Rightarrow> shardTest \<Rightarrow> string Network \<Rightarrow> (shardTest \<times> string Network) go" where
  "skvShutdownServer gi i cfg rn =
     (let gg = st_groups cfg ! gi in
      case (gr_endnames gg ! i, go_index (gr_mendnames gg) (int i)) of
        (Some names, Inr mnames) \<Rightarrow>
          (let rn1 = fold (\<lambda>name. Enable name False) (take (length (gr_servers gg)) names) rn;
               rn2 = fold (\<lambda>name. Enable name False) (case mnames of None \<Rightarrow> [] | Some ms \<Rightarrow> ms) rn1;
               gg1 = gg\<lparr>gr_saved := (gr_saved gg)[i := map_option Copy (skvSaved gg i)], gr_servers := (gr_servers gg)[i := None]\<rparr>
           in Inr (cfg\<lparr>st_groups := (st_groups cfg)[gi := gg1]\<rparr>, DeleteServer (servername (gr_gid gg) i) rn2))
      | _ \<Rightarrow> Inl IndexOutOfRange)"

fun shutdownEach :: "nat \<Rightarrow> nat list \<Rightarrow> shardTest \<Rightarrow> string Network \<Rightarrow> (shardTest \<times> string Network) go" where
  "shutdownEach gi [] cfg rn = Inr (cfg, rn)"
| "shutdownEach gi (i # is) cfg rn =
     (case skvShutdownServer gi i cfg rn of Inl p \<Rightarrow> Inl p | Inr (cfg1, rn1) \<Rightarrow> shutdownEach gi is cfg1 rn1)"

definition ShutdownGroup :: "nat \<Rightarrow> shardTest \<Rightarrow> string Network \<Rightarrow> (shardTest \<times> string Network) go" where
  "ShutdownGroup gi cfg rn = shutdownEach gi [0..<st_n cfg] cfg rn"

text \<open>
  \<^verbatim>\<open>StartServer\<close>: \<^verbatim>\<open>names\<close> are the fresh names of the ends to the group, \<^verbatim>\<open>mnames\<close> of those to the controllers. The table of the latter has as many rows
  as there are controllers.
\<close>

definition skvStartServer ::
    "nat \<Rightarrow> nat \<Rightarrow> string list \<Rightarrow> string list \<Rightarrow> nat \<Rightarrow> int \<Rightarrow> shardTest \<Rightarrow> string Network \<Rightarrow> harnessError + shardTest \<times> string Network" where
  "skvStartServer gi i names mnames addr rnd cfg rn =
     (let gg = st_groups cfg ! gi in
      case linkEnds (zip names (map (servername (gr_gid gg)) [0..<length names])) rn of
        Inl f \<Rightarrow> Inl (HarnessFatal f)
      | Inr rn1 \<Rightarrow>
         if i \<ge> length (gr_mendnames gg) then Inl (HarnessPanic IndexOutOfRange)
         else case linkEnds (ctrlerEnds mnames) rn1 of
           Inl f \<Rightarrow> Inl (HarnessFatal f)
         | Inr rn2 \<Rightarrow>
            (let ps = (case skvSaved gg i of None \<Rightarrow> MakePersister | Some p \<Rightarrow> Copy p);
                 kv = ShardKV.StartServer (st_n cfg) i ps (st_maxraftstate cfg) (gr_gid gg) rnd;
                 gg1 = gg\<lparr>gr_endnames := (gr_endnames gg)[i := Some names], gr_mendnames := (gr_mendnames gg)[i := Some mnames],
                          gr_saved := (gr_saved gg)[i := Some ps], gr_servers := (gr_servers gg)[i := Some kv]\<rparr>
             in Inr (cfg\<lparr>st_groups := (st_groups cfg)[gi := gg1]\<rparr>, AddServer (servername (gr_gid gg) i) addr rn2)))"

fun startEach ::
    "nat \<Rightarrow> nat list \<Rightarrow> (nat \<Rightarrow> string list) \<Rightarrow> (nat \<Rightarrow> string list) \<Rightarrow> (nat \<Rightarrow> nat) \<Rightarrow> (nat \<Rightarrow> int) \<Rightarrow> shardTest \<Rightarrow> string Network \<Rightarrow>
     harnessError + shardTest \<times> string Network" where
  "startEach gi [] names mnames addr rnd cfg rn = Inr (cfg, rn)"
| "startEach gi (i # is) names mnames addr rnd cfg rn =
     (case skvStartServer gi i (names i) (mnames i) (addr i) (rnd i) cfg rn of
        Inl e \<Rightarrow> Inl e | Inr (cfg1, rn1) \<Rightarrow> startEach gi is names mnames addr rnd cfg1 rn1)"

definition StartGroup ::
    "nat \<Rightarrow> (nat \<Rightarrow> string list) \<Rightarrow> (nat \<Rightarrow> string list) \<Rightarrow> (nat \<Rightarrow> nat) \<Rightarrow> (nat \<Rightarrow> int) \<Rightarrow> shardTest \<Rightarrow> string Network \<Rightarrow>
     harnessError + shardTest \<times> string Network" where
  "StartGroup gi names mnames addr rnd cfg rn = startEach gi [0..<st_n cfg] names mnames addr rnd cfg rn"

definition StartCtrlerserver :: "nat \<Rightarrow> string list \<Rightarrow> nat \<Rightarrow> int \<Rightarrow> shardTest \<Rightarrow> string Network \<Rightarrow> harnessError + shardTest \<times> string Network" where
  "StartCtrlerserver i names addr rnd cfg rn =
     (case linkEnds (ctrlerEnds names) rn of
        Inl f \<Rightarrow> Inl (HarnessFatal f)
      | Inr rn1 \<Rightarrow>
         Inr (cfg\<lparr>st_ctrlers := (st_ctrlers cfg)[i := Some (ShardCtrler.StartServer (st_nctrlers cfg) i MakePersister rnd)]\<rparr>,
              AddServer (ctrlername i) addr rn1))"

text \<open>What \<^verbatim>\<open>joinm\<close> and \<^verbatim>\<open>leavem\<close> ask the controllers for.\<close>

definition joinm :: "nat list \<Rightarrow> shardTest \<Rightarrow> (int, string list) fmap" where
  "joinm gis cfg = fold (\<lambda>g m. let gid = gr_gid (st_groups cfg ! g) in fmupd gid (map (servername gid) [0..<st_n cfg]) m) gis fmempty"

definition leavem :: "nat list \<Rightarrow> shardTest \<Rightarrow> int list" where
  "leavem gis cfg = map (\<lambda>g. gr_gid (st_groups cfg ! g)) gis"

definition emptyGroup :: "nat \<Rightarrow> nat \<Rightarrow> int \<Rightarrow> shardGroup" where
  "emptyGroup n nctrlers gid = \<lparr>gr_gid = gid, gr_servers = replicate n None, gr_saved = replicate n None,
     gr_endnames = replicate n None, gr_mendnames = replicate nctrlers None\<rparr>"

fun startCtrlers ::
    "nat list \<Rightarrow> (nat \<Rightarrow> string list) \<Rightarrow> (nat \<Rightarrow> nat) \<Rightarrow> (nat \<Rightarrow> int) \<Rightarrow> shardTest \<Rightarrow> string Network \<Rightarrow> harnessError + shardTest \<times> string Network" where
  "startCtrlers [] names addr rnd cfg rn = Inr (cfg, rn)"
| "startCtrlers (i # is) names addr rnd cfg rn =
     (case StartCtrlerserver i (names i) (addr i) (rnd i) cfg rn of
        Inl e \<Rightarrow> Inl e | Inr (cfg1, rn1) \<Rightarrow> startCtrlers is names addr rnd cfg1 rn1)"

fun startGroups ::
    "nat list \<Rightarrow> (nat \<Rightarrow> nat \<Rightarrow> string list) \<Rightarrow> (nat \<Rightarrow> nat \<Rightarrow> string list) \<Rightarrow> (nat \<Rightarrow> nat \<Rightarrow> nat) \<Rightarrow> (nat \<Rightarrow> nat \<Rightarrow> int) \<Rightarrow>
     shardTest \<Rightarrow> string Network \<Rightarrow> harnessError + shardTest \<times> string Network" where
  "startGroups [] names mnames addr rnd cfg rn = Inr (cfg, rn)"
| "startGroups (gi # gis) names mnames addr rnd cfg rn =
     (case StartGroup gi (names gi) (mnames gi) (addr gi) (rnd gi) cfg rn of
        Inl e \<Rightarrow> Inl e | Inr (cfg1, rn1) \<Rightarrow> startGroups gis names mnames addr rnd cfg1 rn1)"

text \<open>
  \<^verbatim>\<open>make_config\<close>: three controllers, a clerk of them, and three groups of \<^verbatim>\<open>n\<close> servers. \<^verbatim>\<open>cnames\<close>, \<^verbatim>\<open>knames\<close>, \<^verbatim>\<open>names\<close> and \<^verbatim>\<open>mnames\<close> are the random names in the order in
  which they are drawn.
\<close>

definition skv_make_config ::
    "nat \<Rightarrow> bool \<Rightarrow> int \<Rightarrow> (nat \<Rightarrow> string list) \<Rightarrow> string list \<Rightarrow> (nat \<Rightarrow> nat \<Rightarrow> string list) \<Rightarrow> (nat \<Rightarrow> nat \<Rightarrow> string list) \<Rightarrow>
     (nat \<Rightarrow> nat) \<Rightarrow> (nat \<Rightarrow> int) \<Rightarrow> (nat \<Rightarrow> nat \<Rightarrow> nat) \<Rightarrow> (nat \<Rightarrow> nat \<Rightarrow> int) \<Rightarrow> harnessError + shardTest \<times> string Network" where
  "skv_make_config n unreliable maxraftstate cnames knames names mnames caddr crnd addr rnd =
     (let cfg = \<lparr>st_nctrlers = 3, st_ctrlers = replicate 3 None, st_ngroups = 3, st_n = n,
                 st_groups = map (\<lambda>gi. emptyGroup n 3 (100 + int gi)) [0..<3], st_clerks = Map.empty,
                 st_nextClientId = int n + 1000, st_maxraftstate = maxraftstate\<rparr>
      in case startCtrlers [0..<3] cnames caddr crnd cfg MakeNetwork of
           Inl e \<Rightarrow> Inl e
         | Inr (cfg1, rn1) \<Rightarrow>
            (case shardclerk knames rn1 of
               Inl f \<Rightarrow> Inl (HarnessFatal f)
             | Inr rn2 \<Rightarrow>
                (case startGroups [0..<3] names mnames addr rnd cfg1 rn2 of
                   Inl e \<Rightarrow> Inl e
                 | Inr (cfg2, rn3) \<Rightarrow> Inr (cfg2, Reliable (\<not> unreliable) rn3))))"

section \<open>Names\<close>

lemma servername_inj: "0 \<le> g \<Longrightarrow> 0 \<le> h \<Longrightarrow> servername g i = servername h j \<longleftrightarrow> g = h \<and> i = j"
  using dash_decimal_inj [of "decimal (nat g)" i "decimal (nat h)" j] decimal_inj [of "nat g" "nat h"]
  by (auto simp: servername_def fmtD_def)

lemma linkEnds_servers: "linkEnds es rn = Inr rn' \<Longrightarrow> nw_servers rn' = nw_servers rn"
  by (induction es rn rule: linkEnds.induct) (auto simp: MakeEnd_def Enable_def Connect_def Let_def split: if_splits)

lemma skvStartServer_result:
  assumes "skvStartServer gi i names mnames addr rnd cfg rn = Inr (cfg', rn')" "gi < length (st_groups cfg)"
  shows "i < length (gr_mendnames (st_groups cfg ! gi))" "length (gr_mendnames (st_groups cfg' ! gi)) = length (gr_mendnames (st_groups cfg ! gi))"
    "gr_gid (st_groups cfg' ! gi) = gr_gid (st_groups cfg ! gi)" "length (st_groups cfg') = length (st_groups cfg)" "st_n cfg' = st_n cfg"
    "nw_servers rn' = (nw_servers rn)(servername (gr_gid (st_groups cfg ! gi)) i \<mapsto> addr)"
proof -
  let ?gg = "st_groups cfg ! gi"
  obtain rn1 where 1: "linkEnds (zip names (map (servername (gr_gid ?gg)) [0..<length names])) rn = Inr rn1"
    using assms(1) by (cases "linkEnds (zip names (map (servername (gr_gid ?gg)) [0..<length names])) rn") (simp_all add: skvStartServer_def Let_def)
  have i: "i < length (gr_mendnames ?gg)" using assms(1) 1 by (simp add: skvStartServer_def Let_def split: if_splits)
  obtain rn2 where 2: "linkEnds (ctrlerEnds mnames) rn1 = Inr rn2"
    using assms(1) 1 i by (cases "linkEnds (ctrlerEnds mnames) rn1") (simp_all add: skvStartServer_def Let_def)
  have "\<exists>gg1. cfg' = cfg\<lparr>st_groups := (st_groups cfg)[gi := gg1]\<rparr> \<and> gr_gid gg1 = gr_gid ?gg \<and> length (gr_mendnames gg1) = length (gr_mendnames ?gg)"
    and rn': "rn' = AddServer (servername (gr_gid ?gg) i) addr rn2"
    using assms(1) 1 2 i unfolding skvStartServer_def Let_def by auto
  then obtain gg1 where "cfg' = cfg\<lparr>st_groups := (st_groups cfg)[gi := gg1]\<rparr>" "gr_gid gg1 = gr_gid ?gg" "length (gr_mendnames gg1) = length (gr_mendnames ?gg)"
    by blast
  then show "i < length (gr_mendnames ?gg)" "length (gr_mendnames (st_groups cfg' ! gi)) = length (gr_mendnames ?gg)"
    "gr_gid (st_groups cfg' ! gi) = gr_gid ?gg" "length (st_groups cfg') = length (st_groups cfg)" "st_n cfg' = st_n cfg"
    using i assms(2) by simp_all
  show "nw_servers rn' = (nw_servers rn)(servername (gr_gid ?gg) i \<mapsto> addr)"
    by (simp add: rn' AddServer_def linkEnds_servers [OF 1] linkEnds_servers [OF 2])
qed

lemma startEach_result:
  assumes "startEach gi is names mnames addr rnd cfg rn = Inr (cfg', rn')" "gi < length (st_groups cfg)"
  shows "(\<forall>i\<in>set is. i < length (gr_mendnames (st_groups cfg ! gi))) \<and> st_n cfg' = st_n cfg \<and> gr_gid (st_groups cfg' ! gi) = gr_gid (st_groups cfg ! gi) \<and>
    (\<forall>i\<in>set is. nw_servers rn' (servername (gr_gid (st_groups cfg ! gi)) i) \<noteq> None) \<and> (\<forall>s. nw_servers rn s \<noteq> None \<longrightarrow> nw_servers rn' s \<noteq> None)"
  using assms
proof (induction gi "is" names mnames addr rnd cfg rn rule: startEach.induct)
  case (2 gi i js names mnames addr rnd cfg rn)
  obtain cfg1 rn1 where s: "skvStartServer gi i (names i) (mnames i) (addr i) (rnd i) cfg rn = Inr (cfg1, rn1)"
    using 2(2) by (cases "skvStartServer gi i (names i) (mnames i) (addr i) (rnd i) cfg rn") auto
  note r = skvStartServer_result [OF s 2(3)]
  have "startEach gi js names mnames addr rnd cfg1 rn1 = Inr (cfg', rn')" using 2(2) s by simp
  from 2(1) [OF s refl this] r show ?case using 2(3) by auto
qed simp

text \<open>A group that was started is found under the names that \<^verbatim>\<open>joinm\<close> announces.\<close>

lemma joined_servers_found:
  assumes "StartGroup gi names mnames addr rnd cfg rn = Inr (cfg', rn')" "gi < length (st_groups cfg)"
    and "fmlookup (joinm [gi] cfg') (gr_gid (st_groups cfg' ! gi)) = Some ss" "s \<in> set ss"
  shows "nw_servers rn' s \<noteq> None"
  using startEach_result [OF assms(1) [unfolded StartGroup_def] assms(2)] assms(3,4) by (auto simp: joinm_def Let_def)

text \<open>With more than three servers per group \<^verbatim>\<open>make_config\<close> always panics or stops; with fewer than three, \<^verbatim>\<open>makeClient\<close> panics.\<close>

lemma startCtrlers_groups: "startCtrlers is names addr rnd cfg rn = Inr (cfg', rn') \<Longrightarrow> st_groups cfg' = st_groups cfg \<and> st_n cfg' = st_n cfg"
proof (induction "is" names addr rnd cfg rn rule: startCtrlers.induct)
  case (2 i js names addr rnd cfg rn)
  then obtain cfg1 rn1 where s: "StartCtrlerserver i (names i) (addr i) (rnd i) cfg rn = Inr (cfg1, rn1)"
    by (cases "StartCtrlerserver i (names i) (addr i) (rnd i) cfg rn") auto
  then have "st_groups cfg1 = st_groups cfg \<and> st_n cfg1 = st_n cfg"
    by (cases "linkEnds (ctrlerEnds (names i)) rn") (auto simp: StartCtrlerserver_def)
  then show ?case using 2(1) [OF s refl] 2(2) s by simp
qed simp

lemma make_config_needs_three:
  assumes "3 < n"
  shows "\<exists>e. skv_make_config n unreliable maxraftstate cnames knames names mnames caddr crnd addr rnd = Inl e"
proof (rule ccontr)
  let ?cfg = "\<lparr>st_nctrlers = 3, st_ctrlers = replicate 3 None, st_ngroups = 3, st_n = n,
    st_groups = map (\<lambda>gi. emptyGroup n 3 (100 + int gi)) [0..<3], st_clerks = Map.empty, st_nextClientId = int n + 1000, st_maxraftstate = maxraftstate\<rparr>"
  assume "\<nexists>e. skv_make_config n unreliable maxraftstate cnames knames names mnames caddr crnd addr rnd = Inl e"
  then obtain cfg1 rn1 rn2 cfg2 rn3 where c: "startCtrlers [0..<3] cnames caddr crnd ?cfg MakeNetwork = Inr (cfg1, rn1)"
      "startGroups [0..<3] names mnames addr rnd cfg1 rn2 = Inr (cfg2, rn3)"
    by (auto simp: skv_make_config_def Let_def split: sum.splits prod.splits)
  have g: "st_groups cfg1 = map (\<lambda>gi. emptyGroup n 3 (100 + int gi)) [0..<3]" "st_n cfg1 = n" using startCtrlers_groups [OF c(1)] by simp_all
  have "[0..<3] = 0 # [1..<3]" by (simp add: upt_rec)
  then obtain cfg3 rn4 where "StartGroup 0 (names 0) (mnames 0) (addr 0) (rnd 0) cfg1 rn2 = Inr (cfg3, rn4)"
    using c(2) by (auto split: sum.splits prod.splits)
  then have "\<forall>i < n. i < length (gr_mendnames (st_groups cfg1 ! 0))"
    using startEach_result [of 0 "[0..<n]" "names 0" "mnames 0" "addr 0" "rnd 0" cfg1 rn2 cfg3 rn4] g by (simp add: StartGroup_def)
  then show False using assms g by (auto simp: emptyGroup_def)
qed

lemma client_needs_three: "st_nctrlers cfg = 3 \<Longrightarrow> st_n cfg < 3 \<Longrightarrow> skvMakeClient names ck cfg rn = Inl (HarnessPanic IndexOutOfRange)"
  by (simp add: skvMakeClient_def)

end
