(* ===== verification/KvRaft_Group.thy ===== *)
theory KvRaft_Group
  imports KvRaft Raft_Service
begin

text \<open>
  A group of key/value servers, each with its Raft instance (\<^verbatim>\<open>kvraft/server.go\<close> over \<^verbatim>\<open>raft/raft.go\<close>): stores and duplicate
  tables of all replicas are at every moment those of prefixes of one sequence of commands, through crashes, lost messages, log compaction and
  snapshots that overtake or are overtaken by commands, and no apply loop panics. The servers do not compare the index of a command with what
  they have applied: a command that is delivered after a snapshot which covers it is applied again. The duplicate table makes this harmless.
\<close>

section \<open>The key/value server as a replicated service\<close>

definition kvRound :: "(Op gobval buffer \<Rightarrow> int) \<Rightarrow> (Op, kvgob) ApplyMsg \<Rightarrow> (Op, kvgob) raft \<times> KVServer \<Rightarrow> ((Op, kvgob) raft \<times> KVServer) go" where
  "kvRound bytes m st =
     (case applierRound bytes m ((snd st)\<lparr>kv_rf := fst st\<rparr>) of
        Inl p \<Rightarrow> Inl p | Inr (kv, _) \<Rightarrow> Inr (kv_rf kv, kv))"

definition kvBoot :: "nat \<Rightarrow> int \<Rightarrow> nat \<Rightarrow> int \<Rightarrow> (Op gobval, kvgob) persister \<Rightarrow> KVServer" where
  "kvBoot n maxraftstate i rnd ps = StartKVServer n i ps maxraftstate rnd"

type_synonym kvState = "(string \<rightharpoonup> string) \<times> (int \<rightharpoonup> lastReply)"

definition kvView :: "KVServer \<Rightarrow> kvState" where
  "kvView kv = (kvStore kv, dupTable kv)"

text \<open>The effect of a command on store and table, whatever else the server holds.\<close>

definition kvApplyView :: "Op \<Rightarrow> kvState \<Rightarrow> kvState" where
  "kvApplyView op v = kvView (fst (applyCommand op
     ((StartKVServer 1 0 MakePersister (-1) 0)\<lparr>kvStore := fst v, dupTable := snd v\<rparr>)))"

lemma applyOp_view:
  assumes "kvView kv = kvView kv'"
  shows "kvView (fst (applyOp op kv)) = kvView (fst (applyOp op kv'))" "snd (applyOp op kv) = snd (applyOp op kv')"
  using assms by (auto simp: kvView_def applyOp_def split: option.split)

lemma applyCommand_view:
  assumes "kvView kv = kvView kv'"
  shows "kvView (fst (applyCommand op kv)) = kvView (fst (applyCommand op kv'))"
proof -
  have "kvSeq kv = kvSeq kv'" "dupTable kv = dupTable kv'" using assms by (auto simp: kvView_def kvSeq_def)
  then show ?thesis using applyOp_view [OF assms, of op] assms
    by (cases "newer (kvSeq kv) (op_ClientId op) (op_SeqId op)") (auto simp: applyCommand_stale applyCommand_fresh Let_def kvView_def)
qed

lemma kvApplyView_applyCommand: "kvApplyView op (kvView kv) = kvView (fst (applyCommand op kv))"
  unfolding kvApplyView_def by (rule applyCommand_view) (simp add: kvView_def)

lemma kv_rf_applyCommand [simp]: "kv_rf (fst (applyCommand op kv)) = kv_rf kv"
  by (cases "newer (kvSeq kv) (op_ClientId op) (op_SeqId op)") (auto simp: applyCommand_stale applyCommand_fresh Let_def)

text \<open>A state covers a command if executing the command again changes nothing.\<close>

definition covers :: "kvState \<Rightarrow> Op \<Rightarrow> bool" where
  "covers v op \<longleftrightarrow> \<not> isWrite op \<or> \<not> newer (\<lambda>c. map_option lr_SeqId (snd v c)) (op_ClientId op) (op_SeqId op)"

lemma covers_view: "covers (kvView kv) op \<longleftrightarrow> \<not> isWrite op \<or> \<not> newer (kvSeq kv) (op_ClientId op) (op_SeqId op)"
  by (simp add: covers_def kvView_def kvSeq_def [abs_def])

lemma view_server: "\<exists>kv. v = kvView kv"
  by (rule exI [of _ "(StartKVServer 1 0 MakePersister (-1) 0)\<lparr>kvStore := fst v, dupTable := snd v\<rparr>"]) (simp add: kvView_def)

lemma covers_same: "covers v op \<Longrightarrow> kvApplyView op v = v"
proof -
  assume c: "covers v op"
  obtain kv where v: "v = kvView kv" using view_server by blast
  show ?thesis
  proof (cases "newer (kvSeq kv) (op_ClientId op) (op_SeqId op)")
    case True
    then have "\<not> isWrite op" using c v by (simp add: covers_view)
    then show ?thesis using True by (auto simp: v kvApplyView_applyCommand applyCommand_fresh Let_def applyOp_def split: option.split)
  qed (simp add: v kvApplyView_applyCommand applyCommand_stale)
qed

lemma covers_apply: "covers (kvApplyView op v) op"
proof -
  obtain kv where v: "v = kvView kv" using view_server by blast
  then show ?thesis using kvSeq_applyCommand [of op kv] by (auto simp: kvApplyView_applyCommand covers_view newer_def)
qed

lemma covers_mono: "covers v op \<Longrightarrow> covers (kvApplyView op' v) op"
proof -
  assume c: "covers v op"
  obtain kv where v: "v = kvView kv" using view_server by blast
  then show ?thesis using c kvSeq_applyCommand [of op' kv]
    by (auto simp: kvApplyView_applyCommand covers_view newer_def split: option.splits if_splits)
qed

lemma covers_fold: "op \<in> set ops \<or> covers v op \<Longrightarrow> covers (fold kvApplyView ops v) op"
proof (induction ops arbitrary: v)
  case (Cons a ops)
  then have "op \<in> set ops \<or> covers (kvApplyView a v) op" using covers_apply [of op v] covers_mono [of v op a] by auto
  from Cons.IH [OF this] show ?case by simp
qed simp

lemma kvRound_command:
  assumes "kvRound bytes (commandMsg k e) (rf, kv) = Inr (rf', kv')"
  shows "kvView kv' = kvApplyView (Command e) (kvView kv)"
    "rf' = rf \<or> Snapshot k (encodeSnapshot kv') rf = Inr rf'"
proof -
  let ?kv = "kv\<lparr>kv_rf := rf\<rparr>"
  obtain kv1 r where 1: "applyCommand (Command e) ?kv = (kv1, r)" by fastforce
  have rf1: "kv_rf kv1 = rf" using kv_rf_applyCommand [of "Command e" ?kv] 1 by simp
  have "(if needSnapshot bytes kv1 then doSnapshot k kv1 else Inr kv1) = Inr kv'" and rf': "rf' = kv_rf kv'"
    using assms by (auto simp: kvRound_def applierRound_def commandMsg_def 1 Let_def split: sum.splits)
  then have "kv' = kv1 \<or> doSnapshot k kv1 = Inr kv'" by (auto split: if_splits)
  then have "kv' = kv1 \<or> kv' = kv1\<lparr>kv_rf := rf'\<rparr> \<and> Snapshot k (encodeSnapshot kv1) rf = Inr rf'"
    using rf1 rf' by (auto simp: doSnapshot_def split: sum.splits)
  moreover have "encodeSnapshot (kv1\<lparr>kv_rf := rf'\<rparr>) = encodeSnapshot kv1" "kvView (kv1\<lparr>kv_rf := rf'\<rparr>) = kvView kv1"
    by (simp_all add: encodeSnapshot_def kvView_def)
  ultimately have k: "kvView kv' = kvView kv1" "rf' = rf \<or> Snapshot k (encodeSnapshot kv') rf = Inr rf'"
    using rf1 rf' by metis+
  have "kvView ?kv = kvView kv" by (simp add: kvView_def)
  then show "kvView kv' = kvApplyView (Command e) (kvView kv)" using k(1) 1 kvApplyView_applyCommand [of "Command e" ?kv] by simp
  show "rf' = rf \<or> Snapshot k (encodeSnapshot kv') rf = Inr rf'" by (rule k(2))
qed

lemma kvRound_command_panic:
  assumes "kvRound bytes (commandMsg k e) (rf, kv) = Inl p"
  shows "\<exists>data. Snapshot k data rf = Inl p"
proof -
  obtain kv1 r where 1: "applyCommand (Command e) (kv\<lparr>kv_rf := rf\<rparr>) = (kv1, r)" by fastforce
  then have "kv_rf kv1 = rf" using kv_rf_applyCommand [of "Command e" "kv\<lparr>kv_rf := rf\<rparr>"] by simp
  moreover have "doSnapshot k kv1 = Inl p"
    using assms by (auto simp: kvRound_def applierRound_def commandMsg_def 1 Let_def split: sum.splits if_splits)
  ultimately show ?thesis by (auto simp: doSnapshot_def split: sum.splits)
qed

definition isKvSnapshot :: "kvgob buffer \<Rightarrow> kvState \<Rightarrow> bool" where
  "isKvSnapshot data v \<longleftrightarrow> (\<exists>kv. data = encodeSnapshot kv \<and> v = kvView kv)"

interpretation kv_group: total_service False "kvRound bytes" "kvBoot n mr" kvView kvApplyView "(Map.empty, Map.empty)" isKvSnapshot
  for bytes n mr
proof
  fix k e rf st rf' st'
  assume "kvRound bytes (commandMsg k e) (rf, st) = Inr (rf', st')"
  then show "kvView st' = kvApplyView (Command e) (kvView st) \<and>
      (rf' = rf \<or> (\<exists>data. isKvSnapshot data (kvView st') \<and> Snapshot k data rf = Inr rf'))"
    using kvRound_command unfolding isKvSnapshot_def by metis
next
  fix m :: "(Op, kvgob) ApplyMsg" and rf st rf' st'
  assume "offer m" "am_SnapshotIndex m \<le> commitIndex rf" "kvRound bytes m (rf, st) = Inr (rf', st')"
  then show "rf' = rf \<and> kvView st' = kvView st" by (auto simp: kvRound_def applierRound_def offer_def CondInstallSnapshot_def kvView_def)
next
  fix m :: "(Op, kvgob) ApplyMsg" and rf v st rf' st'
  assume a: "offer m" "commitIndex rf < am_SnapshotIndex m" "isKvSnapshot (am_Snapshot m) v" "kvRound bytes m (rf, st) = Inr (rf', st')"
  then obtain rf1 ok where c: "CondInstallSnapshot (am_SnapshotTerm m) (am_SnapshotIndex m) (am_Snapshot m) rf = Inr (rf1, ok)"
    by (auto simp: kvRound_def applierRound_def offer_def split: sum.splits)
  then have ok by (cases rule: CondInstallSnapshot_cases) (use a(2) in auto)
  then show "CondInstallSnapshot (am_SnapshotTerm m) (am_SnapshotIndex m) (am_Snapshot m) rf = Inr (rf', True) \<and> kvView st' = v"
    using a c by (auto simp: kvRound_def applierRound_def offer_def isKvSnapshot_def installSnapshot_encoded kvView_def)
next
  fix ps :: "(Op gobval, kvgob) persister" and i rnd
  assume "ReadSnapshot ps = []"
  then show "kvView (kvBoot n mr i rnd ps) = (Map.empty, Map.empty)" by (simp add: kvBoot_def StartKVServer_def kvView_def Let_def)
next
  fix ps :: "(Op gobval, kvgob) persister" and v i rnd
  assume "isKvSnapshot (ReadSnapshot ps) v"
  then show "kvView (kvBoot n mr i rnd ps) = v" using StartKVServer_saved
    by (fastforce simp: isKvSnapshot_def kvBoot_def kvView_def ReadSnapshot_def)
next
  fix c :: Op and cs assume "c \<in> set cs"
  then show "kvApplyView c (fold kvApplyView cs (Map.empty, Map.empty)) = fold kvApplyView cs (Map.empty, Map.empty)"
    using covers_same covers_fold by blast
next
  fix k e rf st p
  assume "kvRound bytes (commandMsg k e) (rf, st) = Inl p"
  then show "\<exists>data. Snapshot k data rf = Inl p" by (rule kvRound_command_panic)
next
  fix m :: "(Op, kvgob) ApplyMsg" and rf st p
  assume "offer m" "kvRound bytes m (rf, st) = Inl p"
  then show "CondInstallSnapshot (am_SnapshotTerm m) (am_SnapshotIndex m) (am_Snapshot m) rf = Inl p"
    by (auto simp: kvRound_def applierRound_def offer_def split: sum.splits)
qed

section \<open>Replicas agree\<close>

lemma kvApplyView_exactly_once:
  "fst (fold kvApplyView ops (Map.empty, Map.empty)) = fold kvExec (effective op_ClientId op_SeqId isWrite Map.empty ops) Map.empty"
proof -
  have run: "fold kvApplyView ops (kvView kv) = kvView kv'" if "runOps kvApply ops kv = Some (kv', rs)" for kv kv' rs
    using that by (induction ops arbitrary: kv rs) (auto simp: kvApplyView_applyCommand split: prod.splits option.splits)
  let ?kv = "StartKVServer 1 0 MakePersister (-1) 0"
  have v0: "kvView ?kv = (Map.empty, Map.empty)" "kvStore ?kv = Map.empty" "kvSeq ?kv = Map.empty"
    by (auto simp: kvView_def StartKVServer_def Let_def persister_defs kvSeq_def)
  obtain kv' rs where r: "runOps kvApply ops ?kv = Some (kv', rs)" using runOps_total [of applyCommand] by blast
  have "kvStore kv' = fst (fold kvApplyView ops (Map.empty, Map.empty))" using run [OF r] unfolding v0 by (simp add: kvView_def)
  then show ?thesis using kv_dup.run_effective [OF r] unfolding v0 by simp
qed

text \<open>
  C3. Replicas agree: at any moment of any run of a group of key/value servers there is a sequence of commands that contains every
  committed command at its index, and every server has exactly the store and the duplicate table that a prefix of this sequence leads to,
  whatever crashed, was lost, was compacted or came from a snapshot; at any later moment the sequence is an extension of it. The
  store after a prefix is the result of executing each of its writes once.
\<close>

theorem kv_replicas_agree:
  assumes "sysReach False (kvRound bytes) (kvBoot n maxraftstate) kvView n S"
    and "(sysStep False (kvRound bytes) (kvBoot n maxraftstate) kvView)\<^sup>*\<^sup>* S S'"
  shows "\<exists>G H. agreed kvView kvApplyView (Map.empty, Map.empty) n S G \<and> agreed kvView kvApplyView (Map.empty, Map.empty) n S' (G @ H) \<and>
    (\<forall>k. fst (fold kvApplyView (take k (G @ H)) (Map.empty, Map.empty)) =
           fold kvExec (effective op_ClientId op_SeqId isWrite Map.empty (take k (G @ H))) Map.empty)"
  using kv_group.replicas_agree [OF assms] kvApplyView_exactly_once by blast

text \<open>
  C22. The apply loop of a key/value server never panics: in every reachable state of the group it handles the next command of
  its queue and every snapshot that Raft offers, although it calls \<^verbatim>\<open>Snapshot\<close> with the index of commands that the log may
  have dropped already.
\<close>

theorem kv_applier_no_panic:
  assumes "sysReach False (kvRound bytes) (kvBoot n maxraftstate) kvView n S" "i < n"
    and "(\<exists>ms. queue S i = m # ms) \<or> SnapMsg i (incarnation (servers S) i) m \<in># net (servers S)"
  shows "\<exists>rf' kv'. kvRound bytes m (node (servers S) i, svc S i) = Inr (rf', kv')"
  using kv_group.apply_no_panic [OF assms(1,2)] kv_group.install_no_panic [OF assms(1)] assms(3) by blast

section \<open>A run\<close>

text \<open>A command is committed by the leader of two servers, handed to its service and applied.\<close>

definition exKvQueued :: "(Op, kvgob, KVServer) system" where
  "exKvQueued = exQueued (kvBoot 2 (-1)) exPut"

definition exKvApplied :: "(Op, kvgob, KVServer) system" where
  "exKvApplied = exApplied (kvBoot 2 (-1)) exPut (node (servers exKvQueued) 0)
     (fst (applyCommand exPut ((svc exKvQueued 0)\<lparr>kv_rf := node (servers exKvQueued) 0\<rparr>)))"

lemma exKv_server: "kv_maxraftstate (svc exKvQueued 0) = -1" "dupTable (svc exKvQueued 0) = Map.empty"
  by (simp_all add: exKvQueued_def exQueued_def sysInit_def kvBoot_def StartKVServer_def persister_defs)

lemma exKvQueued_reachable: "sysReach False (kvRound bytes) (kvBoot 2 (-1)) kvView 2 exKvQueued"
  unfolding exKvQueued_def by (rule exQueued_reachable)

lemma exKv_queue: "queue exKvQueued 0 = [commandMsg 1 (exEnt exPut)]"
  by (simp add: exKvQueued_def exQueued_def)

lemma exKvApplied_step: "sysStep False (kvRound bytes) (kvBoot 2 (-1)) kvView exKvQueued exKvApplied"
proof -
  have "kvRound bytes (commandMsg 1 (exEnt exPut)) (node (servers exKvQueued) 0, svc exKvQueued 0) =
     Inr (node (servers exKvQueued) 0, fst (applyCommand exPut ((svc exKvQueued 0)\<lparr>kv_rf := node (servers exKvQueued) 0\<rparr>)))"
    by (simp add: kvRound_def applierRound_def commandMsg_def exEnt_def applyCommand_def Let_def needSnapshot_def exKv_server applyOp_def exPut_def)
  then show ?thesis unfolding exKvApplied_def exKvQueued_def by (rule exApplied_step)
qed

lemma exKvApplied_store: "kvStore (svc exKvApplied 0) ''x'' = Some ''a''"
  by (simp add: exKvApplied_def exApplied_def applyCommand_def Let_def exKv_server applyOp_def exPut_def)

theorem kv_replicas_agree_witness:
  "sysReach False (kvRound (\<lambda>_. 0)) (kvBoot 2 (-1)) kvView 2 exKvQueued \<and> kvStore (svc exKvApplied 0) ''x'' = Some ''a'' \<and>
   (\<exists>G H. agreed kvView kvApplyView (Map.empty, Map.empty) 2 exKvQueued G \<and>
     agreed kvView kvApplyView (Map.empty, Map.empty) 2 exKvApplied (G @ H))"
  using kv_replicas_agree [OF exKvQueued_reachable r_into_rtranclp [of "sysStep _ _ _ _", OF exKvApplied_step]] exKvQueued_reachable exKvApplied_store
  by blast

theorem kv_applier_no_panic_witness:
  "sysReach False (kvRound (\<lambda>_. 0)) (kvBoot 2 (-1)) kvView 2 exKvQueued \<and> queue exKvQueued 0 = [commandMsg 1 (exEnt exPut)] \<and>
   (\<exists>rf' kv'. kvRound (\<lambda>_. 0) (commandMsg 1 (exEnt exPut)) (node (servers exKvQueued) 0, svc exKvQueued 0) = Inr (rf', kv'))"
  using kv_applier_no_panic [OF exKvQueued_reachable, of 0 "commandMsg 1 (exEnt exPut)"] exKvQueued_reachable exKv_queue by simp

end
