(* ===== verification/ShardCtrler_Group.thy ===== *)
theory ShardCtrler_Group
  imports ShardCtrler Raft_Service
begin

text \<open>
  A group of shard controllers with their Raft instances (\<^verbatim>\<open>shardctrler/server.go\<close> over \<^verbatim>\<open>raft/raft.go\<close>): all replicas have
  histories of configurations and duplicate tables of prefixes of one sequence of commands. The controller takes no snapshots.
\<close>

definition ctrlRound :: "(Op, unit) ApplyMsg \<Rightarrow> (Op, unit) raft \<times> ShardCtrler \<Rightarrow> ((Op, unit) raft \<times> ShardCtrler) go" where
  "ctrlRound m st =
     (case applierRound m ((snd st)\<lparr>sc_rf := fst st\<rparr>) of
        Inl p \<Rightarrow> Inl p | Inr (sc, _) \<Rightarrow> Inr (sc_rf sc, sc))"

definition ctrlBoot :: "nat \<Rightarrow> nat \<Rightarrow> int \<Rightarrow> (Op gobval, unit) persister \<Rightarrow> ShardCtrler" where
  "ctrlBoot n i rnd ps = StartServer n i ps rnd"

type_synonym ctrlState = "Config list \<times> (int \<rightharpoonup> lastReply)"

definition ctrlView :: "ShardCtrler \<Rightarrow> ctrlState" where
  "ctrlView sc = (configs sc, sc_dupTable sc)"

text \<open>The effect of a command on history and table; a command that panics has none.\<close>

definition ctrlApplyView :: "Op \<Rightarrow> ctrlState \<Rightarrow> ctrlState" where
  "ctrlApplyView op v =
     (case applyCommand op ((StartServer 1 0 MakePersister 0)\<lparr>configs := fst v, sc_dupTable := snd v\<rparr>) of
        Inl _ \<Rightarrow> v | Inr (sc, _) \<Rightarrow> ctrlView sc)"

lemma ctrlOp_view:
  assumes "applyOp op sc = Inr (sc1, r)" "ctrlView sc = ctrlView sc'"
  shows "\<exists>sc1'. applyOp op sc' = Inr (sc1', r) \<and> ctrlView sc1' = ctrlView sc1 \<and> sc_rf sc1 = sc_rf sc"
proof -
  have "cloneLatestConfig sc' = cloneLatestConfig sc" using assms(2) by (simp add: cloneLatestConfig_def ctrlView_def)
  then show ?thesis using assms
    by (cases "sop_Type op") (auto simp: applyOp_def appendConfig_def ctrlView_def split: sum.splits)
qed

lemma ctrlCommand_view:
  assumes "applyCommand op sc = Inr (sc1, r)" "ctrlView sc = ctrlView sc'"
  shows "\<exists>sc1'. applyCommand op sc' = Inr (sc1', r) \<and> ctrlView sc1' = ctrlView sc1 \<and> sc_rf sc1 = sc_rf sc"
proof -
  have t: "sc_dupTable sc' = sc_dupTable sc" using assms(2) by (simp add: ctrlView_def)
  show ?thesis
  proof (cases "\<exists>sc2 r2. applyOp op sc = Inr (sc2, r2)")
    case True
    then obtain sc2 r2 where 2: "applyOp op sc = Inr (sc2, r2)" by blast
    obtain sc2' where "applyOp op sc' = Inr (sc2', r2)" "ctrlView sc2' = ctrlView sc2" "sc_rf sc2 = sc_rf sc"
      using ctrlOp_view [OF 2 assms(2)] by blast
    then show ?thesis using assms 2 t
      by (auto simp: applyCommand_def Let_def ctrlView_def split: option.splits if_splits)
  next
    case False
    then show ?thesis using assms t
      by (auto simp: applyCommand_def Let_def split: option.splits if_splits sum.splits prod.splits)
  qed
qed

lemma ctrlApplyView_applyCommand:
  assumes "applyCommand op sc = Inr (sc1, r)"
  shows "ctrlApplyView op (ctrlView sc) = ctrlView sc1" "sc_rf sc1 = sc_rf sc"
proof -
  let ?sc = "(StartServer 1 0 MakePersister 0)\<lparr>configs := fst (ctrlView sc), sc_dupTable := snd (ctrlView sc)\<rparr>"
  have "ctrlView sc = ctrlView ?sc" by (simp add: ctrlView_def)
  from ctrlCommand_view [OF assms this] show "ctrlApplyView op (ctrlView sc) = ctrlView sc1" "sc_rf sc1 = sc_rf sc"
    by (auto simp: ctrlApplyView_def)
qed

interpretation ctrl_group: replicated_service False ctrlRound "ctrlBoot n" ctrlView ctrlApplyView "([emptyConfig], Map.empty)" "\<lambda>_ _. False"
  for n
proof
  fix k e rf st rf' st'
  assume a: "ctrlRound (commandMsg k e) (rf, st) = Inr (rf', st')"
  then obtain r where "applyCommand (Command e) (st\<lparr>sc_rf := rf\<rparr>) = Inr (st', r)" "rf' = sc_rf st'"
    by (auto simp: ctrlRound_def applierRound_def commandMsg_def split: sum.splits prod.splits)
  from ctrlApplyView_applyCommand [OF this(1)] this(2)
  show "ctrlView st' = ctrlApplyView (Command e) (ctrlView st) \<and> (rf' = rf \<or> (\<exists>data. False \<and> Snapshot k data rf = Inr rf'))"
    by (simp add: ctrlView_def)
next
  fix m :: "(Op, unit) ApplyMsg" and rf st rf' st'
  assume "offer m" "ctrlRound m (rf, st) = Inr (rf', st')"
  then show "rf' = rf \<and> ctrlView st' = ctrlView st" by (auto simp: ctrlRound_def applierRound_def offer_def ctrlView_def)
next
  fix ps :: "(Op gobval, unit) persister" and i rnd
  show "ctrlView (ctrlBoot n i rnd ps) = ([emptyConfig], Map.empty)" by (simp add: ctrlBoot_def StartServer_def ctrlView_def)
qed auto

section \<open>Controllers agree on configurations\<close>

lemma configs_append:
  assumes "applyCommand op sc = Inr (sc1, r)"
  shows "\<exists>cs. configs sc1 = configs sc @ cs"
  using assms
  by (cases "sop_Type op") (auto simp: applyCommand_def Let_def applyOp_def appendConfig_def split: option.splits if_splits sum.splits prod.splits)

lemma ctrlApplyView_append: "\<exists>cs. fst (ctrlApplyView op v) = fst v @ cs"
  using configs_append [of op "(StartServer 1 0 MakePersister 0)\<lparr>configs := fst v, sc_dupTable := snd v\<rparr>"]
  by (auto simp: ctrlApplyView_def ctrlView_def split: sum.splits)

lemma fold_ctrl_append: "\<exists>cs. fst (fold ctrlApplyView ops v) = fst v @ cs"
proof (induction ops arbitrary: v)
  case (Cons op ops)
  obtain cs where cs: "fst (ctrlApplyView op v) = fst v @ cs" using ctrlApplyView_append by blast
  obtain cs' where "fst (fold ctrlApplyView ops (ctrlApplyView op v)) = fst (ctrlApplyView op v) @ cs'" using Cons.IH by blast
  then show ?case using cs by simp
qed simp

lemma fold_ctrl_nth:
  assumes "k \<le> k'" "c < length (fst (fold ctrlApplyView (take k ops) v))"
  shows "fst (fold ctrlApplyView (take k' ops) v) ! c = fst (fold ctrlApplyView (take k ops) v) ! c"
proof -
  have "take k' ops = take k ops @ take (k' - k) (drop k ops)" using assms(1) by (metis le_add_diff_inverse take_add)
  then have "fold ctrlApplyView (take k' ops) v = fold ctrlApplyView (take (k' - k) (drop k ops)) (fold ctrlApplyView (take k ops) v)" by simp
  then show ?thesis using assms(2) fold_ctrl_append by (metis nth_append)
qed

text \<open>The configurations that two prefixes of one sequence lead to are the same where both have one.\<close>

lemma agreed_configs:
  assumes "agreed ctrlView ctrlApplyView v n S G" "agreed ctrlView ctrlApplyView v n S' (G @ H)" "i < n" "j < n"
    and "c < length (configs (svc S i))" "c < length (configs (svc S' j))"
  shows "configs (svc S i) ! c = configs (svc S' j) ! c"
proof -
  let ?run = "\<lambda>k. fst (fold ctrlApplyView (take k (G @ H)) v)"
  obtain k where "k \<le> length G" "ctrlView (svc S i) = fold ctrlApplyView (take k G) v"
    using assms(1,3) unfolding agreed_def by blast
  then have i: "configs (svc S i) = ?run k" by (simp add: ctrlView_def) (metis fst_conv)
  obtain k' where "ctrlView (svc S' j) = fold ctrlApplyView (take k' (G @ H)) v" using assms(2,4) unfolding agreed_def by blast
  then have j: "configs (svc S' j) = ?run k'" by (metis ctrlView_def fst_conv)
  show ?thesis using fold_ctrl_nth [of k k' c "G @ H"] fold_ctrl_nth [of k' k c "G @ H"] assms(5,6) unfolding i j by (metis nat_le_linear)
qed

text \<open>
  C5. All controllers agree. At any moment of a run of the controller group there is a sequence of commands that contains every committed command at its
  index, and every controller has exactly the configuration history and the duplicate table that a prefix of this sequence leads to; at any later moment the
  sequence is an extension of it. So whatever two controllers, asked at any two moments, have as configuration number \<^verbatim>\<open>c\<close> is the same, through crashes,
  lost messages and changes of the leader.
\<close>

theorem controllers_agree:
  assumes "sysReach False ctrlRound (ctrlBoot n) ctrlView n S" "(sysStep False ctrlRound (ctrlBoot n) ctrlView)\<^sup>*\<^sup>* S S'"
  shows "(\<exists>G H. agreed ctrlView ctrlApplyView ([emptyConfig], Map.empty) n S G \<and> agreed ctrlView ctrlApplyView ([emptyConfig], Map.empty) n S' (G @ H)) \<and>
    (\<forall>i<n. \<forall>j<n. \<forall>c. c < length (configs (svc S i)) \<and> c < length (configs (svc S' j)) \<longrightarrow> configs (svc S i) ! c = configs (svc S' j) ! c)"
  using ctrl_group.replicas_agree [OF assms] agreed_configs by blast

section \<open>A run\<close>

lemma exJoin_applied:
  obtains rf sc1 where "ctrlRound (commandMsg 1 (exEnt exJoin)) (node (servers (exQueued (ctrlBoot 2) exJoin)) 0, svc (exQueued (ctrlBoot 2) exJoin) 0) = Inr (rf, sc1)"
    "length (configs sc1) = 2"
proof -
  let ?rf = "node (servers (exQueued (ctrlBoot 2) exJoin :: (Op, unit, ShardCtrler) system)) 0"
  let ?sc = "(StartServer 2 0 MakePersister 0)\<lparr>sc_rf := ?rf\<rparr>"
  have start: "svc (exQueued (ctrlBoot 2) exJoin) 0 = StartServer 2 0 MakePersister 0" by (simp add: exQueued_def sysInit_def ctrlBoot_def)
  have w: "ctrlWrite exJoin" "sop_Type exJoin \<in> {OpJoin, OpLeave}" by (simp_all add: exJoin_def blankOp_def)
  have ok: "configsOk (configs ?sc)" using configsOk_start [of 2 0 MakePersister 0] by simp
  obtain sc1 r where app: "ctrlApply exJoin ?sc = Some (sc1, r)" by (rule ctrlApply_total [OF ok w(2)])
  have "newer (ctrlSeq ?sc) (sop_ClientId exJoin) (sop_SeqId exJoin)" by (simp add: newer_def ctrlSeq_def StartServer_def)
  from ctrlApply_fresh(1) [OF w(1) this app] have "length (configs sc1) = 2" by (auto simp: StartServer_def)
  moreover have "applyCommand exJoin ?sc = Inr (sc1, r)" using app by (auto simp: ctrlApply_def split: sum.splits)
  then have "ctrlRound (commandMsg 1 (exEnt exJoin)) (?rf, svc (exQueued (ctrlBoot 2) exJoin) 0) = Inr (sc_rf sc1, sc1)"
    unfolding start by (simp add: ctrlRound_def applierRound_def commandMsg_def exEnt_def)
  ultimately show thesis using that by blast
qed

theorem controllers_agree_witness:
  "\<exists>S S'. sysReach False ctrlRound (ctrlBoot 2) ctrlView 2 S \<and> sysStep False ctrlRound (ctrlBoot 2) ctrlView S S' \<and>
     length (configs (svc S 1)) = 1 \<and> length (configs (svc S' 0)) = 2 \<and> configs (svc S 1) ! 0 = configs (svc S' 0) ! 0 \<and>
     (\<exists>G H. agreed ctrlView ctrlApplyView ([emptyConfig], Map.empty) 2 S G \<and> agreed ctrlView ctrlApplyView ([emptyConfig], Map.empty) 2 S' (G @ H))"
proof -
  let ?S = "exQueued (ctrlBoot 2) exJoin"
  obtain rf sc1 where a: "ctrlRound (commandMsg 1 (exEnt exJoin)) (node (servers ?S) 0, svc ?S 0) = Inr (rf, sc1)" "length (configs sc1) = 2"
    by (rule exJoin_applied)
  let ?S' = "exApplied (ctrlBoot 2) exJoin rf sc1"
  have st: "sysStep False ctrlRound (ctrlBoot 2) ctrlView ?S ?S'" using a(1) by (rule exApplied_step)
  have l: "length (configs (svc ?S 1)) = 1" "length (configs (svc ?S' 0)) = 2"
    using a(2) by (simp_all add: exQueued_def sysInit_def ctrlBoot_def StartServer_def exApplied_def)
  note agree = controllers_agree [OF exQueued_reachable r_into_rtranclp [of "sysStep _ _ _ _", OF st]]
  have "configs (svc ?S 1) ! 0 = configs (svc ?S' 0) ! 0"
    by (rule agree [THEN conjunct2, rule_format, of 1 0 0]) (unfold l, simp_all)
  then show ?thesis by (intro exI [of _ ?S] exI [of _ ?S'] conjI exQueued_reachable st l agree [THEN conjunct1])
qed

end
