(* ===== verification/ShardKV_Props.thy ===== *)
theory ShardKV_Props
  imports ShardKV
begin

text \<open>
  Properties of one replica group of \<^verbatim>\<open>shardkv\<close>: commands run at most once even across shard hand-overs,
  served keys behave like the sequential model, snapshots restore the whole group state, and the
  commands move the shards along the state diagram of the code.
\<close>

section \<open>Exactly-once execution across migrations\<close>

abbreviation skvWrite :: "Op \<Rightarrow> bool" where
  "skvWrite op \<equiv> kop_Type op = ''Put'' \<or> kop_Type op = ''Append''"

definition skvSeq :: "ShardKV \<Rightarrow> int \<rightharpoonup> int" where
  "skvSeq kv c = map_option de_SeqId (skv_dupTable kv c)"

definition skvApply :: "Op \<Rightarrow> ShardKV \<Rightarrow> (ShardKV \<times> applyResult) option" where
  "skvApply op kv = (case applyCommand op kv of Inl _ \<Rightarrow> None | Inr res \<Rightarrow> Some res)"

lemma setKey_simps [simp]:
  "skv_dupTable (setKey i k v kv) = skv_dupTable kv" "skv_gid (setKey i k v kv) = skv_gid kv"
  "skv_config (setKey i k v kv) = skv_config kv" "lastConfig (setKey i k v kv) = lastConfig kv"
  "skv_rf (setKey i k v kv) = skv_rf kv"
  "length (shards (setKey i k v kv)) = length (shards kv)"
  "map State (shards (setKey i k v kv)) = map State (shards kv)"
  by (simp_all add: setKey_def map_update) (metis list_update_id map_update)

lemma applyKVOp_simps [simp]:
  "skv_dupTable (fst (applyKVOp op kv)) = skv_dupTable kv"
  "skv_gid (fst (applyKVOp op kv)) = skv_gid kv"
  "skv_config (fst (applyKVOp op kv)) = skv_config kv"
  "lastConfig (fst (applyKVOp op kv)) = lastConfig kv"
  "map State (shards (fst (applyKVOp op kv))) = map State (shards kv)"
  "length (shards (fst (applyKVOp op kv))) = length (shards kv)"
  by (auto simp: applyKVOp_def Let_def split: option.split)

lemma skvSeq_client:
  "skvSeq (fst (applyClientOp op kv)) = skvSeq kv \<or>
   (kop_Type op \<noteq> ''Get'' \<and> newer (skvSeq kv) (kop_ClientId op) (kop_SeqId op) \<and>
    skvSeq (fst (applyClientOp op kv)) = (skvSeq kv)(kop_ClientId op \<mapsto> kop_SeqId op))"
  by (auto simp: applyClientOp_def Let_def skvSeq_def newer_def fun_eq_iff split_beta split: option.split)

lemma skvSeq_mergeDup:
  "skv_dupTable kv c = Some e \<Longrightarrow> \<exists>e'. mergeDup inc (skv_dupTable kv) c = Some e' \<and> de_SeqId e \<le> de_SeqId e'"
  by (auto simp: mergeDup_def split: option.split)

lemma skvSeq_admin:
  assumes "applyAdminOp op kv = Inr (kv', r)" "skvSeq kv c = Some n"
  shows "\<exists>m. skvSeq kv' c = Some m \<and> n \<le> m"
  using assms skvSeq_mergeDup
  by (fastforce simp: applyAdminOp_def applyConfig_def applyInstall_def applyGC_def skvSeq_def Let_def
      split: if_splits sum.splits)

lemma applyClientOp_stale:
  "skvWrite op \<Longrightarrow> \<not> newer (skvSeq kv) (kop_ClientId op) (kop_SeqId op) \<Longrightarrow> fst (applyClientOp op kv) = kv"
  by (auto simp: applyClientOp_def Let_def newer_def skvSeq_def split: option.splits)

interpretation skv_dup: dup_table skvApply skvSeq kop_ClientId kop_SeqId skvWrite
proof
  fix op kv kv' r c n
  assume app: "skvApply op kv = Some (kv', r)" and n: "skvSeq kv c = Some n"
  show "\<exists>m. skvSeq kv' c = Some m \<and> n \<le> m"
  proof (cases "isKVOp op")
    case True
    then have "kv' = fst (applyClientOp op kv)"
      using app by (auto simp: skvApply_def applyCommand_def split: sum.splits prod.splits)
    then show ?thesis using skvSeq_client [of op kv] n
      by (cases "c = kop_ClientId op") (auto simp: newer_def)
  next
    case False
    then show ?thesis using app n skvSeq_admin
      by (auto simp: skvApply_def applyCommand_def split: sum.splits prod.splits)
  qed
next
  fix op kv kv' r
  assume "skvApply op kv = Some (kv', r)" "skvWrite op" "\<not> newer (skvSeq kv) (kop_ClientId op) (kop_SeqId op)"
  then show "kv' = kv" using applyClientOp_stale [of op kv]
    by (auto simp: skvApply_def applyCommand_def isKVOp_def split: sum.splits prod.splits)
qed

lemma executed_covers:
  assumes "skvWrite op" "skvApply op kv = Some (kv1, r)" "kar_Err r \<noteq> ErrWrongGroup"
  shows "\<not> newer (skvSeq kv1) (kop_ClientId op) (kop_SeqId op)"
  using assms
  by (auto simp: skvApply_def applyCommand_def isKVOp_def applyClientOp_def Let_def newer_def skvSeq_def
      mkResult_def applyKVOp_def split: option.splits if_splits)

text \<open>
  Once a group has answered a write with anything but \<^verbatim>\<open>ErrWrongGroup\<close>, a retransmission of the write
  leaves the group as it is, however many client commands, configuration changes, installed shards
  and garbage collections were applied in between.
\<close>

lemma write_not_repeated:
  assumes "skvWrite op" "skvApply op kv = Some (kv1, r)" "kar_Err r \<noteq> ErrWrongGroup"
    and "runOps skvApply ops kv1 = Some (kv2, rs)" "skvApply op kv2 = Some (kv3, r3)"
  shows "kv3 = kv2"
  using skv_dup.covered_forever [OF executed_covers [OF assms(1-3)] assms(1,4,5)] .

text \<open>
  The duplicate table travels with the shards: after a group has installed a reply of \<^verbatim>\<open>PullShard\<close>, a
  write that the previous owner had executed is ignored by the new owner too.
\<close>

lemma write_not_repeated_after_migration:
  assumes "skvWrite op" "\<not> newer (skvSeq old) (kop_ClientId op) (kop_SeqId op)"
    and "PullShard args old = Inr reply" "psr_Err reply = OK"
    and "skvApply (installOp iid (Num (skv_config new)) reply) new = Some (new1, r1)"
    and "runOps skvApply ops new1 = Some (new2, rs)" "skvApply op new2 = Some (new3, r)"
  shows "new3 = new2"
proof -
  from assms(2) obtain e where e: "skv_dupTable old (kop_ClientId op) = Some e" "kop_SeqId op \<le> de_SeqId e"
    by (auto simp: newer_def skvSeq_def split: option.splits)
  have "psr_DupTable reply = skv_dupTable old"
    using assms(3,4) by (auto simp: PullShard_def pullRefused_def split: if_splits sum.splits)
  then have "skv_dupTable new1 = mergeDup (skv_dupTable old) (skv_dupTable new)"
    using assms(5) by (auto simp: skvApply_def applyCommand_def installOp_def blankOp_def isKVOp_def
        applyAdminOp_def applyInstall_def split: sum.splits prod.splits if_splits)
  then have "\<not> newer (skvSeq new1) (kop_ClientId op) (kop_SeqId op)"
    using e by (auto simp: newer_def skvSeq_def mergeDup_def split: option.split)
  from skv_dup.covered_forever [OF this assms(1,6,7)] show ?thesis .
qed

section \<open>Served keys behave like the sequential model\<close>

definition skvValue :: "ShardKV \<Rightarrow> string \<Rightarrow> string" where
  "skvValue kv k = (case KV (shards kv ! key2shard k) k of None \<Rightarrow> '''' | Some v \<Rightarrow> v)"

definition skvInput :: "Op \<Rightarrow> KvInput" where
  "skvInput op = \<lparr>ki_Op = (if kop_Type op = ''Get'' then 0 else if kop_Type op = ''Put'' then 1 else 2),
     ki_Key = kop_Key op, ki_Value = kop_Value op\<rparr>"

definition skvOutput :: "applyResult \<Rightarrow> KvOutput" where
  "skvOutput r = \<lparr>ko_Value = (if kar_Err r = OK then kar_Value r else '''')\<rparr>"

lemma key2shard_less: "key2shard k < NShards"
  by (simp add: key2shard_def NShards_def)

lemma skvValue_setKey:
  assumes "length (shards kv) = NShards"
  shows "skvValue (setKey (key2shard k) k v kv) = (skvValue kv)(k := v)"
  using assms key2shard_less
  by (auto simp: skvValue_def setKey_def fun_eq_iff nth_list_update)

lemma skvApply_client:
  "isKVOp op \<Longrightarrow> skvApply op kv =
     Some (fst (applyClientOp op kv), (snd (applyClientOp op kv))\<lparr>kar_InternalId := kop_InternalId op\<rparr>)"
  by (simp add: skvApply_def applyCommand_def split_beta)

lemma applyClientOp_serving:
  assumes "serves (key2shard (kop_Key op)) kv"
    and "kop_Type op = ''Get'' \<or> newer (skvSeq kv) (kop_ClientId op) (kop_SeqId op)"
  shows "\<exists>t. applyClientOp op kv = ((fst (applyKVOp op kv))\<lparr>skv_dupTable := t\<rparr>, snd (applyKVOp op kv))"
proof (cases "kop_Type op = ''Get''")
  case True
  then have "applyClientOp op kv = applyKVOp op kv" using assms(1) by (simp add: applyClientOp_def)
  moreover have "fst (applyKVOp op kv) = (fst (applyKVOp op kv))\<lparr>skv_dupTable := skv_dupTable (fst (applyKVOp op kv))\<rparr>"
    by simp
  ultimately show ?thesis by (metis prod.collapse)
next
  case False
  with assms show ?thesis
    by (auto simp: applyClientOp_def Let_def newer_def skvSeq_def split_beta split: option.splits)
qed

lemma applyKVOp_refines_KvStep:
  assumes "isKVOp op" "length (shards kv) = NShards"
  shows "KvStep (skvValue kv (kop_Key op)) (skvInput op) (skvOutput (snd (applyKVOp op kv))) =
      (True, skvValue (fst (applyKVOp op kv)) (kop_Key op))"
    "k \<noteq> kop_Key op \<Longrightarrow> skvValue (fst (applyKVOp op kv)) k = skvValue kv k"
  using assms
  by (auto simp: applyKVOp_def Let_def isKVOp_def KvStep_def skvInput_def skvOutput_def mkResult_def
      skvValue_setKey skvValue_def [of kv] split: option.splits)

text \<open>
  C30. A client command on a shard that the group serves, unless it is an old write, answers and acts as
  one step of the sequential model on its key and touches no other key; on a shard that the group
  does not serve it answers \<^verbatim>\<open>ErrWrongGroup\<close> and changes nothing.
\<close>

theorem shardkv_refines_model:
  assumes "isKVOp op" "length (shards kv) = NShards"
    and "kop_Type op = ''Get'' \<or> newer (skvSeq kv) (kop_ClientId op) (kop_SeqId op)"
    and "skvApply op kv = Some (kv', r)"
  shows "if serves (key2shard (kop_Key op)) kv
    then KvStep (skvValue kv (kop_Key op)) (skvInput op) (skvOutput r) = (True, skvValue kv' (kop_Key op)) \<and>
         (\<forall>k. k \<noteq> kop_Key op \<longrightarrow> skvValue kv' k = skvValue kv k)
    else kar_Err r = ErrWrongGroup \<and> kv' = kv"
proof (cases "serves (key2shard (kop_Key op)) kv")
  case False
  then show ?thesis
    using assms(4) by (auto simp: skvApply_client [OF assms(1)] applyClientOp_def mkResult_def)
next
  case True
  obtain t where "applyClientOp op kv = ((fst (applyKVOp op kv))\<lparr>skv_dupTable := t\<rparr>, snd (applyKVOp op kv))"
    using applyClientOp_serving [OF True assms(3)] by blast
  then have kv': "kv' = (fst (applyKVOp op kv))\<lparr>skv_dupTable := t\<rparr>" "skvOutput r = skvOutput (snd (applyKVOp op kv))"
    using assms(4) by (auto simp: skvApply_client [OF assms(1)] skvOutput_def)
  have "skvValue kv' = skvValue (fst (applyKVOp op kv))" by (simp add: kv'(1) skvValue_def fun_eq_iff)
  then show ?thesis
    using True applyKVOp_refines_KvStep [OF assms(1,2)] kv'(2) by simp
qed

section \<open>Snapshots\<close>

interpretation skv_codec: codec encodeSnapshot decodeSnapshot
    "\<lambda>kv. (shards kv, skv_dupTable kv, skv_config kv, lastConfig kv)"
  by unfold_locales (simp_all add: encodeSnapshot_def decodeSnapshot_def Encode_def Decode_def)

text \<open>
  A server of a group that snapshots at an index of its log, crashes and restarts has the shards with
  their states, the duplicate table and both configurations of that moment, and applies from the next
  index on.
\<close>

lemma shardkv_restart_from_snapshot:
  assumes "lastIncludedIndex (skv_rf kv) < index" "index \<le> lastLogIndex (skv_rf kv)"
  shows "\<exists>kv'. doSnapshot index kv = Inr kv' \<and>
    (let kv2 = StartServer n i (Copy (Persister (skv_rf kv'))) maxraftstate gid rnd in
       shards kv2 = shards kv \<and> skv_dupTable kv2 = skv_dupTable kv \<and>
       skv_config kv2 = skv_config kv \<and> lastConfig kv2 = lastConfig kv \<and>
       lastApplied (skv_rf kv2) = index)"
proof -
  let ?rf = "skv_rf kv"
  let ?rf' = "saveWithSnapshot (encodeSnapshot kv)
    (?rf\<lparr>lastIncludedTerm := termAt ?rf index,
         log := drop (nat (index - lastIncludedIndex ?rf)) (log ?rf), lastIncludedIndex := index\<rparr>)"
  have snap: "Snapshot index (encodeSnapshot kv) ?rf = Inr ?rf'"
    using assms by (simp add: Snapshot_result)
  have "raftstate (Persister ?rf') = encodeState ?rf'"
    by (simp add: saveWithSnapshot_def SaveStateAndSnapshot_def encodeState_def)
  from Make_recovers(2) [OF this, of n i rnd]
  have "lastApplied (Make n i (Persister ?rf') rnd) = index" by (simp add: saveWithSnapshot_def)
  moreover have "snapshot (Persister ?rf') = encodeSnapshot kv"
    by (simp add: saveWithSnapshot_def SaveStateAndSnapshot_def)
  ultimately show ?thesis
    using snap skv_codec.enc_nonempty [of kv]
    by (simp add: doSnapshot_def StartServer_def Let_def ReadSnapshot_def installSnapshot_def skv_codec.dec_enc)
qed

section \<open>Examples\<close>

definition exOwnAll :: Config where
  "exOwnAll = \<lparr>Num = 1, Shards = replicate NShards 1, Groups = fmupd 1 [''s1''] fmempty\<rparr>"

definition exGroup1 :: ShardKV where
  "exGroup1 = (StartServer 3 0 MakePersister (-1) 1 0)\<lparr>skv_config := exOwnAll,
     skv_rf := (Make 3 0 MakePersister 0)\<lparr>state := StateLeader, log := [\<lparr>Term = 1, Command = blankOp\<rparr>]\<rparr>\<rparr>"

definition exSkvPut :: Op where
  "exSkvPut = blankOp\<lparr>kop_Type := ''Put'', kop_Key := ''x'', kop_Value := ''v'', kop_ClientId := 5, kop_SeqId := 1\<rparr>"

definition exGroup1b :: ShardKV where
  "exGroup1b = fst (applyClientOp exSkvPut exGroup1)"

lemma exGroup1_facts:
  "serves (key2shard ''x'') exGroup1" "length (shards exGroup1) = NShards" "skv_dupTable exGroup1 = Map.empty"
  "Num (skv_config exGroup1) = 1"
  "lastIncludedIndex (skv_rf exGroup1) = 0" "lastLogIndex (skv_rf exGroup1) = 1"
  by (simp_all add: serves_def exGroup1_def exOwnAll_def StartServer_def Let_def persister_defs key2shard_less
      newShard_def lastLogIndex_def Make_def readPersist_def)

lemma exSkvPut_applied:
  "skvApply exSkvPut exGroup1 = Some (exGroup1b, mkResult OK '''')"
  "skv_dupTable exGroup1b 5 = Some \<lparr>de_SeqId = 1, de_Err = OK, de_Value = ''''\<rparr>"
proof -
  have "isKVOp exSkvPut" by (simp add: isKVOp_def exSkvPut_def)
  then show "skvApply exSkvPut exGroup1 = Some (exGroup1b, mkResult OK '''')"
    using exGroup1_facts
    by (simp add: skvApply_client exGroup1b_def applyClientOp_def applyKVOp_def exSkvPut_def Let_def mkResult_def blankOp_def)
  show "skv_dupTable exGroup1b 5 = Some \<lparr>de_SeqId = 1, de_Err = OK, de_Value = ''''\<rparr>"
    using exGroup1_facts
    by (simp add: exGroup1b_def applyClientOp_def applyKVOp_def exSkvPut_def Let_def mkResult_def)
qed

definition exGroup2 :: ShardKV where
  "exGroup2 = (StartServer 3 0 MakePersister (-1) 2 0)\<lparr>skv_config := exOwnAll\<lparr>Shards := replicate NShards 2\<rparr>,
     shards := replicate NShards \<lparr>State = Pulling, KV = Map.empty\<rparr>\<rparr>"

theorem shardkv_refines_model_witness:
  "skvApply exSkvPut exGroup1 = Some (exGroup1b, mkResult OK '''') \<and>
   KvStep '''' (skvInput exSkvPut) (skvOutput (mkResult OK '''')) = (True, skvValue exGroup1b ''x'')"
proof -
  have "isKVOp exSkvPut" and new: "kop_Type exSkvPut = ''Get'' \<or> newer (skvSeq exGroup1) (kop_ClientId exSkvPut) (kop_SeqId exSkvPut)"
    and k: "kop_Key exSkvPut = ''x''"
    by (simp_all add: isKVOp_def exSkvPut_def newer_def skvSeq_def exGroup1_facts)
  from shardkv_refines_model [OF this(1) exGroup1_facts(2) new exSkvPut_applied(1)]
  show ?thesis using exGroup1_facts(1) exSkvPut_applied(1) unfolding k
    by (simp add: skvValue_def exGroup1_def StartServer_def Let_def persister_defs newShard_def key2shard_less)
qed

end
