(* ===== verification/Raft_Late.thy ===== *)
theory Raft_Late
  imports Raft_Service
begin

text \<open>
  A run of three servers in which a command reaches a service after a snapshot that covers it. Server 0 leads and commits a first command with
  server 2. Server 1 learns of it and its apply loop puts it into the apply channel. Server 0 commits a second command with server 2 and passes both on to its
  service. If this takes a snapshot then, the next call to server 1, which has not acknowledged the first command, is \<^verbatim>\<open>InstallSnapshot\<close>, and nothing keeps
  the offer of the snapshot behind the command that waits in the channel.
\<close>

section \<open>Servers and groups\<close>

definition lateNode :: "nat \<Rightarrow> raftState \<Rightarrow> int \<Rightarrow> 'c LogEntry list \<Rightarrow> int \<Rightarrow> int list \<Rightarrow> int list \<Rightarrow> int \<Rightarrow> bool \<Rightarrow> nat \<Rightarrow> ('c, 's) raft" where
  "lateNode i st vf lg ci nx mt hb ac v =
     \<lparr>peers = 3, me = i, Persister = \<lparr>raftstate = [GInt 1, GInt vf, GLog lg, GInt 0, GInt 0], snapshot = []\<rparr>, dead = False,
      state = st, currentTerm = 1, votedFor = vf, log = lg, lastIncludedIndex = 0, lastIncludedTerm = 0, commitIndex = ci,
      lastApplied = 0, nextIndex = nx, matchIndex = mt, electionTimer = 300, heartbeatTimer = hb, applyCond = ac,
      votes = (\<lambda>_. 0)(1 := v)\<rparr>"

definition lateGroup :: "('c, 's) raft \<Rightarrow> ('c, 's) raft \<Rightarrow> ('c, 's) raft \<Rightarrow> ('c, 's) msg multiset \<Rightarrow> (nat \<times> int \<times> nat) set \<Rightarrow>
    (nat \<times> int \<times> nat) set \<Rightarrow> ('c, 's) cluster" where
  "lateGroup a b c M G C = \<lparr>nservers = 3, node = (\<lambda>i. Make 3 i MakePersister 0)(0 := a, 1 := b, 2 := c), incarnation = (\<lambda>_. 0),
     net = M, granted = G, counted = C\<rparr>"

lemma lateGroup_simps [simp]:
  "nservers (lateGroup a b c M G C) = 3" "node (lateGroup a b c M G C) 0 = a" "node (lateGroup a b c M G C) (Suc 0) = b"
  "node (lateGroup a b c M G C) 2 = c" "incarnation (lateGroup a b c M G C) i = 0" "net (lateGroup a b c M G C) = M"
  "granted (lateGroup a b c M G C) = G" "counted (lateGroup a b c M G C) = C"
  by (simp_all add: lateGroup_def)

lemma lateGroup_upd [simp]:
  "lateGroup a b c M G C\<lparr>node := (node (lateGroup a b c M G C))(0 := x)\<rparr> = lateGroup x b c M G C"
  "lateGroup a b c M G C\<lparr>node := (node (lateGroup a b c M G C))(Suc 0 := x)\<rparr> = lateGroup a x c M G C"
  "lateGroup a b c M G C\<lparr>node := (node (lateGroup a b c M G C))(2 := x)\<rparr> = lateGroup a b x M G C"
  "lateGroup a b c M G C\<lparr>net := M'\<rparr> = lateGroup a b c M' G C"
  "lateGroup a b c M G C\<lparr>granted := G'\<rparr> = lateGroup a b c M G' C" "lateGroup a b c M G C\<lparr>counted := C'\<rparr> = lateGroup a b c M G C'"
  by (auto simp: lateGroup_def fun_eq_iff)

lemma lateGroup_init: "cinit 3 (\<lambda>_. 0) = lateGroup (Make 3 0 MakePersister 0) (Make 3 1 MakePersister 0) (Make 3 2 MakePersister 0) {#} {} {}"
  by (auto simp: cinit_def lateGroup_def fun_eq_iff)

lemma replicate_three: "replicate 3 x = [x, x, x]"
  by (simp add: numeral_eq_Suc)

lemmas late_defs = ex_run_defs lateNode_def replicate_three tickElection_def startElection_def RequestVote_def isMoreUpToDate_def stepDown_def
  handleVoteReply_def majority_def becomeLeader_def Start_def AppendEntries_def otherPeers_def tickHeartbeat_def replicateTo_def
  handleAppendReply_def setMatchIndex_def setNextIndex_def tryCommit_def tryCommitFrom.simps matchCount_def

section \<open>The critical sections of the run\<close>

abbreviation lateLeader :: "'c LogEntry list \<Rightarrow> int \<Rightarrow> int list \<Rightarrow> int list \<Rightarrow> int \<Rightarrow> bool \<Rightarrow> ('c, 's) raft" where
  "lateLeader lg ci nx mt hb ac \<equiv> lateNode 0 StateLeader 0 lg ci nx mt hb ac 2"

abbreviation lateFollower :: "nat \<Rightarrow> int \<Rightarrow> 'c LogEntry list \<Rightarrow> int \<Rightarrow> bool \<Rightarrow> ('c, 's) raft" where
  "lateFollower i vf lg ci ac \<equiv> lateNode i StateFollower vf lg ci [0, 0, 0] [0, 0, 0] 100 ac 0"

definition lateSend :: "'c LogEntry list \<Rightarrow> 'c AppendEntriesArgs" where
  "lateSend es = (exSend 0 es)\<lparr>aea_LeaderCommit := 1\<rparr>"

lemma late_elected:
  "tickElection 0 (Make 3 0 MakePersister 0) = (lateNode 0 StateCandidate 0 [] 0 [0, 0, 0] [0, 0, 0] 100 False 1, Some exVote)"
  "RequestVote 0 exVote (Make 3 2 MakePersister 0) = (lateFollower 2 0 [] 0 False, exYes)"
  "handleVoteReply exVote exYes (lateNode 0 StateCandidate 0 [] 0 [0, 0, 0] [0, 0, 0] 100 False 1) = lateLeader [] 0 [1, 1, 1] [0, 0, 0] 0 False"
  by (simp_all add: late_defs fun_eq_iff)

lemma late_leader:
  "tickHeartbeat (lateLeader lg ci nx mt hb ac) = (lateLeader lg ci nx mt 100 ac, [1, 2])"
  "Start c (lateLeader [] 0 [1, 1, 1] [0, 0, 0] 0 False) = (lateLeader [exEnt c] 0 [1, 1, 1] [1, 0, 0] 0 False, 1, 1, True)"
  "Start d (lateLeader [exEnt c] 1 [1, 1, 2] [1, 0, 1] 100 True) = (lateLeader [exEnt c, exEnt d] 1 [1, 1, 2] [2, 0, 1] 0 True, 2, 1, True)"
  "replicateTo 2 (lateLeader [exEnt c] 0 [1, 1, 1] [1, 0, 0] 100 False) = SendEntries (exSend 0 [exEnt c])"
  "replicateTo 1 (lateLeader [exEnt c] 1 [1, 1, 2] [1, 0, 1] 100 True) = SendEntries (lateSend [exEnt c])"
  "replicateTo 2 (lateLeader [exEnt c, exEnt d] 1 [1, 1, 2] [2, 0, 1] 100 True) = SendEntries (exSend 1 [exEnt d])"
  by (simp_all add: late_defs lateSend_def)

lemma late_followers:
  "AppendEntries 0 (exSend 0 [exEnt c]) (lateFollower 2 0 [] 0 False) = (lateFollower 2 0 [exEnt c] 0 False, exOk)"
  "AppendEntries 0 (exSend 1 [exEnt d]) (lateFollower 2 0 [exEnt c] 0 False) = (lateFollower 2 0 [exEnt c, exEnt d] 1 True, exOk)"
  "AppendEntries 0 (lateSend [exEnt c]) (Make 3 1 MakePersister 0) = (lateFollower 1 (-1) [exEnt c] 1 True, exOk)"
  by (simp_all add: late_defs lateSend_def fun_eq_iff)

lemma late_commits:
  "handleAppendReply 2 (exSend 0 [exEnt c]) exOk (lateLeader [exEnt c] 0 [1, 1, 1] [1, 0, 0] 100 False) = lateLeader [exEnt c] 1 [1, 1, 2] [1, 0, 1] 100 True"
  "handleAppendReply 2 (exSend 1 [exEnt d]) exOk (lateLeader [exEnt c, exEnt d] 1 [1, 1, 2] [2, 0, 1] 100 True) =
     lateLeader [exEnt c, exEnt d] 2 [1, 1, 3] [2, 0, 2] 100 True"
  by (simp_all add: late_defs)

section \<open>The steps\<close>

lemma late_raftOnly:
  assumes "cstep (lateGroup a b c M G C) (lateGroup a' b' c' M' G' C')"
    and "lastIncludedIndex a' = lastIncludedIndex a" "lastIncludedIndex b' = lastIncludedIndex b" "lastIncludedIndex c' = lastIncludedIndex c"
    and "\<And>i k x. Batch i k x \<in># M' \<Longrightarrow> Batch i k x \<in># M"
  shows "raftOnly (lateGroup a b c M G C) (lateGroup a' b' c' M' G' C')"
  using assms by (auto simp: raftOnly_def lateGroup_def)

lemma late_indices [simp]:
  "lastIncludedIndex (lateNode i st vf lg ci nx mt hb ac v) = 0" "lastIncludedIndex (Make 3 i MakePersister 0) = 0"
  by (simp_all add: lateNode_def Make_def readPersist_def MakePersister_def ReadRaftState_def)

lemma late_call:
  assumes "tickHeartbeat a = (a', [1, 2])" "lastIncludedIndex a' = lastIncludedIndex a"
  shows "raftOnly (lateGroup a b c M G C) (lateGroup a' b c (M + {#ReplTask 0 0 1, ReplTask 0 0 2#}) G C)"
  using heartbeat [of 0 "lateGroup a b c M G C" a' "[1, 2]"] assms by (intro late_raftOnly) (auto simp: add_mset_commute)

lemma late_start:
  assumes "Start x a = (a', index, t, True)" "lastIncludedIndex a' = lastIncludedIndex a"
  shows "raftOnly (lateGroup a b c M G C) (lateGroup a' b c M G C)"
  using client_start [of 0 "lateGroup a b c M G C" x a' index t True] assms by (intro late_raftOnly) auto

text \<open>A started goroutine calls the peer, which executes the call.\<close>

lemma late_append2:
  assumes "replicateTo 2 a = SendEntries args" "AppendEntries 0 args c = (c', reply)" "lastIncludedIndex c' = lastIncludedIndex c"
    and "a' = handleAppendReply 2 args reply a" "lastIncludedIndex a' = lastIncludedIndex a"
  shows "raftOnly\<^sup>*\<^sup>* (lateGroup a b c (M + {#ReplTask 0 0 2#}) G C) (lateGroup a' b c' M G C)"
proof -
  let ?s = "lateGroup a b c (M + {#ReplTask 0 0 2#}) G C" and ?s1 = "lateGroup a b c (M + {#AppReq 0 0 2 args#}) G C"
  let ?s2 = "lateGroup a b c' (M + {#AppRep 0 0 2 args reply#}) G C" and ?s3 = "lateGroup a' b c' M G C"
  have "raftOnly ?s ?s1" using replicate_call [of 0 ?s 2] assms(1) by (intro late_raftOnly) auto
  moreover have "raftOnly ?s1 ?s2" using append_request [of 0 0 2 args ?s1 0 c' reply] assms(2,3) by (intro late_raftOnly) auto
  moreover have "raftOnly ?s2 ?s3" using append_reply [of 0 ?s2 2 args reply a'] assms(4,5) by (intro late_raftOnly) auto
  ultimately show ?thesis by (meson converse_rtranclp_into_rtranclp rtranclp.rtrancl_refl)
qed

lemma late_append1:
  assumes "replicateTo 1 a = SendEntries args" "AppendEntries 0 args b = (b', reply)" "lastIncludedIndex b' = lastIncludedIndex b"
  shows "raftOnly\<^sup>*\<^sup>* (lateGroup a b c (M + {#ReplTask 0 0 1#}) G C) (lateGroup a b' c (M + {#AppRep 0 0 1 args reply#}) G C)"
proof -
  let ?s = "lateGroup a b c (M + {#ReplTask 0 0 1#}) G C" and ?s1 = "lateGroup a b c (M + {#AppReq 0 0 1 args#}) G C"
  let ?s2 = "lateGroup a b' c (M + {#AppRep 0 0 1 args reply#}) G C"
  have "raftOnly ?s ?s1" using replicate_call [of 0 ?s 1] assms(1) by (intro late_raftOnly) auto
  moreover have "raftOnly ?s1 ?s2" using append_request [of 0 0 1 args ?s1 0 b' reply] assms(2,3) by (intro late_raftOnly) auto
  ultimately show ?thesis by (meson converse_rtranclp_into_rtranclp rtranclp.rtrancl_refl)
qed

lemma late_offer:
  assumes "replicateTo 1 a = SendSnapshot args" "InstallSnapshot 0 args b = (b', reply, Some m)" "lastIncludedIndex b' = lastIncludedIndex b"
  shows "raftOnly\<^sup>*\<^sup>* (lateGroup a b c (M + {#ReplTask 0 0 1#}) G C) (lateGroup a b' c (M + {#SnapRep 0 0 1 args reply, SnapMsg 1 0 m#}) G C)"
proof -
  let ?s = "lateGroup a b c (M + {#ReplTask 0 0 1#}) G C" and ?s1 = "lateGroup a b c (M + {#SnapReq 0 0 1 args#}) G C"
  let ?s2 = "lateGroup a b' c (M + {#SnapRep 0 0 1 args reply, SnapMsg 1 0 m#}) G C"
  have "raftOnly ?s ?s1" using replicate_call [of 0 ?s 1] assms(1) by (intro late_raftOnly) auto
  moreover have "raftOnly ?s1 ?s2"
    using snap_request [of 0 0 1 args ?s1 0 b' reply "Some m"] assms(2,3) by (intro late_raftOnly) (auto simp: add_mset_commute)
  ultimately show ?thesis by (meson converse_rtranclp_into_rtranclp rtranclp.rtrancl_refl)
qed

section \<open>The run\<close>

lemma late_peers: "otherPeers (lateNode 0 st vf lg ci nx mt hb ac v) = [1, 2]"
  by (simp add: late_defs)

lemma late_counted: "countsVote exVote exYes (lateNode i StateCandidate vf lg ci nx mt hb ac v)"
  by (simp add: countsVote_def exVote_def exYes_def lateNode_def)

lemma exVote_term: "rva_Term exVote = 1"
  by (simp add: exVote_def)

lemma late_vote_run:
  "raftOnly\<^sup>*\<^sup>* (cinit 3 (\<lambda>_. 0)) (lateGroup (lateLeader [] 0 [1, 1, 1] [0, 0, 0] 0 False) (Make 3 1 MakePersister 0) (lateFollower 2 0 [] 0 False)
     {#VoteReq 0 0 1 exVote#} {(2, 1, 0), (0, 1, 0)} {(0, 1, 2)})"
proof -
  let ?A = "Make 3 0 MakePersister 0" and ?B = "Make 3 1 MakePersister 0" and ?C = "Make 3 2 MakePersister 0"
  let ?A1 = "lateNode 0 StateCandidate 0 [] 0 [0, 0, 0] [0, 0, 0] 100 False 1" and ?C1 = "lateFollower 2 0 [] 0 False"
  let ?A2 = "lateLeader [] 0 [1, 1, 1] [0, 0, 0] 0 False"
  let ?s0 = "lateGroup ?A ?B ?C {#} {} {}" and ?s1 = "lateGroup ?A1 ?B ?C {#VoteReq 0 0 1 exVote, VoteReq 0 0 2 exVote#} {(0, 1, 0)} {}"
  let ?s2 = "lateGroup ?A1 ?B ?C1 {#VoteReq 0 0 1 exVote, VoteRep 0 0 2 exVote exYes#} {(2, 1, 0), (0, 1, 0)} {}"
  let ?s3 = "lateGroup ?A2 ?B ?C1 {#VoteReq 0 0 1 exVote#} {(2, 1, 0), (0, 1, 0)} {(0, 1, 2)}"
  have "cstep ?s0 ?s1" using elect [of 0 ?s0 0 ?A1 exVote] late_elected(1) by (simp add: late_peers exVote_term)
  then have "raftOnly ?s0 ?s1" by (rule late_raftOnly) auto
  moreover have "raftOnly ?s1 ?s2"
    using vote_request [of 0 0 2 exVote ?s1 0 ?C1 exYes] late_elected(2) by (intro late_raftOnly) (auto simp: exVote_term exYes_def add_mset_commute)
  moreover have "cstep ?s2 ?s3" using vote_reply [of 0 ?s2 2 exVote exYes ?A2] late_elected(3) [symmetric] by (simp add: late_counted exVote_term)
  then have "raftOnly ?s2 ?s3" by (rule late_raftOnly) auto
  ultimately show ?thesis unfolding lateGroup_init by (meson converse_rtranclp_into_rtranclp rtranclp.rtrancl_refl)
qed

abbreviation lateVotes :: "(nat \<times> int \<times> nat) set \<times> (nat \<times> int \<times> nat) set" where
  "lateVotes \<equiv> ({(2, 1, 0), (0, 1, 0)}, {(0, 1, 2)})"

text \<open>The first command is committed by servers 0 and 2 and known to be so to server 1, whose reply is under way.\<close>

abbreviation lateNet :: "'c \<Rightarrow> ('c, 's) msg multiset" where
  "lateNet c \<equiv> {#VoteReq 0 0 1 exVote, AppRep 0 0 1 (lateSend [exEnt c]) exOk#}"

lemma late_first_run:
  "raftOnly\<^sup>*\<^sup>* (cinit 3 (\<lambda>_. 0)) (lateGroup (lateLeader [exEnt c] 1 [1, 1, 2] [1, 0, 1] 100 True) (lateFollower 1 (-1) [exEnt c] 1 True)
     (lateFollower 2 0 [exEnt c] 0 False) (lateNet c) (fst lateVotes) (snd lateVotes))"
proof -
  let ?g = "\<lambda>a b c M. lateGroup a b c M (fst lateVotes) (snd lateVotes)" and ?M = "{#VoteReq 0 0 1 exVote#}"
  let ?A0 = "lateLeader [] 0 [1, 1, 1] [0, 0, 0] 0 False" and ?A1 = "lateLeader [exEnt c] 0 [1, 1, 1] [1, 0, 0] 0 False"
  let ?A2 = "lateLeader [exEnt c] 0 [1, 1, 1] [1, 0, 0] 100 False" and ?A3 = "lateLeader [exEnt c] 1 [1, 1, 2] [1, 0, 1] 100 True"
  let ?B0 = "Make 3 1 MakePersister 0" and ?B1 = "lateFollower 1 (-1) [exEnt c] 1 True"
  let ?C0 = "lateFollower 2 0 [] 0 False" and ?C1 = "lateFollower 2 0 [exEnt c] 0 False"
  have "raftOnly (?g ?A0 ?B0 ?C0 ?M) (?g ?A1 ?B0 ?C0 ?M)" by (rule late_start [OF late_leader(2)]) simp
  moreover have "raftOnly (?g ?A1 ?B0 ?C0 ?M) (?g ?A2 ?B0 ?C0 (?M + {#ReplTask 0 0 1, ReplTask 0 0 2#}))" by (rule late_call [OF late_leader(1)]) simp
  moreover have "raftOnly\<^sup>*\<^sup>* (?g ?A2 ?B0 ?C0 (?M + {#ReplTask 0 0 1, ReplTask 0 0 2#})) (?g ?A3 ?B0 ?C1 (?M + {#ReplTask 0 0 1#}))"
    using late_append2 [OF late_leader(4) late_followers(1) _ late_commits(1) [symmetric], where b = ?B0 and M = "?M + {#ReplTask 0 0 1#}"] by (simp add: add_mset_commute)
  moreover have "raftOnly\<^sup>*\<^sup>* (?g ?A3 ?B0 ?C1 (?M + {#ReplTask 0 0 1#})) (?g ?A3 ?B1 ?C1 (?M + {#AppRep 0 0 1 (lateSend [exEnt c]) exOk#}))"
    by (rule late_append1 [OF late_leader(5) late_followers(3)]) simp
  ultimately have "raftOnly\<^sup>*\<^sup>* (?g ?A0 ?B0 ?C0 ?M) (?g ?A3 ?B1 ?C1 (?M + {#AppRep 0 0 1 (lateSend [exEnt c]) exOk#}))"
    by (meson converse_rtranclp_into_rtranclp rtranclp_trans)
  with late_vote_run show ?thesis by (simp add: add_mset_commute) (rule rtranclp_trans)
qed

text \<open>The second command is committed by servers 0 and 2; another call to server 1 is due. The batch of server 1 is under way all the time.\<close>

lemma late_second_run:
  "raftOnly\<^sup>*\<^sup>* (lateGroup (lateLeader [exEnt c] 1 [1, 1, 2] [1, 0, 1] 100 True) b (lateFollower 2 0 [exEnt c] 0 False) M G C)
     (lateGroup (lateLeader [exEnt c, exEnt d] 2 [1, 1, 3] [2, 0, 2] 100 True) b (lateFollower 2 0 [exEnt c, exEnt d] 1 True) (M + {#ReplTask 0 0 1#}) G C)"
proof -
  let ?g = "\<lambda>a c M. lateGroup a b c M G C"
  let ?A0 = "lateLeader [exEnt c] 1 [1, 1, 2] [1, 0, 1] 100 True" and ?A1 = "lateLeader [exEnt c, exEnt d] 1 [1, 1, 2] [2, 0, 1] 0 True"
  let ?A2 = "lateLeader [exEnt c, exEnt d] 1 [1, 1, 2] [2, 0, 1] 100 True" and ?A3 = "lateLeader [exEnt c, exEnt d] 2 [1, 1, 3] [2, 0, 2] 100 True"
  let ?C0 = "lateFollower 2 0 [exEnt c] 0 False" and ?C1 = "lateFollower 2 0 [exEnt c, exEnt d] 1 True"
  have "raftOnly (?g ?A0 ?C0 M) (?g ?A1 ?C0 M)" by (rule late_start [OF late_leader(3)]) simp
  moreover have "raftOnly (?g ?A1 ?C0 M) (?g ?A2 ?C0 (M + {#ReplTask 0 0 1, ReplTask 0 0 2#}))" by (rule late_call [OF late_leader(1)]) simp
  moreover have "raftOnly\<^sup>*\<^sup>* (?g ?A2 ?C0 (M + {#ReplTask 0 0 1, ReplTask 0 0 2#})) (?g ?A3 ?C1 (M + {#ReplTask 0 0 1#}))"
    using late_append2 [OF late_leader(6) late_followers(2) _ late_commits(2) [symmetric], where b = b and M = "M + {#ReplTask 0 0 1#}"] by (simp add: add_mset_commute)
  ultimately show ?thesis by (meson converse_rtranclp_into_rtranclp)
qed

section \<open>The run with a service\<close>

lemma raftOnly_sysRun: "raftOnly\<^sup>*\<^sup>* (servers S) s' \<Longrightarrow> (sysStep strict round boot view)\<^sup>*\<^sup>* S (S\<lparr>servers := s'\<rparr>)"
proof (induction rule: rtranclp_induct)
  case (step s1 s2)
  then have "sysStep strict round boot view (S\<lparr>servers := s1\<rparr>) (S\<lparr>servers := s2\<rparr>)" using sysStep.raft [of "S\<lparr>servers := s1\<rparr>" s2] by simp
  with step.IH show ?case by (rule rtranclp.rtrancl_into_rtrancl)
qed simp

definition lateBatch :: "'c \<Rightarrow> 'c \<Rightarrow> 'c applyBatch" where
  "lateBatch c d = \<lparr>ab_commitIndex = 2, ab_startIdx = 1, ab_lastIncludedIndex = 0, ab_entries = [exEnt c, exEnt d]\<rparr>"

lemma late_collect:
  "applierCollect (lateFollower 1 (-1) [exEnt c] 1 True) = Some (lateFollower 1 (-1) [exEnt c] 1 False, exBatch c)"
  "applierCollect (lateLeader [exEnt c, exEnt d] 2 nx mt 100 True) = Some (lateLeader [exEnt c, exEnt d] 2 nx mt 100 False, lateBatch c d)"
  "applierSend (ab_lastIncludedIndex (lateBatch c d)) (ab_startIdx (lateBatch c d)) (ab_entries (lateBatch c d)) = [commandMsg 1 (exEnt c), commandMsg 2 (exEnt d)]"
  by (simp_all add: lateNode_def applierCollect_def collectEntries.simps toSliceIndex_def exBatch_def lateBatch_def Let_def)

text \<open>Both commands wait in the channel of server 0, the first one in that of server 1.\<close>

definition lateQueued :: "(nat \<Rightarrow> int \<Rightarrow> ('c gobval, 's) persister \<Rightarrow> 'st) \<Rightarrow> 'c \<Rightarrow> 'c \<Rightarrow> ('c, 's, 'st) system" where
  "lateQueued boot c d =
     \<lparr>servers = lateGroup (lateLeader [exEnt c, exEnt d] 2 [1, 1, 3] [2, 0, 2] 100 False) (lateFollower 1 (-1) [exEnt c] 1 False)
        (lateFollower 2 0 [exEnt c, exEnt d] 1 True) (lateNet c + {#Batch 1 0 (exBatch c), ReplTask 0 0 1, Batch 0 0 (lateBatch c d)#})
        (fst lateVotes) (snd lateVotes),
      queue = (\<lambda>_. [])(0 := [commandMsg 1 (exEnt c), commandMsg 2 (exEnt d)], 1 := [commandMsg 1 (exEnt c)]),
      svc = (\<lambda>i. boot i 0 MakePersister)\<rparr>"

lemma lateQueued_reachable: "sysReach strict round boot view 3 (lateQueued boot c d)"
proof -
  let ?step = "sysStep strict round boot view" and ?g = "\<lambda>a b c M. lateGroup a b c M (fst lateVotes) (snd lateVotes)"
  let ?A1 = "lateLeader [exEnt c] 1 [1, 1, 2] [1, 0, 1] 100 True" and ?A2 = "lateLeader [exEnt c, exEnt d] 2 [1, 1, 3] [2, 0, 2] 100 True"
  let ?B1 = "lateFollower 1 (-1) [exEnt c] 1 True" and ?B2 = "lateFollower 1 (-1) [exEnt c] 1 False"
  let ?C1 = "lateFollower 2 0 [exEnt c] 0 False" and ?C2 = "lateFollower 2 0 [exEnt c, exEnt d] 1 True"
  let ?M = "lateNet c" and ?M2 = "lateNet c + {#Batch 1 0 (exBatch c)#}"
  let ?S0 = "sysInit boot 3 (\<lambda>_. 0)" and ?q = "(\<lambda>_. [])(1 := [commandMsg 1 (exEnt c)])"
  let ?S1 = "?S0\<lparr>servers := ?g ?A1 ?B1 ?C1 ?M\<rparr>" and ?S2 = "?S0\<lparr>servers := ?g ?A1 ?B2 ?C1 ?M2, queue := ?q\<rparr>"
  let ?S3 = "?S2\<lparr>servers := ?g ?A2 ?B2 ?C2 (?M2 + {#ReplTask 0 0 1#})\<rparr>"
  have "?step\<^sup>*\<^sup>* ?S0 ?S1" by (rule raftOnly_sysRun) (use late_first_run [of c] in \<open>simp add: sysInit_def\<close>)
  moreover have "?step ?S1 ?S2"
    using sysStep.collect [of ?S1 "servers ?S1" 1 ?B2 "exBatch c" strict round boot view]
    by (simp add: sysInit_def add_mset_commute late_collect(1) [unfolded One_nat_def] ex_collect(2))
  moreover have "?step\<^sup>*\<^sup>* ?S2 (?S2\<lparr>servers := ?g ?A2 ?B2 ?C2 (?M2 + {#ReplTask 0 0 1#})\<rparr>)" 
    by (rule raftOnly_sysRun) (use late_second_run [where c = c and d = d and b = ?B2 and M = ?M2 and G = "fst lateVotes" and C = "snd lateVotes"] in simp)
  moreover have "?step ?S3 (lateQueued boot c d)"
    using sysStep.collect [of ?S3 "servers ?S3" 0 "lateLeader [exEnt c, exEnt d] 2 [1, 1, 3] [2, 0, 2] 100 False" "lateBatch c d" strict round boot view]
    by (simp add: sysInit_def lateQueued_def add_mset_commute fun_upd_twist late_collect(2,3))
  ultimately have "?step\<^sup>*\<^sup>* ?S0 (lateQueued boot c d)" by (meson rtranclp.rtrancl_into_rtrancl rtranclp_trans)
  then show ?thesis using sysRun_reach sysReach.start by blast
qed

text \<open>
  The service of server 0 applies both commands and takes a snapshot; server 1 is sent the snapshot, its service installs it and then gets the
  first command.
\<close>

lemma late_delivered:
  assumes "round (commandMsg 1 (exEnt c)) (lateLeader [exEnt c, exEnt d] 2 [1, 1, 3] [2, 0, 2] 100 False, boot 0 0 MakePersister) = Inr (a1, x1)"
    and "round (commandMsg 2 (exEnt d)) (a1, x1) = Inr (a2, x2)" "replicateTo 1 a2 = SendSnapshot args"
    and "InstallSnapshot 0 args (lateFollower 1 (-1) [exEnt c] 1 False) = (b1, reply, Some m)" "lastIncludedIndex b1 = 0"
    and "round m (b1, boot 1 0 MakePersister) = Inr (b2, y1)" "round (commandMsg 1 (exEnt c)) (b2, y1) = Inr (b3, y2)"
  shows "\<exists>S. sysReach False round boot view 3 S \<and> node (servers S) 0 = a2 \<and> svc S 0 = x2 \<and> node (servers S) 1 = b3 \<and> svc S 1 = y2"
proof -
  let ?step = "sysStep False round boot view" and ?g = "\<lambda>a b M. lateGroup a b (lateFollower 2 0 [exEnt c, exEnt d] 1 True) M (fst lateVotes) (snd lateVotes)"
  let ?M = "lateNet c + {#Batch 1 0 (exBatch c), Batch 0 0 (lateBatch c d)#}" and ?b = "lateFollower 1 (-1) [exEnt c] 1 False"
  let ?S0 = "lateQueued boot c d" and ?q = "(\<lambda>_. [])(1 := [commandMsg 1 (exEnt c)])"
  let ?S1 = "?S0\<lparr>servers := ?g a1 ?b (?M + {#ReplTask 0 0 1#}), queue := ?q(0 := [commandMsg 2 (exEnt d)]), svc := (svc ?S0)(0 := x1)\<rparr>"
  let ?S2 = "?S0\<lparr>servers := ?g a2 ?b (?M + {#ReplTask 0 0 1#}), queue := ?q, svc := (svc ?S0)(0 := x2)\<rparr>"
  let ?S3 = "?S2\<lparr>servers := ?g a2 b1 (?M + {#SnapRep 0 0 1 args reply, SnapMsg 1 0 m#})\<rparr>"
  let ?S4 = "?S2\<lparr>servers := ?g a2 b2 (?M + {#SnapRep 0 0 1 args reply#}), svc := (svc ?S0)(0 := x2, 1 := y1)\<rparr>"
  let ?S5 = "?S4\<lparr>servers := ?g a2 b3 (?M + {#SnapRep 0 0 1 args reply#}), queue := \<lambda>_. [], svc := (svc ?S0)(0 := x2, 1 := y2)\<rparr>"
  have 1: "?step ?S0 ?S1"
    using sysStep.apply_command [of ?S0 "servers ?S0" 0 _ _ round a1 x1 False boot view] assms(1)
    by (simp add: lateQueued_def add_mset_commute fun_upd_twist)
  have 2: "?step ?S1 ?S2"
    using sysStep.apply_command [of ?S1 "servers ?S1" 0 _ _ round a2 x2 False boot view] assms(2)
    by (simp add: fun_upd_twist fun_upd_idem)
  have "raftOnly\<^sup>*\<^sup>* (servers ?S2) (?g a2 b1 (?M + {#SnapRep 0 0 1 args reply, SnapMsg 1 0 m#}))"
    using late_offer [OF assms(3,4), where c = "lateFollower 2 0 [exEnt c, exEnt d] 1 True" and M = ?M and G = "fst lateVotes" and C = "snd lateVotes"] assms(5) by simp
  then have 3: "?step\<^sup>*\<^sup>* ?S2 ?S3" by (rule raftOnly_sysRun)
  have 4: "?step ?S3 ?S4"
    using sysStep.install [of ?S3 "servers ?S3" 1 m False round b2 y1 boot view] assms(6) by (simp add: lateQueued_def fun_upd_twist)
  have 5: "?step ?S4 ?S5"
    using sysStep.apply_command [of ?S4 "servers ?S4" 1 _ _ round b3 y2 False boot view] assms(7) by (simp add: fun_upd_twist fun_upd_idem)
  note r2 = sysReach.step [OF sysReach.step [OF lateQueued_reachable 1] 2]
  note r5 = sysReach.step [OF sysReach.step [OF sysRun_reach [OF 3 r2] 4] 5]
  from r5 show ?thesis by (intro exI [of _ ?S5]) simp
qed

end
