(* ===== verification/ShardKV_Group.thy ===== *)
theory ShardKV_Group
  imports ShardKV_Props Raft_Late
begin

text \<open>
  One replica group of the sharded store with its Raft instances (\<^verbatim>\<open>shardkv/server.go\<close> over \<^verbatim>\<open>raft/raft.go\<close>). As long as snapshots are
  installed only when no command is queued, all replicas have the shards, tables and configurations of prefixes of one
  sequence of commands. Without this condition it fails: in a run of three servers, a client command that the group refused, because it did not serve the
  shard then, is executed by a replica that gets it after a snapshot in which the group serves the shard.
\<close>

section \<open>The sharded server as a replicated service\<close>

text \<open>All servers of the group are started with its \<^verbatim>\<open>gid\<close>, which never changes.\<close>

definition skvRound :: "(Op gobval buffer \<Rightarrow> int) \<Rightarrow> int \<Rightarrow> (Op, skgob) ApplyMsg \<Rightarrow> (Op, skgob) raft \<times> ShardKV \<Rightarrow> ((Op, skgob) raft \<times> ShardKV) go" where
  "skvRound bytes gid m st =
     (case applierRound bytes m ((snd st)\<lparr>skv_rf := fst st, skv_gid := gid\<rparr>) of
        Inl p \<Rightarrow> Inl p | Inr (kv, _) \<Rightarrow> Inr (skv_rf kv, kv))"

definition skvBoot :: "nat \<Rightarrow> int \<Rightarrow> int \<Rightarrow> nat \<Rightarrow> int \<Rightarrow> (Op gobval, skgob) persister \<Rightarrow> ShardKV" where
  "skvBoot n maxraftstate gid i rnd ps = StartServer n i ps maxraftstate gid rnd"

type_synonym skvState = "Shard list \<times> (int \<rightharpoonup> DupEntry) \<times> Config \<times> Config"

definition skvView :: "ShardKV \<Rightarrow> skvState" where
  "skvView kv = (shards kv, skv_dupTable kv, skv_config kv, lastConfig kv)"

definition skvState0 :: skvState where
  "skvState0 = (map (\<lambda>_. newShard) [0..<NShards], Map.empty, emptyConfig, emptyConfig)"

definition skvServer :: "int \<Rightarrow> skvState \<Rightarrow> ShardKV" where
  "skvServer gid v = (case v of (shs, dt, c, lc) \<Rightarrow>
     (StartServer 1 0 MakePersister (-1) gid 0)\<lparr>shards := shs, skv_dupTable := dt, skv_config := c, lastConfig := lc\<rparr>)"

text \<open>The effect of a command on the replicated state; a command that panics has none.\<close>

definition skvApplyView :: "int \<Rightarrow> Op \<Rightarrow> skvState \<Rightarrow> skvState" where
  "skvApplyView gid op v = (case applyCommand op (skvServer gid v) of Inl _ \<Rightarrow> v | Inr (kv, _) \<Rightarrow> skvView kv)"

definition sameGroup :: "ShardKV \<Rightarrow> ShardKV \<Rightarrow> bool" where
  "sameGroup kv kv' \<longleftrightarrow> skvView kv = skvView kv' \<and> skv_gid kv = skv_gid kv'"

lemma applyKVOp_same:
  assumes "sameGroup kv kv'"
  shows "sameGroup (fst (applyKVOp op kv)) (fst (applyKVOp op kv'))" "snd (applyKVOp op kv) = snd (applyKVOp op kv')"
  using assms by (auto simp: sameGroup_def skvView_def applyKVOp_def Let_def setKey_def split: option.split)

lemma applyClientOp_same:
  assumes "sameGroup kv kv'"
  shows "sameGroup (fst (applyClientOp op kv)) (fst (applyClientOp op kv'))"
proof -
  have "serves i kv = serves i kv'" for i using assms by (simp add: serves_def sameGroup_def skvView_def)
  moreover have "skv_dupTable kv = skv_dupTable kv'" using assms by (simp add: sameGroup_def skvView_def)
  ultimately show ?thesis using assms applyKVOp_same [OF assms, of op]
    by (auto simp: applyClientOp_def Let_def split_beta sameGroup_def skvView_def split: option.split)
qed

lemma applyAdminOp_same:
  assumes "sameGroup kv kv'" "applyAdminOp op kv = Inr (kv1, r)"
  shows "\<exists>kv1' r'. applyAdminOp op kv' = Inr (kv1', r') \<and> sameGroup kv1 kv1'"
  using assms by (auto simp: applyAdminOp_def applyConfig_def applyInstall_def applyGC_def sameGroup_def skvView_def Let_def split: if_splits sum.splits)

lemma applyCommand_same:
  assumes "sameGroup kv kv'" "applyCommand op kv = Inr (kv1, r)"
  shows "\<exists>kv1' r'. applyCommand op kv' = Inr (kv1', r') \<and> sameGroup kv1 kv1'"
proof (cases "isKVOp op")
  case True
  then show ?thesis using assms applyClientOp_same [OF assms(1), of op] by (auto simp: applyCommand_def split: prod.splits)
next
  case False
  then obtain r0 where "applyAdminOp op kv = Inr (kv1, r0)" using assms(2) by (auto simp: applyCommand_def split: sum.splits prod.splits)
  from applyAdminOp_same [OF assms(1) this] show ?thesis using False by (auto simp: applyCommand_def)
qed

lemma skv_rf_applyCommand:
  assumes "applyCommand op kv = Inr (kv1, r)"
  shows "skv_rf kv1 = skv_rf kv"
  using assms
  by (auto simp: applyCommand_def applyClientOp_def applyKVOp_def setKey_def applyAdminOp_def applyConfig_def applyInstall_def applyGC_def Let_def
      split: if_splits sum.splits prod.splits option.splits)

lemma skvApplyView_applyCommand:
  assumes "applyCommand op kv = Inr (kv1, r)" "skv_gid kv = gid"
  shows "skvApplyView gid op (skvView kv) = skvView kv1"
proof -
  have "sameGroup kv (skvServer gid (skvView kv))"
    using assms(2) by (simp add: sameGroup_def skvServer_def skvView_def StartServer_def persister_defs)
  from applyCommand_same [OF this assms(1)] show ?thesis by (auto simp: skvApplyView_def sameGroup_def)
qed

definition isSkvSnapshot :: "skgob buffer \<Rightarrow> skvState \<Rightarrow> bool" where
  "isSkvSnapshot data v \<longleftrightarrow> (\<exists>kv. data = encodeSnapshot kv \<and> v = skvView kv)"

lemma skvInstall_encoded: "skvView (installSnapshot (encodeSnapshot kv) kv0) = skvView kv"
  using skv_codec.enc_nonempty [of kv] by (simp add: installSnapshot_def skv_codec.dec_enc skvView_def)

lemma skvRound_command:
  assumes "skvRound bytes gid (commandMsg k e) (rf, kv) = Inr (rf', kv')"
  shows "skvView kv' = skvApplyView gid (Command e) (skvView kv)"
    "rf' = rf \<or> Snapshot k (encodeSnapshot kv') rf = Inr rf'"
proof -
  let ?kv = "kv\<lparr>skv_rf := rf, skv_gid := gid\<rparr>"
  obtain kv1 r where 1: "applyCommand (Command e) ?kv = Inr (kv1, r)"
    using assms by (cases "applyCommand (Command e) ?kv") (auto simp: skvRound_def applierRound_def commandMsg_def)
  then have 2: "(if needSnapshot bytes kv1 then doSnapshot k kv1 else Inr kv1) = Inr kv'" and rf': "rf' = skv_rf kv'"
    using assms by (auto simp: skvRound_def applierRound_def commandMsg_def Let_def split: sum.splits)
  have rf1: "skv_rf kv1 = rf" using skv_rf_applyCommand [OF 1] by simp
  have "kv' = kv1 \<or> doSnapshot k kv1 = Inr kv'" using 2 by (auto split: if_splits)
  then have "kv' = kv1 \<or> kv' = kv1\<lparr>skv_rf := rf'\<rparr> \<and> Snapshot k (encodeSnapshot kv1) rf = Inr rf'"
    using rf1 rf' by (auto simp: doSnapshot_def split: sum.splits)
  moreover have "encodeSnapshot (kv1\<lparr>skv_rf := rf'\<rparr>) = encodeSnapshot kv1" "skvView (kv1\<lparr>skv_rf := rf'\<rparr>) = skvView kv1"
    by (simp_all add: encodeSnapshot_def skvView_def)
  ultimately have k: "skvView kv' = skvView kv1" "rf' = rf \<or> Snapshot k (encodeSnapshot kv') rf = Inr rf'"
    using rf1 rf' by metis+
  have "skvView ?kv = skvView kv" by (simp add: skvView_def)
  then show "skvView kv' = skvApplyView gid (Command e) (skvView kv)" using k(1) skvApplyView_applyCommand [OF 1, of gid] by simp
  show "rf' = rf \<or> Snapshot k (encodeSnapshot kv') rf = Inr rf'" by (rule k(2))
qed

interpretation skv_group: replicated_service True "skvRound bytes gid" "skvBoot n mr gid" skvView "skvApplyView gid" skvState0 isSkvSnapshot
  for bytes gid n mr
proof
  fix k e rf st rf' st'
  assume "skvRound bytes gid (commandMsg k e) (rf, st) = Inr (rf', st')"
  then show "skvView st' = skvApplyView gid (Command e) (skvView st) \<and>
      (rf' = rf \<or> (\<exists>data. isSkvSnapshot data (skvView st') \<and> Snapshot k data rf = Inr rf'))"
    using skvRound_command unfolding isSkvSnapshot_def by metis
next
  fix m :: "(Op, skgob) ApplyMsg" and rf st rf' st'
  assume "offer m" "am_SnapshotIndex m \<le> commitIndex rf" "skvRound bytes gid m (rf, st) = Inr (rf', st')"
  then show "rf' = rf \<and> skvView st' = skvView st" by (auto simp: skvRound_def applierRound_def offer_def CondInstallSnapshot_def skvView_def)
next
  fix m :: "(Op, skgob) ApplyMsg" and rf v st rf' st'
  assume a: "offer m" "commitIndex rf < am_SnapshotIndex m" "isSkvSnapshot (am_Snapshot m) v" "skvRound bytes gid m (rf, st) = Inr (rf', st')"
  then obtain rf1 ok where c: "CondInstallSnapshot (am_SnapshotTerm m) (am_SnapshotIndex m) (am_Snapshot m) rf = Inr (rf1, ok)"
    by (auto simp: skvRound_def applierRound_def offer_def split: sum.splits)
  then have ok by (cases rule: CondInstallSnapshot_cases) (use a(2) in auto)
  then have st': "rf' = skv_rf st'" "st' = installSnapshot (am_Snapshot m) (st\<lparr>skv_gid := gid, skv_rf := rf1\<rparr>)"
    using a(1,4) c by (auto simp: skvRound_def applierRound_def offer_def)
  have "skv_rf (installSnapshot d kv) = skv_rf kv" for d kv by (auto simp: installSnapshot_def split: option.split)
  then have "rf' = rf1" using st' by simp
  then show "CondInstallSnapshot (am_SnapshotTerm m) (am_SnapshotIndex m) (am_Snapshot m) rf = Inr (rf', True) \<and> skvView st' = v"
    using c \<open>ok\<close> a(3) st'(2) by (auto simp: isSkvSnapshot_def skvInstall_encoded)
next
  fix ps :: "(Op gobval, skgob) persister" and i rnd
  assume "ReadSnapshot ps = []"
  then show "skvView (skvBoot n mr gid i rnd ps) = skvState0" by (simp add: skvBoot_def StartServer_def skvView_def Let_def skvState0_def)
next
  fix ps :: "(Op gobval, skgob) persister" and v i rnd
  assume "isSkvSnapshot (ReadSnapshot ps) v"
  then obtain kv where "ReadSnapshot ps = encodeSnapshot kv" "v = skvView kv" by (auto simp: isSkvSnapshot_def)
  then show "skvView (skvBoot n mr gid i rnd ps) = v"
    using skv_codec.enc_nonempty [of kv] by (simp add: skvBoot_def StartServer_def Let_def skvInstall_encoded)
qed auto

text \<open>
  C4. In runs in which snapshots are installed only while no command is queued, the replicas of a group agree: at any moment
  the shards with their states, the duplicate table and both configurations of every server are those that a prefix of one growing sequence of
  commands leads to.
\<close>

theorem shardkv_replicas_agree:
  assumes "sysReach True (skvRound bytes gid) (skvBoot n maxraftstate gid) skvView n S"
    and "(sysStep True (skvRound bytes gid) (skvBoot n maxraftstate gid) skvView)\<^sup>*\<^sup>* S S'"
  shows "\<exists>G H. agreed skvView (skvApplyView gid) skvState0 n S G \<and> agreed skvView (skvApplyView gid) skvState0 n S' (G @ H)"
  by (rule skv_group.replicas_agree [OF assms])

lemma exSkvQueued_reachable:
  "sysReach True (skvRound (\<lambda>_. 0) 1) (skvBoot 2 (-1) 1) skvView 2 (exQueued (skvBoot 2 (-1) 1) exSkvPut)"
  by (rule exQueued_reachable)

theorem shardkv_replicas_agree_witness:
  "sysReach True (skvRound (\<lambda>_. 0) 1) (skvBoot 2 (-1) 1) skvView 2 (exQueued (skvBoot 2 (-1) 1) exSkvPut) \<and>
   (\<exists>G H. agreed skvView (skvApplyView 1) skvState0 2 (exQueued (skvBoot 2 (-1) 1) exSkvPut) G \<and>
     agreed skvView (skvApplyView 1) skvState0 2 (exQueued (skvBoot 2 (-1) 1) exSkvPut) (G @ H))"
  using shardkv_replicas_agree [OF exSkvQueued_reachable rtranclp.rtrancl_refl] exSkvQueued_reachable by simp

section \<open>Commands delivered after a snapshot that covers them\<close>

text \<open>A round of the apply loop that takes a snapshot.\<close>

lemma skvRound_snapshots:
  assumes "applyCommand (Command e) (kv\<lparr>skv_rf := rf, skv_gid := gid\<rparr>) = Inr (kv1, r)" "skv_maxraftstate kv1 \<noteq> -1"
    and "skv_maxraftstate kv1 \<le> bytes (raftstate (Persister rf))" "Snapshot k (encodeSnapshot kv1) rf = Inr rf'"
  shows "skvRound bytes gid (commandMsg k e) (rf, kv) = Inr (rf', kv1\<lparr>skv_rf := rf'\<rparr>)"
proof -
  have "skv_rf kv1 = rf" using skv_rf_applyCommand [OF assms(1)] by simp
  then show ?thesis using assms
    by (simp add: skvRound_def applierRound_def commandMsg_def needSnapshot_def RaftStateSize_def doSnapshot_def Let_def)
qed

text \<open>A server of a group that no configuration has reached yet, and the same server after the first configuration.\<close>

definition lateServer :: "int \<Rightarrow> int \<Rightarrow> nat \<Rightarrow> (Op, skgob) raft \<Rightarrow> ShardKV" where
  "lateServer mr gid i rf = (skvBoot 3 mr gid i 0 MakePersister)\<lparr>skv_rf := rf, skv_gid := gid\<rparr>"

lemma lateServer_refuses:
  assumes "gid \<noteq> 0" "isKVOp op"
  shows "\<exists>r. applyCommand op (lateServer mr gid i rf) = Inr (lateServer mr gid i rf, r)"
proof -
  have "\<not> serves (key2shard (kop_Key op)) (lateServer mr gid i rf)"
    using assms(1) by (simp add: serves_def lateServer_def skvBoot_def StartServer_def Let_def persister_defs emptyConfig_def key2shard_less)
  then show ?thesis using assms(2) by (simp add: applyCommand_def applyClientOp_def)
qed

lemma lateServer_configured:
  "\<exists>r. applyCommand (configOp iid cfg) kv = Inr (applyConfig (configOp iid cfg) kv, r)"
  by (simp add: applyCommand_def isKVOp_def configOp_def blankOp_def applyAdminOp_def)

lemma lateServer_serves:
  assumes "Num cfg = 1" "Shards cfg ! key2shard key = gid" "gid \<noteq> 0"
    and kv: "kv = applyConfig (configOp iid cfg) (lateServer mr gid i rf)"
  shows "serves (key2shard key) kv" "skv_dupTable kv = Map.empty" "length (shards kv) = NShards" "skvValue kv key = ''''"
    "skv_config kv = cfg" "skv_maxraftstate kv = mr" "skv_gid kv = gid"
  using assms(1-3) unfolding kv
  by (simp_all add: applyConfig_def configOp_def blankOp_def lateServer_def skvBoot_def StartServer_def Let_def persister_defs emptyConfig_def
      serves_def configShard_def newShard_def key2shard_less skvValue_def)

lemma served_write_executed:
  assumes "isKVOp op" "kop_Type op \<noteq> ''Get''" "serves (key2shard (kop_Key op)) kv" "skv_dupTable kv = Map.empty" "length (shards kv) = NShards"
    and "skvValue kv (kop_Key op) = ''''"
  shows "\<exists>kv' r. applyCommand op kv = Inr (kv', r) \<and> skvSeq kv' (kop_ClientId op) = Some (kop_SeqId op) \<and> skvValue kv' (kop_Key op) = kop_Value op \<and>
    skv_config kv' = skv_config kv \<and> skv_maxraftstate kv' = skv_maxraftstate kv"
  using assms
  by (auto simp: applyCommand_def isKVOp_def applyClientOp_def applyKVOp_def setKey_def Let_def skvValue_def skvSeq_def key2shard_less split: option.splits)

text \<open>The two rounds of server 0 and the snapshot that it ends with.\<close>

lemma late_leader_rounds:
  assumes "gid \<noteq> 0" "isKVOp op" "mr \<noteq> -1" "\<forall>d. mr \<le> bytes d"
    and kv: "\<And>rf. kv rf = applyConfig (configOp iid cfg) (lateServer mr gid 0 rf)"
  obtains a1 x1 a2 where
    "skvRound bytes gid (commandMsg 1 (exEnt op)) (lateLeader [exEnt op, exEnt (configOp iid cfg)] 2 [1, 1, 3] [2, 0, 2] 100 False,
       skvBoot 3 mr gid 0 0 MakePersister) = Inr (a1, x1)"
    "skvRound bytes gid (commandMsg 2 (exEnt (configOp iid cfg))) (a1, x1) = Inr (a2, (kv a1)\<lparr>skv_rf := a2\<rparr>)"
    "lastIncludedIndex a2 = 2" "commitIndex a2 = 2"
    "replicateTo 1 a2 = SendSnapshot \<lparr>isa_Term = 1, isa_LeaderId = 0, isa_LastIncludedIndex = 2, isa_LastIncludedTerm = 1, isa_Data = encodeSnapshot (kv a1)\<rparr>"
proof -
  let ?a = "lateLeader [exEnt op, exEnt (configOp iid cfg)] 2 [1, 1, 3] [2, 0, 2] 100 False" and ?x = "lateServer mr gid 0"
  obtain r where r: "applyCommand op (?x ?a) = Inr (?x ?a, r)" using lateServer_refuses assms(1,2) by blast
  obtain a1 where a1: "Snapshot 1 (encodeSnapshot (?x ?a)) ?a = Inr a1" and f1: "log a1 = [exEnt (configOp iid cfg)]" "lastIncludedIndex a1 = 1"
    "commitIndex a1 = 2" "state a1 = StateLeader" "currentTerm a1 = 1" "me a1 = 0" "nextIndex a1 = [1, 1, 3]"
    by (simp add: Snapshot_def lateNode_def go_index_def go_from_def toSliceIndex_def saveWithSnapshot_def Let_def)
  have 1: "skvRound bytes gid (commandMsg 1 (exEnt op)) (?a, skvBoot 3 mr gid 0 0 MakePersister) = Inr (a1, ?x a1)"
    using skvRound_snapshots [where e = "exEnt op" and kv = "skvBoot 3 mr gid 0 0 MakePersister" and rf = ?a and rf' = a1 and k = 1 and bytes = bytes] r a1 assms(3,4)
    by (simp add: exEnt_def lateServer_def skvBoot_def StartServer_def Let_def persister_defs)
  obtain a2 where a2: "Snapshot 2 (encodeSnapshot (kv a1)) a1 = Inr a2" and f2: "lastIncludedIndex a2 = 2" "lastIncludedTerm a2 = 1"
    "commitIndex a2 = 2" "state a2 = StateLeader" "currentTerm a2 = 1" "me a2 = 0" "nextIndex a2 = [1, 1, 3]" "ReadSnapshot (Persister a2) = encodeSnapshot (kv a1)"
    using f1 by (simp add: Snapshot_def go_index_def go_from_def toSliceIndex_def saveWithSnapshot_def Let_def exEnt_def persister_defs)
  obtain r' where "applyCommand (configOp iid cfg) (?x a1) = Inr (kv a1, r')" using lateServer_configured kv by metis
  moreover have "(?x a1)\<lparr>skv_rf := a1, skv_gid := gid\<rparr> = ?x a1" "skv_maxraftstate (kv a1) = mr"
    by (simp_all add: lateServer_def kv applyConfig_def skvBoot_def StartServer_def Let_def persister_defs)
  ultimately have 2: "skvRound bytes gid (commandMsg 2 (exEnt (configOp iid cfg))) (a1, ?x a1) = Inr (a2, (kv a1)\<lparr>skv_rf := a2\<rparr>)"
    using skvRound_snapshots [where e = "exEnt (configOp iid cfg)" and kv = "?x a1" and rf = a1 and rf' = a2 and k = 2 and bytes = bytes] a2 assms(3,4) by (simp add: exEnt_def)
  have "replicateTo 1 a2 = SendSnapshot \<lparr>isa_Term = 1, isa_LeaderId = 0, isa_LastIncludedIndex = 2, isa_LastIncludedTerm = 1, isa_Data = encodeSnapshot (kv a1)\<rparr>"
    using f2 by (simp add: replicateTo_def)
  with that [OF 1 2] f2 show ?thesis by blast
qed

text \<open>The rounds of server 1: it installs the snapshot and executes the command that the snapshot covers.\<close>

lemma late_follower_rounds:
  assumes "gid \<noteq> 0" "isKVOp op" "kop_Type op \<noteq> ''Get''" "mr \<noteq> -1" "\<forall>d. mr \<le> bytes d" "Num cfg = 1" "Shards cfg ! key2shard (kop_Key op) = gid"
    and kv: "kv = applyConfig (configOp iid cfg) (lateServer mr gid 0 rf)"
    and m: "am_SnapshotValid m" "am_SnapshotIndex m = 2" "am_Snapshot m = encodeSnapshot kv"
  obtains b2 y1 y2 where
    "skvRound bytes gid m (lateFollower 1 (-1) [exEnt op] 1 False, skvBoot 3 mr gid 1 0 MakePersister) = Inr (b2, y1)"
    "skvRound bytes gid (commandMsg 1 (exEnt op)) (b2, y1) = Inr (b2, y2)" "lastIncludedIndex b2 = 2" "commitIndex b2 = 2"
    "skvSeq y2 (kop_ClientId op) = Some (kop_SeqId op)" "skvValue y2 (kop_Key op) = kop_Value op" "skv_config y2 = cfg"
proof -
  let ?b = "lateFollower 1 (-1) [exEnt op] 1 False" and ?y = "lateServer mr gid 1"
  obtain b2 where b2: "CondInstallSnapshot (am_SnapshotTerm m) 2 (encodeSnapshot kv) ?b = Inr (b2, True)" "lastIncludedIndex b2 = 2" "commitIndex b2 = 2"
    by (simp add: CondInstallSnapshot_def lateNode_def lastLogIndex_def saveWithSnapshot_def)
  define y1 where "y1 = installSnapshot (encodeSnapshot kv) (?y b2)"
  have view: "skvView y1 = skvView kv" by (simp add: y1_def skvInstall_encoded)
  have y1: "skv_rf y1 = b2" "skv_gid y1 = gid" "skv_maxraftstate y1 = mr"
    by (auto simp: y1_def installSnapshot_def lateServer_def skvBoot_def StartServer_def Let_def persister_defs split: option.split)
  have 1: "skvRound bytes gid m (?b, skvBoot 3 mr gid 1 0 MakePersister) = Inr (b2, y1)"
    using b2(1) m y1(1) by (simp add: skvRound_def applierRound_def y1_def lateServer_def skvBoot_def StartServer_def Let_def persister_defs)
  note s = lateServer_serves [OF assms(6,7,1) kv]
  have "serves (key2shard (kop_Key op)) y1" "skv_dupTable y1 = Map.empty" "length (shards y1) = NShards" "skvValue y1 (kop_Key op) = ''''" "skv_config y1 = cfg"
    using view y1(2) s by (auto simp: skvView_def serves_def skvValue_def)
  with served_write_executed [OF assms(2,3), of y1] y1(3) obtain y2 r where y2: "applyCommand op y1 = Inr (y2, r)" "skvSeq y2 (kop_ClientId op) = Some (kop_SeqId op)"
    "skvValue y2 (kop_Key op) = kop_Value op" "skv_config y2 = cfg" "skv_maxraftstate y2 = mr" by auto
  have "y1\<lparr>skv_rf := b2, skv_gid := gid\<rparr> = y1" using y1(1,2) by (cases y1) simp
  moreover have "Snapshot 1 (encodeSnapshot y2) b2 = Inr b2" using b2(2) by (simp add: Snapshot_def)
  ultimately have "skvRound bytes gid (commandMsg 1 (exEnt op)) (b2, y1) = Inr (b2, y2\<lparr>skv_rf := b2\<rparr>)"
    using skvRound_snapshots [where e = "exEnt op" and kv = y1 and rf = b2 and rf' = b2 and k = 1 and bytes = bytes] y2 assms(4,5) by (simp add: exEnt_def)
  then show ?thesis using that [OF 1] b2 y2 by (simp add: skvSeq_def skvValue_def)
qed

text \<open>
  C26. The condition on snapshots above is needed. Let the first command of a group be any put or append and the second one the first configuration, which gives the
  group the shard of its key, and let servers take a snapshot after every command. Then a run of three servers reaches a state in which no sequence of
  commands explains the replicas: the group refused the write, since it did not serve the shard when its turn came, and server 0, which took the commands in order, does
  not have it; server 1, whose apply loop had collected the write and not yet delivered it when the snapshot at index 2 arrived, has executed it after the
  snapshot, although both have compacted and applied exactly the commands up to index 2.
\<close>

theorem late_command_diverges:
  assumes "gid \<noteq> 0" "isKVOp op" "kop_Type op \<noteq> ''Get''" "Num cfg = 1" "Shards cfg ! key2shard (kop_Key op) = gid"
    and "maxraftstate \<noteq> -1" "\<forall>d. maxraftstate \<le> bytes d"
  shows "\<exists>S. sysReach False (skvRound bytes gid) (skvBoot 3 maxraftstate gid) skvView 3 S \<and>
     (\<forall>i<2. lastIncludedIndex (node (servers S) i) = 2 \<and> commitIndex (node (servers S) i) = 2 \<and> skv_config (svc S i) = cfg) \<and>
     skvSeq (svc S 0) (kop_ClientId op) = None \<and> skvValue (svc S 0) (kop_Key op) = '''' \<and>
     skvSeq (svc S 1) (kop_ClientId op) = Some (kop_SeqId op) \<and> skvValue (svc S 1) (kop_Key op) = kop_Value op \<and>
     (\<forall>G. \<not> agreed skvView (skvApplyView gid) skvState0 3 S G)"
proof -
  let ?kv = "\<lambda>rf. applyConfig (configOp 0 cfg) (lateServer maxraftstate gid 0 rf)"
  obtain a1 x1 a2 where a: "skvRound bytes gid (commandMsg 1 (exEnt op)) (lateLeader [exEnt op, exEnt (configOp 0 cfg)] 2 [1, 1, 3] [2, 0, 2] 100 False,
      skvBoot 3 maxraftstate gid 0 0 MakePersister) = Inr (a1, x1)"
    "skvRound bytes gid (commandMsg 2 (exEnt (configOp 0 cfg))) (a1, x1) = Inr (a2, (?kv a1)\<lparr>skv_rf := a2\<rparr>)" and a2: "lastIncludedIndex a2 = 2" "commitIndex a2 = 2"
    and send: "replicateTo 1 a2 = SendSnapshot \<lparr>isa_Term = 1, isa_LeaderId = 0, isa_LastIncludedIndex = 2, isa_LastIncludedTerm = 1, isa_Data = encodeSnapshot (?kv a1)\<rparr>"
    by (rule late_leader_rounds [OF assms(1,2,6,7), where kv = ?kv]) auto
  let ?args = "\<lparr>isa_Term = 1, isa_LeaderId = 0, isa_LastIncludedIndex = 2, isa_LastIncludedTerm = 1, isa_Data = encodeSnapshot (?kv a1)\<rparr>"
  let ?b = "lateFollower 1 (-1) [exEnt op] 1 False"
  have offer: "InstallSnapshot 0 ?args ?b = (?b, \<lparr>isr_Term = 1\<rparr>, Some (snapshotMsg ?args))"
    by (simp add: InstallSnapshot_def lateNode_def resetElectionTimer_def randomElectionTimeout_def ElectionTimeoutMin_def Let_def)
  obtain b2 y1 y2 where b: "skvRound bytes gid (snapshotMsg ?args) (?b, skvBoot 3 maxraftstate gid 1 0 MakePersister) = Inr (b2, y1)"
    "skvRound bytes gid (commandMsg 1 (exEnt op)) (b2, y1) = Inr (b2, y2)" and b2: "lastIncludedIndex b2 = 2" "commitIndex b2 = 2"
    and y2: "skvSeq y2 (kop_ClientId op) = Some (kop_SeqId op)" "skvValue y2 (kop_Key op) = kop_Value op" "skv_config y2 = cfg"
    by (rule late_follower_rounds [OF assms(1-3,6,7,4,5) refl, where m = "snapshotMsg ?args"]) (auto simp: snapshotMsg_def)
  obtain S where S: "sysReach False (skvRound bytes gid) (skvBoot 3 maxraftstate gid) skvView 3 S"
    "node (servers S) 0 = a2" "svc S 0 = (?kv a1)\<lparr>skv_rf := a2\<rparr>" "node (servers S) 1 = b2" "svc S 1 = y2"
    using late_delivered [where round = "skvRound bytes gid" and boot = "skvBoot 3 maxraftstate gid" and view = skvView, OF a send offer _ b] by auto
  note s0 = lateServer_serves [OF assms(4,5,1) refl, of 0 maxraftstate 0 a1]
  have x: "skvSeq (svc S 0) (kop_ClientId op) = None" "skvValue (svc S 0) (kop_Key op) = ''''" "skv_config (svc S 0) = cfg"
    using s0 by (simp_all add: S(3) skvSeq_def skvValue_def)
  have "\<not> agreed skvView (skvApplyView gid) skvState0 3 S G" for G
  proof
    assume "agreed skvView (skvApplyView gid) skvState0 3 S G"
    then have "\<exists>k. 2 \<le> int k \<and> int k \<le> 2 \<and> skvView (svc S i) = fold (skvApplyView gid) (take k G) skvState0" if "i < 2" for i
      using that a2 b2 S(2,4) unfolding agreed_def by (cases i) (force, metis One_nat_def less_2_cases numeral_3_eq_3 less_Suc_eq that)
    then have "skvView (svc S i) = fold (skvApplyView gid) (take 2 G) skvState0" if "i < 2" for i using that by (metis nat_int nat_numeral order_antisym)
    from this [of 0] this [of 1] have "skvView (svc S 0) = skvView (svc S 1)" by simp
    then have "skvSeq (svc S 0) = skvSeq (svc S 1)" by (simp add: skvView_def skvSeq_def fun_eq_iff)
    then show False using x(1) y2(1) S(5) by simp
  qed
  moreover have "\<forall>i<2. lastIncludedIndex (node (servers S) i) = 2 \<and> commitIndex (node (servers S) i) = 2 \<and> skv_config (svc S i) = cfg"
    using a2 b2 S x y2 by (auto simp: less_2_cases_iff)
  ultimately show ?thesis using S(1,5) x y2 by blast
qed

theorem late_command_diverges_witness:
  "\<exists>S. sysReach False (skvRound (\<lambda>_. 0) 1) (skvBoot 3 0 1) skvView 3 S \<and> skvValue (svc S 0) ''x'' = '''' \<and> skvValue (svc S 1) ''x'' = ''v'' \<and>
     (\<forall>G. \<not> agreed skvView (skvApplyView 1) skvState0 3 S G)"
proof -
  have op: "isKVOp exSkvPut" "kop_Type exSkvPut \<noteq> ''Get''" "kop_Key exSkvPut = ''x''" "kop_Value exSkvPut = ''v''" by (simp_all add: isKVOp_def exSkvPut_def)
  have cfg: "Num exOwnAll = 1" "Shards exOwnAll ! key2shard (kop_Key exSkvPut) = 1" by (simp_all add: exOwnAll_def key2shard_less)
  show ?thesis using late_command_diverges [OF _ op(1,2) cfg, of 0 "\<lambda>_. 0"] unfolding op(3,4) by auto
qed

end
