(* ===== verification/KvClerk_Runs.thy ===== *)
theory KvClerk_Runs
  imports KvClerk
begin

text \<open>
  The clerks of \<^verbatim>\<open>kvraft/client.go\<close> and the log that they fill. A clerk takes a new sequence number for every request and starts the next request only when
  the last one was answered. A server gives an answer other than \<^verbatim>\<open>ErrWrongLeader\<close> and \<^verbatim>\<open>ErrTimeout\<close> only when it has applied the command of the request
  (\<^verbatim>\<open>submitAndWait\<close>; theory \<^verbatim>\<open>Notify\<close>), so an answered request is in the log. Between the two moments the request may be sent any number of times to any server, and copies of
  it may enter the log at any later moment, also long after the answer.

  The log is the one growing sequence of commands that the servers agree on (theory \<^verbatim>\<open>KvRaft_Group\<close>); commands enter it at its end.
\<close>

section \<open>Clerks and their log\<close>

record clerkSys =
  clerks :: "nat \<Rightarrow> Clerk"
  sent :: "Op set"
  entries :: "Op list"

definition clerkIdle :: "clerkSys \<Rightarrow> nat \<Rightarrow> bool" where
  "clerkIdle s i \<longleftrightarrow> seqId (clerks s i) = 0 \<or>
     (\<exists>op \<in> set (entries s). op_ClientId op = clientId (clerks s i) \<and> op_SeqId op = seqId (clerks s i))"

inductive clerkStep :: "clerkSys \<Rightarrow> clerkSys \<Rightarrow> bool" where
  put_append:
  "\<lbrakk>clerkIdle s i; nextSeq (clerks s i) = (ck, seq); opn = ''Put'' \<or> opn = ''Append'';
    op = PutAppendOp \<lparr>pa_Key = key, pa_Value = v, pa_Op = opn, pa_ClientId = clientId ck, pa_SeqId = seq\<rparr>\<rbrakk> \<Longrightarrow>
   clerkStep s (s\<lparr>clerks := (clerks s)(i := ck), sent := insert op (sent s)\<rparr>)"
| get:
  "\<lbrakk>clerkIdle s i; nextSeq (clerks s i) = (ck, seq); op = GetOp \<lparr>ga_Key = key, ga_ClientId = clientId ck, ga_SeqId = seq\<rparr>\<rbrakk> \<Longrightarrow>
   clerkStep s (s\<lparr>clerks := (clerks s)(i := ck), sent := insert op (sent s)\<rparr>)"
| enter_log:
  "op \<in> sent s \<Longrightarrow> clerkStep s (s\<lparr>entries := entries s @ [op]\<rparr>)"

text \<open>Clerks start with the number 0 and have different identifiers (theory \<^verbatim>\<open>ClientId\<close>).\<close>

definition clerkStart :: "(nat \<Rightarrow> Clerk) \<Rightarrow> clerkSys" where
  "clerkStart cks = \<lparr>clerks = cks, sent = {}, entries = []\<rparr>"

inductive clerkReach :: "clerkSys \<Rightarrow> bool" where
  start: "\<lbrakk>inj (\<lambda>i. clientId (cks i)); \<forall>i. seqId (cks i) = 0\<rbrakk> \<Longrightarrow> clerkReach (clerkStart cks)"
| step: "\<lbrakk>clerkReach s; clerkStep s s'\<rbrakk> \<Longrightarrow> clerkReach s'"

section \<open>What the clerks guarantee\<close>

text \<open>The clerk that made a request; when it has made another one since, the request is in the log.\<close>

definition owner :: "clerkSys \<Rightarrow> Op \<Rightarrow> nat \<Rightarrow> bool" where
  "owner s op i \<longleftrightarrow> op_ClientId op = clientId (clerks s i) \<and> 0 < op_SeqId op \<and> op_SeqId op \<le> seqId (clerks s i) \<and>
     (op_SeqId op < seqId (clerks s i) \<longrightarrow> op \<in> set (entries s))"

definition clerkInv :: "clerkSys \<Rightarrow> bool" where
  "clerkInv s \<longleftrightarrow> inj (\<lambda>i. clientId (clerks s i)) \<and> (\<forall>i. 0 \<le> seqId (clerks s i)) \<and> set (entries s) \<subseteq> sent s \<and> (\<forall>op \<in> sent s. \<exists>i. owner s op i) \<and>
     (\<forall>op \<in> sent s. \<forall>op' \<in> sent s. op_ClientId op = op_ClientId op' \<and> op_SeqId op = op_SeqId op' \<longrightarrow> op = op') \<and>
     freshInOrder op_ClientId op_SeqId isWrite [] (entries s)"

lemma clerkInv_call:
  assumes inv: "clerkInv s" and idle: "clerkIdle s i" and ck: "nextSeq (clerks s i) = (ck, seq)" and op: "op_ClientId op = clientId ck" "op_SeqId op = seq"
  shows "clerkInv (s\<lparr>clerks := (clerks s)(i := ck), sent := insert op (sent s)\<rparr>)"
proof -
  have c: "clientId ck = clientId (clerks s i)" "seqId ck = seqId (clerks s i) + 1" "seq = seqId (clerks s i) + 1" using ck by (auto simp: nextSeq_def)
  let ?s = "s\<lparr>clerks := (clerks s)(i := ck), sent := insert op (sent s)\<rparr>"
  have inj: "inj (\<lambda>j. clientId (clerks s j))" and pos: "0 \<le> seqId (clerks s j)" for j using inv by (auto simp: clerkInv_def)
  have ids: "clientId (((clerks s)(i := ck)) j) = clientId (clerks s j)" for j using c(1) by simp
  have uniq: "x = y" if "x \<in> sent s" "y \<in> sent s" "op_ClientId x = op_ClientId y" "op_SeqId x = op_SeqId y" for x y
    using inv that by (simp add: clerkInv_def)
  have old: "\<exists>j. owner ?s x j \<and> (op_ClientId x = op_ClientId op \<longrightarrow> op_SeqId x < op_SeqId op)" if x: "x \<in> sent s" for x
  proof -
    obtain j where j: "owner s x j" using inv x by (auto simp: clerkInv_def)
    have "x \<in> set (entries s)" if "j = i"
    proof (cases "op_SeqId x < seqId (clerks s i)")
      case False
      then have q: "op_SeqId x = seqId (clerks s i)" "seqId (clerks s i) \<noteq> 0" using j that by (auto simp: owner_def)
      then obtain y where y: "y \<in> set (entries s)" "op_ClientId y = clientId (clerks s i)" "op_SeqId y = seqId (clerks s i)"
        using idle by (auto simp: clerkIdle_def)
      moreover have "y \<in> sent s" using y(1) inv by (auto simp: clerkInv_def)
      ultimately show ?thesis using uniq [OF x, of y] j that q(1) by (auto simp: owner_def)
    qed (use j that in \<open>simp add: owner_def\<close>)
    moreover have "j = i" if "op_ClientId x = op_ClientId op" using j that op c inj by (auto simp: owner_def dest: injD)
    ultimately show ?thesis using j op c by (intro exI [of _ j]) (auto simp: owner_def)
  qed
  have "owner ?s op i" using op c pos [of i] by (simp add: owner_def)
  moreover have "inj (\<lambda>j. clientId (clerks ?s j))" using inj ids by simp
  moreover have "0 \<le> seqId (clerks ?s j)" for j using pos [of j] pos [of i] c(2) by simp
  ultimately show ?thesis using inv old uniq unfolding clerkInv_def by (auto; fastforce)
qed

lemma clerkInv_enter:
  assumes inv: "clerkInv s" and op: "op \<in> sent s"
  shows "clerkInv (s\<lparr>entries := entries s @ [op]\<rparr>)"
proof -
  let ?ids = "(\<lambda>x. (op_ClientId x, op_SeqId x)) ` {x \<in> set (entries s). isWrite x}"
  obtain i where i: "owner s op i" using inv op by (auto simp: clerkInv_def)
  have "(op_ClientId op, op_SeqId op) \<in> ?ids \<or> (\<forall>(c, n) \<in> ?ids. c = op_ClientId op \<longrightarrow> n < op_SeqId op)" if w: "isWrite op"
  proof (cases "op \<in> set (entries s)")
    case False
    then have last: "op_SeqId op = seqId (clerks s i)" using i by (auto simp: owner_def)
    have "op_SeqId x < op_SeqId op" if x: "x \<in> set (entries s)" "op_ClientId x = op_ClientId op" for x
    proof -
      have s: "x \<in> sent s" using x(1) inv by (auto simp: clerkInv_def)
      then obtain j where j: "owner s x j" using inv by (auto simp: clerkInv_def)
      have "j = i" using i j x(2) inv by (auto simp: owner_def clerkInv_def dest: injD)
      moreover have "op_SeqId x \<noteq> op_SeqId op" using inv s op x False unfolding clerkInv_def by metis
      ultimately show ?thesis using j last by (auto simp: owner_def)
    qed
    then show ?thesis by auto
  qed (use w in auto)
  then have "freshInOrder op_ClientId op_SeqId isWrite [] (entries s @ [op])" using inv by (simp add: freshInOrder_snoc clerkInv_def)
  moreover have "\<exists>j. owner (s\<lparr>entries := entries s @ [op]\<rparr>) x j" if "x \<in> sent s" for x
    using inv that unfolding clerkInv_def by (fastforce simp: owner_def)
  ultimately show ?thesis using inv op unfolding clerkInv_def by auto
qed

lemma clerkReach_inv: "clerkReach s \<Longrightarrow> clerkInv s"
proof (induction rule: clerkReach.induct)
  case (start cks)
  then show ?case by (simp add: clerkInv_def clerkStart_def)
next
  case (step s s')
  from step.hyps(2) show ?case
  proof cases
    case (put_append i ck seq opn op key v)
    then show ?thesis using clerkInv_call [OF step.IH put_append(2,3), of op] by (simp add: PutAppendOp_def)
  next
    case (get i ck seq op key)
    then show ?thesis using clerkInv_call [OF step.IH get(2,3), of op] by (simp add: GetOp_def)
  next
    case (enter_log op)
    then show ?thesis using clerkInv_enter [OF step.IH] by simp
  qed
qed

lemma answered_in_log:
  assumes inv: "clerkInv s" and op: "op \<in> sent s" "op_ClientId op = clientId (clerks s c)" "op_SeqId op < seqId (clerks s c) \<or> clerkIdle s c"
  shows "op \<in> set (entries s)"
proof -
  obtain j where j: "owner s op j" using inv op(1) by (auto simp: clerkInv_def)
  then have "j = c" using op(2) inv by (auto simp: owner_def clerkInv_def dest: injD)
  show ?thesis
  proof (cases "op_SeqId op < seqId (clerks s c)")
    case False
    then obtain y where "y \<in> set (entries s)" "op_ClientId y = op_ClientId op" "op_SeqId y = op_SeqId op"
      using op(2,3) j \<open>j = c\<close> by (auto simp: clerkIdle_def owner_def)
    then show ?thesis using inv op(1) unfolding clerkInv_def by blast
  qed (use j \<open>j = c\<close> in \<open>simp add: owner_def\<close>)
qed

section \<open>Exactly once\<close>

text \<open>
  C6. Clerks make requests one after the other; each is sent and may enter the log any number of times. Whatever log results, a server that applies it ends with the
  store that results from executing every write that is in the log exactly once, in the order of the first occurrences, and all writes that were
  answered are among them.
\<close>

theorem kv_exactly_once:
  assumes "clerkReach s"
  shows "let W = firstOccs op_ClientId op_SeqId isWrite [] (entries s) in
     (\<exists>kv rs. runOps kvApply (entries s) (StartKVServer n i MakePersister maxraftstate rnd) = Some (kv, rs) \<and> kvStore kv = fold kvExec W Map.empty) \<and>
     distinct W \<and> set W = {op \<in> set (entries s). isWrite op} \<and>
     (\<forall>op \<in> sent s. \<forall>c. isWrite op \<and> op_ClientId op = clientId (clerks s c) \<and> (op_SeqId op < seqId (clerks s c) \<or> clerkIdle s c) \<longrightarrow> op \<in> set W)"
proof -
  let ?kv = "StartKVServer n i MakePersister maxraftstate rnd" and ?W = "firstOccs op_ClientId op_SeqId isWrite [] (entries s)"
  have inv: "clerkInv s" by (rule clerkReach_inv [OF assms(1)])
  have init: "kvStore ?kv = Map.empty" "kvSeq ?kv = Map.empty" by (auto simp: StartKVServer_def Let_def persister_defs kvSeq_def)
  obtain kv rs where run: "runOps kvApply (entries s) ?kv = Some (kv, rs)" using runOps_total [of applyCommand] by blast
  have "freshInOrder op_ClientId op_SeqId isWrite [] (entries s)" using inv by (simp add: clerkInv_def)
  from kv_dup.run_exactly_once [OF run init(2) this] init(1) have store: "kvStore kv = fold kvExec ?W Map.empty" by simp
  have "x = y" if "x \<in> set (entries s)" "y \<in> set (entries s)" "op_ClientId x = op_ClientId y" "op_SeqId x = op_SeqId y" for x y
    using inv that unfolding clerkInv_def by blast
  then have W: "set ?W = {op \<in> set (entries s). isWrite op}" by (intro set_firstOccs) auto
  show ?thesis unfolding Let_def W
    using run store distinct_firstOccs [of op_ClientId op_SeqId isWrite "[]" "entries s"] answered_in_log [OF inv] by blast
qed

text \<open>
  A run: clerk 0 makes a put, which enters the log, then an append. Both enter the log once more.
\<close>

definition exClerks :: "nat \<Rightarrow> Clerk" where
  "exClerks i = \<lparr>servers = 3, clientId = int i + 1, seqId = 0, leaderId = 0\<rparr>"

definition exClerkRun :: clerkSys where
  "exClerkRun = \<lparr>clerks = exClerks(0 := (exClerks 0)\<lparr>seqId := 2\<rparr>), sent = {exAppend, exPut}, entries = [exPut, exAppend, exPut]\<rparr>"

lemma exClerkRun_reachable: "clerkReach exClerkRun"
proof -
  let ?ck = "\<lambda>n. exClerks(0 := (exClerks 0)\<lparr>seqId := n\<rparr>)"
  let ?s0 = "clerkStart exClerks" and ?s1 = "\<lparr>clerks = ?ck 1, sent = {exPut}, entries = []\<rparr>" and ?s2 = "\<lparr>clerks = ?ck 1, sent = {exPut}, entries = [exPut]\<rparr>"
  let ?s3 = "\<lparr>clerks = ?ck 2, sent = {exAppend, exPut}, entries = [exPut]\<rparr>" and ?s4 = "\<lparr>clerks = ?ck 2, sent = {exAppend, exPut}, entries = [exPut, exAppend]\<rparr>"
  have 0: "clerkReach ?s0" by (rule clerkReach.start) (auto simp: exClerks_def inj_def)
  have "clerkStep ?s0 ?s1"
    using put_append [of ?s0 0 "(exClerks 0)\<lparr>seqId := 1\<rparr>" 1 "''Put''" exPut "''x''" "''a''"]
    by (simp add: clerkStart_def clerkIdle_def nextSeq_def exClerks_def PutAppendOp_def exPut_def)
  note 1 = clerkReach.step [OF 0 this]
  have "clerkStep ?s1 ?s2" using enter_log [of exPut ?s1] by simp
  note 2 = clerkReach.step [OF 1 this]
  have "clerkStep ?s2 ?s3"
    using put_append [of ?s2 0 "(exClerks 0)\<lparr>seqId := 2\<rparr>" 2 "''Append''" exAppend "''x''" "''b''"]
    by (simp add: clerkIdle_def nextSeq_def exClerks_def PutAppendOp_def exAppend_def exPut_def)
  note 3 = clerkReach.step [OF 2 this]
  have "clerkStep ?s3 ?s4" using enter_log [of exAppend ?s3] by simp
  note 4 = clerkReach.step [OF 3 this]
  have "clerkStep ?s4 exClerkRun" using enter_log [of exPut ?s4] by (simp add: exClerkRun_def)
  with 4 show ?thesis by (rule clerkReach.step)
qed

theorem kv_exactly_once_witness:
  "clerkReach exClerkRun \<and> (\<exists>kv rs. runOps kvApply (entries exClerkRun) (StartKVServer 3 0 MakePersister (-1) 0) = Some (kv, rs) \<and> kvStore kv ''x'' = Some ''ab'')"
proof -
  have "fold kvExec (firstOccs op_ClientId op_SeqId isWrite [] (entries exClerkRun)) Map.empty ''x'' = Some ''ab''"
    by (simp add: exClerkRun_def exPut_def exAppend_def kvExec_def valueOf_def)
  with kv_exactly_once [OF exClerkRun_reachable, of 3 0 "-1" 0] exClerkRun_reachable show ?thesis unfolding Let_def by metis
qed

end
