(* ===== verification/ShardKV_Migration.thy ===== *)
theory ShardKV_Migration
  imports ShardKV_Props
begin

text \<open>
  All replica groups together, moving shards between them. The log of a group makes its servers go
  through the same states, provided that they install snapshots only while no command is queued (\<^verbatim>\<open>ShardKV_Group\<close>
  shows this, and that it fails otherwise). So a group is one state machine whose past states are the states in
  which a lagging server may still be: RPCs are answered, and commands proposed, from any of them. Runs in which a
  server leaves these states are not covered here.
  Configurations come from the controller's history \<^verbatim>\<open>cfgs\<close>, which is fixed. Commands that were
  started may be applied late, repeatedly, or never.
  The garbage collection that a group proposes for itself after a positive answer of the previous
  owner is allowed here as soon as that owner has the command in its log, which admits more runs
  than the code has.

  The main result is that two groups never serve the same shard.
\<close>

section \<open>What the commands do to shard states\<close>

lemma client_keeps:
  assumes "isKVOp op" "applyCommand op kv = Inr (kv', r)"
  shows "skv_gid kv' = skv_gid kv" "skv_config kv' = skv_config kv" "lastConfig kv' = lastConfig kv"
    "map State (shards kv') = map State (shards kv)"
proof -
  have "kv' = fst (applyClientOp op kv)"
    using assms by (auto simp: applyCommand_def split_beta)
  moreover have "skv_gid (fst (applyClientOp op kv)) = skv_gid kv \<and> skv_config (fst (applyClientOp op kv)) = skv_config kv \<and>
      lastConfig (fst (applyClientOp op kv)) = lastConfig kv \<and> map State (shards (fst (applyClientOp op kv))) = map State (shards kv)"
    by (simp add: applyClientOp_def Let_def split_beta split: option.split)
  ultimately show "skv_gid kv' = skv_gid kv" "skv_config kv' = skv_config kv" "lastConfig kv' = lastConfig kv"
    "map State (shards kv') = map State (shards kv)" by blast+
qed

lemma installShards_states:
  assumes "installShards kvs shs = Inr shs'"
  shows "length shs' = length shs" "i < length shs \<Longrightarrow> State (shs' ! i) = State (shs ! i) \<or>
     (State (shs ! i) = Pulling \<and> State (shs' ! i) = GCing \<and> int i \<in> fst ` set kvs)"
proof -
  have "length shs' = length shs \<and> (\<forall>i < length shs. State (shs' ! i) = State (shs ! i) \<or>
     (State (shs ! i) = Pulling \<and> State (shs' ! i) = GCing \<and> int i \<in> fst ` set kvs))"
    using assms
  proof (induction kvs shs rule: installShards.induct)
    case (2 j kvData rest shs)
    then obtain s where s: "go_index shs j = Inr s" by (auto split: sum.splits)
    let ?shs = "if State s = Pulling then shs[nat j := \<lparr>State = GCing, KV = kvData\<rparr>] else shs"
    have "installShards rest ?shs = Inr shs'" using 2 s by simp
    from "2.IH" [OF s this] have IH: "length shs' = length shs"
      "\<And>i. i < length shs \<Longrightarrow> State (shs' ! i) = State (?shs ! i) \<or>
        (State (?shs ! i) = Pulling \<and> State (shs' ! i) = GCing \<and> int i \<in> fst ` set rest)"
      by (auto split: if_splits)
    have mid: "State (?shs ! i) = State (shs ! i) \<or> (State (shs ! i) = Pulling \<and> State (?shs ! i) = GCing \<and> int i = j)"
      if "i < length shs" for i
      using that s by (cases "i = nat j"; cases "State s = Pulling") auto
    have "State (shs' ! i) = State (shs ! i) \<or>
        (State (shs ! i) = Pulling \<and> State (shs' ! i) = GCing \<and> int i \<in> fst ` set ((j, kvData) # rest))"
      if "i < length shs" for i
      using IH(2) [OF that] mid [OF that] by fastforce
    then show ?case using IH(1) by blast
  qed simp
  then show "length shs' = length shs" "i < length shs \<Longrightarrow> State (shs' ! i) = State (shs ! i) \<or>
     (State (shs ! i) = Pulling \<and> State (shs' ! i) = GCing \<and> int i \<in> fst ` set kvs)" by blast+
qed

lemma gcShards_states:
  assumes "gcShards num gcNum ids shs = Inr shs'"
  shows "length shs' = length shs" "i < length shs \<Longrightarrow> State (shs' ! i) = State (shs ! i) \<or>
     (State (shs ! i) \<in> {BePulling, GCing} \<and> State (shs' ! i) = Serving)"
proof -
  have "length shs' = length shs \<and> (\<forall>i < length shs. State (shs' ! i) = State (shs ! i) \<or>
     (State (shs ! i) \<in> {BePulling, GCing} \<and> State (shs' ! i) = Serving))"
    using assms
  proof (induction num gcNum ids shs rule: gcShards.induct)
    case (2 num gcNum j ids shs)
    then obtain s where s: "go_index shs j = Inr s" by (auto split: sum.splits)
    let ?shs = "case State s of
               BePulling \<Rightarrow> (if num = gcNum then shs[nat j := \<lparr>State = Serving, KV = Map.empty\<rparr>] else shs)
             | GCing \<Rightarrow> (if num = gcNum then shs[nat j := s\<lparr>State := Serving\<rparr>] else shs)
             | _ \<Rightarrow> shs"
    have "gcShards num gcNum ids ?shs = Inr shs'" using 2 s by simp
    from "2.IH" [OF s this] have IH: "length shs' = length ?shs"
      "\<And>i. i < length ?shs \<Longrightarrow> State (shs' ! i) = State (?shs ! i) \<or>
        (State (?shs ! i) \<in> {BePulling, GCing} \<and> State (shs' ! i) = Serving)" by blast+
    have len: "length ?shs = length shs" by (simp split: ShardState.split)
    have mid: "State (?shs ! i) = State (shs ! i) \<or> (State (shs ! i) \<in> {BePulling, GCing} \<and> State (?shs ! i) = Serving)"
      if "i < length shs" for i
      using that s by (cases "i = nat j") (auto split: ShardState.split)
    show ?case using IH len mid by (metis ShardState.distinct insert_iff empty_iff)
  qed simp
  then show "length shs' = length shs" "i < length shs \<Longrightarrow> State (shs' ! i) = State (shs ! i) \<or>
     (State (shs ! i) \<in> {BePulling, GCing} \<and> State (shs' ! i) = Serving)" by blast+
qed

section \<open>The system\<close>

record msys =
  grp :: "int \<Rightarrow> ShardKV"
  past :: "int \<Rightarrow> ShardKV set"
  proposed :: "(int \<times> Config) set"
  pulled :: "(int \<times> int \<times> PullShardReply) set"
  gcCmds :: "(int \<times> int \<times> int list) set"

definition minit :: "msys" where
  "minit = \<lparr>grp = (\<lambda>g. StartServer 3 0 MakePersister (-1) g 0),
     past = (\<lambda>g. {StartServer 3 0 MakePersister (-1) g 0}), proposed = {}, pulled = {}, gcCmds = {}\<rparr>"

text \<open>A server of the group in state \<^verbatim>\<open>p\<close> with whatever Raft instance it has at the moment.\<close>

abbreviation at :: "ShardKV \<Rightarrow> (Op, skgob) raft \<Rightarrow> ShardKV" where
  "at p rf \<equiv> p\<lparr>skv_rf := rf\<rparr>"

definition moveTo :: "int \<Rightarrow> ShardKV \<Rightarrow> msys \<Rightarrow> msys" where
  "moveTo g kv w = w\<lparr>grp := (grp w)(g := kv), past := (past w)(g := insert kv (past w g))\<rparr>"

text \<open>What the background goroutines bring about.\<close>

inductive madmin :: "(nat \<Rightarrow> Config) \<Rightarrow> msys \<Rightarrow> msys \<Rightarrow> bool" for cfgs where
  propose:
  "\<lbrakk>p \<in> past w g; pollCheck (at p rf) = Some n; c = cfgs (nat (n + 1)); Num c = n + 1\<rbrakk> \<Longrightarrow>
   madmin cfgs w (w\<lparr>proposed := insert (g, c) (proposed w)\<rparr>)"
| reconfigure:
  "\<lbrakk>(g, c) \<in> proposed w; applyCommand (configOp iid c) (grp w g) = Inr (kv, r)\<rbrakk> \<Longrightarrow>
   madmin cfgs w (moveTo g kv w)"
| pull:
  "\<lbrakk>q \<in> past w g; (h, ids) \<in> set (pullMap (at q rfq)); p \<in> past w h;
    PullShard \<lparr>psa_ConfigNum = Num (skv_config q), psa_ShardIds = ids\<rparr> (at p rfp) = Inr reply;
    psr_Err reply = OK\<rbrakk> \<Longrightarrow>
   madmin cfgs w (w\<lparr>pulled := insert (g, Num (skv_config q), reply) (pulled w)\<rparr>)"
| install:
  "\<lbrakk>(g, n, reply) \<in> pulled w; applyCommand (installOp iid n reply) (grp w g) = Inr (kv, r)\<rbrakk> \<Longrightarrow>
   madmin cfgs w (moveTo g kv w)"
| gc_request:
  "\<lbrakk>q \<in> past w g; (h, ids) \<in> set (gcMap (at q rfq)); p \<in> past w h;
    GCShard \<lparr>gca_ConfigNum = Num (skv_config q), gca_ShardIds = ids\<rparr> (at p rfp) = Inr (Inr op)\<rbrakk> \<Longrightarrow>
   madmin cfgs w (w\<lparr>gcCmds := insert (h, kop_GCConfigNum op, kop_GCShardIds op) (gcCmds w)\<rparr>)"
| gc_confirmed:
  "\<lbrakk>q \<in> past w g; (h, ids) \<in> set (gcMap (at q rfq)); p \<in> past w h;
    GCShard \<lparr>gca_ConfigNum = Num (skv_config q), gca_ShardIds = ids\<rparr> (at p rfp) = Inr (Inl OK) \<or>
    (h, Num (skv_config q), ids) \<in> gcCmds w\<rbrakk> \<Longrightarrow>
   madmin cfgs w (w\<lparr>gcCmds := insert (g, Num (skv_config q), ids) (gcCmds w)\<rparr>)"
| collect:
  "\<lbrakk>(g, n, ids) \<in> gcCmds w; applyCommand ((gcOp n ids)\<lparr>kop_InternalId := iid\<rparr>) (grp w g) = Inr (kv, r)\<rbrakk> \<Longrightarrow>
   madmin cfgs w (moveTo g kv w)"

inductive mstep :: "(nat \<Rightarrow> Config) \<Rightarrow> msys \<Rightarrow> msys \<Rightarrow> bool" for cfgs where
  client:
  "\<lbrakk>isKVOp op; applyCommand op (grp w g) = Inr (kv, r)\<rbrakk> \<Longrightarrow> mstep cfgs w (moveTo g kv w)"
| admin:
  "madmin cfgs w w' \<Longrightarrow> mstep cfgs w w'"

inductive mreach :: "(nat \<Rightarrow> Config) \<Rightarrow> msys \<Rightarrow> bool" for cfgs where
  start: "mreach cfgs minit"
| step: "mreach cfgs w \<Longrightarrow> mstep cfgs w w' \<Longrightarrow> mreach cfgs w'"

section \<open>Steps of one group\<close>

definition num :: "ShardKV \<Rightarrow> nat" where
  "num kv = nat (Num (skv_config kv))"

definition allServing :: "ShardKV \<Rightarrow> bool" where
  "allServing kv \<longleftrightarrow> (\<forall>i < NShards. State (shards kv ! i) = Serving)"

text \<open>Commands other than a configuration change; \<^verbatim>\<open>installed\<close> are the shards they fill.\<close>

definition advances :: "nat set \<Rightarrow> ShardKV \<Rightarrow> ShardKV \<Rightarrow> bool" where
  "advances installed kv kv' \<longleftrightarrow>
     skv_gid kv' = skv_gid kv \<and> skv_config kv' = skv_config kv \<and> lastConfig kv' = lastConfig kv \<and>
     length (shards kv') = length (shards kv) \<and>
     (\<forall>i < length (shards kv). State (shards kv' ! i) = State (shards kv ! i) \<or>
        (State (shards kv ! i) = Pulling \<and> State (shards kv' ! i) = GCing \<and> i \<in> installed) \<or>
        (State (shards kv ! i) \<in> {BePulling, GCing} \<and> State (shards kv' ! i) = Serving))"

lemma advances_client:
  assumes "isKVOp op" "applyCommand op kv = Inr (kv', r)"
  shows "advances {} kv kv'"
proof -
  note keep = client_keeps [OF assms]
  have "length (shards kv') = length (shards kv)" using keep(4) by (metis length_map)
  moreover have "State (shards kv' ! i) = State (shards kv ! i)" if "i < length (shards kv)" for i
    using keep(4) that by (metis calculation nth_map)
  ultimately show ?thesis using keep by (simp add: advances_def)
qed

lemma advances_install:
  assumes "applyCommand (installOp iid n reply) kv = Inr (kv', r)"
  shows "advances {i. int i \<in> fst ` set (psr_Shards reply) \<and> n = Num (skv_config kv)} kv kv'"
proof -
  have inst: "applyInstall (installOp iid n reply) kv = Inr kv'"
    using assms by (auto simp: applyCommand_def isKVOp_def installOp_def applyAdminOp_def split: sum.splits)
  show ?thesis
  proof (cases "n = Num (skv_config kv)")
    case True
    then obtain shs where "installShards (psr_Shards reply) (shards kv) = Inr shs" "shards kv' = shs"
      "skv_gid kv' = skv_gid kv" "skv_config kv' = skv_config kv" "lastConfig kv' = lastConfig kv"
      using inst by (auto simp: applyInstall_def installOp_def split: sum.splits)
    then show ?thesis using installShards_states True unfolding advances_def by fastforce
  next
    case False
    then show ?thesis using inst by (simp add: applyInstall_def installOp_def advances_def)
  qed
qed

lemma advances_gc:
  assumes "applyCommand ((gcOp n ids)\<lparr>kop_InternalId := iid\<rparr>) kv = Inr (kv', r)"
  shows "advances {} kv kv'"
proof -
  have "applyGC ((gcOp n ids)\<lparr>kop_InternalId := iid\<rparr>) kv = Inr kv'"
    using assms by (auto simp: applyCommand_def isKVOp_def gcOp_def applyAdminOp_def split: sum.splits)
  then obtain shs where "gcShards (Num (skv_config kv)) n ids (shards kv) = Inr shs" "kv' = kv\<lparr>shards := shs\<rparr>"
    by (auto simp: applyGC_def gcOp_def split: sum.splits)
  then show ?thesis using gcShards_states unfolding advances_def by fastforce
qed

lemma advances_refl: "advances {} kv kv"
  by (simp add: advances_def)

lemma advances_num: "advances S kv kv' \<Longrightarrow> num kv' = num kv"
  by (simp add: advances_def num_def)

lemma advances_stable: "advances S kv kv' \<Longrightarrow> length (shards kv) = NShards \<Longrightarrow> allServing kv \<Longrightarrow> allServing kv'"
  by (auto simp: advances_def allServing_def)

section \<open>The invariant\<close>

definition ownerOf :: "(nat \<Rightarrow> Config) \<Rightarrow> nat \<Rightarrow> nat \<Rightarrow> int" where
  "ownerOf cfgs n i = Shards (cfgs n) ! i"

text \<open>
  The controller's history: numbered from the empty configuration on, and never without an owner for
  a shard after that.
\<close>

definition goodConfigs :: "(nat \<Rightarrow> Config) \<Rightarrow> bool" where
  "goodConfigs cfgs \<longleftrightarrow> cfgs 0 = emptyConfig \<and> (\<forall>n. Num (cfgs n) = int n) \<and>
     (\<forall>n i. 0 < n \<and> i < NShards \<longrightarrow> ownerOf cfgs n i \<noteq> 0)"

definition groupOk :: "(nat \<Rightarrow> Config) \<Rightarrow> int \<Rightarrow> ShardKV \<Rightarrow> bool" where
  "groupOk cfgs g kv \<longleftrightarrow> skv_gid kv = g \<and> length (shards kv) = NShards \<and>
     skv_config kv = cfgs (num kv) \<and> (0 < num kv \<longrightarrow> lastConfig kv = cfgs (num kv - 1)) \<and>
     (num kv = 0 \<longrightarrow> allServing kv) \<and>
     (\<forall>i < NShards. State (shards kv ! i) = BePulling \<longrightarrow> ownerOf cfgs (num kv) i \<noteq> g)"

text \<open>
  \<^verbatim>\<open>passed\<close>: every earlier owner of the shard has left the configuration in which it was owner.
\<close>

definition passed :: "(nat \<Rightarrow> Config) \<Rightarrow> msys \<Rightarrow> nat \<Rightarrow> nat \<Rightarrow> bool" where
  "passed cfgs w n i \<longleftrightarrow> (\<forall>j < n. ownerOf cfgs j i \<noteq> 0 \<longrightarrow> j < num (grp w (ownerOf cfgs j i)))"

definition inv_past :: "(nat \<Rightarrow> Config) \<Rightarrow> msys \<Rightarrow> bool" where
  "inv_past cfgs w \<longleftrightarrow> (\<forall>g. grp w g \<in> past w g \<and>
     (\<forall>p \<in> past w g. groupOk cfgs g p \<and> num p \<le> num (grp w g) \<and>
        (num p = num (grp w g) \<and> allServing p \<longrightarrow> allServing (grp w g))))"

definition inv_proposed :: "(nat \<Rightarrow> Config) \<Rightarrow> msys \<Rightarrow> bool" where
  "inv_proposed cfgs w \<longleftrightarrow>
     (\<forall>g c. (g, c) \<in> proposed w \<longrightarrow> (\<exists>p \<in> past w g. allServing p \<and> c = cfgs (Suc (num p))))"

definition inv_pulled :: "(nat \<Rightarrow> Config) \<Rightarrow> msys \<Rightarrow> bool" where
  "inv_pulled cfgs w \<longleftrightarrow>
     (\<forall>g n reply i. (g, n, reply) \<in> pulled w \<and> int i \<in> fst ` set (psr_Shards reply) \<longrightarrow>
        (\<exists>m. n = int (Suc m) \<and> m < num (grp w (ownerOf cfgs m i))))"

definition inv_handover :: "(nat \<Rightarrow> Config) \<Rightarrow> msys \<Rightarrow> bool" where
  "inv_handover cfgs w \<longleftrightarrow>
     (\<forall>j i. i < NShards \<and> ownerOf cfgs j i \<noteq> 0 \<and> j < num (grp w (ownerOf cfgs j i)) \<longrightarrow> passed cfgs w j i) \<and>
     (\<forall>h i. h \<noteq> 0 \<and> i < NShards \<and> serves i (grp w h) \<longrightarrow> passed cfgs w (num (grp w h)) i)"

definition migInv :: "(nat \<Rightarrow> Config) \<Rightarrow> msys \<Rightarrow> bool" where
  "migInv cfgs w \<longleftrightarrow> inv_past cfgs w \<and> inv_proposed cfgs w \<and> inv_pulled cfgs w \<and> inv_handover cfgs w"

lemma stable_start: "allServing (StartServer n i MakePersister m g r)"
  and num_start: "num (StartServer n i MakePersister m g r) = 0"
  and groupOk_start: "cfgs 0 = emptyConfig \<Longrightarrow> groupOk cfgs g (StartServer n i MakePersister m g r)"
  by (auto simp: allServing_def num_def groupOk_def StartServer_def Let_def persister_defs newShard_def emptyConfig_def)

lemma migInv_start: "goodConfigs cfgs \<Longrightarrow> migInv cfgs minit"
  by (auto simp: migInv_def inv_past_def inv_proposed_def inv_pulled_def inv_handover_def passed_def minit_def
      groupOk_start goodConfigs_def num_start)

section \<open>Preservation\<close>

lemma passed_Suc:
  "passed cfgs w (Suc m) i \<longleftrightarrow>
     passed cfgs w m i \<and> (ownerOf cfgs m i \<noteq> 0 \<longrightarrow> m < num (grp w (ownerOf cfgs m i)))"
  by (auto simp: passed_def less_Suc_eq)

lemma handoverD:
  assumes "inv_handover cfgs w"
  shows "\<lbrakk>i < NShards; ownerOf cfgs j i \<noteq> 0; j < num (grp w (ownerOf cfgs j i))\<rbrakk> \<Longrightarrow> passed cfgs w j i"
    "\<lbrakk>h \<noteq> 0; i < NShards; serves i (grp w h)\<rbrakk> \<Longrightarrow> passed cfgs w (num (grp w h)) i"
  using assms by (auto simp: inv_handover_def)

lemma passed_mono:
  assumes "passed cfgs w n i" "\<And>g. num (grp w g) \<le> num (grp w' g)"
  shows "passed cfgs w' n i"
  using assms unfolding passed_def by (meson less_le_trans)

lemma inv_pulled_mono:
  assumes "inv_pulled cfgs w" "\<And>g. num (grp w g) \<le> num (grp w' g)" "pulled w' = pulled w"
  shows "inv_pulled cfgs w'"
  using assms unfolding inv_pulled_def by (metis less_le_trans)

lemma groupOk_advances:
  assumes "groupOk cfgs g kv" "advances S kv kv'"
  shows "groupOk cfgs g kv'"
  using assms advances_num [OF assms(2)] advances_stable [OF assms(2)]
  unfolding groupOk_def advances_def by (metis ShardState.distinct insertE emptyE)

lemma moveTo_simps [simp]:
  "grp (moveTo g kv w) = (grp w)(g := kv)" "past (moveTo g kv w) = (past w)(g := insert kv (past w g))"
  "proposed (moveTo g kv w) = proposed w" "pulled (moveTo g kv w) = pulled w"
  by (simp_all add: moveTo_def)

lemma inv_proposed_moveTo: "inv_proposed cfgs w \<Longrightarrow> inv_proposed cfgs (moveTo g kv w)"
  by (fastforce simp: inv_proposed_def)

lemma migInv_advance:
  assumes inv: "migInv cfgs w" and adv: "advances S (grp w g) kv"
    and S: "\<And>i. i \<in> S \<Longrightarrow> i < NShards \<Longrightarrow> ownerOf cfgs (num (grp w g)) i = g \<Longrightarrow> passed cfgs w (num (grp w g)) i"
  shows "migInv cfgs (moveTo g kv w)"
proof -
  let ?w = "moveTo g kv w"
  have ok: "groupOk cfgs g (grp w g)" and past: "inv_past cfgs w"
    using inv by (auto simp: migInv_def inv_past_def)
  have len: "length (shards (grp w g)) = NShards" using ok by (simp add: groupOk_def)
  have num: "num (grp ?w h) = num (grp w h)" for h using advances_num [OF adv] by simp
  have pass: "passed cfgs ?w n i = passed cfgs w n i" for n i unfolding passed_def num ..
  have "inv_past cfgs ?w"
    using past groupOk_advances [OF ok adv] advances_stable [OF adv len] advances_num [OF adv]
    unfolding inv_past_def by auto
  moreover have "inv_proposed cfgs ?w" using inv inv_proposed_moveTo by (simp add: migInv_def)
  moreover have "inv_pulled cfgs ?w"
    using inv inv_pulled_mono [of cfgs w ?w] num by (simp add: migInv_def)
  moreover have "passed cfgs w (num (grp w g)) i" if srv: "g \<noteq> 0" "i < NShards" "serves i kv" for i
  proof -
    have own: "ownerOf cfgs (num (grp w g)) i = g"
      using srv(3) adv ok by (simp add: serves_def advances_def groupOk_def ownerOf_def)
    then have "State (shards (grp w g) ! i) \<noteq> BePulling" using ok srv(2) by (auto simp: groupOk_def)
    then consider "serves i (grp w g)" | "i \<in> S"
      using srv(2,3) adv len own ok unfolding advances_def serves_def groupOk_def ownerOf_def by fastforce
    then show ?thesis
    proof cases
      case 1
      then show ?thesis using inv srv(1,2) by (simp add: migInv_def inv_handover_def)
    next
      case 2
      then show ?thesis using S srv(2) own by blast
    qed
  qed
  then have "inv_handover cfgs ?w"
    using inv unfolding migInv_def inv_handover_def pass num by (auto simp: advances_num [OF adv])
  ultimately show ?thesis by (simp add: migInv_def)
qed


lemma applyConfig_effect:
  assumes "groupOk cfgs g kv" "allServing kv" "c = cfgs (Suc (num kv))" "goodConfigs cfgs"
  shows "num (applyConfig (configOp iid c) kv) = Suc (num kv)"
    "groupOk cfgs g (applyConfig (configOp iid c) kv)"
    "serves i (applyConfig (configOp iid c) kv) \<Longrightarrow> i < NShards \<Longrightarrow>
       serves i kv \<or> ownerOf cfgs (num kv) i = 0"
proof -
  let ?kv' = "applyConfig (configOp iid c) kv"
  have n: "Num (skv_config kv) = int (num kv)" "Num c = int (Suc (num kv))"
    using assms by (auto simp: groupOk_def goodConfigs_def)
  then have eq: "?kv' = kv\<lparr>lastConfig := skv_config kv, skv_config := c,
      shards := map (\<lambda>i. configShard (skv_gid kv) (Shards c ! i) (Shards (skv_config kv) ! i) (shards kv ! i))
        [0..<NShards]\<rparr>"
    by (simp add: applyConfig_def configOp_def Let_def)
  have "num ?kv' = nat (Num c)" by (simp add: eq num_def)
  then show num': "num ?kv' = Suc (num kv)" unfolding n(2) by simp
  have own: "Shards c ! i = ownerOf cfgs (Suc (num kv)) i" "Shards (skv_config kv) ! i = ownerOf cfgs (num kv) i" for i
    using assms(1,3) by (simp_all add: ownerOf_def groupOk_def)
  have st: "State (shards ?kv' ! i) = State (configShard g (ownerOf cfgs (Suc (num kv)) i) (ownerOf cfgs (num kv) i) (shards kv ! i))"
    if "i < NShards" for i
    using that assms(1) own by (simp add: eq groupOk_def)
  have serving: "State (shards kv ! i) = Serving" if "i < NShards" for i
    using assms(2) that by (simp add: allServing_def)
  have "State (shards ?kv' ! i) = BePulling \<longrightarrow> ownerOf cfgs (Suc (num kv)) i \<noteq> g" if "i < NShards" for i
    using st [OF that] serving [OF that] by (auto simp: configShard_def Let_def)
  moreover have "skv_gid ?kv' = skv_gid kv" "length (shards ?kv') = NShards" "skv_config ?kv' = c"
    "lastConfig ?kv' = skv_config kv"
    by (simp_all add: eq)
  ultimately show "groupOk cfgs g ?kv'"
    using assms(1,3) num' unfolding groupOk_def by simp
  show "serves i kv \<or> ownerOf cfgs (num kv) i = 0" if "serves i ?kv'" "i < NShards"
  proof -
    have "State (shards ?kv' ! i) = Serving \<or> State (shards ?kv' ! i) = GCing"
      "Shards c ! i = skv_gid kv"
      using that(1) unfolding serves_def by (simp_all add: eq)
    then show ?thesis
      using st [OF that(2)] serving [OF that(2)] own assms(1)
      by (auto simp: configShard_def Let_def serves_def groupOk_def split: if_splits)
  qed
qed

text \<open>A proposed configuration that fits the current one finds all shards of the group at rest.\<close>

lemma proposed_next:
  assumes inv: "migInv cfgs w" and good: "goodConfigs cfgs" and c: "(g, c) \<in> proposed w"
    and next': "Num c = Num (skv_config (grp w g)) + 1"
  shows "allServing (grp w g)" "c = cfgs (Suc (num (grp w g)))"
proof -
  have ok: "groupOk cfgs g (grp w g)" and past: "inv_past cfgs w" using inv by (auto simp: migInv_def inv_past_def)
  obtain p where p: "p \<in> past w g" "allServing p" "c = cfgs (Suc (num p))"
    using inv c by (auto simp: migInv_def inv_proposed_def)
  have "int (num (grp w g)) = Num (skv_config (grp w g))" using ok good by (simp add: groupOk_def goodConfigs_def)
  then have "num p = num (grp w g)" using p(3) next' good by (simp add: goodConfigs_def)
  then show "allServing (grp w g)" "c = cfgs (Suc (num (grp w g)))" using past p unfolding inv_past_def by auto
qed

lemma migInv_reconfigure:
  assumes inv: "migInv cfgs w" and good: "goodConfigs cfgs" and c: "(g, c) \<in> proposed w"
    and next': "Num c = Num (skv_config (grp w g)) + 1"
  shows "migInv cfgs (moveTo g (applyConfig (configOp iid c) (grp w g)) w)"
proof -
  let ?kv = "grp w g" and ?kv' = "applyConfig (configOp iid c) (grp w g)"
  let ?w = "moveTo g ?kv' w"
  have ok: "groupOk cfgs g ?kv" and past: "inv_past cfgs w" and hand: "inv_handover cfgs w"
    using inv by (auto simp: migInv_def inv_past_def)
  have st: "allServing ?kv" and cc: "c = cfgs (Suc (num ?kv))" using proposed_next [OF inv good c next'] by blast+
  note eff = applyConfig_effect [OF ok st cc good, where iid = iid]
  have mono: "num (grp w h) \<le> num (grp ?w h)" for h using eff(1) by simp
  have servesAll: "serves i ?kv" if "i < NShards" "ownerOf cfgs (num ?kv) i = g" for i
    using that st ok by (auto simp: serves_def allServing_def groupOk_def ownerOf_def)
  have "inv_past cfgs ?w"
  proof -
    have "num p \<noteq> Suc (num ?kv)" if "p \<in> past w g" for p
      using past that unfolding inv_past_def by (metis Suc_n_not_le_n)
    then show ?thesis using past eff(1,2) unfolding inv_past_def by (auto simp: le_Suc_eq)
  qed
  moreover have "inv_proposed cfgs ?w" using inv inv_proposed_moveTo by (simp add: migInv_def)
  moreover have "inv_pulled cfgs ?w" using inv inv_pulled_mono [of cfgs w ?w] mono by (simp add: migInv_def)
  moreover have "passed cfgs ?w j i"
    if "i < NShards" "ownerOf cfgs j i \<noteq> 0" "j < num (grp ?w (ownerOf cfgs j i))" for i j
  proof (cases "j < num (grp w (ownerOf cfgs j i))")
    case True
    show ?thesis by (rule passed_mono [OF handoverD(1) [OF hand that(1,2) True] mono])
  next
    case False
    then have j: "ownerOf cfgs j i = g" "j = num ?kv" using that(3) eff(1) by (auto split: if_splits)
    then have "serves i ?kv" using servesAll [OF that(1)] by simp
    then have "passed cfgs w (num ?kv) i" using handoverD(2) [OF hand _ that(1)] j that(2) by simp
    then show ?thesis using j(2) passed_mono [OF _ mono] by simp
  qed
  moreover have "passed cfgs ?w (num (grp ?w h)) i" if h: "h \<noteq> 0" "i < NShards" "serves i (grp ?w h)" for h i
  proof (cases "h = g")
    case False
    then have "passed cfgs w (num (grp w h)) i" using handoverD(2) [OF hand h(1,2)] h(3) by simp
    then show ?thesis using False passed_mono [OF _ mono] by simp
  next
    case True
    then have "serves i ?kv \<or> ownerOf cfgs (num ?kv) i = 0" using eff(3) h by simp
    then have "passed cfgs w (num ?kv) i"
    proof
      assume "serves i ?kv"
      then show ?thesis using handoverD(2) [OF hand h(1,2)] True by simp
    next
      assume "ownerOf cfgs (num ?kv) i = 0"
      then have "num ?kv = 0" using good h(2) by (auto simp: goodConfigs_def)
      then show ?thesis by (simp add: passed_def)
    qed
    then have "passed cfgs ?w (num ?kv) i" by (rule passed_mono [OF _ mono])
    moreover have "ownerOf cfgs (num ?kv) i \<noteq> 0 \<Longrightarrow> num ?kv < num (grp ?w (ownerOf cfgs (num ?kv) i))"
      using \<open>serves i ?kv \<or> ownerOf cfgs (num ?kv) i = 0\<close> ok eff(1)
      by (auto simp: serves_def groupOk_def ownerOf_def)
    ultimately show ?thesis using True eff(1) by (simp add: passed_Suc)
  qed
  ultimately show ?thesis unfolding migInv_def inv_handover_def by blast
qed

section \<open>What a pull fetches\<close>

lemma map_default_mem:
  "(h, ids) \<in> set (AList.map_default k [x] (\<lambda>is. is @ [x]) m) \<Longrightarrow>
   (h, ids) \<in> set m \<or> (h = k \<and> (ids = [x] \<or> (\<exists>ids0. (k, ids0) \<in> set m \<and> ids = ids0 @ [x])))"
  by (induction m) (auto split: if_splits)

lemma groupShards_mem:
  assumes "(h, ids) \<in> set (groupShards st i shs lc m)"
    and "\<And>h ids y. (h, ids) \<in> set m \<Longrightarrow> y \<in> set ids \<Longrightarrow> P h y"
    and "\<And>j. j < length shs \<Longrightarrow> State (shs ! j) = st \<Longrightarrow> P (Shards lc ! (i + j)) (int (i + j))"
    and "y \<in> set ids"
  shows "P h y"
  using assms
proof (induction shs arbitrary: i m)
  case (Cons s shs)
  let ?m = "if State s = st then AList.map_default (Shards lc ! i) [int i] (\<lambda>is. is @ [int i]) m else m"
  have "P h y" if "(h, ids) \<in> set ?m" "y \<in> set ids" for h ids y
    using that Cons.prems(2) Cons.prems(3) [of 0] map_default_mem [of h ids "Shards lc ! i" "int i" m]
    by (auto split: if_splits)
  moreover have "P (Shards lc ! (Suc i + j)) (int (Suc i + j))" if "j < length shs" "State (shs ! j) = st" for j
    using Cons.prems(3) [of "Suc j"] that by simp
  moreover have "(h, ids) \<in> set (groupShards st (Suc i) shs lc ?m)" using Cons.prems(1) by simp
  ultimately show ?case using Cons.IH [of "Suc i" ?m] Cons.prems(4) by blast
qed simp

lemma update_keys: "fst ` set (AList.update k v al) = insert k (fst ` set al)"
  by (induction al) auto

lemma collectShards_keys:
  "collectShards ids shs acc = Inr kvs \<Longrightarrow> fst ` set kvs \<subseteq> set ids \<union> fst ` set acc"
proof (induction ids shs acc rule: collectShards.induct)
  case (2 i ids shs acc)
  then obtain s where s: "go_index shs i = Inr s" by (auto split: sum.splits)
  have "collectShards ids shs (AList.update i (cloneKV s) acc) = Inr kvs"
    using "2.prems" by (simp only: collectShards.simps s sum.case)
  from "2.IH" [OF s this] show ?case by (auto simp: update_keys)
qed simp

lemma migInv_pull:
  assumes inv: "migInv cfgs w" and good: "goodConfigs cfgs"
    and q: "q \<in> past w g" "(h, ids) \<in> set (pullMap (at q rfq))" and p: "p \<in> past w h"
    and reply: "PullShard \<lparr>psa_ConfigNum = Num (skv_config q), psa_ShardIds = ids\<rparr> (at p rfp) = Inr reply"
      "psr_Err reply = OK"
  shows "migInv cfgs (w\<lparr>pulled := insert (g, Num (skv_config q), reply) (pulled w)\<rparr>)"
proof -
  have okq: "groupOk cfgs g q" and okp: "groupOk cfgs h p" "num p \<le> num (grp w h)"
    using inv q(1) p by (auto simp: migInv_def inv_past_def)
  have nq: "Num (skv_config q) = int (num q)" "Num (skv_config p) = int (num p)"
    using okq okp(1) good unfolding groupOk_def goodConfigs_def by metis+
  have le: "num q \<le> num p" and kvs: "collectShards ids (shards p) [] = Inr (psr_Shards reply)"
    using reply nq by (auto simp: PullShard_def pullRefused_def split: if_splits sum.splits)
  have "num q > 0 \<and> (\<exists>j < NShards. y = int j \<and> ownerOf cfgs (num q - 1) j = h)" if y: "y \<in> set ids" for y
  proof -
    have "(h, ids) \<in> set (groupShards Pulling 0 (shards q) (lastConfig q) [])"
      using q(2) by (auto simp: pullMap_def split: if_splits)
    then have "\<exists>j < length (shards q). State (shards q ! j) = Pulling \<and> y = int j \<and> Shards (lastConfig q) ! j = h"
      by (rule groupShards_mem [where P = "\<lambda>h y. \<exists>j < length (shards q). State (shards q ! j) = Pulling \<and> y = int j \<and> Shards (lastConfig q) ! j = h"])
        (use y in auto)
    then obtain j where j: "j < NShards" "State (shards q ! j) = Pulling" "y = int j" "Shards (lastConfig q) ! j = h"
      using okq by (auto simp: groupOk_def)
    then have "num q > 0" using okq by (fastforce simp: groupOk_def allServing_def)
    then show ?thesis using j okq by (auto simp: groupOk_def ownerOf_def)
  qed
  note ids = this
  have "\<exists>m. Num (skv_config q) = int (Suc m) \<and> m < num (grp w (ownerOf cfgs m i))"
    if "int i \<in> fst ` set (psr_Shards reply)" for i
  proof -
    have "int i \<in> set ids" using that collectShards_keys [OF kvs] by auto
    then have "num q > 0" "ownerOf cfgs (num q - 1) i = h" using ids [of "int i"] by auto
    then show ?thesis using nq(1) le okp(2) by (intro exI [of _ "num q - 1"]) auto
  qed
  note fetched = this
  let ?w = "w\<lparr>pulled := insert (g, Num (skv_config q), reply) (pulled w)\<rparr>"
  have "inv_pulled cfgs ?w"
    unfolding inv_pulled_def
  proof (intro allI impI)
    fix g' n' reply' i
    assume a: "(g', n', reply') \<in> pulled ?w \<and> int i \<in> fst ` set (psr_Shards reply')"
    show "\<exists>m. n' = int (Suc m) \<and> m < num (grp ?w (ownerOf cfgs m i))"
    proof (cases "(g', n', reply') \<in> pulled w")
      case True
      then show ?thesis using a inv unfolding migInv_def inv_pulled_def by simp
    qed (use a fetched in auto)
  qed
  moreover have "inv_past cfgs ?w = inv_past cfgs w" "inv_proposed cfgs ?w = inv_proposed cfgs w"
    "inv_handover cfgs ?w = inv_handover cfgs w"
    by (simp_all add: inv_past_def inv_proposed_def inv_handover_def passed_def)
  ultimately show ?thesis using inv by (simp add: migInv_def)
qed


section \<open>No shard is served twice\<close>

lemma migInv_madmin:
  assumes "madmin cfgs w w'" "migInv cfgs w" "goodConfigs cfgs"
  shows "migInv cfgs w'"
  using assms(1)
proof (cases rule: madmin.cases)
  case (propose p g rf n c)
  have ok: "groupOk cfgs g p" using assms(2) propose(2) by (auto simp: migInv_def inv_past_def)
  have n: "n = Num (skv_config p)" "list_all (\<lambda>s. State s = Serving) (shards p)"
    using propose(3) by (auto simp: pollCheck_def split: if_splits)
  then have "allServing p" using ok by (simp add: allServing_def groupOk_def list_all_length)
  moreover have "Num (skv_config p) = int (num p)"
    using ok assms(3) unfolding groupOk_def goodConfigs_def by metis
  then have "c = cfgs (Suc (num p))" using propose(4) n(1) by (simp add: nat_add_distrib)
  ultimately show ?thesis
    using assms(2) propose(1,2)
    unfolding migInv_def inv_past_def inv_proposed_def inv_pulled_def inv_handover_def passed_def by auto
next
  case (reconfigure g c iid kv r)
  have kv: "kv = applyConfig (configOp iid c) (grp w g)"
    using reconfigure(3) by (auto simp: applyCommand_def isKVOp_def configOp_def applyAdminOp_def)
  show ?thesis
  proof (cases "Num c = Num (skv_config (grp w g)) + 1")
    case True
    then show ?thesis using migInv_reconfigure [OF assms(2,3) reconfigure(2)] reconfigure(1) kv by simp
  next
    case False
    then have "kv = grp w g" using kv by (simp add: applyConfig_def configOp_def)
    then show ?thesis using migInv_advance [OF assms(2) advances_refl] reconfigure(1) by simp
  qed
next
  case (pull q g h ids rfq p rfp reply)
  then show ?thesis using migInv_pull [OF assms(2,3)] by blast
next
  case (install g n reply iid kv r)
  let ?S = "{i. int i \<in> fst ` set (psr_Shards reply) \<and> n = Num (skv_config (grp w g))}"
  have ok: "groupOk cfgs g (grp w g)" using assms(2) by (auto simp: migInv_def inv_past_def)
  have ng: "Num (skv_config (grp w g)) = int (num (grp w g))"
    using ok assms(3) unfolding groupOk_def goodConfigs_def by metis
  have "passed cfgs w (num (grp w g)) i" if i: "i \<in> ?S" "i < NShards" for i
  proof -
    obtain m where m: "n = int (Suc m)" "m < num (grp w (ownerOf cfgs m i))"
      using assms(2) install(2) i(1) unfolding migInv_def inv_pulled_def by blast
    then have "num (grp w g) = Suc m" using i(1) ng by simp
    moreover have "ownerOf cfgs m i \<noteq> 0 \<Longrightarrow> passed cfgs w m i"
      using assms(2) m(2) i(2) by (auto simp: migInv_def inv_handover_def)
    moreover have "ownerOf cfgs m i = 0 \<Longrightarrow> passed cfgs w m i"
      using assms(3) i(2) by (auto simp: goodConfigs_def passed_def)
    ultimately show ?thesis using m(2) by (auto simp: passed_Suc)
  qed
  then show ?thesis using migInv_advance [OF assms(2) advances_install [OF install(3)]] install(1) by simp
next
  case (collect g n ids iid kv r)
  then show ?thesis using migInv_advance [OF assms(2) advances_gc [OF collect(3)]] by simp
qed (use assms(2) in \<open>auto simp: migInv_def inv_past_def inv_proposed_def inv_pulled_def inv_handover_def passed_def\<close>)

lemma migInv_mstep:
  assumes "mstep cfgs w w'" "migInv cfgs w" "goodConfigs cfgs"
  shows "migInv cfgs w'"
  using assms(1)
proof (cases rule: mstep.cases)
  case (client op g kv r)
  then show ?thesis using migInv_advance [OF assms(2) advances_client [OF client(2,3)]] by simp
qed (rule migInv_madmin [OF _ assms(2,3)])

lemma mreach_migInv:
  assumes "mreach cfgs w" "goodConfigs cfgs"
  shows "migInv cfgs w"
  using assms(1)
proof (induction rule: mreach.induct)
  case start
  show ?case by (rule migInv_start [OF assms(2)])
qed (rule migInv_mstep [OF _ _ assms(2)])

text \<open>A group that serves a shard owns it in its configuration.\<close>

lemma serves_owner: "groupOk cfgs g kv \<Longrightarrow> serves i kv \<Longrightarrow> ownerOf cfgs (num kv) i = g"
  by (simp add: groupOk_def serves_def ownerOf_def)

lemma grp_groupOk: "migInv cfgs w \<Longrightarrow> groupOk cfgs g (grp w g)"
  by (auto simp: migInv_def inv_past_def)

lemma server_unique:
  assumes "migInv cfgs w" "i < NShards" "g \<noteq> 0" "h \<noteq> 0" "serves i (grp w g)" "serves i (grp w h)"
  shows "g = h"
proof -
  note own = serves_owner [OF grp_groupOk [OF assms(1)]]
  have less: "\<not> num (grp w x) < num (grp w y)"
    if "serves i (grp w x)" "serves i (grp w y)" "x \<noteq> 0" "y \<noteq> 0" for x y
  proof
    assume "num (grp w x) < num (grp w y)"
    moreover have "passed cfgs w (num (grp w y)) i"
      using assms(1,2) that(2,4) by (simp add: migInv_def inv_handover_def)
    ultimately have "num (grp w x) < num (grp w (ownerOf cfgs (num (grp w x)) i))"
      using own [OF that(1)] that(3) unfolding passed_def by metis
    then show False using own [OF that(1)] by simp
  qed
  have "num (grp w g) = num (grp w h)" using less [of g h] less [of h g] assms(3-6) by simp
  then show ?thesis using own [OF assms(5)] own [OF assms(6)] by metis
qed

text \<open>
  C7. In every reachable state of the groups, however their logs interleave and however late replies and
  commands arrive, at most one group serves a shard, provided that no configuration of the controller after the
  empty first one leaves a shard without an owner, and that every group acts as one state machine.
\<close>

theorem shard_served_once:
  assumes "mreach cfgs w" "goodConfigs cfgs" "i < NShards" "g \<noteq> 0" "h \<noteq> 0"
    and "serves i (grp w g)" "serves i (grp w h)"
  shows "g = h"
  using server_unique [OF mreach_migInv [OF assms(1,2)] assms(3-7)] .

section \<open>Runs\<close>

text \<open>A group whose shards are all stable can always take the next configuration.\<close>

lemma config_steps:
  assumes "grp w g \<in> past w g" "list_all (\<lambda>s. State s = Serving) (shards (grp w g))"
    and "Num (skv_config (grp w g)) = int n" "Num (cfgs (Suc n)) = int (Suc n)"
  shows "\<exists>w'. (madmin cfgs)\<^sup>*\<^sup>* w w' \<and> grp w' = (grp w)(g := applyConfig (configOp 0 (cfgs (Suc n))) (grp w g)) \<and>
    (\<forall>h. grp w h \<in> past w h \<longrightarrow> grp w' h \<in> past w' h)"
proof -
  let ?c = "cfgs (Suc n)"
  let ?w1 = "w\<lparr>proposed := insert (g, ?c) (proposed w)\<rparr>"
  obtain rf :: "(Op, skgob) raft" where rf: "state rf = StateLeader"
    by (metis raft.select_convs(5))
  have "pollCheck (at (grp w g) rf) = Some (int n)"
    using assms(2,3) rf by (simp add: pollCheck_def GetState_def)
  then have step1: "madmin cfgs w ?w1"
    using assms(1,4) by (intro propose [of _ _ _ rf "int n"]) (auto simp: nat_add_distrib)
  let ?kv = "applyConfig (configOp 0 ?c) (grp w g)"
  have "applyCommand (configOp 0 ?c) (grp ?w1 g) = Inr (?kv, (mkResult OK '''')\<lparr>kar_InternalId := 0\<rparr>)"
    by (simp add: applyCommand_def isKVOp_def configOp_def applyAdminOp_def)
  from reconfigure [OF _ this] have "madmin cfgs ?w1 (moveTo g ?kv ?w1)" by simp
  then have "(madmin cfgs)\<^sup>*\<^sup>* w (moveTo g ?kv ?w1)" using step1 by (meson converse_rtranclp_into_rtranclp r_into_rtranclp)
  then show ?thesis by (intro exI [of _ "moveTo g ?kv ?w1"]) simp
qed

lemma mreach_admin: "(madmin cfgs)\<^sup>*\<^sup>* w w' \<Longrightarrow> mreach cfgs w \<Longrightarrow> mreach cfgs w'"
  by (induction rule: rtranclp_induct) (blast intro: mreach.step admin)+

lemma config_run:
  assumes "mreach cfgs w" "grp w g \<in> past w g" "list_all (\<lambda>s. State s = Serving) (shards (grp w g))"
    and "Num (skv_config (grp w g)) = int n" "Num (cfgs (Suc n)) = int (Suc n)"
  shows "\<exists>w'. mreach cfgs w' \<and> grp w' = (grp w)(g := applyConfig (configOp 0 (cfgs (Suc n))) (grp w g)) \<and>
    (\<forall>h. grp w h \<in> past w h \<longrightarrow> grp w' h \<in> past w' h)"
  using config_steps [of w g n cfgs, OF assms(2-5)] mreach_admin [OF _ assms(1)] by blast

definition exCfg :: "int \<Rightarrow> nat \<Rightarrow> Config" where
  "exCfg g n = \<lparr>Num = int n, Shards = replicate NShards g, Groups = fmempty\<rparr>"

text \<open>What a configuration that gives all shards to one group does to another group or to itself.\<close>

lemma applyConfig_exCfg:
  assumes "skv_config kv = exCfg p n" "length (shards kv) = NShards" "list_all (\<lambda>s. State s = Serving) (shards kv)"
    and "skv_gid kv \<noteq> p" "g = skv_gid kv \<longrightarrow> p = 0"
  defines "kv' \<equiv> applyConfig (configOp 0 (exCfg g (Suc n))) kv"
  shows "skv_config kv' = exCfg g (Suc n)" "length (shards kv') = NShards" "skv_gid kv' = skv_gid kv"
    "list_all (\<lambda>s. State s = Serving) (shards kv')"
  using assms
  by (auto simp: kv'_def applyConfig_def configOp_def exCfg_def Let_def configShard_def list_all_length)

lemma exStart:
  "skv_config (grp minit g) = exCfg 0 0" "length (shards (grp minit g)) = NShards"
  "skv_gid (grp minit g) = g" "list_all (\<lambda>s. State s = Serving) (shards (grp minit g))"
  "grp minit g \<in> past minit g"
  by (auto simp: minit_def StartServer_def Let_def persister_defs emptyConfig_def exCfg_def newShard_def list_all_length)

lemma serves_exCfg:
  "skv_config kv = exCfg (skv_gid kv) n \<Longrightarrow> length (shards kv) = NShards \<Longrightarrow>
   list_all (\<lambda>s. State s = Serving) (shards kv) \<Longrightarrow> i < NShards \<Longrightarrow> serves i kv"
  by (auto simp: serves_def exCfg_def list_all_length)

theorem shard_served_once_witness:
  "\<exists>w. mreach (\<lambda>n. if n = 0 then emptyConfig else exCfg 1 n) w \<and> serves 0 (grp w 1) \<and> \<not> serves 0 (grp w 2)"
proof -
  let ?cfgs = "\<lambda>n. if n = 0 then emptyConfig else exCfg 1 n"
  have good: "goodConfigs ?cfgs"
    by (auto simp: goodConfigs_def ownerOf_def exCfg_def emptyConfig_def)
  obtain w where w: "mreach ?cfgs w" "grp w = (grp minit)(1 := applyConfig (configOp 0 (exCfg 1 1)) (grp minit 1))"
    using config_run [of ?cfgs minit 1 0, OF mreach.start exStart(5,4)] exStart(1) by (auto simp: exCfg_def)
  have n0: "0 < NShards" by (simp add: NShards_def)
  note c = applyConfig_exCfg [OF exStart(1,2,4), of 1 1]
  have s1: "serves 0 (grp w 1)"
    using c by (intro serves_exCfg [of _ 1]) (simp_all add: w(2) exStart(3) n0)
  then have "\<not> serves 0 (grp w 2)" using shard_served_once [OF w(1) good n0, of 1 2] by auto
  with w(1) s1 show ?thesis by blast
qed

definition exLeaveAll :: "nat \<Rightarrow> Config" where
  "exLeaveAll n = exCfg (if n = 0 then 0 else if n = 1 then 1 else if n = 2 then 0 else 2) n"

text \<open>
  Without that proviso two groups can serve a shard at once: if all groups leave, so that a
  configuration has no owner for the shard, and another group then joins, the new owner starts
  serving without asking the previous one, which may still be in the old configuration.
\<close>

lemma ownerless_config_serves_twice:
  "\<exists>w. mreach exLeaveAll w \<and> serves 0 (grp w 1) \<and> serves 0 (grp w 2)"
proof -
  have n0: "0 < NShards" by (simp add: NShards_def)
  have num: "Num (exCfg g n) = int n" for g n by (simp add: exCfg_def)
  have e: "exLeaveAll (Suc 0) = exCfg 1 (Suc 0)" "exLeaveAll (Suc (Suc 0)) = exCfg 0 (Suc (Suc 0))"
    "exLeaveAll (Suc (Suc (Suc 0))) = exCfg 2 (Suc (Suc (Suc 0)))"
    by (simp_all add: exLeaveAll_def)
  note g1 = applyConfig_exCfg [OF exStart(1,2,4), of 1 1]
  obtain w1 where w1: "mreach exLeaveAll w1" "grp w1 = (grp minit)(1 := applyConfig (configOp 0 (exCfg 1 (Suc 0))) (grp minit 1))"
    "\<And>h. grp w1 h \<in> past w1 h"
    using config_run [of exLeaveAll minit 1 0, OF mreach.start exStart(5,4)] exStart(1,5) by (auto simp: e num)
  have two: "grp w1 2 = grp minit 2" using w1(2) by simp
  note a = applyConfig_exCfg [OF exStart(1,2,4), of 2 1]
  obtain w2 where w2: "mreach exLeaveAll w2" "grp w2 = (grp w1)(2 := applyConfig (configOp 0 (exCfg 1 (Suc 0))) (grp minit 2))"
    "\<And>h. grp w2 h \<in> past w2 h"
    using config_run [of exLeaveAll w1 2 0, OF w1(1,3)] exStart(1,4) w1(3) by (auto simp: e num two)
  let ?b = "grp w2 2"
  have b: "skv_config ?b = exCfg 1 (Suc 0)" "length (shards ?b) = NShards" "skv_gid ?b = 2"
    "list_all (\<lambda>s. State s = Serving) (shards ?b)"
    using a by (simp_all add: w2(2) exStart(3))
  note c = applyConfig_exCfg [OF b(1,2,4), of 0]
  obtain w3 where w3: "mreach exLeaveAll w3" "grp w3 = (grp w2)(2 := applyConfig (configOp 0 (exCfg 0 (Suc (Suc 0)))) ?b)"
    "\<And>h. grp w3 h \<in> past w3 h"
    using config_run [of exLeaveAll w2 2 "Suc 0", OF w2(1,3) b(4)] b(1) w2(3) by (auto simp: e num)
  let ?d = "grp w3 2"
  have d: "skv_config ?d = exCfg 0 (Suc (Suc 0))" "length (shards ?d) = NShards" "skv_gid ?d = 2"
    "list_all (\<lambda>s. State s = Serving) (shards ?d)"
    using c b(3) by (simp_all add: w3(2))
  note f = applyConfig_exCfg [OF d(1,2,4), of 2]
  obtain w4 where w4: "mreach exLeaveAll w4" "grp w4 = (grp w3)(2 := applyConfig (configOp 0 (exCfg 2 (Suc (Suc (Suc 0))))) ?d)"
    using config_run [of exLeaveAll w3 2 "Suc (Suc 0)", OF w3(1,3) d(4)] d(1) by (auto simp: e num)
  have "serves 0 (grp w4 1)"
    using g1 by (intro serves_exCfg [of _ "Suc 0"]) (simp_all add: w4(2) w3(2) w2(2) w1(2) exStart(3) n0)
  moreover have "serves 0 (grp w4 2)"
    using f d(3) by (intro serves_exCfg [of _ "Suc (Suc (Suc 0))"]) (simp_all add: w4(2) n0)
  ultimately show ?thesis using w4(1) by blast
qed

end
