(* ===== verification/ShardKV_Contents.thy ===== *)
theory ShardKV_Contents
  imports ShardKV_Migration
begin

text \<open>
  What the shards contain while they move. A history records, over a whole run of all replica groups, the writes that
  were executed, by whichever group. A group that serves a shard holds exactly what the sequential model makes of all the
  writes ever executed on that shard, wherever the shard has been since; and no write is executed twice.
\<close>

section \<open>The history of a run\<close>

definition executes :: "Op \<Rightarrow> ShardKV \<Rightarrow> bool" where
  "executes op kv \<longleftrightarrow> serves (key2shard (kop_Key op)) kv \<and> skvWrite op \<and> newer (skvSeq kv) (kop_ClientId op) (kop_SeqId op)"

inductive mhist :: "(nat \<Rightarrow> Config) \<Rightarrow> msys \<Rightarrow> Op list \<Rightarrow> bool" for cfgs where
  h_start: "mhist cfgs minit []"
| h_client: "\<lbrakk>mhist cfgs w H; isKVOp op; applyCommand op (grp w g) = Inr (kv, r)\<rbrakk> \<Longrightarrow>
    mhist cfgs (moveTo g kv w) (if g \<noteq> 0 \<and> executes op (grp w g) then H @ [op] else H)"
| h_admin: "\<lbrakk>mhist cfgs w H; madmin cfgs w w'\<rbrakk> \<Longrightarrow> mhist cfgs w' H"

lemma mhist_mreach: "mhist cfgs w H \<Longrightarrow> mreach cfgs w"
  by (induction rule: mhist.induct) (blast intro: mreach.intros mstep.intros)+

lemma mreach_mhist: "mreach cfgs w \<Longrightarrow> \<exists>H. mhist cfgs w H"
proof (induction rule: mreach.induct)
  case (step w w')
  from step.hyps(2) step.IH show ?case by (cases rule: mstep.cases) (blast intro: mhist.intros)+
qed (blast intro: h_start)

text \<open>The value that the sequential model has for a key after the writes of a history.\<close>

definition stepWrite :: "Op \<Rightarrow> string \<Rightarrow> string" where
  "stepWrite op v = snd (KvStep v (skvInput op) \<lparr>ko_Value = ''''\<rparr>)"

definition replay :: "string \<Rightarrow> Op list \<Rightarrow> string" where
  "replay k H = fold stepWrite (filter (\<lambda>op. kop_Key op = k) H) ''''"

lemma replay_snoc: "replay k (H @ [op]) = (if kop_Key op = k then stepWrite op (replay k H) else replay k H)"
  by (simp add: replay_def)

definition seqOf :: "(int \<rightharpoonup> DupEntry) \<Rightarrow> int \<rightharpoonup> int" where
  "seqOf t c = map_option de_SeqId (t c)"

definition valueIn :: "(string \<rightharpoonup> string) \<Rightarrow> string \<Rightarrow> string" where
  "valueIn m k = (case m k of None \<Rightarrow> '''' | Some v \<Rightarrow> v)"

text \<open>A copy of a shard, with a duplicate table, that has all writes of the history on the shard.\<close>

definition keeps :: "Op list \<Rightarrow> nat \<Rightarrow> (string \<rightharpoonup> string) \<Rightarrow> (int \<rightharpoonup> DupEntry) \<Rightarrow> bool" where
  "keeps H i m t \<longleftrightarrow> (\<forall>k. key2shard k = i \<longrightarrow> valueIn m k = replay k H) \<and>
     (\<forall>op \<in> set H. key2shard (kop_Key op) = i \<longrightarrow> \<not> newer (seqOf t) (kop_ClientId op) (kop_SeqId op))"

abbreviation keepsAt :: "Op list \<Rightarrow> nat \<Rightarrow> ShardKV \<Rightarrow> bool" where
  "keepsAt H i p \<equiv> keeps H i (KV (shards p ! i)) (skv_dupTable p)"

lemma skvSeq_seqOf: "skvSeq kv = seqOf (skv_dupTable kv)"
  by (simp add: fun_eq_iff skvSeq_def seqOf_def)

lemma keeps_other: "key2shard (kop_Key op) \<noteq> i \<Longrightarrow> keeps (H @ [op]) i m t \<longleftrightarrow> keeps H i m t"
  by (auto simp: keeps_def replay_snoc)

lemma keeps_table:
  assumes "keeps H i m t" "\<And>c n. \<not> newer (seqOf t) c n \<Longrightarrow> \<not> newer (seqOf t') c n"
  shows "keeps H i m t'"
  using assms unfolding keeps_def by blast

lemma newer_merge:
  "\<not> newer (seqOf t) c n \<Longrightarrow> \<not> newer (seqOf (mergeDup inc t)) c n"
  "\<not> newer (seqOf inc) c n \<Longrightarrow> \<not> newer (seqOf (mergeDup inc t)) c n"
  by (auto simp: newer_def seqOf_def mergeDup_def split: option.splits if_splits)

section \<open>What the commands do to the contents\<close>

text \<open>A client command that is not executed leaves the group as it is.\<close>

lemma client_idle:
  assumes "isKVOp op" "applyCommand op kv = Inr (kv', r)" "\<not> executes op kv"
  shows "kv' = kv"
proof -
  have "kv' = fst (applyClientOp op kv)" using assms by (auto simp: applyCommand_def split_beta)
  moreover have "fst (applyKVOp op kv) = kv" if "kop_Type op = ''Get''"
    using that by (simp add: applyKVOp_def Let_def split: option.split)
  ultimately show ?thesis using assms(1,3) applyClientOp_stale [of op kv]
    by (auto simp: executes_def applyClientOp_def [of op kv] isKVOp_def)
qed

lemma executes_effect:
  assumes "executes op kv" "applyCommand op kv = Inr (kv', r)" "length (shards kv) = NShards"
  defines "i \<equiv> key2shard (kop_Key op)"
  shows "shards kv' = (shards kv)[i := (shards kv ! i)\<lparr>KV := (KV (shards kv ! i))(kop_Key op \<mapsto> stepWrite op (valueIn (KV (shards kv ! i)) (kop_Key op)))\<rparr>]"
    "\<exists>e. skv_dupTable kv' = (skv_dupTable kv)(kop_ClientId op \<mapsto> e) \<and> de_SeqId e = kop_SeqId op"
proof -
  have op: "isKVOp op" "kop_Type op \<noteq> ''Get''" "skvWrite op" using assms(1) by (auto simp: executes_def isKVOp_def)
  have kv': "kv' = fst (applyClientOp op kv)" using assms(2) op by (auto simp: applyCommand_def split_beta)
  have eq: "applyClientOp op kv = (case applyKVOp op kv of (kv1, r) \<Rightarrow>
      (kv1\<lparr>skv_dupTable := (skv_dupTable kv1)(kop_ClientId op \<mapsto> \<lparr>de_SeqId = kop_SeqId op, de_Err = kar_Err r, de_Value = kar_Value r\<rparr>)\<rparr>, r))"
    using assms(1) op(2) by (auto simp: executes_def applyClientOp_def newer_def skvSeq_def Let_def split: option.splits)
  show "\<exists>e. skv_dupTable kv' = (skv_dupTable kv)(kop_ClientId op \<mapsto> e) \<and> de_SeqId e = kop_SeqId op"
    unfolding kv' eq by (intro exI [of _ "\<lparr>de_SeqId = kop_SeqId op, de_Err = kar_Err (snd (applyKVOp op kv)),
      de_Value = kar_Value (snd (applyKVOp op kv))\<rparr>"]) (simp add: split_beta)
  show "shards kv' = (shards kv)[i := (shards kv ! i)\<lparr>KV := (KV (shards kv ! i))(kop_Key op \<mapsto> stepWrite op (valueIn (KV (shards kv ! i)) (kop_Key op)))\<rparr>]"
    unfolding kv' eq using op(3)
    by (auto simp: split_beta applyKVOp_def setKey_def i_def stepWrite_def KvStep_def skvInput_def valueIn_def Let_def split: option.split)
qed

lemma executes_keeps:
  assumes "executes op kv" "applyCommand op kv = Inr (kv', r)" "length (shards kv) = NShards" "i < NShards"
  shows "keepsAt H i kv \<Longrightarrow> keepsAt (H @ [op]) i kv'"
    "State (shards kv' ! i) = State (shards kv ! i)"
proof -
  note eff = executes_effect [OF assms(1-3)]
  obtain e where e: "skv_dupTable kv' = (skv_dupTable kv)(kop_ClientId op \<mapsto> e)" "de_SeqId e = kop_SeqId op" using eff(2) by blast
  have new: "newer (seqOf (skv_dupTable kv)) (kop_ClientId op) (kop_SeqId op)" using assms(1) by (simp add: executes_def skvSeq_seqOf)
  have mono: "\<not> newer (seqOf (skv_dupTable kv')) c n" if "\<not> newer (seqOf (skv_dupTable kv)) c n" for c n
    using that new e by (auto simp: newer_def seqOf_def split: option.splits)
  show "State (shards kv' ! i) = State (shards kv ! i)" using assms(3,4) by (cases "i = key2shard (kop_Key op)") (simp_all add: eff(1))
  assume k: "keepsAt H i kv"
  show "keepsAt (H @ [op]) i kv'"
  proof (cases "key2shard (kop_Key op) = i")
    case False
    then have "KV (shards kv' ! i) = KV (shards kv ! i)" by (simp add: eff(1))
    then show ?thesis using keeps_other [OF False] keeps_table [OF k mono] by simp
  next
    case True
    then have kv: "KV (shards kv' ! i) = (KV (shards kv ! i))(kop_Key op \<mapsto> stepWrite op (valueIn (KV (shards kv ! i)) (kop_Key op)))"
      using assms(3,4) by (simp add: eff(1))
    have "valueIn (KV (shards kv' ! i)) x = replay x (H @ [op])" if "key2shard x = i" for x
      using k that unfolding kv keeps_def replay_snoc by (auto simp: valueIn_def)
    moreover have "\<not> newer (seqOf (skv_dupTable kv')) (kop_ClientId op) (kop_SeqId op)" using e by (simp add: newer_def seqOf_def)
    ultimately show ?thesis using k mono unfolding keeps_def by auto
  qed
qed

lemma installShards_data:
  assumes "installShards kvs shs = Inr shs'" "i < length shs"
  shows "shs' ! i = shs ! i \<or> (State (shs ! i) = Pulling \<and> State (shs' ! i) = GCing \<and> (int i, KV (shs' ! i)) \<in> set kvs)"
  using assms
proof (induction kvs shs rule: installShards.induct)
  case (2 j kvData rest shs)
  then obtain s where s: "go_index shs j = Inr s" by (auto split: sum.splits)
  let ?shs = "if State s = Pulling then shs[nat j := \<lparr>State = GCing, KV = kvData\<rparr>] else shs"
  have inst: "installShards rest ?shs = Inr shs'" using 2 s by simp
  have "shs' ! i = ?shs ! i \<or> (State (?shs ! i) = Pulling \<and> State (shs' ! i) = GCing \<and> (int i, KV (shs' ! i)) \<in> set rest)"
    using "2.IH" [OF s inst] "2.prems"(2) by (simp split: if_splits)
  moreover have "?shs ! i = shs ! i \<or> (State (shs ! i) = Pulling \<and> ?shs ! i = \<lparr>State = GCing, KV = kvData\<rparr> \<and> int i = j)"
    using s "2.prems"(2) by (cases "i = nat j") auto
  ultimately show ?case by auto
qed simp

lemma gcShards_data:
  assumes "gcShards cur gcNum ids shs = Inr shs'" "i < length shs"
  shows "shs' ! i = shs ! i \<or> (cur = gcNum \<and> int i \<in> set ids \<and>
     (State (shs ! i) = BePulling \<and> State (shs' ! i) = Serving \<or>
      State (shs ! i) = GCing \<and> shs' ! i = (shs ! i)\<lparr>State := Serving\<rparr>))"
  using assms
proof (induction cur gcNum ids shs rule: gcShards.induct)
  case (2 cur gcNum j ids shs)
  then obtain s where s: "go_index shs j = Inr s" by (auto split: sum.splits)
  let ?shs = "case State s of
             BePulling \<Rightarrow> (if cur = gcNum then shs[nat j := \<lparr>State = Serving, KV = Map.empty\<rparr>] else shs)
           | GCing \<Rightarrow> (if cur = gcNum then shs[nat j := s\<lparr>State := Serving\<rparr>] else shs)
           | _ \<Rightarrow> shs"
  have gc: "gcShards cur gcNum ids ?shs = Inr shs'" and len: "length ?shs = length shs" using 2 s by (simp_all split: ShardState.split)
  have IH: "shs' ! i = ?shs ! i \<or> (cur = gcNum \<and> int i \<in> set ids \<and>
     (State (?shs ! i) = BePulling \<and> State (shs' ! i) = Serving \<or> State (?shs ! i) = GCing \<and> shs' ! i = (?shs ! i)\<lparr>State := Serving\<rparr>))"
    using "2.IH" [OF s gc] "2.prems"(2) len by simp
  have "?shs ! i = shs ! i \<or> (cur = gcNum \<and> int i = j \<and> State (?shs ! i) = Serving \<and>
      (State (shs ! i) = BePulling \<or> State (shs ! i) = GCing \<and> ?shs ! i = (shs ! i)\<lparr>State := Serving\<rparr>))"
    using s "2.prems"(2) by (cases "i = nat j") (auto split: ShardState.split)
  then show ?case using IH by auto
qed simp

lemma collectShards_data:
  assumes "collectShards ids shs acc = Inr kvs" "(int i, m) \<in> set kvs"
  shows "(int i, m) \<in> set acc \<or> m = KV (shs ! i)"
  using assms
proof (induction ids shs acc rule: collectShards.induct)
  case (2 j ids shs acc)
  then obtain s where s: "go_index shs j = Inr s" by (auto split: sum.splits)
  have c: "collectShards ids shs (AList.update j (cloneKV s) acc) = Inr kvs"
    using "2.prems" by (simp only: collectShards.simps s sum.case)
  have clone: "cloneKV s = KV s" by (auto simp: cloneKV_def fun_eq_iff split: option.split)
  have "(x, y) \<in> set (AList.update j (cloneKV s) acc) \<Longrightarrow> (x, y) \<in> set acc \<or> x = j \<and> y = cloneKV s" for x y
    by (induction acc) (auto split: if_splits)
  then have "(int i, m) \<in> set acc \<or> int i = j \<and> m = KV s" if "(int i, m) \<in> set (AList.update j (cloneKV s) acc)"
    using that unfolding clone by blast
  then show ?case using "2.IH" [OF s c "2.prems"(2)] s by auto
qed simp

section \<open>The invariant\<close>

text \<open>
  \<^verbatim>\<open>installed n i\<close>: the owner of shard \<^verbatim>\<open>i\<close> in configuration \<^verbatim>\<open>n\<close> has been, in that configuration, past the state \<^verbatim>\<open>Pulling\<close>.
\<close>

definition installed :: "(nat \<Rightarrow> Config) \<Rightarrow> nat \<Rightarrow> nat \<Rightarrow> msys \<Rightarrow> bool" where
  "installed cfgs n i w \<longleftrightarrow>
     (\<exists>p \<in> past w (ownerOf cfgs n i). n < num p \<or> num p = n \<and> State (shards p ! i) \<noteq> Pulling)"

definition stateOk :: "(nat \<Rightarrow> Config) \<Rightarrow> int \<Rightarrow> ShardKV \<Rightarrow> bool" where
  "stateOk cfgs g p \<longleftrightarrow> (\<forall>i < NShards.
     (State (shards p ! i) = Pulling \<or> State (shards p ! i) = GCing \<longrightarrow>
        0 < num p \<and> ownerOf cfgs (num p) i = g \<and> ownerOf cfgs (num p - 1) i \<noteq> g \<and> ownerOf cfgs (num p - 1) i \<noteq> 0) \<and>
     (State (shards p ! i) = BePulling \<longrightarrow> 0 < num p \<and> ownerOf cfgs (num p - 1) i = g))"

text \<open>The states of the groups: nothing is stored before the first configuration, and a shard that left \<^verbatim>\<open>Pulling\<close> does not return to it.\<close>

definition inv_states :: "(nat \<Rightarrow> Config) \<Rightarrow> msys \<Rightarrow> bool" where
  "inv_states cfgs w \<longleftrightarrow> (\<forall>g. \<forall>p \<in> past w g. stateOk cfgs g p \<and>
     (g \<noteq> 0 \<and> num p = 0 \<longrightarrow> (\<forall>i < NShards. KV (shards p ! i) = Map.empty)) \<and>
     (\<forall>i < NShards. num p = num (grp w g) \<and> State (shards (grp w g) ! i) = Pulling \<longrightarrow> State (shards p ! i) = Pulling))"

text \<open>The copies that matter: served ones, those waiting to be fetched, and those fetched and not yet installed.\<close>

definition inv_served :: "Op list \<Rightarrow> msys \<Rightarrow> bool" where
  "inv_served H w \<longleftrightarrow> (\<forall>g i. g \<noteq> 0 \<and> i < NShards \<and> serves i (grp w g) \<longrightarrow> keepsAt H i (grp w g))"

definition inv_waiting :: "(nat \<Rightarrow> Config) \<Rightarrow> Op list \<Rightarrow> msys \<Rightarrow> bool" where
  "inv_waiting cfgs H w \<longleftrightarrow> (\<forall>g i. \<forall>p \<in> past w g. g \<noteq> 0 \<and> i < NShards \<and> State (shards p ! i) = BePulling \<and>
     \<not> installed cfgs (num p) i w \<longrightarrow> keepsAt H i p)"

definition inv_fetched :: "Op list \<Rightarrow> msys \<Rightarrow> bool" where
  "inv_fetched H w \<longleftrightarrow>
     (\<forall>g n reply. (g, n, reply) \<in> pulled w \<longrightarrow> (\<exists>q \<in> past w g. n = int (num q))) \<and>
     (\<forall>g reply i m. g \<noteq> 0 \<and> (g, int (num (grp w g)), reply) \<in> pulled w \<and> (int i, m) \<in> set (psr_Shards reply) \<and> i < NShards \<and>
        State (shards (grp w g) ! i) = Pulling \<longrightarrow> keeps H i m (psr_DupTable reply))"

text \<open>A copy is given up only when the next owner has it.\<close>

definition inv_released :: "(nat \<Rightarrow> Config) \<Rightarrow> msys \<Rightarrow> bool" where
  "inv_released cfgs w \<longleftrightarrow>
     (\<forall>h i n. \<forall>p \<in> past w h. h \<noteq> 0 \<and> i < NShards \<and> 0 < n \<and> ownerOf cfgs (n - 1) i = h \<and> ownerOf cfgs n i \<noteq> h \<and>
        (n < num p \<or> num p = n \<and> State (shards p ! i) \<noteq> BePulling) \<longrightarrow> installed cfgs n i w) \<and>
     (\<forall>h n ids i. (h, int n, ids) \<in> gcCmds w \<and> int i \<in> set ids \<longrightarrow> installed cfgs n i w)"

definition inv_history :: "(nat \<Rightarrow> Config) \<Rightarrow> Op list \<Rightarrow> msys \<Rightarrow> bool" where
  "inv_history cfgs H w \<longleftrightarrow> (\<forall>op \<in> set H. installed cfgs 1 (key2shard (kop_Key op)) w)"

definition contentsInv :: "(nat \<Rightarrow> Config) \<Rightarrow> Op list \<Rightarrow> msys \<Rightarrow> bool" where
  "contentsInv cfgs H w \<longleftrightarrow> inv_states cfgs w \<and> inv_served H w \<and> inv_waiting cfgs H w \<and> inv_fetched H w \<and>
     inv_released cfgs w \<and> inv_history cfgs H w"

lemma contentsInvD:
  assumes "contentsInv cfgs H w"
  shows "inv_states cfgs w" "inv_served H w" "inv_waiting cfgs H w" "inv_fetched H w" "inv_released cfgs w" "inv_history cfgs H w"
  using assms by (simp_all add: contentsInv_def)

lemma installed_mono: "installed cfgs n i w \<Longrightarrow> (\<And>g. past w g \<subseteq> past w' g) \<Longrightarrow> installed cfgs n i w'"
  unfolding installed_def by blast

lemma installed_moveTo: "installed cfgs n i w \<Longrightarrow> installed cfgs n i (moveTo g kv w)"
  by (rule installed_mono) auto

lemma inv_waitingD:
  "\<lbrakk>inv_waiting cfgs H w; p \<in> past w g; g \<noteq> 0; i < NShards; State (shards p ! i) = BePulling; \<not> installed cfgs (num p) i w\<rbrakk> \<Longrightarrow>
   keepsAt H i p"
  unfolding inv_waiting_def by blast

lemma inv_emptyD:
  "\<lbrakk>inv_states cfgs w; p \<in> past w g; g \<noteq> 0; num p = 0; i < NShards\<rbrakk> \<Longrightarrow> KV (shards p ! i) = Map.empty"
  unfolding inv_states_def by blast

lemma inv_releasedD:
  "\<lbrakk>inv_released cfgs w; p \<in> past w h; h \<noteq> 0; i < NShards; 0 < n; ownerOf cfgs (n - 1) i = h; ownerOf cfgs n i \<noteq> h;
    n < num p \<or> num p = n \<and> State (shards p ! i) \<noteq> BePulling\<rbrakk> \<Longrightarrow> installed cfgs n i w"
  unfolding inv_released_def by blast

lemma owner_zero: "goodConfigs cfgs \<Longrightarrow> i < NShards \<Longrightarrow> ownerOf cfgs 0 i = 0"
  by (simp add: goodConfigs_def ownerOf_def emptyConfig_def)

lemma not_installed:
  assumes "inv_past cfgs w" "inv_states cfgs w" "i < NShards" "ownerOf cfgs (num (grp w g)) i = g" "State (shards (grp w g) ! i) = Pulling"
  shows "\<not> installed cfgs (num (grp w g)) i w"
  using assms unfolding installed_def inv_past_def inv_states_def by (metis leD)

lemma passed_installed:
  assumes "inv_past cfgs w" "passed cfgs w n i" "j < n" "ownerOf cfgs j i \<noteq> 0"
  shows "installed cfgs j i w"
  using assms unfolding passed_def installed_def inv_past_def by blast

text \<open>When the owner of a configuration is past it, so is every earlier owner; none of them is at its own configuration.\<close>

lemma no_later_owner:
  assumes "inv_handover cfgs w" "goodConfigs cfgs" "g \<noteq> 0" "i < NShards" "ownerOf cfgs (num (grp w g)) i = g"
    and n: "n - 1 < num (grp w (ownerOf cfgs (n - 1) i))"
  shows "\<not> num (grp w g) < n"
proof
  assume lt: "num (grp w g) < n"
  show False
  proof (cases "num (grp w g) = n - 1")
    case True
    then show False using n assms(5) by simp
  next
    case False
    then have less: "num (grp w g) < n - 1" using lt by simp
    then have "ownerOf cfgs (n - 1) i \<noteq> 0" using assms(2,4) unfolding goodConfigs_def by (metis less_nat_zero_code gr0I)
    from handoverD(1) [OF assms(1,4) this n] have "num (grp w g) < num (grp w (ownerOf cfgs (num (grp w g)) i))"
      using less assms(3,5) unfolding passed_def by metis
    then show False using assms(5) by simp
  qed
qed

text \<open>
  When a group serves a shard, there is no other copy that matters.
\<close>

lemma only_copy:
  assumes "migInv cfgs w" "contentsInv cfgs H w" "goodConfigs cfgs" "g \<noteq> 0" "i < NShards" "serves i (grp w g)"
  shows "h \<noteq> 0 \<Longrightarrow> p \<in> past w h \<Longrightarrow> State (shards p ! i) = BePulling \<Longrightarrow> installed cfgs (num p) i w"
    "h \<noteq> 0 \<Longrightarrow> (h, int (num (grp w h)), reply) \<in> pulled w \<Longrightarrow> int i \<in> fst ` set (psr_Shards reply) \<Longrightarrow>
       State (shards (grp w h) ! i) \<noteq> Pulling"
    "installed cfgs 1 i w"
proof -
  have past: "inv_past cfgs w" and hand: "inv_handover cfgs w" and pull: "inv_pulled cfgs w" using assms(1) by (auto simp: migInv_def)
  have own: "ownerOf cfgs (num (grp w g)) i = g" by (rule serves_owner [OF grp_groupOk [OF assms(1)] assms(6)])
  have pass: "passed cfgs w (num (grp w g)) i" by (rule handoverD(2) [OF hand assms(4,5,6)])
  have here: "installed cfgs (num (grp w g)) i w"
    using past assms(6) own unfolding installed_def inv_past_def serves_def by force
  have ne0: "ownerOf cfgs n i \<noteq> 0" if "0 < n" for n using assms(3,5) that by (simp add: goodConfigs_def)
  have pos: "0 < num (grp w g)" using own owner_zero [OF assms(3,5)] assms(4) by (metis gr0I)
  have upto: "installed cfgs n i w" if "0 < n" "n \<le> num (grp w g)" for n
    using that here passed_installed [OF past pass _ ne0] by (cases "n = num (grp w g)") auto
  show "installed cfgs 1 i w" using upto pos by simp
  note late = no_later_owner [OF hand assms(3,4,5) own]
  show "installed cfgs (num p) i w" if "h \<noteq> 0" and p: "p \<in> past w h" "State (shards p ! i) = BePulling"
  proof -
    have "0 < num p" "ownerOf cfgs (num p - 1) i = h" using contentsInvD(1) [OF assms(2)] p assms(5)
      by (auto simp: inv_states_def stateOk_def)
    moreover have "num p \<le> num (grp w h)" using past p(1) by (simp add: inv_past_def)
    ultimately have "0 < num p" "num p - 1 < num (grp w (ownerOf cfgs (num p - 1) i))" by auto
    then show ?thesis using late [of "num p"] upto [of "num p"] by linarith
  qed
  show "State (shards (grp w h) ! i) \<noteq> Pulling"
    if h: "h \<noteq> 0" "(h, int (num (grp w h)), reply) \<in> pulled w" "int i \<in> fst ` set (psr_Shards reply)"
  proof
    assume st: "State (shards (grp w h) ! i) = Pulling"
    have "grp w h \<in> past w h" using past by (simp add: inv_past_def)
    then have oh: "0 < num (grp w h)" "ownerOf cfgs (num (grp w h)) i = h" using contentsInvD(1) [OF assms(2)] st assms(5)
      by (auto simp: inv_states_def stateOk_def)
    obtain m where m: "int (num (grp w h)) = int (Suc m)" "m < num (grp w (ownerOf cfgs m i))"
      using pull h(2,3) unfolding inv_pulled_def by blast
    then have "num (grp w h) = Suc m" by linarith
    then have "\<not> num (grp w g) < num (grp w h)" using late [of "num (grp w h)"] m(2) by simp
    then have "installed cfgs (num (grp w h)) i w" using upto oh(1) by simp
    then show False using not_installed [OF past contentsInvD(1) [OF assms(2)] assms(5) oh(2) st] by blast
  qed
qed

section \<open>Preservation\<close>

lemma stateOk_advances:
  assumes "stateOk cfgs g kv" "advances S kv kv'" "length (shards kv) = NShards"
  shows "stateOk cfgs g kv'"
proof -
  have n: "num kv' = num kv" by (rule advances_num [OF assms(2)])
  have "State (shards kv' ! i) = State (shards kv ! i) \<or> State (shards kv ! i) = Pulling \<and> State (shards kv' ! i) = GCing \<or>
      State (shards kv' ! i) = Serving" if "i < NShards" for i
    using assms(2,3) that unfolding advances_def by force
  then show ?thesis using assms(1) unfolding stateOk_def n by (metis ShardState.distinct)
qed

text \<open>
  A command of group \<^verbatim>\<open>g\<close>. \<^verbatim>\<open>X\<close> are the shards, served by the group, that a write of the command touches; the history grows
  from \<^verbatim>\<open>H\<close> to \<^verbatim>\<open>H'\<close> by writes on them.
\<close>

definition histGrows :: "nat set \<Rightarrow> Op list \<Rightarrow> Op list \<Rightarrow> int \<Rightarrow> msys \<Rightarrow> bool" where
  "histGrows X H H' g w \<longleftrightarrow> (\<forall>i \<in> X. g \<noteq> 0 \<and> i < NShards \<and> serves i (grp w g)) \<and>
     (\<forall>i m t. i \<notin> X \<longrightarrow> keeps H i m t \<longrightarrow> keeps H' i m t) \<and> (\<forall>op \<in> set H'. op \<in> set H \<or> key2shard (kop_Key op) \<in> X)"

lemma histGrowsD:
  assumes "histGrows X H H' g w"
  shows "i \<in> X \<Longrightarrow> g \<noteq> 0 \<and> i < NShards \<and> serves i (grp w g)" "i \<notin> X \<Longrightarrow> keeps H i m t \<Longrightarrow> keeps H' i m t"
    "op \<in> set H' \<Longrightarrow> op \<in> set H \<or> key2shard (kop_Key op) \<in> X"
  using assms unfolding histGrows_def by blast+

lemma histGrows_refl: "histGrows {} H H g w"
  by (simp add: histGrows_def)

lemma served_moveTo:
  assumes "migInv cfgs w" "inv_served H w" "histGrows X H H' g w"
    and "\<And>i. g \<noteq> 0 \<Longrightarrow> i < NShards \<Longrightarrow> serves i kv \<Longrightarrow> keepsAt H' i kv"
  shows "inv_served H' (moveTo g kv w)"
  unfolding inv_served_def
proof (intro allI impI)
  fix h i assume h: "h \<noteq> 0 \<and> i < NShards \<and> serves i (grp (moveTo g kv w) h)"
  show "keepsAt H' i (grp (moveTo g kv w) h)"
  proof (cases "h = g")
    case False
    then have "i \<notin> X" using server_unique [OF assms(1), of i g h] histGrowsD(1) [OF assms(3), of i] h by auto
    then show ?thesis using histGrowsD(2) [OF assms(3)] assms(2) h False by (simp add: inv_served_def)
  qed (use h assms(4) in auto)
qed

lemma waiting_moveTo:
  assumes "migInv cfgs w" "contentsInv cfgs H w" "goodConfigs cfgs" "histGrows X H H' g w"
    and "\<And>i. g \<noteq> 0 \<Longrightarrow> i < NShards \<Longrightarrow> State (shards kv ! i) = BePulling \<Longrightarrow> \<not> installed cfgs (num kv) i w \<Longrightarrow> keepsAt H' i kv"
  shows "inv_waiting cfgs H' (moveTo g kv w)"
  unfolding inv_waiting_def
proof (intro allI ballI impI)
  fix h i p assume p: "p \<in> past (moveTo g kv w) h"
    and h: "h \<noteq> 0 \<and> i < NShards \<and> State (shards p ! i) = BePulling \<and> \<not> installed cfgs (num p) i (moveTo g kv w)"
  have ni: "\<not> installed cfgs (num p) i w" using h installed_moveTo by blast
  show "keepsAt H' i p"
  proof (cases "p \<in> past w h")
    case True
    then have "i \<notin> X" using only_copy(1) [OF assms(1-3)] histGrowsD(1) [OF assms(4), of i] h ni by blast
    then show ?thesis using histGrowsD(2) [OF assms(4)] contentsInvD(3) [OF assms(2)] True h ni unfolding inv_waiting_def by blast
  next
    case False
    then have "p = kv" "h = g" using p by (auto split: if_splits)
    then show ?thesis using assms(5) h ni by simp
  qed
qed

text \<open>Fetched copies that were never installed stay good; a new state of the group has no others.\<close>

lemma fetched_moveTo:
  assumes "migInv cfgs w" "contentsInv cfgs H w" "goodConfigs cfgs" "histGrows X H H' g w"
    and "\<And>i n reply. i < NShards \<Longrightarrow> State (shards kv ! i) = Pulling \<Longrightarrow> (g, int (num kv), reply) \<in> pulled w \<Longrightarrow>
      num (grp w g) = num kv \<and> State (shards (grp w g) ! i) = Pulling"
  shows "inv_fetched H' (moveTo g kv w)"
proof -
  note I = contentsInvD(4) [OF assms(2)]
  have "keeps H' i m (psr_DupTable reply)"
    if r: "h \<noteq> 0" "(h, int (num (grp w h)), reply) \<in> pulled w" "(int i, m) \<in> set (psr_Shards reply)" "i < NShards"
      "State (shards (grp w h) ! i) = Pulling" for h reply i m
  proof -
    have "int i \<in> fst ` set (psr_Shards reply)" using r(3) by force
    then have "i \<notin> X" using only_copy(2) [OF assms(1-3)] histGrowsD(1) [OF assms(4), of i] r by blast
    then show ?thesis using histGrowsD(2) [OF assms(4)] I r unfolding inv_fetched_def by blast
  qed
  note old = this
  have "keeps H' i m (psr_DupTable reply)"
    if "h \<noteq> 0 \<and> (h, int (num (grp (moveTo g kv w) h)), reply) \<in> pulled w \<and> (int i, m) \<in> set (psr_Shards reply) \<and> i < NShards \<and>
      State (shards (grp (moveTo g kv w) h) ! i) = Pulling" for h reply i m
    using that old [of h reply i m] assms(5) [of i reply] by (cases "h = g") auto
  moreover have "\<forall>h n reply. (h, n, reply) \<in> pulled w \<longrightarrow> (\<exists>q \<in> past (moveTo g kv w) h. n = int (num q))"
    using I unfolding inv_fetched_def by fastforce
  ultimately show ?thesis unfolding inv_fetched_def moveTo_simps(4) by blast
qed

lemma released_moveTo:
  assumes "inv_released cfgs w"
    and "\<And>i n. \<lbrakk>g \<noteq> 0; i < NShards; 0 < n; ownerOf cfgs (n - 1) i = g; ownerOf cfgs n i \<noteq> g;
      n < num kv \<or> num kv = n \<and> State (shards kv ! i) \<noteq> BePulling\<rbrakk> \<Longrightarrow> installed cfgs n i w"
  shows "inv_released cfgs (moveTo g kv w)"
  unfolding inv_released_def
proof (intro conjI allI ballI impI)
  fix h i n p assume p: "p \<in> past (moveTo g kv w) h"
    and h: "h \<noteq> 0 \<and> i < NShards \<and> 0 < n \<and> ownerOf cfgs (n - 1) i = h \<and> ownerOf cfgs n i \<noteq> h \<and>
      (n < num p \<or> num p = n \<and> State (shards p ! i) \<noteq> BePulling)"
  have "installed cfgs n i w"
  proof (cases "p \<in> past w h")
    case True
    then show ?thesis using assms(1) h unfolding inv_released_def by blast
  next
    case False
    then have "p = kv" "h = g" using p by (auto split: if_splits)
    then show ?thesis using assms(2) h by blast
  qed
  then show "installed cfgs n i (moveTo g kv w)" by (rule installed_moveTo)
next
  fix h n ids i assume "(h, int n, ids) \<in> gcCmds (moveTo g kv w) \<and> int i \<in> set ids"
  then have "installed cfgs n i w" using assms(1) by (auto simp: inv_released_def moveTo_def)
  then show "installed cfgs n i (moveTo g kv w)" by (rule installed_moveTo)
qed

lemma history_moveTo:
  assumes "migInv cfgs w" "contentsInv cfgs H w" "goodConfigs cfgs" "histGrows X H H' g w"
  shows "inv_history cfgs H' (moveTo g kv w)"
  using histGrowsD [OF assms(4)] contentsInvD(6) [OF assms(2)] only_copy(3) [OF assms(1-3)] installed_moveTo
  unfolding inv_history_def by blast

text \<open>A command that is not a configuration change.\<close>

lemma contentsInv_advance:
  assumes mig: "migInv cfgs w" and inv: "contentsInv cfgs H w" and good: "goodConfigs cfgs"
    and adv: "advances S (grp w g) kv" and H: "histGrows X H H' g w"
    and data: "\<And>i. g \<noteq> 0 \<Longrightarrow> i < NShards \<Longrightarrow> serves i kv \<Longrightarrow> keepsAt H' i kv"
      "\<And>i. g \<noteq> 0 \<Longrightarrow> i < NShards \<Longrightarrow> State (shards kv ! i) = BePulling \<Longrightarrow> \<not> installed cfgs (num (grp w g)) i w \<Longrightarrow> keepsAt H' i kv"
      "\<And>i. g \<noteq> 0 \<Longrightarrow> i < NShards \<Longrightarrow> num (grp w g) = 0 \<Longrightarrow> KV (shards kv ! i) = Map.empty"
    and gone: "\<And>i. i < NShards \<Longrightarrow> State (shards (grp w g) ! i) = BePulling \<Longrightarrow> State (shards kv ! i) \<noteq> BePulling \<Longrightarrow>
      installed cfgs (num (grp w g)) i w"
  shows "contentsInv cfgs H' (moveTo g kv w)"
proof -
  note I = contentsInvD [OF inv]
  have cur: "grp w g \<in> past w g" using mig by (simp add: migInv_def inv_past_def)
  have num: "num kv = num (grp w g)" by (rule advances_num [OF adv])
  have len: "length (shards (grp w g)) = NShards" using grp_groupOk [OF mig] by (simp add: groupOk_def)
  have pulling: "State (shards (grp w g) ! i) = Pulling" if "i < NShards" "State (shards kv ! i) = Pulling" for i
    using adv that len by (fastforce simp: advances_def)
  have "inv_states cfgs (moveTo g kv w)"
    using I(1) stateOk_advances [OF _ adv len] cur data(3) pulling num unfolding inv_states_def by auto
  moreover have "inv_served H' (moveTo g kv w)" by (rule served_moveTo [OF mig I(2) H data(1)])
  moreover have "inv_waiting cfgs H' (moveTo g kv w)" by (rule waiting_moveTo [OF mig inv good H data(2)]) (simp_all add: num)
  moreover have "inv_fetched H' (moveTo g kv w)" by (rule fetched_moveTo [OF mig inv good H]) (simp add: num pulling)
  moreover have "inv_released cfgs (moveTo g kv w)"
  proof (rule released_moveTo [OF I(5)])
    fix i n assume h: "g \<noteq> 0" "i < NShards" "0 < n" "ownerOf cfgs (n - 1) i = g" "ownerOf cfgs n i \<noteq> g"
      "n < num kv \<or> num kv = n \<and> State (shards kv ! i) \<noteq> BePulling"
    show "installed cfgs n i w"
    proof (cases "n = num kv \<and> State (shards (grp w g) ! i) = BePulling")
      case True
      then show ?thesis using gone [OF h(2)] h(6) num by auto
    next
      case False
      then show ?thesis using I(5) cur h num unfolding inv_released_def by auto
    qed
  qed
  moreover have "inv_history cfgs H' (moveTo g kv w)" by (rule history_moveTo [OF mig inv good H])
  ultimately show ?thesis by (simp add: contentsInv_def)
qed

lemma contentsInv_client:
  assumes mig: "migInv cfgs w" and inv: "contentsInv cfgs H w" and good: "goodConfigs cfgs"
    and op: "isKVOp op" "applyCommand op (grp w g) = Inr (kv, r)"
  shows "contentsInv cfgs (if g \<noteq> 0 \<and> executes op (grp w g) then H @ [op] else H) (moveTo g kv w)"
proof -
  note I = contentsInvD [OF inv]
  have cur: "grp w g \<in> past w g" using mig by (simp add: migInv_def inv_past_def)
  have len: "length (shards (grp w g)) = NShards" using grp_groupOk [OF mig] by (simp add: groupOk_def)
  have adv: "advances {} (grp w g) kv" by (rule advances_client [OF op])
  have st: "State (shards kv ! i) = State (shards (grp w g) ! i)" if "i < NShards" for i
    using client_keeps(4) [OF op] that len by (metis length_map nth_map)
  have srv: "serves i kv = serves i (grp w g)" if "i < NShards" for i
    using st [OF that] client_keeps [OF op] by (simp add: serves_def)
  have served: "keepsAt H i (grp w g)" if "g \<noteq> 0" "i < NShards" "serves i (grp w g)" for i
    using I(2) that by (simp add: inv_served_def)
  have waiting: "keepsAt H i (grp w g)" if "g \<noteq> 0" "i < NShards" "State (shards (grp w g) ! i) = BePulling"
    "\<not> installed cfgs (num (grp w g)) i w" for i
    using I(3) cur that unfolding inv_waiting_def by blast
  have empty: "KV (shards (grp w g) ! i) = Map.empty" if "g \<noteq> 0" "num (grp w g) = 0" "i < NShards" for i
    using I(1) cur that by (simp add: inv_states_def)
  show ?thesis
  proof (cases "executes op (grp w g)")
    case False
    then have kv: "kv = grp w g" using client_idle [OF op] by blast
    show ?thesis using False served waiting empty
      by (auto simp: kv intro!: contentsInv_advance [OF mig inv good advances_refl histGrows_refl])
  next
    case True
    note eff = executes_keeps [OF True op(2) len]
    let ?i = "key2shard (kop_Key op)" and ?H = "if g \<noteq> 0 then H @ [op] else H"
    have i: "serves ?i (grp w g)" "?i < NShards" using True key2shard_less by (auto simp: executes_def)
    have gr: "histGrows (if g \<noteq> 0 then {?i} else {}) H ?H g w"
      using i keeps_other [of op] by (auto simp: histGrows_def)
    have "num (grp w g) \<noteq> 0" if "g \<noteq> 0"
      using serves_owner [OF grp_groupOk [OF mig] i(1)] owner_zero [OF good i(2)] that by metis
    then have "contentsInv cfgs ?H (moveTo g kv w)"
      using contentsInv_advance [OF mig inv good adv gr] eff(1) served waiting srv st by auto
    then show ?thesis using True by simp
  qed
qed

lemma contentsInv_install:
  assumes mig: "migInv cfgs w" and inv: "contentsInv cfgs H w" and good: "goodConfigs cfgs"
    and op: "(g, n, reply) \<in> pulled w" "applyCommand (installOp iid n reply) (grp w g) = Inr (kv, r)"
  shows "contentsInv cfgs H (moveTo g kv w)"
proof -
  note I = contentsInvD [OF inv]
  let ?kv = "grp w g"
  have cur: "?kv \<in> past w g" using mig by (simp add: migInv_def inv_past_def)
  have ok: "groupOk cfgs g ?kv" by (rule grp_groupOk [OF mig])
  then have len: "length (shards ?kv) = NShards" by (simp add: groupOk_def)
  have nn: "Num (skv_config ?kv) = int (num ?kv)" using ok good unfolding groupOk_def goodConfigs_def by metis
  have app: "applyInstall (installOp iid n reply) ?kv = Inr kv"
    using op(2) by (auto simp: applyCommand_def isKVOp_def installOp_def applyAdminOp_def split: sum.splits)
  have mono: "\<not> newer (seqOf (skv_dupTable ?kv)) c x \<Longrightarrow> \<not> newer (seqOf (skv_dupTable kv)) c x" for c x
    using app newer_merge(1) by (auto simp: applyInstall_def installOp_def split: if_splits sum.splits)
  have data: "shards kv ! i = shards ?kv ! i \<or> (State (shards ?kv ! i) = Pulling \<and> State (shards kv ! i) = GCing \<and>
      (g \<noteq> 0 \<longrightarrow> keepsAt H i kv))" if i: "i < NShards" for i
  proof (cases "n = Num (skv_config ?kv)")
    case True
    then have kv: "installShards (psr_Shards reply) (shards ?kv) = Inr (shards kv)"
      "skv_dupTable kv = mergeDup (psr_DupTable reply) (skv_dupTable ?kv)"
      using app by (auto simp: applyInstall_def installOp_def split: sum.splits)
    have "keepsAt H i kv" if "g \<noteq> 0" "State (shards ?kv ! i) = Pulling" "(int i, KV (shards kv ! i)) \<in> set (psr_Shards reply)"
    proof -
      have "keeps H i (KV (shards kv ! i)) (psr_DupTable reply)"
        using I(4) op(1) True nn that i unfolding inv_fetched_def by metis
      then show ?thesis unfolding kv(2) by (rule keeps_table) (rule newer_merge(2))
    qed
    then show ?thesis using installShards_data [OF kv(1), of i] i len by auto
  next
    case False
    then show ?thesis using app by (simp add: applyInstall_def installOp_def)
  qed
  have same: "keepsAt H i kv" if "keepsAt H i ?kv" "shards kv ! i = shards ?kv ! i" for i
    using keeps_table [OF that(1) mono] that(2) by simp
  have adv: "advances {i. int i \<in> fst ` set (psr_Shards reply) \<and> n = Num (skv_config ?kv)} ?kv kv"
    by (rule advances_install [OF op(2)])
  show ?thesis
  proof (rule contentsInv_advance [OF mig inv good adv histGrows_refl])
    show "keepsAt H i kv" if "g \<noteq> 0" "i < NShards" "serves i kv" for i
      using data [OF that(2)] that I(2) same adv by (auto simp: inv_served_def serves_def advances_def)
    show "keepsAt H i kv" if "g \<noteq> 0" "i < NShards" "State (shards kv ! i) = BePulling" "\<not> installed cfgs (num ?kv) i w" for i
    proof -
      have e: "shards kv ! i = shards ?kv ! i" using data [OF that(2)] that(3) by auto
      have st: "State (shards ?kv ! i) = BePulling" using that(3) unfolding e .
      show ?thesis by (rule same [OF inv_waitingD [OF I(3) cur that(1,2) st that(4)] e])
    qed
    show "KV (shards kv ! i) = Map.empty" if "g \<noteq> 0" "i < NShards" "num ?kv = 0" for i
    proof -
      have "State (shards ?kv ! i) = Serving" using ok that by (simp add: groupOk_def allServing_def)
      then have "shards kv ! i = shards ?kv ! i" using data [OF that(2)] by auto
      then show ?thesis using inv_emptyD [OF I(1) cur that(1,3,2)] by simp
    qed
  qed (use data in fastforce)
qed

lemma contentsInv_collect:
  assumes mig: "migInv cfgs w" and inv: "contentsInv cfgs H w" and good: "goodConfigs cfgs"
    and op: "(g, n, ids) \<in> gcCmds w" "applyCommand ((gcOp n ids)\<lparr>kop_InternalId := iid\<rparr>) (grp w g) = Inr (kv, r)"
  shows "contentsInv cfgs H (moveTo g kv w)"
proof -
  note I = contentsInvD [OF inv]
  let ?kv = "grp w g"
  have cur: "?kv \<in> past w g" using mig by (simp add: migInv_def inv_past_def)
  have ok: "groupOk cfgs g ?kv" by (rule grp_groupOk [OF mig])
  then have len: "length (shards ?kv) = NShards" by (simp add: groupOk_def)
  have nn: "Num (skv_config ?kv) = int (num ?kv)" using ok good unfolding groupOk_def goodConfigs_def by metis
  have "applyGC ((gcOp n ids)\<lparr>kop_InternalId := iid\<rparr>) ?kv = Inr kv"
    using op(2) by (auto simp: applyCommand_def isKVOp_def gcOp_def applyAdminOp_def split: sum.splits)
  then obtain shs where gc: "gcShards (Num (skv_config ?kv)) n ids (shards ?kv) = Inr shs" and kv: "kv = ?kv\<lparr>shards := shs\<rparr>"
    by (auto simp: applyGC_def gcOp_def split: sum.splits)
  have data: "shards kv ! i = shards ?kv ! i \<or>
     (State (shards ?kv ! i) = BePulling \<and> State (shards kv ! i) = Serving \<and> installed cfgs (num ?kv) i w) \<or>
     (State (shards ?kv ! i) = GCing \<and> shards kv ! i = (shards ?kv ! i)\<lparr>State := Serving\<rparr>)" if "i < NShards" for i
    using gcShards_data [OF gc, of i] that len kv I(5) op(1) nn unfolding inv_released_def by auto
  have dup: "skv_dupTable kv = skv_dupTable ?kv" using kv by simp
  show ?thesis
  proof (rule contentsInv_advance [OF mig inv good advances_gc [OF op(2)] histGrows_refl])
    show "keepsAt H i kv" if "g \<noteq> 0" "i < NShards" "serves i kv" for i
    proof -
      have "State (shards ?kv ! i) \<noteq> BePulling"
        using serves_owner [OF groupOk_advances [OF ok advances_gc [OF op(2)]] that(3)] ok that(2)
        unfolding groupOk_def advances_num [OF advances_gc [OF op(2)]] by auto
      then have "KV (shards kv ! i) = KV (shards ?kv ! i)" "serves i ?kv"
        using data [OF that(2)] that(3) unfolding serves_def kv by auto
      then show ?thesis using I(2) that(1,2) dup by (simp add: inv_served_def)
    qed
    show "keepsAt H i kv" if "g \<noteq> 0" "i < NShards" "State (shards kv ! i) = BePulling" "\<not> installed cfgs (num ?kv) i w" for i
    proof -
      have e: "shards kv ! i = shards ?kv ! i" using data [OF that(2)] that(3) by auto
      have st: "State (shards ?kv ! i) = BePulling" using that(3) unfolding e .
      show ?thesis unfolding e dup by (rule inv_waitingD [OF I(3) cur that(1,2) st that(4)])
    qed
    show "KV (shards kv ! i) = Map.empty" if "g \<noteq> 0" "i < NShards" "num ?kv = 0" for i
    proof -
      have "State (shards ?kv ! i) = Serving" using ok that by (simp add: groupOk_def allServing_def)
      then have "shards kv ! i = shards ?kv ! i" using data [OF that(2)] by auto
      then show ?thesis using inv_emptyD [OF I(1) cur that(1,3,2)] by simp
    qed
    show "installed cfgs (num ?kv) i w"
      if "i < NShards" "State (shards ?kv ! i) = BePulling" "State (shards kv ! i) \<noteq> BePulling" for i
      using data [OF that(1)] that(2,3) by auto
  qed
qed

text \<open>The shards that a new owner asks about, and who had them before.\<close>

lemma groupShards_owner:
  assumes ok: "groupOk cfgs g q" "stateOk cfgs g q" and st: "st = Pulling \<or> st = GCing"
    and mem: "(h, ids) \<in> set (groupShards st 0 (shards q) (lastConfig q) [])" "y \<in> set ids"
  shows "\<exists>i < NShards. y = int i \<and> State (shards q ! i) = st \<and> ownerOf cfgs (num q) i = g \<and> ownerOf cfgs (num q - 1) i = h \<and>
    0 < num q \<and> h \<noteq> g \<and> h \<noteq> 0"
proof -
  have "\<exists>j < length (shards q). State (shards q ! j) = st \<and> y = int j \<and> Shards (lastConfig q) ! j = h"
    by (rule groupShards_mem [OF mem(1), where P = "\<lambda>h y. \<exists>j < length (shards q). State (shards q ! j) = st \<and> y = int j \<and> Shards (lastConfig q) ! j = h"])
      (use mem(2) in auto)
  then obtain j where j: "j < NShards" "State (shards q ! j) = st" "y = int j" "Shards (lastConfig q) ! j = h"
    using ok(1) by (auto simp: groupOk_def)
  moreover have "0 < num q" "ownerOf cfgs (num q) j = g" "ownerOf cfgs (num q - 1) j \<noteq> g" "ownerOf cfgs (num q - 1) j \<noteq> 0"
    using ok(2) j(1,2) st unfolding stateOk_def by blast+
  moreover have "ownerOf cfgs (num q - 1) j = h" using ok(1) j(4) calculation(5) by (simp add: groupOk_def ownerOf_def)
  ultimately show ?thesis by metis
qed

lemma contentsInv_gc:
  assumes mig: "migInv cfgs w" and inv: "contentsInv cfgs H w" and good: "goodConfigs cfgs"
    and q: "q \<in> past w g" "(h, ids) \<in> set (gcMap (at q rfq))"
  shows "contentsInv cfgs H (w\<lparr>gcCmds := insert (x, Num (skv_config q), ids) (gcCmds w)\<rparr>)" (is "contentsInv cfgs H ?w")
proof -
  note I = contentsInvD [OF inv]
  have past: "past ?w = past w" "grp ?w = grp w" "pulled ?w = pulled w" by simp_all
  have same: "installed cfgs n i ?w = installed cfgs n i w" for n i by (simp add: installed_def)
  have ok: "groupOk cfgs g q" "stateOk cfgs g q"
    using mig q(1) I(1) by (auto simp: migInv_def inv_past_def inv_states_def)
  have nq: "Num (skv_config q) = int (num q)" using ok(1) good unfolding groupOk_def goodConfigs_def by metis
  have "installed cfgs (num q) i w" if "int i \<in> set ids" for i
  proof -
    have mem: "(h, ids) \<in> set (groupShards GCing 0 (shards q) (lastConfig q) [])" using q(2) by (auto simp: gcMap_def split: if_splits)
    from groupShards_owner [OF ok _ this that] have "State (shards q ! i) = GCing" "ownerOf cfgs (num q) i = g" by auto
    then show ?thesis using q(1) unfolding installed_def by force
  qed
  then have "inv_released cfgs ?w" using I(5) nq unfolding inv_released_def same past by auto
  then show ?thesis using I unfolding contentsInv_def inv_states_def inv_served_def inv_waiting_def inv_fetched_def inv_history_def same past
    by blast
qed

text \<open>
  What a pull fetches is good as long as the shard is still waited for: the previous owner keeps its copy until then.
\<close>

lemma pulled_copy:
  assumes mig: "migInv cfgs w" and inv: "contentsInv cfgs H w" and good: "goodConfigs cfgs"
    and q: "q \<in> past w g" "(h, ids) \<in> set (pullMap (at q rfq))" and p: "p \<in> past w h"
    and reply: "PullShard \<lparr>psa_ConfigNum = Num (skv_config q), psa_ShardIds = ids\<rparr> (at p rfp) = Inr reply" "psr_Err reply = OK"
    and r: "(int i, m) \<in> set (psr_Shards reply)" "i < NShards" "num (grp w g) = num q" "State (shards (grp w g) ! i) = Pulling"
  shows "keeps H i m (psr_DupTable reply)"
proof -
  note I = contentsInvD [OF inv]
  have ip: "inv_past cfgs w" using mig by (simp add: migInv_def)
  have ok: "groupOk cfgs g q" "stateOk cfgs g q" "groupOk cfgs h p"
    using ip q(1) p I(1) by (auto simp: inv_past_def inv_states_def)
  have nq: "Num (skv_config q) = int (num q)" "Num (skv_config p) = int (num p)"
    using ok(1,3) good unfolding groupOk_def goodConfigs_def by metis+
  have le: "num q \<le> num p" and kvs: "collectShards ids (shards p) [] = Inr (psr_Shards reply)" and dup: "psr_DupTable reply = skv_dupTable p"
    using reply nq by (auto simp: PullShard_def pullRefused_def split: if_splits sum.splits)
  have "int i \<in> set ids" using r(1) collectShards_keys [OF kvs] by force
  moreover have mem: "(h, ids) \<in> set (groupShards Pulling 0 (shards q) (lastConfig q) [])"
    using q(2) by (auto simp: pullMap_def split: if_splits)
  ultimately have o: "ownerOf cfgs (num q) i = g" "ownerOf cfgs (num q - 1) i = h" "0 < num q" "h \<noteq> g" "h \<noteq> 0"
    using groupShards_owner [OF ok(1,2) _ mem, of "int i"] by auto
  have ni: "\<not> installed cfgs (num q) i w" using not_installed [OF ip I(1) r(2), of g] o(1) r(3,4) by simp
  then have "\<not> (num q < num p \<or> num p = num q \<and> State (shards p ! i) \<noteq> BePulling)"
    using inv_releasedD [OF I(5) p o(5) r(2) o(3,2)] o(1,4) by blast
  then have "num p = num q" "State (shards p ! i) = BePulling" using le by auto
  then have "keepsAt H i p" using inv_waitingD [OF I(3) p o(5) r(2)] ni by simp
  then show ?thesis using collectShards_data [OF kvs r(1)] dup by simp
qed

lemma contentsInv_pull:
  assumes mig: "migInv cfgs w" and inv: "contentsInv cfgs H w" and good: "goodConfigs cfgs"
    and q: "q \<in> past w g" "(h, ids) \<in> set (pullMap (at q rfq))" and p: "p \<in> past w h"
    and reply: "PullShard \<lparr>psa_ConfigNum = Num (skv_config q), psa_ShardIds = ids\<rparr> (at p rfp) = Inr reply" "psr_Err reply = OK"
  shows "contentsInv cfgs H (w\<lparr>pulled := insert (g, Num (skv_config q), reply) (pulled w)\<rparr>)" (is "contentsInv cfgs H ?w")
proof -
  note I = contentsInvD [OF inv]
  have past: "past ?w = past w" "grp ?w = grp w" "gcCmds ?w = gcCmds w" by simp_all
  have same: "installed cfgs n i ?w = installed cfgs n i w" for n i by (simp add: installed_def)
  have "groupOk cfgs g q" using mig q(1) by (auto simp: migInv_def inv_past_def)
  then have nq: "Num (skv_config q) = int (num q)" using good unfolding groupOk_def goodConfigs_def by metis
  have "inv_fetched H ?w"
    unfolding inv_fetched_def past
  proof (intro conjI allI impI)
    fix g' n reply' assume "(g', n, reply') \<in> pulled ?w"
    then consider "g' = g" "n = Num (skv_config q)" | "(g', n, reply') \<in> pulled w" by auto
    then show "\<exists>q\<in>past w g'. n = int (num q)" using I(4) q(1) nq unfolding inv_fetched_def by cases blast+
  next
    fix g' reply' i m assume a: "g' \<noteq> 0 \<and> (g', int (num (grp w g')), reply') \<in> pulled ?w \<and> (int i, m) \<in> set (psr_Shards reply') \<and>
      i < NShards \<and> State (shards (grp w g') ! i) = Pulling"
    then consider "g' = g" "num (grp w g) = num q" "reply' = reply" | "(g', int (num (grp w g')), reply') \<in> pulled w" using nq by auto
    then show "keeps H i m (psr_DupTable reply')"
    proof cases
      case 1
      then show ?thesis using pulled_copy [OF mig inv good q p reply] a by blast
    next
      case 2
      then show ?thesis using I(4) a unfolding inv_fetched_def by blast
    qed
  qed
  then show ?thesis using I unfolding contentsInv_def inv_states_def inv_served_def inv_waiting_def inv_released_def inv_history_def same past
    by blast
qed

text \<open>A configuration change: the group keeps what it still owns, sets aside what it loses, and waits for what it gains.\<close>

lemma applyConfig_states:
  fixes iid :: int
  assumes ok: "groupOk cfgs g kv" and st: "allServing kv" and c: "c = cfgs (Suc (num kv))" and good: "goodConfigs cfgs"
    and i: "i < NShards"
  defines "kv' \<equiv> applyConfig (configOp iid c) kv"
  shows "shards kv' ! i = (shards kv ! i)\<lparr>State :=
      (if ownerOf cfgs (Suc (num kv)) i = g \<and> ownerOf cfgs (num kv) i \<noteq> g \<and> ownerOf cfgs (num kv) i \<noteq> 0 then Pulling
       else if ownerOf cfgs (Suc (num kv)) i \<noteq> g \<and> ownerOf cfgs (num kv) i = g then BePulling else Serving)\<rparr>"
    "skv_dupTable kv' = skv_dupTable kv"
proof -
  have n: "Num (skv_config kv) = int (num kv)" "Num c = int (Suc (num kv))" using ok c good by (auto simp: groupOk_def goodConfigs_def)
  then have eq: "kv' = kv\<lparr>lastConfig := skv_config kv, skv_config := c,
      shards := map (\<lambda>i. configShard (skv_gid kv) (Shards c ! i) (Shards (skv_config kv) ! i) (shards kv ! i)) [0..<NShards]\<rparr>"
    by (simp add: kv'_def applyConfig_def configOp_def Let_def)
  have own: "Shards c ! i = ownerOf cfgs (Suc (num kv)) i" "Shards (skv_config kv) ! i = ownerOf cfgs (num kv) i" "skv_gid kv = g"
    using ok c by (simp_all add: ownerOf_def groupOk_def)
  have "State (shards kv ! i) = Serving" using st i by (simp add: allServing_def)
  then show "shards kv' ! i = (shards kv ! i)\<lparr>State :=
      (if ownerOf cfgs (Suc (num kv)) i = g \<and> ownerOf cfgs (num kv) i \<noteq> g \<and> ownerOf cfgs (num kv) i \<noteq> 0 then Pulling
       else if ownerOf cfgs (Suc (num kv)) i \<noteq> g \<and> ownerOf cfgs (num kv) i = g then BePulling else Serving)\<rparr>"
    using i own by (auto simp: eq configShard_def Let_def)
  show "skv_dupTable kv' = skv_dupTable kv" by (simp add: eq)
qed

text \<open>The first owner of a shard starts with an empty one, and nothing was written to the shard before.\<close>

lemma first_owner_keeps:
  assumes mig: "migInv cfgs w" and inv: "contentsInv cfgs H w" and "g \<noteq> 0" "i < NShards"
    and "num (grp w g) = 0" "ownerOf cfgs 1 i = g"
  shows "keepsAt H i (grp w g)"
proof -
  note I = contentsInvD [OF inv]
  have past: "inv_past cfgs w" using mig by (simp add: migInv_def)
  then have cur: "grp w g \<in> past w g" by (simp add: inv_past_def)
  have "\<not> installed cfgs 1 i w" using past assms(5,6) unfolding installed_def inv_past_def by (metis le_zero_eq not_one_less_zero zero_neq_one)
  then have none: "key2shard (kop_Key op) \<noteq> i" if "op \<in> set H" for op using I(6) that unfolding inv_history_def by blast
  have "filter (\<lambda>op. kop_Key op = k) H = []" if "key2shard k = i" for k
    using none that by (auto simp: filter_empty_conv)
  then show ?thesis using inv_emptyD [OF I(1) cur assms(3,5,4)] none by (simp add: keeps_def valueIn_def replay_def)
qed

lemma contentsInv_reconfigure:
  assumes mig: "migInv cfgs w" and inv: "contentsInv cfgs H w" and good: "goodConfigs cfgs" and c: "(g, c) \<in> proposed w"
    and next': "Num c = Num (skv_config (grp w g)) + 1"
  shows "contentsInv cfgs H (moveTo g (applyConfig (configOp iid c) (grp w g)) w)"
proof -
  note I = contentsInvD [OF inv]
  let ?kv = "grp w g" and ?n = "num (grp w g)"
  define kv' where "kv' = applyConfig (configOp iid c) ?kv"
  have past: "inv_past cfgs w" using mig by (simp add: migInv_def)
  then have cur: "?kv \<in> past w g" by (simp add: inv_past_def)
  have ok: "groupOk cfgs g ?kv" by (rule grp_groupOk [OF mig])
  have st: "allServing ?kv" and cc: "c = cfgs (Suc ?n)" using proposed_next [OF mig good c next'] by blast+
  have num: "num kv' = Suc ?n" and okv: "groupOk cfgs g kv'" unfolding kv'_def by (rule applyConfig_effect [OF ok st cc good])+
  note new = applyConfig_states [OF ok st cc good, where iid = iid, folded kv'_def]
  have srv: "keepsAt H i ?kv" if "g \<noteq> 0" "i < NShards" "ownerOf cfgs ?n i = g" for i
    using that I(2) st ok by (auto simp: inv_served_def serves_def allServing_def groupOk_def ownerOf_def)
  have "inv_states cfgs (moveTo g kv' w)"
  proof -
    have "stateOk cfgs g kv'" unfolding stateOk_def num using new(1) by auto
    moreover have "num p \<noteq> Suc ?n" if "p \<in> past w g" for p using past that unfolding inv_past_def by (metis Suc_n_not_le_n)
    ultimately show ?thesis using I(1) num unfolding inv_states_def by auto
  qed
  moreover have "inv_served H (moveTo g kv' w)"
  proof (rule served_moveTo [OF mig I(2) histGrows_refl])
    fix i assume g: "g \<noteq> 0" "i < NShards" "serves i kv'"
    have "ownerOf cfgs (Suc ?n) i = g" "State (shards kv' ! i) \<noteq> Pulling"
      using serves_owner [OF okv g(3)] num g(3) by (auto simp: serves_def)
    then consider "ownerOf cfgs ?n i = g" | "ownerOf cfgs ?n i = 0" "ownerOf cfgs (Suc ?n) i = g" using new(1) [OF g(2)] by (auto split: if_splits)
    then have "keepsAt H i ?kv"
    proof cases
      case 2
      then have "?n = 0" using good g(2) by (auto simp: goodConfigs_def)
      then show ?thesis using first_owner_keeps [OF mig inv g(1,2)] 2(2) by simp
    qed (use srv g in blast)
    then show "keepsAt H i kv'" using new [OF g(2)] by simp
  qed
  moreover have "inv_waiting cfgs H (moveTo g kv' w)"
  proof (rule waiting_moveTo [OF mig inv good histGrows_refl])
    fix i assume g: "g \<noteq> 0" "i < NShards" "State (shards kv' ! i) = BePulling"
    then have "keepsAt H i ?kv" using new(1) [OF g(2)] srv by (auto split: if_splits)
    then show "keepsAt H i kv'" using new [OF g(2)] by simp
  qed
  moreover have "inv_fetched H (moveTo g kv' w)"
  proof (rule fetched_moveTo [OF mig inv good histGrows_refl])
    fix i reply assume "(g, int (num kv'), reply) \<in> pulled w"
    then obtain q where "q \<in> past w g" "num q = Suc ?n" using I(4) num unfolding inv_fetched_def by force
    then have False using past unfolding inv_past_def by (metis Suc_n_not_le_n)
    then show "num ?kv = num kv' \<and> State (shards ?kv ! i) = Pulling" ..
  qed
  moreover have "inv_released cfgs (moveTo g kv' w)"
  proof (rule released_moveTo [OF I(5)])
    fix i n assume h: "g \<noteq> 0" "i < NShards" "0 < n" "ownerOf cfgs (n - 1) i = g" "ownerOf cfgs n i \<noteq> g"
      "n < num kv' \<or> num kv' = n \<and> State (shards kv' ! i) \<noteq> BePulling"
    have "State (shards kv' ! i) = BePulling" if "n = Suc ?n" using new(1) [OF h(2)] h(4,5) that by simp
    then have "n < num kv'" using h(6) num by auto
    then have "n < ?n \<or> ?n = n \<and> State (shards ?kv ! i) \<noteq> BePulling" using num st h(2) by (auto simp: allServing_def)
    then show "installed cfgs n i w" by (rule inv_releasedD [OF I(5) cur h(1-5)])
  qed
  moreover have "inv_history cfgs H (moveTo g kv' w)" by (rule history_moveTo [OF mig inv good histGrows_refl])
  ultimately show ?thesis unfolding kv'_def contentsInv_def by simp
qed

section \<open>Whole runs\<close>

lemma contentsInv_start: "contentsInv cfgs [] minit"
proof -
  have s: "State (shards (grp minit g) ! i) = Serving" "KV (shards (grp minit g) ! i) = Map.empty" if "i < NShards" for g i
    using that by (simp_all add: minit_def StartServer_def Let_def persister_defs newShard_def)
  have p: "past minit g = {grp minit g}" "num (grp minit g) = 0" "skv_config (grp minit g) = emptyConfig" "skv_gid (grp minit g) = g" for g
    by (simp_all add: minit_def num_start) (simp_all add: StartServer_def Let_def persister_defs)
  have e: "pulled minit = {}" "gcCmds minit = {}" by (simp_all add: minit_def)
  show ?thesis
    unfolding contentsInv_def inv_states_def inv_served_def inv_waiting_def inv_fetched_def inv_released_def inv_history_def stateOk_def p e
    using s by (auto simp: p serves_def emptyConfig_def)
qed

lemma contentsInv_madmin:
  assumes "madmin cfgs w w'" "migInv cfgs w" "contentsInv cfgs H w" "goodConfigs cfgs"
  shows "contentsInv cfgs H w'"
  using assms(1)
proof (cases rule: madmin.cases)
  case (propose p g rf n c)
  have same: "installed cfgs m i w' = installed cfgs m i w" for m i unfolding propose(1) by (simp add: installed_def)
  have fields: "past w' = past w" "grp w' = grp w" "pulled w' = pulled w" "gcCmds w' = gcCmds w" using propose(1) by simp_all
  show ?thesis using assms(3)
    unfolding contentsInv_def inv_states_def inv_served_def inv_waiting_def inv_fetched_def inv_released_def inv_history_def same fields .
next
  case (reconfigure g c iid kv r)
  have kv: "kv = applyConfig (configOp iid c) (grp w g)"
    using reconfigure(3) by (auto simp: applyCommand_def isKVOp_def configOp_def applyAdminOp_def)
  show ?thesis
  proof (cases "Num c = Num (skv_config (grp w g)) + 1")
    case True
    then show ?thesis using contentsInv_reconfigure [OF assms(2,3,4) reconfigure(2)] reconfigure(1) kv by simp
  next
    case False
    then have "kv = grp w g" using kv by (simp add: applyConfig_def configOp_def)
    moreover have "grp w g \<in> past w g" using assms(2) by (simp add: migInv_def inv_past_def)
    ultimately have "w' = w" unfolding reconfigure(1) moveTo_def by (simp add: insert_absorb fun_upd_idem)
    then show ?thesis using assms(3) by simp
  qed
next
  case (pull q g h ids rfq p rfp reply)
  then show ?thesis using contentsInv_pull [OF assms(2,3,4)] by blast
next
  case (install g n reply iid kv r)
  then show ?thesis using contentsInv_install [OF assms(2,3,4)] by blast
next
  case (gc_request q g h ids rfq p rfp op)
  have "kop_GCConfigNum op = Num (skv_config q)" "kop_GCShardIds op = ids"
    using gc_request(5) by (auto simp: GCShard_def gcOp_def split: if_splits sum.splits)
  then show ?thesis unfolding gc_request(1) using contentsInv_gc [OF assms(2,3,4) gc_request(2,3)] by simp
next
  case (gc_confirmed q g h ids rfq p rfp)
  then show ?thesis using contentsInv_gc [OF assms(2,3,4) gc_confirmed(2,3)] by blast
next
  case (collect g n ids iid kv r)
  then show ?thesis using contentsInv_collect [OF assms(2,3,4)] by blast
qed

lemma mhist_contentsInv:
  assumes "mhist cfgs w H" "goodConfigs cfgs"
  shows "contentsInv cfgs H w"
  using assms(1)
proof (induction rule: mhist.induct)
  case (h_client w H op g kv r)
  then show ?case using contentsInv_client [OF mreach_migInv [OF mhist_mreach assms(2)] _ assms(2)] assms(2) by blast
next
  case (h_admin w H w')
  then show ?case using contentsInv_madmin [OF _ mreach_migInv [OF mhist_mreach assms(2)] _ assms(2)] assms(2) by blast
qed (rule contentsInv_start)

section \<open>Configurations that the controller makes\<close>

text \<open>A next configuration with groups has an owner for every shard, as long as no group has the number 0 and no shard is moved to 0.\<close>

definition namesGroups :: "ShardCtrler.Op \<Rightarrow> bool" where
  "namesGroups op \<longleftrightarrow> 0 \<notin> fset (fmdom (sop_Servers op)) \<and> (sop_Type op = OpMove \<longrightarrow> sop_GID op \<noteq> 0)"

lemma nextConfig_owned:
  assumes "nextConfig op cfg = Inr c" "length (Shards cfg) = NShards" "sop_Type op \<noteq> OpQuery" "namesGroups op"
    and "0 \<notin> fset (fmdom (Groups cfg))" "fmdom (Groups c) \<noteq> {||}" "fmdom (Groups cfg) \<noteq> {||} \<longrightarrow> 0 \<notin> set (Shards cfg)"
  shows "0 \<notin> set (Shards c)" "0 \<notin> fset (fmdom (Groups c))"
proof -
  have reb: "0 \<notin> set (Shards c) \<and> 0 \<notin> fset (fmdom (Groups c))"
    if r: "rebalance d = Inr c" "length (Shards d) = NShards" "0 \<notin> fset (fmdom (Groups d))" for d
  proof -
    have "Groups c = Groups d" using rebalance_total [OF r(2)] r(1) by force
    with rebalance_result [OF r(2)] assms(6) r(1,3) show ?thesis by auto
  qed
  have "0 \<notin> set (Shards c) \<and> 0 \<notin> fset (fmdom (Groups c))"
  proof (cases "sop_Type op")
    case OpJoin
    then show ?thesis using assms by (intro reb [of "cfg\<lparr>Groups := Groups cfg ++\<^sub>f sop_Servers op\<rparr>"]) (auto simp: nextConfig_def applyJoin_def namesGroups_def)
  next
    case OpLeave
    then show ?thesis using assms
      by (intro reb [of "cfg\<lparr>Groups := fold fmdrop (sop_GIDs op) (Groups cfg), Shards := map (\<lambda>gid. if gid \<in> set (sop_GIDs op) then 0 else gid) (Shards cfg)\<rparr>"])
        (simp_all add: nextConfig_def applyLeave_def fold_fmdrop_dom)
  next
    case OpMove
    then obtain sh where sh: "go_store (Shards cfg) (sop_Shard op) (sop_GID op) = Inr sh" "c = cfg\<lparr>Shards := sh\<rparr>"
      using assms(1) by (auto simp: nextConfig_def applyMove_def split: sum.splits)
    then have "set sh \<subseteq> insert (sop_GID op) (set (Shards cfg))" by (auto simp: go_store_def split: if_splits dest: set_update_subset_insert [THEN subsetD])
    then show ?thesis using sh(2) assms(4-7) OpMove by (auto simp: namesGroups_def)
  qed (use assms(3) in simp)
  then show "0 \<notin> set (Shards c)" "0 \<notin> fset (fmdom (Groups c))" by blast+
qed

text \<open>All configurations after the first have groups; then they have an owner for every shard.\<close>

definition ownedHistory :: "Config list \<Rightarrow> bool" where
  "ownedHistory cs \<longleftrightarrow> (\<forall>k < length cs. 0 \<notin> fset (fmdom (Groups (cs ! k)))) \<and> (\<forall>k. 0 < k \<and> k < length cs \<longrightarrow> 0 \<notin> set (Shards (cs ! k)))"

lemma ctrlApply_owned:
  assumes app: "ctrlApply op sc = Some (sc', r)" and ok: "configsOk (configs sc)" and own: "ownedHistory (configs sc)" and op: "namesGroups op"
    and first: "Groups (configs sc ! 0) = fmempty"
    and groups: "\<forall>k. 0 < k \<and> k < length (configs sc') \<longrightarrow> fmdom (Groups (configs sc' ! k)) \<noteq> {||}"
  shows "ownedHistory (configs sc')"
proof (cases "ctrlWrite op \<and> newer (ctrlSeq sc) (sop_ClientId op) (sop_SeqId op)")
  case True
  then obtain c where c: "nextConfig op (cloneLatestConfig sc) = Inr c" "configs sc' = configs sc @ [c]" using ctrlApply_fresh(1) [OF _ _ app] by blast
  let ?n = "length (configs sc) - 1"
  have n: "?n < length (configs sc)" "configs sc \<noteq> []" using ok by (auto simp: configsOk_def)
  note clone = cloneLatestConfig_ok [OF ok]
  have sh: "Shards (cloneLatestConfig sc) = Shards (configs sc ! ?n)" "Groups (cloneLatestConfig sc) = Groups (configs sc ! ?n)"
    by (simp_all add: cloneLatestConfig_def Let_def)
  have "fmdom (Groups c) \<noteq> {||}" using groups c(2) n(2) by (metis length_append_singleton length_greater_0_conv lessI nth_append_length)
  moreover have "fmdom (Groups (configs sc ! ?n)) \<noteq> {||} \<longrightarrow> 0 \<notin> set (Shards (configs sc ! ?n))"
    using first own n by (cases "?n = 0") (auto simp: ownedHistory_def)
  moreover have "0 \<notin> fset (fmdom (Groups (configs sc ! ?n)))" using own n(1) by (simp add: ownedHistory_def)
  ultimately have "0 \<notin> set (Shards c)" "0 \<notin> fset (fmdom (Groups c))"
    using nextConfig_owned [OF c(1) clone(2) _ op] True unfolding sh by auto
  then show ?thesis using own c(2) by (auto simp: ownedHistory_def nth_append less_Suc_eq)
next
  case False
  then have "sc' = sc" using ctrlApply_query(1) [OF _ app] ctrlApply_stale [OF _ _ app] by blast
  then show ?thesis using own by simp
qed

lemma controller_owned:
  assumes "runOps ctrlApply ops (ShardCtrler.StartServer n i MakePersister rnd) = Some (sc, rs)" "\<forall>op \<in> set ops. namesGroups op"
    and "\<forall>k. 0 < k \<and> k < length (configs sc) \<longrightarrow> fmdom (Groups (configs sc ! k)) \<noteq> {||}"
  shows "ownedHistory (configs sc) \<and> configsOk (configs sc) \<and> configs sc ! 0 = emptyConfig"
  using assms
proof (induction ops arbitrary: sc rs rule: rev_induct)
  case Nil
  then show ?case using configsOk_start [of n i MakePersister rnd] by (auto simp: ownedHistory_def ShardCtrler.StartServer_def emptyConfig_def)
next
  case (snoc op ops)
  obtain sc1 rs1 r where 1: "runOps ctrlApply ops (ShardCtrler.StartServer n i MakePersister rnd) = Some (sc1, rs1)" "ctrlApply op sc1 = Some (sc, r)"
    using snoc.prems(1) by (auto simp: runOps_append split: option.splits)
  have "configsOk (configs sc1)" using run_configsOk [OF 1(1) configsOk_start] by blast
  then have ok: "configsOk (configs sc)" and pre: "prefix (configs sc1) (configs sc)" using ctrlApply_configsOk [OF 1(2)] by blast+
  have "\<forall>k. 0 < k \<and> k < length (configs sc1) \<longrightarrow> fmdom (Groups (configs sc1 ! k)) \<noteq> {||}"
    using snoc.prems(3) pre by (auto simp: prefix_def nth_append)
  then have IH: "ownedHistory (configs sc1)" "configsOk (configs sc1)" "configs sc1 ! 0 = emptyConfig" using snoc.IH [OF 1(1)] snoc.prems(2) by auto
  moreover have "configs sc ! 0 = configs sc1 ! 0" using pre IH(2) by (auto simp: prefix_def nth_append configsOk_def)
  ultimately show ?case using ctrlApply_owned [OF 1(2) IH(2,1) _ _ snoc.prems(3)] snoc.prems(2) ok by (simp add: emptyConfig_def)
qed

text \<open>
  The configurations of a controller satisfy the condition of the theorems below, and of \<^verbatim>\<open>shard_served_once\<close>, as long as there is always a group after the
  first Join.
\<close>

lemma controller_goodConfigs:
  assumes "\<And>m. \<exists>ops sc rs. runOps ctrlApply ops (ShardCtrler.StartServer n i MakePersister rnd) = Some (sc, rs) \<and> (\<forall>op \<in> set ops. namesGroups op) \<and>
      m < length (configs sc) \<and> (\<forall>k < length (configs sc). cfgs k = configs sc ! k)"
    and "\<And>k. 0 < k \<Longrightarrow> fmdom (Groups (cfgs k)) \<noteq> {||}"
  shows "goodConfigs cfgs"
proof -
  have "Num (cfgs m) = int m \<and> (0 < m \<longrightarrow> 0 \<notin> set (Shards (cfgs m))) \<and> length (Shards (cfgs m)) = NShards \<and> cfgs 0 = emptyConfig" for m
  proof -
    obtain ops sc rs where r: "runOps ctrlApply ops (ShardCtrler.StartServer n i MakePersister rnd) = Some (sc, rs)" "\<forall>op \<in> set ops. namesGroups op"
      "m < length (configs sc)" "\<forall>k < length (configs sc). cfgs k = configs sc ! k" using assms(1) [of m] by blast
    have "\<forall>k. 0 < k \<and> k < length (configs sc) \<longrightarrow> fmdom (Groups (configs sc ! k)) \<noteq> {||}" using assms(2) r(4) by metis
    from controller_owned [OF r(1,2) this] r(3,4) show ?thesis by (auto simp: ownedHistory_def configsOk_def)
  qed
  then show ?thesis unfolding goodConfigs_def ownerOf_def by (metis nth_mem)
qed

text \<open>
  C8. No write is lost or changed when shards move. Let every configuration after the empty first one give every shard an owner, and let every group act as one
  state machine, as it does when its servers install snapshots only while no command is queued (\<^verbatim>\<open>ShardKV_Group\<close>). Then in every run of all replica groups, a group
  that serves a key has for it exactly the value that the sequential model computes from all writes ever executed on the key, by this group or by
  earlier owners of its shard, in the order of their execution. (After a configuration without groups the next owner starts with an empty shard:
  \<^verbatim>\<open>ownerless_config_serves_twice\<close>.)
\<close>

theorem served_shard_holds_writes:
  assumes "mhist cfgs w H" "goodConfigs cfgs" "g \<noteq> 0" "serves (key2shard k) (grp w g)"
  shows "skvValue (grp w g) k = replay k H"
proof -
  have "keepsAt H (key2shard k) (grp w g)"
    using contentsInvD(2) [OF mhist_contentsInv [OF assms(1,2)]] assms(3,4) key2shard_less [of k] by (simp add: inv_served_def)
  then show ?thesis by (simp add: keeps_def valueIn_def skvValue_def)
qed

text \<open>
  C9. Under the same two conditions, that no configuration after the first leaves a shard without an owner and that every group acts as one state machine, no write is
  executed twice, by whichever groups: over a whole run the executed writes have pairwise different client, sequence number and key, although clerks
  retransmit requests to the next owner after a shard has moved.
\<close>

theorem writes_once_across_groups:
  assumes "mhist cfgs w H" "goodConfigs cfgs"
  shows "distinct (map (\<lambda>op. (kop_ClientId op, kop_SeqId op, kop_Key op)) H)"
  using assms(1)
proof (induction rule: mhist.induct)
  case (h_client w H op g kv r)
  have "(kop_ClientId o', kop_SeqId o', kop_Key o') \<noteq> (kop_ClientId op, kop_SeqId op, kop_Key op)"
    if "g \<noteq> 0" "executes op (grp w g)" "o' \<in> set H" for o'
  proof
    assume same: "(kop_ClientId o', kop_SeqId o', kop_Key o') = (kop_ClientId op, kop_SeqId op, kop_Key op)"
    have "keepsAt H (key2shard (kop_Key op)) (grp w g)"
      using contentsInvD(2) [OF mhist_contentsInv [OF h_client(1) assms(2)]] that(1,2) key2shard_less
      by (simp add: inv_served_def executes_def)
    then have "\<not> newer (skvSeq (grp w g)) (kop_ClientId op) (kop_SeqId op)"
      using that(3) same unfolding keeps_def skvSeq_seqOf by force
    then show False using that(2) by (simp add: executes_def)
  qed
  then have "(kop_ClientId op, kop_SeqId op, kop_Key op) \<notin> (\<lambda>op. (kop_ClientId op, kop_SeqId op, kop_Key op)) ` set H"
    if "g \<noteq> 0 \<and> executes op (grp w g)" using that by (metis (no_types, lifting) imageE)
  then show ?case using h_client.IH by simp
qed simp_all

section \<open>A run\<close>

text \<open>All shards belong to group 1, and a client writes to it, twice the same request.\<close>

lemma mhist_admin: "(madmin cfgs)\<^sup>*\<^sup>* w w' \<Longrightarrow> mhist cfgs w H \<Longrightarrow> mhist cfgs w' H"
  by (induction rule: rtranclp_induct) (blast intro: h_admin)+

definition exPutOp :: Op where
  "exPutOp = PutAppendOp \<lparr>spa_Key = ''a'', spa_Value = ''x'', spa_Op = ''Put'', spa_ClientId = 5, spa_SeqId = 1\<rparr>"

abbreviation exOwner1 :: "nat \<Rightarrow> Config" where
  "exOwner1 \<equiv> \<lambda>n. if n = 0 then emptyConfig else exCfg 1 n"

lemma exOwner1_good: "goodConfigs exOwner1"
  by (auto simp: goodConfigs_def ownerOf_def exCfg_def emptyConfig_def)

lemma exWritten:
  obtains w where "mhist exOwner1 w [exPutOp]" "serves (key2shard ''a'') (grp w 1)"
proof -
  obtain w where w: "(madmin exOwner1)\<^sup>*\<^sup>* minit w" "grp w = (grp minit)(1 := applyConfig (configOp 0 (exCfg 1 1)) (grp minit 1))"
    using config_steps [of minit 1 0 exOwner1, OF exStart(5,4)] exStart(1) by (auto simp: exCfg_def)
  have h: "mhist exOwner1 w []" by (rule mhist_admin [OF w(1) h_start])
  let ?kv = "grp w 1"
  note c = applyConfig_exCfg [OF exStart(1,2,4), of 1 1]
  have len: "length (shards ?kv) = NShards" using c by (simp add: w(2) exStart(3))
  have srv: "serves (key2shard ''a'') ?kv"
    using c by (intro serves_exCfg [of _ 1]) (simp_all add: w(2) exStart(3) key2shard_less)
  have op: "isKVOp exPutOp" "skvWrite exPutOp" "kop_Key exPutOp = ''a''"
    by (simp_all add: exPutOp_def PutAppendOp_def isKVOp_def blankOp_def)
  have "skv_dupTable ?kv = Map.empty"
    by (simp add: w(2) applyConfig_def Let_def minit_def StartServer_def persister_defs)
  then have ex: "executes exPutOp ?kv" using srv op by (simp add: executes_def newer_def skvSeq_def)
  obtain kv r where app: "applyCommand exPutOp ?kv = Inr (kv, r)" using op(1) by (simp add: applyCommand_def split_beta)
  have "serves (key2shard ''a'') kv"
    using srv executes_keeps(2) [OF ex app len key2shard_less] client_keeps [OF op(1) app] by (simp add: serves_def)
  then show thesis using that [of "moveTo 1 kv w"] h_client [OF h op(1) app] ex by simp
qed

theorem served_shard_holds_writes_witness:
  "\<exists>w. mhist exOwner1 w [exPutOp] \<and> serves (key2shard ''a'') (grp w 1) \<and> skvValue (grp w 1) ''a'' = ''x''"
proof -
  obtain w where w: "mhist exOwner1 w [exPutOp]" "serves (key2shard ''a'') (grp w 1)" by (rule exWritten)
  have "skvValue (grp w 1) ''a'' = replay ''a'' [exPutOp]"
    by (rule served_shard_holds_writes [OF w(1) exOwner1_good _ w(2)]) simp
  moreover have "replay ''a'' [exPutOp] = ''x''"
    by (simp add: replay_def stepWrite_def KvStep_def skvInput_def exPutOp_def PutAppendOp_def)
  ultimately show ?thesis using w by auto
qed

theorem writes_once_across_groups_witness:
  "\<exists>w H. mhist exOwner1 w H \<and> H = [exPutOp] \<and> distinct (map (\<lambda>op. (kop_ClientId op, kop_SeqId op, kop_Key op)) H)"
proof -
  obtain w where w: "mhist exOwner1 w [exPutOp]" by (rule exWritten)
  from writes_once_across_groups [OF w exOwner1_good] w show ?thesis by blast
qed

end
