(* ===== verification/ShardKV_Clerk.thy ===== *)
theory ShardKV_Clerk
  imports ShardKV ClientId
begin

text \<open>
  \<^verbatim>\<open>shardkv/client.go\<close>: the clerk looks the shard of a key up in its configuration, tries the servers of
  the owning group from the last successful one on, and asks the controller for the latest
  configuration before it starts over. The servers (\<^verbatim>\<open>call\<close>) and the controller (\<^verbatim>\<open>query\<close>) are
  arguments; \<^verbatim>\<open>fuel\<close> bounds the rounds of the outer loop.
\<close>

record GetReply =
  sgr_Err :: Err
  sgr_Value :: string

record Clerk =
  ck_config :: Config
  ck_clientId :: int
  ck_seqId :: int
  leaderIds :: "int \<Rightarrow> nat"

definition MakeClerk :: "64 word \<Rightarrow> 64 word \<Rightarrow> Config \<Rightarrow> idgen \<Rightarrow> idgen \<times> Clerk" where
  "MakeClerk now rbits latest g =
     (case genClientId now rbits g of (g1, cid) \<Rightarrow>
        (g1, \<lparr>ck_config = latest, ck_clientId = sint cid, ck_seqId = 0, leaderIds = (\<lambda>_. 0)\<rparr>))"

definition nextSeq :: "Clerk \<Rightarrow> Clerk \<times> int" where
  "nextSeq ck = (ck\<lparr>ck_seqId := ck_seqId ck + 1\<rparr>, ck_seqId ck + 1)"

text \<open>The loop over the servers of one group: \<^verbatim>\<open>i\<close> attempts are left, \<^verbatim>\<open>si\<close> is the next server.\<close>

datatype 'rep tried = Found nat 'rep | GaveUp

fun tryServers ::
    "('rep \<Rightarrow> Err) \<Rightarrow> Err set \<Rightarrow> (string \<Rightarrow> 'rep option) \<Rightarrow> string list \<Rightarrow> nat \<Rightarrow> nat \<Rightarrow> 'rep tried go" where
  "tryServers err final call srvs 0 si = Inr GaveUp"
| "tryServers err final call srvs (Suc i) si =
     (case go_index srvs (int si) of
        Inl p \<Rightarrow> Inl p
      | Inr srv \<Rightarrow>
         (case call srv of
            Some reply \<Rightarrow>
              (if err reply \<in> final then Inr (Found si reply)
               else if err reply = ErrWrongGroup then Inr GaveUp
               else tryServers err final call srvs i ((si + 1) mod length srvs))
          | None \<Rightarrow> tryServers err final call srvs i ((si + 1) mod length srvs)))"

fun clerkRounds ::
    "nat \<Rightarrow> ('rep \<Rightarrow> Err) \<Rightarrow> Err set \<Rightarrow> (nat \<Rightarrow> string \<Rightarrow> 'rep option) \<Rightarrow> (nat \<Rightarrow> Config) \<Rightarrow> nat \<Rightarrow> nat \<Rightarrow> Clerk \<Rightarrow>
     (Clerk \<times> 'rep) option go" where
  "clerkRounds 0 err final call query rnd shard ck = Inr None"
| "clerkRounds (Suc fuel) err final call query rnd shard ck =
     (let gid = Shards (ck_config ck) ! shard;
          again = clerkRounds fuel err final call query (Suc rnd) shard (ck\<lparr>ck_config := query rnd\<rparr>)
      in case fmlookup (Groups (ck_config ck)) gid of
           None \<Rightarrow> again
         | Some srvs \<Rightarrow>
            (case tryServers err final (call rnd) srvs (length srvs) (leaderIds ck gid) of
               Inl p \<Rightarrow> Inl p
             | Inr (Found si reply) \<Rightarrow> Inr (Some (ck\<lparr>leaderIds := (leaderIds ck)(gid := si)\<rparr>, reply))
             | Inr GaveUp \<Rightarrow> again))"

definition ClerkGet ::
    "nat \<Rightarrow> (nat \<Rightarrow> string \<Rightarrow> GetArgs \<Rightarrow> GetReply option) \<Rightarrow> (nat \<Rightarrow> Config) \<Rightarrow> string \<Rightarrow> Clerk \<Rightarrow>
     (Clerk \<times> string) option go" where
  "ClerkGet fuel call query key ck =
     (case nextSeq ck of (ck1, seq) \<Rightarrow>
        let args = \<lparr>sga_Key = key, sga_ClientId = ck_clientId ck1, sga_SeqId = seq\<rparr>
        in (case clerkRounds fuel sgr_Err {OK, ErrNoKey} (\<lambda>k s. call k s args) query 0 (key2shard key) ck1 of
              Inl p \<Rightarrow> Inl p
            | Inr res \<Rightarrow> Inr (map_option
                (\<lambda>(ck2, reply). (ck2, if sgr_Err reply = ErrNoKey then '''' else sgr_Value reply)) res)))"

definition ClerkPutAppend ::
    "nat \<Rightarrow> (nat \<Rightarrow> string \<Rightarrow> PutAppendArgs \<Rightarrow> Err option) \<Rightarrow> (nat \<Rightarrow> Config) \<Rightarrow> string \<Rightarrow> string \<Rightarrow> string \<Rightarrow>
     Clerk \<Rightarrow> Clerk option go" where
  "ClerkPutAppend fuel call query key v opn ck =
     (case nextSeq ck of (ck1, seq) \<Rightarrow>
        let args = \<lparr>spa_Key = key, spa_Value = v, spa_Op = opn, spa_ClientId = ck_clientId ck1, spa_SeqId = seq\<rparr>
        in (case clerkRounds fuel id {OK} (\<lambda>k s. call k s args) query 0 (key2shard key) ck1 of
              Inl p \<Rightarrow> Inl p
            | Inr res \<Rightarrow> Inr (map_option fst res)))"

definition ClerkPut where
  "ClerkPut fuel call query key v ck = ClerkPutAppend fuel call query key v ''Put'' ck"

definition ClerkAppend where
  "ClerkAppend fuel call query key v ck = ClerkPutAppend fuel call query key v ''Append'' ck"

section \<open>The remembered server\<close>

text \<open>The clerk never indexes past the server list as long as the remembered servers exist.\<close>

lemma tryServers_no_panic:
  "si < length srvs \<Longrightarrow> \<exists>res. tryServers err final call srvs i si = Inr res \<and>
     (\<forall>s r. res = Found s r \<longrightarrow> s < length srvs \<and> call (srvs ! s) = Some r \<and> err r \<in> final)"
proof (induction i arbitrary: si)
  case (Suc i)
  have next': "(si + 1) mod length srvs < length srvs" using Suc.prems by (intro mod_less_divisor) auto
  show ?case
  proof (cases "call (srvs ! si)")
    case None
    then show ?thesis using Suc.prems Suc.IH [OF next'] by (simp add: go_index_def)
  next
    case (Some reply)
    then show ?thesis using Suc.prems Suc.IH [OF next'] by (simp add: go_index_def)
  qed
qed simp

definition leadersInRange :: "Config \<Rightarrow> (int \<Rightarrow> nat) \<Rightarrow> bool" where
  "leadersInRange cfg ids \<longleftrightarrow>
     (\<forall>g srvs. fmlookup (Groups cfg) g = Some srvs \<longrightarrow> srvs = [] \<or> ids g < length srvs)"

lemma clerkRounds_no_panic:
  assumes "leadersInRange (ck_config ck) (leaderIds ck)"
    and "\<And>k. leadersInRange (query k) (leaderIds ck)"
  shows "\<exists>res. clerkRounds fuel err final call query rnd shard ck = Inr res"
  using assms
proof (induction fuel arbitrary: rnd ck)
  case (Suc fuel)
  let ?ck = "ck\<lparr>ck_config := query rnd\<rparr>"
  have again: "\<exists>res. clerkRounds fuel err final call query (Suc rnd) shard ?ck = Inr res"
    using Suc.prems by (intro Suc.IH) simp_all
  show ?case
  proof (cases "fmlookup (Groups (ck_config ck)) (Shards (ck_config ck) ! shard)")
    case None
    then show ?thesis using again by (simp add: Let_def)
  next
    case (Some srvs)
    then have "srvs = [] \<or> leaderIds ck (Shards (ck_config ck) ! shard) < length srvs"
      using Suc.prems(1) by (auto simp: leadersInRange_def)
    moreover have "tryServers err final (call rnd) [] (length []) l = Inr GaveUp" for l by simp
    ultimately obtain res where "tryServers err final (call rnd) srvs (length srvs)
        (leaderIds ck (Shards (ck_config ck) ! shard)) = Inr res"
      using tryServers_no_panic [of "leaderIds ck (Shards (ck_config ck) ! shard)" srvs err final "call rnd" "length srvs"]
      by blast
    then show ?thesis using Some again by (cases res) (simp_all add: Let_def)
  qed
qed simp

text \<open>
  As long as every configuration the clerk sees has, for each group, at least as many servers as the
  remembered index needs, a Get does not panic, whatever the servers answer.
\<close>

lemma clerk_get_no_panic:
  assumes "leadersInRange (ck_config ck) (leaderIds ck)" "\<forall>k. leadersInRange (query k) (leaderIds ck)"
  shows "\<exists>res. ClerkGet fuel call query key ck = Inr res"
proof -
  obtain ck1 seq where ck1: "nextSeq ck = (ck1, seq)" by (cases "nextSeq ck")
  then have "ck_config ck1 = ck_config ck" "leaderIds ck1 = leaderIds ck" by (auto simp: nextSeq_def)
  then obtain res where "clerkRounds fuel sgr_Err {OK, ErrNoKey}
      (\<lambda>k s. call k s \<lparr>sga_Key = key, sga_ClientId = ck_clientId ck1, sga_SeqId = seq\<rparr>) query 0 (key2shard key) ck1 = Inr res"
    using clerkRounds_no_panic [of ck1 query] assms by metis
  then show ?thesis by (simp add: ClerkGet_def ck1 Let_def)
qed

definition exClerkConfig :: "string list \<Rightarrow> Config" where
  "exClerkConfig srvs = \<lparr>Num = 1, Shards = replicate NShards 1, Groups = fmupd 1 srvs fmempty\<rparr>"

definition exClerk :: "nat \<Rightarrow> Clerk" where
  "exClerk l = \<lparr>ck_config = exClerkConfig [''a'', ''b'', ''c''], ck_clientId = 7, ck_seqId = 0,
     leaderIds = (\<lambda>_. l)\<rparr>"

text \<open>
  The proviso is needed: the clerk keeps the remembered index when a group comes back with fewer
  servers, and the next Get on one of its shards indexes past the list.
\<close>

lemma clerk_get_panics_after_shrink:
  "ClerkGet 1 call query ''k'' ((exClerk 2)\<lparr>ck_config := exClerkConfig [''a'']\<rparr>) = Inl IndexOutOfRange"
proof -
  have "Shards (exClerkConfig [''a'']) ! key2shard ''k'' = 1"
    by (simp add: exClerkConfig_def key2shard_def NShards_def)
  then show ?thesis
    by (simp add: ClerkGet_def nextSeq_def exClerk_def Let_def go_index_def)
      (simp add: exClerkConfig_def go_index_def)
qed

end
