(* ===== verification/MR_Coordinator.thy ===== *)
theory MR_Coordinator
  imports Go_Fmt "HOL-Library.Finite_Map"
begin

text \<open>
  \<^verbatim>\<open>mr/coordinator.go\<close> and the RPC types of \<^verbatim>\<open>mr/rpc.go\<close>: the coordinator hands out map tasks, then reduce
  tasks, takes a task back after ten seconds and tracks the workers by their heartbeats. Times are
  milliseconds; the clock is an argument. A handler that starts the goroutine \<^verbatim>\<open>timeadd\<close> returns the task
  it will take back.

  The main result: no reduce task is handed out before every map task has been executed, and workers
  are sent home only when every task has been executed.
\<close>

section \<open>Data\<close>

record Args =
  Addr :: string

record Reply =
  T :: string
  N :: int
  rp_Addr :: string
  Index :: int
  MapIndex :: int

record HeartbeatArgs =
  WorkerID :: int

record HeartbeatReply =
  Stop :: bool

record workerInfo =
  lastSeen :: int

record Coordinator =
  mf :: "string list"
  book :: "(string, int) fmap"
  co_r :: int
  mtnum :: int
  rtnum :: int
  workers :: "(int, workerInfo) fmap"
  co_done :: bool

definition noReply :: Reply where
  "noReply = \<lparr>T = '''', N = 0, rp_Addr = '''', Index = 0, MapIndex = 0\<rparr>"

text \<open>\<^verbatim>\<open>c.book[key]\<close>, which is 0 for a key that is not in the map, and \<^verbatim>\<open>fmt.Sprintf("reduce-%d", i)\<close>\<close>

definition bookAt :: "Coordinator \<Rightarrow> string \<Rightarrow> int" where
  "bookAt c key = (case fmlookup (book c) key of None \<Rightarrow> 0 | Some v \<Rightarrow> v)"

definition setBook :: "string \<Rightarrow> int \<Rightarrow> Coordinator \<Rightarrow> Coordinator" where
  "setBook key v c = c\<lparr>book := fmupd key v (book c)\<rparr>"

definition reduceKey :: "nat \<Rightarrow> string" where
  "reduceKey i = ''reduce-'' @ decimal i"

section \<open>Handing out tasks\<close>

text \<open>The scan of \<^verbatim>\<open>c.mf\<close> for a task that is not started, with its position.\<close>

fun findMap :: "nat \<Rightarrow> string list \<Rightarrow> Coordinator \<Rightarrow> (nat \<times> string) option" where
  "findMap i [] c = None"
| "findMap i (addr # rest) c = (if bookAt c addr = 0 then Some (i, addr) else findMap (Suc i) rest c)"

text \<open>The first lines of both handlers: the worker reports the task it has completed.\<close>

definition reportMap :: "Args \<Rightarrow> Coordinator \<Rightarrow> Coordinator" where
  "reportMap args c =
     (if fmlookup (book c) (Addr args) = Some 1
      then (setBook (Addr args) 2 c)\<lparr>mtnum := mtnum c + 1\<rparr> else c)"

definition reportReduce :: "Args \<Rightarrow> Coordinator \<Rightarrow> Coordinator" where
  "reportReduce args c =
     (if fmlookup (book c) (Addr args) = Some 1
      then (setBook (Addr args) 2 c)\<lparr>rtnum := rtnum c + 1\<rparr> else c)"

definition maptask :: "Args \<Rightarrow> Coordinator \<Rightarrow> Coordinator \<times> Reply \<times> string option" where
  "maptask args c =
     (let c1 = reportMap args c
      in if mtnum c1 = int (length (mf c1)) then (c1, noReply\<lparr>T := ''wait''\<rparr>, None)
         else case findMap 0 (mf c1) c1 of
           Some (i, addr) \<Rightarrow>
             (setBook addr 1 c1,
              noReply\<lparr>T := ''map'', N := co_r c1, rp_Addr := addr, MapIndex := int i\<rparr>, Some addr)
         | None \<Rightarrow> (c1, noReply\<lparr>T := ''wait''\<rparr>, None))"

definition findReduce :: "Coordinator \<Rightarrow> nat option" where
  "findReduce c = find (\<lambda>i. bookAt c (reduceKey i) = 0) [0..<nat (co_r c)]"

definition reducetask :: "Args \<Rightarrow> Coordinator \<Rightarrow> Coordinator \<times> Reply \<times> string option" where
  "reducetask args c =
     (let c1 = reportReduce args c
      in if rtnum c1 = co_r c1 then (c1\<lparr>co_done := True\<rparr>, noReply\<lparr>T := ''exit''\<rparr>, None)
         else case findReduce c1 of
           Some i \<Rightarrow>
             (setBook (reduceKey i) 1 c1,
              noReply\<lparr>T := ''reduce'', Index := int i, rp_Addr := reduceKey i\<rparr>, Some (reduceKey i))
         | None \<Rightarrow> (c1, noReply\<lparr>T := ''wait''\<rparr>, None))"

definition CoordinatorHandler :: "Args \<Rightarrow> Coordinator \<Rightarrow> Coordinator \<times> Reply \<times> string option" where
  "CoordinatorHandler args c =
     (if mtnum c < int (length (mf c)) then maptask args c else reducetask args c)"

definition timeadd :: "string \<Rightarrow> Coordinator \<Rightarrow> Coordinator" where
  "timeadd key c = (if bookAt c key = 1 then setBook key 0 c else c)"

section \<open>Workers\<close>

definition Heartbeat :: "int \<Rightarrow> HeartbeatArgs \<Rightarrow> Coordinator \<Rightarrow> Coordinator \<times> HeartbeatReply" where
  "Heartbeat now args c =
     (if co_done c
      then (c\<lparr>workers := fmdrop (WorkerID args) (workers c)\<rparr>, \<lparr>Stop = True\<rparr>)
      else (c\<lparr>workers := fmupd (WorkerID args) \<lparr>lastSeen = now\<rparr> (workers c)\<rparr>, \<lparr>Stop = False\<rparr>))"

text \<open>
  One round of \<^verbatim>\<open>watchWorkers\<close>; the second component says that the goroutine goes on to remove the
  intermediate files and ends.
\<close>

definition watchWorkers :: "int \<Rightarrow> Coordinator \<Rightarrow> Coordinator \<times> bool" where
  "watchWorkers now c =
     (let live = fmfilter (\<lambda>i. \<not> (now - lastSeen (the (fmlookup (workers c) i)) > 15000)) (workers c)
      in (c\<lparr>workers := live\<rparr>, co_done c \<and> fmdom live = {||}))"

definition Done :: "Coordinator \<Rightarrow> bool" where
  "Done c \<longleftrightarrow> co_done c \<and> fmdom (workers c) = {||}"

definition MakeCoordinator :: "string list \<Rightarrow> int \<Rightarrow> Coordinator" where
  "MakeCoordinator files nReduce =
     (let c0 = \<lparr>mf = files, book = fmempty, co_r = nReduce, mtnum = 0, rtnum = 0, workers = fmempty,
                co_done = False\<rparr>;
          c1 = fold (\<lambda>v. setBook v 0) (mf c0) c0
      in fold (\<lambda>i. setBook (reduceKey i) 0) [0..<nat nReduce] c1)"

lemmas coord_defs = reportMap_def reportReduce_def maptask_def reducetask_def CoordinatorHandler_def timeadd_def Heartbeat_def
  watchWorkers_def noReply_def

section \<open>The job as a whole\<close>

text \<open>
  The coordinator with its sleeping \<^verbatim>\<open>timeadd\<close> goroutines. \<^verbatim>\<open>handed\<close> and \<^verbatim>\<open>executed\<close> are history variables: the tasks
  handed out so far, and those that some worker has executed without error. A worker reports a
  task only after that, else it reports nothing (the empty string). Workers may be slow, crash, or
  have the same task at once.
\<close>

record mrsys =
  coord :: Coordinator
  sleeping :: "string multiset"
  handed :: "string set"
  executed :: "string set"

definition mrinit :: "string list \<Rightarrow> int \<Rightarrow> mrsys" where
  "mrinit files n = \<lparr>coord = MakeCoordinator files n, sleeping = {#}, handed = {}, executed = {}\<rparr>"

inductive mrstep :: "mrsys \<Rightarrow> mrsys \<Rightarrow> bool" where
  request:
  "\<lbrakk>Addr args = '''' \<or> Addr args \<in> executed w;
    CoordinatorHandler args (coord w) = (c, reply, task)\<rbrakk> \<Longrightarrow>
   mrstep w (w\<lparr>coord := c,
               sleeping := (case task of None \<Rightarrow> sleeping w | Some k \<Rightarrow> sleeping w + {#k#}),
               handed := (case task of None \<Rightarrow> handed w | Some k \<Rightarrow> insert k (handed w))\<rparr>)"
| execute: "k \<in> handed w \<Longrightarrow> mrstep w (w\<lparr>executed := insert k (executed w)\<rparr>)"
| timeout:
  "k \<in># sleeping w \<Longrightarrow>
   mrstep w (w\<lparr>coord := timeadd k (coord w), sleeping := sleeping w - {#k#}\<rparr>)"
| heartbeat: "mrstep w (w\<lparr>coord := fst (Heartbeat now args (coord w))\<rparr>)"
| watch: "mrstep w (w\<lparr>coord := fst (watchWorkers now (coord w))\<rparr>)"

inductive mrreach :: "string list \<Rightarrow> int \<Rightarrow> mrsys \<Rightarrow> bool" for files n where
  start: "mrreach files n (mrinit files n)"
| step: "mrreach files n w \<Longrightarrow> mrstep w w' \<Longrightarrow> mrreach files n w'"

section \<open>Bookkeeping\<close>

lemma reduceKey_inj [simp]: "reduceKey i = reduceKey j \<longleftrightarrow> i = j"
  by (simp add: reduceKey_def decimal_inj)

lemma reduceKey_not_Nil [simp]: "reduceKey i \<noteq> []"
  by (simp add: reduceKey_def)

lemma bookAt_setBook [simp]: "bookAt (setBook k v c) k' = (if k' = k then v else bookAt c k')"
  by (simp add: bookAt_def setBook_def)

lemma setBook_fields [simp]:
  "mf (setBook k v c) = mf c" "co_r (setBook k v c) = co_r c" "mtnum (setBook k v c) = mtnum c"
  "rtnum (setBook k v c) = rtnum c" "co_done (setBook k v c) = co_done c"
  "workers (setBook k v c) = workers c"
  by (simp_all add: setBook_def)

lemma bookAt_update [simp]:
  "bookAt (c\<lparr>mtnum := x\<rparr>) k = bookAt c k" "bookAt (c\<lparr>rtnum := x\<rparr>) k = bookAt c k"
  "bookAt (c\<lparr>co_done := b\<rparr>) k = bookAt c k" "bookAt (c\<lparr>workers := ws\<rparr>) k = bookAt c k"
  by (simp_all add: bookAt_def)

lemma fmlookup_book_1: "fmlookup (book c) k = Some 1 \<longleftrightarrow> bookAt c k = 1"
  by (simp add: bookAt_def split: option.split)

lemma findMap_Some:
  "findMap i ks c = Some (j, k) \<Longrightarrow>
   k \<in> set ks \<and> bookAt c k = 0 \<and> i \<le> j \<and> j < i + length ks \<and> ks ! (j - i) = k"
proof (induction ks arbitrary: i)
  case (Cons a ks)
  show ?case
  proof (cases "bookAt c a = 0")
    case False
    with Cons.prems have "findMap (Suc i) ks c = Some (j, k)" by simp
    from Cons.IH [OF this] show ?thesis by (auto simp: nth_Cons')
  qed (use Cons in auto)
qed simp

lemma findMap_None: "findMap i ks c = None \<longleftrightarrow> (\<forall>k \<in> set ks. bookAt c k \<noteq> 0)"
  by (induction ks arbitrary: i) auto

text \<open>How many of the given tasks are completed.\<close>

definition completed :: "Coordinator \<Rightarrow> string list \<Rightarrow> nat" where
  "completed c ks = length (filter (\<lambda>k. bookAt c k = 2) ks)"

lemma completed_finish:
  "distinct ks \<Longrightarrow> k \<in> set ks \<Longrightarrow> bookAt c k \<noteq> 2 \<Longrightarrow> completed (setBook k 2 c) ks = Suc (completed c ks)"
proof (induction ks)
  case (Cons a ks)
  show ?case
  proof (cases "a = k")
    case True
    with Cons.prems have "filter (\<lambda>x. bookAt (setBook k 2 c) x = 2) ks = filter (\<lambda>x. bookAt c x = 2) ks"
      by (intro filter_cong) auto
    with True Cons.prems show ?thesis by (simp add: completed_def del: bookAt_setBook) simp
  next
    case False
    with Cons show ?thesis by (auto simp: completed_def)
  qed
qed (simp add: completed_def)

lemma completed_other:
  assumes "v \<noteq> 2" "bookAt c k \<noteq> 2"
  shows "completed (setBook k v c) ks = completed c ks"
  unfolding completed_def using assms by (intro arg_cong [of _ _ length] filter_cong) auto

lemma completed_notin: "k \<notin> set ks \<Longrightarrow> completed (setBook k v c) ks = completed c ks"
  unfolding completed_def by (intro arg_cong [of _ _ length] filter_cong) auto

lemma completed_update [simp]:
  "completed (c\<lparr>mtnum := x\<rparr>) ks = completed c ks" "completed (c\<lparr>rtnum := x\<rparr>) ks = completed c ks"
  "completed (c\<lparr>co_done := b\<rparr>) ks = completed c ks" "completed (c\<lparr>workers := ws\<rparr>) ks = completed c ks"
  by (simp_all add: completed_def)

lemma completed_all: "completed c ks = length ks \<longleftrightarrow> (\<forall>k \<in> set ks. bookAt c k = 2)"
proof
  assume "completed c ks = length ks"
  then have "\<not> length (filter (\<lambda>k. bookAt c k = 2) ks) < length ks" by (simp add: completed_def)
  then show "\<forall>k \<in> set ks. bookAt c k = 2" using length_filter_less [of _ ks "\<lambda>k. bookAt c k = 2"] by blast
qed (simp add: completed_def)

lemma completed_le: "completed c ks \<le> length ks"
  by (simp add: completed_def)

section \<open>Invariant\<close>

definition reduceKeys :: "int \<Rightarrow> string list" where
  "reduceKeys n = map reduceKey [0..<nat n]"

text \<open>
  The inputs for which the names of tasks are unambiguous: no file is given twice, none has the name
  of a reduce task, none has the empty name that workers use to report nothing.
\<close>

definition goodJob :: "string list \<Rightarrow> int \<Rightarrow> bool" where
  "goodJob files n \<longleftrightarrow> distinct files \<and> '''' \<notin> set files \<and> set files \<inter> set (reduceKeys n) = {} \<and> 0 \<le> n"

definition jobInv :: "string list \<Rightarrow> int \<Rightarrow> string set \<Rightarrow> Coordinator \<Rightarrow> bool" where
  "jobInv files n E c \<longleftrightarrow>
     mf c = files \<and> co_r c = n \<and>
     mtnum c = int (completed c files) \<and> rtnum c = int (completed c (reduceKeys n)) \<and>
     (\<forall>k. bookAt c k = 1 \<longrightarrow> k \<in> set files \<union> set (reduceKeys n)) \<and>
     (mtnum c < int (length files) \<longrightarrow> (\<forall>k \<in> set (reduceKeys n). bookAt c k = 0)) \<and>
     (\<forall>k. bookAt c k = 2 \<longrightarrow> k \<in> E) \<and>
     (co_done c \<longrightarrow> mtnum c = int (length files) \<and> rtnum c = n)"

lemma jobInvD:
  assumes "jobInv files n E c"
  shows "mf c = files" "co_r c = n" "mtnum c = int (completed c files)"
    "rtnum c = int (completed c (reduceKeys n))"
    "bookAt c k = 1 \<Longrightarrow> k \<in> set files \<union> set (reduceKeys n)"
    "mtnum c < int (length files) \<Longrightarrow> k \<in> set (reduceKeys n) \<Longrightarrow> bookAt c k = 0"
    "bookAt c k = 2 \<Longrightarrow> k \<in> E" "co_done c \<Longrightarrow> mtnum c = int (length files) \<and> rtnum c = n"
  using assms by (auto simp: jobInv_def)

lemma Nil_not_reduceKeys [simp]: "[] \<notin> set (reduceKeys n)"
  by (auto simp: reduceKeys_def dest: sym)

lemma distinct_reduceKeys [simp]: "distinct (reduceKeys n)"
  by (auto simp: reduceKeys_def distinct_map inj_on_def)

lemma length_reduceKeys [simp]: "length (reduceKeys n) = nat n"
  by (simp add: reduceKeys_def)

lemma fold_setBook:
  "bookAt (fold (\<lambda>x. setBook (f x) 0) xs c) k = (if k \<in> f ` set xs then 0 else bookAt c k)"
  "mf (fold (\<lambda>x. setBook (f x) 0) xs c) = mf c" "co_r (fold (\<lambda>x. setBook (f x) 0) xs c) = co_r c"
  "mtnum (fold (\<lambda>x. setBook (f x) 0) xs c) = mtnum c" "rtnum (fold (\<lambda>x. setBook (f x) 0) xs c) = rtnum c"
  "co_done (fold (\<lambda>x. setBook (f x) 0) xs c) = co_done c"
  by (induction xs arbitrary: c) auto

lemma MakeCoordinator_simps [simp]:
  "bookAt (MakeCoordinator files n) k = 0" "mf (MakeCoordinator files n) = files"
  "co_r (MakeCoordinator files n) = n" "mtnum (MakeCoordinator files n) = 0"
  "rtnum (MakeCoordinator files n) = 0" "\<not> co_done (MakeCoordinator files n)"
  using fold_setBook [of reduceKey] fold_setBook [of "\<lambda>x. x"]
  by (simp_all add: MakeCoordinator_def Let_def) (simp add: bookAt_def)

lemma jobInv_start:
  "jobInv files n E (MakeCoordinator files n)"
  by (simp add: jobInv_def completed_def)

lemma jobInv_finish_map:
  assumes "jobInv files n E c" "goodJob files n" "mtnum c < int (length files)"
    and "bookAt c k = 1" "k = '''' \<or> k \<in> E"
  shows "jobInv files n E ((setBook k 2 c)\<lparr>mtnum := mtnum c + 1\<rparr>)"
proof -
  note I = jobInvD [OF assms(1)]
  have k: "k \<in> set files" "k \<notin> set (reduceKeys n)"
    using I(5) [OF assms(4)] I(6) [OF assms(3), of k] assms(4) by auto
  then have "k \<in> E" using assms(2,5) by (auto simp: goodJob_def)
  moreover have "completed (setBook k 2 c) files = Suc (completed c files)"
    using assms(2,4) k by (intro completed_finish) (auto simp: goodJob_def)
  moreover have "completed (setBook k 2 c) (reduceKeys n) = completed c (reduceKeys n)"
    using k by (intro completed_notin)
  moreover have "\<not> co_done c" using I(8) assms(3) by auto
  ultimately show ?thesis using I assms(3) k by (auto simp: jobInv_def)
qed

lemma jobInv_finish_reduce:
  assumes "jobInv files n E c" "goodJob files n" "\<not> mtnum c < int (length files)"
    and "bookAt c k = 1" "k = '''' \<or> k \<in> E"
  shows "jobInv files n E ((setBook k 2 c)\<lparr>rtnum := rtnum c + 1\<rparr>)"
proof -
  note I = jobInvD [OF assms(1)]
  have all: "\<forall>f \<in> set files. bookAt c f = 2"
    using I(3) assms(3) completed_le [of c files] by (simp flip: completed_all)
  with assms(4) have "k \<notin> set files" by auto
  then have k: "k \<in> set (reduceKeys n)" "k \<notin> set files" using I(5) [OF assms(4)] by auto
  then have E: "k \<in> E" using assms(5) by auto
  have fin: "completed (setBook k 2 c) (reduceKeys n) = Suc (completed c (reduceKeys n))"
    using assms(4) k by (intro completed_finish) auto
  have nd: "\<not> co_done c"
  proof
    assume "co_done c"
    then have "completed c (reduceKeys n) = length (reduceKeys n)" using I(4,8) by simp
    then have "bookAt c k = 2" using k(1) by (simp only: completed_all)
    then show False using assms(4) by simp
  qed
  have "completed (setBook k 2 c) files = completed c files" using k(2) by (rule completed_notin)
  then show ?thesis using I assms(3) k E fin nd by (auto simp: jobInv_def)
qed

lemma jobInv_assign:
  assumes "jobInv files n E c" "bookAt c k \<noteq> 2" "v \<in> {0, 1}"
    and "v = 1 \<Longrightarrow> k \<in> set files \<and> k \<notin> set (reduceKeys n) \<or>
           k \<in> set (reduceKeys n) \<and> \<not> mtnum c < int (length files)"
  shows "jobInv files n E (setBook k v c)"
proof -
  note I = jobInvD [OF assms(1)]
  have "completed (setBook k v c) ks = completed c ks" for ks
    using assms(2,3) by (intro completed_other) auto
  then show ?thesis using I assms(3,4) by (auto simp: jobInv_def)
qed

lemma jobInv_done:
  assumes "jobInv files n E c" "\<not> mtnum c < int (length files)" "rtnum c = n"
  shows "jobInv files n E (c\<lparr>co_done := True\<rparr>)"
  using jobInvD [OF assms(1)] assms(2,3) completed_le [of c files] by (auto simp: jobInv_def)

lemma jobInv_mono: "jobInv files n E c \<Longrightarrow> E \<subseteq> E' \<Longrightarrow> jobInv files n E' c"
  by (auto simp: jobInv_def)

lemma jobInv_workers: "jobInv files n E (c\<lparr>workers := ws\<rparr>) = jobInv files n E c"
  by (simp add: jobInv_def)

lemma maptask_cases:
  assumes "maptask args c = (c', reply, task)"
  obtains (wait) "c' = reportMap args c" "reply = noReply\<lparr>T := ''wait''\<rparr>" "task = None"
  | (assigned) i addr where "findMap 0 (mf (reportMap args c)) (reportMap args c) = Some (i, addr)"
      "c' = setBook addr 1 (reportMap args c)" "task = Some addr"
      "reply = noReply\<lparr>T := ''map'', N := co_r c, rp_Addr := addr, MapIndex := int i\<rparr>"
proof (cases "mtnum (reportMap args c) = int (length (mf (reportMap args c)))")
  case True
  then show thesis using assms wait by (simp add: maptask_def Let_def)
next
  case False
  have "co_r (reportMap args c) = co_r c" by (simp add: reportMap_def)
  show thesis
  proof (cases "findMap 0 (mf (reportMap args c)) (reportMap args c)")
    case None
    then show thesis using assms False by (intro wait) (simp_all add: maptask_def Let_def)
  next
    case (Some p)
    obtain i addr where p: "p = (i, addr)" by (cases p)
    show thesis using assms False Some p \<open>co_r (reportMap args c) = co_r c\<close>
      by (intro assigned [of i addr]) (simp_all add: maptask_def Let_def)
  qed
qed

lemma findReduce_Some: "findReduce c = Some i \<Longrightarrow> int i < co_r c \<and> bookAt c (reduceKey i) = 0"
  by (auto simp: findReduce_def find_Some_iff)

lemma Handler_jobInv:
  assumes "jobInv files n E c" "goodJob files n" "Addr args = '''' \<or> Addr args \<in> E"
    and "CoordinatorHandler args c = (c', reply, task)"
  shows "jobInv files n E c'"
proof (cases "mtnum c < int (length files)")
  case True
  define c1 where "c1 = reportMap args c"
  have c1: "jobInv files n E c1"
    using jobInv_finish_map [OF assms(1,2) True _ assms(3)] assms(1)
    by (simp add: c1_def reportMap_def fmlookup_book_1)
  have h: "maptask args c = (c', reply, task)"
    using assms(4) True jobInvD(1) [OF assms(1)] by (simp add: CoordinatorHandler_def)
  from h show ?thesis
  proof (cases rule: maptask_cases)
    case (assigned i addr)
    then have "addr \<in> set files" "bookAt c1 addr = 0"
      using findMap_Some [of 0 "mf c1" c1] jobInvD(1) [OF c1] by (auto simp: c1_def)
    then show ?thesis using assigned(2) assms(2) jobInv_assign [OF c1, of addr 1] by (auto simp: goodJob_def c1_def)
  qed (use c1 in \<open>simp add: c1_def\<close>)
next
  case False
  define c1 where "c1 = reportReduce args c"
  have c1: "jobInv files n E c1"
    using jobInv_finish_reduce [OF assms(1,2) False _ assms(3)] assms(1)
    by (simp add: c1_def reportReduce_def fmlookup_book_1)
  have late: "\<not> mtnum c1 < int (length files)" using False by (simp add: c1_def reportReduce_def)
  have h: "reducetask args c = (c', reply, task)"
    using assms(4) False jobInvD(1) [OF assms(1)] by (simp add: CoordinatorHandler_def)
  show ?thesis
  proof (cases "rtnum c1 = n")
    case True
    then have "c' = c1\<lparr>co_done := True\<rparr>"
      using h jobInvD(2) [OF c1] by (auto simp: reducetask_def Let_def c1_def)
    with jobInv_done [OF c1 late True] show ?thesis by simp
  next
    case notdone: False
    show ?thesis
    proof (cases "findReduce c1")
      case None
      then have "c' = c1"
        using h notdone jobInvD(2) [OF c1] by (auto simp: reducetask_def Let_def c1_def)
      with c1 show ?thesis by simp
    next
      case (Some i)
      then have "c' = setBook (reduceKey i) 1 c1"
        using h notdone jobInvD(2) [OF c1] by (auto simp: reducetask_def Let_def c1_def)
      moreover have "reduceKey i \<in> set (reduceKeys n)" "bookAt c1 (reduceKey i) = 0"
        using findReduce_Some [OF Some] jobInvD(2) [OF c1] by (auto simp: reduceKeys_def)
      ultimately show ?thesis using jobInv_assign [OF c1, of "reduceKey i" 1] late by auto
    qed
  qed
qed

lemma mrreach_jobInv:
  assumes "mrreach files n w" "goodJob files n"
  shows "jobInv files n (executed w) (coord w)"
  using assms(1)
proof (induction rule: mrreach.induct)
  case start
  show ?case using jobInv_start by (simp add: mrinit_def)
next
  case (step w w')
  from step.hyps(2) show ?case
  proof (cases rule: mrstep.cases)
    case (request args c reply task)
    with Handler_jobInv [OF step.IH assms(2)] show ?thesis by simp
  next
    case (execute k)
    with step.IH show ?thesis by (auto intro: jobInv_mono)
  next
    case (timeout k)
    with step.IH jobInv_assign [OF step.IH, of k 0] show ?thesis by (auto simp: timeadd_def)
  next
    case (heartbeat now args)
    with step.IH show ?thesis by (simp add: Heartbeat_def jobInv_workers)
  next
    case (watch now)
    with step.IH show ?thesis by (simp add: watchWorkers_def Let_def jobInv_workers)
  qed
qed

lemma jobInv_maps_done:
  assumes "jobInv files n E c" "\<not> mtnum c < int (length files)"
  shows "set files \<subseteq> E"
  using jobInvD(3,7) [OF assms(1)] assms(2) completed_le [of c files] completed_all [of c files] by auto

lemma jobInv_reduces_done:
  assumes "jobInv files n E c" "rtnum c = n"
  shows "set (reduceKeys n) \<subseteq> E"
  using jobInvD(4,7) [OF assms(1)] assms(2) completed_all [of c "reduceKeys n"] by auto

text \<open>
  C20. For input files with distinct, non-empty names, none of them the name of a reduce task: no reduce task is handed out before every map task has been executed, and a worker is told to exit,
  and the job counts as done, only when every task has been executed; a task is described to the
  worker by the right position, name and number of buckets. Timeouts, slow workers and tasks that are
  executed twice are allowed for.
\<close>

theorem tasks_in_order:
  assumes "goodJob files n" "mrreach files n w" "Addr args = '''' \<or> Addr args \<in> executed w"
    and "CoordinatorHandler args (coord w) = (c, reply, task)"
  shows "(T reply = ''reduce'' \<or> T reply = ''exit'' \<longrightarrow> set files \<subseteq> executed w) \<and>
     (T reply = ''exit'' \<or> Done (coord w) \<longrightarrow> set files \<union> set (reduceKeys n) \<subseteq> executed w) \<and>
     (T reply = ''map'' \<longrightarrow> N reply = n \<and> 0 \<le> MapIndex reply \<and> MapIndex reply < int (length files) \<and>
        rp_Addr reply = files ! nat (MapIndex reply)) \<and>
     (T reply = ''reduce'' \<longrightarrow> 0 \<le> Index reply \<and> Index reply < n \<and>
        rp_Addr reply = reduceKey (nat (Index reply)))"
proof -
  note inv = mrreach_jobInv [OF assms(2,1)]
  note I = jobInvD [OF inv]
  note inv' = Handler_jobInv [OF inv assms(1,3,4)]
  have all: "set files \<union> set (reduceKeys n) \<subseteq> executed w" if "co_done c1" "jobInv files n (executed w) c1" for c1
    using jobInvD(8) [OF that(2,1)] jobInv_maps_done [OF that(2)] jobInv_reduces_done [OF that(2)] by auto
  have d: "Done (coord w) \<longrightarrow> set files \<union> set (reduceKeys n) \<subseteq> executed w"
    using all [OF _ inv] by (simp add: Done_def)
  show ?thesis
  proof (cases "mtnum (coord w) < int (length files)")
    case True
    have "maptask args (coord w) = (c, reply, task)" using True assms(4) I(1) by (simp add: CoordinatorHandler_def)
    then show ?thesis
    proof (cases rule: maptask_cases)
      case (assigned i addr)
      moreover have "mf (reportMap args (coord w)) = files" using I(1) by (simp add: reportMap_def)
      ultimately show ?thesis using d I(2) findMap_Some [of 0 files] by (fastforce simp: noReply_def)
    qed (use d in \<open>auto simp: noReply_def\<close>)
  next
    case False
    have "reducetask args (coord w) = (c, reply, task)" using False assms(4) I(1) by (simp add: CoordinatorHandler_def)
    then have "T reply = ''wait'' \<or> (T reply = ''exit'' \<and> co_done c) \<or>
        (\<exists>i. findReduce (reportReduce args (coord w)) = Some i \<and>
           reply = noReply\<lparr>T := ''reduce'', Index := int i, rp_Addr := reduceKey i\<rparr>)"
      by (auto simp: reducetask_def Let_def noReply_def split: if_splits option.splits)
    moreover have "co_r (reportReduce args (coord w)) = n" using I(2) by (simp add: reportReduce_def)
    ultimately show ?thesis
      using d all [OF _ inv'] jobInv_maps_done [OF inv False] by (auto simp: noReply_def dest: findReduce_Some)
  qed
qed

text \<open>A job of one file and no reduce task: the file is handed out and executed, then the workers may go.\<close>

theorem tasks_in_order_witness:
  "\<exists>w c reply. mrreach [''f''] 0 w \<and> CoordinatorHandler \<lparr>Addr = ''''\<rparr> (coord w) = (c, reply, None) \<and>
     T reply = ''exit'' \<and> ''f'' \<in> executed w"
proof -
  have good: "goodJob [''f''] 0" by (simp add: goodJob_def reduceKeys_def)
  define w1 where "w1 = mrinit [''f''] 0\<lparr>coord := fst (CoordinatorHandler \<lparr>Addr = ''''\<rparr> (MakeCoordinator [''f''] 0)),
    sleeping := {#''f''#}, handed := {''f''}\<rparr>"
  define w2 where "w2 = w1\<lparr>executed := {''f''}\<rparr>"
  define w3 where "w3 = w2\<lparr>coord := fst (CoordinatorHandler \<lparr>Addr = ''f''\<rparr> (coord w2))\<rparr>"
  note ev = w1_def w2_def w3_def mrinit_def MakeCoordinator_def coord_defs setBook_def bookAt_def
  have "mrstep (mrinit [''f''] 0) w1"
    using request [of "\<lparr>Addr = ''''\<rparr>" "mrinit [''f''] 0"] by (simp add: ev)
  moreover have "mrstep w1 w2" using execute [of "''f''" w1] by (simp add: ev)
  moreover have "mrstep w2 w3"
    using request [of "\<lparr>Addr = ''f''\<rparr>" w2] by (simp add: ev)
  ultimately have reach: "mrreach [''f''] 0 w3" by (blast intro: mrreach.intros)
  have h: "CoordinatorHandler \<lparr>Addr = ''''\<rparr> (coord w3) =
      ((coord w3)\<lparr>co_done := True\<rparr>, noReply\<lparr>T := ''exit''\<rparr>, None)"
    by (simp add: ev)
  have "Addr \<lparr>Addr = ''''\<rparr> = '''' \<or> Addr \<lparr>Addr = ''''\<rparr> \<in> executed w3" by simp
  from tasks_in_order [OF good reach this h] reach h show ?thesis by (auto simp: noReply_def)
qed

section \<open>Inputs given twice\<close>

definition dupInv :: "string list \<Rightarrow> Coordinator \<Rightarrow> bool" where
  "dupInv files c \<longleftrightarrow> mf c = files \<and> mtnum c = int (completed c (remdups files)) \<and>
     (\<forall>k. bookAt c k = 1 \<longrightarrow> k \<in> set files)"

lemma dupInv_assign:
  "dupInv files c \<Longrightarrow> bookAt c k \<noteq> 2 \<Longrightarrow> v = 0 \<or> v = 1 \<and> k \<in> set files \<Longrightarrow> dupInv files (setBook k v c)"
  using completed_other [of v c k] by (auto simp: dupInv_def)

lemma dupInv_report:
  assumes "dupInv files c"
  shows "dupInv files (reportMap args c)"
proof (cases "bookAt c (Addr args) = 1")
  case True
  then have "completed (setBook (Addr args) 2 c) (remdups files) = Suc (completed c (remdups files))"
    using assms by (intro completed_finish) (auto simp: dupInv_def)
  then show ?thesis using assms True by (auto simp: dupInv_def reportMap_def fmlookup_book_1)
qed (use assms in \<open>simp add: reportMap_def fmlookup_book_1\<close>)

lemma dupInv_map_phase:
  assumes "dupInv files c" "\<not> distinct files"
  shows "mtnum c < int (length files)"
proof -
  have "length (remdups files) < length files"
    using assms(2) by (metis length_remdups_eq length_remdups_leq order_le_less distinct_remdups remdups_id_iff_distinct)
  then show ?thesis using assms(1) completed_le [of c "remdups files"] by (simp add: dupInv_def)
qed

lemma dupInv_Handler:
  assumes "dupInv files c" "\<not> distinct files" "CoordinatorHandler args c = (c', reply, task)"
  shows "dupInv files c' \<and> T reply \<in> {''map'', ''wait''}"
proof -
  let ?c1 = "reportMap args c"
  have c1: "dupInv files ?c1" using assms(1) by (rule dupInv_report)
  have h: "maptask args c = (c', reply, task)"
    using assms dupInv_map_phase [OF assms(1,2)] by (simp add: CoordinatorHandler_def dupInv_def)
  then show ?thesis
  proof (cases rule: maptask_cases)
    case (assigned i addr)
    have "addr \<in> set files" "bookAt ?c1 addr = 0" using findMap_Some [OF assigned(1)] c1 by (auto simp: dupInv_def)
    with c1 assigned dupInv_assign [OF c1, of addr 1] show ?thesis by (simp add: noReply_def)
  qed (use c1 in \<open>simp add: noReply_def\<close>)
qed

lemma mrreach_dupInv:
  assumes "mrreach files n w" "\<not> distinct files"
  shows "dupInv files (coord w)"
  using assms(1)
proof (induction rule: mrreach.induct)
  case start
  show ?case by (simp add: dupInv_def completed_def mrinit_def)
next
  case (step w w')
  from step.hyps(2) show ?case
  proof (cases rule: mrstep.cases)
    case (request args c reply task)
    with dupInv_Handler [OF step.IH assms(2)] show ?thesis by auto
  next
    case (timeout k)
    with step.IH dupInv_assign [OF step.IH, of k 0] show ?thesis by (auto simp: timeadd_def)
  qed (use step.IH in \<open>auto simp: dupInv_def Heartbeat_def watchWorkers_def Let_def\<close>)
qed

text \<open>
  A file that is given twice is one task, but counted as two: the map phase never ends, whatever the
  workers do.
\<close>

theorem duplicate_input_stalls:
  assumes "\<not> distinct files" "mrreach files n w" "CoordinatorHandler args (coord w) = (c, reply, task)"
  shows "T reply \<in> {''map'', ''wait''}"
  using dupInv_Handler [OF mrreach_dupInv [OF assms(2,1)] assms(1,3)] by blast

end
