(* ===== verification/MR_Worker.thy ===== *)
theory MR_Worker
  imports MR_Coordinator "HOL-Library.Word" "HOL-Library.List_Lexorder" "HOL-Library.Char_ord"
begin

unbundle bit_operations_syntax

text \<open>
  \<^verbatim>\<open>mr/worker.go\<close>: the map and reduce tasks on a file system, and the main loop of a worker. The file system
  is a finite map from names to contents. \<^verbatim>\<open>mapf\<close>, \<^verbatim>\<open>reducef\<close> are the plug-in functions. What the operating
  system may refuse is a parameter: \<^verbatim>\<open>tmp_ok\<close> for creating and writing the temporary files, \<^verbatim>\<open>rename_ok\<close> for
  renaming one to its final name. \<^verbatim>\<open>sort.Slice\<close> leaves the order of equal keys open, so the sorting
  function is a parameter too.
\<close>

section \<open>Data\<close>

record KeyValue =
  Key :: string
  Value :: string

type_synonym filesys = "(string, string) fmap"

record os =
  tmp_ok :: bool
  rename_ok :: "string \<Rightarrow> bool"

datatype taskErr = CannotOpen string | TempFailed | RenameFailed string | NoIntermediate int | TooLong string

text \<open>A task ends well, returns an error, or panics; all leave a file system behind.\<close>

datatype outcome = TaskOk filesys | TaskErr taskErr filesys | TaskPanic

section \<open>Partition function\<close>

definition fnv1a :: "string \<Rightarrow> 32 word" where
  "fnv1a s = fold (\<lambda>b h. (h XOR of_nat (of_char b)) * 16777619) s 2166136261"

definition ihash :: "string \<Rightarrow> int" where
  "ihash key = uint (fnv1a key AND 0x7fffffff)"

section \<open>Map task\<close>

abbreviation tab :: char where "tab \<equiv> CHR 0x09"
abbreviation newline :: char where "newline \<equiv> CHR 0x0A"
abbreviation return :: char where "return \<equiv> CHR 0x0D"

definition formatKV :: "KeyValue \<Rightarrow> string" where
  "formatKV kv = Key kv @ [tab] @ Value kv @ [newline]"

definition mapResult :: "int \<Rightarrow> int \<Rightarrow> string" where
  "mapResult i j = ''map-result-'' @ fmtD i @ ''-'' @ fmtD j"

text \<open>The loop over the pairs: each is appended to the buffer of its bucket.\<close>

fun writeBuckets :: "nat \<Rightarrow> KeyValue list \<Rightarrow> string list \<Rightarrow> string list" where
  "writeBuckets n [] bufs = bufs"
| "writeBuckets n (kv # kva) bufs =
     (let index = nat (ihash (Key kv) mod int n)
      in writeBuckets n kva (bufs[index := bufs ! index @ formatKV kv]))"

fun renameBuckets :: "os \<Rightarrow> int \<Rightarrow> nat \<Rightarrow> string list \<Rightarrow> filesys \<Rightarrow> outcome" where
  "renameBuckets env m i [] fs = TaskOk fs"
| "renameBuckets env m i (buf # bufs) fs =
     (let dest = mapResult m (int i)
      in if rename_ok env dest then renameBuckets env m (Suc i) bufs (fmupd dest buf fs)
         else TaskErr (RenameFailed dest) fs)"

definition mapTask :: "os \<Rightarrow> (string \<Rightarrow> string \<Rightarrow> KeyValue list) \<Rightarrow> Reply \<Rightarrow> filesys \<Rightarrow> outcome" where
  "mapTask env mapf reply fs =
     (case fmlookup fs (rp_Addr reply) of
        None \<Rightarrow> TaskErr (CannotOpen (rp_Addr reply)) fs
      | Some content \<Rightarrow>
         (let kva = mapf (rp_Addr reply) content in
          if N reply < 0 then TaskPanic
          else if N reply = 0 then (if kva = [] then TaskOk fs else TaskPanic)
          else if \<not> tmp_ok env then TaskErr TempFailed fs
          else renameBuckets env (MapIndex reply) 0
                 (writeBuckets (nat (N reply)) kva (replicate (nat (N reply)) '''')) fs))"

section \<open>Reduce task\<close>

text \<open>
  \<^verbatim>\<open>filepath.Glob\<close> with one star: the names between the two fixed parts, in ascending order.
\<close>

definition globMatch :: "string \<Rightarrow> string \<Rightarrow> string \<Rightarrow> bool" where
  "globMatch pre suf name \<longleftrightarrow>
     length pre + length suf \<le> length name \<and> take (length pre) name = pre \<and>
     drop (length name - length suf) name = suf \<and>
     CHR ''/'' \<notin> set (drop (length pre) (take (length name - length suf) name))"

definition Glob :: "string \<Rightarrow> string \<Rightarrow> filesys \<Rightarrow> string list" where
  "Glob pre suf fs = sorted_list_of_fset (ffilter (globMatch pre suf) (fmdom fs))"

text \<open>
  \<^verbatim>\<open>bufio.Scanner\<close>: lines end at a newline or at the end of the file, an empty last line is no line, and a
  carriage return at the end of a line is dropped. A line that fills the buffer of one mebibyte makes
  the scan fail.
\<close>

fun splitLines :: "string \<Rightarrow> string \<Rightarrow> string list" where
  "splitLines acc [] = (if acc = [] then [] else [acc])"
| "splitLines acc (c # cs) = (if c = newline then acc # splitLines [] cs else splitLines (acc @ [c]) cs)"

definition dropCR :: "string \<Rightarrow> string" where
  "dropCR line = (if line \<noteq> [] \<and> last line = return then butlast line else line)"

definition maxLine :: nat where "maxLine = 1048576"

definition scanFile :: "string \<Rightarrow> string list option" where
  "scanFile content =
     (let lines = splitLines [] content
      in if \<exists>l \<in> set lines. length l \<ge> maxLine then None else Some (map dropCR lines))"

text \<open>\<^verbatim>\<open>strings.SplitN(line, "\t", 2)\<close>; a line without a tab is skipped.\<close>

definition parseLine :: "string \<Rightarrow> KeyValue option" where
  "parseLine line =
     (case dropWhile (\<lambda>c. c \<noteq> tab) line of
        [] \<Rightarrow> None
      | _ # v \<Rightarrow> Some \<lparr>Key = takeWhile (\<lambda>c. c \<noteq> tab) line, Value = v\<rparr>)"

fun readFiles :: "filesys \<Rightarrow> string list \<Rightarrow> KeyValue list \<Rightarrow> taskErr + KeyValue list" where
  "readFiles fs [] kva = Inr kva"
| "readFiles fs (fname # fnames) kva =
     (case fmlookup fs fname of
        None \<Rightarrow> Inl (CannotOpen fname)
      | Some content \<Rightarrow>
         (case scanFile content of
            None \<Rightarrow> Inl (TooLong fname)
          | Some lines \<Rightarrow> readFiles fs fnames (kva @ List.map_filter parseLine lines)))"

text \<open>The loop over the sorted pairs: one call of \<^verbatim>\<open>reducef\<close> for each run of equal keys.\<close>

function reduceRuns :: "(string \<Rightarrow> string list \<Rightarrow> string) \<Rightarrow> KeyValue list \<Rightarrow> (string \<times> string) list" where
  "reduceRuns reducef [] = []"
| "reduceRuns reducef (kv # kva) =
     (let run = takeWhile (\<lambda>x. Key x = Key kv) kva
      in (Key kv, reducef (Key kv) (map Value (kv # run))) #
         reduceRuns reducef (dropWhile (\<lambda>x. Key x = Key kv) kva))"
  by pat_completeness auto
termination
  by (relation "measure (length \<circ> snd)") (auto simp: less_Suc_eq_le length_dropWhile_le)

definition formatOut :: "string \<times> string \<Rightarrow> string" where
  "formatOut p = fst p @ '' '' @ snd p @ [newline]"

definition mrOut :: "int \<Rightarrow> string" where
  "mrOut i = ''mr-out-'' @ fmtD i"

definition reduceTask ::
    "os \<Rightarrow> (KeyValue list \<Rightarrow> KeyValue list) \<Rightarrow> (string \<Rightarrow> string list \<Rightarrow> string) \<Rightarrow> Reply \<Rightarrow> filesys \<Rightarrow> outcome" where
  "reduceTask env srt reducef reply fs =
     (let files = Glob ''map-result-'' (''-'' @ fmtD (Index reply)) fs in
      if files = [] then TaskErr (NoIntermediate (Index reply)) fs
      else case readFiles fs files [] of
        Inl e \<Rightarrow> TaskErr e fs
      | Inr kva \<Rightarrow>
         (let oname = mrOut (Index reply) in
          if \<not> tmp_ok env then TaskErr TempFailed fs
          else if \<not> rename_ok env oname then TaskErr (RenameFailed oname) fs
          else TaskOk (fmupd oname (concat (map formatOut (reduceRuns reducef (srt kva)))) fs)))"

section \<open>Main loop\<close>

text \<open>
  The reply variable is allocated once and passed to every call. The RPC decodes into it with gob,
  which does not transmit fields that are zero: such a field keeps the value of an earlier reply.
\<close>

definition gobInto :: "Reply \<Rightarrow> Reply \<Rightarrow> Reply" where
  "gobInto old sent =
     \<lparr>T = (if T sent = '''' then T old else T sent), N = (if N sent = 0 then N old else N sent),
      rp_Addr = (if rp_Addr sent = '''' then rp_Addr old else rp_Addr sent),
      Index = (if Index sent = 0 then Index old else Index sent),
      MapIndex = (if MapIndex sent = 0 then MapIndex old else MapIndex sent)\<rparr>"

text \<open>
  The switch of the main loop: the request to send next, or \<^term>\<open>None\<close> when the worker exits. \<^verbatim>\<open>ok\<close> says whether
  the task of the reply was executed without error.
\<close>

definition nextArgs :: "bool \<Rightarrow> Reply \<Rightarrow> Args option" where
  "nextArgs ok reply =
     (if T reply = ''map'' \<or> T reply = ''reduce'' then Some \<lparr>Addr = (if ok then rp_Addr reply else '''')\<rparr>
      else if T reply = ''exit'' then None
      else Some \<lparr>Addr = ''''\<rparr>)"

text \<open>
  A worker that is alone with a coordinator: no timeout gives a task out again (\<^verbatim>\<open>timeadd\<close>), and the
  heartbeats, which only record that the worker lives and stop it once the job is done, are left out. \<^verbatim>\<open>exec\<close> executes the task of a reply on the
  file system. The bound counts the requests; the result is the coordinator and the file system when the
  worker exits, \<^term>\<open>None\<close> when it would send another request.
\<close>

fun soloWorker ::
    "nat \<Rightarrow> (Reply \<Rightarrow> filesys \<Rightarrow> bool \<times> filesys) \<Rightarrow> Reply \<Rightarrow> Coordinator \<Rightarrow> filesys \<Rightarrow> (Coordinator \<times> filesys) option" where
  "soloWorker fuel exec reply c fs =
     (let task = T reply = ''map'' \<or> T reply = ''reduce'';
          res = (if task then exec reply fs else (False, fs))
      in case nextArgs (fst res) reply of
           None \<Rightarrow> Some (c, fs)
         | Some args \<Rightarrow>
            (case fuel of
               0 \<Rightarrow> None
             | Suc fuel' \<Rightarrow>
                (case CoordinatorHandler args c of (c', sent, _) \<Rightarrow>
                   soloWorker fuel' exec (gobInto reply sent) c' (snd res))))"

declare soloWorker.simps [simp del]

section \<open>Intermediate files\<close>

text \<open>The bucket of a pair; the hash is non-negative, so the bucket is always one of the \<^verbatim>\<open>n\<close> files.\<close>

definition bucket :: "nat \<Rightarrow> KeyValue \<Rightarrow> nat" where
  "bucket n kv = nat (ihash (Key kv) mod int n)"

lemma ihash_range: "0 \<le> ihash key \<and> ihash key < 2 ^ 31"
proof -
  have "fnv1a key AND 0x7fffffff = take_bit 31 (fnv1a key)"
    by (simp add: take_bit_eq_mask mask_eq_exp_minus_1)
  then have "ihash key = take_bit 31 (uint (fnv1a key))" by (simp add: ihash_def unsigned_take_bit_eq)
  then show ?thesis using take_bit_int_less_exp [of 31 "uint (fnv1a key)"] by simp
qed

lemma bucket_less: "0 < n \<Longrightarrow> bucket n kv < n"
  by (simp add: bucket_def nat_less_iff)

definition bucketText :: "nat \<Rightarrow> KeyValue list \<Rightarrow> nat \<Rightarrow> string" where
  "bucketText n kva j = concat (map formatKV (filter (\<lambda>kv. bucket n kv = j) kva))"

lemma length_writeBuckets [simp]: "length (writeBuckets n kva bufs) = length bufs"
  by (induction kva arbitrary: bufs) (auto simp: Let_def)

lemma writeBuckets_nth:
  "length bufs = n \<Longrightarrow> j < n \<Longrightarrow> writeBuckets n kva bufs ! j = bufs ! j @ bucketText n kva j"
proof (induction kva arbitrary: bufs)
  case (Cons kv kva)
  then show ?case
    using bucket_less [of n kv] by (cases "bucket n kv = j") (auto simp: Let_def bucketText_def bucket_def)
qed (simp add: bucketText_def)

lemma writeBuckets_text:
  "writeBuckets n kva (replicate n '''') = map (bucketText n kva) [0..<n]"
  by (rule nth_equalityI) (auto simp: writeBuckets_nth)

text \<open>The pairs that survive the trip through a file.\<close>

definition cleanKV :: "KeyValue \<Rightarrow> bool" where
  "cleanKV kv \<longleftrightarrow> tab \<notin> set (Key kv) \<and> newline \<notin> set (Key kv) \<and> newline \<notin> set (Value kv) \<and>
     (Value kv \<noteq> [] \<longrightarrow> last (Value kv) \<noteq> return) \<and> length (Key kv) + length (Value kv) + 1 < maxLine"

definition lineOf :: "KeyValue \<Rightarrow> string" where
  "lineOf kv = Key kv @ tab # Value kv"

lemma splitLines_line:
  "newline \<notin> set xs \<Longrightarrow> splitLines acc (xs @ newline # rest) = (acc @ xs) # splitLines [] rest"
  by (induction xs arbitrary: acc) auto

lemma splitLines_format:
  "list_all cleanKV kvs \<Longrightarrow> splitLines [] (concat (map formatKV kvs)) = map lineOf kvs"
proof (induction kvs)
  case (Cons kv kvs)
  have "formatKV kv = lineOf kv @ [newline]" by (simp add: formatKV_def lineOf_def)
  moreover have "newline \<notin> set (lineOf kv)" using Cons.prems by (simp add: cleanKV_def lineOf_def)
  ultimately show ?case using Cons by (simp add: splitLines_line)
qed simp

lemma parseLine_lineOf: "cleanKV kv \<Longrightarrow> parseLine (dropCR (lineOf kv)) = Some kv"
proof -
  assume clean: "cleanKV kv"
  then have "dropCR (lineOf kv) = lineOf kv" by (auto simp: dropCR_def lineOf_def cleanKV_def)
  moreover have "c \<noteq> tab" if "c \<in> set (Key kv)" for c using that clean by (auto simp: cleanKV_def)
  then have "takeWhile (\<lambda>c. c \<noteq> tab) (lineOf kv) = Key kv" "dropWhile (\<lambda>c. c \<noteq> tab) (lineOf kv) = tab # Value kv"
    using takeWhile_append2 [of "Key kv" "\<lambda>c. c \<noteq> tab"] dropWhile_append2 [of "Key kv" "\<lambda>c. c \<noteq> tab"]
    by (auto simp: lineOf_def)
  ultimately show ?thesis by (simp add: parseLine_def)
qed

text \<open>
  Reading a file back gives the pairs that were written to it.
\<close>

lemma scan_format:
  assumes "list_all cleanKV kvs"
  shows "\<exists>ls. scanFile (concat (map formatKV kvs)) = Some ls \<and> List.map_filter parseLine ls = kvs"
proof -
  have "\<not> (\<exists>l \<in> set (map lineOf kvs). length l \<ge> maxLine)"
    using assms by (auto simp: list_all_iff cleanKV_def lineOf_def)
  then have "scanFile (concat (map formatKV kvs)) = Some (map dropCR (map lineOf kvs))"
    using assms by (simp add: scanFile_def splitLines_format)
  moreover have "List.map_filter parseLine (map dropCR (map lineOf kvs)) = kvs"
    using assms by (induction kvs) (simp_all add: List.map_filter_simps parseLine_lineOf)
  ultimately show ?thesis by blast
qed

section \<open>Grouping\<close>

text \<open>What the reduce loop computes on sorted pairs: one line for each key, with all its values.\<close>

definition valuesOf :: "string \<Rightarrow> KeyValue list \<Rightarrow> string list" where
  "valuesOf k kvs = map Value (filter (\<lambda>kv. Key kv = k) kvs)"

lemma sorted_run:
  assumes "sorted (map Key (kv # kva))"
  shows "takeWhile (\<lambda>x. Key x = Key kv) kva = filter (\<lambda>x. Key x = Key kv) kva"
    "dropWhile (\<lambda>x. Key x = Key kv) kva = filter (\<lambda>x. Key x \<noteq> Key kv) kva"
proof -
  have "takeWhile (\<lambda>x. Key x = Key kv) kva = filter (\<lambda>x. Key x = Key kv) kva \<and>
      dropWhile (\<lambda>x. Key x = Key kv) kva = filter (\<lambda>x. Key x \<noteq> Key kv) kva"
    using assms
  proof (induction kva)
    case (Cons a kva)
    show ?case
    proof (cases "Key a = Key kv")
      case False
      with Cons.prems have "Key kv < Key a" by (auto simp: less_le)
      then have "\<forall>x \<in> set kva. Key x \<noteq> Key kv" using Cons.prems by fastforce
      with False show ?thesis by (auto simp: filter_empty_conv)
    qed (use Cons in auto)
  qed simp
  then show "takeWhile (\<lambda>x. Key x = Key kv) kva = filter (\<lambda>x. Key x = Key kv) kva"
    "dropWhile (\<lambda>x. Key x = Key kv) kva = filter (\<lambda>x. Key x \<noteq> Key kv) kva" by blast+
qed

lemma mset_reduceRuns:
  assumes "sorted (map Key kvs)"
  shows "mset (reduceRuns reducef kvs) =
    image_mset (\<lambda>k. (k, reducef k (valuesOf k kvs))) (mset_set (Key ` set kvs))"
  using assms
proof (induction reducef kvs rule: reduceRuns.induct)
  case (2 reducef kv kva)
  let ?rest = "filter (\<lambda>x. Key x \<noteq> Key kv) kva"
  note run = sorted_run [OF "2.prems"]
  have "sorted (map Key ?rest)" using "2.prems" by (simp add: sorted_filter)
  with "2.IH" run have IH: "mset (reduceRuns reducef ?rest) =
      image_mset (\<lambda>k. (k, reducef k (valuesOf k ?rest))) (mset_set (Key ` set ?rest))" by simp
  have keys: "Key ` set (kv # kva) = insert (Key kv) (Key ` set ?rest)" "Key kv \<notin> Key ` set ?rest" by auto
  have vals: "valuesOf k ?rest = valuesOf k (kv # kva)" if "k \<in> Key ` set ?rest" for k
    using that by (auto simp: valuesOf_def intro!: arg_cong [of _ _ "map Value"] filter_cong)
  have "mset (reduceRuns reducef (kv # kva)) =
      {#(Key kv, reducef (Key kv) (valuesOf (Key kv) (kv # kva)))#} + mset (reduceRuns reducef ?rest)"
    using run by (simp add: Let_def valuesOf_def)
  also have "\<dots> = image_mset (\<lambda>k. (k, reducef k (valuesOf k (kv # kva)))) (mset_set (insert (Key kv) (Key ` set ?rest)))"
  proof -
    have "image_mset (\<lambda>k. (k, reducef k (valuesOf k ?rest))) (mset_set (Key ` set ?rest)) =
        image_mset (\<lambda>k. (k, reducef k (valuesOf k (kv # kva)))) (mset_set (Key ` set ?rest))"
      using vals by (intro image_mset_cong) auto
    then show ?thesis unfolding IH using mset_set.insert [OF _ keys(2)] by simp
  qed
  finally show ?case by (simp only: keys(1))
qed simp

end
