(* ===== verification/MR_Job.thy ===== *)
theory MR_Job
  imports MR_Worker
begin

text \<open>
  A whole MapReduce job against its reference, \<^verbatim>\<open>main/mrsequential.go\<close>: however often and in whatever order
  the map tasks and then the reduce tasks are executed, the lines of the output files are together those of
  the sequential program.
\<close>

section \<open>The sequential program\<close>

text \<open>The loop that reads the inputs; \<^term>\<open>None\<close> is \<^verbatim>\<open>log.Fatalf\<close>.\<close>

fun seqMap :: "(string \<Rightarrow> string \<Rightarrow> KeyValue list) \<Rightarrow> filesys \<Rightarrow> string list \<Rightarrow> KeyValue list \<Rightarrow> KeyValue list option" where
  "seqMap mapf fs [] intermediate = Some intermediate"
| "seqMap mapf fs (filename # rest) intermediate =
     (case fmlookup fs filename of
        None \<Rightarrow> None
      | Some content \<Rightarrow> seqMap mapf fs rest (intermediate @ mapf filename content))"

definition seqPairs ::
    "(KeyValue list \<Rightarrow> KeyValue list) \<Rightarrow> (string \<Rightarrow> string \<Rightarrow> KeyValue list) \<Rightarrow> (string \<Rightarrow> string list \<Rightarrow> string) \<Rightarrow>
     string list \<Rightarrow> filesys \<Rightarrow> (string \<times> string) list option" where
  "seqPairs srt mapf reducef files fs =
     (if files = [] then None
      else map_option (\<lambda>intermediate. reduceRuns reducef (srt intermediate)) (seqMap mapf fs files []))"

definition mrsequential ::
    "(KeyValue list \<Rightarrow> KeyValue list) \<Rightarrow> (string \<Rightarrow> string \<Rightarrow> KeyValue list) \<Rightarrow> (string \<Rightarrow> string list \<Rightarrow> string) \<Rightarrow>
     string list \<Rightarrow> filesys \<Rightarrow> filesys option" where
  "mrsequential srt mapf reducef files fs =
     map_option (\<lambda>ps. fmupd ''mr-out-0'' (concat (map formatOut ps)) fs) (seqPairs srt mapf reducef files fs)"

section \<open>Sorting by key\<close>

text \<open>
  The contract of \<^verbatim>\<open>sort.Slice\<close> and \<^verbatim>\<open>sort.Sort\<close> with a comparison of keys: a permutation that is sorted by
  key. Nothing is promised about the order of equal keys.
\<close>

definition outOf :: "(string \<Rightarrow> string list \<Rightarrow> string) \<Rightarrow> KeyValue list \<Rightarrow> (string \<times> string) multiset" where
  "outOf reducef kvs = image_mset (\<lambda>k. (k, reducef k (valuesOf k kvs))) (mset_set (Key ` set kvs))"

text \<open>A reduce function that does not depend on the order of the values.\<close>

definition orderFree :: "(string \<Rightarrow> string list \<Rightarrow> string) \<Rightarrow> bool" where
  "orderFree reducef \<longleftrightarrow> (\<forall>k vs vs'. mset vs = mset vs' \<longrightarrow> reducef k vs = reducef k vs')"

lemma outOf_mset:
  assumes "orderFree reducef" "mset xs = mset ys"
  shows "outOf reducef xs = outOf reducef ys"
proof -
  have "mset (valuesOf k xs) = mset (valuesOf k ys)" for k
    using assms(2) by (simp add: valuesOf_def)
  then have "reducef k (valuesOf k xs) = reducef k (valuesOf k ys)" for k
    using assms(1) unfolding orderFree_def by blast
  then show ?thesis using mset_eq_setD [OF assms(2)] by (simp add: outOf_def)
qed

locale key_sort =
  fixes srt :: "KeyValue list \<Rightarrow> KeyValue list"
  assumes mset_srt: "mset (srt kvs) = mset kvs"
    and sorted_srt: "sorted (map Key (srt kvs))"
begin

lemma reduce_sorted:
  assumes "orderFree reducef"
  shows "mset (reduceRuns reducef (srt kvs)) = outOf reducef kvs"
  using mset_reduceRuns [OF sorted_srt] outOf_mset [OF assms mset_srt] by (simp add: outOf_def)

end

interpretation stable_sort: key_sort "sort_key Key"
  by unfold_locales simp_all

lemma valuesOf_filter:
  assumes "\<And>x. x \<in> set kvs \<Longrightarrow> Key x = k \<Longrightarrow> P x = Q x"
  shows "valuesOf k (filter P kvs) = valuesOf k (filter Q kvs)"
  using assms unfolding valuesOf_def filter_filter by (intro arg_cong [of _ _ "map Value"] filter_cong) auto

lemma outOf_buckets:
  assumes "m \<le> n"
  shows "outOf reducef (filter (\<lambda>kv. bucket n kv < m) kvs) =
    (\<Sum>j<m. outOf reducef (filter (\<lambda>kv. bucket n kv = j) kvs))"
  using assms
proof (induction m)
  case (Suc m)
  let ?lt = "filter (\<lambda>kv. bucket n kv < m) kvs"
    and ?eq = "filter (\<lambda>kv. bucket n kv = m) kvs" and ?le = "filter (\<lambda>kv. bucket n kv < Suc m) kvs"
  have same: "bucket n x = bucket n y" if "Key x = Key y" for x y using that by (simp add: bucket_def)
  have keys: "Key ` set ?le = Key ` set ?lt \<union> Key ` set ?eq" by (auto simp: less_Suc_eq)
  have disj: "Key ` set ?lt \<inter> Key ` set ?eq = {}"
  proof (rule equals0I)
    fix k assume "k \<in> Key ` set ?lt \<inter> Key ` set ?eq"
    then obtain x y where "Key x = Key y" "bucket n x < m" "bucket n y = m" by auto
    then show False using same [of x y] by simp
  qed
  have "valuesOf k ?le = valuesOf k ?lt" if lt: "k \<in> Key ` set ?lt" for k
  proof (rule valuesOf_filter)
    fix x :: KeyValue assume "Key x = k"
    moreover from lt obtain y where "k = Key y" "bucket n y < m" by auto
    ultimately show "(bucket n x < Suc m) = (bucket n x < m)" using same [of x y] by simp
  qed
  moreover have "valuesOf k ?le = valuesOf k ?eq" if eq: "k \<in> Key ` set ?eq" for k
  proof (rule valuesOf_filter)
    fix x :: KeyValue assume "Key x = k"
    moreover from eq obtain y where "k = Key y" "bucket n y = m" by auto
    ultimately show "(bucket n x < Suc m) = (bucket n x = m)" using same [of x y] by simp
  qed
  ultimately have "outOf reducef ?le = outOf reducef ?lt + outOf reducef ?eq"
    unfolding outOf_def keys using disj by (subst mset_set_Union) (auto intro!: arg_cong2 [of _ _ _ _ "(+)"] image_mset_cong)
  with Suc show ?case by simp
qed (simp add: outOf_def)

section \<open>Executing tasks\<close>

definition goodOs :: "os \<Rightarrow> bool" where
  "goodOs env \<longleftrightarrow> tmp_ok env \<and> (\<forall>f. rename_ok env f)"

text \<open>
  The tasks as the coordinator describes them. A worker that decodes the description into a used reply may see
  other numbers (\<^verbatim>\<open>MR_Loop\<close>, \<^verbatim>\<open>stale_index_loses_output\<close>).
\<close>

definition mapReply :: "nat \<Rightarrow> string list \<Rightarrow> nat \<Rightarrow> Reply" where
  "mapReply n files i = noReply\<lparr>T := ''map'', N := int n, rp_Addr := files ! i, MapIndex := int i\<rparr>"

definition reduceReply :: "nat \<Rightarrow> Reply" where
  "reduceReply j = noReply\<lparr>T := ''reduce'', Index := int j, rp_Addr := reduceKey j\<rparr>"

fun runTasks :: "(Reply \<Rightarrow> filesys \<Rightarrow> outcome) \<Rightarrow> Reply list \<Rightarrow> filesys \<Rightarrow> outcome" where
  "runTasks task [] fs = TaskOk fs"
| "runTasks task (reply # replies) fs =
     (case task reply fs of TaskOk fs' \<Rightarrow> runTasks task replies fs' | bad \<Rightarrow> bad)"

definition isResult :: "string \<Rightarrow> bool" where
  "isResult name \<longleftrightarrow> take (length ''map-result-'') name = ''map-result-''"

definition resName :: "nat \<Rightarrow> nat \<Rightarrow> string" where
  "resName i j = mapResult (int i) (int j)"

lemma resName_alt: "resName i j = ''map-result-'' @ decimal i @ CHR ''-'' # decimal j"
  by (simp add: resName_def mapResult_def)

lemma resName_inj [simp]: "resName i j = resName i' j' \<longleftrightarrow> i = i' \<and> j = j'"
  using dash_decimal_inj [of "decimal i" j "decimal i'" j'] by (auto simp: resName_alt decimal_inj)

lemma isResult_resName [simp]: "isResult (resName i j)"
  by (simp add: isResult_def resName_alt)

lemma not_isResult_mrOut [simp]: "\<not> isResult (mrOut j)"
  by (simp add: isResult_def mrOut_def)

lemma mrOut_inj [simp]: "mrOut (int i) = mrOut (int j) \<longleftrightarrow> i = j"
  by (simp add: mrOut_def decimal_inj)

lemma renameBuckets_ok:
  assumes "goodOs env"
  shows "\<exists>fs'. renameBuckets env (int m) i bufs fs = TaskOk fs' \<and>
     (\<forall>j < length bufs. fmlookup fs' (resName m (i + j)) = Some (bufs ! j)) \<and>
     (\<forall>name. name \<notin> resName m ` {i..<i + length bufs} \<longrightarrow> fmlookup fs' name = fmlookup fs name)"
proof (induction bufs arbitrary: i fs)
  case (Cons buf bufs)
  let ?fs = "fmupd (resName m i) buf fs"
  from Cons [of "Suc i" ?fs] obtain fs' where fs': "renameBuckets env (int m) (Suc i) bufs ?fs = TaskOk fs'"
    "\<And>j. j < length bufs \<Longrightarrow> fmlookup fs' (resName m (Suc i + j)) = Some (bufs ! j)"
    "\<And>name. name \<notin> resName m ` {Suc i..<Suc i + length bufs} \<Longrightarrow> fmlookup fs' name = fmlookup ?fs name"
    by blast
  have "renameBuckets env (int m) i (buf # bufs) fs = TaskOk fs'"
    using fs'(1) assms by (simp add: goodOs_def resName_def)
  moreover have "fmlookup fs' (resName m (i + j)) = Some ((buf # bufs) ! j)" if "j < length (buf # bufs)" for j
  proof (cases j)
    case 0
    have "resName m i \<notin> resName m ` {Suc i..<Suc i + length bufs}" by auto
    from fs'(3) [OF this] 0 show ?thesis by simp
  next
    case (Suc j')
    then show ?thesis using fs'(2) [of j'] that by simp
  qed
  moreover have "fmlookup fs' name = fmlookup fs name" if "name \<notin> resName m ` {i..<i + length (buf # bufs)}" for name
  proof -
    have "name \<notin> resName m ` {Suc i..<Suc i + length bufs}" "name \<noteq> resName m i" using that by auto
    then show ?thesis using fs'(3) by simp
  qed
  ultimately show ?case by blast
qed simp

section \<open>The map phase\<close>

text \<open>
  \<^verbatim>\<open>D\<close> are the map tasks executed so far, \<^verbatim>\<open>kvs i\<close> the pairs of task \<^verbatim>\<open>i\<close>: their files are complete, there are no
  other intermediate files, and all other files are as they were.
\<close>

definition mapped :: "nat \<Rightarrow> (nat \<Rightarrow> KeyValue list) \<Rightarrow> filesys \<Rightarrow> nat set \<Rightarrow> filesys \<Rightarrow> bool" where
  "mapped n kvs fs D fs' \<longleftrightarrow>
     (\<forall>i \<in> D. \<forall>j < n. fmlookup fs' (resName i j) = Some (bucketText n (kvs i) j)) \<and>
     (\<forall>name. isResult name \<longrightarrow> fmlookup fs' name \<noteq> None \<longrightarrow> (\<exists>i \<in> D. \<exists>j < n. name = resName i j)) \<and>
     (\<forall>name. \<not> isResult name \<longrightarrow> fmlookup fs' name = fmlookup fs name)"

lemma mapTask_mapped:
  assumes "mapped n kvs fs D fs'" "goodOs env" "0 < n" "\<not> isResult (files ! i)"
    and "fmlookup fs (files ! i) = Some content" "kvs i = mapf (files ! i) content"
  shows "\<exists>fs2. mapTask env mapf (mapReply n files i) fs' = TaskOk fs2 \<and> mapped n kvs fs (insert i D) fs2"
proof -
  obtain fs2 where fs2: "renameBuckets env (int i) 0 (map (bucketText n (kvs i)) [0..<n]) fs' = TaskOk fs2"
    "\<And>j. j < n \<Longrightarrow> fmlookup fs2 (resName i j) = Some (bucketText n (kvs i) j)"
    "\<And>name. name \<notin> resName i ` {0..<n} \<Longrightarrow> fmlookup fs2 name = fmlookup fs' name"
    using renameBuckets_ok [OF assms(2), of i 0 "map (bucketText n (kvs i)) [0..<n]" fs'] by auto
  have "fmlookup fs' (files ! i) = Some content" using assms(1,4,5) by (simp add: mapped_def)
  then have "mapTask env mapf (mapReply n files i) fs' = TaskOk fs2"
    using fs2(1) assms(2,3,6) by (simp add: mapTask_def mapReply_def noReply_def goodOs_def writeBuckets_text)
  moreover have "mapped n kvs fs (insert i D) fs2"
    unfolding mapped_def
  proof (intro conjI allI ballI impI)
    fix k j assume k: "k \<in> insert i D" "j < n"
    show "fmlookup fs2 (resName k j) = Some (bucketText n (kvs k) j)"
    proof (cases "k = i")
      case False
      then have "resName k j \<notin> resName i ` {0..<n}" by auto
      with fs2(3) k False assms(1) show ?thesis by (simp add: mapped_def)
    qed (use fs2(2) k in simp)
  next
    fix name assume name: "isResult name" "fmlookup fs2 name \<noteq> None"
    show "\<exists>k \<in> insert i D. \<exists>j < n. name = resName k j"
    proof (cases "name \<in> resName i ` {0..<n}")
      case False
      with fs2(3) name assms(1) show ?thesis unfolding mapped_def by (metis insertI2)
    qed auto
  next
    fix name assume "\<not> isResult name"
    then have "name \<notin> resName i ` {0..<n}" by auto
    with fs2(3) assms(1) \<open>\<not> isResult name\<close> show "fmlookup fs2 name = fmlookup fs name" by (simp add: mapped_def)
  qed
  ultimately show ?thesis by blast
qed

text \<open>The inputs of a job: present, not named like intermediate files, with clean pairs.\<close>

definition jobPairs :: "(string \<Rightarrow> string \<Rightarrow> KeyValue list) \<Rightarrow> string list \<Rightarrow> filesys \<Rightarrow> nat \<Rightarrow> KeyValue list" where
  "jobPairs mapf files fs i = (case fmlookup fs (files ! i) of None \<Rightarrow> [] | Some content \<Rightarrow> mapf (files ! i) content)"

definition goodInputs :: "(string \<Rightarrow> string \<Rightarrow> KeyValue list) \<Rightarrow> string list \<Rightarrow> filesys \<Rightarrow> bool" where
  "goodInputs mapf files fs \<longleftrightarrow>
     files \<noteq> [] \<and> list_all (\<lambda>f. \<not> isResult f \<and> f |\<in>| fmdom fs) files \<and>
     \<not> fBex (fmdom fs) isResult \<and>
     list_all (\<lambda>i. list_all cleanKV (jobPairs mapf files fs i)) [0..<length files]"

lemma map_phase:
  assumes "goodInputs mapf files fs" "goodOs env" "0 < n" "set ms \<subseteq> {..<length files}"
    and "mapped n (jobPairs mapf files fs) fs D fs'"
  shows "\<exists>fs1. runTasks (mapTask env mapf) (map (mapReply n files) ms) fs' = TaskOk fs1 \<and>
    mapped n (jobPairs mapf files fs) fs (D \<union> set ms) fs1"
  using assms(4,5)
proof (induction ms arbitrary: D fs')
  case (Cons i ms)
  have i: "files ! i \<in> set files" using Cons.prems(1) by simp
  then obtain content where c: "fmlookup fs (files ! i) = Some content"
    using assms(1) by (force simp: goodInputs_def list_all_iff fmdomI fmlookup_dom_iff)
  have "\<not> isResult (files ! i)" using i assms(1) by (auto simp: goodInputs_def list_all_iff)
  moreover have "jobPairs mapf files fs i = mapf (files ! i) content" using c by (simp add: jobPairs_def)
  ultimately obtain fs2 where "mapTask env mapf (mapReply n files i) fs' = TaskOk fs2"
    "mapped n (jobPairs mapf files fs) fs (insert i D) fs2"
    using mapTask_mapped [OF Cons.prems(2) assms(2,3) _ c] by blast
  with Cons.IH [of "insert i D" fs2] Cons.prems(1) show ?case by simp
qed simp

section \<open>The reduce phase\<close>

lemma globMatch_parts: "CHR ''/'' \<notin> set mid \<Longrightarrow> globMatch pre suf (pre @ mid @ suf)"
  by (simp add: globMatch_def)

lemma globMatch_resName: "globMatch ''map-result-'' (''-'' @ fmtD (int j)) (resName i j') \<longleftrightarrow> j' = j"
proof
  assume m: "globMatch ''map-result-'' (''-'' @ fmtD (int j)) (resName i j')"
  let ?name = "resName i j'" and ?suf = "CHR ''-'' # decimal j"
  have "take (length ?name - length ?suf) ?name @ ?suf = ?name"
    using m append_take_drop_id [of "length ?name - length ?suf" ?name] by (simp add: globMatch_def)
  then have "take (length ?name - length ?suf) ?name @ CHR ''-'' # decimal j =
      (''map-result-'' @ decimal i) @ CHR ''-'' # decimal j'" by (simp add: resName_alt)
  then show "j' = j" unfolding dash_decimal_inj by simp
next
  assume "j' = j"
  then show "globMatch ''map-result-'' (''-'' @ fmtD (int j)) (resName i j')"
    using globMatch_parts [of "decimal i" "''map-result-''" "CHR ''-'' # decimal j"] by (simp add: resName_alt)
qed

lemma Glob_results:
  assumes "mapped n kvs fs {..<m} fs1" "j < n"
  obtains ids where "Glob ''map-result-'' (''-'' @ fmtD (int j)) fs1 = map (\<lambda>i. resName i j) ids"
    "mset ids = mset [0..<m]"
proof -
  let ?G = "Glob ''map-result-'' (''-'' @ fmtD (int j)) fs1"
  have "name \<in> set ?G \<longleftrightarrow> name \<in> (\<lambda>i. resName i j) ` {..<m}" for name
  proof
    assume g: "name \<in> set ?G"
    then have g1: "globMatch ''map-result-'' (''-'' @ fmtD (int j)) name" and d: "fmlookup fs1 name \<noteq> None"
      by (auto simp: Glob_def fmlookup_dom_iff)
    from g1 have "isResult name" unfolding globMatch_def isResult_def by blast
    with d assms(1) obtain i j' where "i < m" "name = resName i j'" unfolding mapped_def by blast
    with g1 globMatch_resName show "name \<in> (\<lambda>i. resName i j) ` {..<m}" by simp
  next
    assume "name \<in> (\<lambda>i. resName i j) ` {..<m}"
    then obtain i where "i < m" "name = resName i j" by auto
    moreover have "globMatch ''map-result-'' (''-'' @ fmtD (int j)) (resName i j)" by (simp only: globMatch_resName)
    ultimately show "name \<in> set ?G" using assms by (simp add: Glob_def mapped_def fmlookup_dom_iff del: fmtD_int)
  qed
  then have set: "set ?G = (\<lambda>i. resName i j) ` {..<m}" by blast
  then have "\<forall>name \<in> set ?G. \<exists>i. name = resName i j" by auto
  then obtain ids where ids: "?G = map (\<lambda>i. resName i j) ids" using ex_map_conv [of ?G "\<lambda>i. resName i j"] by blast
  have "distinct ?G" by (simp add: Glob_def sorted_list_of_fset.rep_eq)
  then have "distinct ids" using ids by (simp add: distinct_map)
  moreover have "set ids = {..<m}"
  proof -
    have "(\<lambda>i. resName i j) ` set ids = (\<lambda>i. resName i j) ` {..<m}" using set ids by simp
    moreover have "inj (\<lambda>i. resName i j)" by (rule injI) simp
    ultimately show ?thesis by (simp only: inj_image_eq_iff)
  qed
  ultimately have "mset ids = mset [0..<m]" by (metis atLeast_upt distinct_upt set_eq_iff_mset_eq_distinct)
  with ids show thesis by (rule that)
qed

lemma mset_concat_map:
  assumes "mset xs = mset ys"
  shows "mset (concat (map f xs)) = mset (concat (map f ys))"
proof -
  have "mset (concat (map f zs)) = (\<Sum>z \<in># mset zs. mset (f z))" for zs by (induction zs) auto
  then show ?thesis using assms by simp
qed

lemma readFiles_clean:
  assumes "\<And>f. f \<in> set fnames \<Longrightarrow> fmlookup fs f = Some (concat (map formatKV (g f))) \<and> list_all cleanKV (g f)"
  shows "readFiles fs fnames kva = Inr (kva @ concat (map g fnames))"
  using assms
proof (induction fnames arbitrary: kva)
  case (Cons f fnames)
  then obtain ls where "scanFile (concat (map formatKV (g f))) = Some ls" "List.map_filter parseLine ls = g f"
    using scan_format [of "g f"] by auto
  with Cons show ?case by simp
qed simp

text \<open>What the reduce task \<^verbatim>\<open>j\<close> reads: the pairs of its bucket from all map tasks, in some order.\<close>

lemma reduce_reads:
  assumes "mapped n kvs fs {..<m} fs1" "j < n" "0 < m" "\<And>i. i < m \<Longrightarrow> list_all cleanKV (kvs i)"
  obtains kva where "Glob ''map-result-'' (''-'' @ fmtD (int j)) fs1 \<noteq> []"
    "readFiles fs1 (Glob ''map-result-'' (''-'' @ fmtD (int j)) fs1) [] = Inr kva"
    "mset kva = mset (filter (\<lambda>kv. bucket n kv = j) (concat (map kvs [0..<m])))"
proof -
  obtain ids where ids: "Glob ''map-result-'' (''-'' @ fmtD (int j)) fs1 = map (\<lambda>i. resName i j) ids"
    "mset ids = mset [0..<m]" using Glob_results [OF assms(1,2)] .
  let ?b = "\<lambda>i. filter (\<lambda>kv. bucket n kv = j) (kvs i)"
  define g where "g f = (THE kvs'. \<exists>i. f = resName i j \<and> kvs' = ?b i)" for f
  have g: "g (resName i j) = ?b i" for i unfolding g_def by (rule the_equality) auto
  have set: "set ids = {..<m}" using mset_eq_setD [OF ids(2)] by (simp only: atLeast_upt)
  have "readFiles fs1 (map (\<lambda>i. resName i j) ids) [] = Inr ([] @ concat (map g (map (\<lambda>i. resName i j) ids)))"
  proof (rule readFiles_clean)
    fix f assume "f \<in> set (map (\<lambda>i. resName i j) ids)"
    then obtain i where i: "i < m" "f = resName i j" using set by auto
    have "fmlookup fs1 (resName i j) = Some (bucketText n (kvs i) j)"
      using assms(1,2) i(1) by (simp add: mapped_def)
    moreover have "list_all cleanKV (?b i)" using assms(4) [OF i(1)] by (auto simp: list_all_iff)
    ultimately show "fmlookup fs1 f = Some (concat (map formatKV (g f))) \<and> list_all cleanKV (g f)"
      by (simp add: i(2) g bucketText_def)
  qed
  moreover have "concat (map g (map (\<lambda>i. resName i j) ids)) = filter (\<lambda>kv. bucket n kv = j) (concat (map kvs ids))"
    by (simp add: g filter_concat comp_def)
  moreover have "mset (concat (map kvs ids)) = mset (concat (map kvs [0..<m]))"
    using ids(2) by (rule mset_concat_map)
  moreover have "ids \<noteq> []" using set assms(3) by (metis empty_iff empty_set lessThan_iff)
  ultimately show thesis using ids(1)
    by (intro that [of "filter (\<lambda>kv. bucket n kv = j) (concat (map kvs ids))"]) simp_all
qed

definition bucketPairs ::
    "(KeyValue list \<Rightarrow> KeyValue list) \<Rightarrow> (string \<Rightarrow> string list \<Rightarrow> string) \<Rightarrow> nat \<Rightarrow> filesys \<Rightarrow> (string \<times> string) list" where
  "bucketPairs srt reducef j fs =
     (case readFiles fs (Glob ''map-result-'' (''-'' @ fmtD (int j)) fs) [] of
        Inl e \<Rightarrow> [] | Inr kva \<Rightarrow> reduceRuns reducef (srt kva))"

text \<open>Reduce tasks do not touch the intermediate files, so each of them reads the same pairs every time.\<close>

lemma Glob_cong:
  assumes "\<And>name. isResult name \<Longrightarrow> fmlookup fs2 name = fmlookup fs1 name"
  shows "Glob ''map-result-'' suf fs2 = Glob ''map-result-'' suf fs1"
proof -
  have "globMatch ''map-result-'' suf name \<Longrightarrow> isResult name" for name
    unfolding globMatch_def isResult_def by blast
  then have "ffilter (globMatch ''map-result-'' suf) (fmdom fs2) = ffilter (globMatch ''map-result-'' suf) (fmdom fs1)"
    using assms by (intro fset_eqI) (auto simp: fmlookup_dom_iff)
  then show ?thesis by (simp add: Glob_def)
qed

lemma set_Glob: "name \<in> set (Glob ''map-result-'' suf fs) \<Longrightarrow> isResult name"
  unfolding Glob_def sorted_list_of_fset_simps ffmember_filter globMatch_def isResult_def by blast

lemma readFiles_cong:
  "(\<And>name. name \<in> set fnames \<Longrightarrow> fmlookup fs2 name = fmlookup fs1 name) \<Longrightarrow>
   readFiles fs2 fnames kva = readFiles fs1 fnames kva"
  by (induction fnames arbitrary: kva) (auto split: option.split)

lemma reduce_phase:
  assumes map: "mapped n kvs fs {..<m} fs1" "0 < m" "\<And>i. i < m \<Longrightarrow> list_all cleanKV (kvs i)"
    and env: "goodOs env" and js: "set js \<subseteq> {..<n}"
    and same: "\<And>name. isResult name \<Longrightarrow> fmlookup fs2 name = fmlookup fs1 name"
    and D: "\<And>j. j \<in> D \<Longrightarrow> fmlookup fs2 (mrOut (int j)) = Some (concat (map formatOut (bucketPairs srt reducef j fs1)))"
  shows "\<exists>fs3. runTasks (reduceTask env srt reducef) (map reduceReply js) fs2 = TaskOk fs3 \<and>
    (\<forall>j \<in> D \<union> set js. fmlookup fs3 (mrOut (int j)) = Some (concat (map formatOut (bucketPairs srt reducef j fs1))))"
  using js same D
proof (induction js arbitrary: D fs2)
  case Nil
  then show ?case by simp
next
  case (Cons j js)
  let ?G = "Glob ''map-result-'' (''-'' @ fmtD (int j)) fs1"
  let ?text = "concat (map formatOut (bucketPairs srt reducef j fs1))"
  have j: "j < n" using Cons.prems(1) by simp
  obtain kva where kva: "?G \<noteq> []" "readFiles fs1 ?G [] = Inr kva" using reduce_reads [OF map(1) j map(2,3)] by metis
  have "Glob ''map-result-'' (''-'' @ fmtD (int j)) fs2 = ?G" using Cons.prems(2) by (rule Glob_cong)
  moreover have "readFiles fs2 ?G [] = readFiles fs1 ?G []"
    using Cons.prems(2) set_Glob by (intro readFiles_cong) blast
  ultimately have task: "reduceTask env srt reducef (reduceReply j) fs2 = TaskOk (fmupd (mrOut (int j)) ?text fs2)"
    using kva env by (simp add: reduceTask_def reduceReply_def noReply_def goodOs_def bucketPairs_def Let_def del: fmtD_int)
  let ?fs = "fmupd (mrOut (int j)) ?text fs2"
  have "\<exists>fs3. runTasks (reduceTask env srt reducef) (map reduceReply js) ?fs = TaskOk fs3 \<and>
    (\<forall>i \<in> insert j D \<union> set js. fmlookup fs3 (mrOut (int i)) = Some (concat (map formatOut (bucketPairs srt reducef i fs1))))"
  proof (rule Cons.IH)
    show "set js \<subseteq> {..<n}" using Cons.prems(1) by simp
    show "fmlookup ?fs name = fmlookup fs1 name" if "isResult name" for name
      using that Cons.prems(2) not_isResult_mrOut by (metis fmupd_lookup)
    show "fmlookup ?fs (mrOut (int i)) = Some (concat (map formatOut (bucketPairs srt reducef i fs1)))" if "i \<in> insert j D" for i
      using that Cons.prems(3) by auto
  qed
  with task show ?case by simp
qed

section \<open>Equivalence\<close>

lemma seqMap_pairs:
  assumes "goodInputs mapf files fs"
  shows "seqMap mapf fs files [] = Some (concat (map (jobPairs mapf files fs) [0..<length files]))"
proof -
  let ?g = "\<lambda>f. case fmlookup fs f of None \<Rightarrow> [] | Some content \<Rightarrow> mapf f content"
  have "seqMap mapf fs fl acc = Some (acc @ concat (map ?g fl))" if "set fl \<subseteq> set files" for fl acc
    using that
  proof (induction fl arbitrary: acc)
    case (Cons f fl)
    then have "f |\<in>| fmdom fs" using assms by (auto simp: goodInputs_def list_all_iff)
    then obtain c where "fmlookup fs f = Some c" by (auto simp: fmlookup_dom_iff)
    with Cons show ?case by simp
  qed simp
  moreover have "map (jobPairs mapf files fs) [0..<length files] = map ?g (map (nth files) [0..<length files])"
    by (simp add: jobPairs_def comp_def)
  ultimately show ?thesis by (simp only: map_nth order_refl append_Nil)
qed

text \<open>A job whose tasks are executed at least once: its output lines are those of all pairs, each key reduced once.\<close>

lemma job_outputs:
  assumes "goodInputs mapf files fs" "goodOs env" "0 < n" "key_sort srt" "orderFree reducef"
    and "set ms = {..<length files}" "set js = {..<n}"
  obtains fs1 fs2 outs where
    "runTasks (mapTask env mapf) (map (mapReply n files) ms) fs = TaskOk fs1"
    "runTasks (reduceTask env srt reducef) (map reduceReply js) fs1 = TaskOk fs2"
    "\<forall>j < n. fmlookup fs2 (mrOut (int j)) = Some (concat (map formatOut (outs j)))"
    "mset (concat (map outs [0..<n])) = outOf reducef (concat (map (jobPairs mapf files fs) [0..<length files]))"
proof -
  let ?m = "length files" and ?kvs = "jobPairs mapf files fs"
  let ?all = "concat (map ?kvs [0..<?m])"
  have m: "0 < ?m" and clean: "\<And>i. i < ?m \<Longrightarrow> list_all cleanKV (?kvs i)"
    using assms(1) by (auto simp: goodInputs_def list_all_iff)
  have "mapped n ?kvs fs {} fs"
    using assms(1) by (auto simp: mapped_def goodInputs_def fmlookup_dom_iff)
  from map_phase [OF assms(1-3) _ this, of ms] assms(6)
  obtain fs1 where fs1: "runTasks (mapTask env mapf) (map (mapReply n files) ms) fs = TaskOk fs1"
    "mapped n ?kvs fs {..<?m} fs1" by auto
  let ?outs = "\<lambda>j. bucketPairs srt reducef j fs1"
  from reduce_phase [OF fs1(2) m clean assms(2), of js fs1 "{}" srt reducef] assms(7)
  obtain fs2 where fs2: "runTasks (reduceTask env srt reducef) (map reduceReply js) fs1 = TaskOk fs2"
    "\<forall>j < n. fmlookup fs2 (mrOut (int j)) = Some (concat (map formatOut (?outs j)))" by auto
  have outs: "mset (?outs j) = outOf reducef (filter (\<lambda>kv. bucket n kv = j) ?all)" if j: "j < n" for j
  proof -
    obtain kva where kva: "readFiles fs1 (Glob ''map-result-'' (''-'' @ fmtD (int j)) fs1) [] = Inr kva"
      "mset kva = mset (filter (\<lambda>kv. bucket n kv = j) ?all)" by (rule reduce_reads [OF fs1(2) j m clean])
    have "?outs j = reduceRuns reducef (srt kva)" unfolding bucketPairs_def kva(1) by simp
    then show ?thesis using key_sort.reduce_sorted [OF assms(4,5), of kva] outOf_mset [OF assms(5) kva(2)] by simp
  qed
  have "mset (concat (map ?outs [0..<n])) = (\<Sum>j<n. mset (?outs j))"
    by (induction n) (simp_all add: lessThan_Suc add.commute)
  also have "\<dots> = (\<Sum>j<n. outOf reducef (filter (\<lambda>kv. bucket n kv = j) ?all))"
    using outs by simp
  also have "\<dots> = outOf reducef ?all"
    using outOf_buckets [of n n reducef ?all] bucket_less [OF assms(3)] by simp
  finally show thesis by (intro that [OF fs1(1) fs2])
qed

text \<open>
  C19. Let the input files be readable and not named like results, let no earlier results lie around, let the pairs of the map function fit
  the line format of the intermediate files (no tab or line break in a key, no line break in a value and no carriage return at its end, lines below the
  scanner's limit), and let the reduce function not depend on the order of values. Temporary files can be made and renamed, and sorting is by key. If every
  map task and then every reduce task, as the coordinator describes it, is executed at least once, in any order and repeatedly, all tasks succeed, and the lines of the output files
  \<^verbatim>\<open>mr-out-0\<close>, \<^verbatim>\<open>mr-out-1\<close>, ... are together exactly the lines that the sequential program prints.
\<close>

theorem job_equals_sequential:
  assumes "goodInputs mapf files fs" "goodOs env" "0 < n" "key_sort srt" "key_sort srt'" "orderFree reducef"
    and "set ms = {..<length files}" "set js = {..<n}"
  shows "\<exists>fs1 fs2 ps outs.
    runTasks (mapTask env mapf) (map (mapReply n files) ms) fs = TaskOk fs1 \<and>
    runTasks (reduceTask env srt reducef) (map reduceReply js) fs1 = TaskOk fs2 \<and>
    (\<forall>j < n. fmlookup fs2 (mrOut (int j)) = Some (concat (map formatOut (outs j)))) \<and>
    seqPairs srt' mapf reducef files fs = Some ps \<and> mset (concat (map outs [0..<n])) = mset ps"
proof -
  let ?all = "concat (map (jobPairs mapf files fs) [0..<length files])"
  obtain fs1 fs2 outs where job: "runTasks (mapTask env mapf) (map (mapReply n files) ms) fs = TaskOk fs1"
    "runTasks (reduceTask env srt reducef) (map reduceReply js) fs1 = TaskOk fs2"
    "\<forall>j < n. fmlookup fs2 (mrOut (int j)) = Some (concat (map formatOut (outs j)))"
    "mset (concat (map outs [0..<n])) = outOf reducef ?all"
    using job_outputs [OF assms(1-4,6-8)] .
  have "files \<noteq> []" using assms(1) by (simp add: goodInputs_def)
  then have "seqPairs srt' mapf reducef files fs = Some (reduceRuns reducef (srt' ?all))"
    by (simp add: seqPairs_def seqMap_pairs [OF assms(1)])
  moreover have "mset (reduceRuns reducef (srt' ?all)) = outOf reducef ?all" using key_sort.reduce_sorted [OF assms(5,6)] .
  ultimately show ?thesis using job by metis
qed

text \<open>Counting words of one file in two buckets, with the map task executed twice.\<close>

definition exCount :: "string \<Rightarrow> string list \<Rightarrow> string" where
  "exCount k vs = decimal (length vs)"

theorem job_equals_sequential_witness:
  "\<exists>fs1 fs2 ps outs.
    runTasks (mapTask \<lparr>tmp_ok = True, rename_ok = (\<lambda>_. True)\<rparr> (\<lambda>_ c. [\<lparr>Key = c, Value = ''1''\<rparr>]))
      (map (mapReply 2 [''f'']) [0, 0]) (fmupd ''f'' ''word'' fmempty) = TaskOk fs1 \<and>
    runTasks (reduceTask \<lparr>tmp_ok = True, rename_ok = (\<lambda>_. True)\<rparr> (sort_key Key) exCount) (map reduceReply [1, 0]) fs1 = TaskOk fs2 \<and>
    (\<forall>j < 2. fmlookup fs2 (mrOut (int j)) = Some (concat (map formatOut (outs j)))) \<and>
    seqPairs (sort_key Key) (\<lambda>_ c. [\<lparr>Key = c, Value = ''1''\<rparr>]) exCount [''f''] (fmupd ''f'' ''word'' fmempty) = Some ps \<and>
    mset (concat (map outs [0..<2])) = mset ps"
proof (rule job_equals_sequential)
  show "goodInputs (\<lambda>_ c. [\<lparr>Key = c, Value = ''1''\<rparr>]) [''f''] (fmupd ''f'' ''word'' fmempty)"
    by (simp add: goodInputs_def isResult_def jobPairs_def cleanKV_def maxLine_def)
  show "goodOs \<lparr>tmp_ok = True, rename_ok = \<lambda>_. True\<rparr>" by (simp add: goodOs_def)
  show "key_sort (sort_key Key)" "key_sort (sort_key Key)" by (rule stable_sort.key_sort_axioms)+
  show "orderFree exCount" unfolding orderFree_def exCount_def by (metis size_mset)
qed auto

end
