(* ===== verification/MR_Apps.thy ===== *)
theory MR_Apps
  imports MR_Job
begin

text \<open>
  The applications under \<^verbatim>\<open>mrapps\<close>: word count (\<^verbatim>\<open>wc.go\<close>), the inverted index (\<^verbatim>\<open>indexer.go\<close>), and the test applications
  \<^verbatim>\<open>early_exit.go\<close>, \<^verbatim>\<open>nocrash.go\<close>, \<^verbatim>\<open>crash.go\<close> and \<^verbatim>\<open>jobcount.go\<close>. A word is a maximal run of letters; the specification says so
  directly, the code goes over the text with \<^verbatim>\<open>strings.FieldsFunc\<close>. Texts are ASCII. The order in which Go ranges over a
  map is a parameter.
\<close>

section \<open>Words\<close>

definition isLetter :: "char \<Rightarrow> bool" where
  "isLetter c \<longleftrightarrow> (65 \<le> (of_char c :: nat) \<and> (of_char c :: nat) \<le> 90) \<or> (97 \<le> (of_char c :: nat) \<and> (of_char c :: nat) \<le> 122)"

text \<open>\<^verbatim>\<open>strings.FieldsFunc\<close>; \<^verbatim>\<open>cur\<close> is the field that has been begun.\<close>

fun fields :: "(char \<Rightarrow> bool) \<Rightarrow> string \<Rightarrow> string \<Rightarrow> string list" where
  "fields f cur [] = (if cur = [] then [] else [cur])"
| "fields f cur (c # cs) =
     (if f c then (if cur = [] then fields f [] cs else cur # fields f [] cs) else fields f (cur @ [c]) cs)"

definition FieldsFunc :: "string \<Rightarrow> (char \<Rightarrow> bool) \<Rightarrow> string list" where
  "FieldsFunc s f = fields f [] s"

definition wordsOf :: "string \<Rightarrow> string list" where
  "wordsOf contents = FieldsFunc contents (\<lambda>c. \<not> isLetter c)"

text \<open>Where a word stands in a text: the texts before it.\<close>

definition occurrences :: "(char \<Rightarrow> bool) \<Rightarrow> string \<Rightarrow> string \<Rightarrow> string set" where
  "occurrences f w s = {a. \<exists>b. s = a @ w @ b \<and> w \<noteq> [] \<and> (\<forall>c \<in> set w. \<not> f c) \<and>
     (a = [] \<or> f (last a)) \<and> (b = [] \<or> f (hd b))}"

lemma finite_occurrences [simp]: "finite (occurrences f w s)"
proof (rule finite_subset)
  show "occurrences f w s \<subseteq> (\<lambda>n. take n s) ` {..length s}"
  proof
    fix a assume "a \<in> occurrences f w s"
    then have "a = take (length a) s" "length a \<le> length s" by (auto simp: occurrences_def)
    then show "a \<in> (\<lambda>n. take n s) ` {..length s}" by blast
  qed
qed simp

lemma occurrences_no_word: "w = [] \<or> (\<exists>c\<in>set w. f c) \<Longrightarrow> occurrences f w s = {}"
  by (auto simp: occurrences_def)

lemma takeWhile_word:
  "\<forall>c\<in>set w. \<not> f c \<Longrightarrow> b = [] \<or> f (hd b) \<Longrightarrow> takeWhile (\<lambda>c. \<not> f c) (w @ b) = w"
  by (cases b) (auto simp: takeWhile_append2)

lemma occurrences_end:
  assumes "\<forall>c\<in>set cur. \<not> f c"
  shows "occurrences f w cur = (if w = cur \<and> cur \<noteq> [] then {[]} else {})"
proof -
  have "a = [] \<and> w = cur" if "cur = a @ w @ b" "a = [] \<or> f (last a)" "b = [] \<or> f (hd b)" for a b
  proof -
    have "a = []" using that(1,2) assms last_in_set [of a] by auto
    moreover have "b = []" using that(1,3) assms hd_in_set [of b] by auto
    ultimately show ?thesis using that(1) by simp
  qed
  then have "occurrences f w cur \<subseteq> {a. a = [] \<and> w = cur \<and> w \<noteq> []}" unfolding occurrences_def by blast
  moreover have "[] \<in> occurrences f cur cur" if "cur \<noteq> []" using assms that by (simp add: occurrences_def)
  ultimately show ?thesis by auto
qed

lemma occurrences_separator:
  assumes "\<forall>c\<in>set cur. \<not> f c" "f c"
  shows "occurrences f w (cur @ c # cs) = (if w = cur \<and> cur \<noteq> [] then {[]} else {}) \<union> (\<lambda>a. cur @ c # a) ` occurrences f w cs"
    (is "?L = ?R")
proof
  show "?R \<subseteq> ?L" using assms by (auto simp: occurrences_def split: if_splits)
  show "?L \<subseteq> ?R"
  proof
    fix a assume "a \<in> ?L"
    then obtain b where b: "cur @ c # cs = a @ w @ b" "w \<noteq> []" "\<forall>c\<in>set w. \<not> f c" "a = [] \<or> f (last a)" "b = [] \<or> f (hd b)"
      by (auto simp: occurrences_def)
    show "a \<in> ?R"
    proof (cases "a = []")
      case True
      then have "takeWhile (\<lambda>c. \<not> f c) (cur @ c # cs) = takeWhile (\<lambda>c. \<not> f c) (w @ b)" using b(1) by simp
      then have "cur = w" using takeWhile_word [OF assms(1), of "c # cs"] takeWhile_word [OF b(3,5)] assms(2) by simp
      then show ?thesis using True b(2) by simp
    next
      case False
      then have l: "last a \<in> set a" "f (last a)" using b(4) by auto
      from b(1) obtain us where "cur = a @ us \<or> cur @ us = a \<and> c # cs = us @ w @ b"
        unfolding append_eq_append_conv2 by blast
      then have us: "cur @ us = a" "c # cs = us @ w @ b" using l assms(1) by auto
      then obtain a' where a': "us = c # a'" using b(2,3) assms(2) by (cases us) (auto simp: Cons_eq_append_conv)
      then have "cs = a' @ w @ b" "a' = [] \<or> f (last a')" "a = cur @ c # a'" using us l(2) by (auto split: if_splits)
      then show ?thesis using b by (auto simp: occurrences_def)
    qed
  qed
qed

lemma count_fields:
  "\<forall>c\<in>set cur. \<not> f c \<Longrightarrow> count_list (fields f cur s) w = card (occurrences f w (cur @ s))"
proof (induction f cur s rule: fields.induct)
  case (1 f cur)
  then show ?case by (simp add: occurrences_end)
next
  case (2 f cur c cs)
  show ?case
  proof (cases "f c")
    case True
    let ?A = "if w = cur \<and> cur \<noteq> [] then {[] :: string} else {}" and ?B = "(\<lambda>a. cur @ c # a) ` occurrences f w cs"
    have "card (?A \<union> ?B) = card ?A + card ?B" by (intro card_Un_disjoint) auto
    moreover have "card ?B = card (occurrences f w cs)" by (rule card_image) (simp add: inj_on_def)
    ultimately show ?thesis using 2 True occurrences_separator [OF "2.prems" True, of w cs] by auto
  next
    case False
    then show ?thesis using 2 by simp
  qed
qed

lemma count_wordsOf: "count_list (wordsOf s) w = card (occurrences (\<lambda>c. \<not> isLetter c) w s)"
  using count_fields [of "[]"] by (simp add: wordsOf_def FieldsFunc_def)

lemma set_wordsOf: "w \<in> set (wordsOf s) \<longleftrightarrow> occurrences (\<lambda>c. \<not> isLetter c) w s \<noteq> {}"
  using count_wordsOf [of s w] by (metis card_eq_0_iff count_list_0_iff finite_occurrences)

lemma wordsOf_letters: "w \<in> set (wordsOf s) \<Longrightarrow> c \<in> set w \<Longrightarrow> isLetter c"
  unfolding set_wordsOf by (auto simp: occurrences_def)

section \<open>Word count\<close>



text \<open>The inputs of a job: files that exist, beside no file that is named like an intermediate file.\<close>

definition textOf :: "filesys \<Rightarrow> string \<Rightarrow> string" where
  "textOf fs f = (case fmlookup fs f of None \<Rightarrow> [] | Some content \<Rightarrow> content)"

definition readable :: "string list \<Rightarrow> filesys \<Rightarrow> bool" where
  "readable files fs \<longleftrightarrow> files \<noteq> [] \<and> list_all (\<lambda>f. \<not> isResult f \<and> f |\<in>| fmdom fs) files \<and> \<not> fBex (fmdom fs) isResult"

text \<open>ASCII texts whose words fit into a line of an intermediate file together with \<^verbatim>\<open>n\<close> more characters.\<close>

definition plainTexts :: "nat \<Rightarrow> string list \<Rightarrow> filesys \<Rightarrow> bool" where
  "plainTexts n files fs \<longleftrightarrow> list_all (\<lambda>f. list_all (\<lambda>c. (of_char c :: nat) < 128) (textOf fs f) \<and>
     list_all (\<lambda>w. length w + n < maxLine) (wordsOf (textOf fs f))) files"

lemma jobPairs_textOf:
  assumes "readable files fs" "i < length files"
  shows "jobPairs mapf files fs i = mapf (files ! i) (textOf fs (files ! i))"
proof -
  have "files ! i |\<in>| fmdom fs" using assms by (simp add: readable_def list_all_length)
  then show ?thesis by (auto simp: jobPairs_def textOf_def fmlookup_dom_iff)
qed

lemma jobPairs_all:
  assumes "readable files fs"
  shows "concat (map (jobPairs mapf files fs) [0..<length files]) = concat (map (\<lambda>f. mapf f (textOf fs f)) files)"
proof -
  have "map (jobPairs mapf files fs) [0..<length files] = map (\<lambda>i. mapf (files ! i) (textOf fs (files ! i))) [0..<length files]"
    using jobPairs_textOf [OF assms] by simp
  also have "\<dots> = map (\<lambda>f. mapf f (textOf fs f)) (map (nth files) [0..<length files])" by (simp add: comp_def)
  finally show ?thesis by (simp only: map_nth)
qed

lemma goodInputs_readable:
  assumes "readable files fs" "\<And>f. f \<in> set files \<Longrightarrow> list_all cleanKV (mapf f (textOf fs f))"
  shows "goodInputs mapf files fs"
proof -
  have "list_all (\<lambda>i. list_all cleanKV (jobPairs mapf files fs i)) [0..<length files]"
    using jobPairs_textOf [OF assms(1)] assms(2) [OF nth_mem] by (simp add: list_all_iff)
  then show ?thesis using assms(1) by (simp add: goodInputs_def readable_def)
qed

lemma letters_clean: "\<forall>c\<in>set w. isLetter c \<Longrightarrow> tab \<notin> set w \<and> newline \<notin> set w"
  by (auto simp: isLetter_def)




lemma keys_of_pairs:
  "Key ` set (concat (map (\<lambda>f. map (\<lambda>w. \<lparr>Key = w, Value = v f\<rparr>) (ws f)) fl)) = {w. \<exists>f\<in>set fl. w \<in> set (ws f)}"
  by (force simp: image_iff)


section \<open>The inverted index\<close>

text \<open>\<^verbatim>\<open>ord\<close> is the order in which Go ranges over the map \<^verbatim>\<open>m\<close>, any order.\<close>

definition indexMap :: "(string set \<Rightarrow> string list) \<Rightarrow> string \<Rightarrow> string \<Rightarrow> KeyValue list" where
  "indexMap ord document value = map (\<lambda>w. \<lparr>Key = w, Value = document\<rparr>) (ord (set (wordsOf value)))"

fun join :: "string list \<Rightarrow> string \<Rightarrow> string" where
  "join [] sep = []"
| "join [x] sep = x"
| "join (x # y # xs) sep = x @ sep @ join (y # xs) sep"

definition indexReduce :: "string \<Rightarrow> string list \<Rightarrow> string" where
  "indexReduce key values = (let vs = sort values in fmtD (int (length vs)) @ '' '' @ join vs '','')"

definition rangeOrder :: "(string set \<Rightarrow> string list) \<Rightarrow> bool" where
  "rangeOrder ord \<longleftrightarrow> (\<forall>A. finite A \<longrightarrow> set (ord A) = A \<and> distinct (ord A))"

lemma sort_mset_cong: "mset xs = mset ys \<Longrightarrow> sort xs = sort ys"
  by (metis mset_sort properties_for_sort sorted_sort)

lemma indexReduce_orderFree: "orderFree indexReduce"
  unfolding orderFree_def
proof (intro allI impI)
  fix k :: string and vs vs' :: "string list" assume same: "mset vs = mset vs'"
  show "indexReduce k vs = indexReduce k vs'" unfolding indexReduce_def sort_mset_cong [OF same] ..
qed

lemma filter_distinct: "distinct ws \<Longrightarrow> filter (\<lambda>w. w = k) ws = (if k \<in> set ws then [k] else [])"
  by (induction ws) auto

lemma valuesOf_documents:
  assumes "\<And>f. f \<in> set fl \<Longrightarrow> distinct (ws f)"
  shows "valuesOf k (concat (map (\<lambda>f. map (\<lambda>w. \<lparr>Key = w, Value = f\<rparr>) (ws f)) fl)) = filter (\<lambda>f. k \<in> set (ws f)) fl"
  using assms
proof (induction fl)
  case (Cons f fl)
  then have "map Value (filter (\<lambda>kv. Key kv = k) (map (\<lambda>w. \<lparr>Key = w, Value = f\<rparr>) (ws f))) = (if k \<in> set (ws f) then [f] else [])"
    by (simp add: filter_map comp_def filter_distinct)
  with Cons show ?case by (auto simp: valuesOf_def)
qed (simp add: valuesOf_def)

text \<open>
  The inverted index over a job, whatever order Go ranges over maps in: the output lists every word of the input files
  exactly once, with the number of the files it stands in and their names, sorted and separated by commas.
\<close>

lemma indexer_lists_documents:
  assumes "readable files fs" "plainTexts (Max (length ` set files) + 1) files fs" "rangeOrder ord"
    and "\<forall>f\<in>set files. newline \<notin> set f \<and> (f \<noteq> [] \<longrightarrow> last f \<noteq> return)"
    and "goodOs env" "0 < n" "key_sort srt" "set ms = {..<length files}" "set js = {..<n}"
  shows "\<exists>fs1 fs2 outs.
    runTasks (mapTask env (indexMap ord)) (map (mapReply n files) ms) fs = TaskOk fs1 \<and>
    runTasks (reduceTask env srt indexReduce) (map reduceReply js) fs1 = TaskOk fs2 \<and>
    (\<forall>j < n. fmlookup fs2 (mrOut (int j)) = Some (concat (map formatOut (outs j)))) \<and>
    mset (concat (map outs [0..<n])) =
      image_mset (\<lambda>w. (w, let ds = sort (filter (\<lambda>f. occurrences (\<lambda>c. \<not> isLetter c) w (textOf fs f) \<noteq> {}) files)
                          in decimal (length ds) @ '' '' @ join ds '',''))
        (mset_set {w. \<exists>f\<in>set files. occurrences (\<lambda>c. \<not> isLetter c) w (textOf fs f) \<noteq> {}})"
proof -
  have ord: "set (ord (set (wordsOf s))) = set (wordsOf s)" "distinct (ord (set (wordsOf s)))" for s
    using assms(3) by (simp_all add: rangeOrder_def)
  have "cleanKV \<lparr>Key = w, Value = f\<rparr>" if f: "f \<in> set files" and w: "w \<in> set (wordsOf (textOf fs f))" for f w
  proof -
    have "length f \<le> Max (length ` set files)" using f by simp
    moreover have "length w + (Max (length ` set files) + 1) < maxLine" using assms(2) f w by (auto simp: plainTexts_def list_all_iff)
    ultimately have "length w + length f + 1 < maxLine" by linarith
    then show ?thesis using assms(4) f letters_clean [of w] wordsOf_letters [OF w] by (auto simp: cleanKV_def)
  qed
  then have "goodInputs (indexMap ord) files fs"
    by (intro goodInputs_readable [OF assms(1)]) (simp add: indexMap_def list_all_iff ord)
  from job_outputs [OF this assms(5-7) indexReduce_orderFree assms(8,9)]
  obtain fs1 fs2 outs where job: "runTasks (mapTask env (indexMap ord)) (map (mapReply n files) ms) fs = TaskOk fs1"
    "runTasks (reduceTask env srt indexReduce) (map reduceReply js) fs1 = TaskOk fs2"
    "\<forall>j < n. fmlookup fs2 (mrOut (int j)) = Some (concat (map formatOut (outs j)))"
    "mset (concat (map outs [0..<n])) = outOf indexReduce (concat (map (\<lambda>f. indexMap ord f (textOf fs f)) files))"
    unfolding jobPairs_all [OF assms(1)] .
  have "outOf indexReduce (concat (map (\<lambda>f. indexMap ord f (textOf fs f)) files)) =
      image_mset (\<lambda>w. (w, let ds = sort (filter (\<lambda>f. occurrences (\<lambda>c. \<not> isLetter c) w (textOf fs f) \<noteq> {}) files)
                          in decimal (length ds) @ '' '' @ join ds '',''))
        (mset_set {w. \<exists>f\<in>set files. occurrences (\<lambda>c. \<not> isLetter c) w (textOf fs f) \<noteq> {}})"
    unfolding outOf_def indexMap_def keys_of_pairs indexReduce_def valuesOf_documents [OF ord(2)] ord(1) set_wordsOf Let_def fmtD_int ..
  then show ?thesis by (intro exI [of _ fs1] exI [of _ fs2] exI [of _ outs] conjI job(1-3) trans [OF job(4)])
qed








section \<open>Test applications\<close>

text \<open>\<^verbatim>\<open>early_exit.go\<close>; the sleep of its reduce function does not change the result.\<close>

definition earlyMap :: "string \<Rightarrow> string \<Rightarrow> KeyValue list" where
  "earlyMap filename contents = [\<lparr>Key = filename, Value = ''1''\<rparr>]"

definition earlyReduce :: "string \<Rightarrow> string list \<Rightarrow> string" where
  "earlyReduce key values = fmtD (int (length values))"

text \<open>\<^verbatim>\<open>nocrash.go\<close>, and \<^verbatim>\<open>crash.go\<close>, which for small random numbers \<^verbatim>\<open>rr\<close> ends the process: \<^term>\<open>None\<close>.\<close>

definition nocrashMap :: "string \<Rightarrow> string \<Rightarrow> KeyValue list" where
  "nocrashMap filename contents =
     [\<lparr>Key = ''a'', Value = filename\<rparr>, \<lparr>Key = ''b'', Value = fmtD (int (length filename))\<rparr>,
      \<lparr>Key = ''c'', Value = fmtD (int (length contents))\<rparr>, \<lparr>Key = ''d'', Value = ''xyzzy''\<rparr>]"

definition nocrashReduce :: "string \<Rightarrow> string list \<Rightarrow> string" where
  "nocrashReduce key values = join (sort values) '' ''"

definition maybeCrash :: "nat \<Rightarrow> unit option" where
  "maybeCrash rr = (if rr < 330 then None else Some ())"

definition crashMap :: "nat \<Rightarrow> string \<Rightarrow> string \<Rightarrow> KeyValue list option" where
  "crashMap rr filename contents = (case maybeCrash rr of None \<Rightarrow> None | Some _ \<Rightarrow> Some (nocrashMap filename contents))"

definition crashReduce :: "nat \<Rightarrow> string \<Rightarrow> string list \<Rightarrow> string option" where
  "crashReduce rr key values = (case maybeCrash rr of None \<Rightarrow> None | Some _ \<Rightarrow> Some (nocrashReduce key values))"

text \<open>A task of \<^verbatim>\<open>crash.go\<close> that survives computes what \<^verbatim>\<open>nocrash.go\<close> computes, which is order free.\<close>

lemma crash_survivor:
  "crashMap rr f c = Some kva \<Longrightarrow> kva = nocrashMap f c" "crashReduce rr k vs = Some r \<Longrightarrow> r = nocrashReduce k vs"
  by (auto simp: crashMap_def crashReduce_def split: option.splits)

lemma nocrashReduce_orderFree: "orderFree nocrashReduce"
  unfolding orderFree_def
proof (intro allI impI)
  fix k :: string and vs vs' :: "string list" assume same: "mset vs = mset vs'"
  show "nocrashReduce k vs = nocrashReduce k vs'" unfolding nocrashReduce_def sort_mset_cong [OF same] ..
qed

text \<open>
  \<^verbatim>\<open>jobcount.go\<close>: every call of \<^verbatim>\<open>Map\<close> leaves a file that carries the process and its counter, and \<^verbatim>\<open>Reduce\<close> counts those
  files. \<^verbatim>\<open>cnt\<close> is the variable \<^verbatim>\<open>count\<close> of each process.
\<close>

definition jobcountPrefix :: string where
  "jobcountPrefix = ''mr-worker-jobcount''"

definition jobcountName :: "nat \<Rightarrow> nat \<Rightarrow> string" where
  "jobcountName me n = jobcountPrefix @ ''-'' @ fmtD (int me) @ ''-'' @ fmtD (int n)"

definition jobcountMap :: "nat \<Rightarrow> (nat \<Rightarrow> nat) \<times> filesys \<Rightarrow> ((nat \<Rightarrow> nat) \<times> filesys) \<times> KeyValue list" where
  "jobcountMap me st =
     (let (cnt, fs) = st
      in ((cnt(me := cnt me + 1), fmupd (jobcountName me (cnt me)) ''x'' fs), [\<lparr>Key = ''a'', Value = ''x''\<rparr>]))"

text \<open>Calls of \<^verbatim>\<open>Map\<close> by the given processes, one after the other.\<close>

definition jobcountCalls :: "nat list \<Rightarrow> filesys \<Rightarrow> (nat \<Rightarrow> nat) \<times> filesys" where
  "jobcountCalls pids fs = fold (\<lambda>me st. fst (jobcountMap me st)) pids (\<lambda>_. 0, fs)"

definition hasPrefix :: "string \<Rightarrow> string \<Rightarrow> bool" where
  "hasPrefix s p \<longleftrightarrow> take (length p) s = p"

definition jobcountReduce :: "filesys \<Rightarrow> string" where
  "jobcountReduce fs = fmtD (int (length (filter (\<lambda>f. hasPrefix f jobcountPrefix) (sorted_list_of_fset (fmdom fs)))))"

lemma jobcountName_inj: "jobcountName p c = jobcountName q d \<longleftrightarrow> p = q \<and> c = d"
  using dash_decimal_inj [of "decimal p" c "decimal q" d] by (auto simp: jobcountName_def decimal_inj)

lemma hasPrefix_jobcountName [simp]: "hasPrefix (jobcountName p c) jobcountPrefix"
  by (simp add: hasPrefix_def jobcountName_def)

lemma jobcount_files:
  assumes "\<forall>f. hasPrefix f jobcountPrefix \<longrightarrow> f |\<notin>| fmdom fs"
  shows "case jobcountCalls pids fs of (cnt, fs') \<Rightarrow>
    (\<forall>f. f |\<in>| fmdom fs' \<and> hasPrefix f jobcountPrefix \<longrightarrow> (\<exists>p c. c < cnt p \<and> f = jobcountName p c)) \<and>
    card {f. f |\<in>| fmdom fs' \<and> hasPrefix f jobcountPrefix} = length pids"
proof (induction pids rule: rev_induct)
  case Nil
  then show ?case using assms by (auto simp: jobcountCalls_def)
next
  case (snoc me pids)
  obtain cnt fs' where st: "jobcountCalls pids fs = (cnt, fs')" by (cases "jobcountCalls pids fs")
  let ?new = "jobcountName me (cnt me)" and ?old = "{f. f |\<in>| fmdom fs' \<and> hasPrefix f jobcountPrefix}"
  have ih: "\<And>f. f \<in> ?old \<Longrightarrow> \<exists>p c. c < cnt p \<and> f = jobcountName p c" "card ?old = length pids" using snoc st by auto
  have fresh: "?new \<notin> ?old" using ih(1) [of ?new] by (auto simp: jobcountName_inj)
  have "finite ?old" using finite_fset [of "fmdom fs'"] by (rule rev_finite_subset) auto
  then have "card (insert ?new ?old) = length pids + 1" using fresh ih(2) by simp
  moreover have "{f. f |\<in>| fmdom (fmupd ?new ''x'' fs') \<and> hasPrefix f jobcountPrefix} = insert ?new ?old" by auto
  moreover have "\<exists>p c. c < (cnt(me := cnt me + 1)) p \<and> f = jobcountName p c" if "f \<in> insert ?new ?old" for f
  proof (cases "f = ?new")
    case False
    then have "f \<in> ?old" using that by blast
    from ih(1) [OF this] obtain p c where "c < cnt p" "f = jobcountName p c" by blast
    then show ?thesis by (intro exI [of _ p] exI [of _ c]) auto
  qed (intro exI [of _ me] exI [of _ "cnt me"], simp)
  moreover have "jobcountCalls (pids @ [me]) fs = (cnt(me := cnt me + 1), fmupd ?new ''x'' fs')"
    using st by (simp add: jobcountCalls_def jobcountMap_def)
  ultimately show ?case by simp
qed

text \<open>In a directory without such files, \<^verbatim>\<open>Reduce\<close> reports how often \<^verbatim>\<open>Map\<close> was called, by whichever processes.\<close>

lemma jobcount_counts_calls:
  assumes "\<forall>f. hasPrefix f jobcountPrefix \<longrightarrow> f |\<notin>| fmdom fs"
  shows "jobcountReduce (snd (jobcountCalls pids fs)) = decimal (length pids)"
proof -
  let ?fs = "snd (jobcountCalls pids fs)"
  let ?l = "filter (\<lambda>f. hasPrefix f jobcountPrefix) (sorted_list_of_fset (fmdom ?fs))"
  have "length ?l = card (set ?l)" by (rule distinct_card [symmetric]) (simp add: sorted_list_of_fset.rep_eq)
  also have "set ?l = {f. f |\<in>| fmdom ?fs \<and> hasPrefix f jobcountPrefix}" by auto
  also have "card \<dots> = length pids" using jobcount_files [OF assms, of pids] by (simp add: case_prod_beta)
  finally show ?thesis unfolding jobcountReduce_def by (simp only: fmtD_int)
qed

end
