(* ===== verification/MR_Loop.thy ===== *)
theory MR_Loop
  imports MR_Worker
begin

text \<open>
  The main loop of a worker against the coordinator: a worker that is alone and executes every task it
  gets completes the job after one request per task and at most two more; and an example of what the
  reused reply variable does to a task that is handed out again.
\<close>

section \<open>One worker completes the job\<close>

text \<open>\<^verbatim>\<open>a\<close> is the task the worker is working on, the empty string if none: the only one that is in progress.\<close>

definition soloInv :: "string list \<Rightarrow> int \<Rightarrow> Coordinator \<Rightarrow> string \<Rightarrow> bool" where
  "soloInv files n c a \<longleftrightarrow> jobInv files n UNIV c \<and> (\<forall>k. bookAt c k = 1 \<longleftrightarrow> k = a \<and> a \<noteq> '''') \<and>
     (\<forall>k. bookAt c k \<in> {0, 1, 2})"

definition need :: "string list \<Rightarrow> int \<Rightarrow> Coordinator \<Rightarrow> string \<Rightarrow> nat" where
  "need files n c a = (length files - completed c files) + (nat n - completed c (reduceKeys n)) +
     (if a = '''' then 1 else 0) + (if mtnum c < int (length files) then 1 else 0)"

definition pending :: "Reply \<Rightarrow> string" where
  "pending reply = (if T reply = ''map'' \<or> T reply = ''reduce'' then rp_Addr reply else '''')"

lemma soloInvD:
  assumes "soloInv files n c a"
  shows "jobInv files n UNIV c" "bookAt c k = 1 \<longleftrightarrow> k = a \<and> a \<noteq> ''''" "bookAt c k \<in> {0, 1, 2}"
  using assms unfolding soloInv_def by blast+

lemma completed_less: "completed c ks < length ks \<longleftrightarrow> (\<exists>k \<in> set ks. bookAt c k \<noteq> 2)"
  using completed_all [of c ks] completed_le [of c ks] by (auto simp: le_less)

lemma solo_map_step:
  assumes inv: "soloInv files n c a" and good: "goodJob files n" and ph: "mtnum c < int (length files)"
    and h: "CoordinatorHandler \<lparr>Addr = a\<rparr> c = (c', sent, t)"
  shows "soloInv files n c' (pending sent) \<and> need files n c' (pending sent) < need files n c a \<and>
    T sent \<in> {''map'', ''wait''} \<and> (T sent = ''map'' \<longrightarrow> rp_Addr sent \<noteq> '''')"
proof -
  note I = jobInvD [OF soloInvD(1) [OF inv]]
  let ?c1 = "reportMap \<lparr>Addr = a\<rparr> c"
  have rep: "?c1 = (if a = '''' then c else (setBook a 2 c)\<lparr>mtnum := mtnum c + 1\<rparr>)"
    using soloInvD(2) [OF inv, of a] soloInvD(2) [OF inv, of "''''"] by (auto simp: reportMap_def fmlookup_book_1)
  have c1: "jobInv files n UNIV ?c1"
    using jobInv_finish_map [OF soloInvD(1) [OF inv] good ph, of a] soloInvD [OF inv] rep by auto
  note I1 = jobInvD [OF c1]
  have none: "bookAt ?c1 k \<noteq> 1" and range: "bookAt ?c1 k \<in> {0, 1, 2}" for k
    using soloInvD(2,3) [OF inv, of k] rep by auto
  have red: "completed ?c1 (reduceKeys n) = completed c (reduceKeys n)" using I(4) I1(4) rep by (simp split: if_splits)
  have mt: "completed ?c1 files = completed c files + (if a = '''' then 0 else 1)"
    using I(3) I1(3) rep by (auto split: if_splits)
  have "maptask \<lparr>Addr = a\<rparr> c = (c', sent, t)" using h ph I(1) by (simp add: CoordinatorHandler_def)
  then show ?thesis
  proof (cases rule: maptask_cases)
    case wait
    have "completed ?c1 files = length files"
    proof (rule ccontr)
      assume "completed ?c1 files \<noteq> length files"
      then obtain k where "k \<in> set files" "bookAt ?c1 k = 0"
        using completed_all [of ?c1 files] none range by fastforce
      then have "findMap 0 (mf ?c1) ?c1 \<noteq> None" using I1(1) findMap_None [of 0 files ?c1] by auto
      moreover have "mtnum ?c1 \<noteq> int (length (mf ?c1))"
        using \<open>completed ?c1 files \<noteq> length files\<close> I1(1,3) by simp
      ultimately have "T sent = ''map''"
        using \<open>maptask \<lparr>Addr = a\<rparr> c = (c', sent, t)\<close> by (auto simp: maptask_def Let_def noReply_def split: if_splits)
      then show False using wait by (simp add: noReply_def)
    qed
    then have "need files n c' '''' < need files n c a"
      using mt red ph I(3) I1(3) wait(1) by (auto simp: need_def split: if_splits)
    moreover have "soloInv files n c' ''''" using c1 none range wait(1) by (simp add: soloInv_def)
    ultimately show ?thesis using wait by (simp add: pending_def noReply_def)
  next
    case (assigned i addr)
    have addr: "addr \<in> set files" "bookAt ?c1 addr = 0" "addr \<noteq> ''''"
      using findMap_Some [OF assigned(1)] I1(1) good by (auto simp: goodJob_def)
    have j: "jobInv files n UNIV c'"
      using jobInv_assign [OF c1, of addr 1] addr good assigned(2) by (auto simp: goodJob_def)
    have b: "bookAt c' k = (if k = addr then 1 else bookAt ?c1 k)" for k using assigned(2) by simp
    have "soloInv files n c' addr" unfolding soloInv_def using j b none range addr(3) by auto
    moreover have "completed c' ks = completed ?c1 ks" for ks
      using completed_other [of 1 ?c1 addr ks] addr assigned(2) by simp
    then have "need files n c' addr < need files n c a"
      using mt red ph I(3) addr(3) jobInvD(3) [OF j] completed_le [of ?c1 files] by (auto simp: need_def)
    ultimately show ?thesis using assigned(4) addr(3) by (simp add: pending_def noReply_def)
  qed
qed

lemma reducetask_cases:
  assumes "reducetask args c = (c', reply, task)"
  obtains (exit) "rtnum (reportReduce args c) = co_r (reportReduce args c)"
      "c' = (reportReduce args c)\<lparr>co_done := True\<rparr>" "reply = noReply\<lparr>T := ''exit''\<rparr>"
  | (wait) "findReduce (reportReduce args c) = None" "rtnum (reportReduce args c) \<noteq> co_r (reportReduce args c)"
      "c' = reportReduce args c" "reply = noReply\<lparr>T := ''wait''\<rparr>"
  | (assigned) i where "findReduce (reportReduce args c) = Some i"
      "c' = setBook (reduceKey i) 1 (reportReduce args c)"
      "reply = noReply\<lparr>T := ''reduce'', Index := int i, rp_Addr := reduceKey i\<rparr>"
proof (cases "rtnum (reportReduce args c) = co_r (reportReduce args c)")
  case True
  then show thesis using assms by (intro exit) (simp_all add: reducetask_def Let_def)
next
  case False
  show thesis
  proof (cases "findReduce (reportReduce args c)")
    case None
    then show thesis using assms False by (intro wait) (simp_all add: reducetask_def Let_def)
  next
    case (Some i)
    then show thesis using assms False by (intro assigned [of i]) (simp_all add: reducetask_def Let_def)
  qed
qed

lemma solo_reduce_step:
  assumes inv: "soloInv files n c a" and good: "goodJob files n" and ph: "\<not> mtnum c < int (length files)"
    and h: "CoordinatorHandler \<lparr>Addr = a\<rparr> c = (c', sent, t)"
  shows "T sent = ''exit'' \<and> jobInv files n UNIV c' \<and> co_done c' \<or>
    soloInv files n c' (pending sent) \<and> need files n c' (pending sent) < need files n c a \<and>
    T sent = ''reduce'' \<and> rp_Addr sent \<noteq> ''''"
proof -
  note I = jobInvD [OF soloInvD(1) [OF inv]]
  let ?c1 = "reportReduce \<lparr>Addr = a\<rparr> c"
  have rep: "?c1 = (if a = '''' then c else (setBook a 2 c)\<lparr>rtnum := rtnum c + 1\<rparr>)"
    using soloInvD(2) [OF inv, of a] soloInvD(2) [OF inv, of "''''"] by (auto simp: reportReduce_def fmlookup_book_1)
  have c1: "jobInv files n UNIV ?c1"
    using jobInv_finish_reduce [OF soloInvD(1) [OF inv] good ph, of a] soloInvD [OF inv] rep by auto
  note I1 = jobInvD [OF c1]
  have none: "bookAt ?c1 k \<noteq> 1" and range: "bookAt ?c1 k \<in> {0, 1, 2}" for k
    using soloInvD(2,3) [OF inv, of k] rep by auto
  have mt: "mtnum ?c1 = mtnum c" using rep by simp
  have red: "completed ?c1 (reduceKeys n) = completed c (reduceKeys n) + (if a = '''' then 0 else 1)"
    using I(4) I1(4) rep by (auto split: if_splits)
  have n0: "0 \<le> n" using good by (simp add: goodJob_def)
  have "reducetask \<lparr>Addr = a\<rparr> c = (c', sent, t)" using h ph I(1) by (simp add: CoordinatorHandler_def)
  then show ?thesis
  proof (cases rule: reducetask_cases)
    case exit
    then have "rtnum ?c1 = n" using I1(2) by simp
    moreover have "\<not> mtnum ?c1 < int (length files)" using mt ph by simp
    ultimately have "jobInv files n UNIV c'" using jobInv_done [OF c1] exit(2) by simp
    then show ?thesis using exit by (simp add: noReply_def)
  next
    case wait
    have "completed ?c1 (reduceKeys n) \<noteq> length (reduceKeys n)" using wait(2) I1(2,4) n0 by simp
    then obtain k where k: "k \<in> set (reduceKeys n)" "bookAt ?c1 k = 0"
      using completed_all [of ?c1 "reduceKeys n"] none range by fastforce
    then obtain i where "i < nat n" "bookAt ?c1 (reduceKey i) = 0" by (auto simp: reduceKeys_def)
    then show ?thesis using wait(1) I1(2) by (simp add: findReduce_def find_None_iff)
  next
    case (assigned i)
    have k: "bookAt ?c1 (reduceKey i) = 0" "reduceKey i \<in> set (reduceKeys n)"
      using findReduce_Some [OF assigned(1)] I1(2) by (auto simp: reduceKeys_def)
    have j: "jobInv files n UNIV c'"
      using jobInv_assign [OF c1, of "reduceKey i" 1] k assigned(2) mt ph by auto
    have b: "bookAt c' k = (if k = reduceKey i then 1 else bookAt ?c1 k)" for k using assigned(2) by simp
    have "soloInv files n c' (reduceKey i)" unfolding soloInv_def using j b none range by auto
    moreover have "completed c' ks = completed ?c1 ks" for ks
      using completed_other [of 1 ?c1 "reduceKey i" ks] k assigned(2) by simp
    moreover have "completed ?c1 files = completed c files" using I(3) I1(3) mt by simp
    moreover have "completed ?c1 (reduceKeys n) < nat n"
      using k completed_less [of ?c1 "reduceKeys n"] by force
    moreover have "mtnum c' = mtnum c" using assigned(2) mt by simp
    ultimately show ?thesis using assigned(3) red by (auto simp: pending_def noReply_def need_def)
  qed
qed

lemma need_pos: "soloInv files n c a \<Longrightarrow> goodJob files n \<Longrightarrow> 0 < need files n c a"
proof (rule ccontr)
  assume inv: "soloInv files n c a" and good: "goodJob files n" and "\<not> 0 < need files n c a"
  then have a: "a \<noteq> ''''" "length files \<le> completed c files" "nat n \<le> completed c (reduceKeys n)"
    by (auto simp: need_def split: if_splits)
  then have "\<forall>k \<in> set files \<union> set (reduceKeys n). bookAt c k = 2"
    using completed_all [of c files] completed_all [of c "reduceKeys n"] completed_le [of c files]
      completed_le [of c "reduceKeys n"] by auto
  moreover have "bookAt c a = 1" using soloInvD(2) [OF inv] a(1) by simp
  moreover from this have "a \<in> set files \<union> set (reduceKeys n)" by (rule jobInvD(5) [OF soloInvD(1) [OF inv]])
  ultimately show False by auto
qed

lemma gobInto_task:
  "T sent \<noteq> '''' \<Longrightarrow> (T sent = ''map'' \<or> T sent = ''reduce'' \<Longrightarrow> rp_Addr sent \<noteq> '''') \<Longrightarrow>
   T (gobInto old sent) = T sent \<and> pending (gobInto old sent) = pending sent"
  by (auto simp: gobInto_def pending_def)

lemma soloWorker_finishes:
  assumes "goodJob files n" "\<And>reply fs. fst (exec reply fs)"
    and "soloInv files n c (pending reply)" "T reply \<noteq> ''exit''" "need files n c (pending reply) \<le> fuel"
  shows "\<exists>c' fs'. soloWorker fuel exec reply c fs = Some (c', fs') \<and> jobInv files n UNIV c' \<and> co_done c'"
  using assms(3-5)
proof (induction fuel arbitrary: reply c fs)
  case 0
  then show ?case using need_pos [OF _ assms(1)] by fastforce
next
  case (Suc fuel)
  let ?fs = "snd (if T reply = ''map'' \<or> T reply = ''reduce'' then exec reply fs else (False, fs))"
  obtain c' sent t where h: "CoordinatorHandler \<lparr>Addr = pending reply\<rparr> c = (c', sent, t)" by (metis prod_cases3)
  have step: "soloWorker (Suc fuel) exec reply c fs = soloWorker fuel exec (gobInto reply sent) c' ?fs"
    using Suc.prems(2) h assms(2) by (subst soloWorker.simps) (auto simp: nextArgs_def pending_def Let_def)
  consider "T sent = ''exit''" "jobInv files n UNIV c'" "co_done c'"
    | "soloInv files n c' (pending sent)" "need files n c' (pending sent) < need files n c (pending reply)"
      "T sent \<in> {''map'', ''reduce'', ''wait''}" "T sent \<noteq> ''wait'' \<longrightarrow> rp_Addr sent \<noteq> ''''"
    using solo_map_step [OF Suc.prems(1) assms(1) _ h] solo_reduce_step [OF Suc.prems(1) assms(1) _ h] by fastforce
  then show ?case
  proof cases
    case 1
    then have "T (gobInto reply sent) = ''exit''" by (simp add: gobInto_def)
    then have "soloWorker fuel exec (gobInto reply sent) c' ?fs = Some (c', ?fs)"
      by (subst soloWorker.simps) (simp add: nextArgs_def)
    with step 1 show ?thesis by simp
  next
    case 2
    then have "T (gobInto reply sent) = T sent" "pending (gobInto reply sent) = pending sent"
      using gobInto_task [of sent reply] by auto
    with Suc.IH [of c' "gobInto reply sent" ?fs] 2 Suc.prems(3) step show ?thesis by auto
  qed
qed

text \<open>
  C32. Let the input files have distinct, non-empty names, none of them the name of a reduce task. A worker that is alone with the coordinator
  and executes every task without error and before its ten seconds are over stops after at most one request per task and two
  more, and then every map and every reduce task is completed. (With an input file given twice it does not:
  \<^verbatim>\<open>duplicate_input_stalls\<close>.)
\<close>

theorem single_worker_finishes:
  assumes "goodJob files n" "\<And>reply fs. fst (exec reply fs)"
  shows "\<exists>c fs'. soloWorker (length files + nat n + 2) exec noReply (MakeCoordinator files n) fs = Some (c, fs') \<and>
    co_done c \<and> (\<forall>k \<in> set files \<union> set (reduceKeys n). bookAt c k = 2)"
proof -
  let ?c = "MakeCoordinator files n"
  have p: "pending noReply = ''''" by (simp add: pending_def noReply_def)
  have "soloInv files n ?c ''''" using jobInv_start by (simp add: soloInv_def)
  moreover have "need files n ?c '''' \<le> length files + nat n + 2"
    by (simp add: need_def completed_def)
  moreover have "T noReply \<noteq> ''exit''" by (simp add: noReply_def)
  ultimately obtain c fs' where run: "soloWorker (length files + nat n + 2) exec noReply ?c fs = Some (c, fs')"
    "jobInv files n UNIV c" "co_done c" using soloWorker_finishes [of files n exec ?c noReply "length files + nat n + 2" fs] assms p by metis
  have "completed c files = length files" "completed c (reduceKeys n) = length (reduceKeys n)"
    using jobInvD(3,4,8) [OF run(2)] run(3) by simp_all
  then have "\<forall>k \<in> set files \<union> set (reduceKeys n). bookAt c k = 2" unfolding completed_all by blast
  with run show ?thesis by blast
qed

theorem single_worker_finishes_witness:
  "\<exists>c fs'. soloWorker 5 (\<lambda>reply fs. (True, fs)) noReply (MakeCoordinator [''f'', ''g''] 1) fmempty = Some (c, fs') \<and>
    co_done c \<and> bookAt c ''g'' = 2"
proof -
  have good: "goodJob [''f'', ''g''] 1" by (simp add: goodJob_def reduceKeys_def reduceKey_def)
  obtain c fs' where "soloWorker (length [''f'', ''g''] + nat 1 + 2) (\<lambda>reply fs. (True, fs)) noReply
      (MakeCoordinator [''f'', ''g''] 1) fmempty = Some (c, fs')"
    "co_done c" "\<forall>k \<in> set [''f'', ''g''] \<union> set (reduceKeys 1). bookAt c k = 2"
    using single_worker_finishes [OF good, of "\<lambda>reply fs. (True, fs)" fmempty] by auto
  moreover have "length [''f'', ''g''] + nat 1 + 2 = 5" by simp
  ultimately show ?thesis by (metis UnI1 list.set_intros)
qed

section \<open>The reused reply\<close>

definition exEnv :: os where
  "exEnv = \<lparr>tmp_ok = True, rename_ok = (\<lambda>_. True)\<rparr>"

definition exMap :: "string \<Rightarrow> string \<Rightarrow> KeyValue list" where
  "exMap f content = [\<lparr>Key = content, Value = ''1''\<rparr>]"

definition exFiles :: filesys where
  "exFiles = fmupd ''f'' ''apple'' (fmupd ''g'' ''pear'' fmempty)"

lemmas loop_eval = exEnv_def exMap_def exFiles_def coord_defs MakeCoordinator_def setBook_def bookAt_def
  gobInto_def mapTask_def mapResult_def formatKV_def fmtD_def decimal.simps

text \<open>
  The reply variable of a worker keeps the position of an earlier map task when the new position is 0.
  Two files and one bucket: a first worker takes file \<^verbatim>\<open>f\<close>, position 0, and is too slow; a second one executes
  \<^verbatim>\<open>g\<close>, position 1, and is then handed \<^verbatim>\<open>f\<close>. It maps \<^verbatim>\<open>f\<close> but stores the result as that of position 1: the output
  of \<^verbatim>\<open>g\<close> is lost and there is none for position 0, yet the coordinator counts both tasks as completed.
\<close>

lemma stale_index_loses_output:
  "\<exists>c1 r1 c2 r2 c3 r3 c4 r4 fs1 fs2.
     CoordinatorHandler \<lparr>Addr = ''''\<rparr> (MakeCoordinator [''f'', ''g''] 1) = (c1, r1, Some ''f'') \<and>
     CoordinatorHandler \<lparr>Addr = ''''\<rparr> c1 = (c2, r2, Some ''g'') \<and>
     mapTask exEnv exMap (gobInto noReply r2) exFiles = TaskOk fs1 \<and>
     CoordinatorHandler \<lparr>Addr = ''g''\<rparr> (timeadd ''f'' c2) = (c3, r3, Some ''f'') \<and>
     mapTask exEnv exMap (gobInto (gobInto noReply r2) r3) fs1 = TaskOk fs2 \<and>
     CoordinatorHandler \<lparr>Addr = ''f''\<rparr> c3 = (c4, r4, None) \<and> mtnum c4 = 2 \<and>
     fmlookup fs2 (mapResult 0 0) = None \<and>
     fmlookup fs2 (mapResult 1 0) = Some (formatKV \<lparr>Key = ''apple'', Value = ''1''\<rparr>)"
  by (simp add: loop_eval digit_inj)

end
