(* ===== verification/Porcupine_Bitset.thy ===== *)
theory Porcupine_Bitset
  imports Go_Prelude "HOL-Library.Word"
begin

unbundle bit_operations_syntax

text \<open>
  \<^verbatim>\<open>porcupine/bitset.go\<close>: sets of small numbers as slices of 64-bit words. The set of a bitset is the set of
  positions whose bit is one; each operation is proved against it.
\<close>

section \<open>Operations\<close>

type_synonym bitset = "64 word list"

definition newBitset :: "nat \<Rightarrow> bitset" where
  "newBitset bits = replicate (bits div 64 + (if bits mod 64 \<noteq> 0 then 1 else 0)) 0"

definition bitsetIndex :: "nat \<Rightarrow> nat \<times> nat" where
  "bitsetIndex pos = (pos div 64, pos mod 64)"

definition bs_set :: "nat \<Rightarrow> bitset \<Rightarrow> bitset go" where
  "bs_set pos b =
     (case bitsetIndex pos of (major, minor) \<Rightarrow>
        case go_index b (int major) of
          Inl p \<Rightarrow> Inl p
        | Inr w \<Rightarrow> go_store b (int major) (w OR push_bit minor 1))"

definition bs_clear :: "nat \<Rightarrow> bitset \<Rightarrow> bitset go" where
  "bs_clear pos b =
     (case bitsetIndex pos of (major, minor) \<Rightarrow>
        case go_index b (int major) of
          Inl p \<Rightarrow> Inl p
        | Inr w \<Rightarrow> go_store b (int major) (w AND NOT (push_bit minor 1)))"

definition bs_get :: "nat \<Rightarrow> bitset \<Rightarrow> bool go" where
  "bs_get pos b =
     (case bitsetIndex pos of (major, minor) \<Rightarrow>
        case go_index b (int major) of
          Inl p \<Rightarrow> Inl p
        | Inr w \<Rightarrow> Inr (w AND push_bit minor 1 \<noteq> 0))"

definition onesCount :: "64 word \<Rightarrow> nat" where
  "onesCount w = length (filter (bit w) [0..<64])"

definition popcnt :: "bitset \<Rightarrow> nat" where
  "popcnt b = fold (\<lambda>v total. total + onesCount v) b 0"

definition bs_hash :: "bitset \<Rightarrow> 64 word" where
  "bs_hash b = fold (\<lambda>v h. h XOR v) b (of_nat (popcnt b))"

definition bs_equals :: "bitset \<Rightarrow> bitset \<Rightarrow> bool" where
  "bs_equals b b2 \<longleftrightarrow> length b = length b2 \<and> list_all (\<lambda>i. b ! i = b2 ! i) [0..<length b]"

section \<open>The set of a bitset\<close>

definition bitsOf :: "bitset \<Rightarrow> nat set" where
  "bitsOf b = {pos. pos < 64 * length b \<and> bit (b ! (pos div 64)) (pos mod 64)}"

lemma length_newBitset: "pos < bits \<Longrightarrow> pos < 64 * length (newBitset bits)"
  using div_mult_mod_eq [of bits 64] mod_less_divisor [of 64 bits] by (auto simp: newBitset_def)

lemma bitsOf_newBitset [simp]: "bitsOf (newBitset bits) = {}"
  by (auto simp: bitsOf_def newBitset_def)

lemma pos_major: "pos < 64 * n \<Longrightarrow> pos div 64 < n" for pos :: nat
  by (simp add: less_mult_imp_div_less mult.commute)

lemma pos_eq: "pos div 64 = p div 64 \<Longrightarrow> pos mod 64 = p mod 64 \<Longrightarrow> pos = p" for pos p :: nat
  by (metis div_mult_mod_eq)

lemma bit_at: "k < 64 \<Longrightarrow> bit (2 ^ a :: 64 word) k \<longleftrightarrow> k = a"
  by (auto simp: bit_exp_iff)

text \<open>Setting and clearing never panic below the capacity, and change exactly one element.\<close>

lemma bs_set_ok:
  assumes "pos < 64 * length b"
  obtains b' where "bs_set pos b = Inr b'" "length b' = length b" "bitsOf b' = insert pos (bitsOf b)"
proof
  let ?b = "b[pos div 64 := b ! (pos div 64) OR push_bit (pos mod 64) 1]"
  show "bs_set pos b = Inr ?b"
    using pos_major [OF assms] by (simp add: bs_set_def bitsetIndex_def go_index_def go_store_def nat_div_distrib)
  show "length ?b = length b" by simp
  have "p \<in> bitsOf ?b \<longleftrightarrow> p \<in> insert pos (bitsOf b)" for p
    using pos_major [OF assms] pos_eq [of p pos] assms
    by (cases "p div 64 = pos div 64")
      (auto simp: bitsOf_def bit_or_iff bit_at)
  then show "bitsOf ?b = insert pos (bitsOf b)" by blast
qed

lemma bs_clear_ok:
  assumes "pos < 64 * length b"
  obtains b' where "bs_clear pos b = Inr b'" "length b' = length b" "bitsOf b' = bitsOf b - {pos}"
proof
  let ?b = "b[pos div 64 := b ! (pos div 64) AND NOT (push_bit (pos mod 64) 1)]"
  show "bs_clear pos b = Inr ?b"
    using pos_major [OF assms] by (simp add: bs_clear_def bitsetIndex_def go_index_def go_store_def nat_div_distrib)
  show "length ?b = length b" by simp
  have "p \<in> bitsOf ?b \<longleftrightarrow> p \<in> bitsOf b - {pos}" for p
    using pos_major [OF assms] pos_eq [of p pos] assms
    by (cases "p div 64 = pos div 64")
      (auto simp: bitsOf_def bit_and_iff bit_not_iff bit_at)
  then show "bitsOf ?b = bitsOf b - {pos}" by blast
qed

lemma bs_get_ok:
  assumes "pos < 64 * length b"
  shows "bs_get pos b = Inr (pos \<in> bitsOf b)"
proof -
  have "b ! (pos div 64) AND push_bit (pos mod 64) 1 \<noteq> 0 \<longleftrightarrow> bit (b ! (pos div 64)) (pos mod 64)"
    by (simp add: and_exp_eq_0_iff_not_bit push_bit_eq_mult)
  then show ?thesis
    using pos_major [OF assms] assms by (simp add: bs_get_def bitsetIndex_def go_index_def bitsOf_def nat_div_distrib)
qed

lemma bs_equals_iff: "bs_equals b b2 \<longleftrightarrow> b = b2"
  by (auto simp: bs_equals_def list_all_iff intro: nth_equalityI)

text \<open>Two bitsets of the same length are equal exactly when they are the same set.\<close>

lemma bitsOf_inj:
  assumes "length b = length b2" "bitsOf b = bitsOf b2"
  shows "b = b2"
proof (rule nth_equalityI [OF assms(1)], rule bit_word_eqI)
  fix i k assume i: "i < length b" and k: "k < LENGTH(64)"
  have "64 * i + k < 64 * length b" using i k by simp
  moreover have "(64 * i + k) div 64 = i" "(64 * i + k) mod 64 = k" using k by simp_all
  ultimately have "bit (b' ! i) k \<longleftrightarrow> 64 * i + k \<in> bitsOf b'" if "length b' = length b" for b'
    using that by (simp add: bitsOf_def)
  then show "bit (b ! i) k = bit (b2 ! i) k" using assms by simp
qed

lemma popcnt_newBitset: "popcnt (newBitset bits) = 0"
proof -
  have "onesCount 0 = 0" by (simp add: onesCount_def)
  then have "fold (\<lambda>v total. total + onesCount v) (replicate m 0) t = t" for m t by (induction m arbitrary: t) simp_all
  then show ?thesis by (simp add: popcnt_def newBitset_def)
qed

end
