(* ===== verification/Porcupine_List.thy ===== *)
theory Porcupine_List
  imports Go_Prelude
begin

text \<open>
  The doubly linked list of \<^verbatim>\<open>porcupine/checker.go\<close>: entries of a history, the nodes made from them, and the
  removal and re-insertion of a call with its return. The store of nodes has one component per field of
  \<^verbatim>\<open>node\<close>, a function of the address. The node of the entry at position \<^verbatim>\<open>i\<close> has the address \<^verbatim>\<open>i + 1\<close>, the head node
  that \<^verbatim>\<open>checkSingle\<close> puts in front has the address 0. A dereference of a nil pointer is \<^term>\<open>None\<close>.
\<close>

section \<open>Entries and nodes\<close>

datatype entryKind = callEntry | returnEntry

record 'v entry =
  en_kind :: entryKind
  en_value :: 'v
  en_id :: nat
  en_time :: int
  en_clientId :: int

record 'v nodes =
  nd_value :: "nat \<Rightarrow> 'v option"
  nd_match :: "nat \<Rightarrow> nat option"
  nd_id :: "nat \<Rightarrow> int"
  nd_next :: "nat \<Rightarrow> nat option"
  nd_prev :: "nat \<Rightarrow> nat option"

definition setNext :: "nat \<Rightarrow> nat option \<Rightarrow> 'v nodes \<Rightarrow> 'v nodes" where
  "setNext p q h = h\<lparr>nd_next := (nd_next h)(p := q)\<rparr>"

definition setPrev :: "nat \<Rightarrow> nat option \<Rightarrow> 'v nodes \<Rightarrow> 'v nodes" where
  "setPrev p q h = h\<lparr>nd_prev := (nd_prev h)(p := q)\<rparr>"

text \<open>\<^verbatim>\<open>&node{value: v, match: m, id: i}\<close> at address \<^verbatim>\<open>p\<close>\<close>

definition newNode :: "nat \<Rightarrow> 'v option \<Rightarrow> nat option \<Rightarrow> int \<Rightarrow> 'v nodes \<Rightarrow> 'v nodes" where
  "newNode p v m i h =
     \<lparr>nd_value = (nd_value h)(p := v), nd_match = (nd_match h)(p := m), nd_id = (nd_id h)(p := i),
      nd_next = (nd_next h)(p := None), nd_prev = (nd_prev h)(p := None)\<rparr>"

definition insertBefore :: "nat \<Rightarrow> nat option \<Rightarrow> 'v nodes \<Rightarrow> 'v nodes" where
  "insertBefore n mark h =
     (case mark of
        None \<Rightarrow> h
      | Some k \<Rightarrow>
         (let beforeMark = nd_prev h k;
              h2 = setNext n (Some k) (setPrev k (Some n) h)
          in case beforeMark of
               None \<Rightarrow> h2
             | Some b \<Rightarrow> setNext b (Some n) (setPrev n (Some b) h2)))"

text \<open>\<^verbatim>\<open>length\<close>: the number of nodes from a pointer on; the bound is the number of nodes in the store.\<close>

fun listLength :: "nat \<Rightarrow> 'v nodes \<Rightarrow> nat option \<Rightarrow> nat option" where
  "listLength fuel h None = Some 0"
| "listLength 0 h (Some p) = None"
| "listLength (Suc fuel) h (Some p) = map_option Suc (listLength fuel h (nd_next h p))"

definition noNodes :: "'v nodes" where
  "noNodes = \<lparr>nd_value = (\<lambda>_. None), nd_match = (\<lambda>_. None), nd_id = (\<lambda>_. 0), nd_next = (\<lambda>_. None), nd_prev = (\<lambda>_. None)\<rparr>"

text \<open>The loop of \<^verbatim>\<open>makeLinkedEntries\<close>, from the last entry to the first; \<^verbatim>\<open>i\<close> entries are left.\<close>

fun linkEntries ::
    "'v entry list \<Rightarrow> nat \<Rightarrow> nat option \<Rightarrow> (nat \<rightharpoonup> nat) \<Rightarrow> 'v nodes \<Rightarrow> nat option \<times> 'v nodes" where
  "linkEntries entries 0 root mtch h = (root, h)"
| "linkEntries entries (Suc i) root mtch h =
     (let elem = entries ! i; p = Suc i in
      if en_kind elem = returnEntry
      then linkEntries entries i (Some p) (mtch(en_id elem \<mapsto> p))
             (insertBefore p root (newNode p (Some (en_value elem)) None (int (en_id elem)) h))
      else linkEntries entries i (Some p) mtch
             (insertBefore p root (newNode p (Some (en_value elem)) (mtch (en_id elem)) (int (en_id elem)) h)))"

definition makeLinkedEntries :: "'v entry list \<Rightarrow> nat option \<times> 'v nodes" where
  "makeLinkedEntries entries = linkEntries entries (length entries) None Map.empty noNodes"

section \<open>Lifting a call and its return out of the list\<close>

definition lift :: "nat \<Rightarrow> 'v nodes \<Rightarrow> 'v nodes option" where
  "lift entry h =
     (case (nd_prev h entry, nd_next h entry, nd_match h entry) of
        (Some p, Some q, Some mtch) \<Rightarrow>
         (let h2 = setPrev q (Some p) (setNext p (Some q) h) in
          case nd_prev h2 mtch of
            None \<Rightarrow> None
          | Some mp \<Rightarrow>
             (let h3 = setNext mp (nd_next h2 mtch) h2 in
              case nd_next h3 mtch of
                None \<Rightarrow> Some h3
              | Some mn \<Rightarrow> Some (setPrev mn (nd_prev h3 mtch) h3)))
      | _ \<Rightarrow> None)"

definition unlift :: "nat \<Rightarrow> 'v nodes \<Rightarrow> 'v nodes option" where
  "unlift entry h =
     (case nd_match h entry of
        None \<Rightarrow> None
      | Some mtch \<Rightarrow>
         (case nd_prev h mtch of
            None \<Rightarrow> None
          | Some mp \<Rightarrow>
             (let h1 = setNext mp (Some mtch) h;
                  h2 = (case nd_next h1 mtch of None \<Rightarrow> h1 | Some mn \<Rightarrow> setPrev mn (Some mtch) h1)
              in case (nd_prev h2 entry, nd_next h2 entry) of
                   (Some p, Some q) \<Rightarrow> Some (setPrev q (Some entry) (setNext p (Some entry) h2))
                 | _ \<Rightarrow> None)))"

section \<open>Lists in the store\<close>

text \<open>The nodes of the list are linked in both directions, and the last one has no successor.\<close>

fun links :: "'v nodes \<Rightarrow> nat list \<Rightarrow> bool" where
  "links h (x # y # ys) \<longleftrightarrow> nd_next h x = Some y \<and> nd_prev h y = Some x \<and> links h (y # ys)"
| "links h _ \<longleftrightarrow> True"

definition chain :: "'v nodes \<Rightarrow> nat list \<Rightarrow> bool" where
  "chain h xs \<longleftrightarrow> distinct xs \<and> xs \<noteq> [] \<and> links h xs \<and> nd_next h (last xs) = None"

lemma set_fields [simp]:
  "nd_value (setNext p q h) = nd_value h" "nd_match (setNext p q h) = nd_match h" "nd_id (setNext p q h) = nd_id h"
  "nd_prev (setNext p q h) = nd_prev h" "nd_next (setNext p q h) = (nd_next h)(p := q)"
  "nd_value (setPrev p q h) = nd_value h" "nd_match (setPrev p q h) = nd_match h" "nd_id (setPrev p q h) = nd_id h"
  "nd_next (setPrev p q h) = nd_next h" "nd_prev (setPrev p q h) = (nd_prev h)(p := q)"
  by (simp_all add: setNext_def setPrev_def)

lemma links_cong:
  "(\<And>x. x \<in> set (butlast xs) \<Longrightarrow> nd_next h' x = nd_next h x) \<Longrightarrow>
   (\<And>x. x \<in> set (tl xs) \<Longrightarrow> nd_prev h' x = nd_prev h x) \<Longrightarrow> links h' xs = links h xs"
  by (induction h xs rule: links.induct) auto

lemma links_split: "links h (xs @ x # ys) \<longleftrightarrow> links h (xs @ [x]) \<and> links h (x # ys)"
proof (induction xs)
  case (Cons a xs)
  then show ?case by (cases xs) auto
qed simp

lemma links_adjacent: "links h (xs @ [a, b] @ ys) \<Longrightarrow> nd_next h a = Some b \<and> nd_prev h b = Some a"
  using links_split [of h xs a "b # ys"] by simp

lemma set_tlD: "x \<in> set (tl xs) \<Longrightarrow> x \<in> set xs"
  by (cases xs) auto

lemma chain_unlink:
  assumes "chain h (xs @ [a, e, b] @ ys)"
  shows "chain (setPrev b (Some a) (setNext a (Some b) h)) (xs @ [a, b] @ ys)"
proof -
  let ?h = "setPrev b (Some a) (setNext a (Some b) h)"
  have d: "distinct (xs @ [a, e, b] @ ys)" and l: "links h (xs @ [a, e, b] @ ys)"
    and last: "nd_next h (last (xs @ [a, e, b] @ ys)) = None" using assms by (auto simp: chain_def)
  have parts: "links h (xs @ [a])" "links h (b # ys)"
    using l links_split [of h xs a "e # b # ys"] by (simp_all)
  have "links ?h (xs @ [a]) = links h (xs @ [a])"
    using d by (intro links_cong) (auto simp: butlast_append dest: set_tlD)
  moreover have "links ?h (b # ys) = links h (b # ys)"
    using d by (intro links_cong) (auto dest: in_set_butlastD split: if_splits)
  ultimately have "links ?h (xs @ [a, b] @ ys)" using parts links_split [of ?h xs a "b # ys"] by simp
  moreover have "nd_next ?h (last (xs @ [a, b] @ ys)) = None"
    using last d by (cases ys rule: rev_cases) auto
  ultimately show ?thesis using d by (auto simp: chain_def)
qed

lemma chain_unlink_last:
  assumes "chain h (xs @ [a, e])"
  shows "chain (setNext a None h) (xs @ [a])"
proof -
  have d: "distinct (xs @ [a, e])" and l: "links h (xs @ [a, e])" using assms by (auto simp: chain_def)
  have "links h (xs @ [a])" using l links_split [of h xs a "[e]"] by simp
  moreover have "links (setNext a None h) (xs @ [a]) = links h (xs @ [a])"
    using d by (intro links_cong) (auto simp: butlast_append)
  ultimately show ?thesis using d by (auto simp: chain_def)
qed

text \<open>
  Lifting a call \<^verbatim>\<open>e\<close> whose return \<^verbatim>\<open>r\<close> comes later in the list succeeds and leaves the list without the
  two; lifting does not change what the nodes hold.
\<close>

lemma lift_chain:
  assumes "chain h (xs @ [a, e] @ ys @ [r] @ zs)" "nd_match h e = Some r"
  shows "\<exists>h'. lift e h = Some h' \<and> chain h' (xs @ [a] @ ys @ zs) \<and>
    nd_value h' = nd_value h \<and> nd_match h' = nd_match h \<and> nd_id h' = nd_id h"
proof -
  obtain b ws where b: "ys @ [r] @ zs = b # ws" by (cases "ys @ [r] @ zs") auto
  have l: "links h (xs @ [a, e] @ b # ws)" using assms(1) b by (simp add: chain_def)
  have ae: "nd_prev h e = Some a" using links_adjacent [of h xs a e "b # ws"] l by simp
  have eb: "nd_next h e = Some b" using links_adjacent [of h "xs @ [a]" e b ws] l by simp
  let ?h2 = "setPrev b (Some a) (setNext a (Some b) h)"
  have c2: "chain ?h2 ((xs @ [a] @ ys) @ [r] @ zs)"
    using chain_unlink [of h xs a e b ws] assms(1) b by simp
  obtain us c where c: "xs @ [a] @ ys = us @ [c]" by (metis append_is_Nil_conv list.discI rev_exhaust)
  have c3: "chain ?h2 (us @ [c, r] @ zs)" using c2 unfolding c by simp
  then have cr: "nd_prev ?h2 r = Some c"
    using links_adjacent [of ?h2 us c r zs] by (simp add: chain_def del: set_fields)
  let ?h3 = "setNext c (nd_next ?h2 r) ?h2"
  have "c \<noteq> r" using c3 by (auto simp: chain_def)
  then have nr: "nd_next ?h3 r = nd_next ?h2 r" by simp
  have lift: "lift e h = (case nd_next ?h2 r of None \<Rightarrow> Some ?h3 | Some mn \<Rightarrow> Some (setPrev mn (Some c) ?h3))"
  proof -
    have "nd_prev ?h3 r = Some c" using cr by (simp only: set_fields)
    then show ?thesis unfolding lift_def ae eb assms(2) using cr nr by (simp only: prod.case option.case Let_def)
  qed
  show ?thesis
  proof (cases zs)
    case Nil
    then have "nd_next ?h2 r = None" using c2 by (simp add: chain_def del: set_fields)
    moreover have "chain (setNext c None ?h2) (us @ [c])"
      using chain_unlink_last [of ?h2 us c r] c3 Nil by simp
    ultimately show ?thesis using lift c Nil by simp
  next
    case (Cons z zs')
    then have rz: "nd_next ?h2 r = Some z"
      using c2 links_adjacent [of ?h2 "xs @ [a] @ ys" r z zs'] by (simp add: chain_def del: set_fields)
    moreover have "chain (setPrev z (Some c) (setNext c (Some z) ?h2)) (us @ [c, z] @ zs')"
      using chain_unlink [of ?h2 us c r z zs'] c3 Cons by simp
    moreover have "us @ [c, z] @ zs' = xs @ [a] @ ys @ zs" using c Cons by (metis append_Cons append_Nil append_assoc)
    ultimately show ?thesis using lift by simp
  qed
qed

text \<open>\<^verbatim>\<open>unlift\<close> undoes \<^verbatim>\<open>lift\<close> exactly.\<close>

lemma unlift_lift:
  assumes "chain h (xs @ [a, e] @ ys @ [r] @ zs)" "nd_match h e = Some r" "lift e h = Some h'"
  shows "unlift e h' = Some h"
proof -
  have l: "links h (xs @ [a, e] @ ys @ [r] @ zs)" and d: "distinct (xs @ [a, e] @ ys @ [r] @ zs)"
    using assms(1) by (simp_all add: chain_def)
  have ae: "nd_next h a = Some e" "nd_prev h e = Some a"
    using links_adjacent [of h xs a e "ys @ [r] @ zs"] l by simp_all
  have ext: "h = h1 \<longleftrightarrow> nd_value h = nd_value h1 \<and> nd_match h = nd_match h1 \<and> nd_id h = nd_id h1 \<and>
    nd_next h = nd_next h1 \<and> nd_prev h = nd_prev h1" for h1 :: "'a nodes" by (cases h; cases h1) auto
  have rz: "nd_next h r = Some z \<Longrightarrow> nd_prev h z = Some r \<and> z \<notin> set (xs @ [a, e] @ ys @ [r])" for z
  proof (cases zs)
    case (Cons y zs')
    assume "nd_next h r = Some z"
    moreover have "nd_next h r = Some y" "nd_prev h y = Some r"
      using links_adjacent [of h "xs @ [a, e] @ ys" r y zs'] l Cons by simp_all
    ultimately show ?thesis using d Cons by auto
  qed (use assms(1) in \<open>simp add: chain_def\<close>)
  show ?thesis
  proof (cases ys)
    case Nil
    then have er: "nd_next h e = Some r" "nd_prev h r = Some e"
      using links_adjacent [of h "xs @ [a]" e r zs] l by simp_all
    show ?thesis
    proof (cases "nd_next h r")
      case None
      with assms(2,3) ae er d Nil show ?thesis
        by (auto simp: lift_def unlift_def Let_def ext fun_eq_iff)
    next
      case (Some z)
      with assms(2,3) ae er d Nil rz [OF Some] show ?thesis
        by (auto simp: lift_def unlift_def Let_def ext fun_eq_iff)
    qed
  next
    case (Cons b ys')
    then have eb: "nd_next h e = Some b" "nd_prev h b = Some e"
      using links_adjacent [of h "xs @ [a]" e b "ys' @ [r] @ zs"] l by simp_all
    obtain us c where c: "b # ys' = us @ [c]" by (metis list.discI rev_exhaust)
    then have cr: "nd_next h c = Some r" "nd_prev h r = Some c"
      using links_adjacent [of h "xs @ [a, e] @ us" c r zs] l Cons by simp_all
    have "c \<in> set (b # ys')" using c by simp
    then have neq: "c \<noteq> a" "c \<noteq> e" "c \<noteq> r" "b \<noteq> r" "b \<noteq> a" "b \<noteq> e" "a \<noteq> e" "a \<noteq> r" "e \<noteq> r" using d Cons by auto
    show ?thesis
    proof (cases "nd_next h r")
      case None
      with assms(2,3) ae eb cr neq show ?thesis
        by (auto simp: lift_def unlift_def Let_def ext fun_eq_iff)
    next
      case (Some z)
      have "z \<noteq> a" "z \<noteq> e" "z \<noteq> r" "z \<noteq> b" "z \<noteq> c" "nd_prev h z = Some r"
        using rz [OF Some] Cons \<open>c \<in> set (b # ys')\<close> by auto
      with Some assms(2,3) ae eb cr neq show ?thesis
        by (auto simp: lift_def unlift_def Let_def ext fun_eq_iff)
    qed
  qed
qed

section \<open>Building the list\<close>

definition returnAfter :: "'v entry list \<Rightarrow> nat \<Rightarrow> nat \<Rightarrow> nat option" where
  "returnAfter entries i x =
     find (\<lambda>j. en_kind (entries ! j) = returnEntry \<and> en_id (entries ! j) = x) [i..<length entries]"

definition linkedNode :: "'v entry list \<Rightarrow> nat \<Rightarrow> 'v nodes \<Rightarrow> bool" where
  "linkedNode E p h \<longleftrightarrow>
     nd_value h p = Some (en_value (E ! (p - 1))) \<and> nd_id h p = int (en_id (E ! (p - 1))) \<and>
     nd_match h p = (if en_kind (E ! (p - 1)) = returnEntry then None
                     else map_option Suc (returnAfter E p (en_id (E ! (p - 1))))) \<and>
     nd_next h p = (if p < length E then Some (Suc p) else None)"

definition linkedFrom :: "'v entry list \<Rightarrow> nat \<Rightarrow> nat option \<Rightarrow> (nat \<rightharpoonup> nat) \<Rightarrow> 'v nodes \<Rightarrow> bool" where
  "linkedFrom E i root mtch h \<longleftrightarrow>
     root = (if i < length E then Some (Suc i) else None) \<and>
     (\<forall>x. mtch x = map_option Suc (returnAfter E i x)) \<and>
     (\<forall>p. i < p \<and> p \<le> length E \<longrightarrow> linkedNode E p h \<and> nd_prev h p = (if Suc i < p then Some (p - 1) else None))"

lemma returnAfter_step:
  "i < length E \<Longrightarrow> returnAfter E i x =
     (if en_kind (E ! i) = returnEntry \<and> en_id (E ! i) = x then Some i else returnAfter E (Suc i) x)"
  by (simp add: returnAfter_def upt_conv_Cons)

lemma linkedFrom_step:
  assumes "linkedFrom E (Suc i) root mtch h" "i < length E"
  defines "p \<equiv> Suc i"
  shows "linkedFrom E i (Some p) (if en_kind (E ! i) = returnEntry then mtch(en_id (E ! i) \<mapsto> p) else mtch)
    (insertBefore p root (newNode p (Some (en_value (E ! i)))
       (if en_kind (E ! i) = returnEntry then None else mtch (en_id (E ! i))) (int (en_id (E ! i))) h))"
proof -
  note I = assms(1) [unfolded linkedFrom_def]
  let ?h = "insertBefore p root (newNode p (Some (en_value (E ! i)))
       (if en_kind (E ! i) = returnEntry then None else mtch (en_id (E ! i))) (int (en_id (E ! i))) h)"
  have root: "root = (if p < length E then Some (Suc p) else None)" using I by (simp add: p_def)
  have prevNone: "p < length E \<Longrightarrow> nd_prev h (Suc p) = None" using I by (simp add: p_def)
  have fields: "nd_value ?h = (nd_value h)(p := Some (en_value (E ! i)))" "nd_id ?h = (nd_id h)(p := int (en_id (E ! i)))"
    "nd_match ?h = (nd_match h)(p := if en_kind (E ! i) = returnEntry then None else mtch (en_id (E ! i)))"
    "nd_next ?h = (nd_next h)(p := if p < length E then Some (Suc p) else None)"
    "nd_prev ?h = (if p < length E then (nd_prev h)(p := None, Suc p := Some p) else (nd_prev h)(p := None))"
    using prevNone by (simp_all add: root insertBefore_def newNode_def Let_def)
  have "linkedNode E q ?h \<and> nd_prev ?h q = (if Suc i < q then Some (q - 1) else None)" if q: "i < q" "q \<le> length E" for q
  proof (cases "q = p")
    case True
    then show ?thesis using I unfolding linkedNode_def fields by (simp add: p_def)
  next
    case False
    then have "linkedNode E q h" "nd_prev h q = (if Suc (Suc i) < q then Some (q - 1) else None)"
      using I q by (simp_all add: p_def)
    then show ?thesis using False q unfolding linkedNode_def fields by (auto simp: p_def)
  qed
  moreover have "(if en_kind (E ! i) = returnEntry then mtch(en_id (E ! i) \<mapsto> p) else mtch) x = map_option Suc (returnAfter E i x)" for x
    using I returnAfter_step [OF assms(2), of x] by (simp add: p_def)
  ultimately show ?thesis using assms(2) unfolding linkedFrom_def by (simp add: p_def)
qed

lemma linkEntries_spec:
  "linkedFrom E i root mtch h \<Longrightarrow> i \<le> length E \<Longrightarrow> linkEntries E i root mtch h = (root', h') \<Longrightarrow>
   \<exists>mtch'. linkedFrom E 0 root' mtch' h'"
proof (induction i arbitrary: root mtch h)
  case (Suc i)
  let ?k = "en_kind (E ! i) = returnEntry"
  have "linkEntries E i (Some (Suc i)) (if ?k then mtch(en_id (E ! i) \<mapsto> Suc i) else mtch)
      (insertBefore (Suc i) root (newNode (Suc i) (Some (en_value (E ! i)))
         (if ?k then None else mtch (en_id (E ! i))) (int (en_id (E ! i))) h)) = (root', h')"
    using Suc.prems(3) by (simp add: Let_def split: if_splits)
  with Suc.IH [OF linkedFrom_step [OF Suc.prems(1)]] Suc.prems(2) show ?case by simp
qed auto

text \<open>The list with its head node: all entries in order, each call with a pointer to its return.\<close>

lemma makeLinkedEntries_spec:
  assumes "makeLinkedEntries E = (root, h0)"
  defines "h \<equiv> insertBefore 0 root (newNode 0 None None (-1) h0)"
  shows "root = (if E = [] then None else Some 1)" "chain h [0..<Suc (length E)]"
    "\<And>p. 0 < p \<Longrightarrow> p \<le> length E \<Longrightarrow> linkedNode E p h \<and> linkedNode E p h0"
proof -
  have "linkedFrom E (length E) None Map.empty (noNodes :: 'a nodes)"
    by (auto simp: linkedFrom_def returnAfter_def fun_eq_iff)
  from linkEntries_spec [OF this] assms(1) obtain mtch where l: "linkedFrom E 0 root mtch h0"
    by (auto simp: makeLinkedEntries_def)
  note I = l [unfolded linkedFrom_def]
  show root: "root = (if E = [] then None else Some 1)" using I by simp
  have prev1: "E \<noteq> [] \<Longrightarrow> nd_prev h0 (Suc 0) = None" using I by (cases E) auto
  have fields: "nd_value h = (nd_value h0)(0 := None)" "nd_match h = (nd_match h0)(0 := None)" "nd_id h = (nd_id h0)(0 := -1)"
    "nd_next h = (nd_next h0)(0 := if E = [] then None else Some 1)"
    "nd_prev h = (if E = [] then (nd_prev h0)(0 := None) else (nd_prev h0)(0 := None, 1 := Some 0))"
    using prev1 by (simp_all add: h_def root insertBefore_def newNode_def Let_def)
  show node: "linkedNode E p h \<and> linkedNode E p h0" if "0 < p" "p \<le> length E" for p
    using I that unfolding linkedNode_def fields by simp
  have nxt: "nd_next h p = (if p < length E then Some (Suc p) else None)" if "p \<le> length E" for p
  proof (cases p)
    case 0
    then show ?thesis unfolding fields by simp
  next
    case (Suc q)
    then show ?thesis using node [of p] that by (simp add: linkedNode_def)
  qed
  have prv: "nd_prev h (Suc p) = Some p" if "p < length E" for p
    using I that unfolding fields by (cases p) auto
  have "links h [i..<Suc (length E)]" if "i \<le> length E" for i
    using that
  proof (induction "length E - i" arbitrary: i)
    case 0
    then show ?case by simp
  next
    case (Suc k)
    then have "i < length E" by simp
    then have "[i..<Suc (length E)] = i # Suc i # [Suc (Suc i)..<Suc (length E)]" by (simp add: upt_conv_Cons del: upt_Suc)
    moreover have "links h [Suc i..<Suc (length E)]" using Suc by (intro Suc.hyps) auto
    ultimately show ?case using nxt [of i] prv [of i] \<open>i < length E\<close> by (simp add: upt_conv_Cons del: upt_Suc)
  qed
  from this [of 0] show "chain h [0..<Suc (length E)]" using nxt [of "length E"] by (simp add: chain_def del: upt_Suc)
qed

lemma listLength_linked:
  assumes "makeLinkedEntries E = (root, h0)"
  shows "listLength (length E) h0 root = Some (length E)"
proof -
  note spec = makeLinkedEntries_spec [OF assms]
  have "listLength (length E - i) h0 (Some (Suc i)) = Some (length E - i)" if "i < length E" for i
    using that
  proof (induction "length E - i" arbitrary: i)
    case (Suc k)
    then have m: "length E - i = Suc (length E - Suc i)" by arith
    have nxt: "nd_next h0 (Suc i) = (if Suc i < length E then Some (Suc (Suc i)) else None)"
      using spec(3) [of "Suc i"] Suc.prems by (simp add: linkedNode_def)
    show ?case
    proof (cases "Suc i < length E")
      case True
      then have "listLength (length E - Suc i) h0 (Some (Suc (Suc i))) = Some (length E - Suc i)"
        using Suc.hyps by (intro Suc.hyps(1)) auto
      then show ?thesis using m nxt True by simp
    next
      case False
      then show ?thesis using m nxt Suc.prems by simp
    qed
  qed simp
  from this [of 0] show ?thesis using spec(1) by (cases E) auto
qed

end
