(* ===== verification/Porcupine_Linz.thy ===== *)
theory Porcupine_Linz
  imports Porcupine_Check
begin

text \<open>
  Linearizability of a history, twice: as it is usually defined, an order of all operations that the
  model accepts and that respects real time, and as the search sees it, operation by operation, each one
  chosen among the calls that come before the first return left in the list. The two agree on
  well-formed histories.
\<close>

section \<open>The usual definition\<close>

definition stepId :: "('s, 'i, 'o) Model \<Rightarrow> ('i, 'o) hentry list \<Rightarrow> 's \<Rightarrow> nat \<Rightarrow> bool \<times> 's" where
  "stepId m E st x =
     md_Step m st (projl (en_value (E ! (callPos E x - 1)))) (projr (en_value (E ! (retPos E x - 1))))"

fun legal :: "('s, 'i, 'o) Model \<Rightarrow> ('i, 'o) hentry list \<Rightarrow> 's \<Rightarrow> nat list \<Rightarrow> bool" where
  "legal m E st [] \<longleftrightarrow> True"
| "legal m E st (x # xs) \<longleftrightarrow> fst (stepId m E st x) \<and> legal m E (snd (stepId m E st x)) xs"

text \<open>\<^verbatim>\<open>x\<close> returned before \<^verbatim>\<open>y\<close> was called\<close>

definition precedes :: "'v entry list \<Rightarrow> nat \<Rightarrow> nat \<Rightarrow> bool" where
  "precedes E x y \<longleftrightarrow> retPos E x < callPos E y"

definition linearization :: "('s, 'i, 'o) Model \<Rightarrow> nat \<Rightarrow> ('i, 'o) hentry list \<Rightarrow> nat set \<Rightarrow> 's \<Rightarrow> nat list \<Rightarrow> bool" where
  "linearization m n E S st xs \<longleftrightarrow>
     distinct xs \<and> set xs = {..<n} - S \<and> legal m E st xs \<and> sorted_wrt (\<lambda>x y. \<not> precedes E y x) xs"

definition linearizable :: "('s, 'i, 'o) Model \<Rightarrow> nat \<Rightarrow> ('i, 'o) hentry list \<Rightarrow> bool" where
  "linearizable m n E \<longleftrightarrow> (\<exists>xs. linearization m n E {} (md_Init m) xs)"

section \<open>What is left of the list\<close>

definition rest :: "'v entry list \<Rightarrow> nat set \<Rightarrow> nat list" where
  "rest E S = filter (\<lambda>p. idOf E p \<notin> S) [1..<Suc (length E)]"

lemma set_rest: "set (rest E S) = {p. 0 < p \<and> p \<le> length E \<and> idOf E p \<notin> S}"
  by (auto simp: rest_def)

lemma sorted_rest: "sorted_wrt (<) (rest E S)"
  unfolding rest_def by (intro sorted_wrt_filter sorted_wrt_upt)

lemma distinct_rest: "distinct (rest E S)"
  by (simp add: rest_def)

lemma rest_insert: "rest E (insert x S) = filter (\<lambda>p. idOf E p \<noteq> x) (rest E S)"
  unfolding rest_def filter_filter by (rule filter_cong) auto

lemma rest_Nil_iff:
  assumes "wfEntries n E"
  shows "rest E S = [] \<longleftrightarrow> {..<n} \<subseteq> S"
proof
  assume "rest E S = []"
  then have none: "\<And>p. 0 < p \<Longrightarrow> p \<le> length E \<Longrightarrow> idOf E p \<in> S" using set_rest [of E S] by auto
  show "{..<n} \<subseteq> S"
  proof
    fix x assume "x \<in> {..<n}"
    then show "x \<in> S" using posOf_ok [OF assms, of x callEntry] none [of "callPos E x"] by simp
  qed
next
  assume "{..<n} \<subseteq> S"
  then have "set (rest E S) = {}" using posOf_unique(2) [OF assms] by (auto simp: set_rest)
  then show "rest E S = []" by simp
qed

lemma callPos_idOf: "wfEntries n E \<Longrightarrow> 0 < p \<Longrightarrow> p \<le> length E \<Longrightarrow> isCall E p \<Longrightarrow> callPos E (idOf E p) = p"
  using posOf_unique(1) [of n E p] by (simp add: isCall_def)

lemma retPos_idOf: "wfEntries n E \<Longrightarrow> 0 < p \<Longrightarrow> p \<le> length E \<Longrightarrow> \<not> isCall E p \<Longrightarrow> retPos E (idOf E p) = p"
  using posOf_unique(1) [of n E p] by (cases "en_kind (E ! (p - 1))") (simp_all add: isCall_def)

text \<open>A call of the list is followed by its return; without the two the list is what the larger set leaves.\<close>

lemma rest_call_split:
  assumes wf: "wfEntries n E" and r: "rest E S = as @ e # bs" and call: "isCall E e"
  obtains ys zs where "bs = ys @ retPos E (idOf E e) # zs" "rest E (insert (idOf E e) S) = as @ ys @ zs"
proof -
  let ?x = "idOf E e" let ?r = "retPos E ?x"
  have e: "0 < e" "e \<le> length E" "?x \<notin> S" using set_rest [of E S] r by auto
  note x = posOf_unique(2) [OF wf e(1,2)]
  note ret = posOf_ok [OF wf x, of returnEntry]
  have lt: "e < ?r" using call_before_return [OF wf x] callPos_idOf [OF wf e(1,2) call] by simp
  have "?r \<in> set (rest E S)" using ret e(3) by (simp add: set_rest)
  moreover have "\<forall>p\<in>set as. p < e" using sorted_rest [of E S] r by (simp add: sorted_wrt_append)
  ultimately have "?r \<in> set bs" using r lt by auto
  then obtain ys zs where bs: "bs = ys @ ?r # zs" by (meson split_list)
  have only: "p = e \<or> p = ?r" if "p \<in> set (rest E S)" "idOf E p = ?x" for p
  proof (cases "isCall E p")
    case True
    then show ?thesis using callPos_idOf [OF wf _ _ True] callPos_idOf [OF wf e(1,2) call] that by (auto simp: set_rest)
  next
    case False
    then show ?thesis using retPos_idOf [OF wf _ _ False] that by (auto simp: set_rest)
  qed
  have d: "distinct (as @ e # ys @ ?r # zs)" using distinct_rest [of E S] r bs by simp
  have "rest E (insert ?x S) = filter (\<lambda>p. idOf E p \<noteq> ?x) (as @ e # ys @ ?r # zs)" using rest_insert r bs by metis
  also have "\<dots> = as @ ys @ zs"
  proof -
    have keep: "filter (\<lambda>p. idOf E p \<noteq> ?x) us = us" if "set us \<subseteq> set as \<union> set ys \<union> set zs" for us
    proof (rule filter_True, rule ballI)
      fix p assume "p \<in> set us"
      then have "p \<in> set as \<union> set ys \<union> set zs" using that by blast
      then show "idOf E p \<noteq> ?x" using only [of p] r bs d by auto
    qed
    have "filter (\<lambda>p. idOf E p \<noteq> ?x) as = as" "filter (\<lambda>p. idOf E p \<noteq> ?x) ys = ys"
      "filter (\<lambda>p. idOf E p \<noteq> ?x) zs = zs" by (intro keep; blast)+
    then show ?thesis using ret(4) by simp
  qed
  finally show ?thesis using that bs by blast
qed

section \<open>The definition by choice of a first operation\<close>

inductive linz :: "('s, 'i, 'o) Model \<Rightarrow> ('i, 'o) hentry list \<Rightarrow> nat set \<Rightarrow> 's \<Rightarrow> bool"
  for m E where
  linz_done: "rest E S = [] \<Longrightarrow> linz m E S st"
| linz_pick: "rest E S = as @ p # bs \<Longrightarrow> \<forall>q\<in>set as. isCall E q \<Longrightarrow> isCall E p \<Longrightarrow>
    stepId m E st (idOf E p) = (True, st') \<Longrightarrow> linz m E (insert (idOf E p) S) st' \<Longrightarrow> linz m E S st"

lemma pick_iff:
  assumes wf: "wfEntries n E" and x: "x < n" "x \<notin> S"
  shows "(\<exists>as bs. rest E S = as @ callPos E x # bs \<and> (\<forall>q\<in>set as. isCall E q)) \<longleftrightarrow>
    (\<forall>y<n. y \<notin> S \<longrightarrow> \<not> precedes E y x)"
proof
  assume "\<exists>as bs. rest E S = as @ callPos E x # bs \<and> (\<forall>q\<in>set as. isCall E q)"
  then obtain as bs where r: "rest E S = as @ callPos E x # bs" and as: "\<forall>q\<in>set as. isCall E q" by blast
  show "\<forall>y<n. y \<notin> S \<longrightarrow> \<not> precedes E y x"
  proof (intro allI impI notI)
    fix y assume y: "y < n" "y \<notin> S" "precedes E y x"
    note ret = posOf_ok [OF wf y(1), of returnEntry]
    have "retPos E y \<in> set (rest E S)" using ret y(2) by (simp add: set_rest)
    moreover have "\<forall>q\<in>set bs. callPos E x < q" using sorted_rest [of E S] r by (simp add: sorted_wrt_append)
    ultimately have "retPos E y \<in> set as" using y(3) r by (force simp: precedes_def)
    then show False using as ret(3) by (auto simp: isCall_def)
  qed
next
  assume none: "\<forall>y<n. y \<notin> S \<longrightarrow> \<not> precedes E y x"
  note c = posOf_ok [OF wf x(1), of callEntry]
  have "callPos E x \<in> set (rest E S)" using c x(2) by (simp add: set_rest)
  then obtain as bs where r: "rest E S = as @ callPos E x # bs" by (meson split_list)
  have "isCall E q" if q: "q \<in> set as" for q
  proof (rule ccontr)
    assume nc: "\<not> isCall E q"
    have mem: "0 < q" "q \<le> length E" "idOf E q \<notin> S" using q r set_rest [of E S] by auto
    have "q < callPos E x" using q sorted_rest [of E S] r by (simp add: sorted_wrt_append)
    then have "precedes E (idOf E q) x" using retPos_idOf [OF wf mem(1,2) nc] by (simp add: precedes_def)
    then show False using none mem(3) posOf_unique(2) [OF wf mem(1,2)] by blast
  qed
  then show "\<exists>as bs. rest E S = as @ callPos E x # bs \<and> (\<forall>q\<in>set as. isCall E q)" using r by blast
qed

lemma linz_imp_linearization:
  assumes "linz m E S st" "wfEntries n E"
  shows "\<exists>xs. linearization m n E S st xs"
  using assms(1)
proof (induction rule: linz.induct)
  case (linz_done S st)
  then show ?case using rest_Nil_iff [OF assms(2)]
    by (intro exI [of _ "[]"]) (auto simp: linearization_def)
next
  case (linz_pick S as p bs st st')
  let ?x = "idOf E p"
  obtain xs where xs: "linearization m n E (insert ?x S) st' xs" using linz_pick.IH by blast
  have p: "0 < p" "p \<le> length E" "?x \<notin> S" using linz_pick.hyps(1) set_rest [of E S] by auto
  note x = posOf_unique(2) [OF assms(2) p(1,2)]
  have "callPos E ?x = p" using callPos_idOf [OF assms(2) p(1,2) linz_pick.hyps(3)] .
  then have "\<forall>y<n. y \<notin> S \<longrightarrow> \<not> precedes E y ?x"
    using pick_iff [OF assms(2) x p(3)] linz_pick.hyps(1,2) by metis
  then have "linearization m n E S st (?x # xs)"
    using xs linz_pick.hyps(4) p(3) x by (auto simp: linearization_def)
  then show ?case ..
qed

lemma linearization_imp_linz:
  assumes "wfEntries n E"
  shows "linearization m n E S st xs \<Longrightarrow> linz m E S st"
proof (induction xs arbitrary: S st)
  case Nil
  then show ?case using rest_Nil_iff [OF assms] by (intro linz_done) (auto simp: linearization_def)
next
  case (Cons x xs)
  obtain st' where st': "stepId m E st x = (True, st')"
    using Cons.prems by (cases "stepId m E st x") (auto simp: linearization_def)
  have x: "x < n" "x \<notin> S" using Cons.prems by (auto simp: linearization_def)
  note c = posOf_ok [OF assms x(1), of callEntry]
  have "\<not> precedes E x x" using call_before_return [OF assms x(1)] by (simp add: precedes_def)
  then have "\<forall>y<n. y \<notin> S \<longrightarrow> \<not> precedes E y x" using Cons.prems by (auto simp: linearization_def)
  then obtain as bs where r: "rest E S = as @ callPos E x # bs" "\<forall>q\<in>set as. isCall E q"
    using pick_iff [OF assms x] by blast
  have "linearization m n E (insert x S) st' xs" using Cons.prems st' by (auto simp: linearization_def)
  from linz_pick [OF r, of m st st'] Cons.IH [OF this] c(3,4) st' show ?case by (simp add: isCall_def)
qed

lemma linz_iff: "wfEntries n E \<Longrightarrow> linz m E S st \<longleftrightarrow> (\<exists>xs. linearization m n E S st xs)"
  using linz_imp_linearization linearization_imp_linz by metis

end
