(* ===== verification/Porcupine_Search.thy ===== *)
theory Porcupine_Search
  imports Porcupine_Linz
begin

text \<open>
  Correctness of the search of \<^verbatim>\<open>checkSingle\<close>. The invariant says that the calls on the stack are a path of
  choices from the full list to the current one, that every operation tried and left behind leads to no
  linearization, and that a cached pair of set and state is on the path or leads to none. The positions on
  the path and the current one, read as the digits of a number, increase with every round: that is why the
  loop ends, and it bounds the number of rounds.
\<close>

section \<open>Digits\<close>

fun rank :: "nat \<Rightarrow> nat \<Rightarrow> nat list \<Rightarrow> nat" where
  "rank B (Suc d) (x # xs) = x * B ^ d + rank B d xs"
| "rank B d xs = 0"

lemma rank_append: "length xs \<le> d \<Longrightarrow> rank B d (xs @ ys) = rank B d xs + rank B (d - length xs) ys"
proof (induction xs arbitrary: d)
  case (Cons x xs)
  then show ?case by (cases d) auto
qed simp

lemma rank_less: "0 < B \<Longrightarrow> length xs \<le> d \<Longrightarrow> \<forall>x\<in>set xs. x < B \<Longrightarrow> rank B d xs < B ^ d"
proof (induction xs arbitrary: d)
  case (Cons x xs)
  then obtain d' where d: "d = Suc d'" by (cases d) auto
  have "rank B d' xs < B ^ d'" using Cons d by auto
  moreover have "Suc x * B ^ d' \<le> B * B ^ d'" using Cons.prems by (intro mult_le_mono1) auto
  ultimately show ?case using d by simp
qed simp

lemma rank_single: "0 < d \<Longrightarrow> rank B d [x] = x * B ^ (d - 1)"
  by (cases d) auto

lemma rank_next:
  assumes "length xs < d" "x < y" "0 < B"
  shows "rank B d (xs @ [x]) < rank B d (xs @ [y])"
  using assms by (simp add: rank_append rank_single)

lemma rank_push:
  assumes "Suc (length xs) < d" "0 < y" "0 < B"
  shows "rank B d (xs @ [x]) < rank B d (xs @ [x] @ [y])"
  using assms by (simp add: rank_append [of "xs @ [x]" d B "[y]", simplified] rank_single)

lemma rank_pop:
  assumes "Suc (length xs) < d" "x < y" "z < B"
  shows "rank B d (xs @ [x] @ [z]) < rank B d (xs @ [y])"
proof -
  obtain k where k: "d - length xs = Suc (Suc k)" using assms(1) by (metis Suc_diff_Suc Suc_lessD)
  have "z * B ^ k < B * B ^ k" using assms(3) by simp
  moreover have "Suc x * B ^ Suc k \<le> y * B ^ Suc k" using assms(2) by (intro mult_le_mono1) simp
  ultimately have "x * B ^ Suc k + z * B ^ k < y * B ^ Suc k" unfolding power_Suc mult_Suc by linarith
  then show ?thesis using assms(1) k by (simp add: rank_append)
qed

section \<open>The list during the search\<close>

definition nodeData :: "('i, 'o) hentry list \<Rightarrow> ('i, 'o) hnodes \<Rightarrow> bool" where
  "nodeData E h \<longleftrightarrow> (\<forall>p. 0 < p \<and> p \<le> length E \<longrightarrow>
     nd_value h p = Some (en_value (E ! (p - 1))) \<and> nd_id h p = int (idOf E p) \<and>
     nd_match h p = (if isCall E p then Some (retPos E (idOf E p)) else None))"

lemma chain_next: "chain h (xs @ x # ys) \<Longrightarrow> nd_next h x = (case ys of [] \<Rightarrow> None | y # _ \<Rightarrow> Some y)"
  using links_adjacent [of h xs x] by (cases ys) (auto simp: chain_def)

lemma start_nodes:
  assumes "wfEntries n E" "makeLinkedEntries E = (root, h0)"
  defines "h \<equiv> insertBefore 0 root (newNode 0 None None (-1) h0)"
  shows "chain h (0 # rest E {})" "nodeData E h"
proof -
  note spec = makeLinkedEntries_spec [OF assms(2), folded h_def]
  have "0 # rest E {} = [0..<Suc (length E)]" by (simp add: rest_def upt_conv_Cons del: upt_Suc)
  then show "chain h (0 # rest E {})" using spec(2) by simp
  show "nodeData E h"
    unfolding nodeData_def
  proof (intro allI impI)
    fix p assume p: "0 < p \<and> p \<le> length E"
    have l: "linkedNode E p h" using spec(3) p by blast
    have "map_option Suc (returnAfter E p (idOf E p)) = Some (retPos E (idOf E p))" if c: "isCall E p"
    proof -
      note x = posOf_unique(2) [OF assms(1) conjunct1 [OF p] conjunct2 [OF p]]
      note r = posOf_ok [OF assms(1) x, of returnEntry]
      have "p < retPos E (idOf E p)"
        using call_before_return [OF assms(1) x] callPos_idOf [OF assms(1) _ _ c] p by simp
      then have "retPos E (idOf E p) - 1 \<in> set [p..<length E]" using r by auto
      then have "returnAfter E p (idOf E p) \<noteq> None"
        unfolding returnAfter_def find_None_iff using r(3,4) by (auto simp: idOf_def)
      then obtain j where j: "returnAfter E p (idOf E p) = Some j" by blast
      then have "j < length E" "en_kind (E ! j) = returnEntry" "en_id (E ! j) = idOf E p"
        by (auto simp: returnAfter_def find_Some_iff)
      then have "retPos E (idOf E (Suc j)) = Suc j" "idOf E (Suc j) = idOf E p"
        using retPos_idOf [OF assms(1), of "Suc j"] by (auto simp: isCall_def idOf_def)
      then show ?thesis using j by simp
    qed
    then show "nd_value h p = Some (en_value (E ! (p - 1))) \<and> nd_id h p = int (idOf E p) \<and>
      nd_match h p = (if isCall E p then Some (retPos E (idOf E p)) else None)"
      using l by (cases "en_kind (E ! (p - 1))") (auto simp: linkedNode_def isCall_def idOf_def)
  qed
qed

lemma stepNodes_ok:
  assumes wf: "wfEntries n E" and h: "nodeData E h" and e: "0 < e" "e \<le> length E" "isCall E e"
  shows "stepNodes m h st e (retPos E (idOf E e)) = Some (stepId m E st (idOf E e))"
proof -
  note x = posOf_unique(2) [OF wf e(1,2)] and c = callPos_idOf [OF wf e]
  note r = posOf_ok [OF wf x, of returnEntry]
  have "E ! (e - 1) \<in> set E" "E ! (retPos E (idOf E e) - 1) \<in> set E" using e r by (auto intro!: nth_mem)
  then have "isl (en_value (E ! (e - 1)))" "\<not> isl (en_value (E ! (retPos E (idOf E e) - 1)))"
    using wf e(3) r(3) by (auto simp: wfEntries_def list_all_iff isCall_def)
  then obtain i out where "en_value (E ! (e - 1)) = Inl i" "en_value (E ! (retPos E (idOf E e) - 1)) = Inr out"
    by (auto simp: isl_def) (metis sum.exhaust_sel)
  then show ?thesis using h e r c by (simp add: stepNodes_def nodeData_def stepId_def)
qed

section \<open>Paths of choices\<close>

definition tried :: "('s, 'i, 'o) Model \<Rightarrow> ('i, 'o) hentry list \<Rightarrow> nat set \<Rightarrow> 's \<Rightarrow> nat \<Rightarrow> bool" where
  "tried m E S st p \<longleftrightarrow> isCall E p \<and>
     (case stepId m E st (idOf E p) of (ok, st') \<Rightarrow> ok \<longrightarrow> \<not> linz m E (insert (idOf E p) S) st')"

inductive path ::
    "('s, 'i, 'o) Model \<Rightarrow> ('i, 'o) hentry list \<Rightarrow> ('i, 'o) hnodes \<Rightarrow>
     (nat \<times> 's) list \<Rightarrow> ('i, 'o) hnodes \<Rightarrow> nat set \<Rightarrow> 's \<Rightarrow> (nat set \<times> 's) set \<Rightarrow> bool"
  for m E h0 where
  path_nil: "path m E h0 [] h0 {} (md_Init m) {}"
| path_snoc: "path m E h0 cs h S st V \<Longrightarrow> rest E S = as @ e # bs \<Longrightarrow> \<forall>q\<in>set as. tried m E S st q \<Longrightarrow>
    isCall E e \<Longrightarrow> stepId m E st (idOf E e) = (True, st') \<Longrightarrow> lift e h = Some h' \<Longrightarrow>
    path m E h0 (cs @ [(e, st)]) h' (insert (idOf E e) S) st' (insert (insert (idOf E e) S, st') V)"

inductive_cases path_nilE: "path m E h0 [] h S st V"
inductive_cases path_snocE: "path m E h0 (cs @ [c]) h S st V"

lemma lift_rest:
  assumes wf: "wfEntries n E" and "chain h (0 # rest E S)" "nodeData E h" "rest E S = as @ e # bs" "isCall E e"
  obtains h' where "lift e h = Some h'" "unlift e h' = Some h" "chain h' (0 # rest E (insert (idOf E e) S))" "nodeData E h'"
proof -
  obtain ys zs where s: "bs = ys @ retPos E (idOf E e) # zs" "rest E (insert (idOf E e) S) = as @ ys @ zs"
    using rest_call_split [OF wf assms(4,5)] by blast
  obtain xs a where a: "0 # as = xs @ [a]" by (metis list.discI rev_exhaust)
  have "0 < e" "e \<le> length E" using assms(4) set_rest [of E S] by auto
  then have mt: "nd_match h e = Some (retPos E (idOf E e))" using assms(3,5) by (simp add: nodeData_def)
  have eq: "0 # rest E S = xs @ [a, e] @ ys @ [retPos E (idOf E e)] @ zs"
    using a s(1) assms(4) by (metis append.assoc append_Cons append_Nil)
  have eq': "0 # rest E (insert (idOf E e) S) = xs @ [a] @ ys @ zs" using a s(2) by (metis append.assoc append_Cons)
  obtain h' where h': "lift e h = Some h'" "chain h' (xs @ [a] @ ys @ zs)"
    "nd_value h' = nd_value h" "nd_match h' = nd_match h" "nd_id h' = nd_id h"
    using lift_chain [OF assms(2) [unfolded eq] mt] by blast
  show ?thesis
  proof (rule that)
    show "lift e h = Some h'" by fact
    show "unlift e h' = Some h" using unlift_lift [OF assms(2) [unfolded eq] mt h'(1)] .
    show "chain h' (0 # rest E (insert (idOf E e) S))" using h'(2) eq' by simp
    show "nodeData E h'" using assms(3) h'(3,4,5) by (simp add: nodeData_def)
  qed
qed

lemma path_facts:
  assumes "path m E h0 cs h S st V" "wfEntries n E" "chain h0 (0 # rest E {})" "nodeData E h0"
  shows "chain h (0 # rest E S) \<and> nodeData E h \<and> S \<subseteq> {..<n} \<and> card S = length cs \<and>
    (\<forall>(S', s)\<in>V. card S' \<le> length cs) \<and> (\<forall>(e, s)\<in>set cs. 0 < e \<and> e \<le> length E)"
  using assms(1)
proof (induction rule: path.induct)
  case path_nil
  then show ?case using assms(3,4) by simp
next
  case (path_snoc cs h S st V as e bs st' h')
  obtain h'' where "lift e h = Some h''" "chain h'' (0 # rest E (insert (idOf E e) S))" "nodeData E h''"
    using lift_rest [OF assms(2) _ _ path_snoc.hyps(2,4)] path_snoc.IH by metis
  moreover have e: "0 < e" "e \<le> length E" "idOf E e \<notin> S" using path_snoc.hyps(2) set_rest [of E S] by auto
  moreover have "finite S" using path_snoc.IH finite_subset [of S "{..<n}"] by simp
  ultimately show ?case using path_snoc.IH path_snoc.hyps(6) posOf_unique(2) [OF assms(2) e(1,2)] by force
qed

lemma path_linearization:
  assumes "path m E h0 cs h S st V" "wfEntries n E" "linearization m n E S st xs"
  shows "linearization m n E {} (md_Init m) (map (\<lambda>(e, _). idOf E e) cs @ xs)"
  using assms(1,3)
proof (induction arbitrary: xs rule: path.induct)
  case (path_snoc cs h S st V as e bs st' h')
  let ?x = "idOf E e"
  have e: "0 < e" "e \<le> length E" "?x \<notin> S" using path_snoc.hyps(2) set_rest [of E S] by auto
  note x = posOf_unique(2) [OF assms(2) e(1,2)] and c = callPos_idOf [OF assms(2) e(1,2) path_snoc.hyps(4)]
  have "\<forall>y<n. y \<notin> S \<longrightarrow> \<not> precedes E y ?x"
    using pick_iff [OF assms(2) x e(3)] path_snoc.hyps(2,3) unfolding c by (auto simp: tried_def)
  then have "linearization m n E S st (?x # xs)"
    using path_snoc.prems path_snoc.hyps(5) e(3) x by (auto simp: linearization_def)
  from path_snoc.IH [OF this] show ?case by simp
qed simp

text \<open>When every call before the first return has been tried, there is no linearization.\<close>

lemma tried_all:
  assumes "rest E S = as @ e # bs" "\<forall>q\<in>set as. tried m E S st q" "\<not> isCall E e"
  shows "\<not> linz m E S st"
proof
  assume "linz m E S st"
  then show False
  proof (cases rule: linz.cases)
    case linz_done
    then show False using assms(1) by simp
  next
    case (linz_pick as' p bs' st')
    have "p \<in> set as"
    proof (rule ccontr)
      assume np: "p \<notin> set as"
      have "e \<notin> set as'" "p \<noteq> e" using linz_pick assms(3) by auto
      then show False using linz_pick(1) assms(1) np
        by (auto simp: append_eq_append_conv2 append_eq_Cons_conv Cons_eq_append_conv)
    qed
    then show False using assms(2) linz_pick by (auto simp: tried_def)
  qed
qed

section \<open>The invariant of the loop\<close>

definition entryOk :: "('s, 'i, 'o) Model \<Rightarrow> ('i, 'o) hentry list \<Rightarrow> nat set \<Rightarrow> 's \<Rightarrow> nat option \<Rightarrow> bool" where
  "entryOk m E S st entry \<longleftrightarrow>
     (case entry of
        None \<Rightarrow> rest E S = []
      | Some e \<Rightarrow> \<exists>as bs. rest E S = as @ e # bs \<and> (\<forall>q\<in>set as. tried m E S st q))"

definition cacheOk ::
    "('s, 'i, 'o) Model \<Rightarrow> nat \<Rightarrow> ('i, 'o) hentry list \<Rightarrow> (nat set \<times> 's) set \<Rightarrow> (64 word \<Rightarrow> (bitset \<times> 's) list) \<Rightarrow> bool" where
  "cacheOk m n E V cache \<longleftrightarrow>
     (\<forall>k. \<forall>(b, s)\<in>set (cache k). (bitsOf b, s) \<in> V \<or> \<not> linz m E (bitsOf b) s)"

definition searchInv ::
    "('s, 'i, 'o) Model \<Rightarrow> nat \<Rightarrow> ('i, 'o) hentry list \<Rightarrow> ('i, 'o) hnodes \<Rightarrow> nat set \<Rightarrow> (nat set \<times> 's) set \<Rightarrow>
     ('s, 'i, 'o) search \<Rightarrow> bool" where
  "searchInv m n E h0 S V \<sigma> \<longleftrightarrow>
     path m E h0 (sr_calls \<sigma>) (sr_nodes \<sigma>) S (sr_state \<sigma>) V \<and>
     bitsOf (sr_linearized \<sigma>) = S \<and> length (sr_linearized \<sigma>) = length (newBitset n) \<and>
     cacheOk m n E V (sr_cache \<sigma>) \<and> length (sr_longest \<sigma>) = n \<and> entryOk m E S (sr_state \<sigma>) (sr_entry \<sigma>)"

definition digits :: "('s, 'i, 'o) search \<Rightarrow> nat list" where
  "digits \<sigma> = map fst (sr_calls \<sigma>) @ (case sr_entry \<sigma> of None \<Rightarrow> [] | Some e \<Rightarrow> [e])"

text \<open>The number of rounds that are left at most\<close>

definition roundsLeft :: "nat \<Rightarrow> ('s, 'i, 'o) search \<Rightarrow> nat" where
  "roundsLeft n \<sigma> = (2 * n + 1) ^ n - rank (2 * n + 1) n (digits \<sigma>) + (if sr_entry \<sigma> = None then 0 else 1)"

lemma length_updateLongest [simp]: "length (updateLongest h calls lg) = length lg"
  unfolding updateLongest_def
  by (rule fold_invariant [where P = "\<lambda>l. length l = length lg" and Q = "\<lambda>_. True"])
    (auto simp: Let_def split: option.splits)

lemma cached_dead:
  assumes "cacheContains m cache b s" "cacheOk m n E V cache" "\<forall>s t. md_Equal m s t \<longrightarrow> s = t"
    "\<forall>(S', s)\<in>V. card S' \<le> k" "card (bitsOf b) = Suc k"
  shows "\<not> linz m E (bitsOf b) s"
proof -
  have "(b, s) \<in> set (cache (bs_hash b))"
    using assms(1,3) by (auto simp: cacheContains_def list_ex_iff bs_equals_iff)
  moreover have "(bitsOf b, s) \<notin> V" using assms(4,5) by auto
  ultimately show ?thesis using assms(2) by (auto simp: cacheOk_def)
qed

text \<open>What the invariant says of a state with a current entry.\<close>

lemma searchInv_entry:
  assumes "wfEntries n E" "chain h0 (0 # rest E {})" "nodeData E h0"
    "searchInv m n E h0 S V \<sigma>" "sr_entry \<sigma> = Some e"
  obtains as bs where "rest E S = as @ e # bs" "\<forall>q\<in>set as. tried m E S (sr_state \<sigma>) q"
    "0 < e" "e \<le> length E" "idOf E e < n" "idOf E e \<notin> S" "length (sr_calls \<sigma>) < n"
proof -
  note I = assms(4) [unfolded searchInv_def]
  obtain as bs where r: "rest E S = as @ e # bs" "\<forall>q\<in>set as. tried m E S (sr_state \<sigma>) q"
    using I assms(5) by (auto simp: entryOk_def)
  then have e: "0 < e" "e \<le> length E" "idOf E e \<notin> S" using set_rest [of E S] by auto
  note x = posOf_unique(2) [OF assms(1) e(1,2)]
  have "card S = length (sr_calls \<sigma>)" "S \<subset> {..<n}"
    using path_facts [OF conjunct1 [OF I] assms(1-3)] e(3) x by auto
  then have "length (sr_calls \<sigma>) < n" using psubset_card_mono [of "{..<n}" S] by simp
  then show ?thesis using that r e x by blast
qed

lemma rank_digits:
  assumes "wfEntries n E" "chain h0 (0 # rest E {})" "nodeData E h0" "searchInv m n E h0 S V \<sigma>"
  shows "rank (2 * n + 1) n (digits \<sigma>) < (2 * n + 1) ^ n"
proof (rule rank_less)
  note I = assms(4) [unfolded searchInv_def]
  note f = path_facts [OF conjunct1 [OF I] assms(1-3)]
  have L: "length E = 2 * n" using assms(1) by (simp add: wfEntries_def)
  have "card S \<le> n" using f card_mono [of "{..<n}" S] by simp
  then have k: "length (sr_calls \<sigma>) \<le> n" using f by simp
  have c: "\<forall>x\<in>set (map fst (sr_calls \<sigma>)). x < 2 * n + 1" using f L by fastforce
  show "length (digits \<sigma>) \<le> n"
  proof (cases "sr_entry \<sigma>")
    case (Some e)
    then show ?thesis using searchInv_entry [OF assms Some, of ?thesis] by (simp add: digits_def)
  qed (use k in \<open>simp add: digits_def\<close>)
  show "\<forall>x\<in>set (digits \<sigma>). x < 2 * n + 1"
  proof (cases "sr_entry \<sigma>")
    case (Some e)
    then show ?thesis using searchInv_entry [OF assms Some, of ?thesis] c L by (simp add: digits_def)
  qed (use c in \<open>simp add: digits_def\<close>)
qed simp

lemma roundsLeft_less:
  assumes "rank (2 * n + 1) n (digits \<sigma>) < rank (2 * n + 1) n (digits \<sigma>')"
    "rank (2 * n + 1) n (digits \<sigma>') < (2 * n + 1) ^ n" "sr_entry \<sigma> \<noteq> None"
  shows "roundsLeft n \<sigma>' < roundsLeft n \<sigma>"
  using assms by (auto simp: roundsLeft_def)

section \<open>One round\<close>

lemma rest_after_call:
  assumes "wfEntries n E" "rest E S = as @ e # bs" "isCall E e"
  obtains b bs' where "bs = b # bs'" "e < b"
proof -
  have "bs \<noteq> []" using rest_call_split [OF assms] by (metis append_is_Nil_conv list.discI)
  moreover have "\<forall>b\<in>set bs. e < b" using sorted_rest [of E S] assms(2) by (simp add: sorted_wrt_append)
  ultimately show ?thesis using that by (cases bs) auto
qed

lemma entryOk_first: "entryOk m E S st (case rest E S of [] \<Rightarrow> None | y # _ \<Rightarrow> Some y)"
proof (cases "rest E S")
  case (Cons y ys)
  then have "rest E S = [] @ y # ys \<and> (\<forall>q\<in>set []. tried m E S st q)" by simp
  then show ?thesis unfolding Cons entryOk_def list.case option.case by blast
qed (simp add: entryOk_def)

lemma searchInv_skip:
  assumes wf: "wfEntries n E" and base: "chain h0 (0 # rest E {})" "nodeData E h0"
    and I: "searchInv m n E h0 S V \<sigma>" and e: "sr_entry \<sigma> = Some e" "tried m E S (sr_state \<sigma>) e"
  defines "\<sigma>' \<equiv> \<sigma>\<lparr>sr_entry := nd_next (sr_nodes \<sigma>) e\<rparr>"
  shows "searchInv m n E h0 S V \<sigma>'" "roundsLeft n \<sigma>' < roundsLeft n \<sigma>"
proof -
  obtain as bs where r: "rest E S = as @ e # bs" "\<forall>q\<in>set as. tried m E S (sr_state \<sigma>) q" "length (sr_calls \<sigma>) < n"
    using searchInv_entry [OF wf base I e(1)] by metis
  obtain b bs' where b: "bs = b # bs'" "e < b" using rest_after_call [OF wf r(1)] e(2) by (auto simp: tried_def)
  have "chain (sr_nodes \<sigma>) ((0 # as) @ e # bs)"
    using path_facts [OF conjunct1 [OF I [unfolded searchInv_def]] wf base] r(1) by simp
  then have nxt: "nd_next (sr_nodes \<sigma>) e = Some b" using chain_next [of "sr_nodes \<sigma>" "0 # as" e bs] b(1) by simp
  have "rest E S = (as @ [e]) @ b # bs' \<and> (\<forall>q\<in>set (as @ [e]). tried m E S (sr_state \<sigma>) q)"
    using r(1,2) b(1) e(2) by simp
  then have "entryOk m E S (sr_state \<sigma>) (Some b)" unfolding entryOk_def option.case by blast
  then show I': "searchInv m n E h0 S V \<sigma>'" using I nxt by (simp add: searchInv_def \<sigma>'_def)
  have "rank (2 * n + 1) n (digits \<sigma>) < rank (2 * n + 1) n (digits \<sigma>')"
    using rank_next [of "map fst (sr_calls \<sigma>)" n e b "2 * n + 1"] r(3) b(2) nxt e(1) by (simp add: digits_def \<sigma>'_def)
  then show "roundsLeft n \<sigma>' < roundsLeft n \<sigma>"
    using roundsLeft_less [of n \<sigma> \<sigma>'] rank_digits [OF wf base I'] e(1) by simp
qed

lemma searchInv_push:
  assumes wf: "wfEntries n E" and base: "chain h0 (0 # rest E {})" "nodeData E h0"
    and I: "searchInv m n E h0 S V \<sigma>" and e: "sr_entry \<sigma> = Some e" "isCall E e"
    and st: "stepId m E (sr_state \<sigma>) (idOf E e) = (True, st')"
    and b: "bitsOf b = insert (idOf E e) S" "length b = length (newBitset n)"
    and h': "lift e (sr_nodes \<sigma>) = Some h'"
  defines "\<sigma>' \<equiv> \<sigma>\<lparr>sr_cache := (sr_cache \<sigma>)(bs_hash b := sr_cache \<sigma> (bs_hash b) @ [(b, st')]),
     sr_calls := sr_calls \<sigma> @ [(e, sr_state \<sigma>)], sr_state := st', sr_linearized := b,
     sr_nodes := h', sr_entry := nd_next h' 0\<rparr>"
  shows "searchInv m n E h0 (insert (idOf E e) S) (insert (insert (idOf E e) S, st') V) \<sigma>'"
    "roundsLeft n \<sigma>' < roundsLeft n \<sigma>"
proof -
  note I = assms(4) [unfolded searchInv_def]
  obtain as bs where r: "rest E S = as @ e # bs" "\<forall>q\<in>set as. tried m E S (sr_state \<sigma>) q" "length (sr_calls \<sigma>) < n"
    using searchInv_entry [OF wf base assms(4) e(1)] by metis
  have p: "path m E h0 (sr_calls \<sigma> @ [(e, sr_state \<sigma>)]) h' (insert (idOf E e) S) st' (insert (insert (idOf E e) S, st') V)"
    using path_snoc [OF conjunct1 [OF I] r(1,2) e(2) st h'] .
  then have c: "chain h' ([] @ 0 # rest E (insert (idOf E e) S))" using path_facts [OF p wf base] by simp
  have ent: "entryOk m E (insert (idOf E e) S) st' (nd_next h' 0)"
    using chain_next [OF c] entryOk_first by simp
  have "cacheOk m n E (insert (insert (idOf E e) S, st') V) (sr_cache \<sigma>')"
    using I b(1) by (auto simp: cacheOk_def \<sigma>'_def)
  then show I': "searchInv m n E h0 (insert (idOf E e) S) (insert (insert (idOf E e) S, st') V) \<sigma>'"
    using I p b ent by (simp add: searchInv_def \<sigma>'_def)
  show "roundsLeft n \<sigma>' < roundsLeft n \<sigma>"
  proof (cases "nd_next h' 0")
    case None
    then show ?thesis using e(1) by (simp add: roundsLeft_def digits_def \<sigma>'_def)
  next
    case (Some y)
    then have y: "sr_entry \<sigma>' = Some y" by (simp add: \<sigma>'_def)
    have yb: "0 < y" "length (sr_calls \<sigma>') < n" using searchInv_entry [OF wf base I' y] by metis+
    then have "rank (2 * n + 1) n (digits \<sigma>) < rank (2 * n + 1) n (digits \<sigma>')"
      using rank_push [of "map fst (sr_calls \<sigma>)" n y "2 * n + 1" e] e(1) Some by (simp add: digits_def \<sigma>'_def)
    then show ?thesis using roundsLeft_less [of n \<sigma> \<sigma>'] rank_digits [OF wf base I'] e(1) by simp
  qed
qed

lemma searchInv_pop:
  assumes wf: "wfEntries n E" and base: "chain h0 (0 # rest E {})" "nodeData E h0"
    and I: "searchInv m n E h0 S V \<sigma>" and e: "sr_entry \<sigma> = Some e" "\<not> isCall E e"
    and c: "sr_calls \<sigma> = cs @ [(t, s)]" and lg: "length lg = n"
    and b: "bitsOf b = S - {idOf E t}" "length b = length (newBitset n)"
  obtains h S0 V0 where "unlift t (sr_nodes \<sigma>) = Some h" "searchInv m n E h0 S0 V0
      (\<sigma>\<lparr>sr_longest := lg, sr_state := s, sr_linearized := b, sr_calls := cs, sr_nodes := h, sr_entry := nd_next h t\<rparr>)"
    "roundsLeft n (\<sigma>\<lparr>sr_longest := lg, sr_state := s, sr_linearized := b, sr_calls := cs, sr_nodes := h,
      sr_entry := nd_next h t\<rparr>) < roundsLeft n \<sigma>"
proof -
  note I = assms(4) [unfolded searchInv_def]
  have "path m E h0 (cs @ [(t, s)]) (sr_nodes \<sigma>) S (sr_state \<sigma>) V" using I c by simp
  then obtain h S0 V0 as bs where p: "path m E h0 cs h S0 s V0" "rest E S0 = as @ t # bs"
    "\<forall>q\<in>set as. tried m E S0 s q" "isCall E t" "stepId m E s (idOf E t) = (True, sr_state \<sigma>)"
    "lift t h = Some (sr_nodes \<sigma>)" "S = insert (idOf E t) S0" "V = insert (S, sr_state \<sigma>) V0"
    by (elim path_snocE) auto
  have nt: "idOf E t \<notin> S0" using p(2) set_rest [of E S0] by auto
  note f = path_facts [OF p(1) wf base]
  have un: "unlift t (sr_nodes \<sigma>) = Some h"
    using lift_rest [OF wf _ _ p(2,4), of h] f p(6) by (metis option.inject)
  obtain as' bs' where r: "rest E S = as' @ e # bs'" "\<forall>q\<in>set as'. tried m E S (sr_state \<sigma>) q"
    "e \<le> length E" "length (sr_calls \<sigma>) < n"
    using searchInv_entry [OF wf base assms(4) e(1)] by metis
  have dead: "\<not> linz m E S (sr_state \<sigma>)" using tried_all [OF r(1,2) e(2)] .
  then have tr: "tried m E S0 s t" using p(4,5,7) by (simp add: tried_def)
  obtain y ys where y: "bs = y # ys" "t < y" using rest_after_call [OF wf p(2,4)] .
  have nxt: "nd_next h t = Some y" using chain_next [of h "0 # as" t bs] f p(2) y(1) by simp
  have "rest E S0 = (as @ [t]) @ y # ys \<and> (\<forall>q\<in>set (as @ [t]). tried m E S0 s q)" using p(2,3) y(1) tr by simp
  then have ent: "entryOk m E S0 s (Some y)" unfolding entryOk_def option.case by blast
  have cache: "cacheOk m n E V0 (sr_cache \<sigma>)" using I dead p(8) by (fastforce simp: cacheOk_def)
  let ?\<sigma> = "\<sigma>\<lparr>sr_longest := lg, sr_state := s, sr_linearized := b, sr_calls := cs, sr_nodes := h, sr_entry := nd_next h t\<rparr>"
  have I': "searchInv m n E h0 S0 V0 ?\<sigma>"
    using p(1,7) nt b lg cache ent nxt by (simp add: searchInv_def)
  have "e < 2 * n + 1" using r(3) wf by (simp add: wfEntries_def)
  then have "rank (2 * n + 1) n (digits \<sigma>) < rank (2 * n + 1) n (digits ?\<sigma>)"
    using rank_pop [of "map fst cs" n t y e "2 * n + 1"] r(4) y(2) nxt e(1) c by (simp add: digits_def)
  then have "roundsLeft n ?\<sigma> < roundsLeft n \<sigma>"
    using roundsLeft_less [of n \<sigma> ?\<sigma>] rank_digits [OF wf base I'] e(1) by simp
  then show ?thesis using that un I' by blast
qed

section \<open>The whole search\<close>

text \<open>What one round may do: go on with the invariant and fewer rounds left, or give the right verdict.\<close>

definition roundOk ::
    "('s, 'i, 'o) Model \<Rightarrow> nat \<Rightarrow> ('i, 'o) hentry list \<Rightarrow> ('i, 'o) hnodes \<Rightarrow> ('s, 'i, 'o) search \<Rightarrow> ('s, 'i, 'o) progress \<Rightarrow> bool" where
  "roundOk m n E h0 \<sigma> r \<longleftrightarrow>
     (case r of
        Continue \<sigma>' \<Rightarrow> (\<exists>S' V'. searchInv m n E h0 S' V' \<sigma>') \<and> roundsLeft n \<sigma>' < roundsLeft n \<sigma>
      | Verdict ok lg \<Rightarrow> length lg = n \<and> (if ok then \<exists>xs. linearization m n E {} (md_Init m) xs \<and> (\<forall>l\<in>set lg. l = Some xs)
          else \<not> linearizable m n E)
      | Panicked \<Rightarrow> False)"

lemma head_next:
  assumes "wfEntries n E" "chain h0 (0 # rest E {})" "nodeData E h0" "searchInv m n E h0 S V \<sigma>"
  shows "nd_next (sr_nodes \<sigma>) 0 = (case rest E S of [] \<Rightarrow> None | y # _ \<Rightarrow> Some y)"
  using chain_next [of "sr_nodes \<sigma>" "[]" 0] path_facts [OF conjunct1 [OF assms(4) [unfolded searchInv_def]] assms(1-3)] by simp

lemma round_done:
  assumes wf: "wfEntries n E" and base: "chain h0 (0 # rest E {})" "nodeData E h0"
    and I: "searchInv m n E h0 S V \<sigma>" and e: "sr_entry \<sigma> = None"
  shows "roundOk m n E h0 \<sigma> (searchStep m computePartial killed \<sigma>)"
proof -
  note I' = I [unfolded searchInv_def]
  note f = path_facts [OF conjunct1 [OF I'] wf base]
  have r: "rest E S = []" using I' e by (simp add: entryOk_def)
  then have "linearization m n E S (sr_state \<sigma>) []"
    using rest_Nil_iff [OF wf] by (auto simp: linearization_def)
  from path_linearization [OF conjunct1 [OF I'] wf this]
  have "linearization m n E {} (md_Init m) (map (\<lambda>(e, _). idOf E e) (sr_calls \<sigma>))" by simp
  moreover have "callIds (sr_nodes \<sigma>) (sr_calls \<sigma>) = map (\<lambda>(e, _). idOf E e) (sr_calls \<sigma>)"
    using f by (auto simp: callIds_def nodeData_def)
  ultimately show ?thesis using head_next [OF wf base I] r I' by (auto simp: searchStep_def roundOk_def)
qed

lemma round_call:
  assumes wf: "wfEntries n E" and base: "chain h0 (0 # rest E {})" "nodeData E h0"
    and eq: "\<forall>s t. md_Equal m s t \<longrightarrow> s = t" and I: "searchInv m n E h0 S V \<sigma>"
    and e: "sr_entry \<sigma> = Some e" and call: "isCall E e"
  shows "roundOk m n E h0 \<sigma> (searchStep m computePartial False \<sigma>)"
proof -
  note I' = I [unfolded searchInv_def]
  note f = path_facts [OF conjunct1 [OF I'] wf base]
  obtain as bs where r: "rest E S = as @ e # bs" "0 < e" "e \<le> length E" "idOf E e < n" "idOf E e \<notin> S"
    using searchInv_entry [OF wf base I e] by metis
  have nh: "nd_next (sr_nodes \<sigma>) 0 \<noteq> None" using head_next [OF wf base I] r(1) by (auto split: list.splits)
  have mt: "nd_match (sr_nodes \<sigma>) e = Some (retPos E (idOf E e))" and ids: "nat (nd_id (sr_nodes \<sigma>) e) = idOf E e"
    using f r(2,3) call by (auto simp: nodeData_def)
  obtain ok st' where st: "stepId m E (sr_state \<sigma>) (idOf E e) = (ok, st')" by fastforce
  have sn: "stepNodes m (sr_nodes \<sigma>) (sr_state \<sigma>) e (retPos E (idOf E e)) = Some (ok, st')"
    using stepNodes_ok [OF wf _ r(2,3) call] f st by metis
  obtain b where b: "bs_set (idOf E e) (sr_linearized \<sigma>) = Inr b" "length b = length (newBitset n)"
    "bitsOf b = insert (idOf E e) S"
    using bs_set_ok [of "idOf E e" "sr_linearized \<sigma>"] length_newBitset [OF r(4)] I' by metis
  show ?thesis
  proof (cases "ok \<and> \<not> cacheContains m (sr_cache \<sigma>) b st'")
    case True
    obtain h' where h': "lift e (sr_nodes \<sigma>) = Some h'" using lift_rest [OF wf _ _ r(1) call] f by metis
    show ?thesis using searchInv_push [OF wf base I e call _ b(3,2) h', of st'] st True sn b(1) h' nh e mt ids
      by (auto simp: searchStep_def roundOk_def Let_def)
  next
    case False
    have "card (bitsOf b) = Suc (length (sr_calls \<sigma>))"
      using b(3) f r(5) finite_subset [of S "{..<n}"] by simp
    then have "tried m E S (sr_state \<sigma>) e"
      using False st call b(3) cached_dead [OF _ _ eq, of "sr_cache \<sigma>" b st' n E V] I' f
      by (auto simp: tried_def)
    from searchInv_skip [OF wf base I e this] show ?thesis
      using False sn b(1) nh e mt ids by (auto simp: searchStep_def roundOk_def Let_def)
  qed
qed

lemma round_return:
  assumes wf: "wfEntries n E" and base: "chain h0 (0 # rest E {})" "nodeData E h0"
    and I: "searchInv m n E h0 S V \<sigma>" and e: "sr_entry \<sigma> = Some e" and ret: "\<not> isCall E e"
  shows "roundOk m n E h0 \<sigma> (searchStep m computePartial False \<sigma>)"
proof -
  note I' = I [unfolded searchInv_def]
  note f = path_facts [OF conjunct1 [OF I'] wf base]
  obtain as bs where r: "rest E S = as @ e # bs" "\<forall>q\<in>set as. tried m E S (sr_state \<sigma>) q" "0 < e" "e \<le> length E"
    using searchInv_entry [OF wf base I e] by metis
  have nh: "nd_next (sr_nodes \<sigma>) 0 \<noteq> None" using head_next [OF wf base I] r(1) by (auto split: list.splits)
  have mt: "nd_match (sr_nodes \<sigma>) e = None" using f r(3,4) ret by (auto simp: nodeData_def)
  show ?thesis
  proof (cases "sr_calls \<sigma>" rule: rev_cases)
    case Nil
    then have "S = {}" "sr_state \<sigma> = md_Init m" using I' by (auto elim: path_nilE)
    then have "\<not> linearizable m n E"
      using tried_all [OF r(1,2) ret] linz_iff [OF wf, of m "{}" "md_Init m"] by (simp add: linearizable_def)
    then show ?thesis using Nil nh e mt I' by (auto simp: searchStep_def roundOk_def Let_def)
  next
    case (snoc cs c)
    obtain t s where c: "c = (t, s)" by fastforce
    have t: "0 < t" "t \<le> length E" using f snoc c by auto
    note tx = posOf_unique(2) [OF wf t]
    have ids: "nat (nd_id (sr_nodes \<sigma>) t) = idOf E t" using f t by (auto simp: nodeData_def)
    let ?lg = "if computePartial then updateLongest (sr_nodes \<sigma>) (sr_calls \<sigma>) (sr_longest \<sigma>) else sr_longest \<sigma>"
    have lg: "length ?lg = n" using I' by simp
    obtain b where b: "bs_clear (idOf E t) (sr_linearized \<sigma>) = Inr b" "length b = length (newBitset n)"
      "bitsOf b = S - {idOf E t}"
      using bs_clear_ok [of "idOf E t" "sr_linearized \<sigma>"] length_newBitset [OF tx] I' by metis
    show ?thesis
    proof (rule searchInv_pop [OF wf base I e ret snoc [unfolded c] lg b(3,2)])
      fix h S0 V0
      let ?\<sigma> = "\<sigma>\<lparr>sr_longest := ?lg, sr_state := s, sr_linearized := b, sr_calls := cs, sr_nodes := h, sr_entry := nd_next h t\<rparr>"
      assume un: "unlift t (sr_nodes \<sigma>) = Some h" and I0: "searchInv m n E h0 S0 V0 ?\<sigma>"
        and less: "roundsLeft n ?\<sigma> < roundsLeft n \<sigma>"
      have step: "searchStep m computePartial False \<sigma> = Continue ?\<sigma>"
        using nh e mt ids b(1) snoc c un by (simp add: searchStep_def Let_def)
      show ?thesis unfolding step roundOk_def progress.case using I0 less by blast
    qed
  qed
qed

lemma round_ok:
  assumes "wfEntries n E" "chain h0 (0 # rest E {})" "nodeData E h0"
    "\<forall>s t. md_Equal m s t \<longrightarrow> s = t" "searchInv m n E h0 S V \<sigma>"
  shows "roundOk m n E h0 \<sigma> (searchStep m computePartial False \<sigma>)"
proof (cases "sr_entry \<sigma>")
  case None
  then show ?thesis using round_done [OF assms(1-3,5)] by blast
next
  case (Some e)
  then show ?thesis using round_call [OF assms Some] round_return [OF assms(1-3,5) Some] by (cases "isCall E e") auto
qed

lemma loop_ok:
  assumes wf: "wfEntries n E" and base: "chain h0 (0 # rest E {})" "nodeData E h0"
    and eq: "\<forall>s t. md_Equal m s t \<longrightarrow> s = t"
  shows "searchInv m n E h0 S V \<sigma> \<Longrightarrow> roundsLeft n \<sigma> \<le> fuel \<Longrightarrow>
    \<exists>lg. length lg = n \<and> searchLoop fuel m computePartial (\<lambda>_. False) \<sigma> = Some (Inr (linearizable m n E, lg)) \<and>
      (linearizable m n E \<longrightarrow> (\<exists>xs. linearization m n E {} (md_Init m) xs \<and> (\<forall>l\<in>set lg. l = Some xs)))"
proof (induction fuel arbitrary: S V \<sigma>)
  case 0
  then show ?case using rank_digits [OF wf base 0(1)] by (simp add: roundsLeft_def)
next
  case (Suc fuel)
  note R = round_ok [OF wf base eq Suc.prems(1), of computePartial, unfolded roundOk_def]
  show ?case
  proof (cases "searchStep m computePartial False \<sigma>")
    case (Continue \<sigma>')
    then obtain S' V' where "searchInv m n E h0 S' V' \<sigma>'" "roundsLeft n \<sigma>' < roundsLeft n \<sigma>" using R by auto
    then show ?thesis using Suc.IH [of S' V' \<sigma>'] Suc.prems(2) Continue by simp
  next
    case (Verdict ok lg)
    then show ?thesis using R by (cases ok) (auto simp: linearizable_def)
  qed (use R in simp)
qed

text \<open>A bound on the rounds of the loop that is always enough\<close>

definition searchBound :: "nat \<Rightarrow> nat" where
  "searchBound n = (2 * n + 1) ^ n + 1"

lemma searchBound_mono:
  assumes "a \<le> b"
  shows "searchBound a \<le> searchBound b"
proof -
  have "(2 * a + 1) ^ a \<le> (2 * b + 1) ^ a" using assms by (intro power_mono) simp_all
  also have "\<dots> \<le> (2 * b + 1) ^ b" using assms by (intro power_increasing) simp_all
  finally show ?thesis by (simp add: searchBound_def)
qed

lemma checkSingle_verdict:
  assumes "wfEntries n E" "\<forall>s t. md_Equal m s t \<longrightarrow> s = t" "searchBound n \<le> fuel"
  shows "\<exists>lg. length lg = n \<and>
    checkSingle fuel m E computePartial (\<lambda>_. False) = Some (Inr (linearizable m n E, lg)) \<and>
    (linearizable m n E \<longrightarrow> (\<exists>xs. linearization m n E {} (md_Init m) xs \<and> (\<forall>l\<in>set lg. l = Some xs)))"
proof -
  obtain root h where mk: "makeLinkedEntries E = (root, h)" by fastforce
  let ?h0 = "insertBefore 0 root (newNode 0 None None (-1) h)"
  have L: "length E = 2 * n" using assms(1) by (simp add: wfEntries_def)
  have st: "startSearch m E = \<lparr>sr_nodes = ?h0, sr_entry = root, sr_linearized = newBitset n,
      sr_cache = (\<lambda>_. []), sr_calls = [], sr_state = md_Init m, sr_longest = replicate n None\<rparr>"
    using listLength_linked [OF mk] mk L by (simp add: startSearch_def)
  note base = start_nodes [OF assms(1) mk]
  have "root = (case rest E {} of [] \<Rightarrow> None | y # _ \<Rightarrow> Some y)"
    using makeLinkedEntries_spec(1) [OF mk] by (cases E) (auto simp: rest_def upt_conv_Cons simp del: upt_Suc)
  then have I: "searchInv m n E ?h0 {} {} (startSearch m E)"
    using entryOk_first [of m E "{}" "md_Init m"] by (simp add: st searchInv_def cacheOk_def path_nil)
  have "roundsLeft n (startSearch m E) \<le> fuel" using assms(3) by (auto simp: roundsLeft_def searchBound_def)
  from loop_ok [OF assms(1) base assms(2) I this] show ?thesis by (simp add: checkSingle_def)
qed

text \<open>
  C17. On a well-formed history of \<^verbatim>\<open>n\<close> operations, with an \<^verbatim>\<open>Equal\<close> that only identifies equal states and a kill
  flag that stays 0, \<^verbatim>\<open>checkSingle\<close> never panics and ends within the bound, with the answer whether the
  history is linearizable. When it is, every slot of \<^verbatim>\<open>longest\<close> holds a linearization of the whole history.
\<close>

theorem checkSingle_correct:
  assumes "wfEntries n E" "\<forall>s t. md_Equal m s t \<longrightarrow> s = t" "searchBound n \<le> fuel"
  shows "\<exists>lg. length lg = n \<and>
    checkSingle fuel m E computePartial (\<lambda>_. False) = Some (Inr (linearizable m n E, lg)) \<and>
    (linearizable m n E \<longrightarrow> (\<exists>xs. linearization m n E {} (md_Init m) xs \<and> (\<forall>l\<in>set lg. l = Some xs)))"
  by (rule checkSingle_verdict [OF assms])

text \<open>A register and a history in which a read overlaps the write that it sees, and comes first in the list.\<close>

definition exRegister :: "(nat, nat option, nat) Model" where
  "exRegister = \<lparr>md_Init = 0,
     md_Step = (\<lambda>s inp out. case inp of None \<Rightarrow> (out = s, s) | Some v \<Rightarrow> (True, v)), md_Equal = (=)\<rparr>"

definition exEntries :: "(nat option, nat) hentry list" where
  "exEntries =
     [\<lparr>en_kind = callEntry, en_value = Inl None, en_id = 0, en_time = 1, en_clientId = 0\<rparr>,
      \<lparr>en_kind = callEntry, en_value = Inl (Some 7), en_id = 1, en_time = 2, en_clientId = 1\<rparr>,
      \<lparr>en_kind = returnEntry, en_value = Inr 7, en_id = 0, en_time = 3, en_clientId = 0\<rparr>,
      \<lparr>en_kind = returnEntry, en_value = Inr 0, en_id = 1, en_time = 4, en_clientId = 1\<rparr>]"

lemma exEntries_run:
  "checkSingle (searchBound 2) exRegister exEntries False (\<lambda>_. False) = Some (Inr (True, [Some [1, 0], Some [1, 0]]))"
  by code_simp

theorem checkSingle_correct_witness:
  "linearizable exRegister 2 exEntries \<and> linearization exRegister 2 exEntries {} 0 [1, 0]"
proof -
  have "wfEntries 2 exEntries" by (simp add: wfEntries_def exEntries_def upt_rec)
  moreover have "\<forall>s t. md_Equal exRegister s t \<longrightarrow> s = t" by (simp add: exRegister_def)
  ultimately show ?thesis
    using checkSingle_correct [of 2 exEntries exRegister "searchBound 2" False] exEntries_run by (auto simp: exRegister_def)
qed

end
