(* ===== verification/Porcupine_Entries.thy ===== *)
theory Porcupine_Entries
  imports Porcupine_Linz Models_Kv "HOL-Library.Multiset"
begin

text \<open>
  The two ways in which \<^verbatim>\<open>porcupine/checker.go\<close> makes the entries that the search works on: from operations
  with their times (\<^verbatim>\<open>makeEntries\<close>), and from a list of events (\<^verbatim>\<open>renumber\<close> and \<^verbatim>\<open>convertEntries\<close>). Both give
  well-formed entries, and linearizability of the entries is linearizability of the operations.
\<close>

section \<open>Entries from operations\<close>

definition entryLess :: "'v entry \<Rightarrow> 'v entry \<Rightarrow> bool" where
  "entryLess a b =
     (if en_time a \<noteq> en_time b then en_time a < en_time b
      else en_kind a = callEntry \<and> en_kind b = returnEntry)"

definition callOf :: "('i, 'o) Operation \<Rightarrow> nat \<Rightarrow> ('i, 'o) hentry" where
  "callOf elem i = \<lparr>en_kind = callEntry, en_value = Inl (o_Input elem), en_id = i, en_time = o_Call elem, en_clientId = o_ClientId elem\<rparr>"

definition returnOf :: "('i, 'o) Operation \<Rightarrow> nat \<Rightarrow> ('i, 'o) hentry" where
  "returnOf elem i = \<lparr>en_kind = returnEntry, en_value = Inr (o_Output elem), en_id = i, en_time = o_Return elem, en_clientId = o_ClientId elem\<rparr>"

fun opEntries :: "nat \<Rightarrow> ('i, 'o) Operation list \<Rightarrow> ('i, 'o) hentry list" where
  "opEntries i [] = []"
| "opEntries i (elem # history) = callOf elem i # returnOf elem i # opEntries (Suc i) history"

text \<open>\<^verbatim>\<open>sort.Sort\<close> is an argument: it need not be stable.\<close>

definition makeEntries ::
    "(('i, 'o) hentry list \<Rightarrow> ('i, 'o) hentry list) \<Rightarrow> ('i, 'o) Operation list \<Rightarrow> ('i, 'o) hentry list" where
  "makeEntries sortByTime history = sortByTime (opEntries 0 history)"

lemma opEntries_fields [simp]:
  "en_kind (callOf v i) = callEntry" "en_id (callOf v i) = i" "en_time (callOf v i) = o_Call v" "en_value (callOf v i) = Inl (o_Input v)"
  "en_kind (returnOf v i) = returnEntry" "en_id (returnOf v i) = i" "en_time (returnOf v i) = o_Return v" "en_value (returnOf v i) = Inr (o_Output v)"
  by (simp_all add: callOf_def returnOf_def)

lemma length_opEntries [simp]: "length (opEntries i h) = 2 * length h"
  by (induction h arbitrary: i) simp_all

lemma opEntries_ids: "e \<in> set (opEntries i h) \<Longrightarrow> i \<le> en_id e \<and> en_id e < i + length h"
  by (induction h arbitrary: i) fastforce+

lemma distinct_opEntries: "distinct (map (\<lambda>e. (en_kind e, en_id e)) (opEntries i h))"
proof (induction h arbitrary: i)
  case (Cons v h)
  have "(k, i) \<notin> (\<lambda>e. (en_kind e, en_id e)) ` set (opEntries (Suc i) h)" for k
    using opEntries_ids [of _ "Suc i" h] by fastforce
  then show ?case using Cons by simp
qed simp

lemma opEntries_mem: "e \<in> set (opEntries i h) \<Longrightarrow> e = callOf (h ! (en_id e - i)) (en_id e) \<or> e = returnOf (h ! (en_id e - i)) (en_id e)"
proof (induction h arbitrary: i)
  case (Cons v h)
  show ?case
  proof (cases "e \<in> set (opEntries (Suc i) h)")
    case True
    then have "en_id e - i = Suc (en_id e - Suc i)" using opEntries_ids by fastforce
    then show ?thesis using Cons.IH [OF True] by simp
  qed (use Cons.prems in auto)
qed simp

lemma opEntries_cases: "e \<in> set (opEntries 0 h) \<Longrightarrow> e = (if en_kind e = callEntry then callOf (h ! en_id e) (en_id e) else returnOf (h ! en_id e) (en_id e))"
  using opEntries_mem [of e 0 h] by auto (metis entryKind.distinct(1) opEntries_fields)+

section \<open>What sorting by time gives\<close>

definition timely :: "('i, 'o) Operation list \<Rightarrow> bool" where
  "timely history = list_all (\<lambda>v. o_Call v \<le> o_Return v) history"

lemma entryLess_call_return: "o_Call v \<le> o_Return v \<Longrightarrow> entryLess (callOf v i) (returnOf v i)"
  by (simp add: entryLess_def)

locale time_sort =
  fixes srt :: "('i, 'o) hentry list \<Rightarrow> ('i, 'o) hentry list"
  assumes mset_srt: "mset (srt es) = mset es"
    and sorted_srt: "sorted_wrt (\<lambda>a b. \<not> entryLess b a) (srt es)"
begin

lemma in_entries: "e \<in> set (makeEntries srt h) \<longleftrightarrow> e \<in> set (opEntries 0 h)"
  by (metis makeEntries_def mset_srt set_mset_mset)

lemma nth_entries:
  assumes "p < length (makeEntries srt h)"
  defines "e \<equiv> makeEntries srt h ! p"
  shows "e = (if en_kind e = callEntry then callOf (h ! en_id e) (en_id e) else returnOf (h ! en_id e) (en_id e))"
  using opEntries_cases [of e h] in_entries [of e h] assms by simp

lemma wf_makeEntries:
  assumes "timely h"
  shows "wfEntries (length h) (makeEntries srt h)"
proof -
  let ?E = "makeEntries srt h"
  have ms: "mset ?E = mset (opEntries 0 h)" by (simp add: makeEntries_def mset_srt)
  then have "mset (map (\<lambda>e. (en_kind e, en_id e)) ?E) = mset (map (\<lambda>e. (en_kind e, en_id e)) (opEntries 0 h))" by simp
  then have d: "distinct (map (\<lambda>e. (en_kind e, en_id e)) ?E)" using distinct_opEntries mset_eq_imp_distinct_iff by blast
  have len: "length ?E = 2 * length h" using mset_eq_length [OF ms] by simp
  have val: "en_id e < length h \<and> isl (en_value e) = (en_kind e = callEntry)" if "e \<in> set ?E" for e
    using that opEntries_ids [of e 0 h] opEntries_mem [of e 0 h] in_entries [of e h]
    by auto (metis entryKind.distinct(1) opEntries_fields sum.disc)+
  have ord: "en_id (?E ! i) \<noteq> en_id (?E ! j)"
    if ij: "i < j" "j < length ?E" "en_kind (?E ! i) = returnEntry" "en_kind (?E ! j) = callEntry" for i j
  proof
    assume eq: "en_id (?E ! i) = en_id (?E ! j)"
    have "?E ! i = returnOf (h ! en_id (?E ! j)) (en_id (?E ! j))" "?E ! j = callOf (h ! en_id (?E ! j)) (en_id (?E ! j))"
      using nth_entries [of i h] nth_entries [of j h] ij eq by simp_all
    moreover have "\<not> entryLess (?E ! j) (?E ! i)"
      using sorted_srt [of "opEntries 0 h"] ij(1,2) by (simp add: sorted_wrt_iff_nth_less makeEntries_def)
    moreover have "o_Call (h ! en_id (?E ! j)) \<le> o_Return (h ! en_id (?E ! j))"
      using assms val [of "?E ! j"] ij(2) by (simp add: timely_def list_all_length)
    ultimately show False using entryLess_call_return by metis
  qed
  show ?thesis using d len val ord by (auto simp: wfEntries_def list_all_iff)
qed

lemma entries_at:
  assumes "timely h" "x < length h"
  shows "makeEntries srt h ! (callPos (makeEntries srt h) x - 1) = callOf (h ! x) x"
    "makeEntries srt h ! (retPos (makeEntries srt h) x - 1) = returnOf (h ! x) x"
proof -
  let ?E = "makeEntries srt h"
  note c = posOf_ok [OF wf_makeEntries [OF assms(1)] assms(2), of callEntry]
    and r = posOf_ok [OF wf_makeEntries [OF assms(1)] assms(2), of returnEntry]
  have "callPos ?E x - 1 < length ?E" "retPos ?E x - 1 < length ?E" using c r by linarith+
  then show "?E ! (callPos ?E x - 1) = callOf (h ! x) x" "?E ! (retPos ?E x - 1) = returnOf (h ! x) x"
    using nth_entries [of "callPos ?E x - 1" h] nth_entries [of "retPos ?E x - 1" h] c(3,4) r(3,4) by (simp_all add: idOf_def)
qed

text \<open>Before in the list is before in time.\<close>

lemma precedes_time:
  assumes "timely h" "x < length h" "y < length h"
  shows "precedes (makeEntries srt h) y x \<longleftrightarrow> o_Return (h ! y) < o_Call (h ! x)"
proof -
  let ?E = "makeEntries srt h"
  note c = posOf_ok [OF wf_makeEntries [OF assms(1)] assms(2), of callEntry] entries_at(1) [OF assms(1,2)]
    and r = posOf_ok [OF wf_makeEntries [OF assms(1)] assms(3), of returnEntry] entries_at(2) [OF assms(1,3)]
  have s: "\<not> entryLess (?E ! q) (?E ! p)" if "p < q" "q < length ?E" for p q
    using sorted_srt [of "opEntries 0 h"] that by (simp add: sorted_wrt_iff_nth_less makeEntries_def)
  have "callPos ?E x \<noteq> retPos ?E y" using c(3) r(3) by auto
  then consider "retPos ?E y - 1 < callPos ?E x - 1" | "callPos ?E x - 1 < retPos ?E y - 1" using c(1) r(1) by linarith
  then show ?thesis
  proof cases
    case 1
    then have "\<not> entryLess (callOf (h ! x) x) (returnOf (h ! y) y)" using s [OF 1] c r by simp
    then show ?thesis using 1 by (auto simp: entryLess_def precedes_def split: if_splits)
  next
    case 2
    then have "\<not> entryLess (returnOf (h ! y) y) (callOf (h ! x) x)" using s [OF 2] c r by simp
    then show ?thesis using 2 by (auto simp: entryLess_def precedes_def split: if_splits)
  qed
qed

lemma stepId_entries:
  assumes "timely h" "x < length h"
  shows "stepId m (makeEntries srt h) st x = md_Step m st (o_Input (h ! x)) (o_Output (h ! x))"
  unfolding stepId_def entries_at [OF assms] by simp

end

interpretation by_time: time_sort "sort_key (\<lambda>e. 2 * en_time e + (if en_kind e = callEntry then 0 else 1))"
proof unfold_locales
  fix es :: "('i, 'o) hentry list"
  let ?k = "\<lambda>e :: ('i, 'o) hentry. 2 * en_time e + (if en_kind e = callEntry then 0 else 1)"
  have "entryLess b a \<Longrightarrow> ?k b < ?k a" for a b by (auto simp: entryLess_def split: if_splits)
  moreover have "sorted_wrt (\<lambda>a b. ?k a \<le> ?k b) (sort_key ?k es)"
    using sorted_sort_key [of ?k es] by (simp add: sorted_wrt_map)
  ultimately show "sorted_wrt (\<lambda>a b. \<not> entryLess b a) (sort_key ?k es)"
    by (elim sorted_wrt_mono_rel [rotated]) fastforce
qed simp

section \<open>Linearizability of operations\<close>

fun legalOps :: "('s, 'i, 'o) Model \<Rightarrow> 's \<Rightarrow> ('i, 'o) Operation list \<Rightarrow> bool" where
  "legalOps m st [] \<longleftrightarrow> True"
| "legalOps m st (v # vs) \<longleftrightarrow> (case md_Step m st (o_Input v) (o_Output v) of (ok, st') \<Rightarrow> ok \<and> legalOps m st' vs)"

text \<open>No operation comes after one that was called only when it had already returned.\<close>

definition realTime :: "('i, 'o) Operation list \<Rightarrow> bool" where
  "realTime = sorted_wrt (\<lambda>a b. \<not> o_Return b < o_Call a)"

definition opsLinearizable :: "('s, 'i, 'o) Model \<Rightarrow> ('i, 'o) Operation list \<Rightarrow> bool" where
  "opsLinearizable m history \<longleftrightarrow> (\<exists>ops. mset ops = mset history \<and> legalOps m (md_Init m) ops \<and> realTime ops)"

lemma mset_eq_indices:
  assumes "mset ops = mset h"
  obtains xs where "distinct xs" "set xs = {..<length h}" "ops = map ((!) h) xs"
proof -
  obtain xs where xs: "length xs = length ops" "mset (zip ops xs) = mset (zip h [0..<length h])"
    using ex_mset_zip_left [of h "[0..<length h]" ops] assms by auto
  have "mset (map snd (zip ops xs)) = mset (map snd (zip h [0..<length h]))" by (simp only: mset_map xs(2))
  then have "mset xs = mset [0..<length h]" using xs(1) by (simp only: map_snd_zip length_upt minus_nat.diff_0)
  then have "distinct xs" "set xs = {..<length h}"
    using mset_eq_imp_distinct_iff [of xs "[0..<length h]"] mset_eq_setD [of xs "[0..<length h]"]
    by (simp_all only: distinct_upt atLeast_upt simp_thms)
  moreover have "ops = map ((!) h) xs"
  proof (rule nth_equalityI)
    fix i assume i: "i < length ops"
    then have "(ops ! i, xs ! i) \<in> set (zip ops xs)" using xs(1) by (auto simp: set_zip)
    then have "(ops ! i, xs ! i) \<in> set (zip h [0..<length h])" using mset_eq_setD [OF xs(2)] by blast
    then show "ops ! i = map ((!) h) xs ! i" using i xs(1) by (auto simp: set_zip)
  qed (use xs in simp)
  ultimately show ?thesis using that by blast
qed

context time_sort
begin

lemma legal_entries:
  assumes "timely h" "set xs \<subseteq> {..<length h}"
  shows "legal m (makeEntries srt h) st xs \<longleftrightarrow> legalOps m st (map ((!) h) xs)"
  using assms(2)
proof (induction xs arbitrary: st)
  case (Cons x xs)
  then show ?case using stepId_entries [OF assms(1), of x m st]
    by (cases "md_Step m st (o_Input (h ! x)) (o_Output (h ! x))") simp
qed simp

lemma realTime_entries:
  assumes "timely h" "set xs \<subseteq> {..<length h}"
  shows "sorted_wrt (\<lambda>x y. \<not> precedes (makeEntries srt h) y x) xs \<longleftrightarrow> realTime (map ((!) h) xs)"
  unfolding realTime_def sorted_wrt_map
  using assms precedes_time [OF assms(1)] by (intro iffI; elim sorted_wrt_mono_rel [rotated]) auto

lemma linearizable_entries:
  assumes "timely h"
  shows "linearizable m (length h) (makeEntries srt h) \<longleftrightarrow> opsLinearizable m h"
proof
  assume "linearizable m (length h) (makeEntries srt h)"
  then obtain xs where xs: "distinct xs" "set xs = {..<length h}" "legal m (makeEntries srt h) (md_Init m) xs"
    "sorted_wrt (\<lambda>x y. \<not> precedes (makeEntries srt h) y x) xs"
    by (auto simp: linearizable_def linearization_def)
  have "mset xs = mset [0..<length h]"
    using set_eq_iff_mset_eq_distinct [OF xs(1) distinct_upt, of 0 "length h"] xs(2) by (simp only: atLeast_upt simp_thms)
  then have "mset (map ((!) h) xs) = mset (map ((!) h) [0..<length h])" by (simp only: mset_map)
  then have "mset (map ((!) h) xs) = mset h" by (simp add: map_nth)
  then show "opsLinearizable m h"
    using xs legal_entries [OF assms, where xs = xs and m = m and st = "md_Init m"] realTime_entries [OF assms, of xs]
    unfolding opsLinearizable_def by (intro exI [of _ "map ((!) h) xs"]) simp
next
  assume "opsLinearizable m h"
  then obtain ops where ops: "mset ops = mset h" "legalOps m (md_Init m) ops" "realTime ops" by (auto simp: opsLinearizable_def)
  obtain xs where "distinct xs" "set xs = {..<length h}" "ops = map ((!) h) xs" using mset_eq_indices [OF ops(1)] .
  then show "linearizable m (length h) (makeEntries srt h)"
    using ops legal_entries [OF assms, where xs = xs and m = m and st = "md_Init m"] realTime_entries [OF assms, of xs]
    by (auto simp: linearizable_def linearization_def)
qed

end

section \<open>Entries from events\<close>

datatype EventKind = CallEvent | ReturnEvent

record ('i, 'o) Event =
  ev_ClientId :: int
  ev_Kind :: EventKind
  ev_Value :: "'i + 'o"
  ev_Id :: int

fun renumberFrom :: "(int \<rightharpoonup> int) \<Rightarrow> int \<Rightarrow> ('i, 'o) Event list \<Rightarrow> ('i, 'o) Event list" where
  "renumberFrom m i [] = []"
| "renumberFrom m i (v # events) =
     (case m (ev_Id v) of
        Some r \<Rightarrow> \<lparr>ev_ClientId = ev_ClientId v, ev_Kind = ev_Kind v, ev_Value = ev_Value v, ev_Id = r\<rparr> # renumberFrom m i events
      | None \<Rightarrow> \<lparr>ev_ClientId = ev_ClientId v, ev_Kind = ev_Kind v, ev_Value = ev_Value v, ev_Id = i\<rparr> #
          renumberFrom (m(ev_Id v \<mapsto> i)) (i + 1) events)"

definition renumber :: "('i, 'o) Event list \<Rightarrow> ('i, 'o) Event list" where
  "renumber events = renumberFrom Map.empty 0 events"

text \<open>The number of an event is not negative after \<^verbatim>\<open>renumber\<close>, so it is read as a natural number.\<close>

definition convertEvent :: "nat \<Rightarrow> ('i, 'o) Event \<Rightarrow> ('i, 'o) hentry" where
  "convertEvent i elem =
     \<lparr>en_kind = (if ev_Kind elem = ReturnEvent then returnEntry else callEntry), en_value = ev_Value elem,
      en_id = nat (ev_Id elem), en_time = int i, en_clientId = ev_ClientId elem\<rparr>"

definition convertEntries :: "('i, 'o) Event list \<Rightarrow> ('i, 'o) hentry list" where
  "convertEntries events = map (\<lambda>(i, elem). convertEvent i elem) (enumerate 0 events)"

text \<open>Every operation has one call event with an input and, after it, one return event with an output.\<close>

definition wfEvents :: "('i, 'o) Event list \<Rightarrow> bool" where
  "wfEvents events \<longleftrightarrow>
     distinct (map (\<lambda>e. (ev_Kind e, ev_Id e)) events) \<and>
     ev_Id ` {e \<in> set events. ev_Kind e = CallEvent} = ev_Id ` {e \<in> set events. ev_Kind e = ReturnEvent} \<and>
     list_all (\<lambda>e. isl (ev_Value e) = (ev_Kind e = CallEvent)) events \<and>
     list_all (\<lambda>j. list_all (\<lambda>i. ev_Kind (events ! i) = ReturnEvent \<and> ev_Kind (events ! j) = CallEvent \<longrightarrow>
        ev_Id (events ! i) \<noteq> ev_Id (events ! j)) [0..<j]) [0..<length events]"

text \<open>\<^verbatim>\<open>renumber\<close> maps the numbers one to one onto an initial segment.\<close>

lemma renumberFrom_map:
  assumes "inj_on (\<lambda>x. the (m x)) (dom m)" "(\<lambda>x. the (m x)) ` dom m = {0..<i}" "0 \<le> i"
  shows "\<exists>f. (\<forall>x\<in>dom m. f x = the (m x)) \<and> inj_on f (dom m \<union> ev_Id ` set evs) \<and>
    (\<exists>k. f ` (dom m \<union> ev_Id ` set evs) = {0..<k}) \<and> renumberFrom m i evs = map (\<lambda>e. e\<lparr>ev_Id := f (ev_Id e)\<rparr>) evs"
  using assms
proof (induction evs arbitrary: m i)
  case Nil
  then show ?case by (intro exI [of _ "\<lambda>x. the (m x)"]) auto
next
  case (Cons e evs)
  have upd: "e\<lparr>ev_Id := r\<rparr> = \<lparr>ev_ClientId = ev_ClientId e, ev_Kind = ev_Kind e, ev_Value = ev_Value e, ev_Id = r\<rparr>" for r
    by (cases e) simp
  show ?case
  proof (cases "m (ev_Id e)")
    case (Some r)
    then have "dom m \<union> ev_Id ` set (e # evs) = dom m \<union> ev_Id ` set evs" by auto
    moreover have "f (ev_Id e) = r" if "\<forall>x\<in>dom m. f x = the (m x)" for f using that Some by force
    ultimately show ?thesis using Cons.IH [OF Cons.prems] Some by (auto simp: upd)
  next
    case None
    let ?m = "m(ev_Id e \<mapsto> i)"
    have same: "the (?m x) = the (m x)" if "x \<in> dom m" for x using that None by auto
    have "(\<lambda>x. the (?m x)) ` dom m = {0..<i}" using Cons.prems(2) same by (auto simp: image_iff)
    then have im: "(\<lambda>x. the (?m x)) ` dom ?m = {0..<i + 1}" using Cons.prems(3) by auto
    have "inj_on (\<lambda>x. the (?m x)) (dom m)" using Cons.prems(1) same by (simp add: inj_on_def)
    moreover have "i \<notin> (\<lambda>x. the (?m x)) ` dom m" using \<open>(\<lambda>x. the (?m x)) ` dom m = {0..<i}\<close> by simp
    moreover have "dom ?m = insert (ev_Id e) (dom m)" "dom m - {ev_Id e} = dom m" using None by auto
    ultimately have inj: "inj_on (\<lambda>x. the (?m x)) (dom ?m)" by (simp only: inj_on_insert fun_upd_same option.sel) simp
    have "0 \<le> i + 1" using Cons.prems(3) by simp
    from Cons.IH [OF inj im this] obtain f where f: "\<forall>x\<in>dom ?m. f x = the (?m x)" "inj_on f (dom ?m \<union> ev_Id ` set evs)"
      "\<exists>k. f ` (dom ?m \<union> ev_Id ` set evs) = {0..<k}" "renumberFrom ?m (i + 1) evs = map (\<lambda>e. e\<lparr>ev_Id := f (ev_Id e)\<rparr>) evs"
      by (elim exE conjE) (rule that; (intro exI)?; assumption)
    have "dom ?m \<union> ev_Id ` set evs = dom m \<union> ev_Id ` set (e # evs)" by auto
    moreover have "f (ev_Id e) = i" "\<forall>x\<in>dom m. f x = the (m x)" using f(1) same by auto
    ultimately show ?thesis using f None by (intro exI [of _ f]) (auto simp: upd)
  qed
qed

lemma renumber_map:
  obtains f k where "inj_on f (ev_Id ` set evs)" "f ` ev_Id ` set evs = {0..<k}"
    "renumber evs = map (\<lambda>e. e\<lparr>ev_Id := f (ev_Id e)\<rparr>) evs"
  using renumberFrom_map [of Map.empty 0 evs] by (auto simp: renumber_def)

lemma convertEntries_nth [simp]:
  "length (convertEntries evs) = length evs"
  "i < length evs \<Longrightarrow> convertEntries evs ! i = convertEvent i (evs ! i)"
  by (simp_all add: convertEntries_def nth_enumerate_eq)

lemma renumber_fields:
  assumes "renumber evs = map (\<lambda>e. e\<lparr>ev_Id := f (ev_Id e)\<rparr>) evs" "i < length evs"
  shows "en_kind (convertEntries (renumber evs) ! i) = (if ev_Kind (evs ! i) = ReturnEvent then returnEntry else callEntry)"
    "en_id (convertEntries (renumber evs) ! i) = nat (f (ev_Id (evs ! i)))"
    "en_value (convertEntries (renumber evs) ! i) = ev_Value (evs ! i)"
  using assms(2) unfolding assms(1) by (simp_all add: convertEvent_def)

lemma wfEvents_half:
  assumes "wfEvents evs"
  shows "length evs = 2 * card (ev_Id ` set evs)"
proof -
  let ?f = "\<lambda>e. (ev_Kind e, ev_Id e)" let ?C = "{e \<in> set evs. ev_Kind e = CallEvent}" let ?R = "{e \<in> set evs. ev_Kind e = ReturnEvent}"
  have all: "set evs = ?C \<union> ?R" by (auto intro: EventKind.exhaust)
  have eq: "ev_Id ` ?C = ev_Id ` ?R" using assms by (simp add: wfEvents_def)
  then have ids: "ev_Id ` set evs = ev_Id ` ?C" "ev_Id ` set evs = ev_Id ` ?R" by (subst all, simp add: image_Un)+
  have "?f ` set evs = {CallEvent, ReturnEvent} \<times> ev_Id ` set evs"
  proof
    show "?f ` set evs \<subseteq> {CallEvent, ReturnEvent} \<times> ev_Id ` set evs" by (auto intro: EventKind.exhaust)
    have "(CallEvent, x) \<in> ?f ` set evs" if "x \<in> ev_Id ` set evs" for x using that [unfolded ids(1)] by force
    moreover have "(ReturnEvent, x) \<in> ?f ` set evs" if "x \<in> ev_Id ` set evs" for x using that [unfolded ids(2)] by force
    ultimately show "{CallEvent, ReturnEvent} \<times> ev_Id ` set evs \<subseteq> ?f ` set evs" by auto
  qed
  moreover have "length evs = card (?f ` set evs)"
    using assms distinct_card [of "map ?f evs"] by (simp add: wfEvents_def)
  ultimately show ?thesis by (simp add: card_cartesian_product)
qed

lemma wf_convertEntries:
  assumes wf: "wfEvents evs"
  shows "wfEntries (card (ev_Id ` set evs)) (convertEntries (renumber evs))"
proof -
  obtain f k where f: "inj_on f (ev_Id ` set evs)" "f ` ev_Id ` set evs = {0..<k}"
    "renumber evs = map (\<lambda>e. e\<lparr>ev_Id := f (ev_Id e)\<rparr>) evs"
    using renumber_map [of evs] .
  note F = renumber_fields [OF f(3)]
  have len: "length (renumber evs) = length evs" unfolding f(3) by simp
  have k: "card (ev_Id ` set evs) = nat k" using card_image [OF f(1)] f(2) by simp
  have fk: "0 \<le> f (ev_Id e) \<and> f (ev_Id e) < k" if "e \<in> set evs" for e using f(2) that by (metis atLeastLessThan_iff imageI)
  have finj: "nat (f (ev_Id d)) = nat (f (ev_Id e)) \<longleftrightarrow> ev_Id d = ev_Id e" if "d \<in> set evs" "e \<in> set evs" for d e
    using fk [OF that(1)] fk [OF that(2)] inj_on_eq_iff [OF f(1), of "ev_Id d" "ev_Id e"] that by (auto simp: eq_nat_nat_iff)
  have "distinct (map (\<lambda>e. (ev_Kind e, ev_Id e)) evs)" using wf by (simp add: wfEvents_def)
  then have uniq: "i = j" if "i < length evs" "j < length evs" "ev_Kind (evs ! i) = ev_Kind (evs ! j)" "ev_Id (evs ! i) = ev_Id (evs ! j)" for i j
    using that nth_eq_iff_index_eq [of "map (\<lambda>e. (ev_Kind e, ev_Id e)) evs" i j] by simp
  have same: "(if c = ReturnEvent then returnEntry else callEntry) = (if d = ReturnEvent then returnEntry else callEntry) \<longleftrightarrow> c = d" for c d
    by (cases c; cases d) simp_all
  have dist: "distinct (map (\<lambda>e. (en_kind e, en_id e)) (convertEntries (renumber evs)))"
    unfolding distinct_conv_nth
  proof (intro allI impI)
    fix i j assume "i < length (map (\<lambda>e. (en_kind e, en_id e)) (convertEntries (renumber evs)))"
      "j < length (map (\<lambda>e. (en_kind e, en_id e)) (convertEntries (renumber evs)))" "i \<noteq> j"
    then show "map (\<lambda>e. (en_kind e, en_id e)) (convertEntries (renumber evs)) ! i \<noteq>
        map (\<lambda>e. (en_kind e, en_id e)) (convertEntries (renumber evs)) ! j"
      using uniq [of i j] by (simp add: len F same finj del: convertEntries_nth(2)) blast
  qed
  have kind: "(if c = ReturnEvent then returnEntry else callEntry) = callEntry \<longleftrightarrow> c = CallEvent" for c by (cases c) auto
  have val: "list_all (\<lambda>e. en_id e < nat k \<and> isl (en_value e) = (en_kind e = callEntry)) (convertEntries (renumber evs))"
    unfolding list_all_length
  proof (intro allI impI)
    fix i assume "i < length (convertEntries (renumber evs))"
    then have i: "i < length evs" by (simp add: len)
    have "isl (ev_Value (evs ! i)) = (ev_Kind (evs ! i) = CallEvent)" using wf i by (simp add: wfEvents_def list_all_length)
    moreover have "nat (f (ev_Id (evs ! i))) < nat k" using fk [OF nth_mem [OF i]] by linarith
    ultimately show "en_id (convertEntries (renumber evs) ! i) < nat k \<and>
        isl (en_value (convertEntries (renumber evs) ! i)) = (en_kind (convertEntries (renumber evs) ! i) = callEntry)"
      unfolding F [OF i] kind by simp
  qed
  have ne: "en_id (convertEntries (renumber evs) ! i) \<noteq> en_id (convertEntries (renumber evs) ! j)"
    if ij: "i < j" "j < length evs" "en_kind (convertEntries (renumber evs) ! i) = returnEntry"
      "en_kind (convertEntries (renumber evs) ! j) = callEntry" for i j
  proof -
    have i: "i < length evs" using ij by simp
    have "ev_Kind (evs ! i) = ReturnEvent" "ev_Kind (evs ! j) = CallEvent"
      using ij(3,4) unfolding F(1) [OF i] F(1) [OF ij(2)] kind by (simp_all split: if_splits)
    then have "ev_Id (evs ! i) \<noteq> ev_Id (evs ! j)" using wf ij by (simp add: wfEvents_def list_all_iff)
    then show ?thesis unfolding F(2) [OF i] F(2) [OF ij(2)] using finj i ij(2) by simp
  qed
  have ord: "list_all (\<lambda>j. list_all (\<lambda>i. en_kind (convertEntries (renumber evs) ! i) = returnEntry \<and>
        en_kind (convertEntries (renumber evs) ! j) = callEntry \<longrightarrow>
        en_id (convertEntries (renumber evs) ! i) \<noteq> en_id (convertEntries (renumber evs) ! j)) [0..<j])
      [0..<length (convertEntries (renumber evs))]"
    using ne by (simp add: list_all_iff len del: convertEntries_nth(2))
  show ?thesis using wfEvents_half [OF wf] dist val ord k by (simp add: wfEntries_def len)
qed

end
