(* ===== verification/Porcupine.thy ===== *)
theory Porcupine
  imports Porcupine_Search Porcupine_Entries
begin

text \<open>
  The entry points of \<^verbatim>\<open>porcupine\<close>: the defaults of a model, the collection of the results of the parallel
  searches, and the checks of operations and of events. For the key/value model of \<^verbatim>\<open>models/kv.go\<close>, which checks
  every key on its own, the verdict is about the whole history: it is the locality of linearizability.
\<close>

section \<open>Models as written, and their defaults\<close>

record ('s, 'i, 'o) ModelDef =
  df_Partition :: "(('i, 'o) Operation list \<Rightarrow> ('i, 'o) Operation list list) option"
  df_PartitionEvent :: "(('i, 'o) Event list \<Rightarrow> ('i, 'o) Event list list) option"
  df_Init :: 's
  df_Step :: "'s \<Rightarrow> 'i \<Rightarrow> 'o \<Rightarrow> bool \<times> 's"
  df_Equal :: "('s \<Rightarrow> 's \<Rightarrow> bool) option"

record ('s, 'i, 'o) FullModel = "('s, 'i, 'o) Model" +
  fm_Partition :: "('i, 'o) Operation list \<Rightarrow> ('i, 'o) Operation list list"
  fm_PartitionEvent :: "('i, 'o) Event list \<Rightarrow> ('i, 'o) Event list list"

definition NoPartition :: "('i, 'o) Operation list \<Rightarrow> ('i, 'o) Operation list list" where
  "NoPartition history = [history]"

definition NoPartitionEvent :: "('i, 'o) Event list \<Rightarrow> ('i, 'o) Event list list" where
  "NoPartitionEvent history = [history]"

definition ShallowEqual :: "'s \<Rightarrow> 's \<Rightarrow> bool" where
  "ShallowEqual state1 state2 \<longleftrightarrow> state1 = state2"

definition fillDefault :: "('s, 'i, 'o) ModelDef \<Rightarrow> ('s, 'i, 'o) FullModel" where
  "fillDefault model =
     \<lparr>md_Init = df_Init model, md_Step = df_Step model,
      md_Equal = (case df_Equal model of None \<Rightarrow> ShallowEqual | Some f \<Rightarrow> f),
      fm_Partition = (case df_Partition model of None \<Rightarrow> NoPartition | Some f \<Rightarrow> f),
      fm_PartitionEvent = (case df_PartitionEvent model of None \<Rightarrow> NoPartitionEvent | Some f \<Rightarrow> f)\<rparr>"

section \<open>Collecting the results\<close>

datatype CheckResult = Unknown | Ok | Illegal

text \<open>
  What the \<^verbatim>\<open>select\<close> of \<^verbatim>\<open>checkParallel\<close> sees, in order: the search of one partition is finished and has sent
  its result, or the timer has fired. Only a search that sent its result before the kill flag was set is
  received, so its result is that of a search that is not killed.
\<close>

datatype arrival = Finished nat | TimerFired

text \<open>The loop over the channels; \<^term>\<open>None\<close> when nothing later arrives, the program then waits forever.\<close>

fun awaitResults ::
    "(nat \<Rightarrow> (bool \<times> nat list option list) go option) \<Rightarrow> nat \<Rightarrow> bool \<Rightarrow> int \<Rightarrow> nat \<Rightarrow> bool \<Rightarrow> arrival list \<Rightarrow>
     (bool \<times> bool) go option" where
  "awaitResults search histories computeInfo timeout cnt ok [] = None"
| "awaitResults search histories computeInfo timeout cnt ok (TimerFired # later) =
     (if timeout > 0 then Some (Inr (ok, True))
      else awaitResults search histories computeInfo timeout cnt ok later)"
| "awaitResults search histories computeInfo timeout cnt ok (Finished i # later) =
     (case search i of
        None \<Rightarrow> None
      | Some (Inl p) \<Rightarrow> Some (Inl p)
      | Some (Inr (result, _)) \<Rightarrow>
         (if \<not> (ok \<and> result) \<and> \<not> computeInfo then Some (Inr (ok \<and> result, False))
          else if Suc cnt \<ge> histories then Some (Inr (ok \<and> result, False))
          else awaitResults search histories computeInfo timeout (Suc cnt) (ok \<and> result) later))"

definition verdictOf :: "bool \<Rightarrow> bool \<Rightarrow> CheckResult" where
  "verdictOf ok timedOut = (if \<not> ok then Illegal else if timedOut then Unknown else Ok)"

definition checkParallel ::
    "nat \<Rightarrow> ('s, 'i, 'o) Model \<Rightarrow> ('i, 'o) hentry list list \<Rightarrow> bool \<Rightarrow> int \<Rightarrow> arrival list \<Rightarrow> CheckResult go option" where
  "checkParallel fuel m history computeInfo timeout arrivals =
     map_option (\<lambda>r. case r of Inl p \<Rightarrow> Inl p | Inr (ok, timedOut) \<Rightarrow> Inr (verdictOf ok timedOut))
       (awaitResults (\<lambda>i. checkSingle fuel m (history ! i) computeInfo (\<lambda>_. False))
          (length history) computeInfo timeout 0 True arrivals)"

definition checkOperations ::
    "nat \<Rightarrow> (('i, 'o) hentry list \<Rightarrow> ('i, 'o) hentry list) \<Rightarrow> ('s, 'i, 'o) ModelDef \<Rightarrow> ('i, 'o) Operation list \<Rightarrow> bool \<Rightarrow> int \<Rightarrow>
     arrival list \<Rightarrow> CheckResult go option" where
  "checkOperations fuel sortByTime model history verbose timeout arrivals =
     (let model = fillDefault model
      in checkParallel fuel (Model.truncate model) (map (makeEntries sortByTime) (fm_Partition model history))
           verbose timeout arrivals)"

definition checkEvents ::
    "nat \<Rightarrow> ('s, 'i, 'o) ModelDef \<Rightarrow> ('i, 'o) Event list \<Rightarrow> bool \<Rightarrow> int \<Rightarrow> arrival list \<Rightarrow> CheckResult go option" where
  "checkEvents fuel model history verbose timeout arrivals =
     (let model = fillDefault model
      in checkParallel fuel (Model.truncate model)
           (map (\<lambda>subhistory. convertEntries (renumber subhistory)) (fm_PartitionEvent model history))
           verbose timeout arrivals)"

definition CheckOperations ::
    "nat \<Rightarrow> (('i, 'o) hentry list \<Rightarrow> ('i, 'o) hentry list) \<Rightarrow> ('s, 'i, 'o) ModelDef \<Rightarrow> ('i, 'o) Operation list \<Rightarrow>
     arrival list \<Rightarrow> bool go option" where
  "CheckOperations fuel sortByTime model history arrivals =
     map_option (\<lambda>r. case r of Inl p \<Rightarrow> Inl p | Inr res \<Rightarrow> Inr (res = Ok))
       (checkOperations fuel sortByTime model history False 0 arrivals)"

definition CheckEvents ::
    "nat \<Rightarrow> ('s, 'i, 'o) ModelDef \<Rightarrow> ('i, 'o) Event list \<Rightarrow> arrival list \<Rightarrow> bool go option" where
  "CheckEvents fuel model history arrivals =
     map_option (\<lambda>r. case r of Inl p \<Rightarrow> Inl p | Inr res \<Rightarrow> Inr (res = Ok))
       (checkEvents fuel model history False 0 arrivals)"

definition CheckOperationsTimeout ::
    "nat \<Rightarrow> (('i, 'o) hentry list \<Rightarrow> ('i, 'o) hentry list) \<Rightarrow> ('s, 'i, 'o) ModelDef \<Rightarrow> ('i, 'o) Operation list \<Rightarrow> int \<Rightarrow>
     arrival list \<Rightarrow> CheckResult go option" where
  "CheckOperationsTimeout fuel sortByTime model history timeout arrivals =
     checkOperations fuel sortByTime model history False timeout arrivals"

definition CheckEventsTimeout ::
    "nat \<Rightarrow> ('s, 'i, 'o) ModelDef \<Rightarrow> ('i, 'o) Event list \<Rightarrow> int \<Rightarrow> arrival list \<Rightarrow> CheckResult go option" where
  "CheckEventsTimeout fuel model history timeout arrivals = checkEvents fuel model history False timeout arrivals"

section \<open>The verdict of the parallel searches\<close>

text \<open>Every partition's search answers once, in some order; the timer may fire in between.\<close>

fun finishedIds :: "arrival list \<Rightarrow> nat list" where
  "finishedIds [] = []"
| "finishedIds (Finished i # later) = i # finishedIds later"
| "finishedIds (TimerFired # later) = finishedIds later"

lemma awaitResults_sound:
  assumes "\<And>i. i < N \<Longrightarrow> \<exists>lg. search i = Some (Inr (P i, lg))"
    "set (finishedIds arrivals) \<union> D = {..<N}" "distinct (finishedIds arrivals)" "finite D"
    "set (finishedIds arrivals) \<inter> D = {}" "card D = cnt" "cnt < N" "ok = (\<forall>i\<in>D. P i)" "ok \<or> computeInfo"
  shows "\<exists>ok' timedOut. awaitResults search N computeInfo timeout cnt ok arrivals = Some (Inr (ok', timedOut)) \<and>
    (\<not> ok' \<longrightarrow> (\<exists>i<N. \<not> P i)) \<and> (ok' \<and> \<not> timedOut \<longrightarrow> (\<forall>i<N. P i)) \<and> (timedOut \<longrightarrow> timeout > 0)"
  using assms(2-)
proof (induction arrivals arbitrary: D cnt ok)
  case Nil
  then show ?case by auto
next
  case (Cons a arrivals)
  show ?case
  proof (cases a)
    case TimerFired
    have D: "set (finishedIds arrivals) \<union> D = {..<N}" "distinct (finishedIds arrivals)" "set (finishedIds arrivals) \<inter> D = {}"
      using Cons.prems(1,2,4) TimerFired by simp_all
    show ?thesis
    proof (cases "timeout > 0")
      case True
      moreover have "\<not> ok \<longrightarrow> (\<exists>i<N. \<not> P i)" using Cons.prems(7) D(1) by auto
      ultimately show ?thesis using TimerFired by auto
    next
      case False
      then show ?thesis using Cons.IH [OF D(1,2) Cons.prems(3) D(3) Cons.prems(5-8)] TimerFired by simp
    qed
  next
    case (Finished i)
    then have i: "i < N" "i \<notin> D" using Cons.prems by auto
    obtain lg where lg: "search i = Some (Inr (P i, lg))" using assms(1) i by blast
    let ?D = "insert i D" let ?ok = "ok \<and> P i"
    have okD: "?ok = (\<forall>j\<in>?D. P j)" using Cons.prems(7) by auto
    have cD: "card ?D = Suc cnt" using Cons.prems(3,5) i by simp
    show ?thesis
    proof (cases "\<not> ?ok \<and> \<not> computeInfo")
      case True
      then have "\<not> P i" using Cons.prems(8) by auto
      then show ?thesis using True lg Finished i by (auto split: if_splits)
    next
      case go: False
      show ?thesis
      proof (cases "Suc cnt \<ge> N")
        case True
        have "?D = {..<N}"
          using Cons.prems Finished cD True by (intro card_subset_eq) auto
        then have "?ok = (\<forall>j<N. P j)" using okD by auto
        then show ?thesis using go lg Finished True by auto
      next
        case False
        have "\<exists>ok' timedOut. awaitResults search N computeInfo timeout (Suc cnt) ?ok arrivals = Some (Inr (ok', timedOut)) \<and>
            (\<not> ok' \<longrightarrow> (\<exists>i<N. \<not> P i)) \<and> (ok' \<and> \<not> timedOut \<longrightarrow> (\<forall>i<N. P i)) \<and> (timedOut \<longrightarrow> timeout > 0)"
          using Cons.prems Finished i cD False okD go by (intro Cons.IH [of ?D "Suc cnt" ?ok]) auto
        moreover have "awaitResults search N computeInfo timeout cnt ok (a # arrivals) =
            awaitResults search N computeInfo timeout (Suc cnt) ?ok arrivals"
          using go False lg Finished by auto
        ultimately show ?thesis by simp
      qed
    qed
  qed
qed

text \<open>The arrivals that the runtime can produce: every partition answers exactly once.\<close>

definition fairArrivals :: "nat \<Rightarrow> arrival list \<Rightarrow> bool" where
  "fairArrivals N arrivals \<longleftrightarrow> set (finishedIds arrivals) = {..<N} \<and> distinct (finishedIds arrivals)"

lemma checkParallel_correct:
  assumes "list_all (\<lambda>E. \<exists>n. wfEntries n E \<and> searchBound n \<le> fuel) hs" "\<forall>s t. md_Equal m s t \<longrightarrow> s = t"
    "hs \<noteq> []" "fairArrivals (length hs) arrivals"
  shows "\<exists>r. checkParallel fuel m hs computeInfo timeout arrivals = Some (Inr r) \<and>
    (r = Ok \<longrightarrow> list_all (\<lambda>E. linearizable m (length E div 2) E) hs) \<and>
    (r = Illegal \<longrightarrow> \<not> list_all (\<lambda>E. linearizable m (length E div 2) E) hs) \<and> (r = Unknown \<longrightarrow> timeout > 0)"
proof -
  have "\<exists>lg. checkSingle fuel m (hs ! i) computeInfo (\<lambda>_. False) = Some (Inr (linearizable m (length (hs ! i) div 2) (hs ! i), lg))"
    if i: "i < length hs" for i
  proof -
    obtain n where n: "wfEntries n (hs ! i)" "searchBound n \<le> fuel" using assms(1) i unfolding list_all_length by blast
    then have "length (hs ! i) div 2 = n" by (simp add: wfEntries_def)
    then show ?thesis using checkSingle_verdict [OF n(1) assms(2) n(2)] by blast
  qed
  from awaitResults_sound [where N = "length hs" and P = "\<lambda>i. linearizable m (length (hs ! i) div 2) (hs ! i)" and
      arrivals = arrivals and D = "{}" and cnt = 0 and ok = True and computeInfo = computeInfo and timeout = timeout, OF this] assms(3,4)
  obtain ok' timedOut where "awaitResults (\<lambda>i. checkSingle fuel m (hs ! i) computeInfo (\<lambda>_. False)) (length hs) computeInfo timeout 0 True arrivals =
      Some (Inr (ok', timedOut))" "\<not> ok' \<longrightarrow> (\<exists>i<length hs. \<not> linearizable m (length (hs ! i) div 2) (hs ! i))"
      "ok' \<and> \<not> timedOut \<longrightarrow> (\<forall>i<length hs. linearizable m (length (hs ! i) div 2) (hs ! i))" "timedOut \<longrightarrow> timeout > 0"
    by (auto simp: fairArrivals_def)
  then show ?thesis by (auto simp: checkParallel_def verdictOf_def list_all_length)
qed

text \<open>
  For operations whose calls do not come after their returns, checked in parts that are not empty in number,
  the program answers. \<^verbatim>\<open>Ok\<close> means that every part is linearizable, \<^verbatim>\<open>Illegal\<close> that some part is not; \<^verbatim>\<open>Unknown\<close> only
  with a timeout.
\<close>

definition soundEqual :: "('s, 'i, 'o) ModelDef \<Rightarrow> bool" where
  "soundEqual model \<longleftrightarrow> (case df_Equal model of None \<Rightarrow> True | Some eq \<Rightarrow> \<forall>s t. eq s t \<longrightarrow> s = t)"

lemma soundEqual_full: "soundEqual model \<Longrightarrow> \<forall>s t. md_Equal (Model.truncate (fillDefault model)) s t \<longrightarrow> s = t"
  by (auto simp: soundEqual_def fillDefault_def Model.truncate_def ShallowEqual_def split: option.splits)

lemma checkOperations_correct:
  fixes model :: "('s, 'i, 'o) ModelDef" and history :: "('i, 'o) Operation list"
  assumes "time_sort srt" "soundEqual model"
  defines "parts \<equiv> fm_Partition (fillDefault model) history" and "m \<equiv> Model.truncate (fillDefault model)"
  assumes "list_all (\<lambda>h. timely h \<and> searchBound (length h) \<le> fuel) parts" "parts \<noteq> []" "fairArrivals (length parts) arrivals"
  shows "\<exists>r. checkOperations fuel srt model history verbose timeout arrivals = Some (Inr r) \<and>
    (r = Ok \<longrightarrow> list_all (opsLinearizable m) parts) \<and> (r = Illegal \<longrightarrow> \<not> list_all (opsLinearizable m) parts) \<and>
    (r = Unknown \<longrightarrow> timeout > 0)"
proof -
  let ?hs = "map (makeEntries srt) parts"
  have wf: "wfEntries (length h) (makeEntries srt h)" if "timely h" for h
    using time_sort.wf_makeEntries [OF assms(1) that] .
  have lin: "linearizable m (length (makeEntries srt h) div 2) (makeEntries srt h) \<longleftrightarrow> opsLinearizable m h" if "timely h" for h
    using time_sort.linearizable_entries [OF assms(1) that] wf [OF that] by (simp add: wfEntries_def)
  have "list_all (\<lambda>E. \<exists>n. wfEntries n E \<and> searchBound n \<le> fuel) ?hs" using assms(5) wf by (force simp: list_all_iff)
  from checkParallel_correct [OF this, of m arrivals verbose timeout] soundEqual_full [OF assms(2)] assms(6,7)
  obtain r where r: "checkParallel fuel m ?hs verbose timeout arrivals = Some (Inr r)"
      "r = Ok \<longrightarrow> list_all (\<lambda>E. linearizable m (length E div 2) E) ?hs"
      "r = Illegal \<longrightarrow> \<not> list_all (\<lambda>E. linearizable m (length E div 2) E) ?hs" "r = Unknown \<longrightarrow> timeout > 0"
    by (auto simp: m_def)
  have "list_all (\<lambda>E. linearizable m (length E div 2) E) ?hs \<longleftrightarrow> list_all (opsLinearizable m) parts"
    using assms(5) lin by (auto simp: list_all_iff)
  then show ?thesis using r by (auto simp: checkOperations_def Let_def parts_def m_def)
qed

lemma checkEvents_correct:
  fixes model :: "('s, 'i, 'o) ModelDef" and history :: "('i, 'o) Event list"
  assumes "soundEqual model"
  defines "parts \<equiv> fm_PartitionEvent (fillDefault model) history" and "m \<equiv> Model.truncate (fillDefault model)"
  assumes "list_all (\<lambda>h. wfEvents h \<and> searchBound (card (ev_Id ` set h)) \<le> fuel) parts" "parts \<noteq> []"
    "fairArrivals (length parts) arrivals"
  shows "\<exists>r. checkEvents fuel model history verbose timeout arrivals = Some (Inr r) \<and>
    (r = Ok \<longrightarrow> list_all (\<lambda>h. linearizable m (card (ev_Id ` set h)) (convertEntries (renumber h))) parts) \<and>
    (r = Illegal \<longrightarrow> \<not> list_all (\<lambda>h. linearizable m (card (ev_Id ` set h)) (convertEntries (renumber h))) parts) \<and>
    (r = Unknown \<longrightarrow> timeout > 0)"
proof -
  let ?c = "\<lambda>h. convertEntries (renumber h)"
  have wf: "wfEntries (card (ev_Id ` set h)) (?c h)" if "h \<in> set parts" for h
    using assms(4) that wf_convertEntries by (auto simp: list_all_iff)
  have "list_all (\<lambda>E. \<exists>n. wfEntries n E \<and> searchBound n \<le> fuel) (map ?c parts)" using assms(4) wf by (force simp: list_all_iff)
  from checkParallel_correct [OF this, of m arrivals verbose timeout] soundEqual_full [OF assms(1)] assms(5,6)
  obtain r where r: "checkParallel fuel m (map ?c parts) verbose timeout arrivals = Some (Inr r)"
      "r = Ok \<longrightarrow> list_all (\<lambda>E. linearizable m (length E div 2) E) (map ?c parts)"
      "r = Illegal \<longrightarrow> \<not> list_all (\<lambda>E. linearizable m (length E div 2) E) (map ?c parts)" "r = Unknown \<longrightarrow> timeout > 0"
    by (auto simp: m_def)
  have "length (?c h) div 2 = card (ev_Id ` set h)" if "h \<in> set parts" for h using wf [OF that] by (simp add: wfEntries_def)
  then have "list_all (\<lambda>E. linearizable m (length E div 2) E) (map ?c parts) \<longleftrightarrow>
      list_all (\<lambda>h. linearizable m (card (ev_Id ` set h)) (?c h)) parts"
    by (simp add: list_all_iff del: convertEntries_nth)
  then show ?thesis using r by (auto simp: checkEvents_def Let_def parts_def m_def)
qed

section \<open>Locality: merging linearizations of single keys\<close>

definition KvModel :: "(string, KvInput, KvOutput) ModelDef" where
  "KvModel = \<lparr>df_Partition = Some KvPartition, df_PartitionEvent = None, df_Init = KvInit, df_Step = KvStep, df_Equal = None\<rparr>"

text \<open>Linearizability of a whole history against the store of all keys.\<close>

definition storeLinearizable :: "kvOperation list \<Rightarrow> bool" where
  "storeLinearizable history \<longleftrightarrow>
     (\<exists>ops. mset ops = mset history \<and> storeLegalFrom (\<lambda>_. KvInit) ops \<and> realTime ops)"

text \<open>
  Lists of operations, one per key, each in an order that respects real time, can be merged into one that
  does: among the operations left, the one that returned first was not preceded by any, and neither was the
  first of its list.
\<close>

lemma merge_step:
  assumes "finite K" "\<forall>k. k \<notin> K \<longrightarrow> f k = []" "\<forall>k. realTime (f k)" "\<exists>k. f k \<noteq> []"
    "\<forall>k. \<forall>v\<in>set (f k). o_Call v \<le> o_Return v"
  shows "\<exists>k v vs. f k = v # vs \<and> (\<forall>k'. \<forall>w\<in>set (f k'). \<not> o_Return w < o_Call v)"
proof -
  let ?R = "\<Union>k\<in>K. o_Return ` set (f k)"
  have "finite ?R" "?R \<noteq> {}" using assms(1,2,4) by fastforce+
  then have "Min ?R \<in> ?R" by (rule Min_in)
  then obtain k w where w: "k \<in> K" "w \<in> set (f k)" "o_Return w = Min ?R" by auto
  have min: "o_Return w \<le> o_Return u" if "u \<in> set (f k')" for u k'
  proof -
    have "k' \<in> K" using that assms(2) by (cases "k' \<in> K") auto
    then have "o_Return u \<in> ?R" using that by blast
    then show ?thesis using Min_le [OF \<open>finite ?R\<close>] w(3) by simp
  qed
  obtain v vs where v: "f k = v # vs" using w(2) by (cases "f k") auto
  have "realTime (v # vs)" "o_Call v \<le> o_Return v" "w \<in> set (v # vs)" using assms(3,5) w(2) v by (metis list.set_intros(1))+
  then have "\<not> o_Return w < o_Call v" by (auto simp: realTime_def)
  then show ?thesis using v min by (meson dual_order.strict_trans2 not_less)
qed

lemma merge:
  assumes "finite K"
  shows "sum (\<lambda>k. length (f k)) K = n \<Longrightarrow> (\<And>k. k \<notin> K \<Longrightarrow> f k = []) \<Longrightarrow> (\<And>k. realTime (f k)) \<Longrightarrow>
    (\<And>k v. v \<in> set (f k) \<Longrightarrow> o_Call v \<le> o_Return v \<and> opKey v = k) \<Longrightarrow>
    \<exists>ops. realTime ops \<and> (\<forall>k. filter (\<lambda>v. opKey v = k) ops = f k)"
proof (induction n arbitrary: f)
  case 0
  then have "f k = []" for k using assms by (cases "k \<in> K") auto
  then show ?case by (intro exI [of _ "[]"]) (simp add: realTime_def)
next
  case (Suc n)
  have ne: "\<exists>k. f k \<noteq> []" using Suc.prems(1) by (metis list.size(3) nat.distinct(1) sum.neutral)
  have call: "\<forall>k. \<forall>v\<in>set (f k). o_Call v \<le> o_Return v" using Suc.prems(4) by blast
  obtain k v vs where v: "f k = v # vs" "\<forall>k'. \<forall>w\<in>set (f k'). \<not> o_Return w < o_Call v"
    using merge_step [OF assms _ _ ne call] Suc.prems(2,3) by blast
  let ?g = "f(k := vs)"
  have k: "k \<in> K" using Suc.prems(2) [of k] v(1) by (cases "k \<in> K") auto
  have "sum (\<lambda>k. length (?g k)) K = n"
    using Suc.prems(1) sum.remove [OF assms k, of "\<lambda>k. length (f k)"] sum.remove [OF assms k, of "\<lambda>k. length (?g k)"] v(1) by simp
  moreover have "realTime (?g k')" for k' using Suc.prems(3) [of k'] v(1) by (auto simp: realTime_def)
  moreover have "o_Call w \<le> o_Return w \<and> opKey w = k'" if "w \<in> set (?g k')" for w k'
    using that Suc.prems(4) [of w k'] v(1) by (auto split: if_splits)
  moreover have "?g k' = []" if "k' \<notin> K" for k' using that Suc.prems(2) k by auto
  ultimately have "\<exists>ops. realTime ops \<and> (\<forall>k'. filter (\<lambda>v. opKey v = k') ops = ?g k')" by (intro Suc.IH)
  then obtain ops where ops: "realTime ops" "\<forall>k'. filter (\<lambda>v. opKey v = k') ops = ?g k'" by blast
  have "w \<in> set ops \<Longrightarrow> w \<in> set (f (opKey w))" for w
  proof -
    assume "w \<in> set ops"
    then have "w \<in> set (filter (\<lambda>v. opKey v = opKey w) ops)" by simp
    then have "w \<in> set (?g (opKey w))" using ops(2) by metis
    then show ?thesis using v(1) by (auto split: if_splits)
  qed
  then have "realTime (v # ops)" using ops(1) v(2) by (auto simp: realTime_def)
  moreover have "opKey v = k" using Suc.prems(4) [of v k] v(1) by simp
  then have "\<forall>k'. filter (\<lambda>w. opKey w = k') (v # ops) = f k'" using ops(2) v(1) by simp
  ultimately show ?case by blast
qed

text \<open>The locality of linearizability, for the store of strings.\<close>

lemma mset_by_key:
  assumes "\<And>k. mset (filter (\<lambda>v. opKey v = k) ops) = mset (filter (\<lambda>v. opKey v = k) h)"
  shows "mset ops = mset h"
proof (rule multiset_eqI)
  fix v
  have "count (mset xs) v = count (mset (filter (\<lambda>w. opKey w = opKey v) xs)) v" for xs by (simp add: count_filter_mset)
  then show "count (mset ops) v = count (mset h) v" using assms [of "opKey v"] by metis
qed

abbreviation kvCore :: "(string, KvInput, KvOutput) Model" where
  "kvCore \<equiv> Model.truncate (fillDefault KvModel)"

lemma legalOps_kv: "legalOps kvCore st ops \<longleftrightarrow> kvLegalFrom st ops"
  by (induction ops arbitrary: st) (auto simp: fillDefault_def KvModel_def Model.truncate_def)

lemma opsLinearizable_kv:
  "opsLinearizable kvCore h \<longleftrightarrow> (\<exists>ops. mset ops = mset h \<and> kvLegalFrom KvInit ops \<and> realTime ops)"
  unfolding opsLinearizable_def legalOps_kv by (simp add: fillDefault_def KvModel_def Model.truncate_def)

lemma locality:
  assumes "timely history"
  shows "storeLinearizable history \<longleftrightarrow> (\<forall>k. opsLinearizable kvCore (filter (\<lambda>v. opKey v = k) history))"
proof
  assume "storeLinearizable history"
  then obtain ops where ops: "mset ops = mset history" "storeLegalFrom (\<lambda>_. KvInit) ops" "realTime ops"
    by (auto simp: storeLinearizable_def)
  show "\<forall>k. opsLinearizable kvCore (filter (\<lambda>v. opKey v = k) history)"
  proof
    fix k
    have "kvLegalFrom KvInit (filter (\<lambda>v. opKey v = k) ops)" using ops(2) storeLegalFrom_keys by fast
    moreover have "realTime (filter (\<lambda>v. opKey v = k) ops)" using ops(3) by (simp add: realTime_def sorted_wrt_filter)
    moreover have "mset (filter (\<lambda>v. opKey v = k) ops) = mset (filter (\<lambda>v. opKey v = k) history)" using ops(1) by simp
    ultimately show "opsLinearizable kvCore (filter (\<lambda>v. opKey v = k) history)" unfolding opsLinearizable_kv by blast
  qed
next
  assume "\<forall>k. opsLinearizable kvCore (filter (\<lambda>v. opKey v = k) history)"
  then obtain f where f: "mset (f k) = mset (filter (\<lambda>v. opKey v = k) history)" "kvLegalFrom KvInit (f k)" "realTime (f k)" for k
    unfolding opsLinearizable_kv by metis
  have mem: "set (f k) = {v \<in> set history. opKey v = k}" for k using mset_eq_setD [OF f(1) [of k]] by auto
  have nil: "f k = []" if "k \<notin> opKey ` set history" for k
  proof -
    have "set (f k) = {}" using mem [of k] that by auto
    then show ?thesis by simp
  qed
  have call: "o_Call v \<le> o_Return v \<and> opKey v = k" if "v \<in> set (f k)" for k v
    using that mem [of k] assms by (auto simp: timely_def list_all_iff)
  have "\<exists>ops. realTime ops \<and> (\<forall>k. filter (\<lambda>v. opKey v = k) ops = f k)"
    by (rule merge [where K = "opKey ` set history", OF _ refl nil f(3) call]) simp_all
  then obtain ops where ops: "realTime ops" "\<forall>k. filter (\<lambda>v. opKey v = k) ops = f k" by blast
  have "mset (filter (\<lambda>v. opKey v = k) ops) = mset (filter (\<lambda>v. opKey v = k) history)" for k
    unfolding ops(2) [rule_format] by (rule f(1))
  then have "mset ops = mset history" by (rule mset_by_key)
  moreover have "storeLegalFrom (\<lambda>_. KvInit) ops" using ops(2) f(2) storeLegalFrom_keys by metis
  ultimately show "storeLinearizable history" using ops(1) by (auto simp: storeLinearizable_def)
qed

lemma kv_parts_linearizable:
  assumes "timely history"
  shows "list_all (opsLinearizable kvCore) (KvPartition history) \<longleftrightarrow> storeLinearizable history"
proof -
  have "opsLinearizable kvCore []" by (simp add: opsLinearizable_kv realTime_def)
  then have "(\<forall>k\<in>opKey ` set history. opsLinearizable kvCore (filter (\<lambda>v. opKey v = k) history)) \<longleftrightarrow>
      (\<forall>k. opsLinearizable kvCore (filter (\<lambda>v. opKey v = k) history))"
    by (metis (mono_tags, lifting) filter_False imageI)
  then show ?thesis using locality [OF assms] by (simp add: KvPartition_filter list_all_iff)
qed

lemma kv_check:
  assumes "time_sort srt" "timely history" "history \<noteq> []"
    "fairArrivals (length (KvPartition history)) arrivals" "searchBound (length history) \<le> fuel"
  shows "\<exists>r. checkOperations fuel srt KvModel history verbose timeout arrivals = Some (Inr r) \<and>
    (r = Ok \<longrightarrow> storeLinearizable history) \<and> (r = Illegal \<longrightarrow> \<not> storeLinearizable history) \<and> (r = Unknown \<longrightarrow> timeout > 0)"
proof -
  have parts: "fm_Partition (fillDefault KvModel) history = KvPartition history" by (simp add: fillDefault_def KvModel_def)
  have sub: "timely h \<and> searchBound (length h) \<le> fuel" if h: "h \<in> set (KvPartition history)" for h
  proof -
    obtain k where k: "h = filter (\<lambda>v. opKey v = k) history" using h by (auto simp: KvPartition_filter)
    then have "searchBound (length h) \<le> searchBound (length history)" by (intro searchBound_mono) simp
    then show ?thesis using assms(2,5) k by (auto simp: timely_def list_all_iff)
  qed
  have "KvPartition history \<noteq> []" using assms(3) by (simp add: KvPartition_filter)
  moreover have "soundEqual KvModel" by (simp add: soundEqual_def KvModel_def)
  ultimately show ?thesis
    using checkOperations_correct [OF assms(1), where model = KvModel and history = history and fuel = fuel and arrivals = arrivals and
      verbose = verbose and timeout = timeout] sub assms(4) unfolding parts kv_parts_linearizable [OF assms(2), symmetric] list_all_iff by blast
qed

section \<open>The checks of the tests\<close>

text \<open>
  C16. With \<^verbatim>\<open>models.KvModel\<close>, a history that is not empty and whose calls do not come after their returns, and any order in which the partitions answer,
  \<^verbatim>\<open>CheckOperations\<close> returns, and returns true exactly when the whole history is linearizable against one store
  of all keys.
\<close>

theorem CheckOperations_KvModel:
  assumes "time_sort srt" "timely history" "history \<noteq> []"
    "fairArrivals (length (KvPartition history)) arrivals" "searchBound (length history) \<le> fuel"
  shows "CheckOperations fuel srt KvModel history arrivals = Some (Inr (storeLinearizable history))"
proof -
  obtain r where "checkOperations fuel srt KvModel history False 0 arrivals = Some (Inr r)"
    "r = Ok \<longrightarrow> storeLinearizable history" "r = Illegal \<longrightarrow> \<not> storeLinearizable history" "r \<noteq> Unknown"
    using kv_check [OF assms, of False 0] by auto
  then show ?thesis by (cases r) (simp_all add: CheckOperations_def)
qed

text \<open>
  \<^verbatim>\<open>CheckOperationsTimeout\<close>, the check that the tests of the key/value services make, answers wherever among the
  results the timer fires: \<^verbatim>\<open>Ok\<close> only for a history that is linearizable as a whole, \<^verbatim>\<open>Illegal\<close> only for one that is
  not, and \<^verbatim>\<open>Unknown\<close> only under a timeout.
\<close>

lemma CheckOperationsTimeout_KvModel:
  assumes "time_sort srt" "timely history" "history \<noteq> []"
    "fairArrivals (length (KvPartition history)) arrivals" "searchBound (length history) \<le> fuel"
  shows "\<exists>r. CheckOperationsTimeout fuel srt KvModel history timeout arrivals = Some (Inr r) \<and>
    (r = Ok \<longrightarrow> storeLinearizable history) \<and> (r = Illegal \<longrightarrow> \<not> storeLinearizable history) \<and> (r = Unknown \<longrightarrow> timeout > 0)"
  unfolding CheckOperationsTimeout_def by (rule kv_check [OF assms])

definition kvOp :: "nat \<Rightarrow> string \<Rightarrow> string \<Rightarrow> string \<Rightarrow> int \<Rightarrow> int \<Rightarrow> kvOperation" where
  "kvOp op key val out call ret =
     \<lparr>o_ClientId = 0, o_Input = \<lparr>ki_Op = op, ki_Key = key, ki_Value = val\<rparr>, o_Call = call, o_Output = \<lparr>ko_Value = out\<rparr>, o_Return = ret\<rparr>"

text \<open>Two clients on \<^verbatim>\<open>x\<close>, the get overlapping the append it sees, and one on \<^verbatim>\<open>y\<close>.\<close>

definition exHistory :: "kvOperation list" where
  "exHistory = [kvOp 0 ''x'' '''' ''ab'' 0 9, kvOp 1 ''x'' ''a'' '''' 1 2, kvOp 2 ''x'' ''b'' '''' 3 8, kvOp 0 ''y'' '''' '''' 4 5]"

abbreviation exSort :: "(KvInput, KvOutput) hentry list \<Rightarrow> (KvInput, KvOutput) hentry list" where
  "exSort \<equiv> sort_key (\<lambda>e. 2 * en_time e + (if en_kind e = callEntry then 0 else 1))"

lemma exHistory_parts: "length (KvPartition exHistory) = 2"
  by (simp add: KvPartition_def exHistory_def kvOp_def)

lemma exHistory_linearizable: "storeLinearizable exHistory"
  unfolding storeLinearizable_def
proof (intro exI conjI)
  show "mset [exHistory ! 1, exHistory ! 2, exHistory ! 0, exHistory ! 3] = mset exHistory"
    by (simp add: exHistory_def)
qed (simp_all add: exHistory_def kvOp_def realTime_def KvStep_def KvInit_def)

theorem CheckOperations_KvModel_witness:
  "CheckOperations (searchBound 4) exSort KvModel exHistory [Finished 1, Finished 0] = Some (Inr True)"
proof -
  have "fairArrivals (length (KvPartition exHistory)) [Finished 1, Finished 0]"
    unfolding exHistory_parts by (auto simp: fairArrivals_def)
  then have "CheckOperations (searchBound 4) exSort KvModel exHistory [Finished 1, Finished 0] = Some (Inr (storeLinearizable exHistory))"
    by (intro CheckOperations_KvModel) (simp_all add: by_time.time_sort_axioms timely_def exHistory_def kvOp_def numeral_eq_Suc)
  then show ?thesis using exHistory_linearizable by simp
qed

text \<open>
  With no partition, as for an empty history under \<^verbatim>\<open>models.KvModel\<close>, and no timeout, nothing is ever received: the
  check does not return.
\<close>

theorem empty_history_blocks:
  "fairArrivals (length (KvPartition [])) arrivals \<Longrightarrow> CheckOperations fuel srt KvModel [] arrivals = None"
proof -
  have none: "awaitResults search N computeInfo 0 cnt ok as = None" if "finishedIds as = []" for search N computeInfo cnt ok as
    using that by (induction as rule: finishedIds.induct) auto
  assume "fairArrivals (length (KvPartition [])) arrivals"
  then have "finishedIds arrivals = []" by (simp add: fairArrivals_def KvPartition_filter)
  then show ?thesis using none by (simp add: CheckOperations_def checkOperations_def checkParallel_def)
qed

end
