(* ===== verification/Labrpc_Net.thy ===== *)
theory Labrpc_Net
  imports Labrpc
begin

text \<open>
  Runs of the simulated network: any number of calls, each with its goroutines (the caller, \<^verbatim>\<open>processReq\<close>, the one that
  runs the handler) cut at locks and channel operations, while the tests reconfigure the network. A call is executed at
  most once and a positive reply is the one its execution produced; the network refines a channel that may lose a
  call or its reply and otherwise delivers each once, which is what \<^verbatim>\<open>Raft_Cluster\<close> takes a network to be.
\<close>

section \<open>Steps\<close>

text \<open>Where \<^verbatim>\<open>Call\<close> and \<^verbatim>\<open>processReq\<close> are, for one call.\<close>

datatype ('n, 'v) progress =
    Calling
  | Accepted
  | Waiting 'n nat bool bool
  | Finishing 'n nat bool bool "'v replyMsg option"
  | TimerReply "'v replyMsg"
  | TimerFail
  | Replying "'v replyMsg"
  | Returned "'v replyMsg"

text \<open>The goroutine that calls \<^verbatim>\<open>server.dispatch\<close> and sends on \<^verbatim>\<open>ech\<close>.\<close>

datatype ('w, 'v) handler =
    Idle
  | Dispatching nat
  | InService "('w, 'v) Service" string
  | Sending "'v replyMsg"
  | Finished

record ('n, 'w, 'v) call =
  c_req :: "('n, 'v) reqMsg"
  c_progress :: "('n, 'v) progress"
  c_handler :: "('w, 'v) handler"

text \<open>
  \<^verbatim>\<open>lab_loop\<close>: the goroutine of \<^verbatim>\<open>MakeNetwork\<close> still receives. \<^verbatim>\<open>lab_exit\<close>: the process has ended with \<^verbatim>\<open>log.Fatalf\<close> or a
  panic. \<^verbatim>\<open>lab_log\<close> is a history variable: the calls executed, with their replies, latest first.
\<close>

record ('n, 'w, 'v) lab =
  lab_net :: "'n Network"
  lab_heap :: "nat \<Rightarrow> ('w, 'v) Server"
  lab_world :: 'w
  lab_calls :: "nat \<Rightarrow> ('n, 'w, 'v) call option"
  lab_loop :: bool
  lab_exit :: "fatal option"
  lab_log :: "(nat \<times> 'v replyMsg) list"

definition labInit :: "(nat \<Rightarrow> ('w, 'v) Server) \<Rightarrow> 'w \<Rightarrow> ('n, 'w, 'v) lab" where
  "labInit heap w = \<lparr>lab_net = MakeNetwork, lab_heap = heap, lab_world = w, lab_calls = Map.empty, lab_loop = True,
     lab_exit = None, lab_log = []\<rparr>"

definition setCall :: "nat \<Rightarrow> ('n, 'w, 'v) call \<Rightarrow> ('n, 'w, 'v) lab \<Rightarrow> ('n, 'w, 'v) lab" where
  "setCall c x s = s\<lparr>lab_calls := (lab_calls s)(c \<mapsto> x)\<rparr>"

definition countCall :: "('v buffer \<Rightarrow> nat) \<Rightarrow> ('n, 'v) reqMsg \<Rightarrow> 'n Network \<Rightarrow> 'n Network" where
  "countCall sz req rn = rn\<lparr>nw_count := nw_count rn + 1, nw_bytes := nw_bytes rn + of_nat (sz (rq_args req))\<rparr>"

definition countReply :: "('v buffer \<Rightarrow> nat) \<Rightarrow> 'v replyMsg \<Rightarrow> 'n Network \<Rightarrow> 'n Network" where
  "countReply sz rep rn = rn\<lparr>nw_bytes := nw_bytes rn + of_nat (sz (rp_reply rep))\<rparr>"

text \<open>After \<^verbatim>\<open>readEndnameInfo\<close>: the call is answered later, dropped, or a goroutine dispatches it.\<close>

fun afterStart :: "'n startOutcome \<Rightarrow> ('n, 'w, 'v) call \<Rightarrow> ('n, 'w, 'v) call" where
  "afterStart (NoServer ms) x = x\<lparr>c_progress := TimerFail\<rparr>"
| "afterStart DropRequest x = x\<lparr>c_progress := Replying failMsg\<rparr>"
| "afterStart (Execute n a rel lre) x = x\<lparr>c_progress := Waiting n a rel lre, c_handler := Dispatching a\<rparr>"

fun afterFinish :: "finishOutcome \<Rightarrow> 'v replyMsg option \<Rightarrow> ('n, 'v) progress" where
  "afterFinish ReplyFail rep = Replying failMsg"
| "afterFinish (ReplyDelayed ms) rep = TimerReply (case rep of None \<Rightarrow> failMsg | Some r \<Rightarrow> r)"
| "afterFinish ReplyNow rep = Replying (case rep of None \<Rightarrow> failMsg | Some r \<Rightarrow> r)"

definition finishBytes :: "('v buffer \<Rightarrow> nat) \<Rightarrow> finishOutcome \<Rightarrow> 'v replyMsg option \<Rightarrow> 'n Network \<Rightarrow> 'n Network" where
  "finishBytes sz out rep rn =
     (if out = ReplyNow then countReply sz (case rep of None \<Rightarrow> failMsg | Some r \<Rightarrow> r) rn else rn)"

text \<open>What the tests may do to the network.\<close>

inductive reconfigure :: "'n Network \<Rightarrow> 'n Network \<Rightarrow> bool" where
  "Cleanup rn = Inr rn' \<Longrightarrow> reconfigure rn rn'"
| "reconfigure rn (Reliable b rn)"
| "reconfigure rn (LongReordering b rn)"
| "reconfigure rn (LongDelays b rn)"
| "MakeEnd n rn = Inr (rn', e) \<Longrightarrow> reconfigure rn rn'"
| "reconfigure rn (AddServer n a rn)"
| "reconfigure rn (DeleteServer n rn)"
| "reconfigure rn (Connect n m rn)"
| "reconfigure rn (Enable n b rn)"

inductive lstep :: "('v buffer \<Rightarrow> nat) \<Rightarrow> ('n, 'w, 'v) lab \<Rightarrow> ('n, 'w, 'v) lab \<Rightarrow> bool" for sz where
  config:
  "\<lbrakk>lab_exit s = None; reconfigure (lab_net s) rn'\<rbrakk> \<Longrightarrow> lstep sz s (s\<lparr>lab_net := rn'\<rparr>)"
| config_fatal:
  "\<lbrakk>lab_exit s = None; Cleanup (lab_net s) = Inl f \<or> MakeEnd n (lab_net s) = Inl f\<rbrakk> \<Longrightarrow> lstep sz s (s\<lparr>lab_exit := Some f\<rparr>)"
| add_service:
  "lab_exit s = None \<Longrightarrow> lstep sz s (s\<lparr>lab_heap := (lab_heap s)(a := AddService svc (lab_heap s a))\<rparr>)"
| loop_ends:
  "\<lbrakk>lab_exit s = None; nw_done (lab_net s)\<rbrakk> \<Longrightarrow> lstep sz s (s\<lparr>lab_loop := False\<rparr>)"
| invoke:
  "\<lbrakk>lab_exit s = None; lab_calls s c = None\<rbrakk> \<Longrightarrow>
   lstep sz s (setCall c \<lparr>c_req = callRequest e name t args, c_progress = Calling, c_handler = Idle\<rparr> s)"
| send:
  "\<lbrakk>lab_exit s = None; lab_calls s c = Some x; c_progress x = Calling; lab_loop s\<rbrakk> \<Longrightarrow>
   lstep sz s (setCall c (x\<lparr>c_progress := Accepted\<rparr>) (s\<lparr>lab_net := countCall sz (c_req x) (lab_net s)\<rparr>))"
| refuse:
  "\<lbrakk>lab_exit s = None; lab_calls s c = Some x; c_progress x = Calling; nw_done (lab_net s)\<rbrakk> \<Longrightarrow>
   lstep sz s (setCall c (x\<lparr>c_progress := Returned failMsg\<rparr>) s)"
| start:
  "\<lbrakk>lab_exit s = None; lab_calls s c = Some x; c_progress x = Accepted\<rbrakk> \<Longrightarrow>
   lstep sz s (setCall c (afterStart (processStart r1 r2 (c_req x) (lab_net s)) x) s)"
| lookup:
  "\<lbrakk>lab_exit s = None; lab_calls s c = Some x; c_handler x = Dispatching a;
    Server_lookup (c_req x) (lab_heap s a) = (rs, Inr (svc, name))\<rbrakk> \<Longrightarrow>
   lstep sz s (setCall c (x\<lparr>c_handler := InService svc name\<rparr>) (s\<lparr>lab_heap := (lab_heap s)(a := rs)\<rparr>))"
| lookup_fatal:
  "\<lbrakk>lab_exit s = None; lab_calls s c = Some x; c_handler x = Dispatching a;
    Server_lookup (c_req x) (lab_heap s a) = (rs, Inl f)\<rbrakk> \<Longrightarrow>
   lstep sz s (s\<lparr>lab_heap := (lab_heap s)(a := rs), lab_exit := Some f\<rparr>)"
| execute:
  "\<lbrakk>lab_exit s = None; lab_calls s c = Some x; c_handler x = InService svc name;
    Service_dispatch svc name (c_req x) (lab_world s) = Inr (w, rep)\<rbrakk> \<Longrightarrow>
   lstep sz s (setCall c (x\<lparr>c_handler := Sending rep\<rparr>) (s\<lparr>lab_world := w, lab_log := (c, rep) # lab_log s\<rparr>))"
| execute_fatal:
  "\<lbrakk>lab_exit s = None; lab_calls s c = Some x; c_handler x = InService svc name;
    Service_dispatch svc name (c_req x) (lab_world s) = Inl f\<rbrakk> \<Longrightarrow>
   lstep sz s (s\<lparr>lab_exit := Some f\<rparr>)"
| got_reply:
  "\<lbrakk>lab_exit s = None; lab_calls s c = Some x; c_progress x = Waiting n a rel lre; c_handler x = Sending rep\<rbrakk> \<Longrightarrow>
   lstep sz s (setCall c (x\<lparr>c_progress := Finishing n a rel lre (Some rep), c_handler := Finished\<rparr>) s)"
| give_up:
  "\<lbrakk>lab_exit s = None; lab_calls s c = Some x; c_progress x = Waiting n a rel lre;
    isServerDead (rq_endname (c_req x)) n a (lab_net s)\<rbrakk> \<Longrightarrow>
   lstep sz s (setCall c (x\<lparr>c_progress := Finishing n a rel lre None\<rparr>) s)"
| drain:
  "\<lbrakk>lab_exit s = None; lab_calls s c = Some x; c_handler x = Sending rep; \<forall>n a rel lre. c_progress x \<noteq> Waiting n a rel lre\<rbrakk> \<Longrightarrow>
   lstep sz s (setCall c (x\<lparr>c_handler := Finished\<rparr>) s)"
| finish:
  "\<lbrakk>lab_exit s = None; lab_calls s c = Some x; c_progress x = Finishing n a rel lre rep;
    out = processFinish r1 r2 r3 (rq_endname (c_req x)) n a rel lre (rep \<noteq> None) (lab_net s)\<rbrakk> \<Longrightarrow>
   lstep sz s (setCall c (x\<lparr>c_progress := afterFinish out rep\<rparr>) (s\<lparr>lab_net := finishBytes sz out rep (lab_net s)\<rparr>))"
| timer_reply:
  "\<lbrakk>lab_exit s = None; lab_calls s c = Some x; c_progress x = TimerReply rep\<rbrakk> \<Longrightarrow>
   lstep sz s (setCall c (x\<lparr>c_progress := Replying rep\<rparr>) (s\<lparr>lab_net := countReply sz rep (lab_net s)\<rparr>))"
| timer_fail:
  "\<lbrakk>lab_exit s = None; lab_calls s c = Some x; c_progress x = TimerFail\<rbrakk> \<Longrightarrow>
   lstep sz s (setCall c (x\<lparr>c_progress := Replying failMsg\<rparr>) s)"
| receive:
  "\<lbrakk>lab_exit s = None; lab_calls s c = Some x; c_progress x = Replying rep\<rbrakk> \<Longrightarrow>
   lstep sz s (setCall c (x\<lparr>c_progress := Returned rep\<rparr>) s)"

inductive lreach :: "('v buffer \<Rightarrow> nat) \<Rightarrow> ('n, 'w, 'v) lab \<Rightarrow> bool" for sz where
  start: "lreach sz (labInit heap w)"
| step: "lreach sz s \<Longrightarrow> lstep sz s s' \<Longrightarrow> lreach sz s'"

section \<open>At most once\<close>

text \<open>A reply that is on its way to the caller, if there is one.\<close>

fun pendingReply :: "('n, 'v) progress \<Rightarrow> 'v replyMsg option" where
  "pendingReply (Finishing n a rel lre rep) = rep"
| "pendingReply (TimerReply rep) = Some rep"
| "pendingReply (Replying rep) = (if rp_ok rep then Some rep else None)"
| "pendingReply (Returned rep) = (if rp_ok rep then Some rep else None)"
| "pendingReply _ = None"

fun isWaiting :: "('n, 'v) progress \<Rightarrow> bool" where
  "isWaiting (Waiting n a rel lre) = True"
| "isWaiting _ = False"

definition notRun :: "('w, 'v) handler \<Rightarrow> bool" where
  "notRun h \<longleftrightarrow> h = Idle \<or> (\<exists>a. h = Dispatching a) \<or> (\<exists>svc n. h = InService svc n)"

definition callOk :: "(nat \<times> 'v replyMsg) list \<Rightarrow> nat \<Rightarrow> ('n, 'w, 'v) call \<Rightarrow> bool" where
  "callOk lg c x \<longleftrightarrow>
     (c_progress x = Calling \<or> c_progress x = Accepted \<longrightarrow> c_handler x = Idle) \<and>
     (isWaiting (c_progress x) \<longrightarrow> c_handler x \<noteq> Idle \<and> c_handler x \<noteq> Finished) \<and>
     (notRun (c_handler x) \<longrightarrow> pendingReply (c_progress x) = None) \<and>
     (if notRun (c_handler x) then c \<notin> fst ` set lg
      else \<exists>rep. filter (\<lambda>e. fst e = c) lg = [(c, rep)] \<and> rp_ok rep \<and>
        (\<forall>r. c_handler x = Sending r \<longrightarrow> r = rep \<and> (pendingReply (c_progress x) = None)) \<and>
        (\<forall>r. pendingReply (c_progress x) = Some r \<longrightarrow> r = rep))"

definition labInv :: "('n, 'w, 'v) lab \<Rightarrow> bool" where
  "labInv s \<longleftrightarrow> (\<forall>c. lab_calls s c = None \<longrightarrow> c \<notin> fst ` set (lab_log s)) \<and>
     (\<forall>c x. lab_calls s c = Some x \<longrightarrow> callOk (lab_log s) c x)"

lemma labInv_call: "labInv s \<Longrightarrow> lab_calls s c = Some x \<Longrightarrow> callOk (lab_log s) c x"
  by (simp add: labInv_def)

lemma labInv_setCall:
  assumes "labInv s" "callOk (lab_log s) c x" "lab_calls s' = lab_calls s" "lab_log s' = lab_log s"
  shows "labInv (setCall c x s')"
  using assms by (auto simp: labInv_def setCall_def)

lemma notRun_simps [simp]:
  "notRun Idle" "notRun (Dispatching a)" "notRun (InService svc n)" "\<not> notRun (Sending r)" "\<not> notRun Finished"
  by (simp_all add: notRun_def)

lemma pendingReply_finish:
  "pendingReply (afterFinish out rep) = None \<or> pendingReply (afterFinish out rep) = rep \<or> rep = None"
  by (cases out) (auto simp: failMsg_def split: option.splits)

lemma callOk_keep:
  assumes "callOk lg c x" "c_handler y = c_handler x" "isWaiting (c_progress y) \<longrightarrow> isWaiting (c_progress x)"
    "c_progress y = Calling \<or> c_progress y = Accepted \<longrightarrow> c_progress x = Calling \<or> c_progress x = Accepted"
    "pendingReply (c_progress y) = None \<or> pendingReply (c_progress y) = pendingReply (c_progress x)"
  shows "callOk lg c y"
  using assms unfolding callOk_def by (auto split: if_splits)

lemma labInv_lstep:
  assumes "lstep sz s s'" "labInv s"
  shows "labInv s'"
  using assms
proof (cases rule: lstep.cases)
  case (invoke c e name t args)
  have "c \<notin> fst ` set (lab_log s)" using assms(2) invoke(3) by (simp add: labInv_def)
  then show ?thesis unfolding invoke(1) by (intro labInv_setCall [OF assms(2)]) (auto simp: callOk_def)
next
  case (send c x)
  note ok = labInv_call [OF assms(2) send(3)]
  show ?thesis unfolding send(1) using send(4) by (intro labInv_setCall [OF assms(2)] callOk_keep [OF ok]) auto
next
  case (refuse c x)
  note ok = labInv_call [OF assms(2) refuse(3)]
  show ?thesis unfolding refuse(1) using refuse(4)
    by (intro labInv_setCall [OF assms(2)] callOk_keep [OF ok]) (auto simp: failMsg_def)
next
  case (start c x r1 r2)
  have ok: "callOk (lab_log s) c x" and h: "c_handler x = Idle" using labInv_call [OF assms(2) start(3)] start(4) by (auto simp: callOk_def)
  have "callOk (lab_log s) c (afterStart (processStart r1 r2 (c_req x) (lab_net s)) x)"
    using ok h by (cases "processStart r1 r2 (c_req x) (lab_net s)") (auto simp: callOk_def failMsg_def)
  then show ?thesis unfolding start(1) by (intro labInv_setCall [OF assms(2)]) auto
next
  case (lookup c x a rs svc name)
  have ok: "callOk (lab_log s) c x" using labInv_call [OF assms(2) lookup(3)] .
  then show ?thesis unfolding lookup(1) using lookup(4) by (intro labInv_setCall [OF assms(2)]) (auto simp: callOk_def)
next
  case (execute c x svc name w rep)
  have ok: "callOk (lab_log s) c x" using labInv_call [OF assms(2) execute(3)] .
  have rep: "rp_ok rep" using execute(5) by (auto simp: Service_dispatch_def callMethod_def Let_def split: option.splits prod.splits)
  have new: "c \<notin> fst ` set (lab_log s)" "pendingReply (c_progress x) = None" "isWaiting (c_progress x) \<longrightarrow> True"
    "\<not> (c_progress x = Calling \<or> c_progress x = Accepted)" using ok execute(4) by (auto simp: callOk_def)
  then have "filter (\<lambda>e. fst e = c) (lab_log s) = []" by (force simp: filter_empty_conv)
  then have "callOk ((c, rep) # lab_log s) c (x\<lparr>c_handler := Sending rep\<rparr>)" using new rep by (auto simp: callOk_def)
  moreover have "callOk ((c, rep) # lab_log s) d y" if "lab_calls s d = Some y" "d \<noteq> c" for d y
    using labInv_call [OF assms(2) that(1)] that(2) unfolding callOk_def by auto
  moreover have "d \<notin> fst ` set ((c, rep) # lab_log s)" if "lab_calls s d = None" for d
    using assms(2) that execute(3) by (cases "d = c") (auto simp: labInv_def)
  ultimately show ?thesis unfolding execute(1) labInv_def by (auto simp: setCall_def)
next
  case (got_reply c x n a rel lre rep)
  have ok: "callOk (lab_log s) c x" using labInv_call [OF assms(2) got_reply(3)] .
  then show ?thesis unfolding got_reply(1) using got_reply(4,5) by (intro labInv_setCall [OF assms(2)]) (auto simp: callOk_def)
next
  case (give_up c x n a rel lre)
  note ok = labInv_call [OF assms(2) give_up(3)]
  show ?thesis unfolding give_up(1) using give_up(4) by (intro labInv_setCall [OF assms(2)] callOk_keep [OF ok]) auto
next
  case (drain c x rep)
  have ok: "callOk (lab_log s) c x" using labInv_call [OF assms(2) drain(3)] .
  moreover have "\<not> isWaiting (c_progress x)" using drain(5) by (cases "c_progress x") auto
  ultimately have "callOk (lab_log s) c (x\<lparr>c_handler := Finished\<rparr>)" using drain(4) by (auto simp: callOk_def)
  then show ?thesis unfolding drain(1) by (intro labInv_setCall [OF assms(2)]) auto
next
  case (finish c x n a rel lre rep out r1 r2 r3)
  note ok = labInv_call [OF assms(2) finish(3)]
  have "rep = None \<Longrightarrow> out = ReplyFail" using finish(5) by (simp add: processFinish_def Let_def)
  then have "callOk (lab_log s) c (x\<lparr>c_progress := afterFinish out rep\<rparr>)"
    using finish(4) pendingReply_finish [of out rep] by (intro callOk_keep [OF ok]) (cases out, auto simp: failMsg_def split: option.splits)+
  then show ?thesis unfolding finish(1) by (intro labInv_setCall [OF assms(2)]) auto
next
  case (timer_reply c x rep)
  note ok = labInv_call [OF assms(2) timer_reply(3)]
  show ?thesis unfolding timer_reply(1) using timer_reply(4) by (intro labInv_setCall [OF assms(2)] callOk_keep [OF ok]) auto
next
  case (timer_fail c x)
  note ok = labInv_call [OF assms(2) timer_fail(3)]
  show ?thesis unfolding timer_fail(1) using timer_fail(4)
    by (intro labInv_setCall [OF assms(2)] callOk_keep [OF ok]) (auto simp: failMsg_def)
next
  case (receive c x rep)
  note ok = labInv_call [OF assms(2) receive(3)]
  show ?thesis unfolding receive(1) using receive(4) by (intro labInv_setCall [OF assms(2)] callOk_keep [OF ok]) auto
qed (auto simp: labInv_def)

lemma lreach_labInv: "lreach sz s \<Longrightarrow> labInv s"
proof (induction rule: lreach.induct)
  case (start heap w)
  then show ?case by (simp add: labInv_def labInit_def)
qed (rule labInv_lstep)

text \<open>
  C35. The network executes every call at most once, whatever is lost, delayed or reconfigured and however long a caller has
  waited; and when \<^verbatim>\<open>Call\<close> returns true, the handler was executed exactly once and the reply is the one it produced.
\<close>

theorem labrpc_at_most_once:
  assumes "lreach sz s"
  shows "length (filter (\<lambda>e. fst e = c) (lab_log s)) \<le> 1 \<and>
    (\<forall>x rep. lab_calls s c = Some x \<and> c_progress x = Returned rep \<and> rp_ok rep \<longrightarrow>
       filter (\<lambda>e. fst e = c) (lab_log s) = [(c, rep)])"
proof -
  have I: "labInv s" using lreach_labInv [OF assms] .
  have none: "filter (\<lambda>e. fst e = c) (lab_log s) = []" if "c \<notin> fst ` set (lab_log s)"
    using that by (force simp: filter_empty_conv)
  show ?thesis
  proof (cases "lab_calls s c")
    case None
    then have "c \<notin> fst ` set (lab_log s)" using I by (simp add: labInv_def)
    then show ?thesis using None none by simp
  next
    case (Some x)
    have ok: "callOk (lab_log s) c x" using labInv_call [OF I Some] .
    show ?thesis
    proof (cases "notRun (c_handler x)")
      case True
      then have "pendingReply (c_progress x) = None" "c \<notin> fst ` set (lab_log s)" using ok by (auto simp: callOk_def)
      then show ?thesis using Some none by auto
    next
      case False
      then obtain rep where "filter (\<lambda>e. fst e = c) (lab_log s) = [(c, rep)]" "\<forall>r. pendingReply (c_progress x) = Some r \<longrightarrow> r = rep"
        using ok by (auto simp: callOk_def)
      then show ?thesis using Some by auto
    qed
  qed
qed

section \<open>The channel that the network implements\<close>

text \<open>
  A channel holds calls that are not executed yet and replies that are not delivered yet. It may lose any of them at any
  time, executes a call once, by some method, and delivers a reply once.
\<close>

datatype ('n, 'v) inChannel = Absent | Pending "('n, 'v) reqMsg" | Answered "'v replyMsg" | Gone

record ('n, 'w, 'v) channel =
  ch_world :: 'w
  ch_calls :: "nat \<Rightarrow> ('n, 'v) inChannel"
  ch_got :: "nat \<Rightarrow> 'v replyMsg option"

inductive chstep :: "('n, 'w, 'v) channel \<Rightarrow> ('n, 'w, 'v) channel \<Rightarrow> bool" where
  ch_call: "ch_calls s c = Absent \<Longrightarrow> chstep s (s\<lparr>ch_calls := (ch_calls s)(c := Pending req)\<rparr>)"
| ch_execute: "ch_calls s c = Pending req \<Longrightarrow> callMethod method req (ch_world s) = (w, rep) \<Longrightarrow>
    chstep s (s\<lparr>ch_world := w, ch_calls := (ch_calls s)(c := Answered rep)\<rparr>)"
| ch_lose: "ch_calls s c = Pending req \<or> ch_calls s c = Answered rep \<Longrightarrow> chstep s (s\<lparr>ch_calls := (ch_calls s)(c := Gone)\<rparr>)"
| ch_deliver: "ch_calls s c = Answered rep \<Longrightarrow>
    chstep s (s\<lparr>ch_calls := (ch_calls s)(c := Gone), ch_got := (ch_got s)(c \<mapsto> rep)\<rparr>)"

text \<open>What is in the channel for a call, and what its caller has got.\<close>

definition absCall :: "('n, 'w, 'v) call \<Rightarrow> ('n, 'v) inChannel" where
  "absCall x =
     (case c_handler x of
        Idle \<Rightarrow> if c_progress x = Calling \<or> c_progress x = Accepted then Pending (c_req x) else Gone
      | Dispatching a \<Rightarrow> Pending (c_req x)
      | InService svc name \<Rightarrow> Pending (c_req x)
      | Sending rep \<Rightarrow> if isWaiting (c_progress x) then Answered rep else Gone
      | Finished \<Rightarrow> (case c_progress x of Returned rep \<Rightarrow> Gone
          | _ \<Rightarrow> case pendingReply (c_progress x) of Some rep \<Rightarrow> Answered rep | None \<Rightarrow> Gone))"

definition absGot :: "('n, 'w, 'v) call \<Rightarrow> 'v replyMsg option" where
  "absGot x = (case c_progress x of Returned rep \<Rightarrow> if rp_ok rep then Some rep else None | _ \<Rightarrow> None)"

definition absLab :: "('n, 'w, 'v) lab \<Rightarrow> ('n, 'w, 'v) channel" where
  "absLab s = \<lparr>ch_world = lab_world s,
     ch_calls = (\<lambda>c. case lab_calls s c of None \<Rightarrow> Absent | Some x \<Rightarrow> absCall x),
     ch_got = (\<lambda>c. case lab_calls s c of None \<Rightarrow> None | Some x \<Rightarrow> absGot x)\<rparr>"

lemma absLab_setCall:
  "lab_calls s' = lab_calls s \<Longrightarrow>
   absLab (setCall c y s') = (absLab s)\<lparr>ch_world := lab_world s', ch_calls := (ch_calls (absLab s))(c := absCall y),
     ch_got := (ch_got (absLab s))(c := absGot y)\<rparr>"
  by (auto simp: absLab_def setCall_def fun_eq_iff)

lemma channel_same:
  "ch_calls s c = v \<Longrightarrow> ch_got s c = w \<Longrightarrow>
   s\<lparr>ch_world := ch_world s, ch_calls := (ch_calls s)(c := v), ch_got := (ch_got s)(c := w)\<rparr> = s"
  by (cases s) (auto simp: fun_eq_iff)

lemma absCall_present: "absCall x \<noteq> Absent"
  by (auto simp: absCall_def split: handler.split progress.split option.split)

text \<open>A step that moves one call without running a handler keeps what is in the channel or loses it.\<close>

lemma refines_move:
  assumes "lab_calls s c = Some x" "lab_calls s' = lab_calls s" "lab_world s' = lab_world s"
    "absCall y = absCall x \<or> absCall y = Gone" "absGot y = absGot x"
  shows "chstep\<^sup>*\<^sup>* (absLab s) (absLab (setCall c y s'))"
proof -
  have x: "ch_calls (absLab s) c = absCall x" "ch_got (absLab s) c = absGot x" "ch_world (absLab s) = lab_world s"
    using assms(1) by (simp_all add: absLab_def)
  note eq = absLab_setCall [OF assms(2), of c y, unfolded assms(3,5)]
  show ?thesis
  proof (cases "absCall y = absCall x")
    case True
    then have "absLab (setCall c y s') = absLab s" using eq channel_same [of "absLab s" c] x by simp
    then show ?thesis by simp
  next
    case False
    then obtain req rep where "ch_calls (absLab s) c = Pending req \<or> ch_calls (absLab s) c = Answered rep" "absCall y = Gone"
      using assms(4) x(1) absCall_present [of x] by (cases "absCall x") auto
    moreover from ch_lose [OF this(1)] have "chstep (absLab s) ((absLab s)\<lparr>ch_calls := (ch_calls (absLab s))(c := Gone)\<rparr>)" .
    moreover have "(absLab s)\<lparr>ch_calls := (ch_calls (absLab s))(c := Gone)\<rparr> = absLab (setCall c y s')"
      using eq calculation(2) x by (cases "absLab s") (auto simp: fun_eq_iff)
    ultimately show ?thesis by auto
  qed
qed

lemma refines_invoke:
  assumes "lab_calls s c = None"
  shows "chstep (absLab s) (absLab (setCall c \<lparr>c_req = req, c_progress = Calling, c_handler = Idle\<rparr> s))"
proof -
  have "ch_calls (absLab s) c = Absent" "ch_got (absLab s) c = None" using assms by (simp_all add: absLab_def)
  moreover have "absLab (setCall c \<lparr>c_req = req, c_progress = Calling, c_handler = Idle\<rparr> s) =
      (absLab s)\<lparr>ch_calls := (ch_calls (absLab s))(c := Pending req)\<rparr>"
    using calculation(2) by (auto simp: absLab_setCall absCall_def absGot_def) (simp add: absLab_def fun_upd_idem)
  ultimately show ?thesis using ch_call [of "absLab s" c] by auto
qed

text \<open>Running the handler executes the call; when nobody waits any more, its reply is lost at once.\<close>

lemma refines_execute:
  assumes "lab_calls s c = Some x" "c_handler x = InService svc name"
    "Service_dispatch svc name (c_req x) (lab_world s) = Inr (w, rep)"
  shows "chstep\<^sup>*\<^sup>* (absLab s) (absLab (setCall c (x\<lparr>c_handler := Sending rep\<rparr>) (s\<lparr>lab_world := w, lab_log := lg\<rparr>)))"
    (is "chstep\<^sup>*\<^sup>* _ (absLab ?s')")
proof -
  from assms(3) obtain m where m: "callMethod m (c_req x) (lab_world s) = (w, rep)"
    by (auto simp: Service_dispatch_def split: option.splits)
  let ?t = "(absLab s)\<lparr>ch_world := w, ch_calls := (ch_calls (absLab s))(c := Answered rep)\<rparr>"
  let ?y = "x\<lparr>c_handler := Sending rep\<rparr>"
  have p: "ch_calls (absLab s) c = Pending (c_req x)" "ch_world (absLab s) = lab_world s" "ch_got (absLab s) c = absGot x"
    using assms(1,2) by (auto simp: absLab_def absCall_def)
  have st: "chstep (absLab s) ?t" using ch_execute [OF p(1)] m p(2) by simp
  have y: "absLab ?s' = ?t\<lparr>ch_calls := (ch_calls ?t)(c := absCall ?y)\<rparr>"
    using p(3) by (auto simp: absLab_setCall absGot_def) (simp add: absLab_def setCall_def fun_eq_iff)
  show ?thesis
  proof (cases "isWaiting (c_progress x)")
    case True
    then have "absLab ?s' = ?t" using y by (simp add: absCall_def)
    then show ?thesis using st by auto
  next
    case False
    then have "absCall ?y = Gone" by (simp add: absCall_def)
    then have "chstep ?t (absLab ?s')" unfolding y using ch_lose [of ?t c _ rep] by simp
    then show ?thesis using st by auto
  qed
qed

lemma refines_receive:
  assumes "labInv s" "lab_calls s c = Some x" "c_progress x = Replying rep"
  shows "chstep\<^sup>*\<^sup>* (absLab s) (absLab (setCall c (x\<lparr>c_progress := Returned rep\<rparr>) s))" (is "chstep\<^sup>*\<^sup>* _ (absLab ?s')")
proof (cases "rp_ok rep")
  case True
  have ok: "callOk (lab_log s) c x" using labInv_call [OF assms(1,2)] .
  then have fin: "c_handler x = Finished" using True assms(3) unfolding callOk_def by (cases "c_handler x") auto
  then have p: "ch_calls (absLab s) c = Answered rep" using assms(2,3) True by (simp add: absLab_def absCall_def)
  have "absLab ?s' = (absLab s)\<lparr>ch_calls := (ch_calls (absLab s))(c := Gone), ch_got := (ch_got (absLab s))(c \<mapsto> rep)\<rparr>"
    using True fin by (auto simp: absLab_setCall absCall_def absGot_def) (simp add: absLab_def)
  then show ?thesis using ch_deliver [OF p] by auto
next
  case False
  then show ?thesis using assms(2,3) by (intro refines_move) (auto simp: absCall_def absGot_def split: handler.split)
qed

text \<open>What \<^verbatim>\<open>processReq\<close> decides keeps the call in the channel or loses it.\<close>

lemma refines_start:
  assumes "labInv s" "lab_calls s c = Some x" "c_progress x = Accepted"
  shows "chstep\<^sup>*\<^sup>* (absLab s) (absLab (setCall c (afterStart out x) s))"
proof -
  have "c_handler x = Idle" using labInv_call [OF assms(1,2)] assms(3) by (simp add: callOk_def)
  then have "absCall (afterStart out x) = absCall x \<or> absCall (afterStart out x) = Gone" "absGot (afterStart out x) = absGot x"
    using assms(3) by (cases out; simp add: absCall_def absGot_def failMsg_def)+
  then show ?thesis by (rule refines_move [OF assms(2) refl refl])
qed

lemma refines_give_up:
  assumes "labInv s" "lab_calls s c = Some x" "c_progress x = Waiting n a rel lre"
  shows "chstep\<^sup>*\<^sup>* (absLab s) (absLab (setCall c (x\<lparr>c_progress := Finishing n a rel lre None\<rparr>) s))"
proof -
  let ?y = "x\<lparr>c_progress := Finishing n a rel lre None\<rparr>"
  have "callOk (lab_log s) c x" using labInv_call [OF assms(1,2)] .
  then have "c_handler x \<noteq> Idle" "c_handler x \<noteq> Finished" using assms(3) by (simp_all add: callOk_def)
  then have "absCall ?y = absCall x \<or> absCall ?y = Gone" by (cases "c_handler x") (simp_all add: absCall_def)
  then show ?thesis using assms(2,3) by (intro refines_move) (auto simp: absGot_def)
qed

lemma refines_drain:
  assumes "labInv s" "lab_calls s c = Some x" "c_handler x = Sending rep" "\<forall>n a rel lre. c_progress x \<noteq> Waiting n a rel lre"
  shows "chstep\<^sup>*\<^sup>* (absLab s) (absLab (setCall c (x\<lparr>c_handler := Finished\<rparr>) s))"
proof -
  have "\<not> isWaiting (c_progress x)" using assms(4) by (cases "c_progress x") auto
  moreover have "pendingReply (c_progress x) = None" using labInv_call [OF assms(1,2)] assms(3) by (auto simp: callOk_def)
  ultimately show ?thesis using assms(2,3) by (intro refines_move) (auto simp: absCall_def absGot_def split: progress.split)
qed

lemma refines_finish:
  assumes "labInv s" "lab_calls s c = Some x" "c_progress x = Finishing n a rel lre rep" "rep = None \<Longrightarrow> out = ReplyFail"
  shows "chstep\<^sup>*\<^sup>* (absLab s) (absLab (setCall c (x\<lparr>c_progress := afterFinish out rep\<rparr>) (s\<lparr>lab_net := rn\<rparr>)))"
proof -
  let ?y = "x\<lparr>c_progress := afterFinish out rep\<rparr>"
  have ok: "callOk (lab_log s) c x" using labInv_call [OF assms(1,2)] .
  have "absCall ?y = absCall x \<or> absCall ?y = Gone"
  proof (cases "out = ReplyFail")
    case True
    then show ?thesis using assms(3) by (cases "c_handler x") (simp_all add: absCall_def failMsg_def)
  next
    case False
    then obtain r where r: "rep = Some r" using assms(4) by (cases rep) auto
    then have "c_handler x = Finished" "rp_ok r" using ok assms(3) unfolding callOk_def by (cases "c_handler x"; auto)+
    then show ?thesis using False r assms(3) by (cases out) (auto simp: absCall_def)
  qed
  moreover have "absGot ?y = absGot x" using assms(3) by (cases out) (auto simp: absGot_def)
  ultimately show ?thesis by (intro refines_move [OF assms(2)]) auto
qed

text \<open>
  C36. The simulated network refines a channel that may lose a call or a reply at any time but executes a call and delivers
  its reply at most once: every step of a reachable state is matched by steps of the channel.
\<close>

theorem labrpc_refines_channel:
  assumes "lreach sz s" "lstep sz s s'"
  shows "chstep\<^sup>*\<^sup>* (absLab s) (absLab s')"
proof -
  have I: "labInv s" using lreach_labInv [OF assms(1)] .
  note plain = absCall_def absGot_def failMsg_def
  from assms(2) show ?thesis
  proof (cases rule: lstep.cases)
    case (invoke c e name t args)
    then show ?thesis using refines_invoke by auto
  next
    case (execute c x svc name w rep)
    then show ?thesis using refines_execute by auto
  next
    case (receive c x rep)
    then show ?thesis using refines_receive [OF I] by auto
  next
    case (start c x r1 r2)
    then show ?thesis using refines_start [OF I] by auto
  next
    case (give_up c x n a rel lre)
    then show ?thesis using refines_give_up [OF I] by auto
  next
    case (drain c x rep)
    then show ?thesis using refines_drain [OF I] by auto
  next
    case (finish c x n a rel lre rep out r1 r2 r3)
    then show ?thesis using refines_finish [OF I finish(3,4), of out] by (simp add: processFinish_def Let_def)
  next
    case (got_reply c x n a rel lre rep)
    then show ?thesis by (auto simp: plain intro!: refines_move split: handler.split)
  next
    case (send c x)
    then show ?thesis by (auto simp: plain intro!: refines_move split: handler.split)
  next
    case (refuse c x)
    then show ?thesis by (auto simp: plain intro!: refines_move split: handler.split)
  next
    case (lookup c x a rs svc name)
    then show ?thesis by (auto simp: plain intro!: refines_move split: handler.split)
  next
    case (timer_reply c x rep)
    then show ?thesis by (auto simp: plain intro!: refines_move split: handler.split)
  next
    case (timer_fail c x)
    then show ?thesis by (auto simp: plain intro!: refines_move split: handler.split)
  qed (simp_all add: absLab_def)
qed

section \<open>A call\<close>

text \<open>A counter service; one call over a reliable network, from the first step to the return of \<^verbatim>\<open>Call\<close>.\<close>

definition exMethod :: "(int, int) rmethod" where
  "exMethod = \<lparr>rm_PkgPath = [], rm_Name = ''Add'', rm_NumIn = 3, rm_In2Ptr = True, rm_NumOut = 0, rm_replyZero = 0,
     rm_Func = (\<lambda>args reply w. (w + args, w + args))\<rparr>"

definition exServer :: "int \<Rightarrow> (int, int) Server" where
  "exServer n = (AddService (MakeService ''Counter'' [exMethod]) MakeServer)\<lparr>srv_count := n\<rparr>"

definition exReq :: "(nat, int) reqMsg" where
  "exReq = callRequest \<lparr>ce_endname = 1\<rparr> ''Counter.Add'' \<lparr>ty_zero = 0, ty_of = Some\<rparr> 5"

definition exNet :: "64 word \<Rightarrow> 32 word \<Rightarrow> nat Network" where
  "exNet b n = \<lparr>nw_reliable = True, nw_longDelays = False, nw_longReordering = False, nw_ends = [1 \<mapsto> \<lparr>ce_endname = 1\<rparr>],
     nw_enabled = (\<lambda>_. False)(1 := True), nw_servers = (\<lambda>_. None)(7 := Some 0), nw_connections = (\<lambda>_. None)(1 := Some 7),
     nw_done = False, nw_count = n, nw_bytes = b\<rparr>"

definition exLab :: "nat Network \<Rightarrow> int \<Rightarrow> int \<Rightarrow> (nat \<rightharpoonup> (nat, int, int) call) \<Rightarrow> (nat \<times> int replyMsg) list \<Rightarrow> (nat, int, int) lab" where
  "exLab rn n w calls lg = \<lparr>lab_net = rn, lab_heap = (\<lambda>_. exServer 0)(0 := exServer n), lab_world = w, lab_calls = calls,
     lab_loop = True, lab_exit = None, lab_log = lg\<rparr>"

lemma exLab_simps [simp]:
  "lab_net (exLab rn n w cs lg) = rn" "lab_heap (exLab rn n w cs lg) 0 = exServer n" "lab_world (exLab rn n w cs lg) = w"
  "lab_calls (exLab rn n w cs lg) = cs" "lab_loop (exLab rn n w cs lg)" "lab_exit (exLab rn n w cs lg) = None"
  "lab_log (exLab rn n w cs lg) = lg" "exLab rn n w cs lg\<lparr>lab_net := rn'\<rparr> = exLab rn' n w cs lg"
  "exLab rn n w cs lg\<lparr>lab_heap := (lab_heap (exLab rn n w cs lg))(0 := exServer n')\<rparr> = exLab rn n' w cs lg"
  "exLab rn n w cs lg\<lparr>lab_world := w', lab_log := lg'\<rparr> = exLab rn n w' cs lg'"
  "setCall c x (exLab rn n w cs lg) = exLab rn n w (cs(c \<mapsto> x)) lg"
  by (auto simp: exLab_def setCall_def)

definition exRep :: "int replyMsg" where
  "exRep = \<lparr>rp_ok = True, rp_reply = [5]\<rparr>"

definition exCallAt :: "(nat, int) progress \<Rightarrow> (int, int) handler \<Rightarrow> (nat, int, int) call" where
  "exCallAt p h = \<lparr>c_req = exReq, c_progress = p, c_handler = h\<rparr>"

lemma exCallAt_simps [simp]:
  "c_progress (exCallAt p h) = p" "c_handler (exCallAt p h) = h" "c_req (exCallAt p h) = exReq"
  "exCallAt p h\<lparr>c_progress := p'\<rparr> = exCallAt p' h" "exCallAt p h\<lparr>c_handler := h'\<rparr> = exCallAt p h'"
  by (simp_all add: exCallAt_def)

lemma ex_config: "lreach length (exLab (exNet 0 0) 0 0 Map.empty [])"
proof -
  have r0: "lreach length (exLab MakeNetwork 0 0 Map.empty [])"
  proof -
    have "exLab MakeNetwork 0 0 Map.empty [] = labInit (\<lambda>_. exServer 0) 0" by (auto simp: labInit_def exLab_def)
    then show ?thesis by (simp only: lreach.start)
  qed
  have conf: "lreach length (exLab rn' 0 0 Map.empty [])" if "lreach length (exLab rn 0 0 Map.empty [])" "reconfigure rn rn'" for rn rn'
    using lreach.step [OF that(1) config] that(2) by simp
  obtain rn1 e where rn1: "MakeEnd 1 MakeNetwork = Inr (rn1 :: nat Network, e)" by (auto simp: MakeEnd_def MakeNetwork_def Let_def)
  have "exNet 0 0 = Enable 1 True (Connect 1 7 (AddServer 7 0 rn1))"
    using rn1 by (auto simp: exNet_def MakeEnd_def MakeNetwork_def AddServer_def Connect_def Enable_def Let_def)
  then show ?thesis using conf [OF conf [OF conf [OF conf [OF r0 reconfigure.intros(5) [OF rn1]] reconfigure.intros(6)] reconfigure.intros(8)] reconfigure.intros(9)]
    by metis
qed

lemma ex_called: "lreach length (exLab (exNet 1 1) 0 0 [3 \<mapsto> exCallAt (Waiting 7 0 True False) (Dispatching 0)] [])"
proof -
  have "lreach length (exLab (exNet 0 0) 0 0 [3 \<mapsto> exCallAt Calling Idle] [])"
    using lreach.step [OF ex_config invoke [of _ 3 length "\<lparr>ce_endname = 1\<rparr>" "''Counter.Add''" "\<lparr>ty_zero = 0, ty_of = Some\<rparr>" 5]]
    by (simp add: exReq_def exCallAt_def)
  from lreach.step [OF this send [of _ 3 "exCallAt Calling Idle"]]
  have "lreach length (exLab (exNet 1 1) 0 0 [3 \<mapsto> exCallAt Accepted Idle] [])"
    by (simp add: countCall_def exNet_def exReq_def callRequest_def Encode_def)
  from lreach.step [OF this lstep.start [of _ 3 "exCallAt Accepted Idle" _ 0 0]] show ?thesis
    by (simp add: processStart_def readEndnameInfo_def exNet_def exReq_def callRequest_def)
qed

definition exDone :: "(nat, int, int) lab" where
  "exDone = exLab (exNet 2 1) 1 5 [3 \<mapsto> exCallAt (Returned exRep) Finished] [(3, exRep)]"

lemma ex_done: "lreach length exDone"
proof -
  let ?w = "Waiting 7 0 True False"
  have look: "Server_lookup exReq (exServer 0) = (exServer 1, Inr (MakeService ''Counter'' [exMethod], ''Add''))"
    by (simp add: Server_lookup_def exServer_def exReq_def callRequest_def AddService_def MakeServer_def MakeService_def)
  have disp: "Service_dispatch (MakeService ''Counter'' [exMethod]) ''Add'' exReq 0 = Inr (5, exRep)"
    by (simp add: Service_dispatch_def MakeService_def suitable_def exMethod_def callMethod_def exReq_def callRequest_def
        Encode_def Decode_def exRep_def)
  from lreach.step [OF ex_called lookup [of _ 3 "exCallAt ?w (Dispatching 0)" 0 "exServer 1" "MakeService ''Counter'' [exMethod]" "''Add''"]]
  have "lreach length (exLab (exNet 1 1) 1 0 [3 \<mapsto> exCallAt ?w (InService (MakeService ''Counter'' [exMethod]) ''Add'')] [])"
    using look by simp
  from lreach.step [OF this execute [of _ 3 _ "MakeService ''Counter'' [exMethod]" "''Add''" 5 exRep]]
  have "lreach length (exLab (exNet 1 1) 1 5 [3 \<mapsto> exCallAt ?w (Sending exRep)] [(3, exRep)])" using disp by simp
  from lreach.step [OF this got_reply [of _ 3 _ 7 0 True False exRep]]
  have "lreach length (exLab (exNet 1 1) 1 5 [3 \<mapsto> exCallAt (Finishing 7 0 True False (Some exRep)) Finished] [(3, exRep)])" by simp
  from lreach.step [OF this finish [of _ 3 _ 7 0 True False "Some exRep" ReplyNow 0 0 0]]
  have "lreach length (exLab (exNet 2 1) 1 5 [3 \<mapsto> exCallAt (Replying exRep) Finished] [(3, exRep)])"
    by (simp add: processFinish_def isServerDead_def exNet_def exReq_def callRequest_def finishBytes_def countReply_def exRep_def)
  from lreach.step [OF this receive [of _ 3 _ exRep]] show ?thesis by (simp add: exDone_def)
qed

theorem labrpc_at_most_once_witness:
  "lreach length exDone \<and> c_progress (the (lab_calls exDone 3)) = Returned exRep \<and>
   filter (\<lambda>e. fst e = 3) (lab_log exDone) = [(3, exRep)]"
proof -
  have c: "lab_calls exDone 3 = Some (exCallAt (Returned exRep) Finished)" "rp_ok exRep" by (simp_all add: exDone_def exRep_def)
  then have "filter (\<lambda>e. fst e = 3) (lab_log exDone) = [(3, exRep)]" using labrpc_at_most_once [OF ex_done, of 3] by auto
  then show ?thesis using ex_done c by simp
qed

theorem labrpc_refines_channel_witness:
  "\<exists>s :: (nat, int, int) lab. lstep length exDone s \<and> chstep\<^sup>*\<^sup>* (absLab exDone) (absLab s) \<and> ch_got (absLab s) 3 = Some exRep"
proof -
  let ?s = "exDone\<lparr>lab_net := DeleteServer 7 (lab_net exDone)\<rparr>"
  have st: "lstep length exDone ?s" by (rule config) (auto simp: exDone_def intro: reconfigure.intros)
  moreover have "ch_got (absLab ?s) 3 = Some exRep" by (simp add: absLab_def exDone_def absGot_def exRep_def)
  ultimately show ?thesis using labrpc_refines_channel [OF ex_done st] by blast
qed

end
