(* ===== verification/Labgob_Check.thy ===== *)
theory Labgob_Check
  imports Labgob
begin

text \<open>
  The checks of \<^verbatim>\<open>labgob/labgob.go\<close> on what is encoded and decoded: \<^verbatim>\<open>checkType\<close> walks the graph of a value's type and
  counts the struct fields that gob would not send because their names are not capitalized; \<^verbatim>\<open>checkDefault\<close> looks at
  the variable that is decoded into. Types may refer to themselves, so a type is an index into a table of what
  reflection tells of it, and the walk marks the types it has seen.
\<close>

section \<open>Field names\<close>

datatype rtype =
    RStruct string "(string \<times> nat) list"
  | RSlice nat | RArray nat | RPtr nat
  | RMap nat nat
  | ROther string

type_synonym rtypes = "nat \<Rightarrow> rtype"

text \<open>\<^verbatim>\<open>unicode.IsUpper\<close> of the first character, for ASCII names; an empty name decodes to \<^verbatim>\<open>RuneError\<close>.\<close>

fun isUpperName :: "string \<Rightarrow> bool" where
  "isUpperName [] = False"
| "isUpperName (c # _) = (65 \<le> (of_char c :: nat) \<and> (of_char c :: nat) \<le> 90)"

record gobcheck =
  checked :: "nat set"
  errorCount :: nat
  printed :: "(string \<times> string) list"

definition noteField :: "string \<Rightarrow> string \<Rightarrow> gobcheck \<Rightarrow> gobcheck" where
  "noteField tname fname st =
     (if isUpperName fname then st
      else st\<lparr>errorCount := errorCount st + 1, printed := printed st @ [(fname, tname)]\<rparr>)"

text \<open>The recursion takes a bound on its depth; \<^verbatim>\<open>None\<close> means that it was too small.\<close>

fun checkType :: "nat \<Rightarrow> rtypes \<Rightarrow> nat \<Rightarrow> gobcheck \<Rightarrow> gobcheck option"
  and checkFields :: "nat \<Rightarrow> rtypes \<Rightarrow> string \<Rightarrow> (string \<times> nat) list \<Rightarrow> gobcheck \<Rightarrow> gobcheck option" where
  "checkType 0 tab t st = None"
| "checkType (Suc n) tab t st =
     (if t \<in> checked st then Some st
      else let st1 = st\<lparr>checked := insert t (checked st)\<rparr> in
        case tab t of
          RStruct name fs \<Rightarrow> checkFields n tab name fs st1
        | RSlice e \<Rightarrow> checkType n tab e st1
        | RArray e \<Rightarrow> checkType n tab e st1
        | RPtr e \<Rightarrow> checkType n tab e st1
        | RMap k e \<Rightarrow> (case checkType n tab e st1 of None \<Rightarrow> None | Some st2 \<Rightarrow> checkType n tab k st2)
        | ROther name \<Rightarrow> Some st1)"
| "checkFields n tab name [] st = Some st"
| "checkFields n tab name (f # fs) st =
     (case checkType n tab (snd f) (noteField name (fst f) st) of
        None \<Rightarrow> None
      | Some st1 \<Rightarrow> checkFields n tab name fs st1)"

text \<open>The types a type refers to, and the fields of it that gob would not send.\<close>

fun succs :: "rtype \<Rightarrow> nat set" where
  "succs (RStruct name fs) = snd ` set fs"
| "succs (RSlice e) = {e}"
| "succs (RArray e) = {e}"
| "succs (RPtr e) = {e}"
| "succs (RMap k e) = {k, e}"
| "succs (ROther name) = {}"

fun badFields :: "rtype \<Rightarrow> nat" where
  "badFields (RStruct name fs) = length (filter (\<lambda>f. \<not> isUpperName (fst f)) fs)"
| "badFields _ = 0"

inductive_set typeGraph :: "rtypes \<Rightarrow> nat \<Rightarrow> nat set" for tab t where
  self: "t \<in> typeGraph tab t"
| succ: "u \<in> typeGraph tab t \<Longrightarrow> v \<in> succs (tab u) \<Longrightarrow> v \<in> typeGraph tab t"

text \<open>
  What a walk from the types \<^verbatim>\<open>ts\<close> does to the marks and the count; \<^verbatim>\<open>k\<close> errors are counted besides.
\<close>

definition walked :: "rtypes \<Rightarrow> nat \<Rightarrow> nat set \<Rightarrow> gobcheck \<Rightarrow> gobcheck \<Rightarrow> bool" where
  "walked tab k ts st st' \<longleftrightarrow> ts \<subseteq> checked st' \<and> checked st \<subseteq> checked st' \<and>
     checked st' \<subseteq> checked st \<union> (\<Union>t\<in>ts. typeGraph tab t) \<and> finite (checked st' - checked st) \<and>
     (\<forall>u \<in> checked st' - checked st. succs (tab u) \<subseteq> checked st') \<and>
     errorCount st' = errorCount st + k + (\<Sum>u \<in> checked st' - checked st. badFields (tab u))"

lemma walked_nothing: "walked tab 0 {} st st"
  by (simp add: walked_def)

lemma walked_seen: "t \<in> checked st \<Longrightarrow> walked tab 0 {t} st st"
  by (simp add: walked_def)

lemma walked_trans:
  assumes "walked tab k ts st st1" "walked tab l us st1 st2"
  shows "walked tab (k + l) (ts \<union> us) st st2"
proof -
  let ?A = "checked st1 - checked st" and ?B = "checked st2 - checked st1"
  have sub: "checked st \<subseteq> checked st1" "checked st1 \<subseteq> checked st2" using assms by (auto simp: walked_def)
  then have d: "checked st2 - checked st = ?A \<union> ?B" "?A \<inter> ?B = {}" by auto
  have fin: "finite ?A" "finite ?B" using assms by (auto simp: walked_def)
  have "(\<Sum>u \<in> checked st2 - checked st. badFields (tab u)) = (\<Sum>u\<in>?A. badFields (tab u)) + (\<Sum>u\<in>?B. badFields (tab u))"
    unfolding d(1) using fin d(2) by (rule sum.union_disjoint)
  moreover have "\<forall>u \<in> checked st2 - checked st. succs (tab u) \<subseteq> checked st2"
    using assms sub unfolding walked_def d(1) by blast
  moreover have "finite (checked st2 - checked st)" using fin d(1) by simp
  ultimately show ?thesis using assms sub unfolding walked_def by auto
qed

lemma typeGraph_succ:
  assumes "v \<in> typeGraph tab u" "u \<in> succs (tab t)"
  shows "v \<in> typeGraph tab t"
  using assms by (induction rule: typeGraph.induct) (auto intro: typeGraph.intros)

text \<open>Marking a type and then walking its successors is a walk from the type.\<close>

lemma walked_mark:
  assumes "walked tab (badFields (tab t)) (succs (tab t)) (st\<lparr>checked := insert t (checked st)\<rparr>) st'" "t \<notin> checked st"
  shows "walked tab 0 {t} st st'"
proof -
  let ?A = "checked st' - insert t (checked st)"
  have w: "succs (tab t) \<subseteq> checked st'" "insert t (checked st) \<subseteq> checked st'"
    "checked st' \<subseteq> insert t (checked st) \<union> (\<Union>u\<in>succs (tab t). typeGraph tab u)" "finite ?A"
    "\<forall>u\<in>?A. succs (tab u) \<subseteq> checked st'"
    "errorCount st' = errorCount st + badFields (tab t) + (\<Sum>u\<in>?A. badFields (tab u))"
    using assms(1) by (auto simp: walked_def)
  have d: "checked st' - checked st = insert t ?A" "t \<notin> ?A" using assms(2) w(2) by auto
  have sum: "(\<Sum>u \<in> checked st' - checked st. badFields (tab u)) = badFields (tab t) + (\<Sum>u\<in>?A. badFields (tab u))"
    unfolding d(1) using w(4) d(2) by (rule sum.insert)
  have sub: "checked st' \<subseteq> checked st \<union> typeGraph tab t"
  proof
    fix v assume "v \<in> checked st'"
    then consider "v = t" | "v \<in> checked st" | u where "u \<in> succs (tab t)" "v \<in> typeGraph tab u" using w(3) by blast
    then show "v \<in> checked st \<union> typeGraph tab t" by cases (simp_all add: typeGraph.self typeGraph_succ)
  qed
  have cl: "\<forall>u \<in> checked st' - checked st. succs (tab u) \<subseteq> checked st'" unfolding d(1) using w(1,5) by simp
  have fin: "finite (checked st' - checked st)" unfolding d(1) using w(4) by simp
  show ?thesis unfolding walked_def sum using w(2,6) sub cl fin by simp
qed

lemma walked_noteField: "walked tab (if isUpperName f then 0 else 1) {} st (noteField name f st)"
  by (simp add: walked_def noteField_def)

lemma check_walked:
  "checkType n tab t st = Some st' \<Longrightarrow> walked tab 0 {t} st st'"
  "checkFields n tab name fs st = Some st' \<Longrightarrow>
     walked tab (length (filter (\<lambda>f. \<not> isUpperName (fst f)) fs)) (snd ` set fs) st st'"
proof (induction n tab t st and n tab name fs st arbitrary: st' and st' rule: checkType_checkFields.induct)
  case (2 n tab t st)
  show ?case
  proof (cases "t \<in> checked st")
    case True
    then show ?thesis using 2 walked_seen by simp
  next
    case False
    let ?st1 = "st\<lparr>checked := insert t (checked st)\<rparr>"
    have "walked tab (badFields (tab t)) (succs (tab t)) ?st1 st'"
    proof (cases "tab t")
      case (RMap k e)
      then obtain st2 where st2: "checkType n tab e ?st1 = Some st2" "checkType n tab k st2 = Some st'"
        using 2 False by (auto split: option.splits)
      from walked_trans [OF 2(5) [OF False refl RMap st2(1)] 2(6) [OF False refl RMap st2]] RMap
      show ?thesis by (simp add: insert_commute)
    qed (use 2 False walked_nothing in \<open>auto simp: Let_def\<close>)
    then show ?thesis using walked_mark False by blast
  qed
next
  case (4 n tab name f fs st)
  then obtain st1 where st1: "checkType n tab (snd f) (noteField name (fst f) st) = Some st1" "checkFields n tab name fs st1 = Some st'"
    by (auto split: option.splits)
  have "walked tab (if isUpperName (fst f) then 0 else 1) {snd f} st st1"
    using walked_trans [OF walked_noteField 4(1) [OF st1(1)]] by simp
  from walked_trans [OF this 4(2) [OF st1]] show ?case by (cases "isUpperName (fst f)") simp_all
qed (auto simp: walked_nothing)

text \<open>A bound larger than the number of types that are not marked yet is enough.\<close>

lemma check_enough:
  assumes U: "finite U" "\<forall>u\<in>U. succs (tab u) \<subseteq> U"
  shows "t \<in> U \<Longrightarrow> card (U - checked st) < n \<Longrightarrow> \<exists>st'. checkType n tab t st = Some st'"
proof (induction n arbitrary: t st)
  case (Suc n)
  have fields: "\<exists>st'. checkFields n tab name fs st1 = Some st'" if "snd ` set fs \<subseteq> U" "card (U - checked st1) < n" for name fs st1
    using that
  proof (induction fs arbitrary: st1)
    case (Cons f fs)
    have same: "checked (noteField name (fst f) st1) = checked st1" by (simp add: noteField_def)
    obtain st2 where st2: "checkType n tab (snd f) (noteField name (fst f) st1) = Some st2"
      using Suc.IH [of "snd f" "noteField name (fst f) st1"] Cons.prems same by auto
    then have "U - checked st2 \<subseteq> U - checked st1" using check_walked(1) [OF st2] same by (auto simp: walked_def)
    then have "card (U - checked st2) < n" using card_mono [of "U - checked st1"] U(1) Cons.prems(2) by (meson finite_Diff le_less_trans)
    then show ?case using Cons.IH [of st2] Cons.prems(1) st2 by auto
  qed simp
  show ?case
  proof (cases "t \<in> checked st")
    case False
    let ?st1 = "st\<lparr>checked := insert t (checked st)\<rparr>"
    have e: "U - checked ?st1 = (U - checked st) - {t}" and m: "t \<in> U - checked st" using False Suc.prems(1) by auto
    have "card ((U - checked st) - {t}) < card (U - checked st)" using U(1) m by (intro card_Diff1_less) simp_all
    then have c: "card (U - checked ?st1) < n" unfolding e using Suc.prems(2) by linarith
    have S: "succs (tab t) \<subseteq> U" using U(2) Suc.prems(1) by blast
    show ?thesis
    proof (cases "tab t")
      case (RMap k e)
      then obtain st2 where st2: "checkType n tab e ?st1 = Some st2" using Suc.IH [OF _ c, of e] S by auto
      have "U - checked st2 \<subseteq> U - checked ?st1" using check_walked(1) [OF st2] by (auto simp: walked_def)
      then have "card (U - checked st2) < n" using card_mono [of "U - checked ?st1"] U(1) c by (meson finite_Diff le_less_trans)
      then show ?thesis using Suc.IH [of k st2] S RMap st2 False by auto
    qed (use Suc.IH [OF _ c] fields [OF _ c] S False in \<open>auto simp: Let_def\<close>)
  qed simp
qed simp

text \<open>The marks are closed under the types that a type refers to.\<close>

definition closedMarks :: "rtypes \<Rightarrow> gobcheck \<Rightarrow> bool" where
  "closedMarks tab st \<longleftrightarrow> (\<forall>u \<in> checked st. succs (tab u) \<subseteq> checked st)"

lemma typeGraph_closed: "S \<subseteq> M \<Longrightarrow> t \<in> S \<Longrightarrow> \<forall>u\<in>M. succs (tab u) \<subseteq> M \<Longrightarrow> typeGraph tab t \<subseteq> M"
proof
  fix v assume h: "S \<subseteq> M" "t \<in> S" "\<forall>u\<in>M. succs (tab u) \<subseteq> M" and "v \<in> typeGraph tab t"
  from this(4) show "v \<in> M" by (induction rule: typeGraph.induct) (use h in auto)
qed

text \<open>
  C37. The check of a type ends, also when types refer to each other in a cycle; it marks exactly the types that the type
  is built from, and counts each field that gob would not send once, however often its type occurs and in however
  many calls.
\<close>

theorem checkType_counts_once:
  assumes "closedMarks tab st" "finite (typeGraph tab t)" "card (typeGraph tab t) < n"
  shows "\<exists>st'. checkType n tab t st = Some st' \<and> closedMarks tab st' \<and> checked st' = checked st \<union> typeGraph tab t \<and>
    errorCount st' = errorCount st + (\<Sum>u \<in> typeGraph tab t - checked st. badFields (tab u))"
proof -
  have "card (typeGraph tab t - checked st) < n"
    using card_mono [OF assms(2), of "typeGraph tab t - checked st"] assms(3) by auto
  then obtain st' where st': "checkType n tab t st = Some st'"
    using check_enough [OF assms(2), of tab t st n] by (auto intro: typeGraph.intros)
  have w: "t \<in> checked st'" "checked st \<subseteq> checked st'" "checked st' \<subseteq> checked st \<union> typeGraph tab t"
    "\<forall>u \<in> checked st' - checked st. succs (tab u) \<subseteq> checked st'"
    "errorCount st' = errorCount st + (\<Sum>u \<in> checked st' - checked st. badFields (tab u))"
    using check_walked(1) [OF st'] by (auto simp: walked_def)
  have cl: "\<forall>u\<in>checked st'. succs (tab u) \<subseteq> checked st'" using w(2,4) assms(1) unfolding closedMarks_def by blast
  have "checked st' = checked st \<union> typeGraph tab t" using w(2,3) typeGraph_closed [OF order_refl w(1) cl] by blast
  moreover have "checked st' - checked st = typeGraph tab t - checked st" using calculation by auto
  ultimately show ?thesis using st' cl w(5) unfolding closedMarks_def by auto
qed

text \<open>A linked list, \<^verbatim>\<open>type Node struct { Val int; next *Node }\<close>: the lower-case field is reported once.\<close>

definition exTypes :: rtypes where
  "exTypes = (\<lambda>_. ROther ''int'')(0 := RStruct ''Node'' [(''Val'', 1), (''next'', 2)], 2 := RPtr 0)"

lemma exTypes_graph: "typeGraph exTypes 0 = {0, 1, 2}"
proof
  show "typeGraph exTypes 0 \<subseteq> {0, 1, 2}"
    by (rule typeGraph_closed [of "{0}"]) (auto simp: exTypes_def)
  have "1 \<in> typeGraph exTypes 0" "2 \<in> typeGraph exTypes 0"
    by (rule typeGraph.succ [OF typeGraph.self]; simp add: exTypes_def)+
  then show "{0, 1, 2} \<subseteq> typeGraph exTypes 0" by (simp add: typeGraph.self)
qed

theorem checkType_counts_once_witness:
  "\<exists>st'. checkType 4 exTypes 0 \<lparr>checked = {}, errorCount = 0, printed = []\<rparr> = Some st' \<and> checked st' = {0, 1, 2} \<and> errorCount st' = 1"
proof -
  let ?st = "\<lparr>checked = {}, errorCount = 0, printed = []\<rparr>"
  have "\<exists>st'. checkType 4 exTypes 0 ?st = Some st' \<and> closedMarks exTypes st' \<and> checked st' = checked ?st \<union> typeGraph exTypes 0 \<and>
    errorCount st' = errorCount ?st + (\<Sum>u \<in> typeGraph exTypes 0 - checked ?st. badFields (exTypes u))"
    by (rule checkType_counts_once) (simp_all add: exTypes_graph closedMarks_def)
  then show ?thesis unfolding exTypes_graph by (auto simp: exTypes_def)
qed

section \<open>Decoding into variables that are not empty\<close>

text \<open>
  The variable that a value is decoded into: structs, pointers, values of a basic type (the name of the type, and whether
  it is the zero value), and everything that the check does not look at.
\<close>

datatype gvalue = GStruct "(string \<times> gvalue) list" | GPtr "gvalue option" | GBasic string bool | GOther

definition warnDefault :: "string \<Rightarrow> string \<Rightarrow> gobcheck \<Rightarrow> gobcheck" where
  "warnDefault name tname st =
     st\<lparr>errorCount := errorCount st + 1,
        printed := (if errorCount st < 1 then printed st @ [((if name = [] then tname else name), [])] else printed st)\<rparr>"

definition fieldPath :: "string \<Rightarrow> string \<Rightarrow> string" where
  "fieldPath name f = (if name \<noteq> [] then name @ ''.'' @ f else f)"

function checkDefault1 :: "gvalue \<Rightarrow> nat \<Rightarrow> string \<Rightarrow> gobcheck \<Rightarrow> gobcheck"
  and checkDefaultFields :: "(string \<times> gvalue) list \<Rightarrow> nat \<Rightarrow> string \<Rightarrow> gobcheck \<Rightarrow> gobcheck" where
  "checkDefault1 vl depth name st =
     (if depth > 3 then st
      else case vl of
        GStruct fs \<Rightarrow> checkDefaultFields fs depth name st
      | GPtr None \<Rightarrow> st
      | GPtr (Some v) \<Rightarrow> checkDefault1 v (depth + 1) name st
      | GBasic tname zero \<Rightarrow> if zero then st else warnDefault name tname st
      | GOther \<Rightarrow> st)"
| "checkDefaultFields [] depth name st = st"
| "checkDefaultFields (f # fs) depth name st =
     checkDefaultFields fs depth name (checkDefault1 (snd f) (depth + 1) (fieldPath name (fst f)) st)"
  by pat_completeness auto
termination
  by (relation "measure (\<lambda>x. case x of Inl (v, _) \<Rightarrow> 2 * size v | Inr (fs, _) \<Rightarrow> 2 * size_list (size_prod (\<lambda>_. 0) size) fs + 1)")
    (auto split: prod.splits)

declare checkDefault1.simps [simp del]

lemmas checkDefault1_cases =
  checkDefault1.simps [of "GStruct fs" for fs] checkDefault1.simps [of "GPtr None"] checkDefault1.simps [of "GPtr (Some v)" for v]
  checkDefault1.simps [of "GBasic t z" for t z] checkDefault1.simps [of GOther]

text \<open>\<^verbatim>\<open>checkDefault\<close> of a nil interface does nothing.\<close>

definition checkDefault :: "gvalue option \<Rightarrow> gobcheck \<Rightarrow> gobcheck" where
  "checkDefault vl st = (case vl of None \<Rightarrow> st | Some v \<Rightarrow> checkDefault1 v 1 [] st)"

text \<open>
  At most one warning is printed, and only when nothing was counted before; a variable whose basic parts are all zero is
  never complained about.
\<close>

fun allZero :: "gvalue \<Rightarrow> bool" where
  "allZero (GStruct fs) = (\<forall>f\<in>set fs. allZero (snd f))"
| "allZero (GPtr v) = (case v of None \<Rightarrow> True | Some x \<Rightarrow> allZero x)"
| "allZero (GBasic tname zero) = zero"
| "allZero GOther = True"

lemma checkDefault1_quiet:
  "allZero v \<Longrightarrow> checkDefault1 v depth name st = st"
  "\<forall>f\<in>set fs. allZero (snd f) \<Longrightarrow> checkDefaultFields fs depth name st = st"
proof (induction v depth name st and fs depth name st rule: checkDefault1_checkDefaultFields.induct)
  case (1 v depth name st)
  then show ?case by (cases v) (auto simp: checkDefault1_cases split: option.splits)
qed simp_all

lemma checkDefault1_warns_once:
  "length (printed (checkDefault1 v depth name st)) \<le> length (printed st) + (if errorCount st = 0 then 1 else 0) \<and>
   errorCount st \<le> errorCount (checkDefault1 v depth name st) \<and>
   (printed (checkDefault1 v depth name st) \<noteq> printed st \<longrightarrow> 0 < errorCount (checkDefault1 v depth name st))"
  "length (printed (checkDefaultFields fs depth name st)) \<le> length (printed st) + (if errorCount st = 0 then 1 else 0) \<and>
   errorCount st \<le> errorCount (checkDefaultFields fs depth name st) \<and>
   (printed (checkDefaultFields fs depth name st) \<noteq> printed st \<longrightarrow> 0 < errorCount (checkDefaultFields fs depth name st))"
proof (induction v depth name st and fs depth name st rule: checkDefault1_checkDefaultFields.induct)
  case (1 v depth name st)
  then show ?case by (auto simp: checkDefault1.simps [of v] warnDefault_def split: gvalue.split option.split)
next
  case (3 f fs depth name st)
  then show ?case by (auto split: if_splits)
qed simp

section \<open>The wrapper\<close>

text \<open>
  The methods of the wrapper with their checks. The type of the value, and for decoding the variable, are given as
  reflection shows them; \<^verbatim>\<open>n\<close> bounds the walk over the type. The registry of \<^verbatim>\<open>encoding/gob\<close> is the set of names it knows.
\<close>

definition checkValue :: "nat \<Rightarrow> rtypes \<Rightarrow> nat \<Rightarrow> gobcheck \<Rightarrow> gobcheck option" where
  "checkValue n tab t st = checkType n tab t st"

definition LabEncode :: "nat \<Rightarrow> rtypes \<Rightarrow> nat \<Rightarrow> 'v \<Rightarrow> gobcheck \<Rightarrow> 'v buffer \<Rightarrow> (gobcheck \<times> 'v buffer) option" where
  "LabEncode n tab t e st w = map_option (\<lambda>st'. (st', Encode w e)) (checkValue n tab t st)"

definition LabDecode :: "nat \<Rightarrow> rtypes \<Rightarrow> nat \<Rightarrow> gvalue option \<Rightarrow> ('v \<Rightarrow> 'a option) \<Rightarrow> gobcheck \<Rightarrow> 'v buffer \<Rightarrow>
    (gobcheck \<times> ('a \<times> 'v buffer) option) option" where
  "LabDecode n tab t var as_type st r =
     map_option (\<lambda>st'. (checkDefault var st', Decode as_type r)) (checkValue n tab t st)"

definition RegisterName :: "nat \<Rightarrow> rtypes \<Rightarrow> string \<Rightarrow> nat \<Rightarrow> gobcheck \<Rightarrow> (string \<rightharpoonup> nat) \<Rightarrow> (gobcheck \<times> (string \<rightharpoonup> nat)) option" where
  "RegisterName n tab name t st reg = map_option (\<lambda>st'. (st', reg(name \<mapsto> t))) (checkValue n tab t st)"

text \<open>
  The checks never change what is written or read, and a value of a type whose fields are all capitalized, decoded into a
  variable that is still empty, leaves the count as it was.
\<close>

lemma LabDecode_quiet:
  assumes "closedMarks tab st" "finite (typeGraph tab t)" "card (typeGraph tab t) < n"
    "\<forall>u\<in>typeGraph tab t. badFields (tab u) = 0" "var = None \<or> (\<exists>v. var = Some v \<and> allZero v)"
  shows "\<exists>st'. LabDecode n tab t var as_type st r = Some (st', Decode as_type r) \<and> errorCount st' = errorCount st"
proof -
  obtain st' where st': "checkType n tab t st = Some st'"
    using check_enough [OF assms(2), of tab t st n] assms(3) card_mono [OF assms(2), of "typeGraph tab t - checked st"]
    by (auto intro: typeGraph.intros)
  have w: "errorCount st' = errorCount st + (\<Sum>u \<in> checked st' - checked st. badFields (tab u))"
    "checked st' \<subseteq> checked st \<union> typeGraph tab t" using check_walked(1) [OF st'] by (auto simp: walked_def)
  have "(\<Sum>u \<in> checked st' - checked st. badFields (tab u)) = 0" using w(2) assms(4) by (intro sum.neutral) auto
  then show ?thesis using st' w(1) assms(5)
    by (auto simp: LabDecode_def checkValue_def checkDefault_def checkDefault1_quiet)
qed

end
