(* ===== verification/Spec2Isabelle.thy ===== *)
theory Spec2Isabelle
  imports Raft_Harness_Runs KvRaft_Harness ShardKV_Harness KvRaft_Group ShardCtrler_Group ShardKV_Group KvClerk_Runs ShardCtrler_Clerk ShardKV_Contents ShardKV_Clerk
    MR_Apps MR_Loop Porcupine Labrpc_Net Labgob_Check
begin

text \<open>
  \<^bold>\<open>A verification library for the 6.824 labs\<close> (Go sources under \<^verbatim>\<open>src/src\<close>).

  \<^bold>\<open>The program.\<close> Five layers. \<^verbatim>\<open>raft\<close> replicates a log among servers that crash and lose messages;
  \<^verbatim>\<open>kvraft\<close> is a key/value store that applies that log; \<^verbatim>\<open>shardctrler\<close> applies its own log to a history of
  configurations that assign ten shards to replica groups; \<^verbatim>\<open>shardkv\<close> is the store split over such groups, which
  move shards between them when the configuration changes; clerks (\<^verbatim>\<open>client.go\<close> of each) retry requests until a
  leader answers. Services call \<^verbatim>\<open>Start\<close> and \<^verbatim>\<open>Snapshot\<close> of Raft and receive committed commands over a
  channel; duplicates of a request are recognised by client identifier and sequence number. \<^verbatim>\<open>mr\<close> is a
  MapReduce job with a coordinator and workers that share a file system. \<^verbatim>\<open>models\<close> is the sequential
  specification against which the tests check histories, and \<^verbatim>\<open>porcupine\<close> the linearizability checker that does it.

  \<^bold>\<open>Conventions.\<close> A struct is a record, an error code a datatype, a Go map a map or a finite map (an
  association list where the code ranges over it and sends the result). A method that holds the lock is a
  function from the state before to the state after and its result; a method that releases the lock in
  between (\<^verbatim>\<open>replicateTo\<close>, \<^verbatim>\<open>submitAndWait\<close>, \<^verbatim>\<open>applier\<close>) is one function per lock region. Out-of-range indexing
  is the value \<^term>\<open>Inl IndexOutOfRange\<close>. \<^verbatim>\<open>int\<close> is unbounded where it counts events; identifiers and hashes are
  words of their width. Clocks, random numbers, the sizes of encodings and the answers of remote servers are
  arguments. Loops that end are functions with a measure; the retry loops, which may not, take a bound on
  the number of attempts, and the theorems say which bound is enough.

  \<^bold>\<open>Theories.\<close>
  \<^item> \<^verbatim>\<open>Go_Prelude\<close>, \<^verbatim>\<open>Go_Fmt\<close>: panics, checked indexing, quorums, decimal numbers in names.
  \<^item> \<^verbatim>\<open>Labgob\<close>: encoding as a list of values; the locale \<^verbatim>\<open>codec\<close> is the contract of an encoder and decoder pair,
    interpreted for Raft's state and for the snapshots of both stores. \<^verbatim>\<open>Labgob_Check\<close>: the checks of types and of
    variables that are decoded into.
  \<^item> \<^verbatim>\<open>Labrpc\<close>, \<^verbatim>\<open>Labrpc_Net\<close>: the simulated network, its servers and services, and its runs; a call is executed at most
    once, and the network refines a channel that loses calls and replies, which is what \<^verbatim>\<open>Raft_Cluster\<close> assumes of it.
  \<^item> \<^verbatim>\<open>Raft_Persister\<close>, \<^verbatim>\<open>Raft_Node\<close>: \<^verbatim>\<open>persister.go\<close> and all of \<^verbatim>\<open>raft.go\<close> for one server.
  \<^item> \<^verbatim>\<open>Raft_Node_Inv\<close>: runs of one server; what is in memory is also on disk whenever a reply leaves the server,
    so a restart recovers it; terms and votes only move forward.
  \<^item> \<^verbatim>\<open>Raft_Log\<close>: the log as a function of global indices; \<^verbatim>\<open>AppendEntries\<close> against a reference merge,
    commitment by majority, compaction, the apply loop.
  \<^item> \<^verbatim>\<open>Raft_Cluster\<close>, \<^verbatim>\<open>Raft_Election\<close>: a group of servers with a network that loses, delays and reorders, crashes and
    restarts; election safety by an invariant over its reachable states, resting on the locale
    \<^verbatim>\<open>quorum_system\<close>.
  \<^item> \<^verbatim>\<open>Raft_Leaders\<close>, \<^verbatim>\<open>Raft_Safety_Inv\<close>, \<^verbatim>\<open>Raft_Safety_Votes\<close>, \<^verbatim>\<open>Raft_Safety_Log\<close>, \<^verbatim>\<open>Raft_Safety_Steps\<close>,
    \<^verbatim>\<open>Raft_Safety\<close>: the logs of all leaders and the acknowledgements as a history beside the run, leader completeness
    over histories, the invariant that ties servers and messages to the history, its preservation by the steps of
    elections, of log changes and of the rest, and the safety theorems for whole runs. A run there is one in which the
    service calls \<^verbatim>\<open>Snapshot\<close> only for committed indices.
  \<^item> \<^verbatim>\<open>Raft_Service\<close>: a Raft group with the services that read its apply channels. The locale \<^verbatim>\<open>replicated_service\<close> is what a service
    must do with commands, snapshots and restarts; it gives that all replicas are in the states of prefixes of one growing sequence of commands,
    and that \<^verbatim>\<open>Snapshot\<close> is called only for committed indices. The locale \<^verbatim>\<open>total_service\<close> gives that the apply loop never panics.
    \<^verbatim>\<open>KvRaft_Group\<close>, \<^verbatim>\<open>ShardCtrler_Group\<close>, \<^verbatim>\<open>ShardKV_Group\<close> interpret it for the three services; the last one only if snapshots
    are installed while no command is queued. \<^verbatim>\<open>Raft_Late\<close>: the run of three servers in which a command reaches a service after a snapshot that
    covers it; \<^verbatim>\<open>ShardKV_Group\<close> shows that it leaves the replicas of a sharded group in states that no sequence of commands explains.
  \<^item> \<^verbatim>\<open>Raft_Harness\<close>, \<^verbatim>\<open>Raft_Harness_Runs\<close>: \<^verbatim>\<open>raft/config.go\<close>, the harness of the Raft tests. Connections follow the switches; on a
    Raft group the harness reports neither different commands at an index, nor commands out of order, nor two leaders of a term.
    \<^verbatim>\<open>KvRaft_Harness\<close>: \<^verbatim>\<open>kvraft/config.go\<close>; the partition that a test makes cuts the leader off from every majority. \<^verbatim>\<open>ShardKV_Harness\<close>:
    \<^verbatim>\<open>shardkv/config.go\<close>; names of servers are distinct and started groups are found under the names that join announces.
  \<^item> \<^verbatim>\<open>Dedup\<close>: the locales \<^verbatim>\<open>dup_table\<close> and \<^verbatim>\<open>dup_machine\<close>, the contract of a state machine behind a duplicate table; exactly-once
    execution is proved once there and interpreted for \<^verbatim>\<open>kvraft\<close>, \<^verbatim>\<open>shardctrler\<close> and \<^verbatim>\<open>shardkv\<close>.
  \<^item> \<^verbatim>\<open>Notify\<close>: the table of waiting handlers and their channels, shared by the three servers.
  \<^item> \<^verbatim>\<open>Models_Kv\<close>: \<^verbatim>\<open>models/kv.go\<close>. \<^verbatim>\<open>KvRaft\<close>: \<^verbatim>\<open>kvraft/server.go\<close>, refinement of the model, snapshots.
  \<^item> \<^verbatim>\<open>ClientId\<close>, \<^verbatim>\<open>Clerk_Retry\<close>, \<^verbatim>\<open>KvClerk\<close>, \<^verbatim>\<open>ShardCtrler_Clerk\<close>, \<^verbatim>\<open>ShardKV_Clerk\<close>: the clerks; the locale \<^verbatim>\<open>retry_policy\<close> gives
    that the leader is found within as many attempts as there are servers. \<^verbatim>\<open>KvClerk_Runs\<close>: clerks with the log that they fill; every
    write is executed exactly once.
  \<^item> \<^verbatim>\<open>ShardCtrler_Config\<close>, \<^verbatim>\<open>ShardCtrler\<close>: \<^verbatim>\<open>rebalance\<close> loop by loop and the controller.
  \<^item> \<^verbatim>\<open>ShardKV\<close>, \<^verbatim>\<open>ShardKV_Props\<close>, \<^verbatim>\<open>ShardKV_Migration\<close>, \<^verbatim>\<open>ShardKV_Contents\<close>: a server of a replica group, its lemmas, and all groups
    together, each as one state machine; no shard is served by two groups, a group that serves a shard holds all writes ever executed on it, and
    no write is executed twice, as long as no configuration after the first leaves a shard without an owner, which holds of the
    controller's histories in which there is always a group after the first Join.
  \<^item> \<^verbatim>\<open>MR_Coordinator\<close>, \<^verbatim>\<open>MR_Worker\<close>, \<^verbatim>\<open>MR_Loop\<close>, \<^verbatim>\<open>MR_Job\<close>: the coordinator with its task book, the tasks on a file system,
    the worker loop, and the equivalence of a job with \<^verbatim>\<open>main/mrsequential.go\<close>; the locale \<^verbatim>\<open>key_sort\<close> is the
    contract of the library's sort. \<^verbatim>\<open>MR_Apps\<close>: the applications of \<^verbatim>\<open>mrapps\<close>; what word count and the index print, from the
    texts on.
  \<^item> \<^verbatim>\<open>Porcupine_Bitset\<close>, \<^verbatim>\<open>Porcupine_List\<close>, \<^verbatim>\<open>Porcupine_Check\<close>: the checker's bit sets, its doubly linked list as a store of
    nodes, and \<^verbatim>\<open>checkSingle\<close> round by round. \<^verbatim>\<open>Porcupine_Linz\<close>: linearizability of a history, as an order of all
    operations and as the search finds it. \<^verbatim>\<open>Porcupine_Search\<close>: the search decides it. \<^verbatim>\<open>Porcupine_Entries\<close>: entries
    from operations and from events; the locale \<^verbatim>\<open>time_sort\<close> is the contract of sorting by time. \<^verbatim>\<open>Porcupine\<close>:
    \<^verbatim>\<open>checkParallel\<close> and the entry points; checking key by key decides linearizability of the whole store.

  \<^bold>\<open>Bounds.\<close> \<^verbatim>\<open>retryLoop\<close> and the clerks: as many attempts as servers suffice when one answers. \<^verbatim>\<open>clerkRounds\<close>: one round
  per configuration asked for. \<^verbatim>\<open>soloWorker\<close>: one request per task and two more. \<^verbatim>\<open>searchLoop\<close>: \<^verbatim>\<open>searchBound n\<close>
  rounds, \<^verbatim>\<open>(2n + 1)^n + 1\<close> for \<^verbatim>\<open>n\<close> operations, because the positions on the stack, read as digits, increase with every
  round. \<^verbatim>\<open>listLength\<close>: the number of nodes. \<^verbatim>\<open>checkType\<close>: more than the number of types
  reachable from the type. No other definition has a bound.

  \<^bold>\<open>Not modelled.\<close> The drawing of histories (\<^verbatim>\<open>porcupine/visualization.go\<close> and the partial linearizations collected
  for it), gob's byte format, \<^verbatim>\<open>shardctrler/config.go\<close>, which repeats \<^verbatim>\<open>kvraft/config.go\<close>, the time limits and the
  clean-up of the test harnesses, command-line programs other than \<^verbatim>\<open>mrsequential\<close>,
  the plug-ins that measure parallelism (\<^verbatim>\<open>mtiming\<close>, \<^verbatim>\<open>rtiming\<close>), and operating-system calls that open sockets or remove
  files. Texts given to the applications are ASCII.
\<close>

end
